(* ===== verification/KPrelude.thy ===== *)
theory KPrelude
  imports Main "HOL-Library.Word" "HOL-Library.Monad_Syntax"
begin

text \<open>
  Shared vocabulary of the development.

  \<^item> Outcomes. A kernel function that can hit a failed \<open>assert\<close>, a \<open>panic\<close> or undefined
    behaviour returns an option: \<open>None\<close> is that stop, \<open>Some\<close> the normal return. A function
    that returns an error code in C returns \<open>errno + 'a\<close> inside: \<open>Inl e\<close> is the code, \<open>Inr x\<close>
    success. State the C function mutates is returned beside the result, on the error paths too.
  \<^item> C integers. \<open>int\<close> of C is \<open>int\<close> here, and every arithmetic result that C computes in
    \<open>int\<close> and that may leave the 32-bit range goes through \<open>c_int\<close>, which is \<open>None\<close> on
    overflow (undefined behaviour in C). \<open>c_rem\<close> is the remainder operator, which truncates
    towards zero. Unsigned C integers are words where wrap-around
    matters.
  \<^item> Memory blocks obtained from \<open>kmalloc\<close> are lists of cells; \<open>peek\<close>, \<open>poke\<close> and
    \<open>blk_move\<close> access them and are \<open>None\<close> outside the block.
\<close>

named_theorems kmonad \<open>rules that take the option monad of the model apart\<close>
named_theorems kblock \<open>facts about memory blocks\<close>

section \<open>Error codes\<close>

datatype errno =
    EINVAL | EFAULT | ENAMETOOLONG | ENOMEM | EIO | ENOENT | ENOTDIR | EISDIR | EEXIST
  | EXDEV | EAGAIN | ESPIPE | EUNIMP | ENXIO | ENODEV | EBUSY | EIOCTL | ENOTEMPTY
  | ERANGE | ENOSPC | EMFILE | ENFILE | ENOSYS | ENOEXEC | E2BIG | EBADF

type_synonym 'a kres = "errno + 'a"

section \<open>Assertions, C integers and memory blocks\<close>

definition kassert :: "bool \<Rightarrow> unit option" where
  "kassert b = (if b then Some () else None)"

definition c_int :: "int \<Rightarrow> int option" where
  "c_int x = (if - (2 ^ 31) \<le> x \<and> x < 2 ^ 31 then Some x else None)"

definition c_rem :: "int \<Rightarrow> int \<Rightarrow> int option" where
  "c_rem a b = (if b = 0 then None else Some (sgn a * (\<bar>a\<bar> mod \<bar>b\<bar>)))"

definition ptr_bytes :: "int \<Rightarrow> nat" where
  "ptr_bytes n = nat ((n * 4) mod 2 ^ 32)"

definition peek :: "'a list \<Rightarrow> int \<Rightarrow> 'a option" where
  "peek xs i = (if 0 \<le> i \<and> i < int (length xs) then Some (xs ! nat i) else None)"

definition poke :: "'a list \<Rightarrow> int \<Rightarrow> 'a \<Rightarrow> 'a list option" where
  "poke xs i x = (if 0 \<le> i \<and> i < int (length xs) then Some (xs[nat i := x]) else None)"

definition blk_move :: "'a list \<Rightarrow> int \<Rightarrow> int \<Rightarrow> int \<Rightarrow> 'a list option" where
  "blk_move xs dst src n =
     (if 0 \<le> n \<and> 0 \<le> dst \<and> 0 \<le> src \<and> dst + n \<le> int (length xs) \<and> src + n \<le> int (length xs)
      then Some (take (nat dst) xs @ take (nat n) (drop (nat src) xs) @ drop (nat (dst + n)) xs)
      else None)"

definition kmalloc_ok :: "(nat \<Rightarrow> 'a list option) \<Rightarrow> bool" where
  "kmalloc_ok km \<longleftrightarrow> (\<forall>n b. km n = Some b \<longrightarrow> length b = n div 4)"

text \<open>\<open>bzero\<close> on a block, and the bytes \<open>kmalloc\<close> returns for a byte count.\<close>

definition bzero :: "8 word list \<Rightarrow> nat \<Rightarrow> 8 word list option" where
  "bzero v n = (if n \<le> length v then Some (replicate n 0 @ drop n v) else None)"

definition kmalloc_bytes_ok :: "(nat \<Rightarrow> 8 word list option) \<Rightarrow> bool" where
  "kmalloc_bytes_ok km \<longleftrightarrow> (\<forall>n b. km n = Some b \<longrightarrow> length b = n)"

subsection \<open>Taking the monad apart\<close>

lemma bind_kassert [simp]: "(kassert b \<bind> f) = (if b then f () else None)"
  by (simp add: kassert_def)

lemma kassert_Some [simp]: "kassert b = Some u \<longleftrightarrow> b"
  by (simp add: kassert_def)

lemma c_int_Some_iff: "c_int x = Some y \<longleftrightarrow> y = x \<and> - (2 ^ 31) \<le> x \<and> x < 2 ^ 31"
  by (auto simp: c_int_def)

lemma c_int_ok [simp]: "- (2 ^ 31) \<le> x \<Longrightarrow> x < 2 ^ 31 \<Longrightarrow> c_int x = Some x"
  by (simp add: c_int_def)

lemma bind_c_int_Some:
  "(c_int x \<bind> f) = Some y \<longleftrightarrow> - (2 ^ 31) \<le> x \<and> x < 2 ^ 31 \<and> f x = Some y"
  by (auto simp: c_int_def)

lemma c_rem_nonneg [simp]: "0 \<le> a \<Longrightarrow> 0 < b \<Longrightarrow> c_rem a b = Some (a mod b)"
  by (cases "a = 0") (auto simp: c_rem_def sgn_if)

lemmas bind_Some_iff = Option.bind_eq_Some_conv

declare bind_Some_iff [kmonad] bind_c_int_Some [kmonad] c_int_Some_iff [kmonad]

subsection \<open>Block accesses\<close>

lemma peek_Some_iff [kblock]:
  "peek xs i = Some x \<longleftrightarrow> 0 \<le> i \<and> i < int (length xs) \<and> x = xs ! nat i"
  by (auto simp: peek_def)

lemma poke_Some_iff [kblock]:
  "poke xs i x = Some ys \<longleftrightarrow> 0 \<le> i \<and> i < int (length xs) \<and> ys = xs[nat i := x]"
  by (auto simp: poke_def)

lemma peek_ok [simp]: "0 \<le> i \<Longrightarrow> i < int (length xs) \<Longrightarrow> peek xs i = Some (xs ! nat i)"
  by (simp add: peek_def)

lemma poke_ok [simp]: "0 \<le> i \<Longrightarrow> i < int (length xs) \<Longrightarrow> poke xs i x = Some (xs[nat i := x])"
  by (simp add: poke_def)

lemma length_blk_move: "blk_move xs d s n = Some ys \<Longrightarrow> length ys = length xs"
  by (auto simp: blk_move_def min_def nat_add_distrib split: if_splits)

lemma ptr_bytes_div4: "0 \<le> n \<Longrightarrow> n < 2 ^ 30 \<Longrightarrow> ptr_bytes n div 4 = nat n"
  by (simp add: ptr_bytes_def nat_mult_distrib)

lemma kmalloc_ok_len:
  "kmalloc_ok km \<Longrightarrow> km (ptr_bytes n) = Some b \<Longrightarrow> 0 \<le> n \<Longrightarrow> n < 2 ^ 30 \<Longrightarrow> length b = nat n"
  by (simp add: kmalloc_ok_def ptr_bytes_div4)

section \<open>Transition systems\<close>

text \<open>
  The states a step relation reaches from its initial states, and the interface of an
  invariant: it holds at the start and every step keeps it.
\<close>

inductive reachable :: "('s \<Rightarrow> bool) \<Rightarrow> ('s \<Rightarrow> 's \<Rightarrow> bool) \<Rightarrow> 's \<Rightarrow> bool" for init step where
  reach_start: "init s \<Longrightarrow> reachable init step s"
| reach_next: "reachable init step s \<Longrightarrow> step s s' \<Longrightarrow> reachable init step s'"

locale invariant_of =
  fixes init :: "'s \<Rightarrow> bool" and step :: "'s \<Rightarrow> 's \<Rightarrow> bool" and inv :: "'s \<Rightarrow> bool"
  assumes inv_start: "init s \<Longrightarrow> inv s"
    and inv_next: "inv s \<Longrightarrow> step s s' \<Longrightarrow> inv s'"
begin

lemma reachable_inv: "reachable init step s \<Longrightarrow> inv s"
  by (induction rule: reachable.induct) (blast intro: inv_start inv_next)+

lemma steps_inv: "inv s \<Longrightarrow> step\<^sup>*\<^sup>* s s' \<Longrightarrow> inv s'"
  by (rotate_tac, induction rule: rtranclp_induct) (blast intro: inv_next)+

end

lemma distinct_bounded_length: "distinct xs \<Longrightarrow> set xs \<subseteq> {..<n} \<Longrightarrow> length xs \<le> n"
  using card_mono [of "{..<n}" "set xs"] by (simp add: distinct_card)

end
