(* ===== verification/KArray.thy ===== *)
theory KArray
  imports KPrelude
begin

text \<open>
  The resizable array of pointers of \<open>kern/lib/array.c\<close>. Its record, its operations, the
  invariant they keep and the list of elements they stand for. The block \<open>kmalloc\<close> returns is
  given by the argument \<open>km\<close>: \<open>km n\<close> is \<open>None\<close> when the allocation of \<open>n\<close> bytes fails, and
  otherwise a block of that size with unspecified contents.

  The locale \<open>vector\<close> states what the users of the array rely on when they walk over it
  (\<open>array_getnum\<close> and \<open>array_getguy\<close> agree with one list); the linear search that those
  users run is proved once inside it.
\<close>

section \<open>Data and operations\<close>

record 'a array =
  a_num :: int
  a_max :: int
  a_v :: "'a list option"

definition array_create :: "bool \<Rightarrow> 'a array option" where
  "array_create mem = (if mem then Some \<lparr>a_num = 0, a_max = 0, a_v = None\<rparr> else None)"

definition array_getnum :: "'a array \<Rightarrow> int" where
  "array_getnum a = a_num a"

definition array_getguy :: "'a array \<Rightarrow> int \<Rightarrow> 'a option" where
  "array_getguy a index = do {
     kassert (a_num a \<le> a_max a);
     kassert (0 \<le> index \<and> index < a_num a);
     v \<leftarrow> a_v a;
     peek v index
   }"

text \<open>The loop \<open>while (nguys > newmax) newmax = (newmax+1)*2\<close>.\<close>

partial_function (option) array_growmax :: "int \<Rightarrow> int \<Rightarrow> int option" where
  "array_growmax nguys newmax =
     (if nguys > newmax then do {
        m \<leftarrow> c_int (newmax + 1);
        m2 \<leftarrow> c_int (m * 2);
        array_growmax nguys m2
      } else Some newmax)"

declare array_growmax.simps [code]

text \<open>The copy loop \<open>for (i=0; i<a->num; i++) newv[i] = a->v[i]\<close>.\<close>

function array_copy :: "int \<Rightarrow> int \<Rightarrow> 'a list option \<Rightarrow> 'a list \<Rightarrow> 'a list option" where
  "array_copy i num v newv =
     (if i < num then do {
        old \<leftarrow> v;
        x \<leftarrow> peek old i;
        newv' \<leftarrow> poke newv i x;
        array_copy (i + 1) num v newv'
      } else Some newv)"
  by pat_completeness auto
termination
  by (relation "measure (\<lambda>(i, num, v, newv). nat (num - i))") auto

definition array_preallocate ::
  "(nat \<Rightarrow> 'a list option) \<Rightarrow> int \<Rightarrow> 'a array \<Rightarrow> (unit kres \<times> 'a array) option" where
  "array_preallocate km nguys a = do {
     kassert (0 \<le> a_num a \<and> a_num a \<le> a_max a);
     newmax \<leftarrow> array_growmax nguys (a_max a);
     case km (ptr_bytes newmax) of
       None \<Rightarrow> Some (Inl ENOMEM, a)
     | Some newv \<Rightarrow> do {
         newv' \<leftarrow> array_copy 0 (a_num a) (a_v a) newv;
         Some (Inr (), a\<lparr>a_max := newmax, a_v := Some newv'\<rparr>)
       }
   }"

definition array_setsize ::
  "(nat \<Rightarrow> 'a list option) \<Rightarrow> int \<Rightarrow> 'a array \<Rightarrow> (unit kres \<times> 'a array) option" where
  "array_setsize km nguys a = do {
     kassert (0 \<le> a_num a \<and> a_num a \<le> a_max a);
     if nguys > a_max a then do {
       (result, a') \<leftarrow> array_preallocate km nguys a;
       case result of
         Inl e \<Rightarrow> Some (Inl e, a')
       | Inr _ \<Rightarrow> Some (Inr (), a'\<lparr>a_num := nguys\<rparr>)
     }
     else if nguys = 0 \<and> a_max a > 16 then do {
       kassert (a_v a \<noteq> None);
       Some (Inr (), a\<lparr>a_v := None, a_max := 0, a_num := nguys\<rparr>)
     }
     else Some (Inr (), a\<lparr>a_num := nguys\<rparr>)
   }"

definition array_setguy :: "int \<Rightarrow> 'a \<Rightarrow> 'a array \<Rightarrow> 'a array option" where
  "array_setguy index ptr a = do {
     kassert (a_num a \<le> a_max a);
     kassert (0 \<le> index \<and> index < a_num a);
     v \<leftarrow> a_v a;
     v' \<leftarrow> poke v index ptr;
     Some (a\<lparr>a_v := Some v'\<rparr>)
   }"

definition array_add ::
  "(nat \<Rightarrow> 'a list option) \<Rightarrow> 'a \<Rightarrow> 'a array \<Rightarrow> (unit kres \<times> 'a array) option" where
  "array_add km guy a = do {
     ix1 \<leftarrow> c_int (a_num a + 1);
     (result, a') \<leftarrow> array_setsize km ix1 a;
     case result of
       Inl e \<Rightarrow> Some (Inl e, a')
     | Inr _ \<Rightarrow> do {
         v \<leftarrow> a_v a';
         v' \<leftarrow> poke v (a_num a) guy;
         Some (Inr (), a'\<lparr>a_v := Some v'\<rparr>)
       }
   }"

definition array_remove :: "int \<Rightarrow> 'a array \<Rightarrow> 'a array option" where
  "array_remove index a = do {
     kassert (a_num a \<le> a_max a);
     kassert (0 \<le> index \<and> index < a_num a);
     nmove \<leftarrow> c_int (a_num a - (index + 1));
     v \<leftarrow> a_v a;
     v' \<leftarrow> blk_move v index (index + 1) nmove;
     Some (a\<lparr>a_v := Some v', a_num := a_num a - 1\<rparr>)
   }"

section \<open>Invariant and list view\<close>

definition array_cells :: "'a array \<Rightarrow> 'a list" where
  "array_cells a = (case a_v a of None \<Rightarrow> [] | Some v \<Rightarrow> v)"

definition array_ok :: "'a array \<Rightarrow> bool" where
  "array_ok a \<longleftrightarrow> 0 \<le> a_num a \<and> a_num a \<le> a_max a \<and> a_max a < 2 ^ 30 \<and>
     length (array_cells a) = nat (a_max a) \<and> (a_v a = None \<longrightarrow> a_max a = 0)"

definition array_list :: "'a array \<Rightarrow> 'a list" where
  "array_list a = take (nat (a_num a)) (array_cells a)"

section \<open>What the operations do\<close>

lemma array_growmax_returns:
  assumes "0 \<le> m" and "m < 2 ^ 30" and "nguys \<le> 2 ^ 28"
  shows "\<exists>r. array_growmax nguys m = Some r \<and> m \<le> r \<and> nguys \<le> r \<and> r < 2 ^ 30"
  using assms
proof (induction "nat (nguys - m)" arbitrary: m rule: less_induct)
  case less
  show ?case
  proof (cases "nguys > m")
    case True
    then have "nat (nguys - (m + 1) * 2) < nat (nguys - m)" and "(m + 1) * 2 < 2 ^ 30"
      using less.prems by auto
    then obtain r where "array_growmax nguys ((m + 1) * 2) = Some r \<and> (m + 1) * 2 \<le> r \<and>
        nguys \<le> r \<and> r < 2 ^ 30"
      using less.hyps [of "(m + 1) * 2"] less.prems by auto
    with True less.prems show ?thesis
      by (subst array_growmax.simps) auto
  next
    case False
    with less.prems show ?thesis by (subst array_growmax.simps) simp
  qed
qed

lemma array_growmax_enough [simp]: "nguys \<le> m \<Longrightarrow> array_growmax nguys m = Some m"
  by (subst array_growmax.simps) simp

declare array_copy.simps [simp del]

lemma array_copy_done [simp]: "num \<le> i \<Longrightarrow> array_copy i num v newv = Some newv"
  by (simp add: array_copy.simps)

lemma array_copy_spec:
  "0 \<le> i \<Longrightarrow> i \<le> num \<Longrightarrow> num \<le> int (length old) \<Longrightarrow> num \<le> int (length newv) \<Longrightarrow>
   array_copy i num (Some old) newv =
     Some (take (nat i) newv @ drop (nat i) (take (nat num) old) @ drop (nat num) newv)"
proof (induction i num "Some old" newv rule: array_copy.induct)
  case (1 i num newv)
  show ?case
  proof (cases "i < num")
    case True
    have "array_copy (i + 1) num (Some old) (newv[nat i := old ! nat i]) =
        Some (take (nat (i + 1)) (newv[nat i := old ! nat i]) @
              drop (nat (i + 1)) (take (nat num) old) @ drop (nat num) (newv[nat i := old ! nat i]))"
      using 1 True by simp
    moreover have "nat i < length newv" and "nat i < length (take (nat num) old)"
      using 1 True by auto
    ultimately show ?thesis
      using True 1(2-5)
      by (subst array_copy.simps)
        (simp add: nat_add_distrib take_Suc_conv_app_nth Cons_nth_drop_Suc [symmetric])
  next
    case False
    with 1(2-5) show ?thesis by simp
  qed
qed

lemma array_ok_cells: "array_ok a \<Longrightarrow> length (array_cells a) = nat (a_max a)"
  by (simp add: array_ok_def)

lemma array_ok_bounds: "array_ok a \<Longrightarrow> 0 \<le> a_num a \<and> a_num a \<le> a_max a \<and> a_max a < 2 ^ 30"
  by (simp add: array_ok_def)

lemma length_array_list [simp]: "array_ok a \<Longrightarrow> length (array_list a) = nat (a_num a)"
  by (auto simp: array_list_def array_ok_def)

lemma array_copy_cells:
  assumes "array_ok a" and "a_num a \<le> int (length newv)"
  shows "array_copy 0 (a_num a) (a_v a) newv = Some (array_list a @ drop (nat (a_num a)) newv)"
proof (cases "a_v a")
  case None
  with assms have "a_num a = 0" by (simp add: array_ok_def)
  with None show ?thesis by (simp add: array_list_def array_cells_def)
next
  case (Some old)
  with assms have "a_num a \<le> int (length old)" by (simp add: array_ok_def array_cells_def)
  with Some assms show ?thesis
    by (simp add: array_copy_spec array_ok_bounds array_list_def array_cells_def)
qed

lemma array_preallocate_cases:
  assumes ok: "array_ok a" and km: "kmalloc_ok km" and bound: "nguys \<le> 2 ^ 28"
  obtains (nomem) "array_preallocate km nguys a = Some (Inl ENOMEM, a)" and "\<exists>n. km n = None"
  | (grown) a' where "array_preallocate km nguys a = Some (Inr (), a')" and "array_ok a'"
      and "array_list a' = array_list a" and "a_num a' = a_num a"
      and "nguys \<le> a_max a'" and "a_max a \<le> a_max a'" and "a_v a' \<noteq> None"
proof -
  obtain r where r: "array_growmax nguys (a_max a) = Some r" "a_max a \<le> r" "nguys \<le> r" "r < 2 ^ 30"
    using array_growmax_returns [of "a_max a" nguys] array_ok_bounds [OF ok] bound by auto
  show ?thesis
  proof (cases "km (ptr_bytes r)")
    case None
    then have "array_preallocate km nguys a = Some (Inl ENOMEM, a)" using r ok by (simp add: array_preallocate_def array_ok_def)
    then show ?thesis using None by (intro nomem) auto
  next
    case (Some newv)
    with km r array_ok_bounds [OF ok] have len: "length newv = nat r"
      by (intro kmalloc_ok_len [of km]) auto
    with r array_ok_bounds [OF ok] have "a_num a \<le> int (length newv)" by simp
    then have copy: "array_copy 0 (a_num a) (a_v a) newv = Some (array_list a @ drop (nat (a_num a)) newv)"
      using ok by (rule array_copy_cells [rotated])
    let ?a' = "a\<lparr>a_max := r, a_v := Some (array_list a @ drop (nat (a_num a)) newv)\<rparr>"
    have "array_preallocate km nguys a = Some (Inr (), ?a')"
      using r Some copy ok by (simp add: array_preallocate_def array_ok_def)
    moreover have "array_ok ?a'" "array_list ?a' = array_list a"
      using len r array_ok_bounds [OF ok] ok by (auto simp: array_ok_def array_cells_def array_list_def)
    ultimately show ?thesis using r grown by simp
  qed
qed

lemma array_setsize_fits:
  assumes "array_ok a" and "0 \<le> n" and "n \<le> a_max a"
  shows "\<exists>a'. array_setsize km n a = Some (Inr (), a') \<and> array_ok a' \<and> a_num a' = n \<and>
           array_list a' = take (nat n) (array_cells a) \<and> a_max a' \<le> a_max a \<and>
           (0 < n \<longrightarrow> a_max a' = a_max a \<and> a_v a' = a_v a)"
  using assms
  by (auto simp: array_setsize_def array_ok_def array_cells_def array_list_def split: option.splits)

lemma array_add_fits:
  assumes "array_ok a" and "a_num a < a_max a"
  shows "\<exists>a'. array_add km x a = Some (Inr (), a') \<and> array_ok a' \<and>
           array_list a' = array_list a @ [x] \<and> a_num a' = a_num a + 1 \<and> a_max a' = a_max a"
proof -
  obtain v where v: "a_v a = Some v" using assms by (auto simp: array_ok_def)
  with assms have "nat (a_num a) < length v" by (auto simp: array_ok_def array_cells_def)
  with v assms show ?thesis
    by (auto simp: array_add_def array_setsize_def array_ok_def array_cells_def array_list_def
        nat_add_distrib take_Suc_conv_app_nth)
qed

lemma array_add_cases:
  assumes ok: "array_ok a" and km: "kmalloc_ok km" and bound: "a_num a < 2 ^ 28"
  obtains (nomem) "array_add km x a = Some (Inl ENOMEM, a)" and "a_num a = a_max a" and "\<exists>n. km n = None"
  | (added) a' where "array_add km x a = Some (Inr (), a')" and "array_ok a'"
      and "array_list a' = array_list a @ [x]" and "a_num a' = a_num a + 1" and "a_max a \<le> a_max a'"
proof (cases "a_num a < a_max a")
  case True
  with array_add_fits [OF ok True, of km x] added show ?thesis by auto
next
  case False
  then have eq: "a_num a = a_max a" using ok by (simp add: array_ok_def)
  have c: "c_int (a_num a + 1) = Some (a_num a + 1)"
    using array_ok_bounds [OF ok] by simp
  have le: "a_num a + 1 \<le> 2 ^ 28" using bound by simp
  show ?thesis
  proof (cases rule: array_preallocate_cases [OF ok km le, case_names nomem grown])
    case nomem
    then have "array_add km x a = Some (Inl ENOMEM, a)" using c eq ok
      by (simp add: array_add_def array_setsize_def array_ok_def)
    then show ?thesis using eq nomem(2) that(1) by simp
  next
    case (grown a')
    define b where "b = a'\<lparr>a_num := a_num a + 1\<rparr>"
    obtain v where v: "a_v a' = Some v" using grown by blast
    have len: "nat (a_num a) < length v"
      using grown v ok by (auto simp: array_ok_def array_cells_def)
    have "array_add km x a = Some (Inr (), b\<lparr>a_v := Some (v[nat (a_num a) := x])\<rparr>)"
      using c eq grown v len ok by (simp add: array_add_def array_setsize_def array_ok_def b_def)
    moreover have "array_ok (b\<lparr>a_v := Some (v[nat (a_num a) := x])\<rparr>)"
      using grown v ok by (auto simp: array_ok_def array_cells_def b_def)
    moreover have "array_list (b\<lparr>a_v := Some (v[nat (a_num a) := x])\<rparr>) = array_list a @ [x]"
      using grown v len ok
      by (auto simp: array_list_def array_cells_def b_def nat_add_distrib take_Suc_conv_app_nth array_ok_def)
    ultimately show ?thesis using grown that(2) by (simp add: b_def)
  qed
qed

lemma take_close_gap:
  assumes "i < n" and "n \<le> length v"
  shows "take (n - 1) (take i v @ take (n - Suc i) (drop (Suc i) v) @ drop (n - 1) v) =
           take i (take n v) @ drop (Suc i) (take n v)"
proof -
  from assms(1) obtain d where "n = Suc (i + d)" using less_iff_Suc_add by blast
  with assms(2) show ?thesis by (simp add: drop_take)
qed

lemma array_remove_list:
  assumes "array_ok a" and "0 \<le> i" and "i < a_num a"
  shows "\<exists>a'. array_remove i a = Some a' \<and> array_ok a' \<and> a_max a' = a_max a \<and>
           a_num a' = a_num a - 1 \<and>
           array_list a' = take (nat i) (array_list a) @ drop (Suc (nat i)) (array_list a)"
proof -
  obtain v where v: "a_v a = Some v" using assms by (auto simp: array_ok_def)
  have len: "length v = nat (a_max a)" using v assms by (simp add: array_ok_def array_cells_def)
  obtain k n where kn: "i = int k" "a_num a = int n" "k < n" "n \<le> length v"
    using assms len zero_le_imp_eq_int [of i] zero_le_imp_eq_int [of "a_num a"]
    by (auto simp: array_ok_def)
  define v' where "v' = take k v @ take (n - Suc k) (drop (Suc k) v) @ drop (n - 1) v"
  have nums: "nat (int n - 1) = n - 1" "nat (int n - (int k + 1)) = n - Suc k" "nat (int k + 1) = Suc k"
    using kn by auto
  have "array_remove i a = Some (a\<lparr>a_v := Some v', a_num := a_num a - 1\<rparr>)"
    using kn v assms(1) by (simp add: array_remove_def array_ok_def blk_move_def v'_def nums)
  moreover have "take (n - 1) v' = take k (array_list a) @ drop (Suc k) (array_list a)"
    using kn v take_close_gap [of k n v] by (simp add: v'_def array_list_def array_cells_def)
  moreover have "length v' = length v" using kn by (simp add: v'_def)
  ultimately show ?thesis
    using assms v len kn by (auto simp: array_ok_def array_cells_def array_list_def nums)
qed

lemma array_getguy_list:
  assumes "array_ok a" and "0 \<le> i" and "i < array_getnum a"
  shows "array_getguy a i = Some (array_list a ! nat i)"
  using assms by (auto simp: array_getguy_def array_getnum_def array_ok_def array_cells_def
      array_list_def split: option.splits)

lemma array_setguy_list:
  assumes "array_ok a" and "0 \<le> i" and "i < a_num a"
  shows "\<exists>a'. array_setguy i x a = Some a' \<and> array_ok a' \<and> array_list a' = (array_list a)[nat i := x]"
proof -
  obtain v where v: "a_v a = Some v" using assms by (auto simp: array_ok_def)
  let ?a' = "a\<lparr>a_v := Some (v[nat i := x])\<rparr>"
  have "array_setguy i x a = Some ?a'" "array_ok ?a'" "array_list ?a' = (array_list a)[nat i := x]"
    using assms v by (auto simp: array_setguy_def array_ok_def array_cells_def array_list_def take_update_swap)
  then show ?thesis by blast
qed

section \<open>Walking over an array\<close>

text \<open>
  The loop the users of the array share:
  \<open>for (i=0; i<array_getnum(a); i++) { x = array_getguy(a, i); if (p(x)) ... }\<close>
  up to the first element that satisfies \<open>p\<close>. It is written over the two operations it calls.
\<close>

function scan_from ::
  "('arr \<Rightarrow> int) \<Rightarrow> ('arr \<Rightarrow> int \<Rightarrow> 'a option) \<Rightarrow> ('a \<Rightarrow> bool) \<Rightarrow> int \<Rightarrow> 'arr \<Rightarrow>
   (int \<times> 'a) option option" where
  "scan_from getnum getguy p i a =
     (if i < getnum a then do {
        x \<leftarrow> getguy a i;
        if p x then Some (Some (i, x)) else scan_from getnum getguy p (i + 1) a
      } else Some None)"
  by pat_completeness auto
termination
  by (relation "measure (\<lambda>(getnum, getguy, p, i, a). nat (getnum a - i))") auto

definition array_scan :: "('a \<Rightarrow> bool) \<Rightarrow> 'a array \<Rightarrow> (int \<times> 'a) option option" where
  "array_scan p a = scan_from array_getnum array_getguy p 0 a"

declare scan_from.simps [simp del]

locale vector =
  fixes inv :: "'arr \<Rightarrow> bool"
    and view :: "'arr \<Rightarrow> 'a list"
    and getnum :: "'arr \<Rightarrow> int"
    and getguy :: "'arr \<Rightarrow> int \<Rightarrow> 'a option"
  assumes getnum_view: "inv a \<Longrightarrow> getnum a = int (length (view a))"
    and getguy_view: "inv a \<Longrightarrow> 0 \<le> i \<Longrightarrow> i < getnum a \<Longrightarrow> getguy a i = Some (view a ! nat i)"
begin

lemma scan_from_cases:
  assumes "inv a" and "0 \<le> k" and "k \<le> getnum a"
  shows "(scan_from getnum getguy p k a = Some None \<and> (\<forall>x \<in> set (drop (nat k) (view a)). \<not> p x)) \<or>
    (\<exists>i. scan_from getnum getguy p k a = Some (Some (i, view a ! nat i)) \<and> k \<le> i \<and> i < getnum a \<and>
       p (view a ! nat i) \<and> (\<forall>j. nat k \<le> j \<and> j < nat i \<longrightarrow> \<not> p (view a ! j)))"
  using assms(2,3)
proof (induction "nat (getnum a - k)" arbitrary: k rule: less_induct)
  case less
  show ?case
  proof (cases "k < getnum a")
    case True
    have split: "drop (nat k) (view a) = view a ! nat k # drop (nat (k + 1)) (view a)"
      using True less.prems assms(1)
      by (simp add: getnum_view Cons_nth_drop_Suc nat_add_distrib)
    show ?thesis
    proof (cases "p (view a ! nat k)")
      case hit: True
      have "scan_from getnum getguy p k a = Some (Some (k, view a ! nat k))"
        by (subst scan_from.simps) (use True hit less.prems assms(1) in \<open>simp add: getguy_view\<close>)
      with True hit show ?thesis by auto
    next
      case miss: False
      have step: "scan_from getnum getguy p k a = scan_from getnum getguy p (k + 1) a"
        by (subst scan_from.simps) (use True miss less.prems assms(1) in \<open>simp add: getguy_view\<close>)
      have ord: "nat k \<le> j \<Longrightarrow> j \<noteq> nat k \<Longrightarrow> nat (k + 1) \<le> j" for j
        using less.prems by simp
      from less.hyps [of "k + 1"] True less.prems
      have "(scan_from getnum getguy p (k + 1) a = Some None \<and>
               (\<forall>x \<in> set (drop (nat (k + 1)) (view a)). \<not> p x)) \<or>
        (\<exists>i. scan_from getnum getguy p (k + 1) a = Some (Some (i, view a ! nat i)) \<and> k + 1 \<le> i \<and>
           i < getnum a \<and> p (view a ! nat i) \<and>
           (\<forall>j. nat (k + 1) \<le> j \<and> j < nat i \<longrightarrow> \<not> p (view a ! j)))"
        by simp
      then show ?thesis
      proof (elim disjE exE conjE)
        assume "scan_from getnum getguy p (k + 1) a = Some None"
          and "\<forall>x \<in> set (drop (nat (k + 1)) (view a)). \<not> p x"
        with step split miss show ?thesis by simp
      next
        fix i
        assume i: "scan_from getnum getguy p (k + 1) a = Some (Some (i, view a ! nat i))"
          "k + 1 \<le> i" "i < getnum a" "p (view a ! nat i)"
          "\<forall>j. nat (k + 1) \<le> j \<and> j < nat i \<longrightarrow> \<not> p (view a ! j)"
        have "\<forall>j. nat k \<le> j \<and> j < nat i \<longrightarrow> \<not> p (view a ! j)"
          using i(5) miss ord by blast
        with i step show ?thesis by auto
      qed
    qed
  next
    case False
    with less.prems assms(1) have "scan_from getnum getguy p k a = Some None"
      and "drop (nat k) (view a) = []"
      by (simp_all add: scan_from.simps getnum_view)
    then show ?thesis by simp
  qed
qed

lemma scan_none_iff:
  assumes "inv a"
  shows "scan_from getnum getguy p 0 a = Some None \<longleftrightarrow> (\<forall>x \<in> set (view a). \<not> p x)"
  using scan_from_cases [OF assms, of 0 p] assms by (auto simp: getnum_view)

lemma scan_hit:
  assumes "inv a" and "scan_from getnum getguy p 0 a = Some (Some (i, x))"
  shows "0 \<le> i \<and> i < getnum a \<and> x = view a ! nat i \<and> p x \<and> (\<forall>j < nat i. \<not> p (view a ! j))"
  using scan_from_cases [OF assms(1), of 0 p] assms by (auto simp: getnum_view)

lemma scan_returns: "inv a \<Longrightarrow> \<exists>r. scan_from getnum getguy p 0 a = Some r"
  using scan_from_cases [of a 0 p] by (auto simp: getnum_view)

end

interpretation arr: vector array_ok array_list array_getnum array_getguy
  by unfold_locales (auto simp: array_getguy_list array_getnum_def dest: array_ok_bounds)

lemmas array_scan_none_iff = arr.scan_none_iff [folded array_scan_def]
lemmas array_scan_hit = arr.scan_hit [folded array_scan_def]
lemmas array_scan_returns = arr.scan_returns [folded array_scan_def]

section \<open>Properties\<close>

text \<open>
  \<open>array_add\<close> on a well-formed array always returns. It either appends the element to
  the list the array stands for, or reports \<open>ENOMEM\<close> and leaves the array as it was, and
  the latter only when the storage was full. \<open>km\<close> stands for what \<open>kmalloc\<close> returns.
\<close>

theorem array_add_appends:
  assumes "array_ok a" and "kmalloc_ok km" and "array_getnum a < 2 ^ 28"
  shows "\<exists>r a'. array_add km x a = Some (r, a') \<and> array_ok a' \<and>
    (r = Inr () \<and> array_list a' = array_list a @ [x] \<or>
     r = Inl ENOMEM \<and> a' = a \<and> a_num a = a_max a)"
proof -
  from assms(3) have "a_num a < 2 ^ 28" by (simp add: array_getnum_def)
  with assms(1,2) show ?thesis
    by (cases rule: array_add_cases [where x = x]) (use assms(1) in auto)
qed

theorem array_add_appends_witness:
  "\<exists>r a'. array_add (\<lambda>n. Some (replicate (n div 4) (0::nat))) 7 \<lparr>a_num = 1, a_max = 1, a_v = Some [5]\<rparr> =
     Some (r, a') \<and> array_ok a' \<and>
    (r = Inr () \<and> array_list a' = array_list \<lparr>a_num = 1, a_max = 1, a_v = Some [5]\<rparr> @ [7] \<or>
     r = Inl ENOMEM \<and> a' = \<lparr>a_num = 1, a_max = 1, a_v = Some [5]\<rparr> \<and> (1::int) = 1)"
  using array_add_appends [of "\<lparr>a_num = 1, a_max = 1, a_v = Some [5]\<rparr>"
      "\<lambda>n. Some (replicate (n div 4) (0::nat))" 7]
  by (simp add: array_ok_def array_cells_def kmalloc_ok_def array_getnum_def)

text \<open>
  \<open>array_remove\<close> at a valid index returns, deletes exactly that element and keeps the
  order of the others, without touching the capacity.
\<close>

theorem array_remove_deletes:
  assumes "array_ok a" and "0 \<le> i" and "i < array_getnum a"
  shows "\<exists>a'. array_remove i a = Some a' \<and> array_ok a' \<and> a_max a' = a_max a \<and>
    array_list a' = take (nat i) (array_list a) @ drop (Suc (nat i)) (array_list a)"
  using array_remove_list [OF assms(1,2)] assms(3) by (auto simp: array_getnum_def)

theorem array_remove_deletes_witness:
  "\<exists>a'. array_remove 1 \<lparr>a_num = 3, a_max = 4, a_v = Some [5, 6, 7, 8::nat]\<rparr> = Some a' \<and>
     array_ok a' \<and> a_max a' = 4 \<and> array_list a' = [5, 7]"
  using array_remove_deletes [of "\<lparr>a_num = 3, a_max = 4, a_v = Some [5, 6, 7, 8::nat]\<rparr>" 1]
  by (simp add: array_ok_def array_cells_def array_getnum_def array_list_def eval_nat_numeral)

end
