(* ===== verification/KQueue.thy ===== *)
theory KQueue
  imports KPrelude
begin

text \<open>
  The ring buffer of \<open>kern/lib/queue.c\<close>, which is the run queue of the scheduler. The locale
  \<open>fifo\<close> is what the scheduler relies on: the queue stands for a list, an insertion appends to
  it or leaves it as it was, a removal takes its head.

  \<open>q_addtail\<close> calls \<open>q_grow\<close>, which calls \<open>q_addtail\<close> again for every element it moves. The
  model bounds that nesting by a depth argument; two levels are enough, because the inner calls
  find room (\<open>q_addtail_cases\<close>). The copy loop of \<open>q_grow\<close> is a \<open>partial_function\<close>, and that it
  returns is part of the same lemma.
\<close>

section \<open>Data and operations\<close>

record 'a queue =
  q_size :: int
  q_nextwrite :: int
  q_nextread :: int
  q_data :: "'a list"

text \<open>The loop \<open>while (nsize < targetsize) { nsize *= 2; assert(nsize > 0); }\<close>.\<close>

function q_growsize :: "int \<Rightarrow> int \<Rightarrow> int option" where
  "q_growsize targetsize nsize =
     (if nsize < targetsize
      then case c_int (nsize * 2) of
             None \<Rightarrow> None
           | Some nsize2 \<Rightarrow> if nsize2 > 0 then q_growsize targetsize nsize2 else None
      else Some nsize)"
  by pat_completeness auto
termination
  by (relation "measure (\<lambda>(t, n). nat (t - n))") (auto simp: c_int_Some_iff)

text \<open>The loop \<open>for (i=onr; i!=onw; i = (i+1)%osize)\<close> of \<open>q_grow\<close>, over the \<open>q_addtail\<close> it calls.\<close>

partial_function (option) q_copy ::
  "('a queue \<Rightarrow> 'a \<Rightarrow> (unit kres \<times> 'a queue) option) \<Rightarrow> int \<Rightarrow> int \<Rightarrow> 'a list \<Rightarrow> int \<Rightarrow> 'a queue \<Rightarrow>
   'a queue option" where
  "q_copy addtail osize onw olddata i q =
     (if i = onw then Some q
      else do {
        x \<leftarrow> peek olddata i;
        (result, q') \<leftarrow> addtail q x;
        kassert (result = Inr ());
        i1 \<leftarrow> c_int (i + 1);
        i' \<leftarrow> c_rem i1 osize;
        q_copy addtail osize onw olddata i' q'
      })"

declare q_copy.simps [code]

definition q_grow_with ::
  "('a queue \<Rightarrow> 'a \<Rightarrow> (unit kres \<times> 'a queue) option) \<Rightarrow> (nat \<Rightarrow> 'a list option) \<Rightarrow> int \<Rightarrow> 'a queue \<Rightarrow>
   (unit kres \<times> 'a queue) option" where
  "q_grow_with addtail km targetsize q = do {
     nsize \<leftarrow> q_growsize targetsize (q_size q);
     case km (ptr_bytes nsize) of
       None \<Rightarrow> Some (Inl ENOMEM, q)
     | Some ndata \<Rightarrow> do {
         let q0 = q\<lparr>q_size := nsize, q_data := ndata, q_nextread := 0, q_nextwrite := 0\<rparr>;
         q' \<leftarrow> q_copy addtail (q_size q) (q_nextwrite q) (q_data q) (q_nextread q) q0;
         Some (Inr (), q')
       }
   }"

primrec q_addtail_depth ::
  "nat \<Rightarrow> (nat \<Rightarrow> 'a list option) \<Rightarrow> 'a queue \<Rightarrow> 'a \<Rightarrow> (unit kres \<times> 'a queue) option" where
  "q_addtail_depth 0 = (\<lambda>km q ptr. None)"
| "q_addtail_depth (Suc d) = (\<lambda>km q ptr. do {
     kassert (q_size q > 0);
     nw1 \<leftarrow> c_int (q_nextwrite q + 1);
     nextnext \<leftarrow> c_rem nw1 (q_size q);
     if nextnext = q_nextread q then do {
       size1 \<leftarrow> c_int (q_size q + 1);
       (result, q') \<leftarrow> q_grow_with (q_addtail_depth d km) km size1 q;
       case result of
         Inl e \<Rightarrow> Some (Inl e, q')
       | Inr _ \<Rightarrow> do {
           nw1' \<leftarrow> c_int (q_nextwrite q' + 1);
           nextnext' \<leftarrow> c_rem nw1' (q_size q');
           data' \<leftarrow> poke (q_data q') (q_nextwrite q') ptr;
           Some (Inr (), q'\<lparr>q_data := data', q_nextwrite := nextnext'\<rparr>)
         }
     }
     else do {
       data' \<leftarrow> poke (q_data q) (q_nextwrite q) ptr;
       Some (Inr (), q\<lparr>q_data := data', q_nextwrite := nextnext\<rparr>)
     }
   })"

definition q_addtail ::
  "(nat \<Rightarrow> 'a list option) \<Rightarrow> 'a queue \<Rightarrow> 'a \<Rightarrow> (unit kres \<times> 'a queue) option" where
  "q_addtail km q ptr = q_addtail_depth 2 km q ptr"

definition q_grow ::
  "(nat \<Rightarrow> 'a list option) \<Rightarrow> int \<Rightarrow> 'a queue \<Rightarrow> (unit kres \<times> 'a queue) option" where
  "q_grow km targetsize q = q_grow_with (q_addtail km) km targetsize q"

definition q_create :: "bool \<Rightarrow> (nat \<Rightarrow> 'a list option) \<Rightarrow> int \<Rightarrow> 'a queue option" where
  "q_create mem km qsize =
     (if \<not> mem then None
      else case km (ptr_bytes qsize) of
             None \<Rightarrow> None
           | Some data \<Rightarrow> Some \<lparr>q_size = qsize, q_nextwrite = 0, q_nextread = 0, q_data = data\<rparr>)"

definition q_preallocate ::
  "(nat \<Rightarrow> 'a list option) \<Rightarrow> int \<Rightarrow> 'a queue \<Rightarrow> (unit kres \<times> 'a queue) option" where
  "q_preallocate km qsize q = do {
     kassert (q_size q > 0);
     if qsize > q_size q then q_grow km qsize q else Some (Inr (), q)
   }"

definition q_empty :: "'a queue \<Rightarrow> bool" where
  "q_empty q \<longleftrightarrow> q_nextwrite q = q_nextread q"

definition q_remhead :: "'a queue \<Rightarrow> ('a \<times> 'a queue) option" where
  "q_remhead q = do {
     kassert (q_size q > 0);
     kassert (\<not> q_empty q);
     ret \<leftarrow> peek (q_data q) (q_nextread q);
     nr1 \<leftarrow> c_int (q_nextread q + 1);
     nr \<leftarrow> c_rem nr1 (q_size q);
     Some (ret, q\<lparr>q_nextread := nr\<rparr>)
   }"

definition q_destroy :: "'a queue \<Rightarrow> unit option" where
  "q_destroy q = kassert (q_empty q)"

definition q_getstart :: "'a queue \<Rightarrow> int" where
  "q_getstart q = q_nextread q"

definition q_getend :: "'a queue \<Rightarrow> int" where
  "q_getend q = q_nextwrite q"

definition q_getsize :: "'a queue \<Rightarrow> int" where
  "q_getsize q = q_size q"

definition q_getguy :: "'a queue \<Rightarrow> int \<Rightarrow> 'a option" where
  "q_getguy q index = do {
     kassert (0 \<le> index \<and> index < q_size q);
     peek (q_data q) index
   }"

section \<open>Invariant and list view\<close>

definition q_len :: "'a queue \<Rightarrow> nat" where
  "q_len q = nat ((q_nextwrite q - q_nextread q) mod q_size q)"

definition q_list :: "'a queue \<Rightarrow> 'a list" where
  "q_list q = map (\<lambda>j. q_data q ! nat ((q_nextread q + int j) mod q_size q)) [0..<q_len q]"

definition q_ok :: "'a queue \<Rightarrow> bool" where
  "q_ok q \<longleftrightarrow> 0 < q_size q \<and> q_size q < 2 ^ 30 \<and> length (q_data q) = nat (q_size q) \<and>
     0 \<le> q_nextread q \<and> q_nextread q < q_size q \<and> 0 \<le> q_nextwrite q \<and> q_nextwrite q < q_size q"

definition q_full :: "'a queue \<Rightarrow> bool" where
  "q_full q \<longleftrightarrow> (q_nextwrite q + 1) mod q_size q = q_nextread q"

lemma ring_distance:
  assumes "0 < (n::int)" and "0 \<le> w" and "w < n"
  shows "(r + (w - r) mod n) mod n = w"
  using assms by (simp add: mod_simps)

lemma ring_distance_unique:
  assumes "0 < (n::int)" and "0 \<le> j" and "j < n" and "(r + j) mod n = w mod n"
  shows "j = (w - r) mod n"
proof -
  have "(w - r) mod n = ((r + j) mod n - r) mod n" using assms(4) by (simp add: mod_simps)
  also have "\<dots> = j mod n" by (simp add: mod_simps)
  finally show ?thesis using assms by simp
qed

lemma ring_full_iff:
  assumes "0 < (n::int)" and "0 \<le> r" and "r < n"
  shows "(w + 1) mod n = r \<longleftrightarrow> (w - r) mod n = n - 1"
proof
  assume "(w + 1) mod n = r"
  then have "(w - r) mod n = (w - (w + 1)) mod n" by (metis mod_diff_right_eq)
  also have "\<dots> = n - 1" using assms by (simp add: zmod_minus1)
  finally show "(w - r) mod n = n - 1" .
next
  assume d: "(w - r) mod n = n - 1"
  have "(w + 1) mod n = (r + 1 + (w - r) mod n) mod n"
    by (simp add: mod_simps) (simp add: add.commute)
  also have "\<dots> = r" using assms by (simp add: d)
  finally show "(w + 1) mod n = r" .
qed

lemma q_len_bound: "q_ok q \<Longrightarrow> int (q_len q) < q_size q"
  by (simp add: q_ok_def q_len_def)

lemma int_q_len: "q_ok q \<Longrightarrow> int (q_len q) = (q_nextwrite q - q_nextread q) mod q_size q"
  by (simp add: q_ok_def q_len_def)

lemma length_q_list [simp]: "length (q_list q) = q_len q"
  by (simp add: q_list_def)

lemma q_full_iff: "q_ok q \<Longrightarrow> q_full q \<longleftrightarrow> int (q_len q) = q_size q - 1"
  by (simp add: q_full_def ring_full_iff int_q_len q_ok_def)

lemma q_empty_iff: "q_ok q \<Longrightarrow> q_empty q \<longleftrightarrow> q_list q = []"
proof -
  assume ok: "q_ok q"
  have "q_list q = [] \<longleftrightarrow> int (q_len q) = 0" by (metis length_0_conv length_q_list of_nat_eq_0_iff)
  also have "\<dots> \<longleftrightarrow> q_nextwrite q = q_nextread q"
    using ok ring_distance [of "q_size q" "q_nextwrite q" "q_nextread q"]
    by (auto simp: int_q_len q_ok_def)
  finally show ?thesis by (simp add: q_empty_def)
qed

definition q_store :: "'a queue \<Rightarrow> 'a \<Rightarrow> 'a queue" where
  "q_store q x = q\<lparr>q_data := (q_data q)[nat (q_nextwrite q) := x],
     q_nextwrite := (q_nextwrite q + 1) mod q_size q\<rparr>"

lemma q_store_ok: "q_ok q \<Longrightarrow> q_ok (q_store q x)"
  by (simp add: q_ok_def q_store_def)

lemma q_store_size [simp]: "q_size (q_store q x) = q_size q"
  by (simp add: q_store_def)

lemma q_store_len:
  assumes ok: "q_ok q" and nf: "\<not> q_full q"
  shows "q_len (q_store q x) = Suc (q_len q)"
proof -
  have lt: "int (q_len q) + 1 < q_size q"
    using nf q_len_bound [OF ok] by (simp add: q_full_iff [OF ok])
  have "int (q_len (q_store q x)) = ((q_nextwrite q + 1) mod q_size q - q_nextread q) mod q_size q"
    using q_store_ok [OF ok, of x] by (simp add: int_q_len) (simp add: q_store_def)
  also have "\<dots> = ((q_nextwrite q - q_nextread q) mod q_size q + 1) mod q_size q"
    by (simp add: mod_simps algebra_simps)
  also have "\<dots> = int (q_len q) + 1"
    using lt by (simp flip: int_q_len [OF ok])
  finally show ?thesis by simp
qed

lemma q_store_list:
  assumes ok: "q_ok q" and nf: "\<not> q_full q"
  shows "q_list (q_store q x) = q_list q @ [x]"
proof (rule nth_equalityI)
  show "length (q_list (q_store q x)) = length (q_list q @ [x])"
    by (simp add: q_store_len [OF ok nf])
next
  fix j assume "j < length (q_list (q_store q x))"
  then have j: "j \<le> q_len q" by (simp add: q_store_len [OF ok nf])
  let ?ix = "(q_nextread q + int j) mod q_size q"
  have pos: "0 < q_size q" and w: "0 \<le> q_nextwrite q" "q_nextwrite q < q_size q"
    "q_nextwrite q < int (length (q_data q))"
    using ok by (auto simp: q_ok_def)
  show "q_list (q_store q x) ! j = (q_list q @ [x]) ! j"
  proof (cases "j = q_len q")
    case True
    then have "?ix = q_nextwrite q"
      using pos w by (simp add: int_q_len [OF ok] ring_distance)
    with True w j show ?thesis
      by (simp add: nth_append q_list_def q_store_len [OF ok nf] del: upt_Suc) (simp add: q_store_def)
  next
    case False
    with j have lt: "j < q_len q" by simp
    have "?ix \<noteq> q_nextwrite q"
    proof
      assume "?ix = q_nextwrite q"
      then have "int j = int (q_len q)"
        using pos w q_len_bound [OF ok] lt
        by (subst int_q_len [OF ok]) (rule ring_distance_unique, auto)
      with lt show False by simp
    qed
    then have "nat ?ix \<noteq> nat (q_nextwrite q)" using pos w by (simp add: nat_eq_iff)
    with lt show ?thesis
      by (simp add: nth_append q_list_def q_store_len [OF ok nf] del: upt_Suc) (simp add: q_store_def)
  qed
qed

lemma q_remhead_list:
  assumes ok: "q_ok q" and list: "q_list q = x # xs"
  shows "\<exists>q'. q_remhead q = Some (x, q') \<and> q_ok q' \<and> q_list q' = xs \<and> q_size q' = q_size q"
proof -
  let ?q' = "q\<lparr>q_nextread := (q_nextread q + 1) mod q_size q\<rparr>"
  have ne: "\<not> q_empty q" using q_empty_iff [OF ok] list by simp
  have ok': "q_ok ?q'" using ok by (simp add: q_ok_def)
  have len: "q_len q = Suc (length xs)" using list length_q_list [of q] by simp
  have "int (q_len ?q') = ((q_nextwrite q - q_nextread q) mod q_size q - 1) mod q_size q"
    using ok' by (simp add: int_q_len) (simp add: mod_simps algebra_simps)
  also have "\<dots> = int (q_len q) - 1"
    using len q_len_bound [OF ok] by (simp flip: int_q_len [OF ok])
  finally have len': "q_len ?q' = length xs" using len by simp
  have x: "x = q_data q ! nat (q_nextread q)"
    using list ok len by (simp add: q_list_def upt_conv_Cons q_ok_def del: upt_Suc)
  have "q_list ?q' = xs"
  proof (rule nth_equalityI)
    show "length (q_list ?q') = length xs" by (simp add: len')
  next
    fix j assume "j < length (q_list ?q')"
    then have j: "j < length xs" by (simp add: len')
    have "xs ! j = q_list q ! Suc j" by (simp add: list)
    also have "\<dots> = q_data q ! nat ((q_nextread q + 1 + int j) mod q_size q)"
      using j len by (simp add: q_list_def add.commute add.left_commute del: upt_Suc)
    also have "\<dots> = q_list ?q' ! j"
      using j by (simp add: q_list_def len' mod_simps)
    finally show "q_list ?q' ! j = xs ! j" by simp
  qed
  moreover have "q_remhead q = Some (x, ?q')"
    using ok ne x by (simp add: q_remhead_def q_ok_def)
  ultimately show ?thesis using ok' by auto
qed

lemma c_int_succ: "0 \<le> i \<Longrightarrow> i < 2 ^ 30 \<Longrightarrow> c_int (i + 1) = Some (i + 1)"
  by simp

declare q_growsize.simps [simp del]

lemma q_growsize_enough [simp]: "t \<le> n \<Longrightarrow> q_growsize t n = Some n"
  by (simp add: q_growsize.simps)

lemma q_growsize_returns:
  assumes "0 < n" and "n < 2 ^ 30" and "t \<le> 2 ^ 28"
  shows "\<exists>r. q_growsize t n = Some r \<and> n \<le> r \<and> t \<le> r \<and> r < 2 ^ 30"
  using assms
proof (induction t n rule: q_growsize.induct)
  case (1 t n)
  show ?case
  proof (cases "n < t")
    case True
    then have c: "c_int (n * 2) = Some (n * 2)" using "1.prems" by simp
    then have "\<exists>r. q_growsize t (n * 2) = Some r \<and> n * 2 \<le> r \<and> t \<le> r \<and> r < 2 ^ 30"
      using "1.IH" [OF True c] "1.prems" True by simp
    then show ?thesis using True c "1.prems" by (subst q_growsize.simps) auto
  qed (use "1.prems" in simp)
qed

definition adds_in_room :: "('a queue \<Rightarrow> 'a \<Rightarrow> (unit kres \<times> 'a queue) option) \<Rightarrow> bool" where
  "adds_in_room f \<longleftrightarrow> (\<forall>q x. q_ok q \<and> \<not> q_full q \<longrightarrow> f q x = Some (Inr (), q_store q x))"

lemma q_addtail_depth_room: "adds_in_room (q_addtail_depth (Suc d) km)"
  by (auto simp: adds_in_room_def q_store_def q_full_def q_ok_def)

lemma q_copy_list:
  assumes f: "adds_in_room f" and oq: "q_ok oq"
    and "k \<le> q_len oq" and "q_ok q" and "q_list q = take k (q_list oq)"
    and "int (q_len oq) < q_size q"
  shows "\<exists>q'. q_copy f (q_size oq) (q_nextwrite oq) (q_data oq)
              ((q_nextread oq + int k) mod q_size oq) q = Some q' \<and>
            q_ok q' \<and> q_list q' = q_list oq \<and> q_size q' = q_size q"
  using assms(3-)
proof (induction "q_len oq - k" arbitrary: k q)
  case 0
  then have k: "k = q_len oq" by simp
  have "(q_nextread oq + int k) mod q_size oq = q_nextwrite oq"
    using oq unfolding k by (simp add: int_q_len ring_distance q_ok_def)
  with 0 k show ?case by (subst q_copy.simps) simp
next
  case (Suc m)
  let ?i = "(q_nextread oq + int k) mod q_size oq"
  from Suc.hyps(2) have k: "k < q_len oq" by simp
  have size: "0 < q_size oq" "q_size oq < 2 ^ 30" "length (q_data oq) = nat (q_size oq)"
    and w: "0 \<le> q_nextwrite oq" "q_nextwrite oq < q_size oq"
    using oq by (auto simp: q_ok_def)
  have i: "0 \<le> ?i" "?i < q_size oq" using size by auto
  have ne: "?i \<noteq> q_nextwrite oq"
    using ring_distance_unique [of "q_size oq" "int k" "q_nextread oq" "q_nextwrite oq"]
      k q_len_bound [OF oq] size w by (auto simp: int_q_len [OF oq, symmetric])
  have next_i: "(?i + 1) mod q_size oq = (q_nextread oq + int (Suc k)) mod q_size oq"
    by (simp add: mod_simps) (simp add: ac_simps)
  have qlen: "q_len q = k" using Suc.prems(3) k length_q_list [of q] by simp
  have nf: "\<not> q_full q" using Suc.prems qlen k by (simp add: q_full_iff)
  let ?x = "q_data oq ! nat ?i"
  have x: "q_list oq ! k = ?x" using k by (simp add: q_list_def)
  have m: "m = q_len oq - Suc k" using Suc.hyps(2) by simp
  have c1: "c_int (?i + 1) = Some (?i + 1)" 
    by (rule c_int_succ [OF i(1) less_trans [OF i(2) size(2)]])
  have c2: "c_rem (?i + 1) (q_size oq) = Some ((?i + 1) mod q_size oq)"
    using i size by (simp add: c_rem_nonneg)
  have store: "f q ?x = Some (Inr (), q_store q ?x)"
    using f Suc.prems nf by (simp add: adds_in_room_def)
  have "q_list (q_store q ?x) = take (Suc k) (q_list oq)"
    using q_store_list [OF Suc.prems(2) nf] Suc.prems(3) k x
    by (simp add: take_Suc_conv_app_nth)
  then obtain q' where q': "q_copy f (q_size oq) (q_nextwrite oq) (q_data oq)
              ((q_nextread oq + int (Suc k)) mod q_size oq) (q_store q ?x) = Some q'"
      "q_ok q'" "q_list q' = q_list oq" "q_size q' = q_size q"
    using Suc.hyps(1) [of "Suc k" "q_store q ?x", OF m _ q_store_ok [OF Suc.prems(2)]]
      Suc.prems(4) k by auto
  have "q_copy f (q_size oq) (q_nextwrite oq) (q_data oq) ?i q = Some q'"
    using ne i size store q'(1) next_i c1 c2 by (subst q_copy.simps) simp
  with q' show ?case by blast
qed

lemma q_grow_with_cases:
  assumes f: "adds_in_room f" and ok: "q_ok q" and km: "kmalloc_ok km" and t: "t \<le> 2 ^ 28"
  obtains (nomem) "q_grow_with f km t q = Some (Inl ENOMEM, q)"
  | (grown) q' where "q_grow_with f km t q = Some (Inr (), q')" and "q_ok q'"
      and "q_list q' = q_list q" and "t \<le> q_size q'" and "q_size q \<le> q_size q'"
proof -
  have size: "0 < q_size q" "q_size q < 2 ^ 30" using ok by (auto simp: q_ok_def)
  obtain r where r: "q_growsize t (q_size q) = Some r" "q_size q \<le> r" "t \<le> r" "r < 2 ^ 30"
    using q_growsize_returns [OF size t] by auto
  show ?thesis
  proof (cases "km (ptr_bytes r)")
    case None
    with r nomem show ?thesis by (simp add: q_grow_with_def)
  next
    case (Some ndata)
    with km r size have len: "length ndata = nat r" by (intro kmalloc_ok_len [of km]) auto
    let ?q0 = "q\<lparr>q_size := r, q_data := ndata, q_nextread := 0, q_nextwrite := 0\<rparr>"
    have ok0: "q_ok ?q0" using len r size by (simp add: q_ok_def)
    have nil: "q_list ?q0 = []" by (simp add: q_list_def q_len_def)
    have start: "(q_nextread q + int 0) mod q_size q = q_nextread q" using ok by (simp add: q_ok_def)
    obtain q' where q': "q_copy f (q_size q) (q_nextwrite q) (q_data q) (q_nextread q) ?q0 = Some q'"
        "q_ok q'" "q_list q' = q_list q" "q_size q' = r"
      using q_copy_list [OF f ok, of 0 ?q0] ok0 nil start q_len_bound [OF ok] r by auto
    then have "q_grow_with f km t q = Some (Inr (), q')"
      using r Some by (simp add: q_grow_with_def)
    with q' r grown show ?thesis by simp
  qed
qed

lemma q_addtail_room: "q_ok q \<Longrightarrow> \<not> q_full q \<Longrightarrow> q_addtail km q x = Some (Inr (), q_store q x)"
  using q_addtail_depth_room [of 1 km] by (simp add: q_addtail_def adds_in_room_def numeral_2_eq_2)

lemma q_addtail_cases:
  assumes ok: "q_ok q" and km: "kmalloc_ok km" and bound: "q_len q < 2 ^ 27"
  obtains (nomem) "q_addtail km q x = Some (Inl ENOMEM, q)" and "q_full q"
  | (added) q' where "q_addtail km q x = Some (Inr (), q')" and "q_ok q'"
      and "q_list q' = q_list q @ [x]" and "q_size q \<le> q_size q'"
proof (cases "q_full q")
  case False
  with q_addtail_room [OF ok False, of km x] q_store_ok [OF ok, of x] q_store_list [OF ok False, of x]
  show ?thesis using added by simp
next
  case full: True
  have size: "q_size q = int (q_len q) + 1" using full ok by (simp add: q_full_iff)
  have sz: "0 < q_size q" using ok by (simp add: q_ok_def)
  have t: "q_size q + 1 \<le> 2 ^ 28" using size bound by simp
  have nn: "(q_nextwrite q + 1) mod q_size q = q_nextread q" using full by (simp add: q_full_def)
  show ?thesis
  proof (cases rule: q_grow_with_cases [OF q_addtail_depth_room [of 0 km] ok km t, case_names nomem grown])
    case nomem
    then have "q_addtail km q x = Some (Inl ENOMEM, q)"
      using nn ok t by (simp add: q_addtail_def numeral_2_eq_2 q_ok_def)
    with full that(1) show ?thesis by simp
  next
    case (grown q')
    have nf: "\<not> q_full q'"
      using grown size length_q_list [of q] length_q_list [of q'] by (simp add: q_full_iff)
    have "q_addtail km q x = Some (Inr (), q_store q' x)"
      using nn ok t grown by (simp add: q_addtail_def numeral_2_eq_2 q_ok_def q_store_def)
    with grown q_store_ok [of q' x] q_store_list [OF grown(2) nf, of x] that(2) show ?thesis by simp
  qed
qed

lemma q_preallocate_cases:
  assumes ok: "q_ok q" and km: "kmalloc_ok km" and t: "t \<le> 2 ^ 28"
  obtains (nomem) "q_preallocate km t q = Some (Inl ENOMEM, q)" and "q_size q < t"
  | (enough) q' where "q_preallocate km t q = Some (Inr (), q')" and "q_ok q'"
      and "q_list q' = q_list q" and "t \<le> q_size q'" and "q_size q \<le> q_size q'"
proof (cases "t > q_size q")
  case True
  have f: "adds_in_room (q_addtail km)" by (simp add: adds_in_room_def q_addtail_room)
  show ?thesis
    by (cases rule: q_grow_with_cases [OF f ok km t])
      (use True ok that in \<open>auto simp: q_preallocate_def q_grow_def q_ok_def\<close>)
next
  case False
  with ok that(2) [of q] show ?thesis by (simp add: q_preallocate_def q_ok_def)
qed

section \<open>The queue as a FIFO\<close>

text \<open>
  The loop of \<open>scheduler_killall\<close> (\<open>while (!q_empty(q)) t = q_remhead(q);\<close>), over the two
  operations it calls: the elements it takes out, in order, and the queue it leaves.
\<close>

partial_function (option) drain ::
  "('q \<Rightarrow> bool) \<Rightarrow> ('q \<Rightarrow> ('a \<times> 'q) option) \<Rightarrow> 'q \<Rightarrow> ('a list \<times> 'q) option" where
  "drain isempty deq q =
     (if isempty q then Some ([], q)
      else do {
        (x, q1) \<leftarrow> deq q;
        (xs, q2) \<leftarrow> drain isempty deq q1;
        Some (x # xs, q2)
      })"

declare drain.simps [code]

text \<open>A sequence of insertions, stopping at the first failure.\<close>

primrec enq_all :: "('q \<Rightarrow> 'a \<Rightarrow> (unit kres \<times> 'q) option) \<Rightarrow> 'a list \<Rightarrow> 'q \<Rightarrow> (unit kres \<times> 'q) option" where
  "enq_all enq [] q = Some (Inr (), q)"
| "enq_all enq (x # xs) q = do {
     (r, q') \<leftarrow> enq q x;
     case r of Inl e \<Rightarrow> Some (Inl e, q') | Inr _ \<Rightarrow> enq_all enq xs q'
   }"

locale fifo =
  fixes inv :: "'q \<Rightarrow> bool"
    and view :: "'q \<Rightarrow> 'a list"
    and isempty :: "'q \<Rightarrow> bool"
    and enq :: "'m \<Rightarrow> 'q \<Rightarrow> 'a \<Rightarrow> (unit kres \<times> 'q) option"
    and deq :: "'q \<Rightarrow> ('a \<times> 'q) option"
    and mem_ok :: "'m \<Rightarrow> bool"
    and limit :: nat
  assumes isempty_view: "inv q \<Longrightarrow> isempty q \<longleftrightarrow> view q = []"
    and deq_view: "inv q \<Longrightarrow> view q = x # xs \<Longrightarrow> \<exists>q'. deq q = Some (x, q') \<and> inv q' \<and> view q' = xs"
    and enq_view: "inv q \<Longrightarrow> mem_ok m \<Longrightarrow> length (view q) < limit \<Longrightarrow>
      enq m q x = Some (Inl ENOMEM, q) \<or>
      (\<exists>q'. enq m q x = Some (Inr (), q') \<and> inv q' \<and> view q' = view q @ [x])"
begin

lemma drain_view: "inv q \<Longrightarrow> \<exists>q'. drain isempty deq q = Some (view q, q') \<and> inv q' \<and> view q' = []"
proof (induction "view q" arbitrary: q)
  case Nil
  then show ?case by (subst drain.simps) (simp add: isempty_view)
next
  case (Cons x xs)
  obtain q1 where q1: "deq q = Some (x, q1)" "inv q1" "view q1 = xs"
    using deq_view [OF Cons.prems] Cons.hyps(2) by metis
  obtain q' where "drain isempty deq q1 = Some (xs, q')" "inv q'" "view q' = []"
    using Cons.hyps(1) [of q1] q1 by auto
  with q1 Cons.prems Cons.hyps(2) [symmetric] show ?case
    by (subst drain.simps) (simp add: isempty_view)
qed

lemma enq_all_view:
  assumes "mem_ok m"
  shows "inv q \<Longrightarrow> length (view q) + length xs \<le> limit \<Longrightarrow>
    \<exists>r q' ys. enq_all (enq m) xs q = Some (r, q') \<and> inv q' \<and> view q' = view q @ ys \<and>
      (r = Inr () \<and> ys = xs \<or> r = Inl ENOMEM \<and> (\<exists>zs. zs \<noteq> [] \<and> xs = ys @ zs))"
proof (induction xs arbitrary: q)
  case Nil
  then show ?case by simp
next
  case (Cons x xs)
  from Cons.prems have "length (view q) < limit" by simp
  from enq_view [OF Cons.prems(1) assms this, of x] show ?case
  proof (elim disjE exE conjE)
    assume "enq m q x = Some (Inl ENOMEM, q)"
    with Cons.prems show ?thesis by auto
  next
    fix q1
    assume q1: "enq m q x = Some (Inr (), q1)" "inv q1" "view q1 = view q @ [x]"
    have "length (view q1) + length xs \<le> limit" using q1 Cons.prems by simp
    from Cons.IH [OF q1(2) this] obtain r q' ys where
      "enq_all (enq m) xs q1 = Some (r, q')" "inv q'" "view q' = view q1 @ ys"
      "r = Inr () \<and> ys = xs \<or> r = Inl ENOMEM \<and> (\<exists>zs. zs \<noteq> [] \<and> xs = ys @ zs)"
      by blast
    with q1 show ?thesis by auto
  qed
qed

lemma fifo_order:
  assumes "mem_ok m" and "inv q" and "view q = []" and "length xs \<le> limit"
    and "enq_all (enq m) xs q = Some (Inr (), q')"
  shows "\<exists>q''. drain isempty deq q' = Some (xs, q'')"
  using enq_all_view [OF assms(1,2), of xs] assms(3-5) drain_view by force

end

interpretation rq: fifo q_ok q_list q_empty q_addtail q_remhead kmalloc_ok "2 ^ 27"
proof unfold_locales
  fix q :: "'a queue" and x :: 'a and xs
  assume "q_ok q" and "q_list q = x # xs"
  from q_remhead_list [OF this] show "\<exists>q'. q_remhead q = Some (x, q') \<and> q_ok q' \<and> q_list q' = xs"
    by blast
next
  fix q :: "'a queue" and m :: "nat \<Rightarrow> 'a list option" and x
  assume "q_ok q" and "kmalloc_ok m" and "length (q_list q) < 2 ^ 27"
  then have "q_len q < 2 ^ 27" by simp
  from \<open>q_ok q\<close> \<open>kmalloc_ok m\<close> this
  show "q_addtail m q x = Some (Inl ENOMEM, q) \<or>
      (\<exists>q'. q_addtail m q x = Some (Inr (), q') \<and> q_ok q' \<and> q_list q' = q_list q @ [x])"
    by (cases rule: q_addtail_cases [where x = x]) blast+
qed (simp add: q_empty_iff)

section \<open>Properties\<close>

text \<open>
  \<open>q_addtail\<close> on a well-formed ring buffer always returns, growing the ring and moving
  its wrapped contents when it is full: it appends to the list the queue stands for, or
  reports \<open>ENOMEM\<close> on a full ring and leaves it unchanged. The nesting bound of the model
  is never reached.
\<close>

theorem q_addtail_appends:
  assumes "q_ok q" and "kmalloc_ok km" and "length (q_list q) < 2 ^ 27"
  shows "\<exists>r q'. q_addtail km q x = Some (r, q') \<and> q_ok q' \<and>
    (r = Inr () \<and> q_list q' = q_list q @ [x] \<or> r = Inl ENOMEM \<and> q' = q \<and> q_full q)"
proof -
  from assms(3) have "q_len q < 2 ^ 27" by simp
  with assms(1,2) show ?thesis by (cases rule: q_addtail_cases [where x = x]) (use assms(1) in auto)
qed

theorem q_addtail_appends_witness:
  "\<exists>r q'. q_addtail (\<lambda>n. Some (replicate (n div 4) (0::nat)))
       \<lparr>q_size = 3, q_nextwrite = 1, q_nextread = 2, q_data = [8, 0, 7]\<rparr> 9 = Some (r, q') \<and> q_ok q' \<and>
    (r = Inr () \<and> q_list q' = [7, 8, 9] \<or>
     r = Inl ENOMEM \<and> q' = \<lparr>q_size = 3, q_nextwrite = 1, q_nextread = 2, q_data = [8, 0, 7]\<rparr>)"
proof -
  let ?q = "\<lparr>q_size = 3, q_nextwrite = 1, q_nextread = 2, q_data = [8, 0, 7::nat]\<rparr>"
  have "q_ok ?q" and l: "q_list ?q = [7, 8]" by code_simp+
  then show ?thesis
    using q_addtail_appends [of ?q "\<lambda>n. Some (replicate (n div 4) (0::nat))" 9]
    by (fastforce simp: kmalloc_ok_def)
qed

text \<open>
  C40. First in, first out: if a fresh queue of any positive size takes all of \<open>xs\<close>, then
  emptying it with \<open>q_remhead\<close> until \<open>q_empty\<close> terminates and returns \<open>xs\<close> in that order.
\<close>

theorem queue_fifo_roundtrip:
  assumes "kmalloc_ok km" and "0 < n" and "n < 2 ^ 30" and "q_create mem km n = Some q"
    and "length xs \<le> 2 ^ 27" and "enq_all (q_addtail km) xs q = Some (Inr (), q')"
  shows "\<exists>q''. drain q_empty q_remhead q' = Some (xs, q'')"
proof -
  from assms(1-4) have "q_ok q" and "q_list q = []"
    by (auto simp: q_create_def q_ok_def q_list_def q_len_def kmalloc_ok_len split: if_splits option.splits)
  then show ?thesis using rq.fifo_order assms(1,5,6) by blast
qed

theorem queue_fifo_roundtrip_witness:
  "\<exists>q''. drain q_empty q_remhead
      \<lparr>q_size = 4, q_nextwrite = 3, q_nextread = 0, q_data = [4, 5, 6, 0::nat]\<rparr> = Some ([4, 5, 6], q'')"
proof (rule queue_fifo_roundtrip [where km = "\<lambda>n. Some (replicate (n div 4) (0::nat))" and n = 2 and mem = True])
  show "kmalloc_ok (\<lambda>n. Some (replicate (n div 4) (0::nat)))" by (simp add: kmalloc_ok_def)
  show "q_create True (\<lambda>n. Some (replicate (n div 4) (0::nat))) 2 =
      Some \<lparr>q_size = 2, q_nextwrite = 0, q_nextread = 0, q_data = [0, 0]\<rparr>"
    by code_simp
  show "enq_all (q_addtail (\<lambda>n. Some (replicate (n div 4) (0::nat)))) [4, 5, 6]
      \<lparr>q_size = 2, q_nextwrite = 0, q_nextread = 0, q_data = [0, 0]\<rparr> =
     Some (Inr (), \<lparr>q_size = 4, q_nextwrite = 3, q_nextread = 0, q_data = [4, 5, 6, 0]\<rparr>)"
    by code_simp
qed simp_all

end
