(* ===== verification/Bitmap.thy ===== *)
theory Bitmap
  imports KPrelude
begin

text \<open>
  The bit array of \<open>kern/lib/bitmap.c\<close>, which is the free-block map of the file system. The
  word type is \<open>unsigned char\<close>, modelled by \<open>8 word\<close>; the \<open>u_int32_t\<close> indices are natural
  numbers, with the wrap-around of \<open>DIVROUNDUP\<close> written out. The locale \<open>slots\<close> is what the
  clients of an allocator rely on: a slot is handed out only when it is free, and none is
  refused while there is one.
\<close>

unbundle bit_operations_syntax

section \<open>Data and operations\<close>

record bitmap =
  nbits :: nat
  bm_v :: "8 word list"

text \<open>\<open>DIVROUNDUP(a,b)\<close> at type \<open>u_int32_t\<close>.\<close>

definition divroundup_u32 :: "nat \<Rightarrow> nat \<Rightarrow> nat" where
  "divroundup_u32 a b = ((a + b - 1) mod 2 ^ 32) div b"

text \<open>The loop \<open>for (j=overbits; j<BITS_PER_WORD; j++) b->v[ix] |= 1 << j\<close>.\<close>

function bitmap_overmark :: "nat \<Rightarrow> 8 word \<Rightarrow> 8 word" where
  "bitmap_overmark j w = (if j < 8 then bitmap_overmark (Suc j) (w OR push_bit j 1) else w)"
  by pat_completeness auto
termination by (relation "measure (\<lambda>(j, w). 8 - j)") auto

definition bitmap_create :: "bool \<Rightarrow> (nat \<Rightarrow> 8 word list option) \<Rightarrow> nat \<Rightarrow> bitmap option option" where
  "bitmap_create mem km n =
     (let words = divroundup_u32 n 8 in
      if \<not> mem then Some None
      else case km words of
        None \<Rightarrow> Some None
      | Some v0 \<Rightarrow> do {
          v \<leftarrow> bzero v0 words;
          if n div 8 < words then do {
            let ix = words - 1;
            let overbits = n - ix * 8;
            kassert (n div 8 = words - 1);
            kassert (overbits > 0 \<and> overbits < 8);
            w \<leftarrow> peek v (int ix);
            v' \<leftarrow> poke v (int ix) (bitmap_overmark overbits w);
            Some (Some \<lparr>nbits = n, bm_v = v'\<rparr>)
          }
          else Some (Some \<lparr>nbits = n, bm_v = v\<rparr>)
        })"

definition bitmap_getdata :: "bitmap \<Rightarrow> 8 word list" where
  "bitmap_getdata b = bm_v b"

text \<open>The inner loop of \<open>bitmap_alloc\<close>: the first clear bit of a word at or after \<open>offset\<close>.\<close>

function bitmap_findoff :: "8 word \<Rightarrow> nat \<Rightarrow> nat option" where
  "bitmap_findoff w offset =
     (if offset < 8
      then if w AND push_bit offset 1 = 0 then Some offset else bitmap_findoff w (Suc offset)
      else None)"
  by pat_completeness auto
termination by (relation "measure (\<lambda>(w, j). 8 - j)") auto

text \<open>
  The outer loop. A word that is not \<open>WORD_ALLBITS\<close> but has no clear bit would reach
  \<open>assert(0)\<close>, so the result of the inner loop is bound as an assertion.
\<close>

function bitmap_alloc_from :: "nat \<Rightarrow> nat \<Rightarrow> bitmap \<Rightarrow> (nat kres \<times> bitmap) option" where
  "bitmap_alloc_from ix maxix b =
     (if ix < maxix then do {
        w \<leftarrow> peek (bm_v b) (int ix);
        if w \<noteq> 0xff then do {
          offset \<leftarrow> bitmap_findoff w 0;
          v' \<leftarrow> poke (bm_v b) (int ix) (w OR push_bit offset 1);
          let index = (ix * 8 + offset) mod 2 ^ 32;
          kassert (index < nbits b);
          Some (Inr index, b\<lparr>bm_v := v'\<rparr>)
        }
        else bitmap_alloc_from (Suc ix) maxix b
      }
      else Some (Inl ENOSPC, b))"
  by pat_completeness auto
termination by (relation "measure (\<lambda>(ix, maxix, b). maxix - ix)") auto

definition bitmap_alloc :: "bitmap \<Rightarrow> (nat kres \<times> bitmap) option" where
  "bitmap_alloc b = bitmap_alloc_from 0 (divroundup_u32 (nbits b) 8) b"

definition bitmap_translate :: "nat \<Rightarrow> nat \<times> 8 word" where
  "bitmap_translate bitno = (bitno div 8, push_bit (bitno mod 8) 1)"

definition bitmap_mark :: "nat \<Rightarrow> bitmap \<Rightarrow> bitmap option" where
  "bitmap_mark index b = do {
     kassert (index < nbits b);
     let (ix, mask) = bitmap_translate index;
     w \<leftarrow> peek (bm_v b) (int ix);
     kassert (w AND mask = 0);
     v' \<leftarrow> poke (bm_v b) (int ix) (w OR mask);
     Some (b\<lparr>bm_v := v'\<rparr>)
   }"

definition bitmap_unmark :: "nat \<Rightarrow> bitmap \<Rightarrow> bitmap option" where
  "bitmap_unmark index b = do {
     kassert (index < nbits b);
     let (ix, mask) = bitmap_translate index;
     w \<leftarrow> peek (bm_v b) (int ix);
     kassert (w AND mask \<noteq> 0);
     v' \<leftarrow> poke (bm_v b) (int ix) (w AND NOT mask);
     Some (b\<lparr>bm_v := v'\<rparr>)
   }"

definition bitmap_isset :: "bitmap \<Rightarrow> nat \<Rightarrow> 8 word option" where
  "bitmap_isset b index =
     (let (ix, mask) = bitmap_translate index in
      do { w \<leftarrow> peek (bm_v b) (int ix); Some (w AND mask) })"

section \<open>Invariant and set view\<close>

definition bitmap_bit :: "8 word list \<Rightarrow> nat \<Rightarrow> bool" where
  "bitmap_bit v i \<longleftrightarrow> bit (v ! (i div 8)) (i mod 8)"

definition bitmap_ok :: "bitmap \<Rightarrow> bool" where
  "bitmap_ok b \<longleftrightarrow> nbits b \<le> 2 ^ 32 - 8 \<and> length (bm_v b) = (nbits b + 7) div 8 \<and>
     (\<forall>i \<in> {nbits b..<8 * length (bm_v b)}. bitmap_bit (bm_v b) i)"

definition bitmap_used :: "bitmap \<Rightarrow> nat set" where
  "bitmap_used b = {i. i < nbits b \<and> bitmap_bit (bm_v b) i}"

section \<open>What the operations do\<close>

lemma bitmap_mask: "k < 8 \<Longrightarrow> (w :: 8 word) AND 2 ^ k = 0 \<longleftrightarrow> \<not> bit w k"
  by (simp add: and_exp_eq_0_iff_not_bit)

lemma bit_or_mask: "k < 8 \<Longrightarrow> bit ((w :: 8 word) OR 2 ^ k) j \<longleftrightarrow> bit w j \<or> j = k"
  by (auto simp: bit_simps)

lemma bit_clear_mask: "k < 8 \<Longrightarrow> bit ((w :: 8 word) AND NOT (2 ^ k)) j \<longleftrightarrow> bit w j \<and> j \<noteq> k"
  by (auto simp: bit_simps dest: bit_imp_le_length)

lemma byte_not_full: "(w :: 8 word) \<noteq> 0xff \<longleftrightarrow> (\<exists>j<8. \<not> bit w j)"
proof -
  have m: "(0xff :: 8 word) = - 1" by simp
  have "w = - 1 \<longleftrightarrow> (\<forall>j<8. bit w j)" by (auto simp: bit_eq_iff bit_simps dest: bit_imp_le_length)
  then show ?thesis unfolding m by auto
qed

declare bitmap_findoff.simps [simp del] bitmap_alloc_from.simps [simp del] bitmap_overmark.simps [simp del]

lemma bitmap_findoff_cases:
  assumes "j \<le> 8"
  shows "(bitmap_findoff w j = None \<and> (\<forall>k. j \<le> k \<and> k < 8 \<longrightarrow> bit w k)) \<or>
    (\<exists>off. bitmap_findoff w j = Some off \<and> j \<le> off \<and> off < 8 \<and> \<not> bit w off \<and>
       (\<forall>k. j \<le> k \<and> k < off \<longrightarrow> bit w k))"
  using assms
proof (induction w j rule: bitmap_findoff.induct)
  case (1 w j)
  show ?case
  proof (cases "j < 8 \<and> bit w j")
    case True
    with 1 have "(bitmap_findoff w (Suc j) = None \<and> (\<forall>k. Suc j \<le> k \<and> k < 8 \<longrightarrow> bit w k)) \<or>
      (\<exists>off. bitmap_findoff w (Suc j) = Some off \<and> Suc j \<le> off \<and> off < 8 \<and> \<not> bit w off \<and>
         (\<forall>k. Suc j \<le> k \<and> k < off \<longrightarrow> bit w k))"
      by (simp add: bitmap_mask)
    moreover have "bitmap_findoff w j = bitmap_findoff w (Suc j)"
      using True by (subst bitmap_findoff.simps) (simp add: bitmap_mask)
    moreover have "\<And>k. j \<le> k \<longleftrightarrow> k = j \<or> Suc j \<le> k" by auto
    ultimately show ?thesis using True by fastforce
  next
    case False
    then show ?thesis using 1(2) by (subst (1 2) bitmap_findoff.simps) (auto simp: bitmap_mask)
  qed
qed

lemma bitmap_bit_update:
  assumes "ix < length v" and "off < 8"
  shows "bitmap_bit (v[ix := (v ! ix) OR 2 ^ off]) i \<longleftrightarrow> bitmap_bit v i \<or> i = ix * 8 + off"
    and "bitmap_bit (v[ix := (v ! ix) AND NOT (2 ^ off)]) i \<longleftrightarrow> bitmap_bit v i \<and> i \<noteq> ix * 8 + off"
proof -
  have "i = ix * 8 + off \<longleftrightarrow> i div 8 = ix \<and> i mod 8 = off"
  proof
    assume "i = ix * 8 + off"
    then show "i div 8 = ix \<and> i mod 8 = off" using assms(2) by simp
  next
    assume "i div 8 = ix \<and> i mod 8 = off"
    then show "i = ix * 8 + off" using div_mult_mod_eq [of i 8] by simp
  qed
  then show "bitmap_bit (v[ix := (v ! ix) OR 2 ^ off]) i \<longleftrightarrow> bitmap_bit v i \<or> i = ix * 8 + off"
    "bitmap_bit (v[ix := (v ! ix) AND NOT (2 ^ off)]) i \<longleftrightarrow> bitmap_bit v i \<and> i \<noteq> ix * 8 + off"
    using assms by (simp_all add: bitmap_bit_def nth_list_update bit_or_mask bit_clear_mask)
qed

lemma bitmap_words [simp]: "n \<le> 2 ^ 32 - 8 \<Longrightarrow> divroundup_u32 n 8 = (n + 7) div 8"
  by (simp add: divroundup_u32_def)

lemma byte_index_in_range: "i < n \<Longrightarrow> i div 8 < (n + 7) div (8::nat)"
  by (simp add: div_less_iff_less_mult)

lemma bitmap_alloc_from_cases:
  assumes ok: "bitmap_ok b" and "ix \<le> length (bm_v b)" and "\<forall>i < ix * 8. bitmap_bit (bm_v b) i"
  shows "(bitmap_alloc_from ix (length (bm_v b)) b = Some (Inl ENOSPC, b) \<and>
            (\<forall>i < 8 * length (bm_v b). bitmap_bit (bm_v b) i)) \<or>
    (\<exists>i v'. bitmap_alloc_from ix (length (bm_v b)) b = Some (Inr i, b\<lparr>bm_v := v'\<rparr>) \<and> i < nbits b \<and>
       \<not> bitmap_bit (bm_v b) i \<and> (\<forall>k < i. bitmap_bit (bm_v b) k) \<and> length v' = length (bm_v b) \<and>
       (\<forall>k. bitmap_bit v' k \<longleftrightarrow> bitmap_bit (bm_v b) k \<or> k = i))"
  using assms(2,3)
proof (induction "length (bm_v b) - ix" arbitrary: ix)
  case 0
  then show ?case by (simp add: bitmap_alloc_from.simps mult.commute)
next
  case (Suc m)
  let ?w = "bm_v b ! ix"
  have ix: "ix < length (bm_v b)" using Suc.hyps(2) by simp
  show ?case
  proof (cases "?w = 0xff")
    case True
    have full: "bit ?w j" if "j < 8" for j using byte_not_full [of ?w] True that by simp
    have "bitmap_bit (bm_v b) i" if "i < Suc ix * 8" for i
    proof (cases "i < ix * 8")
      case False
      with that have "i div 8 = ix" by auto
      then show ?thesis using full by (simp add: bitmap_bit_def)
    qed (use Suc.prems(2) in blast)
    then have all: "\<forall>i < Suc ix * 8. bitmap_bit (bm_v b) i" by blast
    have m: "m = length (bm_v b) - Suc ix" using Suc.hyps(2) by simp
    have "bitmap_alloc_from ix (length (bm_v b)) b = bitmap_alloc_from (Suc ix) (length (bm_v b)) b"
      using ix True by (subst bitmap_alloc_from.simps) simp
    then show ?thesis using Suc.hyps(1) [OF m _ all] ix by simp
  next
    case False
    then obtain off where off: "bitmap_findoff ?w 0 = Some off" "off < 8" "\<not> bit ?w off"
        "\<forall>k < off. bit ?w k"
      using bitmap_findoff_cases [of 0 ?w] byte_not_full [of ?w] by auto
    let ?i = "ix * 8 + off"
    have free: "\<not> bitmap_bit (bm_v b) ?i" using off by (simp add: bitmap_bit_def)
    have lt: "?i < nbits b"
    proof (rule ccontr)
      assume "\<not> ?i < nbits b"
      moreover have "?i < 8 * length (bm_v b)" using ix off(2) by simp
      ultimately show False using ok free by (auto simp: bitmap_ok_def)
    qed
    have u32: "?i mod 2 ^ 32 = ?i" using lt ok by (simp add: bitmap_ok_def)
    have "bitmap_alloc_from ix (length (bm_v b)) b =
        Some (Inr ?i, b\<lparr>bm_v := (bm_v b)[ix := ?w OR 2 ^ off]\<rparr>)"
      using ix False off lt u32 by (subst bitmap_alloc_from.simps) (simp add: Let_def)
    moreover have "bitmap_bit (bm_v b) k" if "k < ?i" for k
    proof (cases "k < ix * 8")
      case False
      with that off(2) have "k div 8 = ix" by auto
      then have "k mod 8 = k - ix * 8" by (metis minus_div_mult_eq_mod)
      then have "k mod 8 < off" using that False by linarith
      then show ?thesis using off(4) \<open>k div 8 = ix\<close> by (simp add: bitmap_bit_def)
    qed (use Suc.prems(2) in blast)
    ultimately show ?thesis using lt free bitmap_bit_update(1) [OF ix off(2)] by auto
  qed
qed

lemma bitmap_alloc_cases:
  assumes ok: "bitmap_ok b"
  obtains (full) "bitmap_alloc b = Some (Inl ENOSPC, b)" and "bitmap_used b = {..<nbits b}"
  | (taken) i b' where "bitmap_alloc b = Some (Inr i, b')" and "bitmap_ok b'" and "nbits b' = nbits b"
      and "i < nbits b" and "i \<notin> bitmap_used b" and "\<forall>k < i. k \<in> bitmap_used b"
      and "bitmap_used b' = insert i (bitmap_used b)"
proof -
  have len: "divroundup_u32 (nbits b) 8 = length (bm_v b)" "nbits b \<le> 8 * length (bm_v b)"
    using ok by (auto simp: bitmap_ok_def)
  from bitmap_alloc_from_cases [OF ok, of 0, simplified] show thesis
  proof (elim disjE exE conjE)
    assume "bitmap_alloc_from 0 (length (bm_v b)) b = Some (Inl ENOSPC, b)"
      and "\<forall>i<8 * length (bm_v b). bitmap_bit (bm_v b) i"
    then have "bitmap_used b = {..<nbits b}" using len(2) by (auto simp: bitmap_used_def)
    then show thesis using full len(1) \<open>bitmap_alloc_from 0 _ b = _\<close> by (simp add: bitmap_alloc_def)
  next
    fix i v'
    assume a: "bitmap_alloc_from 0 (length (bm_v b)) b = Some (Inr i, b\<lparr>bm_v := v'\<rparr>)" "i < nbits b"
      "\<not> bitmap_bit (bm_v b) i" "\<forall>k<i. bitmap_bit (bm_v b) k" "length v' = length (bm_v b)"
      "\<forall>k. bitmap_bit v' k \<longleftrightarrow> bitmap_bit (bm_v b) k \<or> k = i"
    show thesis
      by (rule taken [of i "b\<lparr>bm_v := v'\<rparr>"]) (use a len ok in \<open>auto simp: bitmap_alloc_def bitmap_used_def bitmap_ok_def\<close>)
  qed
qed

lemma bitmap_split_index: "i = i div 8 * 8 + i mod (8::nat)"
  by simp

lemma bitmap_ok_byte: "bitmap_ok b \<Longrightarrow> i < nbits b \<Longrightarrow> i div 8 < length (bm_v b)"
  by (simp add: bitmap_ok_def byte_index_in_range)

lemma bitmap_mark_spec:
  assumes ok: "bitmap_ok b" and i: "i < nbits b" and free: "i \<notin> bitmap_used b"
  shows "\<exists>b'. bitmap_mark i b = Some b' \<and> bitmap_ok b' \<and> nbits b' = nbits b \<and>
    bitmap_used b' = insert i (bitmap_used b)"
proof -
  let ?v = "(bm_v b)[i div 8 := bm_v b ! (i div 8) OR 2 ^ (i mod 8)]"
  note upd = bitmap_bit_update(1) [OF bitmap_ok_byte [OF ok i], of "i mod 8"]
  have "bitmap_mark i b = Some (b\<lparr>bm_v := ?v\<rparr>)"
    using bitmap_ok_byte [OF ok i] i free
    by (simp add: bitmap_mark_def bitmap_translate_def bitmap_mask bitmap_used_def bitmap_bit_def)
  moreover have "bitmap_ok (b\<lparr>bm_v := ?v\<rparr>)" using ok by (simp add: bitmap_ok_def upd)
  moreover have "bitmap_used (b\<lparr>bm_v := ?v\<rparr>) = insert i (bitmap_used b)"
    using i by (auto simp: bitmap_used_def upd)
  ultimately show ?thesis by (intro exI [of _ "b\<lparr>bm_v := ?v\<rparr>"]) simp
qed

lemma bitmap_unmark_spec:
  assumes ok: "bitmap_ok b" and used: "i \<in> bitmap_used b"
  shows "\<exists>b'. bitmap_unmark i b = Some b' \<and> bitmap_ok b' \<and> nbits b' = nbits b \<and>
    bitmap_used b' = bitmap_used b - {i}"
proof -
  have i: "i < nbits b" "bitmap_bit (bm_v b) i" using used by (auto simp: bitmap_used_def)
  let ?v = "(bm_v b)[i div 8 := bm_v b ! (i div 8) AND NOT (2 ^ (i mod 8))]"
  note upd = bitmap_bit_update(2) [OF bitmap_ok_byte [OF ok i(1)], of "i mod 8"]
  have "bitmap_unmark i b = Some (b\<lparr>bm_v := ?v\<rparr>)"
    using bitmap_ok_byte [OF ok i(1)] i
    by (simp add: bitmap_unmark_def bitmap_translate_def bitmap_mask bitmap_bit_def)
  moreover have "bitmap_ok (b\<lparr>bm_v := ?v\<rparr>)" using ok i by (auto simp: bitmap_ok_def upd)
  moreover have "bitmap_used (b\<lparr>bm_v := ?v\<rparr>) = bitmap_used b - {i}"
    by (auto simp: bitmap_used_def upd)
  ultimately show ?thesis by (intro exI [of _ "b\<lparr>bm_v := ?v\<rparr>"]) simp
qed

lemma bitmap_isset_spec:
  "bitmap_ok b \<Longrightarrow> i < nbits b \<Longrightarrow> \<exists>w. bitmap_isset b i = Some w \<and> (w \<noteq> 0 \<longleftrightarrow> i \<in> bitmap_used b)"
  using bitmap_ok_byte [of b i]
  by (auto simp: bitmap_isset_def bitmap_translate_def bitmap_mask bitmap_used_def bitmap_bit_def)

lemma bit_overmark: "j \<le> 8 \<Longrightarrow> bit (bitmap_overmark j w) k \<longleftrightarrow> bit w k \<or> j \<le> k \<and> k < 8"
proof (induction j w rule: bitmap_overmark.induct)
  case (1 j w)
  show ?case
  proof (cases "j < 8")
    case True
    then have "bitmap_overmark j w = bitmap_overmark (Suc j) (w OR 2 ^ j)"
      by (subst bitmap_overmark.simps) simp
    then show ?thesis using 1(1) [OF True] True by (auto simp: bit_or_mask)
  next
    case False
    then show ?thesis by (auto simp: bitmap_overmark.simps)
  qed
qed

lemma words_exact: "n mod 8 = 0 \<Longrightarrow> (n + 7) div 8 = n div (8::nat)"
  by presburger

lemma words_over:
  assumes "n mod 8 \<noteq> 0"
  shows "(n + 7) div 8 = Suc (n div (8::nat))"
proof -
  define q r where "q = n div 8" and "r = n mod 8"
  have n: "n = 8 * q + r" and r: "r < 8" "0 < r"
    using assms by (auto simp: q_def r_def)
  then obtain k where "r = Suc k" by (cases r) auto
  then have "n + 7 = 8 * Suc q + k" "k < 8" using n r by auto
  then have "(n + 7) div 8 = Suc q" by simp
  then show ?thesis by (simp add: q_def)
qed

lemma words_enough: "n \<le> 8 * ((n + 7) div (8::nat))"
  using div_mult_mod_eq [of "n + 7" 8] mod_less_divisor [of 8 "n + 7"] by linarith

lemma bitmap_create_spec:
  assumes "kmalloc_bytes_ok km" and "n \<le> 2 ^ 32 - 8"
  obtains (nomem) "bitmap_create mem km n = Some None" and "\<not> mem \<or> (\<exists>k. km k = None)"
  | (fresh) b where "bitmap_create mem km n = Some (Some b)" and "bitmap_ok b" and "nbits b = n"
      and "bitmap_used b = {}"
proof (cases "mem \<and> km ((n + 7) div 8) \<noteq> None")
  case False
  then have "bitmap_create mem km n = Some None" using assms(2) by (auto simp: bitmap_create_def Let_def)
  then show thesis using False by (intro nomem) auto
next
  case True
  let ?k = "(n + 7) div 8" and ?z = "replicate ((n + 7) div 8) (0 :: 8 word)"
  obtain v0 where v0: "km ?k = Some v0" "length v0 = ?k"
    using True assms(1) by (auto simp: kmalloc_bytes_ok_def)
  show thesis
  proof (cases "n mod 8 = 0")
    case True
    then have k: "?k = n div 8" by (rule words_exact)
    have created: "bitmap_create mem km n = Some (Some \<lparr>nbits = n, bm_v = ?z\<rparr>)"
      unfolding bitmap_create_def Let_def bitmap_words [OF assms(2)] k
      using \<open>mem \<and> _\<close> v0 k by (simp add: bzero_def)
    have eq: "8 * (n div 8) = n" using True by presburger
    have "i div 8 < ?k" if "i < n" for i
      unfolding k by (rule less_mult_imp_div_less) (use that eq in linarith)
    then have used: "bitmap_used \<lparr>nbits = n, bm_v = ?z\<rparr> = {}"
      by (auto simp: bitmap_used_def bitmap_bit_def)
    have "bitmap_ok \<lparr>nbits = n, bm_v = ?z\<rparr>"
      using assms(2) by (simp add: bitmap_ok_def eq k)
    then show thesis using fresh [OF created] used by simp
  next
    case False
    then have k: "?k = Suc (n div 8)" by (rule words_over)
    let ?v = "?z[n div 8 := bitmap_overmark (n mod 8) 0]"
    have over: "n - n div 8 * 8 = n mod 8" by (simp add: minus_div_mult_eq_mod)
    have "bitmap_create mem km n = Some (Some \<lparr>nbits = n, bm_v = ?v\<rparr>)"
      unfolding bitmap_create_def Let_def bitmap_words [OF assms(2)] k over diff_Suc_1
      using \<open>mem \<and> _\<close> v0 False by (simp add: bzero_def over k del: replicate_Suc)
    have bit: "bitmap_bit ?v i \<longleftrightarrow> n \<le> i" if "i < 8 * ?k" for i
    proof -
      have lt: "i div 8 < ?k" using that by (intro less_mult_imp_div_less) (simp add: mult.commute)
      show ?thesis
      proof (cases "i div 8 = n div 8")
        case True
        then have "n \<le> i \<longleftrightarrow> n mod 8 \<le> i mod 8"
          by (metis add_le_cancel_left div_mult_mod_eq)
        then show ?thesis using True lt unfolding bitmap_bit_def by (simp add: bit_overmark)
      next
        case False
        then have "i div 8 < n div 8" using lt unfolding k by (rule_tac le_neq_implies_less) simp_all
        then have "\<not> n \<le> i" by (meson div_le_mono leD)
        then show ?thesis using False lt unfolding bitmap_bit_def by (simp add: bit_overmark)
      qed
    qed
    have "n \<le> 8 * ?k" by (rule words_enough)
    with bit have "bitmap_ok \<lparr>nbits = n, bm_v = ?v\<rparr>" "bitmap_used \<lparr>nbits = n, bm_v = ?v\<rparr> = {}"
      using assms(2) by (simp_all add: bitmap_ok_def bitmap_used_def del: replicate_Suc)
    then show thesis using fresh \<open>bitmap_create mem km n = _\<close> by simp
  qed
qed

section \<open>The bitmap as an allocator\<close>

text \<open>\<open>n\<close> allocations in a row, stopping at the first failure, and the slots they returned.\<close>

primrec alloc_many ::
  "('b \<Rightarrow> (nat kres \<times> 'b) option) \<Rightarrow> nat \<Rightarrow> 'b \<Rightarrow> (errno option \<times> nat list \<times> 'b) option" where
  "alloc_many alloc 0 b = Some (None, [], b)"
| "alloc_many alloc (Suc n) b = do {
     (r, b1) \<leftarrow> alloc b;
     case r of
       Inl e \<Rightarrow> Some (Some e, [], b1)
     | Inr i \<Rightarrow> do {
         (e, ns, b2) \<leftarrow> alloc_many alloc n b1;
         Some (e, i # ns, b2)
       }
   }"

locale slots =
  fixes inv :: "'b \<Rightarrow> bool"
    and cap :: "'b \<Rightarrow> nat"
    and used :: "'b \<Rightarrow> nat set"
    and alloc :: "'b \<Rightarrow> (nat kres \<times> 'b) option"
    and free :: "nat \<Rightarrow> 'b \<Rightarrow> 'b option"
    and nospace :: errno
  assumes used_bound: "inv b \<Longrightarrow> used b \<subseteq> {..<cap b}"
    and alloc_full: "inv b \<Longrightarrow> used b = {..<cap b} \<Longrightarrow> alloc b = Some (Inl nospace, b)"
    and alloc_fresh: "inv b \<Longrightarrow> used b \<noteq> {..<cap b} \<Longrightarrow>
      \<exists>i b'. alloc b = Some (Inr i, b') \<and> inv b' \<and> cap b' = cap b \<and> i < cap b \<and> i \<notin> used b \<and>
        used b' = insert i (used b)"
    and free_used: "inv b \<Longrightarrow> i \<in> used b \<Longrightarrow>
      \<exists>b'. free i b = Some b' \<and> inv b' \<and> cap b' = cap b \<and> used b' = used b - {i}"
begin

lemma used_finite: "inv b \<Longrightarrow> finite (used b)"
  using used_bound finite_subset by blast

lemma used_card: "inv b \<Longrightarrow> card (used b) \<le> cap b"
  using used_bound card_mono [of "{..<cap b}"] by fastforce

lemma used_full_iff: "inv b \<Longrightarrow> used b = {..<cap b} \<longleftrightarrow> card (used b) = cap b"
  using card_subset_eq [OF finite_lessThan used_bound] card_lessThan by metis

lemma alloc_many_distinct:
  "inv b \<Longrightarrow> n + card (used b) \<le> cap b \<Longrightarrow>
   \<exists>ns b'. alloc_many alloc n b = Some (None, ns, b') \<and> inv b' \<and> cap b' = cap b \<and> length ns = n \<and>
     distinct ns \<and> set ns \<inter> used b = {} \<and> used b' = used b \<union> set ns"
proof (induction n arbitrary: b)
  case 0
  then show ?case by simp
next
  case (Suc n)
  then have "used b \<noteq> {..<cap b}" by (simp add: used_full_iff)
  from alloc_fresh [OF Suc.prems(1) this] obtain i b1 where
    i: "alloc b = Some (Inr i, b1)" "inv b1" "cap b1 = cap b" "i \<notin> used b" "used b1 = insert i (used b)"
    by blast
  have "n + card (used b1) \<le> cap b1"
    using Suc.prems i used_finite [OF Suc.prems(1)] by simp
  from Suc.IH [OF i(2) this] obtain ns b' where
    "alloc_many alloc n b1 = Some (None, ns, b')" "inv b'" "cap b' = cap b1" "length ns = n"
    "distinct ns" "set ns \<inter> used b1 = {}" "used b' = used b1 \<union> set ns"
    by blast
  with i show ?case by auto
qed

lemma alloc_free_restores:
  assumes "inv b" and "alloc b = Some (Inr i, b1)"
  shows "\<exists>b2. free i b1 = Some b2 \<and> inv b2 \<and> cap b2 = cap b \<and> used b2 = used b"
proof -
  have "used b \<noteq> {..<cap b}" using assms alloc_full [OF assms(1)] by auto
  from alloc_fresh [OF assms(1) this] assms(2)
  have "inv b1" "cap b1 = cap b" "i \<notin> used b" "used b1 = insert i (used b)" by auto
  then show ?thesis using free_used [of b1 i] by auto
qed

end

interpretation bm: slots bitmap_ok nbits bitmap_used bitmap_alloc bitmap_unmark ENOSPC
proof unfold_locales
  fix b :: bitmap
  assume ok: "bitmap_ok b"
  show "bitmap_used b \<subseteq> {..<nbits b}" by (auto simp: bitmap_used_def)
  show "bitmap_alloc b = Some (Inl ENOSPC, b)" if "bitmap_used b = {..<nbits b}"
    using ok by (cases rule: bitmap_alloc_cases) (use that in auto)
  show "\<exists>i b'. bitmap_alloc b = Some (Inr i, b') \<and> bitmap_ok b' \<and> nbits b' = nbits b \<and> i < nbits b \<and>
      i \<notin> bitmap_used b \<and> bitmap_used b' = insert i (bitmap_used b)" if "bitmap_used b \<noteq> {..<nbits b}"
    using ok by (cases rule: bitmap_alloc_cases) (use that in auto)
qed (rule bitmap_unmark_spec)

section \<open>Properties\<close>

text \<open>
  C39. \<open>bitmap_alloc\<close> on a well-formed bitmap never trips its assertions. It returns the
  lowest clear bit and sets exactly that bit, or \<open>ENOSPC\<close> with the bitmap unchanged, the
  latter exactly when every bit below \<open>nbits\<close> is set.
\<close>

theorem bitmap_alloc_first_free:
  assumes "bitmap_ok b"
  shows "(bitmap_alloc b = Some (Inl ENOSPC, b) \<and> bitmap_used b = {..<nbits b}) \<or>
    (\<exists>i b'. bitmap_alloc b = Some (Inr i, b') \<and> bitmap_ok b' \<and> nbits b' = nbits b \<and> i < nbits b \<and>
       i \<notin> bitmap_used b \<and> {..<i} \<subseteq> bitmap_used b \<and> bitmap_used b' = insert i (bitmap_used b))"
  using assms by (cases rule: bitmap_alloc_cases) auto

theorem bitmap_alloc_first_free_witness:
  "\<exists>i b'. bitmap_alloc \<lparr>nbits = 11, bm_v = [0xff, 0xf9]\<rparr> = Some (Inr i, b') \<and> bitmap_ok b' \<and>
     nbits b' = 11 \<and> i < 11"
proof -
  have "bitmap_ok \<lparr>nbits = 11, bm_v = [0xff, 0xf9]\<rparr>"
    and "fst (the (bitmap_alloc \<lparr>nbits = 11, bm_v = [0xff, 0xf9]\<rparr>)) = Inr 9"
    by (simp_all add: bitmap_ok_def bitmap_bit_def atLeastLessThan_upt upt_rec bit_simps bitmap_alloc_def
        divroundup_u32_def bitmap_alloc_from.simps [of 0] bitmap_alloc_from.simps [of "Suc 0"]
        bitmap_findoff.simps [of _ 0] bitmap_findoff.simps [of _ "Suc 0"])
  then show ?thesis using bitmap_alloc_first_free [of "\<lparr>nbits = 11, bm_v = [0xff, 0xf9]\<rparr>"] by auto
qed

text \<open>
  A fresh bitmap of \<open>n\<close> bits has exactly \<open>n\<close> allocations in it: \<open>n\<close> calls of
  \<open>bitmap_alloc\<close> return \<open>n\<close> distinct indices, whatever \<open>n\<close> leaves over in the last byte,
  and the next call returns \<open>ENOSPC\<close>.
\<close>

theorem bitmap_capacity_exact:
  assumes "kmalloc_bytes_ok km" and "n \<le> 2 ^ 32 - 8" and "bitmap_create mem km n = Some (Some b)"
  shows "\<exists>ns b'. alloc_many bitmap_alloc n b = Some (None, ns, b') \<and> distinct ns \<and> set ns = {..<n} \<and>
    bitmap_alloc b' = Some (Inl ENOSPC, b')"
proof -
  have b: "bitmap_ok b" "nbits b = n" "bitmap_used b = {}"
    by (rule bitmap_create_spec [OF assms(1,2), of mem]; use assms(3) in simp)+
  from bm.alloc_many_distinct [OF b(1), of n] b obtain ns b' where
    ns: "alloc_many bitmap_alloc n b = Some (None, ns, b')" "bitmap_ok b'" "nbits b' = n"
      "length ns = n" "distinct ns" "bitmap_used b' = set ns"
    by auto
  have "set ns \<subseteq> {..<n}" using bm.used_bound [OF ns(2)] ns by simp
  moreover have "card (set ns) = n" using ns by (simp add: distinct_card)
  ultimately have "set ns = {..<n}" by (simp add: card_subset_eq)
  with ns show ?thesis using bm.alloc_full [OF ns(2)] by auto
qed

theorem bitmap_capacity_exact_witness:
  "\<exists>ns b'. alloc_many bitmap_alloc 11 \<lparr>nbits = 11, bm_v = [0, 0xf8]\<rparr> = Some (None, ns, b') \<and> distinct ns \<and>
     set ns = {..<11} \<and> bitmap_alloc b' = Some (Inl ENOSPC, b')"
proof (rule bitmap_capacity_exact [where mem = True and km = "\<lambda>n. Some (replicate n 7)"])
  have "divroundup_u32 11 8 = Suc (Suc 0)" by (simp add: divroundup_u32_def)
  then show "bitmap_create True (\<lambda>n. Some (replicate n 7)) 11 = Some (Some \<lparr>nbits = 11, bm_v = [0, 0xf8]\<rparr>)"
    by (simp add: bitmap_create_def bzero_def) (simp add: bitmap_overmark.simps numeral_2_eq_2)
qed (simp_all add: kmalloc_bytes_ok_def)

text \<open>
  \<open>bitmap_mark\<close> and \<open>bitmap_unmark\<close> undo each other: marking a clear bit below \<open>nbits\<close>
  and unmarking it passes the assertions of both and restores the set, and in between
  \<open>bitmap_isset\<close> reports the bit.
\<close>

theorem bitmap_mark_unmark:
  assumes "bitmap_ok b" and "i < nbits b" and "i \<notin> bitmap_used b"
  shows "\<exists>b1 w b2. bitmap_mark i b = Some b1 \<and> bitmap_isset b1 i = Some w \<and> w \<noteq> 0 \<and>
    bitmap_unmark i b1 = Some b2 \<and> bitmap_ok b2 \<and> nbits b2 = nbits b \<and> bitmap_used b2 = bitmap_used b"
proof -
  obtain b1 where b1: "bitmap_mark i b = Some b1" "bitmap_ok b1" "nbits b1 = nbits b"
      "bitmap_used b1 = insert i (bitmap_used b)"
    using bitmap_mark_spec [OF assms] by blast
  moreover obtain w where "bitmap_isset b1 i = Some w" "w \<noteq> 0"
    using bitmap_isset_spec [of b1 i] b1 assms by auto
  moreover obtain b2 where "bitmap_unmark i b1 = Some b2" "bitmap_ok b2" "nbits b2 = nbits b1"
      "bitmap_used b2 = bitmap_used b1 - {i}"
    using bitmap_unmark_spec [of b1 i] b1 by auto
  ultimately show ?thesis using assms(3) by auto
qed

theorem bitmap_mark_unmark_witness:
  "\<exists>b1 w b2. bitmap_mark 9 \<lparr>nbits = 11, bm_v = [0, 0xf8]\<rparr> = Some b1 \<and> bitmap_isset b1 9 = Some w \<and> w \<noteq> 0 \<and>
     bitmap_unmark 9 b1 = Some b2 \<and> bitmap_ok b2 \<and> nbits b2 = nbits \<lparr>nbits = 11, bm_v = [0, 0xf8]\<rparr> \<and>
     bitmap_used b2 = bitmap_used \<lparr>nbits = 11, bm_v = [0, 0xf8]\<rparr>"
proof (rule bitmap_mark_unmark)
  show "bitmap_ok \<lparr>nbits = 11, bm_v = [0, 0xf8]\<rparr>"
    by (simp add: bitmap_ok_def bitmap_bit_def atLeastLessThan_upt upt_rec bit_simps)
  show "9 \<notin> bitmap_used \<lparr>nbits = 11, bm_v = [0, 0xf8]\<rparr>"
    by (simp add: bitmap_used_def bitmap_bit_def bit_simps)
qed simp

end
