(* ===== verification/KThread.thy ===== *)
theory KThread
  imports KArray KQueue
begin

text \<open>
  Threads: \<open>arch/mips/mips/spl.c\<close>, \<open>thread/scheduler.c\<close>, \<open>thread/thread.c\<close>,
  \<open>thread/hardclock.c\<close> and the context switch of \<open>arch/mips/mips/pcb.c\<close>.

  The global variables of these files are the fields of one record, and a \<open>struct thread\<close> is
  named by its address. \<open>md_switch\<close> saves where the old thread stopped in its pcb; the saved
  point is the datatype \<open>resume\<close>, whose parameter is what the caller of \<open>thread_sleep\<close> does
  next. \<open>mi_switch\<close> is therefore two definitions: \<open>mi_switch_out\<close>, up to the call of
  \<open>md_switch\<close>, and \<open>mi_switch_in\<close>, which the next thread executes after it. Between the two
  the scheduler runs with \<open>curthread\<close> null, possibly idling with interrupts.

  Every call of \<open>kmalloc\<close> has its own argument, since each may fail independently. The
  reference count of a vnode is all that is modelled of it here; \<open>as_activate\<close> records the
  address space it is called on, and \<open>as_destroy\<close> has no effect on the state of this file.
\<close>

section \<open>State\<close>

type_synonym addr = nat
type_synonym tid = nat
type_synonym 'a kmem = "nat \<Rightarrow> 'a list option"

datatype threadstate = S_RUN | S_READY | S_SLEEP | S_ZOMB

text \<open>
  \<open>R_yield\<close> keeps the local \<open>spl\<close> of \<open>thread_yield\<close>; \<open>R_irq\<close> also keeps the locals of
  \<open>mips_interrupt\<close> and \<open>mips_trap\<close> for a yield from the timer interrupt. \<open>R_dead\<close> is a pcb
  that must not be resumed.
\<close>

datatype 'c resume =
    R_start
  | R_yield int
  | R_irq int bool int
  | R_sleep 'c
  | R_dead

record 'c pcb =
  pcb_ininterrupt :: bool
  pcb_resume :: "'c resume"

record 'c thread =
  t_pcb :: "'c pcb"
  t_name :: string
  t_sleepaddr :: "addr option"
  t_stack :: "8 word list option"
  t_vmspace :: "addr option"
  t_cwd :: "addr option"

record 'c kern =
  curspl :: int
  cst_iec :: bool
  in_interrupt :: bool
  curthread :: "tid option"
  threads :: "tid \<Rightarrow> 'c thread option"
  sleepers :: "tid array option"
  zombies :: "tid array option"
  runqueue :: "tid queue option"
  numthreads :: int
  vrefs :: "addr \<Rightarrow> int"
  active_as :: "addr option"
  lbolt_counter :: int

section \<open>Interrupt priority\<close>

definition SPL_HIGH :: int where
  "SPL_HIGH = 15"

definition splx :: "int \<Rightarrow> 'c kern \<Rightarrow> int \<times> 'c kern" where
  "splx newspl k =
     (let k1 = (if newspl > 0 then k\<lparr>cst_iec := False\<rparr>
                else if newspl = 0 then k\<lparr>cst_iec := True\<rparr> else k)
      in (curspl k, k1\<lparr>curspl := newspl\<rparr>))"

definition splhigh :: "'c kern \<Rightarrow> int \<times> 'c kern" where
  "splhigh k = splx SPL_HIGH k"

definition spl0 :: "'c kern \<Rightarrow> int \<times> 'c kern" where
  "spl0 k = splx 0 k"

section \<open>The scheduler\<close>

definition scheduler_bootstrap :: "bool \<Rightarrow> tid kmem \<Rightarrow> 'c kern \<Rightarrow> 'c kern option" where
  "scheduler_bootstrap mem km k = do {
     q \<leftarrow> q_create mem km 32;
     Some (k\<lparr>runqueue := Some q\<rparr>)
   }"

definition scheduler_preallocate :: "tid kmem \<Rightarrow> int \<Rightarrow> 'c kern \<Rightarrow> (unit kres \<times> 'c kern) option" where
  "scheduler_preallocate km nthreads k = do {
     kassert (curspl k > 0);
     q \<leftarrow> runqueue k;
     (r, q') \<leftarrow> q_preallocate km nthreads q;
     Some (r, k\<lparr>runqueue := Some q'\<rparr>)
   }"

text \<open>The names \<open>scheduler_killall\<close> prints are its result.\<close>

definition scheduler_killall :: "'c kern \<Rightarrow> (tid list \<times> 'c kern) option" where
  "scheduler_killall k = do {
     kassert (curspl k > 0);
     q \<leftarrow> runqueue k;
     (ts, q') \<leftarrow> drain q_empty q_remhead q;
     Some (ts, k\<lparr>runqueue := Some q'\<rparr>)
   }"

definition scheduler_shutdown :: "'c kern \<Rightarrow> 'c kern option" where
  "scheduler_shutdown k = do {
     (ts, k1) \<leftarrow> scheduler_killall k;
     kassert (curspl k1 > 0);
     q \<leftarrow> runqueue k1;
     _ \<leftarrow> q_destroy q;
     Some (k1\<lparr>runqueue := None\<rparr>)
   }"

text \<open>One pass of \<open>scheduler\<close>: a thread, or nothing when it calls \<open>cpu_idle\<close> and looks again.\<close>

definition scheduler :: "'c kern \<Rightarrow> (tid option \<times> 'c kern) option" where
  "scheduler k = do {
     kassert (curspl k > 0);
     q \<leftarrow> runqueue k;
     if q_empty q then Some (None, k)
     else do {
       (t, q') \<leftarrow> q_remhead q;
       Some (Some t, k\<lparr>runqueue := Some q'\<rparr>)
     }
   }"

definition make_runnable :: "tid kmem \<Rightarrow> tid \<Rightarrow> 'c kern \<Rightarrow> (unit kres \<times> 'c kern) option" where
  "make_runnable km t k = do {
     kassert (curspl k > 0);
     q \<leftarrow> runqueue k;
     (r, q') \<leftarrow> q_addtail km q t;
     Some (r, k\<lparr>runqueue := Some q'\<rparr>)
   }"

text \<open>The loop of \<open>print_run_queue\<close>, with the lines it prints as its result.\<close>

partial_function (option) print_run_queue_from ::
  "int \<Rightarrow> nat \<Rightarrow> tid queue \<Rightarrow> 'c kern \<Rightarrow> (nat \<times> string \<times> addr option) list option" where
  "print_run_queue_from i n q k =
     (if i \<noteq> q_getend q then do {
        p \<leftarrow> q_getguy q i;
        t \<leftarrow> threads k p;
        i1 \<leftarrow> c_int (i + 1);
        i' \<leftarrow> c_rem i1 (q_getsize q);
        ls \<leftarrow> print_run_queue_from i' (n + 1) q k;
        Some ((n, t_name t, t_sleepaddr t) # ls)
      }
      else Some [])"

declare print_run_queue_from.simps [code]

definition print_run_queue :: "'c kern \<Rightarrow> ((nat \<times> string \<times> addr option) list \<times> 'c kern) option" where
  "print_run_queue k = do {
     let (spl, k1) = splhigh k;
     q \<leftarrow> runqueue k1;
     ls \<leftarrow> print_run_queue_from (q_getstart q) 0 q k1;
     Some (ls, snd (splx spl k1))
   }"

section \<open>Creating and destroying threads\<close>

definition stack_magic :: "8 word list" where
  "stack_magic = [0xae, 0x11, 0xda, 0x33]"

text \<open>The assertions on the magic number at the bottom of the stack.\<close>

definition check_stack :: "'c thread \<Rightarrow> unit option" where
  "check_stack t = (case t_stack t of
     None \<Rightarrow> Some ()
   | Some s \<Rightarrow> kassert (take 4 s = stack_magic))"

definition thread_create :: "addr option \<Rightarrow> bool \<Rightarrow> string \<Rightarrow> 'c kern \<Rightarrow> tid option \<times> 'c kern" where
  "thread_create mem namemem name k =
     (case mem of
        None \<Rightarrow> (None, k)
      | Some p \<Rightarrow>
          if \<not> namemem then (None, k)
          else (Some p, k\<lparr>threads := (threads k)(p \<mapsto>
                  \<lparr>t_pcb = \<lparr>pcb_ininterrupt = False, pcb_resume = R_dead\<rparr>, t_name = name,
                   t_sleepaddr = None, t_stack = None, t_vmspace = None, t_cwd = None\<rparr>)\<rparr>))"

definition thread_destroy :: "tid \<Rightarrow> 'c kern \<Rightarrow> 'c kern option" where
  "thread_destroy p k = do {
     kassert (curthread k \<noteq> Some p);
     t \<leftarrow> threads k p;
     kassert (t_vmspace t = None);
     kassert (t_cwd t = None);
     Some (k\<lparr>threads := (threads k)(p := None)\<rparr>)
   }"

text \<open>
  The loop of \<open>exorcise\<close>. Shrinking an array never allocates, so the call of
  \<open>array_setsize\<close> is given no memory.
\<close>

function exorcise_from :: "int \<Rightarrow> tid array \<Rightarrow> 'c kern \<Rightarrow> 'c kern option" where
  "exorcise_from i zs k =
     (if i < array_getnum zs then do {
        z \<leftarrow> array_getguy zs i;
        kassert (curthread k \<noteq> Some z);
        k' \<leftarrow> thread_destroy z k;
        exorcise_from (i + 1) zs k'
      }
      else Some k)"
  by pat_completeness auto
termination by (relation "measure (\<lambda>(i, zs, k). nat (array_getnum zs - i))") auto

definition exorcise :: "'c kern \<Rightarrow> 'c kern option" where
  "exorcise k = do {
     kassert (curspl k > 0);
     zs \<leftarrow> zombies k;
     k1 \<leftarrow> exorcise_from 0 zs k;
     (result, zs') \<leftarrow> array_setsize (\<lambda>_. None) 0 zs;
     kassert (result = Inr ());
     Some (k1\<lparr>zombies := Some zs'\<rparr>)
   }"

text \<open>The loop of \<open>thread_killall\<close> only prints the names of the sleepers it drops.\<close>

definition thread_killall :: "'c kern \<Rightarrow> 'c kern option" where
  "thread_killall k = do {
     kassert (curspl k > 0);
     sl \<leftarrow> sleepers k;
     (result, sl') \<leftarrow> array_setsize (\<lambda>_. None) 0 sl;
     kassert (result = Inr ());
     Some (k\<lparr>sleepers := Some sl'\<rparr>)
   }"

definition thread_panic :: "'c kern \<Rightarrow> 'c kern option" where
  "thread_panic k = do {
     kassert (curspl k > 0);
     k1 \<leftarrow> thread_killall k;
     (ts, k2) \<leftarrow> scheduler_killall k1;
     Some k2
   }"

definition one_thread_only :: "'c kern \<Rightarrow> bool \<times> 'c kern" where
  "one_thread_only k =
     (let (s, k1) = splhigh k; n = numthreads k1; k2 = snd (splx s k1) in (n = 1, k2))"

text \<open>\<open>thread_bootstrap\<close>; \<open>me\<close> is the address \<open>thread_create\<close> gets for the first thread.\<close>

definition thread_bootstrap :: "bool \<Rightarrow> bool \<Rightarrow> addr option \<Rightarrow> bool \<Rightarrow> 'c kern \<Rightarrow> (tid \<times> 'c kern) option" where
  "thread_bootstrap mem1 mem2 me namemem k = do {
     sl \<leftarrow> array_create mem1;
     zs \<leftarrow> array_create mem2;
     let (r, k1) = thread_create me namemem ''<boot/menu>'' (k\<lparr>sleepers := Some sl, zombies := Some zs\<rparr>);
     p \<leftarrow> r;
     Some (p, k1\<lparr>curthread := Some p, numthreads := 1\<rparr>)
   }"

definition thread_shutdown :: "'c kern \<Rightarrow> 'c kern" where
  "thread_shutdown k = k\<lparr>sleepers := None, zombies := None\<rparr>"

section \<open>Forking\<close>

text \<open>
  The references \<open>VOP_INCREF\<close> and \<open>VOP_DECREF\<close> take on a vnode. The last reference hands the
  vnode to \<open>VOP_RECLAIM\<close>, after which nobody refers to it.
\<close>

definition vop_incref :: "addr \<Rightarrow> 'c kern \<Rightarrow> 'c kern" where
  "vop_incref v k = k\<lparr>vrefs := (vrefs k)(v := vrefs k v + 1)\<rparr>"

definition vop_decref :: "addr \<Rightarrow> 'c kern \<Rightarrow> 'c kern option" where
  "vop_decref v k = do {
     kassert (vrefs k v > 0);
     Some (k\<lparr>vrefs := (vrefs k)(v := if vrefs k v > 1 then vrefs k v - 1 else 0)\<rparr>)
   }"

text \<open>The results of the calls of \<open>kmalloc\<close> that one \<open>thread_fork\<close> makes.\<close>

record fork_mem =
  fm_thread :: "addr option"
  fm_name :: bool
  fm_stack :: "8 word list option"
  fm_sleepers :: "tid kmem"
  fm_zombies :: "tid kmem"
  fm_prealloc :: "tid kmem"
  fm_runnable :: "tid kmem"

text \<open>The four calls between \<open>splhigh\<close> and \<open>numthreads++\<close>; each failure jumps to \<open>fail\<close>.\<close>

definition sleepers_preallocate :: "tid kmem \<Rightarrow> int \<Rightarrow> 'c kern \<Rightarrow> (unit kres \<times> 'c kern) option" where
  "sleepers_preallocate km n k = do {
     sl \<leftarrow> sleepers k;
     (r, sl') \<leftarrow> array_preallocate km n sl;
     Some (r, k\<lparr>sleepers := Some sl'\<rparr>)
   }"

definition zombies_preallocate :: "tid kmem \<Rightarrow> int \<Rightarrow> 'c kern \<Rightarrow> (unit kres \<times> 'c kern) option" where
  "zombies_preallocate km n k = do {
     zs \<leftarrow> zombies k;
     (r, zs') \<leftarrow> array_preallocate km n zs;
     Some (r, k\<lparr>zombies := Some zs'\<rparr>)
   }"

definition and_then ::
  "('s \<Rightarrow> (unit kres \<times> 's) option) \<Rightarrow> ('s \<Rightarrow> (unit kres \<times> 's) option) \<Rightarrow> 's \<Rightarrow> (unit kres \<times> 's) option" where
  "and_then f g s = do {
     (r, s') \<leftarrow> f s;
     case r of Inl e \<Rightarrow> Some (Inl e, s') | Inr _ \<Rightarrow> g s'
   }"

definition fork_reserve :: "fork_mem \<Rightarrow> tid \<Rightarrow> int \<Rightarrow> 'c kern \<Rightarrow> (unit kres \<times> 'c kern) option" where
  "fork_reserve m p n =
     and_then (sleepers_preallocate (fm_sleepers m) n)
       (and_then (zombies_preallocate (fm_zombies m) n)
         (and_then (scheduler_preallocate (fm_prealloc m) n)
           (make_runnable (fm_runnable m) p)))"

definition thread_fork :: "fork_mem \<Rightarrow> string \<Rightarrow> 'c kern \<Rightarrow> (tid kres \<times> 'c kern) option" where
  "thread_fork m name k = (
     let (newguy, k1) = thread_create (fm_thread m) (fm_name m) name k in
     case newguy of
       None \<Rightarrow> Some (Inl ENOMEM, k1)
     | Some p \<Rightarrow> (
         case fm_stack m of
           None \<Rightarrow> Some (Inl ENOMEM, k1\<lparr>threads := (threads k1)(p := None)\<rparr>)
         | Some stack \<Rightarrow> do {
             t \<leftarrow> threads k1 p;
             cur \<leftarrow> curthread k1;
             ct \<leftarrow> threads k1 cur;
             let k2 = (case t_cwd ct of None \<Rightarrow> k1 | Some v \<Rightarrow> vop_incref v k1);
             let t1 = t\<lparr>t_stack := Some (stack_magic @ drop 4 stack), t_cwd := t_cwd ct,
                        t_pcb := \<lparr>pcb_ininterrupt = False, pcb_resume = R_start\<rparr>\<rparr>;
             let k3 = k2\<lparr>threads := (threads k2)(p \<mapsto> t1)\<rparr>;
             let (s, k4) = splhigh k3;
             n \<leftarrow> c_int (numthreads k4 + 1);
             (result, k5) \<leftarrow> fork_reserve m p n k4;
             case result of
               Inr _ \<Rightarrow> do {
                 n' \<leftarrow> c_int (numthreads k5 + 1);
                 Some (Inr p, snd (splx s (k5\<lparr>numthreads := n'\<rparr>)))
               }
             | Inl e \<Rightarrow> do {
                 let k6 = snd (splx s k5);
                 k7 \<leftarrow> (case t_cwd t1 of None \<Rightarrow> Some k6 | Some v \<Rightarrow> vop_decref v k6);
                 Some (Inl e, k7\<lparr>threads := (threads k7)(p := None)\<rparr>)
               }
           }))"

section \<open>Switching\<close>

definition stash :: "threadstate \<Rightarrow> tid kmem \<Rightarrow> tid \<Rightarrow> 'c kern \<Rightarrow> (unit kres \<times> 'c kern) option" where
  "stash nextstate km cur k = (case nextstate of
     S_READY \<Rightarrow> make_runnable km cur k
   | S_SLEEP \<Rightarrow> do {
       sl \<leftarrow> sleepers k;
       (r, sl') \<leftarrow> array_add km cur sl;
       Some (r, k\<lparr>sleepers := Some sl'\<rparr>)
     }
   | S_ZOMB \<Rightarrow> do {
       zs \<leftarrow> zombies k;
       (r, zs') \<leftarrow> array_add km cur zs;
       Some (r, k\<lparr>zombies := Some zs'\<rparr>)
     }
   | S_RUN \<Rightarrow> None)"

text \<open>
  \<open>mi_switch\<close> up to the scheduler, and the part of \<open>md_switch\<close> that saves the old thread. The
  flag of the result is false when \<open>curthread\<close> is null and \<open>mi_switch\<close> returns at once.
  (\<open>md_switch\<close> returns early when old and new thread are the same; saving and loading the same
  pcb comes to the same.)
\<close>

definition mi_switch_out ::
  "threadstate \<Rightarrow> 'c resume \<Rightarrow> tid kmem \<Rightarrow> 'c kern \<Rightarrow> (bool \<times> 'c kern) option" where
  "mi_switch_out nextstate resume km k = do {
     kassert (curspl k > 0);
     case curthread k of
       None \<Rightarrow> Some (False, k)
     | Some cur \<Rightarrow> do {
         t \<leftarrow> threads k cur;
         _ \<leftarrow> check_stack t;
         (result, k1) \<leftarrow> stash nextstate km cur (k\<lparr>curthread := None\<rparr>);
         kassert (result = Inr ());
         let t1 = t\<lparr>t_pcb := \<lparr>pcb_ininterrupt = in_interrupt k1, pcb_resume = resume\<rparr>\<rparr>;
         Some (True, k1\<lparr>threads := (threads k1)(cur \<mapsto> t1)\<rparr>)
       }
   }"

definition as_activate :: "addr \<Rightarrow> 'c kern \<Rightarrow> 'c kern" where
  "as_activate a k = k\<lparr>active_as := Some a\<rparr>"

definition activate_current :: "'c kern \<Rightarrow> 'c kern option" where
  "activate_current k = do {
     p \<leftarrow> curthread k;
     t \<leftarrow> threads k p;
     Some (case t_vmspace t of None \<Rightarrow> k | Some a \<Rightarrow> as_activate a k)
   }"

definition mi_switch_in :: "'c kern \<Rightarrow> 'c kern option" where
  "mi_switch_in k = do { k1 \<leftarrow> exorcise k; activate_current k1 }"

definition mi_threadstart :: "'c kern \<Rightarrow> 'c kern option" where
  "mi_threadstart k = do { k1 \<leftarrow> activate_current k; Some (snd (spl0 k1)) }"

definition thread_exit :: "tid kmem \<Rightarrow> 'c kern \<Rightarrow> (bool \<times> 'c kern) option" where
  "thread_exit km k = do {
     cur \<leftarrow> curthread k;
     t \<leftarrow> threads k cur;
     _ \<leftarrow> check_stack t;
     let k1 = snd (splhigh k);
     let k2 = k1\<lparr>threads := (threads k1)(cur \<mapsto> t\<lparr>t_vmspace := None\<rparr>)\<rparr>;
     k3 \<leftarrow> (case t_cwd t of None \<Rightarrow> Some k2 | Some v \<Rightarrow> vop_decref v k2);
     let k4 = k3\<lparr>threads := (threads k3)(cur \<mapsto> t\<lparr>t_vmspace := None, t_cwd := None\<rparr>)\<rparr>;
     kassert (numthreads k4 > 0);
     mi_switch_out S_ZOMB R_dead km (k4\<lparr>numthreads := numthreads k4 - 1\<rparr>)
   }"

text \<open>
  \<open>thread_yield\<close>, over the resume point it leaves. When \<open>mi_switch\<close> returns at once, so does
  \<open>thread_yield\<close>, after restoring the priority.
\<close>

definition thread_yield_as :: "(int \<Rightarrow> 'c resume) \<Rightarrow> tid kmem \<Rightarrow> 'c kern \<Rightarrow> (bool \<times> 'c kern) option" where
  "thread_yield_as mk km k = do {
     let (spl, k1) = splhigh k;
     kassert (sleepers k1 \<noteq> None);
     (switched, k2) \<leftarrow> mi_switch_out S_READY (mk spl) km k1;
     if switched then Some (True, k2) else Some (False, snd (splx spl k2))
   }"

definition thread_yield :: "tid kmem \<Rightarrow> 'c kern \<Rightarrow> (bool \<times> 'c kern) option" where
  "thread_yield = thread_yield_as R_yield"

definition thread_sleep :: "addr \<Rightarrow> 'c \<Rightarrow> tid kmem \<Rightarrow> 'c kern \<Rightarrow> (bool \<times> 'c kern) option" where
  "thread_sleep a c km k = do {
     kassert (\<not> in_interrupt k);
     cur \<leftarrow> curthread k;
     t \<leftarrow> threads k cur;
     mi_switch_out S_SLEEP (R_sleep c) km
       (k\<lparr>threads := (threads k)(cur \<mapsto> t\<lparr>t_sleepaddr := Some a\<rparr>)\<rparr>)
   }"

text \<open>
  The loop of \<open>thread_wakeup\<close>. After a removal the index stays, as \<open>i--\<close> and \<open>i++\<close> cancel.
  \<open>kms n\<close> is the memory the \<open>n\<close>th call of \<open>make_runnable\<close> gets.
\<close>

partial_function (option) thread_wakeup_from ::
  "int \<Rightarrow> nat \<Rightarrow> (nat \<Rightarrow> tid kmem) \<Rightarrow> addr \<Rightarrow> 'c kern \<Rightarrow> 'c kern option" where
  "thread_wakeup_from i n kms a k = do {
     sl \<leftarrow> sleepers k;
     if i < array_getnum sl then do {
       p \<leftarrow> array_getguy sl i;
       t \<leftarrow> threads k p;
       if t_sleepaddr t = Some a then do {
         sl' \<leftarrow> array_remove i sl;
         (result, k1) \<leftarrow> make_runnable (kms n) p (k\<lparr>sleepers := Some sl'\<rparr>);
         kassert (result = Inr ());
         thread_wakeup_from i (n + 1) kms a k1
       }
       else thread_wakeup_from (i + 1) n kms a k
     }
     else Some k
   }"

declare thread_wakeup_from.simps [code]

definition thread_wakeup :: "(nat \<Rightarrow> tid kmem) \<Rightarrow> addr \<Rightarrow> 'c kern \<Rightarrow> 'c kern option" where
  "thread_wakeup kms a k = do {
     kassert (curspl k > 0);
     thread_wakeup_from 0 0 kms a k
   }"

text \<open>\<open>sleeps_on k a p\<close> is the test \<open>t->t_sleepaddr == addr\<close> on the thread at \<open>p\<close>.\<close>

definition sleeps_on :: "'c kern \<Rightarrow> addr \<Rightarrow> tid \<Rightarrow> bool" where
  "sleeps_on k a p = (case threads k p of None \<Rightarrow> False | Some t \<Rightarrow> t_sleepaddr t = Some a)"

definition thread_wakeup_one :: "tid kmem \<Rightarrow> addr \<Rightarrow> 'c kern \<Rightarrow> 'c kern option" where
  "thread_wakeup_one km a k = do {
     kassert (curspl k > 0);
     sl \<leftarrow> sleepers k;
     hit \<leftarrow> array_scan (sleeps_on k a) sl;
     case hit of
       None \<Rightarrow> Some k
     | Some (i, p) \<Rightarrow> do {
         sl' \<leftarrow> array_remove i sl;
         (result, k1) \<leftarrow> make_runnable km p (k\<lparr>sleepers := Some sl'\<rparr>);
         kassert (result = Inr ());
         Some k1
       }
   }"

definition thread_hassleepers :: "addr \<Rightarrow> 'c kern \<Rightarrow> bool option" where
  "thread_hassleepers a k = do {
     kassert (curspl k > 0);
     sl \<leftarrow> sleepers k;
     hit \<leftarrow> array_scan (sleeps_on k a) sl;
     Some (hit \<noteq> None)
   }"

section \<open>Dispatching\<close>

datatype 'c ran = Idle | Started | Resumed | Woken 'c

text \<open>
  What a thread does when it is switched to: it goes on where it stopped, in
  \<open>mi_threadstart\<close>, or after \<open>md_switch\<close> and then in \<open>thread_yield\<close> or \<open>thread_sleep\<close>.
  Resuming a dead thread is the panic at the end of \<open>thread_exit\<close>.
\<close>

definition resume_thread :: "'c resume \<Rightarrow> tid \<Rightarrow> 'c kern \<Rightarrow> ('c ran \<times> 'c kern) option" where
  "resume_thread r p k = (case r of
     R_start \<Rightarrow> do { k1 \<leftarrow> mi_threadstart k; Some (Started, k1) }
   | R_yield spl \<Rightarrow> do { k1 \<leftarrow> mi_switch_in k; Some (Resumed, snd (splx spl k1)) }
   | R_irq spl old_in savespl \<Rightarrow> do {
       k1 \<leftarrow> mi_switch_in k;
       let k2 = (snd (splx spl k1))\<lparr>in_interrupt := old_in\<rparr>;
       Some (Resumed, (snd (splhigh k2))\<lparr>curspl := savespl, cst_iec := True\<rparr>)
     }
   | R_sleep c \<Rightarrow> do {
       k1 \<leftarrow> mi_switch_in k;
       t1 \<leftarrow> threads k1 p;
       Some (Woken c, k1\<lparr>threads := (threads k1)(p \<mapsto> t1\<lparr>t_sleepaddr := None\<rparr>)\<rparr>)
     }
   | R_dead \<Rightarrow> None)"

text \<open>
  What happens while \<open>curthread\<close> is null: the scheduler picks a thread and \<open>md_switch\<close> loads
  its pcb.
\<close>

definition dispatch :: "'c kern \<Rightarrow> ('c ran \<times> 'c kern) option" where
  "dispatch k = do {
     (n, k1) \<leftarrow> scheduler k;
     case n of
       None \<Rightarrow> Some (Idle, k1)
     | Some p \<Rightarrow> do {
         t \<leftarrow> threads k1 p;
         resume_thread (pcb_resume (t_pcb t)) p
           (k1\<lparr>curthread := Some p, in_interrupt := pcb_ininterrupt (t_pcb t)\<rparr>)
       }
   }"

section \<open>The timer interrupt\<close>

definition HZ :: int where
  "HZ = 100"

text \<open>\<open>lbolt\<close> is the address of the variable of that name.\<close>

definition hardclock ::
  "(int \<Rightarrow> 'c resume) \<Rightarrow> addr \<Rightarrow> (nat \<Rightarrow> tid kmem) \<Rightarrow> tid kmem \<Rightarrow> 'c kern \<Rightarrow> (bool \<times> 'c kern) option" where
  "hardclock mk lbolt kms km k = do {
     c \<leftarrow> c_int (lbolt_counter k + 1);
     k1 \<leftarrow> (if c \<ge> HZ then thread_wakeup kms lbolt (k\<lparr>lbolt_counter := 0\<rparr>)
            else Some (k\<lparr>lbolt_counter := c\<rparr>));
     thread_yield_as mk km k1
   }"

text \<open>
  \<open>mips_trap\<close> and \<open>mips_interrupt\<close> for a timer interrupt: the priority and \<open>in_interrupt\<close> of the
  interrupted context are kept in locals and put back, and the interrupt-enable bit comes
  back with the return from the exception.
\<close>

definition timer_interrupt ::
  "addr \<Rightarrow> (nat \<Rightarrow> tid kmem) \<Rightarrow> tid kmem \<Rightarrow> 'c kern \<Rightarrow> (bool \<times> 'c kern) option" where
  "timer_interrupt lbolt kms km k = do {
     let savespl = curspl k;
     let old_in = in_interrupt k;
     (switched, k1) \<leftarrow> hardclock (\<lambda>spl. R_irq spl old_in savespl) lbolt kms km
        (k\<lparr>curspl := SPL_HIGH, cst_iec := False, in_interrupt := True\<rparr>);
     if switched then Some (True, k1)
     else Some (False, (snd (splhigh (k1\<lparr>in_interrupt := old_in\<rparr>)))\<lparr>curspl := savespl, cst_iec := cst_iec k\<rparr>)
   }"

end
