(* ===== verification/KThreadInv.thy ===== *)
theory KThreadInv
  imports KThread
begin

text \<open>
  What the thread system does to the places a thread can be in, and the invariant that ties
  them together. The views \<open>ready\<close>, \<open>asleep\<close> and \<open>dead\<close> read the run queue and the two
  arrays as lists; each operation is described by what it does to them, on every outcome of
  its calls of \<open>kmalloc\<close>. \<open>kern_inv\<close> is kept by every operation, and from it follow which
  of the assertions of \<open>thread.c\<close> can never fail.
\<close>

section \<open>Where the threads are\<close>

definition ready :: "'c kern \<Rightarrow> tid list" where
  "ready k = (case runqueue k of None \<Rightarrow> [] | Some q \<Rightarrow> q_list q)"

definition asleep :: "'c kern \<Rightarrow> tid list" where
  "asleep k = (case sleepers k of None \<Rightarrow> [] | Some a \<Rightarrow> array_list a)"

definition dead :: "'c kern \<Rightarrow> tid list" where
  "dead k = (case zombies k of None \<Rightarrow> [] | Some a \<Rightarrow> array_list a)"

definition running :: "'c kern \<Rightarrow> tid list" where
  "running k = (case curthread k of None \<Rightarrow> [] | Some p \<Rightarrow> [p])"

definition live :: "'c kern \<Rightarrow> tid list" where
  "live k = running k @ ready k @ asleep k"

definition queue_cap :: "'c kern \<Rightarrow> int" where
  "queue_cap k = (case runqueue k of None \<Rightarrow> 0 | Some q \<Rightarrow> q_size q)"

definition sleep_cap :: "'c kern \<Rightarrow> int" where
  "sleep_cap k = (case sleepers k of None \<Rightarrow> 0 | Some a \<Rightarrow> a_max a)"

definition kern_wf :: "'c kern \<Rightarrow> bool" where
  "kern_wf k \<longleftrightarrow> (case sleepers k of None \<Rightarrow> False | Some a \<Rightarrow> array_ok a) \<and>
     (case zombies k of None \<Rightarrow> False | Some a \<Rightarrow> array_ok a) \<and>
     (case runqueue k of None \<Rightarrow> False | Some q \<Rightarrow> q_ok q)"

lemma kern_wfE:
  assumes "kern_wf k"
  obtains sl zs q where "sleepers k = Some sl" and "array_ok sl" and "zombies k = Some zs" and "array_ok zs"
    and "runqueue k = Some q" and "q_ok q"
  using assms by (auto simp: kern_wf_def split: option.splits)

named_theorems kviews \<open>the views of a kernel state\<close>

lemmas kview_defs [kviews] = ready_def asleep_def dead_def running_def live_def queue_cap_def sleep_cap_def

section \<open>Priority and run queue\<close>

lemma splx_simps [simp]:
  "fst (splx s k) = curspl k"
  "curspl (snd (splx s k)) = s"
  "in_interrupt (snd (splx s k)) = in_interrupt k"
  "curthread (snd (splx s k)) = curthread k"
  "threads (snd (splx s k)) = threads k"
  "sleepers (snd (splx s k)) = sleepers k"
  "zombies (snd (splx s k)) = zombies k"
  "runqueue (snd (splx s k)) = runqueue k"
  "numthreads (snd (splx s k)) = numthreads k"
  "vrefs (snd (splx s k)) = vrefs k"
  "active_as (snd (splx s k)) = active_as k"
  "lbolt_counter (snd (splx s k)) = lbolt_counter k"
  by (simp_all add: splx_def Let_def)

lemma splhigh_eq: "splhigh k = (curspl k, k\<lparr>curspl := SPL_HIGH, cst_iec := False\<rparr>)"
  by (simp add: splhigh_def splx_def SPL_HIGH_def)

lemma SPL_HIGH_pos [simp]: "0 < SPL_HIGH"
  by (simp add: SPL_HIGH_def)

lemma make_runnable_cases:
  assumes wf: "kern_wf k" and spl: "curspl k > 0" and km: "kmalloc_ok km" and bound: "length (ready k) < 2 ^ 27"
  obtains (nomem) "make_runnable km p k = Some (Inl ENOMEM, k)" and "int (length (ready k)) = queue_cap k - 1"
  | (queued) q' where "make_runnable km p k = Some (Inr (), k\<lparr>runqueue := Some q'\<rparr>)" and "q_ok q'"
      and "q_list q' = ready k @ [p]" and "queue_cap k \<le> q_size q'"
proof -
  from wf obtain q where q: "runqueue k = Some q" "q_ok q" by (rule kern_wfE)
  then have len: "q_len q < 2 ^ 27" using bound by (simp add: ready_def)
  show ?thesis
  proof (cases rule: q_addtail_cases [OF q(2) km len, of p, case_names full added])
    case full
    then have "make_runnable km p k = Some (Inl ENOMEM, k)" using q spl by (simp add: make_runnable_def)
    moreover have "int (length (ready k)) = queue_cap k - 1"
      using full q by (simp add: q_full_iff ready_def queue_cap_def)
    ultimately show ?thesis by (rule nomem)
  next
    case (added q')
    then show ?thesis using q spl queued [of q'] by (simp add: make_runnable_def ready_def queue_cap_def)
  qed
qed

lemma make_runnable_room:
  assumes wf: "kern_wf k" and spl: "curspl k > 0" and room: "int (length (ready k)) < queue_cap k - 1"
  obtains q' where "make_runnable km p k = Some (Inr (), k\<lparr>runqueue := Some q'\<rparr>)" and "q_ok q'"
    and "q_list q' = ready k @ [p]" and "queue_cap k = q_size q'"
proof -
  from wf obtain q where q: "runqueue k = Some q" "q_ok q" by (rule kern_wfE)
  then have nf: "\<not> q_full q" using room by (simp add: q_full_iff ready_def queue_cap_def)
  show ?thesis
    using that [of "q_store q p"] q spl q_addtail_room [OF q(2) nf, of km p] q_store_ok [OF q(2)]
      q_store_list [OF q(2) nf]
    by (simp add: make_runnable_def ready_def queue_cap_def)
qed

section \<open>Waking\<close>

text \<open>
  Whether \<open>thread_wakeup\<close> has room for everyone it wakes without allocating.
\<close>

definition wake_room :: "tid list \<Rightarrow> 'c kern \<Rightarrow> bool" where
  "wake_room ws k \<longleftrightarrow> int (length (ready k) + length ws) < queue_cap k"

lemma thread_wakeup_from_cases:
  assumes "kern_wf k" and "curspl k > 0" and "\<forall>n. kmalloc_ok (kms n)"
    and "length (ready k) + length (asleep k) < 2 ^ 27" and "\<forall>p \<in> set (asleep k). threads k p \<noteq> None"
    and "0 \<le> i" and "i \<le> int (length (asleep k))"
  defines "rest \<equiv> drop (nat i) (asleep k)"
  shows "(thread_wakeup_from i n kms a k = None \<and> \<not> wake_room (filter (sleeps_on k a) rest) k) \<or>
    (\<exists>sl' q'. thread_wakeup_from i n kms a k = Some (k\<lparr>sleepers := Some sl', runqueue := Some q'\<rparr>) \<and>
       array_ok sl' \<and> q_ok q' \<and> a_max sl' = sleep_cap k \<and> queue_cap k \<le> q_size q' \<and>
       array_list sl' = take (nat i) (asleep k) @ filter (\<lambda>p. \<not> sleeps_on k a p) rest \<and>
       q_list q' = ready k @ filter (sleeps_on k a) rest)"
  using assms(1-7) unfolding rest_def
proof (induction "nat (int (length (asleep k)) - i)" arbitrary: i n k rule: less_induct)
  case less
  from less.prems(1) obtain sl zs q where
    k: "sleepers k = Some sl" "array_ok sl" "runqueue k = Some q" "q_ok q" by (rule kern_wfE)
  have num: "array_getnum sl = int (length (asleep k))"
    using k array_ok_bounds [OF k(2)] by (simp add: asleep_def array_getnum_def)
  show ?case
  proof (cases "i < int (length (asleep k))")
    case False
    then have "i = int (length (asleep k))" using less.prems by simp
    moreover have "k = k\<lparr>sleepers := Some sl, runqueue := Some q\<rparr>" using k by simp
    ultimately show ?thesis using k num
      by (subst (1 2) thread_wakeup_from.simps)
        (auto simp: asleep_def ready_def sleep_cap_def queue_cap_def intro!: exI [of _ sl] exI [of _ q])
  next
    case True
    let ?j = "nat i" and ?p = "asleep k ! nat i"
    have j: "?j < length (asleep k)" using True less.prems by linarith
    have guy: "array_getguy sl i = Some ?p"
      using array_getguy_list [OF k(2), of i] num True less.prems k by (simp add: asleep_def)
    obtain t where t: "threads k ?p = Some t" using less.prems(5) j by (meson nth_mem not_Some_eq)
    have drop: "drop ?j (asleep k) = ?p # drop (Suc ?j) (asleep k)"
      using j by (simp add: Cons_nth_drop_Suc)
    have nat1: "nat (i + 1) = Suc ?j" using less.prems by simp
    show ?thesis
    proof (cases "t_sleepaddr t = Some a")
      case False
      then have nomatch: "\<not> sleeps_on k a ?p" using t by (simp add: sleeps_on_def)
      have "thread_wakeup_from i n kms a k = thread_wakeup_from (i + 1) n kms a k"
        using k num True guy t False by (subst thread_wakeup_from.simps) simp
      moreover have "nat (int (length (asleep k)) - (i + 1)) < nat (int (length (asleep k)) - i)"
        using True by simp
      moreover have "take (Suc ?j) (asleep k) = take ?j (asleep k) @ [?p]"
        using j by (simp add: take_Suc_conv_app_nth)
      ultimately show ?thesis
        using less.hyps [of k "i + 1" n] less.prems True nomatch
        unfolding drop nat1 by simp
    next
      case match: True
      then have on: "sleeps_on k a ?p" using t by (simp add: sleeps_on_def)
      have "i < a_num sl" using num True by (simp add: array_getnum_def)
      from array_remove_list [OF k(2) less.prems(6) this] obtain sl1 where
        sl1: "array_remove i sl = Some sl1" "array_ok sl1" "a_max sl1 = a_max sl"
          "array_list sl1 = take ?j (asleep k) @ drop (Suc ?j) (asleep k)"
        using k by (auto simp: asleep_def)
      let ?k1 = "k\<lparr>sleepers := Some sl1\<rparr>"
      have wf1: "kern_wf ?k1" using less.prems(1) sl1 by (simp add: kern_wf_def)
      have ready1: "ready ?k1 = ready k" "queue_cap ?k1 = queue_cap k" by (simp_all add: ready_def queue_cap_def)
      have bound1: "length (ready ?k1) < 2 ^ 27" using less.prems(4) ready1 j by simp
      have room: "wake_room (filter (sleeps_on k a) (drop ?j (asleep k))) k \<longleftrightarrow>
          int (Suc (length (ready k)) + length (filter (sleeps_on k a) (drop (Suc ?j) (asleep k)))) < queue_cap k"
        unfolding drop wake_room_def using on by simp
      show ?thesis
      proof (cases rule: make_runnable_cases [OF wf1 _ less.prems(3) [rule_format, of n] bound1, of ?p, case_names spl nomem queued])
        case spl
        then show ?case using less.prems(2) by simp
      next
        case nomem
        then have "thread_wakeup_from i n kms a k = None"
          using k num True guy t match sl1 by (subst thread_wakeup_from.simps) simp
        moreover have "\<not> wake_room (filter (sleeps_on k a) (drop ?j (asleep k))) k"
          unfolding room using nomem ready1 by simp
        ultimately show ?thesis by simp
      next
        case (queued q1)
        let ?k2 = "?k1\<lparr>runqueue := Some q1\<rparr>"
        have step: "thread_wakeup_from i n kms a k = thread_wakeup_from i (n + 1) kms a ?k2"
          using k num True guy t match sl1 queued by (subst thread_wakeup_from.simps) simp
        have wf2: "kern_wf ?k2" using wf1 queued by (simp add: kern_wf_def)
        have views: "asleep ?k2 = take ?j (asleep k) @ drop (Suc ?j) (asleep k)" "ready ?k2 = ready k @ [?p]"
            "sleep_cap ?k2 = sleep_cap k" "queue_cap ?k2 = q_size q1" "queue_cap k \<le> q_size q1"
            "sleeps_on ?k2 = sleeps_on k" "threads ?k2 = threads k" "curspl ?k2 = curspl k"
          using sl1 queued ready1 k
          by (auto simp: asleep_def ready_def sleep_cap_def queue_cap_def sleeps_on_def fun_eq_iff)
        have drop2: "drop ?j (asleep ?k2) = drop (Suc ?j) (asleep k)" "take ?j (asleep ?k2) = take ?j (asleep k)"
          using j views(1) by simp_all
        have len2: "length (asleep ?k2) = length (asleep k) - 1" using j views(1) by simp
        have "set (asleep ?k2) \<subseteq> set (asleep k)"
          using views(1) set_take_subset set_drop_subset by fastforce
        then have thr2: "\<forall>p \<in> set (asleep ?k2). threads ?k2 p \<noteq> None" using less.prems(5) views(7) by auto
        have bound2: "length (ready ?k2) + length (asleep ?k2) < 2 ^ 27"
          using less.prems(4) j unfolding len2 views(2) by simp
        have dec: "nat (int (length (asleep ?k2)) - i) < nat (int (length (asleep k)) - i)"
          and le2: "i \<le> int (length (asleep ?k2))"
          using True j unfolding len2 by linarith+
        have spl2: "curspl ?k2 > 0" using less.prems(2) by simp
        have IH: "(thread_wakeup_from i (n + 1) kms a ?k2 = None \<and>
            \<not> wake_room (filter (sleeps_on k a) (drop (Suc ?j) (asleep k))) ?k2) \<or>
          (\<exists>sl' q'. thread_wakeup_from i (n + 1) kms a ?k2 = Some (?k2\<lparr>sleepers := Some sl', runqueue := Some q'\<rparr>) \<and>
             array_ok sl' \<and> q_ok q' \<and> a_max sl' = sleep_cap k \<and> q_size q1 \<le> q_size q' \<and>
             array_list sl' = take ?j (asleep k) @ filter (\<lambda>p. \<not> sleeps_on k a p) (drop (Suc ?j) (asleep k)) \<and>
             q_list q' = ready k @ [?p] @ filter (sleeps_on k a) (drop (Suc ?j) (asleep k)))"
          using less.hyps [OF dec wf2 spl2 less.prems(3) bound2 thr2 less.prems(6) le2, of "n + 1"]
          unfolding drop2 unfolding views(2-8) by simp
        have room2: "\<not> wake_room (filter (sleeps_on k a) (drop (Suc ?j) (asleep k))) ?k2 \<Longrightarrow>
            \<not> wake_room (filter (sleeps_on k a) (drop ?j (asleep k))) k"
          unfolding room using views by (simp add: wake_room_def)
        have upd: "?k2\<lparr>sleepers := s, runqueue := r\<rparr> = k\<lparr>sleepers := s, runqueue := r\<rparr>" for s r by simp
        show ?thesis using IH room2 on views(5) unfolding step upd drop by auto
      qed
    qed
  qed
qed

lemma thread_wakeup_cases:
  assumes "kern_wf k" and "curspl k > 0" and "\<forall>n. kmalloc_ok (kms n)"
    and "length (ready k) + length (asleep k) < 2 ^ 27" and "\<forall>p \<in> set (asleep k). threads k p \<noteq> None"
  obtains (stuck) "thread_wakeup kms a k = None" and "\<not> wake_room (filter (sleeps_on k a) (asleep k)) k"
  | (woken) sl' q' where "thread_wakeup kms a k = Some (k\<lparr>sleepers := Some sl', runqueue := Some q'\<rparr>)"
      and "array_ok sl'" and "q_ok q'" and "a_max sl' = sleep_cap k" and "queue_cap k \<le> q_size q'"
      and "array_list sl' = filter (\<lambda>p. \<not> sleeps_on k a p) (asleep k)"
      and "q_list q' = ready k @ filter (sleeps_on k a) (asleep k)"
  using thread_wakeup_from_cases [OF assms, of 0 0 a] assms(2) by (auto simp: thread_wakeup_def)

text \<open>The sleeper \<open>thread_wakeup_one\<close> picks: the first on the address, taken out of the list.\<close>

lemma thread_wakeup_one_cases:
  assumes wf: "kern_wf k" and spl: "curspl k > 0" and km: "kmalloc_ok km"
    and bound: "length (ready k) < 2 ^ 27"
  obtains (none) "thread_wakeup_one km a k = Some k" and "\<forall>p \<in> set (asleep k). \<not> sleeps_on k a p"
  | (stuck) "thread_wakeup_one km a k = None" and "int (length (ready k)) = queue_cap k - 1"
  | (woken) xs p ys sl' q' where "asleep k = xs @ p # ys" and "sleeps_on k a p" and "\<forall>x \<in> set xs. \<not> sleeps_on k a x"
      and "thread_wakeup_one km a k = Some (k\<lparr>sleepers := Some sl', runqueue := Some q'\<rparr>)"
      and "array_ok sl'" and "q_ok q'" and "a_max sl' = sleep_cap k" and "queue_cap k \<le> q_size q'"
      and "array_list sl' = xs @ ys" and "q_list q' = ready k @ [p]"
proof -
  from wf obtain sl where sl: "sleepers k = Some sl" "array_ok sl" by (rule kern_wfE)
  then have as: "asleep k = array_list sl" by (simp add: asleep_def)
  obtain r where r: "array_scan (sleeps_on k a) sl = Some r" using array_scan_returns [OF sl(2)] by blast
  show ?thesis
  proof (cases r)
    case None
    then have "\<forall>p \<in> set (asleep k). \<not> sleeps_on k a p"
      using r array_scan_none_iff [OF sl(2), of "sleeps_on k a"] as by simp
    moreover have "thread_wakeup_one km a k = Some k" using spl sl r None by (simp add: thread_wakeup_one_def)
    ultimately show ?thesis using none by blast
  next
    case (Some ip)
    then obtain i p where ip: "r = Some (i, p)" by (cases ip) auto
    with array_scan_hit [OF sl(2)] r have hit: "0 \<le> i" "i < array_getnum sl" "p = array_list sl ! nat i"
        "sleeps_on k a p" "\<forall>j < nat i. \<not> sleeps_on k a (array_list sl ! j)" by blast+
    let ?xs = "take (nat i) (asleep k)" and ?ys = "drop (Suc (nat i)) (asleep k)"
    have lt: "nat i < length (asleep k)"
      using hit array_ok_bounds [OF sl(2)] sl by (simp add: as array_getnum_def)
    have split: "asleep k = ?xs @ p # ?ys" using lt hit(3) by (simp add: as id_take_nth_drop)
    have before: "\<forall>x \<in> set ?xs. \<not> sleeps_on k a x"
      using hit(5) lt by (auto simp: as in_set_conv_nth)
    obtain sl1 where sl1: "array_remove i sl = Some sl1" "array_ok sl1" "a_max sl1 = a_max sl"
        "array_list sl1 = ?xs @ ?ys"
      using array_remove_list [OF sl(2) hit(1)] hit(2) as by (auto simp: array_getnum_def)
    let ?k1 = "k\<lparr>sleepers := Some sl1\<rparr>"
    have wf1: "kern_wf ?k1" using wf sl1 by (simp add: kern_wf_def)
    have ready1: "ready ?k1 = ready k" "queue_cap ?k1 = queue_cap k" by (simp_all add: ready_def queue_cap_def)
    have bound1: "length (ready ?k1) < 2 ^ 27" using bound ready1 by simp
    have spl1: "curspl ?k1 > 0" using spl by simp
    show ?thesis
    proof (cases rule: make_runnable_cases [OF wf1 spl1 km bound1, of p, case_names nomem queued])
      case nomem
      then have "thread_wakeup_one km a k = None"
        using spl sl r ip sl1 by (simp add: thread_wakeup_one_def)
      then show ?thesis using stuck nomem ready1 by simp
    next
      case (queued q')
      then have "thread_wakeup_one km a k = Some (k\<lparr>sleepers := Some sl1, runqueue := Some q'\<rparr>)"
        using spl sl r ip sl1 by (simp add: thread_wakeup_one_def)
      then show ?thesis
        using woken [OF split hit(4) before] sl1 queued ready1 sl by (simp add: sleep_cap_def)
    qed
  qed
qed

lemma thread_hassleepers_iff:
  assumes "kern_wf k" and "curspl k > 0"
  shows "thread_hassleepers a k = Some (\<exists>p \<in> set (asleep k). sleeps_on k a p)"
proof -
  from assms(1) obtain sl where sl: "sleepers k = Some sl" "array_ok sl" by (rule kern_wfE)
  obtain r where r: "array_scan (sleeps_on k a) sl = Some r" using array_scan_returns [OF sl(2)] by blast
  then have "r = None \<longleftrightarrow> (\<forall>p \<in> set (asleep k). \<not> sleeps_on k a p)"
    using array_scan_none_iff [OF sl(2), of "sleeps_on k a"] sl by (simp add: asleep_def)
  then show ?thesis using sl r assms(2) by (auto simp: thread_hassleepers_def)
qed

section \<open>The invariant\<close>

text \<open>
  Every thread structure that exists is in exactly one place (running, ready, asleep, dead),
  \<open>numthreads\<close> counts the first three, the pcb of a thread that can be dispatched has a
  resume point, zombies are clean enough for \<open>thread_destroy\<close>, and the capacities reserved by
  \<open>thread_fork\<close> cover the threads. Addresses are bounded because that many structures fit in
  memory.
\<close>

definition places_ok :: "'c kern \<Rightarrow> bool" where
  "places_ok k \<longleftrightarrow> distinct (live k @ dead k) \<and> dom (threads k) = set (live k @ dead k) \<and>
     set (live k @ dead k) \<subseteq> {..<2 ^ 26} \<and> numthreads k = int (length (live k))"

definition stack_ok :: "'c thread \<Rightarrow> bool" where
  "stack_ok t \<longleftrightarrow> check_stack t = Some ()"

definition pcbs_ok :: "'c kern \<Rightarrow> bool" where
  "pcbs_ok k \<longleftrightarrow> (\<forall>p t. threads k p = Some t \<longrightarrow> stack_ok t \<and>
       (p \<in> set (ready k) \<longrightarrow> pcb_resume (t_pcb t) \<noteq> R_dead) \<and>
       (p \<in> set (asleep k) \<longrightarrow> (\<exists>c. pcb_resume (t_pcb t) = R_sleep c)) \<and>
       (p \<in> set (dead k) \<longrightarrow> t_vmspace t = None \<and> t_cwd t = None))"

definition caps_ok :: "'c kern \<Rightarrow> bool" where
  "caps_ok k \<longleftrightarrow> numthreads k \<le> queue_cap k \<and> (numthreads k \<le> sleep_cap k \<or> numthreads k = 1) \<and>
     (curthread k = None \<longrightarrow> curspl k > 0)"

definition kern_inv :: "'c kern \<Rightarrow> bool" where
  "kern_inv k \<longleftrightarrow> kern_wf k \<and> places_ok k \<and> pcbs_ok k \<and> caps_ok k"

lemma places_bound:
  assumes "places_ok k"
  shows "length (live k) + length (dead k) \<le> 2 ^ 26"
  using distinct_bounded_length [of "live k @ dead k" "2 ^ 26"] assms by (simp add: places_ok_def)

lemma kern_inv_bounds:
  assumes "kern_inv k"
  shows "length (ready k) + length (asleep k) < 2 ^ 27" and "length (ready k) < 2 ^ 27"
    and "length (asleep k) < 2 ^ 27" and "length (dead k) < 2 ^ 27" and "numthreads k \<le> 2 ^ 26"
    and "0 \<le> numthreads k"
  using places_bound [of k] assms by (auto simp: kern_inv_def live_def places_ok_def)

lemma kern_inv_thread: "kern_inv k \<Longrightarrow> p \<in> set (live k @ dead k) \<Longrightarrow> \<exists>t. threads k p = Some t"
  by (auto simp: kern_inv_def places_ok_def dom_def)

lemma kern_inv_asleep_threads: "kern_inv k \<Longrightarrow> \<forall>p \<in> set (asleep k). threads k p \<noteq> None"
  using kern_inv_thread [of k] by (fastforce simp: live_def)

lemma kern_inv_wf: "kern_inv k \<Longrightarrow> kern_wf k"
  by (simp add: kern_inv_def)

text \<open>Moving a sleeper to the run queue keeps the invariant.\<close>

lemma kern_inv_wake:
  assumes inv: "kern_inv k" and sl: "array_ok sl'" "a_max sl' = sleep_cap k" and q: "q_ok q'" "queue_cap k \<le> q_size q'"
    and perm: "q_list q' = ready k @ ws" "distinct ws" "set ws \<subseteq> set (asleep k)" "distinct (array_list sl')"
      "set (array_list sl') = set (asleep k) - set ws"
  shows "kern_inv (k\<lparr>sleepers := Some sl', runqueue := Some q'\<rparr>)"
proof -
  let ?k = "k\<lparr>sleepers := Some sl', runqueue := Some q'\<rparr>"
  have views: "running ?k = running k" "ready ?k = ready k @ ws" "asleep ?k = array_list sl'" "dead ?k = dead k"
      "sleep_cap ?k = sleep_cap k" "queue_cap ?k = q_size q'"
    using sl perm by (simp_all add: kviews)
  have d: "distinct (live k @ dead k)" using inv by (simp add: kern_inv_def places_ok_def)
  have sets: "set (live ?k) = set (live k)" using perm by (auto simp: live_def views)
  have dist: "distinct (live ?k @ dead ?k)" using d perm by (auto simp: live_def views)
  have "length (live ?k) = length (live k)"
    using dist d sets by (metis distinct_append distinct_card)
  then have "places_ok ?k" using inv dist sets views by (simp add: kern_inv_def places_ok_def)
  moreover have "pcbs_ok ?k"
    using inv perm(3,5) by (fastforce simp: kern_inv_def pcbs_ok_def views)
  moreover have "caps_ok ?k" using inv q by (auto simp: kern_inv_def caps_ok_def views)
  moreover have "kern_wf ?k" using inv sl q by (simp add: kern_inv_def kern_wf_def)
  ultimately show ?thesis by (simp add: kern_inv_def)
qed

lemma kern_inv_asleep_distinct: "kern_inv k \<Longrightarrow> distinct (asleep k)"
  by (simp add: kern_inv_def places_ok_def live_def)

lemma thread_wakeup_inv:
  assumes inv: "kern_inv k" and km: "\<forall>n. kmalloc_ok (kms n)" and spl: "curspl k > 0"
    and ok: "thread_wakeup kms a k = Some k'"
  shows "kern_inv k'"
proof (cases rule: thread_wakeup_cases [OF kern_inv_wf [OF inv] spl km kern_inv_bounds(1) [OF inv]
      kern_inv_asleep_threads [OF inv], of a, case_names stuck woken])
  case stuck
  then show ?thesis using ok by simp
next
  case (woken sl' q')
  have "kern_inv (k\<lparr>sleepers := Some sl', runqueue := Some q'\<rparr>)"
    by (rule kern_inv_wake [OF inv, where ws = "filter (sleeps_on k a) (asleep k)"])
      (use woken kern_inv_asleep_distinct [OF inv] in auto)
  then show ?thesis using ok woken by simp
qed

lemma thread_wakeup_one_inv:
  assumes inv: "kern_inv k" and km: "kmalloc_ok km" and spl: "curspl k > 0"
    and ok: "thread_wakeup_one km a k = Some k'"
  shows "kern_inv k'"
proof (cases rule: thread_wakeup_one_cases [OF kern_inv_wf [OF inv] spl km kern_inv_bounds(2) [OF inv],
      of a, case_names none stuck woken])
  case none
  then show ?thesis using ok inv by simp
next
  case stuck
  then show ?thesis using ok by simp
next
  case (woken xs p ys sl' q')
  have "kern_inv (k\<lparr>sleepers := Some sl', runqueue := Some q'\<rparr>)"
    by (rule kern_inv_wake [OF inv, where ws = "[p]"])
      (use woken kern_inv_asleep_distinct [OF inv] in auto)
  then show ?thesis using ok woken by simp
qed

section \<open>Switching out\<close>

lemma stash_ready_cases:
  assumes wf: "kern_wf k" and spl: "curspl k > 0" and cur: "curthread k = Some cur" "threads k cur = Some t"
    and stack: "stack_ok t" and km: "kmalloc_ok km" and bound: "length (ready k) < 2 ^ 27"
  obtains (stuck) "mi_switch_out S_READY r km k = None" and "int (length (ready k)) = queue_cap k - 1"
  | (out) q' where "mi_switch_out S_READY r km k = Some (True, k\<lparr>curthread := None, runqueue := Some q',
        threads := (threads k)(cur \<mapsto> t\<lparr>t_pcb := \<lparr>pcb_ininterrupt = in_interrupt k, pcb_resume = r\<rparr>\<rparr>)\<rparr>)"
      and "q_ok q'" and "q_list q' = ready k @ [cur]" and "queue_cap k \<le> q_size q'"
proof -
  let ?k0 = "k\<lparr>curthread := None\<rparr>"
  have wf0: "kern_wf ?k0" using wf by (simp add: kern_wf_def)
  have views: "ready ?k0 = ready k" "queue_cap ?k0 = queue_cap k" by (simp_all add: kviews)
  have spl0: "curspl ?k0 > 0" and bound0: "length (ready ?k0) < 2 ^ 27" using spl bound views by simp_all
  show ?thesis
  proof (cases rule: make_runnable_cases [OF wf0 spl0 km bound0, of cur, case_names nomem queued])
    case nomem
    then show ?thesis using stuck views cur spl stack by (simp add: mi_switch_out_def stash_def stack_ok_def)
  next
    case (queued q')
    then show ?thesis using out [of q'] views cur spl stack
      by (simp add: mi_switch_out_def stash_def stack_ok_def)
  qed
qed

lemma stash_sleep_cases:
  assumes wf: "kern_wf k" and spl: "curspl k > 0" and cur: "curthread k = Some cur" "threads k cur = Some t"
    and stack: "stack_ok t" and km: "kmalloc_ok km" and bound: "length (asleep k) < 2 ^ 27"
  obtains (stuck) "mi_switch_out S_SLEEP r km k = None" and "int (length (asleep k)) = sleep_cap k"
  | (out) a' where "mi_switch_out S_SLEEP r km k = Some (True, k\<lparr>curthread := None, sleepers := Some a',
        threads := (threads k)(cur \<mapsto> t\<lparr>t_pcb := \<lparr>pcb_ininterrupt = in_interrupt k, pcb_resume = r\<rparr>\<rparr>)\<rparr>)"
      and "array_ok a'" and "array_list a' = asleep k @ [cur]" and "sleep_cap k \<le> a_max a'"
proof -
  from wf obtain sl where sl: "sleepers k = Some sl" "array_ok sl" by (rule kern_wfE)
  have num: "a_num sl = int (length (asleep k))"
    using sl array_ok_bounds [OF sl(2)] by (simp add: asleep_def)
  then have "a_num sl < 2 ^ 28" using bound by simp
  show ?thesis
  proof (cases rule: array_add_cases [OF sl(2) km \<open>a_num sl < 2 ^ 28\<close>, of cur, case_names nomem added])
    case nomem
    then show ?thesis using stuck sl num cur spl stack
      by (simp add: mi_switch_out_def stash_def stack_ok_def sleep_cap_def)
  next
    case (added a')
    then show ?thesis using out [of a'] sl cur spl stack
      by (simp add: mi_switch_out_def stash_def stack_ok_def sleep_cap_def asleep_def)
  qed
qed

lemma stash_zombie_cases:
  assumes wf: "kern_wf k" and spl: "curspl k > 0" and cur: "curthread k = Some cur" "threads k cur = Some t"
    and stack: "stack_ok t" and km: "kmalloc_ok km" and bound: "length (dead k) < 2 ^ 27"
  obtains (stuck) "mi_switch_out S_ZOMB r km k = None"
  | (out) a' where "mi_switch_out S_ZOMB r km k = Some (True, k\<lparr>curthread := None, zombies := Some a',
        threads := (threads k)(cur \<mapsto> t\<lparr>t_pcb := \<lparr>pcb_ininterrupt = in_interrupt k, pcb_resume = r\<rparr>\<rparr>)\<rparr>)"
      and "array_ok a'" and "array_list a' = dead k @ [cur]"
proof -
  from wf obtain zs where zs: "zombies k = Some zs" "array_ok zs" by (rule kern_wfE)
  have num: "a_num zs = int (length (dead k))"
    using zs array_ok_bounds [OF zs(2)] by (simp add: dead_def)
  then have "a_num zs < 2 ^ 28" using bound by simp
  show ?thesis
  proof (cases rule: array_add_cases [OF zs(2) km \<open>a_num zs < 2 ^ 28\<close>, of cur, case_names nomem added])
    case nomem
    then show ?thesis using stuck zs num cur spl stack
      by (simp add: mi_switch_out_def stash_def stack_ok_def)
  next
    case (added a')
    then show ?thesis using out [of a'] zs cur spl stack
      by (simp add: mi_switch_out_def stash_def stack_ok_def dead_def)
  qed
qed

lemma kern_wf_sleep_cap: "kern_wf k \<Longrightarrow> 0 \<le> sleep_cap k"
  by (auto simp: kern_wf_def sleep_cap_def dest: array_ok_bounds split: option.splits)

text \<open>Putting the running thread on one of the three lists keeps the invariant.\<close>

lemma kern_inv_stash:
  assumes inv: "kern_inv k" and cur: "curthread k = Some cur"
    and thr: "threads k' = (threads k)(cur \<mapsto> t')" "stack_ok t'"
    and now: "curthread k' = None" "curspl k' > 0" "kern_wf k'" "queue_cap k \<le> queue_cap k'" "sleep_cap k \<le> sleep_cap k'"
    and lists: "ready k' = ready k @ r" "asleep k' = asleep k @ s" "dead k' = dead k @ z"
    and one: "r = [cur] \<and> s = [] \<and> z = [] \<and> pcb_resume (t_pcb t') \<noteq> R_dead \<or>
        r = [] \<and> s = [cur] \<and> z = [] \<and> (\<exists>c. pcb_resume (t_pcb t') = R_sleep c) \<or>
        r = [] \<and> s = [] \<and> z = [cur] \<and> t_vmspace t' = None \<and> t_cwd t' = None"
    and num: "numthreads k' = numthreads k - int (length z)"
  shows "kern_inv k'"
proof -
  have run: "running k = [cur]" "running k' = []" using cur now by (simp_all add: running_def)
  have d: "distinct (live k @ dead k)" and dom: "dom (threads k) = set (live k @ dead k)"
    and bound: "set (live k @ dead k) \<subseteq> {..<2 ^ 26}" and n: "numthreads k = int (length (live k))"
    using inv by (simp_all add: kern_inv_def places_ok_def)
  have sets: "set (live k' @ dead k') = set (live k @ dead k)"
    using one by (auto simp: live_def run lists)
  have "distinct (live k' @ dead k')" using d one by (auto simp: live_def run lists)
  moreover have "cur \<in> set (live k @ dead k)" by (simp add: live_def run)
  then have "dom (threads k') = set (live k' @ dead k')" using dom sets thr by auto
  moreover have "numthreads k' = int (length (live k'))" using n num one by (auto simp: live_def run lists)
  ultimately have "places_ok k'" using sets bound unfolding places_ok_def by blast
  moreover have "pcbs_ok k'"
    using inv thr one d unfolding pcbs_ok_def kern_inv_def lists
    by (auto simp: live_def run split: if_splits)
  moreover have "caps_ok k'"
  proof -
    have "0 \<le> sleep_cap k'" using kern_wf_sleep_cap [OF now(3)] .
    moreover have "numthreads k' = numthreads k \<or> numthreads k' = numthreads k - 1" using num one by auto
    ultimately show ?thesis using inv now unfolding kern_inv_def caps_ok_def by linarith
  qed
  ultimately show ?thesis using now by (simp add: kern_inv_def)
qed

lemma kern_inv_cur:
  assumes "kern_inv k" and "curthread k = Some cur"
  obtains t where "threads k cur = Some t" and "stack_ok t"
  using assms kern_inv_thread [of k cur] that
  by (auto simp: live_def running_def kern_inv_def pcbs_ok_def)

text \<open>Priority, interrupt and thread fields that the invariant does not depend on.\<close>

lemma kern_inv_spl:
  assumes "kern_inv k" and "curthread k \<noteq> None \<or> s > 0"
  shows "kern_inv (snd (splx s k))"
  using assms unfolding kern_inv_def kern_wf_def places_ok_def pcbs_ok_def caps_ok_def kview_defs
  by auto

lemma kern_inv_fields:
  assumes "kern_inv k" and "curthread k \<noteq> None \<or> s > 0"
  shows "kern_inv (k\<lparr>curspl := s, cst_iec := e, in_interrupt := i, lbolt_counter := l, active_as := a, vrefs := v\<rparr>)"
  using assms unfolding kern_inv_def kern_wf_def places_ok_def pcbs_ok_def caps_ok_def kview_defs
  by auto

lemma kern_inv_update_cur:
  assumes inv: "kern_inv k" and cur: "curthread k = Some cur" and st: "stack_ok t'"
  shows "kern_inv (k\<lparr>threads := (threads k)(cur \<mapsto> t')\<rparr>)"
proof -
  have run: "running k = [cur]" using cur by (simp add: running_def)
  have "cur \<notin> set (ready k)" "cur \<notin> set (asleep k)" "cur \<notin> set (dead k)" "cur \<in> dom (threads k)"
    using inv by (auto simp: kern_inv_def places_ok_def live_def run)
  then show ?thesis using inv st cur
    unfolding kern_inv_def kern_wf_def places_ok_def pcbs_ok_def caps_ok_def kview_defs
    by (auto split: if_splits)
qed

lemma kern_inv_high: "kern_inv k \<Longrightarrow> kern_inv (k\<lparr>curspl := SPL_HIGH, cst_iec := False\<rparr>)"
  using kern_inv_spl [of k SPL_HIGH] splhigh_eq [of k] by (simp add: splhigh_def)

lemma stack_ok_pcb [simp]: "stack_ok (t\<lparr>t_pcb := x\<rparr>) = stack_ok t" "stack_ok (t\<lparr>t_sleepaddr := y\<rparr>) = stack_ok t"
  "stack_ok (t\<lparr>t_vmspace := v\<rparr>) = stack_ok t" "stack_ok (t\<lparr>t_cwd := w\<rparr>) = stack_ok t"
  by (simp_all add: stack_ok_def check_stack_def)

lemma thread_yield_as_inv:
  assumes inv: "kern_inv k" and km: "kmalloc_ok km" and mk: "\<And>s. mk s \<noteq> R_dead"
    and ok: "thread_yield_as mk km k = Some (b, k')"
  shows "kern_inv k'"
proof (cases "curthread k")
  case None
  then have "k' = snd (splx (curspl k) (k\<lparr>curspl := SPL_HIGH, cst_iec := False\<rparr>))"
    using ok by (auto simp: thread_yield_as_def splhigh_eq mi_switch_out_def split: if_splits)
  moreover have "kern_inv (k\<lparr>curspl := SPL_HIGH, cst_iec := False\<rparr>)" using kern_inv_high [OF inv] .
  moreover have "curspl k > 0" using inv None by (simp add: kern_inv_def caps_ok_def)
  ultimately show ?thesis using kern_inv_spl by blast
next
  case (Some cur)
  let ?k = "k\<lparr>curspl := SPL_HIGH, cst_iec := False\<rparr>"
  have inv1: "kern_inv ?k" using kern_inv_high [OF inv] .
  have cur: "curthread ?k = Some cur" and spl: "curspl ?k > 0" using Some by simp_all
  obtain t where t: "threads ?k cur = Some t" "stack_ok t" using kern_inv_cur [OF inv1 cur] .
  show ?thesis
  proof (cases rule: stash_ready_cases [OF kern_inv_wf [OF inv1] spl cur t km kern_inv_bounds(2) [OF inv1],
        of "mk (curspl k)", case_names stuck out])
    case stuck
    then show ?thesis using ok by (auto simp: thread_yield_as_def splhigh_eq split: if_splits)
  next
    case (out q')
    let ?t = "t\<lparr>t_pcb := \<lparr>pcb_ininterrupt = in_interrupt ?k, pcb_resume = mk (curspl k)\<rparr>\<rparr>"
    have k': "k' = ?k\<lparr>curthread := None, runqueue := Some q', threads := (threads ?k)(cur \<mapsto> ?t)\<rparr>"
      using ok out(1) by (auto simp: thread_yield_as_def splhigh_eq split: if_splits)
    show ?thesis
      by (rule kern_inv_stash [OF inv1 cur, of k' ?t "[cur]" "[]" "[]"])
        (use k' out t mk kern_inv_wf [OF inv1] in \<open>auto simp: kviews kern_wf_def\<close>)
  qed
qed

lemma thread_sleep_inv:
  assumes inv: "kern_inv k" and km: "kmalloc_ok km" and ok: "thread_sleep a c km k = Some (b, k')"
  shows "kern_inv k'"
proof -
  obtain cur t where cur: "curthread k = Some cur" "threads k cur = Some t"
    using ok by (auto simp: thread_sleep_def bind_Some_iff split: if_splits)
  let ?t = "t\<lparr>t_sleepaddr := Some a\<rparr>"
  let ?k = "k\<lparr>threads := (threads k)(cur \<mapsto> ?t)\<rparr>"
  have st: "stack_ok ?t" using kern_inv_cur [OF inv cur(1)] cur(2) by auto
  have inv1: "kern_inv ?k" using kern_inv_update_cur [OF inv cur(1) st] .
  have cur1: "curthread ?k = Some cur" "threads ?k cur = Some ?t" using cur by simp_all
  have out: "mi_switch_out S_SLEEP (R_sleep c) km ?k = Some (b, k')" and spl: "curspl ?k > 0"
    using ok cur by (auto simp: thread_sleep_def mi_switch_out_def split: if_splits)
  show ?thesis
  proof (cases rule: stash_sleep_cases [OF kern_inv_wf [OF inv1] spl cur1 st km kern_inv_bounds(3) [OF inv1],
        of "R_sleep c", case_names stuck out])
    case stuck
    then show ?thesis using out by simp
  next
    case (out a')
    then show ?thesis
      using \<open>mi_switch_out S_SLEEP (R_sleep c) km ?k = Some (b, k')\<close> st spl kern_inv_wf [OF inv1]
      by (intro kern_inv_stash [OF inv1 cur1(1), where r = "[]" and s = "[cur]" and z = "[]"
            and t' = "?t\<lparr>t_pcb := \<lparr>pcb_ininterrupt = in_interrupt ?k, pcb_resume = R_sleep c\<rparr>\<rparr>"])
        (auto simp: kviews kern_wf_def)
  qed
qed

lemma thread_exit_inv:
  assumes inv: "kern_inv k" and km: "kmalloc_ok km" and ok: "thread_exit km k = Some (b, k')"
  shows "kern_inv k'"
proof -
  obtain cur t where cur: "curthread k = Some cur" "threads k cur = Some t"
    using ok by (auto simp: thread_exit_def bind_Some_iff)
  let ?t = "t\<lparr>t_vmspace := None, t_cwd := None\<rparr>"
  have st: "stack_ok ?t" using kern_inv_cur [OF inv cur(1)] cur(2) by auto
  define v where "v = (case t_cwd t of None \<Rightarrow> vrefs k
    | Some w \<Rightarrow> (vrefs k)(w := if vrefs k w > 1 then vrefs k w - 1 else 0))"
  let ?k1 = "k\<lparr>curspl := SPL_HIGH, cst_iec := False, vrefs := v, threads := (threads k)(cur \<mapsto> ?t)\<rparr>"
  let ?k2 = "?k1\<lparr>numthreads := numthreads k - 1\<rparr>"
  have v: "mi_switch_out S_ZOMB R_dead km ?k2 = Some (b, k')"
  proof -
    obtain K where "mi_switch_out S_ZOMB R_dead km K = Some (b, k')" and "K = ?k2"
      using ok cur
      by (cases "t_cwd t") (auto simp: thread_exit_def splhigh_eq vop_decref_def bind_Some_iff Let_def v_def split: if_splits)
    then show ?thesis by simp
  qed
  have "kern_inv (k\<lparr>curspl := SPL_HIGH, cst_iec := False, vrefs := v\<rparr>)"
    using kern_inv_fields [OF inv, where s = SPL_HIGH and e = False and i = "in_interrupt k"
      and l = "lbolt_counter k" and a = "active_as k" and v = v] by simp
  from kern_inv_update_cur [OF this _ st, of cur] cur have inv1: "kern_inv ?k1" by simp
  have wf2: "kern_wf ?k2" using kern_inv_wf [OF inv1] by (simp add: kern_wf_def)
  have cur2: "curthread ?k2 = Some cur" "threads ?k2 cur = Some ?t" "curthread ?k1 = Some cur" using cur by simp_all
  have spl: "curspl ?k2 > 0" by simp
  have b2: "length (dead ?k2) < 2 ^ 27" using kern_inv_bounds(4) [OF inv1] by (simp add: kviews)
  show ?thesis
  proof (cases rule: stash_zombie_cases [OF wf2 spl cur2(1,2) st km b2, of R_dead, case_names stuck out])
    case stuck
    then show ?thesis using v by simp
  next
    case (out a')
    then show ?thesis using v st wf2
      by (intro kern_inv_stash [OF inv1 cur2(3), where r = "[]" and s = "[]" and z = "[cur]"
            and t' = "?t\<lparr>t_pcb := \<lparr>pcb_ininterrupt = in_interrupt ?k2, pcb_resume = R_dead\<rparr>\<rparr>"])
        (auto simp: kviews kern_wf_def)
  qed
qed

section \<open>Switching in\<close>

declare exorcise_from.simps [simp del]

lemma exorcise_from_spec:
  assumes "array_ok zs" and "0 \<le> i" and "i \<le> a_num zs"
    and "\<forall>p \<in> set (drop (nat i) (array_list zs)). curthread k \<noteq> Some p \<and>
      (\<exists>t. threads k p = Some t \<and> t_vmspace t = None \<and> t_cwd t = None)"
    and "distinct (drop (nat i) (array_list zs))"
  shows "exorcise_from i zs k = Some (k\<lparr>threads := threads k |` (- set (drop (nat i) (array_list zs)))\<rparr>)"
  using assms
proof (induction i zs k rule: exorcise_from.induct)
  case (1 i zs k)
  let ?l = "array_list zs"
  have len: "int (length ?l) = a_num zs" using 1(2) array_ok_bounds [OF 1(2)] by simp
  show ?case
  proof (cases "i < a_num zs")
    case False
    then show ?thesis using 1(4) len
      by (subst exorcise_from.simps) (simp add: array_getnum_def restrict_map_def)
  next
    case True
    let ?z = "?l ! nat i"
    have drop: "drop (nat i) ?l = ?z # drop (Suc (nat i)) ?l" and nat1: "nat (i + 1) = Suc (nat i)"
      using True 1(3) len by (simp_all add: Cons_nth_drop_Suc nat_less_iff)
    have guy: "array_getguy zs i = Some ?z" using array_getguy_list [OF 1(2,3)] True by (simp add: array_getnum_def)
    obtain t where t: "threads k ?z = Some t" "t_vmspace t = None" "t_cwd t = None" "curthread k \<noteq> Some ?z"
      using 1(5) drop by auto
    let ?k = "k\<lparr>threads := (threads k)(?z := None)\<rparr>"
    have dest: "thread_destroy ?z k = Some ?k" using t by (simp add: thread_destroy_def)
    have rest: "\<forall>p \<in> set (drop (nat (i + 1)) ?l). curthread ?k \<noteq> Some p \<and>
        (\<exists>t. threads ?k p = Some t \<and> t_vmspace t = None \<and> t_cwd t = None)"
      using 1(5,6) unfolding nat1 drop by fastforce
    have "exorcise_from (i + 1) zs ?k = Some (?k\<lparr>threads := threads ?k |` (- set (drop (nat (i + 1)) ?l))\<rparr>)"
      by (rule 1(1) [of ?z "()"]) (use True guy t dest rest 1(2,3,6) drop nat1 in \<open>simp_all add: array_getnum_def\<close>)
    moreover have "threads ?k |` (- set (drop (nat (i + 1)) ?l)) = threads k |` (- set (drop (nat i) ?l))"
      unfolding drop nat1 by (auto simp: restrict_map_def fun_eq_iff)
    ultimately show ?thesis using True guy t dest
      by (subst exorcise_from.simps) (simp add: array_getnum_def)
  qed
qed

lemma exorcise_spec:
  assumes inv: "kern_inv k" and spl: "curspl k > 0"
  obtains zs' where "exorcise k = Some (k\<lparr>threads := threads k |` (- set (dead k)), zombies := Some zs'\<rparr>)"
    and "array_ok zs'" and "array_list zs' = []"
proof -
  from kern_inv_wf [OF inv] obtain zs where zs: "zombies k = Some zs" "array_ok zs" by (rule kern_wfE)
  then have dead: "dead k = array_list zs" by (simp add: dead_def)
  have "\<forall>p \<in> set (dead k). curthread k \<noteq> Some p \<and> (\<exists>t. threads k p = Some t \<and> t_vmspace t = None \<and> t_cwd t = None)"
  proof
    fix p assume p: "p \<in> set (dead k)"
    then obtain t where "threads k p = Some t" using kern_inv_thread [OF inv] by auto
    moreover have "curthread k \<noteq> Some p"
      using p inv by (auto simp: kern_inv_def places_ok_def live_def running_def)
    ultimately show "curthread k \<noteq> Some p \<and> (\<exists>t. threads k p = Some t \<and> t_vmspace t = None \<and> t_cwd t = None)"
      using p inv by (auto simp: kern_inv_def pcbs_ok_def)
  qed
  moreover have "distinct (dead k)" using inv by (simp add: kern_inv_def places_ok_def)
  ultimately have 1: "exorcise_from 0 zs k = Some (k\<lparr>threads := threads k |` (- set (dead k))\<rparr>)"
    using exorcise_from_spec [OF zs(2), of 0 k] array_ok_bounds [OF zs(2)] by (simp add: dead)
  obtain zs' where 2: "array_setsize (\<lambda>_. None) 0 zs = Some (Inr (), zs')" "array_ok zs'" "array_list zs' = []"
    using array_setsize_fits [OF zs(2), of 0] array_ok_bounds [OF zs(2)] by auto
  then show ?thesis using that [of zs'] 1 zs spl by (simp add: exorcise_def)
qed

lemma kern_inv_exorcise:
  assumes inv: "kern_inv k" and zs: "array_ok zs'" "array_list zs' = []"
  shows "kern_inv (k\<lparr>threads := threads k |` (- set (dead k)), zombies := Some zs'\<rparr>)"
proof -
  let ?k = "k\<lparr>threads := threads k |` (- set (dead k)), zombies := Some zs'\<rparr>"
  have views: "live ?k = live k" "dead ?k = []" "ready ?k = ready k" "asleep ?k = asleep k" using zs by (simp_all add: kviews)
  have p: "distinct (live k @ dead k)" "dom (threads k) = set (live k @ dead k)"
      "set (live k @ dead k) \<subseteq> {..<2 ^ 26}" "numthreads k = int (length (live k))"
    using inv by (simp_all add: kern_inv_def places_ok_def)
  then have "places_ok ?k" unfolding places_ok_def views by auto
  moreover have "pcbs_ok ?k" using inv unfolding kern_inv_def pcbs_ok_def views
    by (auto simp: restrict_map_def split: if_splits)
  moreover have "caps_ok ?k" using inv by (simp add: kern_inv_def caps_ok_def kviews)
  moreover have "kern_wf ?k" using inv zs by (simp add: kern_inv_def kern_wf_def)
  ultimately show ?thesis by (simp add: kern_inv_def)
qed

lemma mi_switch_in_spec:
  assumes inv: "kern_inv k" and spl: "curspl k > 0" and cur: "curthread k = Some p"
  obtains a zs' where "mi_switch_in k = Some (k\<lparr>threads := threads k |` (- set (dead k)), zombies := Some zs', active_as := a\<rparr>)"
    and "kern_inv (k\<lparr>threads := threads k |` (- set (dead k)), zombies := Some zs', active_as := a\<rparr>)"
    and "array_list zs' = []" and "p \<notin> set (dead k)"
proof -
  obtain zs' where zs: "exorcise k = Some (k\<lparr>threads := threads k |` (- set (dead k)), zombies := Some zs'\<rparr>)"
      "array_ok zs'" "array_list zs' = []" using exorcise_spec [OF inv spl] .
  let ?k = "k\<lparr>threads := threads k |` (- set (dead k)), zombies := Some zs'\<rparr>"
  have inv1: "kern_inv ?k" using kern_inv_exorcise [OF inv zs(2,3)] .
  have cur1: "curthread ?k = Some p" using cur by simp
  obtain t where t: "threads ?k p = Some t" using kern_inv_cur [OF inv1 cur1] .
  define a where "a = (case t_vmspace t of None \<Rightarrow> active_as k | Some v \<Rightarrow> Some v)"
  have "mi_switch_in k = Some (?k\<lparr>active_as := a\<rparr>)"
    using zs(1) t cur by (cases "t_vmspace t") (simp_all add: mi_switch_in_def activate_current_def as_activate_def a_def)
  moreover have "kern_inv (?k\<lparr>active_as := a\<rparr>)"
    using kern_inv_fields [OF inv1, where s = "curspl k" and e = "cst_iec k" and i = "in_interrupt k"
        and l = "lbolt_counter k" and a = a and v = "vrefs k"] cur by simp
  moreover have "p \<notin> set (dead k)" using t by (auto simp: restrict_map_def split: if_splits)
  ultimately show ?thesis using that zs(3) by blast
qed

lemma kern_inv_pick:
  assumes inv: "kern_inv k" and cur: "curthread k = None" and r: "ready k = p # ps"
    and q: "q_ok q'" "q_list q' = ps" "queue_cap k \<le> q_size q'"
  shows "kern_inv (k\<lparr>runqueue := Some q', curthread := Some p, in_interrupt := b\<rparr>)"
proof -
  let ?k = "k\<lparr>runqueue := Some q', curthread := Some p, in_interrupt := b\<rparr>"
  have views: "live ?k = p # ps @ asleep k" "dead ?k = dead k" "live k = p # ps @ asleep k" "ready ?k = ps" "asleep ?k = asleep k"
    using q r cur by (simp_all add: kviews)
  have "places_ok ?k" using inv by (simp add: kern_inv_def places_ok_def views)
  moreover have "pcbs_ok ?k" using inv r by (auto simp: kern_inv_def pcbs_ok_def views)
  moreover have "caps_ok ?k" using inv q by (auto simp: kern_inv_def caps_ok_def kviews)
  moreover have "kern_wf ?k" using inv q by (simp add: kern_inv_def kern_wf_def)
  ultimately show ?thesis by (simp add: kern_inv_def)
qed

lemma resume_thread_ok:
  assumes inv: "kern_inv k" and spl: "curspl k > 0" and cur: "curthread k = Some p" and r: "r \<noteq> R_dead"
  shows "\<exists>x k'. resume_thread r p k = Some (x, k') \<and> kern_inv k' \<and> curthread k' = Some p \<and>
    ready k' = ready k \<and> asleep k' = asleep k \<and> numthreads k' = numthreads k \<and>
    dead k' = (if r = R_start then dead k else []) \<and> (\<forall>x \<in> set (asleep k). threads k' x = threads k x)"
proof (cases "r = R_start")
  case True
  obtain t where t: "threads k p = Some t" using kern_inv_cur [OF inv cur] .
  define a where "a = (case t_vmspace t of None \<Rightarrow> active_as k | Some v \<Rightarrow> Some v)"
  have "activate_current k = Some (k\<lparr>active_as := a\<rparr>)"
    using t cur by (cases "t_vmspace t") (simp_all add: activate_current_def as_activate_def a_def)
  moreover have inv1: "kern_inv (k\<lparr>active_as := a\<rparr>)"
    using kern_inv_fields [OF inv, where s = "curspl k" and e = "cst_iec k" and i = "in_interrupt k"
        and l = "lbolt_counter k" and a = a and v = "vrefs k"] cur by simp
  moreover have "kern_inv (snd (splx 0 (k\<lparr>active_as := a\<rparr>)))" using kern_inv_spl [OF inv1] cur by simp
  ultimately show ?thesis using True cur
    by (simp add: resume_thread_def mi_threadstart_def spl0_def kviews)
next
  case False
  obtain a zs' where sw: "mi_switch_in k = Some (k\<lparr>threads := threads k |` (- set (dead k)), zombies := Some zs', active_as := a\<rparr>)"
    and inv1: "kern_inv (k\<lparr>threads := threads k |` (- set (dead k)), zombies := Some zs', active_as := a\<rparr>)"
    and reaped: "array_list zs' = []"
    using mi_switch_in_spec [OF inv spl cur] .
  define k1 where "k1 = k\<lparr>threads := threads k |` (- set (dead k)), zombies := Some zs', active_as := a\<rparr>"
  have inv1: "kern_inv k1" and sw: "mi_switch_in k = Some k1" using inv1 sw by (simp_all add: k1_def)
  have k1: "curthread k1 = Some p" "ready k1 = ready k" "asleep k1 = asleep k" "numthreads k1 = numthreads k" "dead k1 = []"
    using cur reaped by (simp_all add: k1_def kviews)
  have sl: "\<forall>x \<in> set (asleep k). threads k1 x = threads k x \<and> x \<noteq> p"
    using inv cur by (auto simp: k1_def restrict_map_def kern_inv_def places_ok_def live_def running_def)
  have fields: "kern_inv (k1\<lparr>curspl := s, cst_iec := e, in_interrupt := i\<rparr>)" for s e i
    using kern_inv_fields [OF inv1, where s = s and e = e and i = i
        and l = "lbolt_counter k1" and a = "active_as k1" and v = "vrefs k1"] k1 by simp
  obtain t1 where t1: "threads k1 p = Some t1" "stack_ok t1" using kern_inv_cur [OF inv1 k1(1)] .
  show ?thesis
  proof (cases r)
    case (R_yield s)
    then show ?thesis using sw k1 sl kern_inv_spl [OF inv1, of s]
      by (simp add: resume_thread_def kviews)
  next
    case (R_irq s i s')
    have "(snd (splhigh ((snd (splx s k1))\<lparr>in_interrupt := i\<rparr>)))\<lparr>curspl := s', cst_iec := True\<rparr> =
        k1\<lparr>curspl := s', cst_iec := True, in_interrupt := i\<rparr>"
      by (simp add: splhigh_def splx_def)
    then show ?thesis using R_irq sw k1 sl fields [where s = s' and e = True and i = i]
      by (simp add: resume_thread_def kviews)
  next
    case (R_sleep c)
    have "kern_inv (k1\<lparr>threads := (threads k1)(p \<mapsto> t1\<lparr>t_sleepaddr := None\<rparr>)\<rparr>)"
      using kern_inv_update_cur [OF inv1 k1(1)] t1 by simp
    then show ?thesis using R_sleep sw k1 t1 sl
      by (simp add: resume_thread_def kviews)
  qed (use False r in simp_all)
qed

text \<open>Dispatching never fails, and runs the thread at the head of the queue.\<close>

lemma dispatch_cases:
  assumes inv: "kern_inv k" and cur: "curthread k = None"
  obtains (idle) "ready k = []" and "dispatch k = Some (Idle, k)"
  | (run) p ps r k' where "ready k = p # ps" and "dispatch k = Some (r, k')" and "kern_inv k'"
      and "curthread k' = Some p" and "ready k' = ps" and "asleep k' = asleep k" and "numthreads k' = numthreads k"
      and "dead k' = [] \<or> r = Started \<and> dead k' = dead k"
      and "\<forall>x \<in> set (asleep k). threads k' x = threads k x"
proof -
  from kern_inv_wf [OF inv] obtain q where q: "runqueue k = Some q" "q_ok q" by (rule kern_wfE)
  have spl: "curspl k > 0" using inv cur by (simp add: kern_inv_def caps_ok_def)
  show ?thesis
  proof (cases "ready k")
    case Nil
    then have "dispatch k = Some (Idle, k)"
      using q spl by (simp add: dispatch_def scheduler_def q_empty_iff ready_def)
    then show ?thesis using idle Nil by simp
  next
    case (Cons p ps)
    obtain q' where q': "q_remhead q = Some (p, q')" "q_ok q'" "q_list q' = ps" "q_size q' = q_size q"
      using q_remhead_list [OF q(2), of p ps] Cons q(1) by (auto simp: ready_def)
    obtain t where t: "threads k p = Some t" and live: "pcb_resume (t_pcb t) \<noteq> R_dead"
      using kern_inv_thread [OF inv, of p] inv Cons by (auto simp: live_def kern_inv_def pcbs_ok_def)
    let ?k = "k\<lparr>runqueue := Some q', curthread := Some p, in_interrupt := pcb_ininterrupt (t_pcb t)\<rparr>"
    have inv1: "kern_inv ?k" using kern_inv_pick [OF inv cur Cons] q' q by (simp add: queue_cap_def)
    obtain x k' where "resume_thread (pcb_resume (t_pcb t)) p ?k = Some (x, k')" "kern_inv k'"
        "curthread k' = Some p" "ready k' = ready ?k" "asleep k' = asleep ?k" "numthreads k' = numthreads ?k"
        "dead k' = (if pcb_resume (t_pcb t) = R_start then dead ?k else [])"
        "\<forall>x \<in> set (asleep ?k). threads k' x = threads ?k x"
      using resume_thread_ok [OF inv1 _ _ live, of p] spl by auto
    moreover have "dispatch k = resume_thread (pcb_resume (t_pcb t)) p ?k"
      using q q' t spl Cons by (simp add: dispatch_def scheduler_def q_empty_iff ready_def)
    moreover have "pcb_resume (t_pcb t) = R_start \<Longrightarrow> x = Started"
      using \<open>resume_thread _ p ?k = _\<close> by (auto simp: resume_thread_def bind_Some_iff)
    ultimately show ?thesis using run [OF Cons, of x k'] q' by (simp add: kviews split: if_splits)
  qed
qed

end
