(* ===== verification/KThreadSys.thy ===== *)
theory KThreadSys
  imports KThreadInv
begin

text \<open>
  Forking, the step relation of the thread system and the states it reaches. The locale
  \<open>invariant_of\<close> is interpreted on \<open>kern_inv\<close>; the properties of reachable states rest on
  that interpretation.
\<close>


section \<open>Forking\<close>

definition fork_mem_ok :: "fork_mem \<Rightarrow> 'c kern \<Rightarrow> bool" where
  "fork_mem_ok m k \<longleftrightarrow> (case fm_thread m of None \<Rightarrow> True | Some p \<Rightarrow> threads k p = None \<and> p < 2 ^ 26) \<and>
     kmalloc_ok (fm_sleepers m) \<and> kmalloc_ok (fm_zombies m) \<and> kmalloc_ok (fm_prealloc m) \<and>
     kmalloc_ok (fm_runnable m)"

text \<open>
  \<open>fork_reserve\<close> changes the three containers only, and what they hold only by the new thread
  at the end of the run queue.
\<close>

definition containers :: "'c kern \<Rightarrow> tid array \<Rightarrow> tid array \<Rightarrow> tid queue \<Rightarrow> bool" where
  "containers k sl zs q \<longleftrightarrow> array_ok sl \<and> array_ok zs \<and> q_ok q \<and> array_list sl = asleep k \<and> array_list zs = dead k \<and>
     sleep_cap k \<le> a_max sl \<and> queue_cap k \<le> q_size q"

lemma fork_reserve_cases:
  assumes wf: "kern_wf k" and spl: "curspl k > 0" and m: "fork_mem_ok m k'" and n: "n \<le> 2 ^ 28"
    and bound: "length (ready k) < 2 ^ 27"
  obtains (nomem) sl zs q where "fork_reserve m p n k = Some (Inl ENOMEM, k\<lparr>sleepers := Some sl, zombies := Some zs, runqueue := Some q\<rparr>)"
      and "containers k sl zs q" and "q_list q = ready k"
  | (reserved) sl zs q where "fork_reserve m p n k = Some (Inr (), k\<lparr>sleepers := Some sl, zombies := Some zs, runqueue := Some q\<rparr>)"
      and "containers k sl zs q" and "q_list q = ready k @ [p]" and "n \<le> a_max sl" and "n \<le> q_size q"
proof -
  from wf obtain sl zs q where k: "sleepers k = Some sl" "array_ok sl" "zombies k = Some zs" "array_ok zs"
    "runqueue k = Some q" "q_ok q" by (rule kern_wfE)
  have m: "kmalloc_ok (fm_sleepers m)" "kmalloc_ok (fm_zombies m)" "kmalloc_ok (fm_prealloc m)" "kmalloc_ok (fm_runnable m)"
    using m by (simp_all add: fork_mem_ok_def)
  note defs = fork_reserve_def and_then_def sleepers_preallocate_def zombies_preallocate_def
    scheduler_preallocate_def make_runnable_def containers_def kview_defs
  have id: "k\<lparr>sleepers := Some sl, zombies := Some zs, runqueue := Some q\<rparr> = k" using k by simp
  show ?thesis
  proof (cases rule: array_preallocate_cases [OF k(2) m(1) n, case_names nomem1 grown1])
    case nomem1
    then show ?thesis using nomem [where sl = sl and zs = zs and q = q] k id by (simp add: defs)
  next
    case (grown1 sl1)
    show ?thesis
    proof (cases rule: array_preallocate_cases [OF k(4) m(2) n, case_names nomem2 grown2])
      case nomem2
      then show ?thesis using nomem [where sl = sl1 and zs = zs and q = q] k grown1 id by (simp add: defs)
    next
      case (grown2 zs1)
      show ?thesis
      proof (cases rule: q_preallocate_cases [OF k(6) m(3) n, case_names nomem3 enough])
        case nomem3
        then show ?thesis using nomem [where sl = sl1 and zs = zs1 and q = q] k grown1 grown2 spl by (simp add: defs)
      next
        case (enough q1)
        have "q_len q1 < 2 ^ 27" using bound enough k by (simp add: ready_def flip: length_q_list)
        show ?thesis
        proof (cases rule: q_addtail_cases [OF enough(2) m(4) \<open>q_len q1 < 2 ^ 27\<close>, of p, case_names nomem4 added])
          case nomem4
          then show ?thesis using nomem [where sl = sl1 and zs = zs1 and q = q1] k grown1 grown2 enough spl by (simp add: defs)
        next
          case (added q2)
          then show ?thesis using reserved [where sl = sl1 and zs = zs1 and q = q2] k grown1 grown2 enough spl by (simp add: defs)
        qed
      qed
    qed
  qed
qed

lemma kern_inv_grow:
  assumes inv: "kern_inv k" and cur: "curthread k \<noteq> None" and c: "containers k sl zs q" "q_list q = ready k"
  shows "kern_inv (k\<lparr>sleepers := Some sl, zombies := Some zs, runqueue := Some q\<rparr>)"
proof -
  let ?k = "k\<lparr>sleepers := Some sl, zombies := Some zs, runqueue := Some q\<rparr>"
  have views: "running ?k = running k" "ready ?k = ready k" "asleep ?k = asleep k" "dead ?k = dead k"
      "sleep_cap k \<le> sleep_cap ?k" "queue_cap k \<le> queue_cap ?k"
    using c by (auto simp: containers_def kviews)
  then have "live ?k = live k" by (simp add: live_def)
  then show ?thesis using inv c views cur
    by (auto simp: kern_inv_def kern_wf_def places_ok_def pcbs_ok_def caps_ok_def containers_def)
qed

lemma kern_inv_born:
  assumes inv: "kern_inv k" and cur: "curthread k \<noteq> None" and c: "containers k sl zs q" "q_list q = ready k @ [p]"
    and cap: "numthreads k + 1 \<le> a_max sl" "numthreads k + 1 \<le> q_size q"
    and p: "threads k p = None" "p < 2 ^ 26" "stack_ok t" "pcb_resume (t_pcb t) \<noteq> R_dead"
  shows "kern_inv (k\<lparr>sleepers := Some sl, zombies := Some zs, runqueue := Some q,
    threads := (threads k)(p \<mapsto> t), numthreads := numthreads k + 1\<rparr>)"
proof -
  let ?k = "k\<lparr>sleepers := Some sl, zombies := Some zs, runqueue := Some q,
    threads := (threads k)(p \<mapsto> t), numthreads := numthreads k + 1\<rparr>"
  have views: "running ?k = running k" "ready ?k = ready k @ [p]" "asleep ?k = asleep k" "dead ?k = dead k"
      "sleep_cap ?k = a_max sl" "queue_cap ?k = q_size q"
    using c by (auto simp: containers_def kviews)
  have pl: "distinct (live k @ dead k)" "dom (threads k) = set (live k @ dead k)"
      "set (live k @ dead k) \<subseteq> {..<2 ^ 26}" "numthreads k = int (length (live k))"
    using inv by (simp_all add: kern_inv_def places_ok_def)
  have new: "p \<notin> set (live k @ dead k)" using p(1) pl(2) by (metis domIff)
  have sets: "set (live ?k @ dead ?k) = insert p (set (live k @ dead k))" by (auto simp: live_def views)
  have "distinct (live ?k @ dead ?k)" using pl(1) new by (auto simp: live_def views)
  moreover have "numthreads ?k = int (length (live ?k))"
    using pl(4) unfolding live_def views by simp
  moreover have "dom (threads ?k) = insert p (dom (threads k))" by simp
  ultimately have "places_ok ?k" using sets pl p(2) unfolding places_ok_def by (metis insert_subset lessThan_iff)
  moreover have "pcbs_ok ?k" using inv p new unfolding pcbs_ok_def kern_inv_def views
    by (auto simp: live_def split: if_splits)
  moreover have "caps_ok ?k" using cap cur by (auto simp: caps_ok_def views)
  moreover have "kern_wf ?k" using c by (simp add: kern_wf_def containers_def)
  ultimately show ?thesis by (simp add: kern_inv_def)
qed

lemma splx_threads: "(snd (splx s k))\<lparr>threads := f\<rparr> = snd (splx s (k\<lparr>threads := f\<rparr>))"
  by (simp add: splx_def)

lemma splx_vrefs: "(snd (splx s k))\<lparr>vrefs := f\<rparr> = snd (splx s (k\<lparr>vrefs := f\<rparr>))"
  by (simp add: splx_def)

lemma splx_curspl: "k1 = k2\<lparr>curspl := x\<rparr> \<Longrightarrow> snd (splx s k1) = snd (splx s k2)"
  by (simp add: splx_def)

definition new_thread :: "string \<Rightarrow> 8 word list \<Rightarrow> addr option \<Rightarrow> 'c thread" where
  "new_thread name stack cwd =
     \<lparr>t_pcb = \<lparr>pcb_ininterrupt = False, pcb_resume = R_start\<rparr>, t_name = name, t_sleepaddr = None,
      t_stack = Some (stack_magic @ drop 4 stack), t_vmspace = None, t_cwd = cwd\<rparr>"

lemma stack_ok_new [simp]: "stack_ok (new_thread name stack cwd)"
  by (simp add: new_thread_def stack_ok_def check_stack_def stack_magic_def)

definition cwd_refs :: "addr option \<Rightarrow> (addr \<Rightarrow> int) \<Rightarrow> addr \<Rightarrow> int" where
  "cwd_refs cwd r = (case cwd of None \<Rightarrow> r | Some v \<Rightarrow> r(v := r v + 1))"

text \<open>\<open>thread_fork\<close> up to \<open>fork_reserve\<close>, as one state.\<close>

definition fork_prepared :: "tid \<Rightarrow> 'c thread \<Rightarrow> addr option \<Rightarrow> 'c kern \<Rightarrow> 'c kern" where
  "fork_prepared p t cwd k = k\<lparr>vrefs := cwd_refs cwd (vrefs k), threads := (threads k)(p \<mapsto> t),
     curspl := SPL_HIGH, cst_iec := False\<rparr>"

lemma thread_fork_unfold:
  fixes name :: string
  assumes "curthread k = Some c" and "threads k c = Some ct" and "fm_thread m = Some p" and "threads k p = None"
    and "fm_name m" and "fm_stack m = Some stack"
  defines "t \<equiv> new_thread name stack (t_cwd ct)"
  shows "thread_fork m name k = do {
     n \<leftarrow> c_int (numthreads k + 1);
     (result, k5) \<leftarrow> fork_reserve m p n (fork_prepared p t (t_cwd ct) k);
     case result of
       Inr _ \<Rightarrow> do { n' \<leftarrow> c_int (numthreads k5 + 1); Some (Inr p, snd (splx (curspl k) (k5\<lparr>numthreads := n'\<rparr>))) }
     | Inl e \<Rightarrow> do {
         k7 \<leftarrow> (case t_cwd ct of None \<Rightarrow> Some (snd (splx (curspl k) k5)) | Some v \<Rightarrow> vop_decref v (snd (splx (curspl k) k5)));
         Some (Inl e, k7\<lparr>threads := (threads k7)(p := None)\<rparr>)
       }
   }"
proof -
  have "c \<noteq> p" using assms by auto
  then show ?thesis using assms
    by (cases "t_cwd ct") (simp_all add: thread_fork_def thread_create_def vop_incref_def splhigh_eq fork_prepared_def
        cwd_refs_def new_thread_def Let_def cong: sum.case_cong)
qed

lemma thread_fork_cases:
  assumes inv: "kern_inv k" and cur: "curthread k = Some c" "threads k c = Some ct" and m: "fork_mem_ok m k"
    and refs: "\<forall>v. t_cwd ct = Some v \<longrightarrow> 0 \<le> vrefs k v"
  obtains (nomem) sl zs q where "thread_fork m name k = Some (Inl ENOMEM,
        snd (splx (curspl k) (k\<lparr>cst_iec := False, sleepers := Some sl, zombies := Some zs, runqueue := Some q\<rparr>))) \<or>
      thread_fork m name k = Some (Inl ENOMEM, k)"
      and "containers k sl zs q" and "q_list q = ready k"
  | (born) p stack sl zs q where "fm_thread m = Some p" and "fm_stack m = Some stack" and "threads k p = None" and "p < 2 ^ 26"
      and "thread_fork m name k = Some (Inr p, snd (splx (curspl k) (k\<lparr>cst_iec := False,
        vrefs := cwd_refs (t_cwd ct) (vrefs k), sleepers := Some sl, zombies := Some zs, runqueue := Some q,
        threads := (threads k)(p \<mapsto> new_thread name stack (t_cwd ct)), numthreads := numthreads k + 1\<rparr>)))"
      and "containers k sl zs q" and "q_list q = ready k @ [p]"
      and "numthreads k + 1 \<le> a_max sl" and "numthreads k + 1 \<le> q_size q"
proof -
  from kern_inv_wf [OF inv] obtain sl zs q where k: "sleepers k = Some sl" "array_ok sl" "zombies k = Some zs" "array_ok zs"
    "runqueue k = Some q" "q_ok q" by (rule kern_wfE)
  have same: "containers k sl zs q" "q_list q = ready k" using k by (simp_all add: containers_def kviews)
  show ?thesis
  proof (cases "\<exists>p stack. fm_thread m = Some p \<and> fm_name m \<and> fm_stack m = Some stack")
    case False
    then have "thread_fork m name k = Some (Inl ENOMEM, k)"
    proof (cases "fm_thread m")
      case (Some p)
      have "(threads k)(p := None) = threads k" using m Some by (auto simp: fork_mem_ok_def)
      then show ?thesis using Some False
        by (cases "fm_stack m") (auto simp: thread_fork_def thread_create_def)
    qed (simp add: thread_fork_def thread_create_def)
    then show ?thesis using nomem [OF _ same] by blast
  next
    case True
    then obtain p stack where fm: "fm_thread m = Some p" "fm_name m" "fm_stack m = Some stack" by blast
    have p: "threads k p = None" "p < 2 ^ 26" using m fm by (simp_all add: fork_mem_ok_def)
    let ?t = "new_thread name stack (t_cwd ct)"
    let ?k4 = "fork_prepared p ?t (t_cwd ct) k" and ?n = "numthreads k + 1"
    note unfold = thread_fork_unfold [OF cur fm(1) p(1) fm(2,3), of name]
    have n: "?n \<le> 2 ^ 28" "c_int ?n = Some ?n" using kern_inv_bounds(5,6) [OF inv] by simp_all
    have wf: "kern_wf ?k4" "curspl ?k4 > 0" "ready ?k4 = ready k"
      using kern_inv_wf [OF inv] by (simp_all add: kern_wf_def fork_prepared_def kviews)
    have cont: "containers ?k4 = containers k" by (simp add: containers_def fork_prepared_def kviews fun_eq_iff)
    have bound: "length (ready ?k4) < 2 ^ 27" using kern_inv_bounds(2) [OF inv] wf by simp
    show ?thesis
    proof (cases rule: fork_reserve_cases [OF wf(1,2) m n(1) bound, of p, case_names nomem reserved])
      case (nomem sl' zs' q')
      let ?K = "k\<lparr>cst_iec := False, sleepers := Some sl', zombies := Some zs', runqueue := Some q'\<rparr>"
      have old: "(threads k)(p := None) = threads k" using p(1) by auto
      have "thread_fork m name k = Some (Inl ENOMEM, snd (splx (curspl k) ?K))"
      proof (cases "t_cwd ct")
        case None
        then show ?thesis using nomem(1) n(2) unfolding unfold
          by (simp add: splx_threads) (rule splx_curspl [where x = SPL_HIGH], simp add: fork_prepared_def cwd_refs_def old)
      next
        case (Some v)
        then have "0 < vrefs k v + 1" "1 < vrefs k v + 1 \<or> vrefs k v = 0" using refs by auto
        then show ?thesis using nomem(1) n(2) Some unfolding unfold
          by (simp add: splx_threads splx_vrefs vop_decref_def fork_prepared_def cwd_refs_def)
            (intro conjI impI splx_curspl [where x = SPL_HIGH]; simp add: old fun_upd_idem)
      qed
      then show ?thesis using that(1) [where sl = sl' and zs = zs' and q = q'] nomem cont wf by simp
    next
      case (reserved sl' zs' q')
      then have "thread_fork m name k = Some (Inr p, snd (splx (curspl k) (k\<lparr>cst_iec := False,
        vrefs := cwd_refs (t_cwd ct) (vrefs k), sleepers := Some sl', zombies := Some zs', runqueue := Some q',
        threads := (threads k)(p \<mapsto> ?t), numthreads := ?n\<rparr>)))"
        using n(2) unfolding unfold by (simp add: fork_prepared_def) (rule splx_curspl [where x = SPL_HIGH], simp)
      then show ?thesis using born [OF fm(1,3) p] reserved cont wf by simp
    qed
  qed
qed

lemma kern_inv_containers_spl:
  assumes "kern_inv k" and "curthread k = Some c" and "containers k sl zs q" and "q_list q = ready k"
  shows "kern_inv (snd (splx s (k\<lparr>cst_iec := False, sleepers := Some sl, zombies := Some zs, runqueue := Some q\<rparr>)))"
proof -
  have "kern_inv (k\<lparr>cst_iec := False\<rparr>)"
    using kern_inv_fields [OF assms(1), where s = "curspl k" and e = False and i = "in_interrupt k"
        and l = "lbolt_counter k" and a = "active_as k" and v = "vrefs k"] assms(2) by simp
  moreover have "containers (k\<lparr>cst_iec := False\<rparr>) sl zs q" "q_list q = ready (k\<lparr>cst_iec := False\<rparr>)"
    using assms(3,4) by (simp_all add: containers_def kviews)
  ultimately have "kern_inv (k\<lparr>cst_iec := False, sleepers := Some sl, zombies := Some zs, runqueue := Some q\<rparr>)"
    using kern_inv_grow [of "k\<lparr>cst_iec := False\<rparr>" sl zs q] assms(2) by simp
  then show ?thesis using kern_inv_spl assms(2) by fastforce
qed

lemma thread_fork_inv:
  assumes inv: "kern_inv k" and cur: "curthread k = Some c" "threads k c = Some ct" and m: "fork_mem_ok m k"
    and refs: "\<forall>v. t_cwd ct = Some v \<longrightarrow> 0 \<le> vrefs k v" and ok: "thread_fork m name k = Some (r, k')"
  shows "kern_inv k'"
proof (cases rule: thread_fork_cases [OF inv cur m refs, of name, case_names nomem born])
  case (nomem sl zs q)
  then show ?thesis using ok inv kern_inv_containers_spl [OF inv cur(1) nomem(2,3)] by auto
next
  case (born p stack sl zs q)
  let ?t = "new_thread name stack (t_cwd ct)"
  let ?k = "k\<lparr>cst_iec := False, vrefs := cwd_refs (t_cwd ct) (vrefs k)\<rparr>"
  have inv1: "kern_inv ?k"
    using kern_inv_fields [OF inv, where s = "curspl k" and e = False and i = "in_interrupt k"
        and l = "lbolt_counter k" and a = "active_as k" and v = "cwd_refs (t_cwd ct) (vrefs k)"] cur by simp
  have "containers ?k sl zs q" "q_list q = ready ?k @ [p]" using born by (simp_all add: containers_def kviews)
  then have inv2: "kern_inv (?k\<lparr>sleepers := Some sl, zombies := Some zs, runqueue := Some q,
      threads := (threads ?k)(p \<mapsto> ?t), numthreads := numthreads ?k + 1\<rparr>)"
    using kern_inv_born [OF inv1, of sl zs q p ?t] born cur by (simp add: new_thread_def stack_ok_def check_stack_def stack_magic_def)
  have "k' = snd (splx (curspl k) (?k\<lparr>sleepers := Some sl, zombies := Some zs, runqueue := Some q,
      threads := (threads ?k)(p \<mapsto> ?t), numthreads := numthreads ?k + 1\<rparr>))"
    using ok born(5) by simp
  then show ?thesis using kern_inv_spl [OF inv2, of "curspl k"] cur by simp
qed

section \<open>Every step keeps the invariant\<close>

text \<open>
  What can happen to the kernel: the running thread calls an operation of this file or changes
  its own fields, the scheduler dispatches, and the timer interrupts while interrupts are
  enabled or the scheduler idles. Calls of \<open>thread_wakeup\<close> may also come from a device
  interrupt while no thread is running.
\<close>

inductive kstep :: "'c kern \<Rightarrow> 'c kern \<Rightarrow> bool" where
  k_fork: "curthread k = Some c \<Longrightarrow> threads k c = Some ct \<Longrightarrow> \<forall>v. t_cwd ct = Some v \<longrightarrow> 0 \<le> vrefs k v \<Longrightarrow>
    fork_mem_ok m k \<Longrightarrow> thread_fork m name k = Some (r, k') \<Longrightarrow> kstep k k'"
| k_yield: "kmalloc_ok km \<Longrightarrow> thread_yield km k = Some (b, k') \<Longrightarrow> kstep k k'"
| k_sleep: "kmalloc_ok km \<Longrightarrow> thread_sleep a c km k = Some (b, k') \<Longrightarrow> kstep k k'"
| k_exit: "kmalloc_ok km \<Longrightarrow> thread_exit km k = Some (b, k') \<Longrightarrow> kstep k k'"
| k_wakeup: "\<forall>n. kmalloc_ok (kms n) \<Longrightarrow> thread_wakeup kms a k = Some k' \<Longrightarrow> kstep k k'"
| k_wakeup_one: "kmalloc_ok km \<Longrightarrow> thread_wakeup_one km a k = Some k' \<Longrightarrow> kstep k k'"
| k_dispatch: "curthread k = None \<Longrightarrow> dispatch k = Some (x, k') \<Longrightarrow> kstep k k'"
| k_timer: "cst_iec k \<or> curthread k = None \<Longrightarrow> \<forall>n. kmalloc_ok (kms n) \<Longrightarrow> kmalloc_ok km \<Longrightarrow>
    timer_interrupt lbolt kms km k = Some (b, k') \<Longrightarrow> kstep k k'"
| k_splx: "curthread k = Some c \<Longrightarrow> kstep k (snd (splx s k))"
| k_fields: "curthread k = Some c \<Longrightarrow> threads k c = Some t \<Longrightarrow>
    kstep k (k\<lparr>threads := (threads k)(c \<mapsto> t\<lparr>t_vmspace := v, t_cwd := w\<rparr>), vrefs := r\<rparr>)"

inductive_cases kstepE: "kstep k k'"

text \<open>The kernel after \<open>scheduler_bootstrap\<close> and \<open>thread_bootstrap\<close>, interrupts off.\<close>

definition booted :: "'c kern \<Rightarrow> bool" where
  "booted k \<longleftrightarrow> (\<exists>k0 k1 mem km mem1 mem2 p. curspl k0 = SPL_HIGH \<and> threads k0 = (\<lambda>_. None) \<and>
     kmalloc_ok km \<and> p < 2 ^ 26 \<and> scheduler_bootstrap mem km k0 = Some k1 \<and>
     thread_bootstrap mem1 mem2 (Some p) True k1 = Some (p, k))"

lemma booted_inv:
  assumes "booted k"
  shows "kern_inv k"
proof -
  obtain k0 km p data where k0: "curspl k0 = SPL_HIGH" "threads k0 = (\<lambda>_. None)" "kmalloc_ok km" "p < 2 ^ 26"
      "km (ptr_bytes 32) = Some data"
    and k: "k = k0\<lparr>runqueue := Some \<lparr>q_size = 32, q_nextwrite = 0, q_nextread = 0, q_data = data\<rparr>,
        sleepers := Some \<lparr>a_num = 0, a_max = 0, a_v = None\<rparr>, zombies := Some \<lparr>a_num = 0, a_max = 0, a_v = None\<rparr>,
        threads := [p \<mapsto> \<lparr>t_pcb = \<lparr>pcb_ininterrupt = False, pcb_resume = R_dead\<rparr>, t_name = ''<boot/menu>'',
           t_sleepaddr = None, t_stack = None, t_vmspace = None, t_cwd = None\<rparr>],
        curthread := Some p, numthreads := 1\<rparr>"
    using assms
    by (auto simp: booted_def scheduler_bootstrap_def thread_bootstrap_def q_create_def array_create_def
        thread_create_def bind_Some_iff split: if_splits option.splits)
  have len: "length data = 32" using kmalloc_ok_len [OF k0(3,5)] by simp
  have lists: "q_list \<lparr>q_size = 32, q_nextwrite = 0, q_nextread = 0, q_data = data\<rparr> = []"
    "array_list \<lparr>a_num = 0, a_max = 0, a_v = None :: nat list option\<rparr> = []"
    by (simp_all add: q_list_def q_len_def array_list_def)
  show ?thesis
    unfolding kern_inv_def kern_wf_def places_ok_def pcbs_ok_def caps_ok_def kview_defs k
    using k0 len lists by (auto simp: q_ok_def array_ok_def array_cells_def stack_ok_def check_stack_def split: if_splits)
qed

lemma thread_wakeup_frame:
  assumes inv: "kern_inv k" and km: "\<forall>n. kmalloc_ok (kms n)" and spl: "curspl k > 0"
    and ok: "thread_wakeup kms a k = Some k'"
  shows "curthread k' = curthread k \<and> threads k' = threads k \<and> curspl k' = curspl k"
  by (cases rule: thread_wakeup_cases [OF kern_inv_wf [OF inv] spl km kern_inv_bounds(1) [OF inv]
      kern_inv_asleep_threads [OF inv], of a, case_names stuck woken]) (use ok in auto)

lemma thread_yield_as_stays:
  "thread_yield_as mk km k = Some (False, k') \<Longrightarrow> curthread k = None \<and> curthread k' = None"
  by (auto simp: thread_yield_as_def splhigh_eq mi_switch_out_def bind_Some_iff split: if_splits option.splits)

lemma timer_interrupt_inv:
  assumes inv: "kern_inv k" and kms: "\<forall>n. kmalloc_ok (kms n)" and km: "kmalloc_ok km"
    and ok: "timer_interrupt lbolt kms km k = Some (b, k')"
  shows "kern_inv k'"
proof -
  let ?k = "k\<lparr>curspl := SPL_HIGH, cst_iec := False, in_interrupt := True\<rparr>"
  let ?mk = "\<lambda>spl. R_irq spl (in_interrupt k) (curspl k)"
  have fields: "kern_inv (k\<lparr>curspl := SPL_HIGH, cst_iec := False, in_interrupt := True, lbolt_counter := l\<rparr>)" for l
    using kern_inv_fields [OF inv, where s = SPL_HIGH and e = False and i = True
        and l = l and a = "active_as k" and v = "vrefs k"] by simp
  obtain sw k1 where hc: "hardclock ?mk lbolt kms km ?k = Some (sw, k1)"
    and k': "sw \<Longrightarrow> k' = k1" "\<not> sw \<Longrightarrow> k' = (snd (splhigh (k1\<lparr>in_interrupt := in_interrupt k\<rparr>)))\<lparr>curspl := curspl k, cst_iec := cst_iec k\<rparr>"
    using ok by (auto simp: timer_interrupt_def Let_def bind_Some_iff split: if_splits)
  obtain k2 where k2: "thread_yield_as ?mk km k2 = Some (sw, k1)" "kern_inv k2" "curthread k2 = curthread k"
  proof (cases "lbolt_counter k + 1 \<ge> HZ")
    case True
    then obtain k3 where k3: "thread_wakeup kms lbolt (?k\<lparr>lbolt_counter := 0\<rparr>) = Some k3"
        "thread_yield_as ?mk km k3 = Some (sw, k1)"
      using hc by (auto simp: hardclock_def bind_Some_iff c_int_def split: if_splits)
    have "kern_inv k3" using thread_wakeup_inv [OF fields [of 0] kms _ k3(1)[simplified]] by simp
    moreover have "curthread k3 = curthread k"
      using thread_wakeup_frame [OF fields [of 0] kms _ k3(1)[simplified]] by simp
    ultimately show thesis using that k3 by blast
  next
    case False
    then show thesis using that hc fields
      by (auto simp: hardclock_def bind_Some_iff c_int_def split: if_splits)
  qed
  have inv1: "kern_inv k1" using thread_yield_as_inv [OF k2(2) km _ k2(1)] by simp
  show ?thesis
  proof (cases sw)
    case True
    then show ?thesis using inv1 k' by simp
  next
    case False
    then have "curthread k1 = None" "curthread k = None" using thread_yield_as_stays k2 by fastforce+
    then have "curspl k > 0" using inv by (simp add: kern_inv_def caps_ok_def)
    have "k' = k1\<lparr>curspl := curspl k, cst_iec := cst_iec k, in_interrupt := in_interrupt k\<rparr>"
      using k'(2) False by (simp add: splhigh_eq)
    then show ?thesis
      using kern_inv_fields [OF inv1, where s = "curspl k" and e = "cst_iec k" and i = "in_interrupt k"
        and l = "lbolt_counter k1" and a = "active_as k1" and v = "vrefs k1"] \<open>curspl k > 0\<close> by simp
  qed
qed

lemma kstep_inv: "kern_inv k \<Longrightarrow> kstep k k' \<Longrightarrow> kern_inv k'"
proof (erule kstepE)
  fix km a c b
  assume "kern_inv k" "kmalloc_ok km" "thread_sleep a c km k = Some (b, k')"
  then show "kern_inv k'" by (rule thread_sleep_inv)
next
  fix kms a
  assume *: "kern_inv k" "\<forall>n. kmalloc_ok (kms n)" "thread_wakeup kms a k = Some k'"
  then have "curspl k > 0" by (auto simp: thread_wakeup_def split: if_splits)
  with * show "kern_inv k'" using thread_wakeup_inv by blast
next
  fix km a
  assume *: "kern_inv k" "kmalloc_ok km" "thread_wakeup_one km a k = Some k'"
  then have "curspl k > 0" by (auto simp: thread_wakeup_one_def split: if_splits)
  with * show "kern_inv k'" using thread_wakeup_one_inv by blast
next
  fix x
  assume *: "kern_inv k" "curthread k = None" "dispatch k = Some (x, k')"
  then show "kern_inv k'" by (cases rule: dispatch_cases [OF *(1,2)]) auto
next
  fix c t v w r
  assume *: "kern_inv k" "k' = k\<lparr>threads := (threads k)(c \<mapsto> t\<lparr>t_vmspace := v, t_cwd := w\<rparr>), vrefs := r\<rparr>"
    "curthread k = Some c" "threads k c = Some t"
  then have "stack_ok t" using kern_inv_cur by fastforce
  then have "kern_inv (k\<lparr>threads := (threads k)(c \<mapsto> t\<lparr>t_vmspace := v, t_cwd := w\<rparr>)\<rparr>)"
    using kern_inv_update_cur [OF *(1,3), of "t\<lparr>t_vmspace := v, t_cwd := w\<rparr>"] by simp
  from kern_inv_fields [OF this, where s = "curspl k" and e = "cst_iec k" and i = "in_interrupt k"
      and l = "lbolt_counter k" and a = "active_as k" and v = r]
  show "kern_inv k'" using *(2,3) by simp
qed (auto intro: thread_fork_inv thread_exit_inv timer_interrupt_inv kern_inv_spl
    thread_yield_as_inv simp: thread_yield_def)

interpretation kthreads: invariant_of booted kstep kern_inv
  by unfold_locales (rule booted_inv, assumption, rule kstep_inv)

section \<open>Properties\<close>

text \<open>
  C18. In every state the kernel can reach, each thread structure is in exactly one place:
  running, in the run queue, among the sleepers or among the zombies. None is lost or
  duplicated, and \<open>numthreads\<close> counts those that are not zombies.
\<close>

theorem threads_in_one_place:
  assumes "reachable booted kstep k"
  shows "distinct (running k @ ready k @ asleep k @ dead k) \<and>
    dom (threads k) = set (running k @ ready k @ asleep k @ dead k) \<and>
    numthreads k = int (length (running k @ ready k @ asleep k))"
  using kthreads.reachable_inv [OF assms] by (simp add: kern_inv_def places_ok_def live_def)

definition boot_state :: "unit kern" where
  "boot_state = \<lparr>curspl = 15, cst_iec = False, in_interrupt = False, curthread = Some 0,
     threads = [0 \<mapsto> \<lparr>t_pcb = \<lparr>pcb_ininterrupt = False, pcb_resume = R_dead\<rparr>, t_name = ''<boot/menu>'',
        t_sleepaddr = None, t_stack = None, t_vmspace = None, t_cwd = None\<rparr>],
     sleepers = Some \<lparr>a_num = 0, a_max = 0, a_v = None\<rparr>, zombies = Some \<lparr>a_num = 0, a_max = 0, a_v = None\<rparr>,
     runqueue = Some \<lparr>q_size = 32, q_nextwrite = 0, q_nextread = 0, q_data = replicate 32 0\<rparr>,
     numthreads = 1, vrefs = (\<lambda>_. 0), active_as = None, lbolt_counter = 0\<rparr>"

lemma boot_state_booted: "booted boot_state"
  unfolding booted_def
  by (rule exI [of _ "\<lparr>curspl = 15, cst_iec = False, in_interrupt = False, curthread = None, threads = (\<lambda>_. None),
       sleepers = None, zombies = None, runqueue = None, numthreads = 0, vrefs = (\<lambda>_. 0), active_as = None,
       lbolt_counter = 0\<rparr>"],
     rule exI [of _ "\<lparr>curspl = 15, cst_iec = False, in_interrupt = False, curthread = None, threads = (\<lambda>_. None),
       sleepers = None, zombies = None,
       runqueue = Some \<lparr>q_size = 32, q_nextwrite = 0, q_nextread = 0, q_data = replicate 32 0\<rparr>,
       numthreads = 0, vrefs = (\<lambda>_. 0), active_as = None, lbolt_counter = 0\<rparr>"],
     intro exI [of _ True] exI [of _ "\<lambda>n. Some (replicate (n div 4) 0)"] exI [of _ 0])
    (simp add: SPL_HIGH_def kmalloc_ok_def scheduler_bootstrap_def q_create_def ptr_bytes_def
      thread_bootstrap_def array_create_def thread_create_def boot_state_def)

lemma boot_state_reachable: "reachable booted kstep boot_state"
  by (rule reach_start) (rule boot_state_booted)

theorem threads_in_one_place_witness:
  "distinct (running boot_state @ ready boot_state @ asleep boot_state @ dead boot_state) \<and>
   dom (threads boot_state) = set (running boot_state @ ready boot_state @ asleep boot_state @ dead boot_state) \<and>
   numthreads boot_state = int (length (running boot_state @ ready boot_state @ asleep boot_state))"
  by (rule threads_in_one_place) (rule boot_state_reachable)

text \<open>
  C21. Once there are two threads, going to sleep never runs out of memory: whatever
  \<open>kmalloc\<close> answers, \<open>thread_sleep\<close> in a reachable state passes its assertions and moves
  the running thread to the end of the sleepers. This is what the preallocation in
  \<open>thread_fork\<close> is for.
\<close>

theorem thread_sleep_never_fails:
  assumes "reachable booted kstep k" and "curthread k = Some p" and "2 \<le> numthreads k"
    and "curspl k > 0" and "\<not> in_interrupt k"
  shows "\<exists>k'. thread_sleep a c km k = Some (True, k') \<and> asleep k' = asleep k @ [p] \<and> ready k' = ready k \<and>
    curthread k' = None \<and> sleeps_on k' a p"
proof -
  have inv: "kern_inv k" using kthreads.reachable_inv [OF assms(1)] .
  obtain t where t: "threads k p = Some t" "stack_ok t" using kern_inv_cur [OF inv assms(2)] .
  from kern_inv_wf [OF inv] obtain sl where sl: "sleepers k = Some sl" "array_ok sl" by (rule kern_wfE)
  have "int (length (asleep k)) < sleep_cap k"
    using inv assms(2,3) by (auto simp: kern_inv_def caps_ok_def places_ok_def live_def running_def)
  then have room: "a_num sl < a_max sl"
    using sl array_ok_bounds [OF sl(2)] by (simp add: asleep_def sleep_cap_def)
  obtain sl' where sl': "array_add km p sl = Some (Inr (), sl')" "array_list sl' = array_list sl @ [p]"
    using array_add_fits [OF sl(2) room, of km p] by blast
  have stack: "check_stack (t\<lparr>t_sleepaddr := Some a\<rparr>) = Some ()" using t(2) by (simp add: stack_ok_def check_stack_def)
  show ?thesis using assms t sl sl' stack
    by (simp add: thread_sleep_def mi_switch_out_def stash_def kviews sleeps_on_def)
qed

definition ample :: "tid kmem" where
  "ample n = Some (replicate (n div 4) 0)"

definition fork_ample :: "tid \<Rightarrow> fork_mem" where
  "fork_ample p = \<lparr>fm_thread = Some p, fm_name = True, fm_stack = Some (replicate 64 0), fm_sleepers = ample,
     fm_zombies = ample, fm_prealloc = ample, fm_runnable = ample\<rparr>"

definition two_threads :: "unit kern" where
  "two_threads = snd (the (thread_fork (fork_ample 1) ''a'' boot_state))"

lemma two_threads_fork: "thread_fork (fork_ample 1) ''a'' boot_state = Some (Inr 1, two_threads)"
proof -
  have "map_option fst (thread_fork (fork_ample 1) ''a'' boot_state) = Some (Inr 1)"
    by code_simp
  then show ?thesis by (auto simp: two_threads_def)
qed

lemma two_threads_facts: "curthread two_threads = Some 0" "numthreads two_threads = 2" "curspl two_threads = 15"
  "in_interrupt two_threads = False"
  unfolding two_threads_def by code_simp+

lemma two_threads_reachable: "reachable booted kstep two_threads"
proof (rule reach_next [OF boot_state_reachable])
  have "fork_mem_ok (fork_ample 1) boot_state"
    by (simp add: fork_mem_ok_def fork_ample_def ample_def kmalloc_ok_def boot_state_def)
  then show "kstep boot_state two_threads"
    using k_fork [OF _ _ _ _ two_threads_fork] by (simp add: boot_state_def)
qed

theorem thread_sleep_never_fails_witness:
  "\<exists>k'. thread_sleep 7 () (\<lambda>_. None) two_threads = Some (True, k') \<and> asleep k' = asleep two_threads @ [0] \<and>
     ready k' = ready two_threads \<and> curthread k' = None \<and> sleeps_on k' 7 0"
  by (rule thread_sleep_never_fails [OF two_threads_reachable]) (simp_all add: two_threads_facts)

text \<open>
  C22. \<open>thread_wakeup\<close> called by a running thread with interrupts off never runs out of room in
  the run queue, and wakes exactly the sleepers on its address: they go to the end of the
  run queue in the order they slept, and the others keep their order.
\<close>

theorem thread_wakeup_wakes_all:
  assumes "reachable booted kstep k" and "curthread k = Some p" and "curspl k > 0" and "\<forall>n. kmalloc_ok (kms n)"
  shows "\<exists>k'. thread_wakeup kms a k = Some k' \<and> curthread k' = Some p \<and>
    asleep k' = filter (\<lambda>x. \<not> sleeps_on k a x) (asleep k) \<and>
    ready k' = ready k @ filter (sleeps_on k a) (asleep k)"
proof -
  have inv: "kern_inv k" using kthreads.reachable_inv [OF assms(1)] .
  have "int (length (ready k) + length (asleep k)) < queue_cap k"
    using inv assms(2) by (auto simp: kern_inv_def caps_ok_def places_ok_def live_def running_def)
  then have room: "wake_room (filter (sleeps_on k a) (asleep k)) k"
    using length_filter_le [of "sleeps_on k a" "asleep k"] unfolding wake_room_def by linarith
  show ?thesis
    by (cases rule: thread_wakeup_cases [OF kern_inv_wf [OF inv] assms(3,4) kern_inv_bounds(1) [OF inv]
        kern_inv_asleep_threads [OF inv], of a, case_names stuck woken])
      (use room assms(2) in \<open>auto simp: asleep_def ready_def\<close>)
qed

text \<open>
  \<open>thread_wakeup_one\<close> called by a running thread with interrupts off moves the first
  sleeper on its address, and no other, to the end of the run queue; with nobody asleep on
  the address it does nothing.
\<close>

theorem thread_wakeup_one_wakes_first:
  assumes "reachable booted kstep k" and "curthread k = Some p" and "curspl k > 0" and "kmalloc_ok km"
  shows "(\<forall>x \<in> set (asleep k). \<not> sleeps_on k a x) \<and> thread_wakeup_one km a k = Some k \<or>
    (\<exists>xs w ys k'. asleep k = xs @ w # ys \<and> sleeps_on k a w \<and> (\<forall>x \<in> set xs. \<not> sleeps_on k a x) \<and>
       thread_wakeup_one km a k = Some k' \<and> asleep k' = xs @ ys \<and> ready k' = ready k @ [w])"
proof -
  have inv: "kern_inv k" using kthreads.reachable_inv [OF assms(1)] .
  have bound: "int (length (ready k) + length (asleep k)) < queue_cap k"
    using inv assms(2) by (auto simp: kern_inv_def caps_ok_def places_ok_def live_def running_def)
  show ?thesis
  proof (cases rule: thread_wakeup_one_cases [OF kern_inv_wf [OF inv] assms(3,4) kern_inv_bounds(2) [OF inv],
        of a, case_names none stuck woken])
    case stuck
    then have "asleep k = []" using bound by simp
    moreover from kern_inv_wf [OF inv] obtain sl where "sleepers k = Some sl" "array_ok sl" by (rule kern_wfE)
    ultimately have "array_scan (sleeps_on k a) sl = Some None" "sleepers k = Some sl"
      using array_scan_none_iff [of sl "sleeps_on k a"] by (simp_all add: asleep_def)
    then show ?thesis using stuck assms(3) by (simp add: thread_wakeup_one_def)
  next
    case (woken xs w ys sl' q')
    have "asleep (k\<lparr>sleepers := Some sl', runqueue := Some q'\<rparr>) = xs @ ys"
        "ready (k\<lparr>sleepers := Some sl', runqueue := Some q'\<rparr>) = ready k @ [w]"
      using woken by (simp_all add: asleep_def ready_def)
    then show ?thesis using woken(1-4) by blast
  qed blast
qed

theorem thread_wakeup_one_wakes_first_witness:
  "(\<forall>x \<in> set (asleep two_threads). \<not> sleeps_on two_threads 7 x) \<and> thread_wakeup_one (\<lambda>_. None) 7 two_threads = Some two_threads \<or>
    (\<exists>xs w ys k'. asleep two_threads = xs @ w # ys \<and> sleeps_on two_threads 7 w \<and> (\<forall>x \<in> set xs. \<not> sleeps_on two_threads 7 x) \<and>
       thread_wakeup_one (\<lambda>_. None) 7 two_threads = Some k' \<and> asleep k' = xs @ ys \<and> ready k' = ready two_threads @ [w])"
  by (rule thread_wakeup_one_wakes_first [OF two_threads_reachable, of 0]) (simp_all add: two_threads_facts kmalloc_ok_def)

text \<open>
  C23. The scheduler is round robin and never panics: in a reachable state with no thread
  running, \<open>dispatch\<close> returns. It idles exactly when the run queue is empty; otherwise the
  head of the run queue becomes the running thread, the rest keeps its order, no thread
  comes back from the dead, and the assertions of \<open>exorcise\<close> and \<open>thread_destroy\<close> hold.
\<close>

theorem dispatch_round_robin:
  assumes "reachable booted kstep k" and "curthread k = None"
  shows "ready k = [] \<and> dispatch k = Some (Idle, k) \<or>
    (\<exists>p ps x k'. ready k = p # ps \<and> dispatch k = Some (x, k') \<and> curthread k' = Some p \<and> ready k' = ps \<and>
       asleep k' = asleep k \<and> numthreads k' = numthreads k \<and> set (dead k') \<subseteq> set (dead k))"
proof -
  have inv: "kern_inv k" using kthreads.reachable_inv [OF assms(1)] .
  show ?thesis
  proof (cases rule: dispatch_cases [OF inv assms(2), case_names idle run])
    case (run p ps x k')
    then have "set (dead k') \<subseteq> set (dead k)" by auto
    then show ?thesis using run by blast
  qed blast
qed

definition one_asleep :: "unit kern" where
  "one_asleep = snd (the (thread_sleep 7 () (\<lambda>_. None) two_threads))"

lemma one_asleep_reachable: "reachable booted kstep one_asleep" and one_asleep_cur: "curthread one_asleep = None"
proof -
  have "map_option fst (thread_sleep 7 () (\<lambda>_. None) two_threads) = Some True"
    unfolding two_threads_def by code_simp
  then have step: "thread_sleep 7 () (\<lambda>_. None) two_threads = Some (True, one_asleep)"
    by (auto simp: one_asleep_def)
  show "reachable booted kstep one_asleep"
    by (rule reach_next [OF two_threads_reachable]) (rule k_sleep [OF _ step], simp add: kmalloc_ok_def)
  show "curthread one_asleep = None" unfolding one_asleep_def two_threads_def by code_simp
qed

theorem dispatch_round_robin_witness:
  "ready one_asleep = [] \<and> dispatch one_asleep = Some (Idle, one_asleep) \<or>
    (\<exists>p ps x k'. ready one_asleep = p # ps \<and> dispatch one_asleep = Some (x, k') \<and> curthread k' = Some p \<and> ready k' = ps \<and>
       asleep k' = asleep one_asleep \<and> numthreads k' = numthreads one_asleep \<and> set (dead k') \<subseteq> set (dead one_asleep))"
  by (rule dispatch_round_robin) (rule one_asleep_reachable, rule one_asleep_cur)

text \<open>The other thread runs, with interrupts off.\<close>

definition other_runs :: "unit kern" where
  "other_runs = snd (splx 15 (snd (the (dispatch one_asleep))))"

lemma other_runs_facts: "curthread other_runs = Some 1" "curspl other_runs > 0" "asleep other_runs = [0]" "sleeps_on other_runs 7 0" "ready other_runs = []"
  unfolding other_runs_def one_asleep_def two_threads_def by code_simp+

lemma other_runs_reachable: "reachable booted kstep other_runs"
proof -
  have "dispatch one_asleep \<noteq> None" unfolding one_asleep_def two_threads_def by code_simp
  then obtain x k where k: "dispatch one_asleep = Some (x, k)" by auto
  have "curthread (snd (the (dispatch one_asleep))) = Some 1" unfolding one_asleep_def two_threads_def by code_simp
  then have "kstep k (snd (splx 15 k))" using k by (intro k_splx) simp
  then show ?thesis using reach_next [OF reach_next [OF one_asleep_reachable k_dispatch [OF one_asleep_cur k]]] k by (simp add: other_runs_def)
qed

theorem thread_wakeup_wakes_all_witness:
  "\<exists>k'. thread_wakeup (\<lambda>_ _. None) 7 other_runs = Some k' \<and> curthread k' = Some 1 \<and> asleep k' = [] \<and> ready k' = [0]"
  using thread_wakeup_wakes_all [OF other_runs_reachable other_runs_facts(1,2), of "\<lambda>_ _. None" 7] by (simp add: other_runs_facts kmalloc_ok_def)

text \<open>
  C25. \<open>thread_fork\<close> in a reachable state either creates one thread or leaves no trace. On
  success the new thread is last in the run queue, starts in \<open>mi_threadstart\<close> with the magic
  number on its stack, and shares and references the parent's directory. On failure it
  returns \<open>ENOMEM\<close>, and the threads, the three lists, the reference counts, \<open>numthreads\<close> and
  the priority are as before, whichever of its allocations failed.
\<close>

theorem thread_fork_all_or_nothing:
  assumes "reachable booted kstep k" and "curthread k = Some c" and "threads k c = Some ct" and "fork_mem_ok m k"
    and "\<forall>v. t_cwd ct = Some v \<longrightarrow> 0 < vrefs k v"
  shows "(\<exists>k'. thread_fork m name k = Some (Inl ENOMEM, k') \<and> threads k' = threads k \<and> vrefs k' = vrefs k \<and>
       ready k' = ready k \<and> asleep k' = asleep k \<and> dead k' = dead k \<and> numthreads k' = numthreads k \<and>
       curthread k' = Some c \<and> curspl k' = curspl k) \<or>
    (\<exists>p t k'. thread_fork m name k = Some (Inr p, k') \<and> threads k p = None \<and> threads k' = (threads k)(p \<mapsto> t) \<and>
       check_stack t = Some () \<and> pcb_resume (t_pcb t) = R_start \<and> t_name t = name \<and> t_cwd t = t_cwd ct \<and>
       vrefs k' = (case t_cwd ct of None \<Rightarrow> vrefs k | Some v \<Rightarrow> (vrefs k)(v := vrefs k v + 1)) \<and>
       ready k' = ready k @ [p] \<and> asleep k' = asleep k \<and> dead k' = dead k \<and> numthreads k' = numthreads k + 1 \<and>
       curthread k' = Some c \<and> curspl k' = curspl k)"
proof -
  have inv: "kern_inv k" using kthreads.reachable_inv [OF assms(1)] .
  have refs: "\<forall>v. t_cwd ct = Some v \<longrightarrow> 0 \<le> vrefs k v" using assms(5) by auto
  show ?thesis
  proof (cases rule: thread_fork_cases [OF inv assms(2-4) refs, of name, case_names nomem born])
    case (nomem sl zs q)
    then show ?thesis using assms(2) by (auto simp: containers_def kviews)
  next
    case (born p stack sl zs q)
    let ?t = "new_thread name stack (t_cwd ct) :: 'a thread"
    let ?k' = "snd (splx (curspl k) (k\<lparr>cst_iec := False, vrefs := cwd_refs (t_cwd ct) (vrefs k),
      sleepers := Some sl, zombies := Some zs, runqueue := Some q, threads := (threads k)(p \<mapsto> ?t),
      numthreads := numthreads k + 1\<rparr>))"
    have "ready ?k' = ready k @ [p]" "asleep ?k' = asleep k" "dead ?k' = dead k" "curthread ?k' = Some c"
      "vrefs ?k' = (case t_cwd ct of None \<Rightarrow> vrefs k | Some v \<Rightarrow> (vrefs k)(v := vrefs k v + 1))"
      using born(6,7) assms(2) by (simp_all add: containers_def kviews cwd_refs_def split: option.split)
    moreover have "check_stack ?t = Some ()" "pcb_resume (t_pcb ?t) = R_start" "t_name ?t = name" "t_cwd ?t = t_cwd ct"
      by (simp_all add: new_thread_def check_stack_def stack_magic_def)
    ultimately show ?thesis using born(3,5)
      by (intro disjI2 exI [of _ p] exI [of _ ?t] exI [of _ ?k'] conjI) simp_all
  qed
qed

theorem thread_fork_all_or_nothing_witness:
  "\<exists>ct :: unit thread. (\<exists>k'. thread_fork (fork_ample 1) ''a'' boot_state = Some (Inl ENOMEM, k') \<and> threads k' = threads boot_state \<and>
       vrefs k' = vrefs boot_state \<and> ready k' = ready boot_state \<and> asleep k' = asleep boot_state \<and> dead k' = dead boot_state \<and>
       numthreads k' = numthreads boot_state \<and> curthread k' = Some 0 \<and> curspl k' = curspl boot_state) \<or>
    (\<exists>p t k'. thread_fork (fork_ample 1) ''a'' boot_state = Some (Inr p, k') \<and> threads boot_state p = None \<and>
       threads k' = (threads boot_state)(p \<mapsto> t) \<and> check_stack t = Some () \<and> pcb_resume (t_pcb t) = R_start \<and>
       t_name t = ''a'' \<and> t_cwd t = t_cwd ct \<and>
       vrefs k' = (case t_cwd ct of None \<Rightarrow> vrefs boot_state | Some v \<Rightarrow> (vrefs boot_state)(v := vrefs boot_state v + 1)) \<and>
       ready k' = ready boot_state @ [p] \<and> asleep k' = asleep boot_state \<and> dead k' = dead boot_state \<and>
       numthreads k' = numthreads boot_state + 1 \<and> curthread k' = Some 0 \<and> curspl k' = curspl boot_state)"
proof -
  obtain ct where ct: "threads boot_state 0 = Some ct" "t_cwd ct = None" by (simp add: boot_state_def)
  have m: "fork_mem_ok (fork_ample 1) boot_state"
    by (simp add: fork_mem_ok_def fork_ample_def ample_def kmalloc_ok_def boot_state_def)
  have c: "curthread boot_state = Some 0" by (simp add: boot_state_def)
  show ?thesis
    by (rule exI [of _ ct], rule thread_fork_all_or_nothing [OF boot_state_reachable c ct(1) m]) (simp add: ct)
qed

text \<open>
  The run queue holds one entry less than its size, and \<open>scheduler_preallocate\<close> reserves a
  size of \<open>numthreads\<close>: with as many threads as the ring has slots, the queue is full while
  one of them runs.
\<close>

primrec forks :: "nat \<Rightarrow> unit kern option" where
  "forks 0 = Some boot_state"
| "forks (Suc n) = do {
     k \<leftarrow> forks n;
     (r, k') \<leftarrow> thread_fork (fork_ample (Suc n)) ''t'' k;
     kassert (r = Inr (Suc n));
     Some k'
   }"

lemma forks_reachable:
  "n \<le> 100 \<Longrightarrow> forks n = Some k \<Longrightarrow> reachable booted kstep k \<and> curthread k = Some 0 \<and> dom (threads k) = {..n} \<and>
     (\<exists>ct. threads k 0 = Some ct \<and> t_cwd ct = None)"
proof (induction n arbitrary: k)
  case 0
  then show ?case using boot_state_reachable by (auto simp: boot_state_def split: if_splits)
next
  case (Suc n)
  then obtain k0 where f: "forks n = Some k0" "thread_fork (fork_ample (Suc n)) ''t'' k0 = Some (Inr (Suc n), k)"
    by (auto simp: bind_Some_iff split: if_splits)
  with Suc.IH [of k0] Suc.prems(1) obtain ct where k0: "reachable booted kstep k0" "curthread k0 = Some 0"
      "dom (threads k0) = {..n}" and ct: "threads k0 0 = Some ct" "t_cwd ct = None"
    by auto
  have new: "threads k0 (Suc n) = None" using k0(3) by (metis atMost_iff domIff lessI not_le)
  then have m: "fork_mem_ok (fork_ample (Suc n)) k0"
    using Suc.prems(1) by (simp add: fork_mem_ok_def fork_ample_def ample_def kmalloc_ok_def)
  have refs: "\<forall>v. t_cwd ct = Some v \<longrightarrow> 0 \<le> vrefs k0 v" using ct by simp
  have "reachable booted kstep k" using reach_next [OF k0(1)] k_fork [OF k0(2) ct(1) refs m f(2)] by blast
  moreover have "curthread k = Some 0 \<and> dom (threads k) = {..Suc n} \<and> threads k 0 = Some ct"
  proof (cases rule: thread_fork_cases [OF kthreads.reachable_inv [OF k0(1)] k0(2) ct(1) m refs, of "''t''", case_names nomem born])
    case nomem
    then show ?thesis using f(2) by auto
  next
    case (born p stack sl zs q)
    then have "p = Suc n" "threads k = (threads k0)(p \<mapsto> new_thread ''t'' stack (t_cwd ct))" "curthread k = curthread k0"
      using f(2) by simp_all
    then show ?thesis using k0 ct by (simp add: atMost_Suc)
  qed
  ultimately show ?case using ct(2) by blast
qed

text \<open>
  C38. The comment in \<open>mi_switch\<close> that stashing the current thread should not fail, because of
  the preallocation in \<open>thread_fork\<close>, does not hold for the run queue. There is a reachable
  state, 31 forks after boot, in which a plain \<open>thread_yield\<close> of the running thread fails
  its assertion if \<open>kmalloc\<close> returns null: the ring of 32 slots holds 31 threads and the
  running one is the 32nd.
\<close>

theorem thread_yield_may_panic:
  "\<exists>k :: unit kern. reachable booted kstep k \<and> curthread k \<noteq> None \<and> thread_yield (\<lambda>_. None) k = None"
proof -
  have "map_option (\<lambda>k. Option.is_none (thread_yield (\<lambda>_. None) k)) (forks 31) = Some True" by code_simp
  then obtain k where k: "forks 31 = Some k" "thread_yield (\<lambda>_. None) k = None"
    by (auto simp: Option.is_none_def)
  then show ?thesis using forks_reachable [of 31 k] by auto
qed

end
