(* ===== verification/Synch.thy ===== *)
theory Synch
  imports KThreadSys
begin

text \<open>
  Semaphores, locks and condition variables of \<open>thread/synch.c\<close>, and \<open>clocksleep\<close> of
  \<open>thread/hardclock.c\<close>, over the thread system.

  Each primitive disables interrupts, so what it does up to the point where it sleeps or
  returns is one step. Where a thread sleeps, the rest of the primitive is a value of type
  \<open>cont\<close>, kept in its pcb by \<open>thread_sleep\<close>, and \<open>run_cont\<close> goes on with it when the thread is
  dispatched again. The objects live in one store, so that no address is two objects. An
  operation returns the events it completed: a \<open>P\<close>, a \<open>V\<close>, an acquisition or a release.
\<close>

section \<open>Objects\<close>

record semaphore =
  sem_name :: string
  sem_count :: int

record lock =
  lk_name :: string
  lk_locked :: int
  lk_owner :: "tid option"

record cv =
  cv_name :: string

datatype obj = Obj_sem semaphore | Obj_lock lock | Obj_cv cv

text \<open>What remains to be done by a thread that sleeps in one of the primitives.\<close>

datatype cont =
    C_P addr int
  | C_acquire addr int "int option"
  | C_cv addr int
  | C_clock int int
  | C_other

datatype event =
    E_P addr | E_V addr | E_acquire addr tid | E_release addr tid | E_sem_create addr int | E_sem_destroy addr

record synch =
  ks :: "cont kern"
  objs :: "addr \<Rightarrow> obj option"

definition get_sem :: "synch \<Rightarrow> addr \<Rightarrow> semaphore option" where
  "get_sem y a = (case objs y a of Some (Obj_sem s) \<Rightarrow> Some s | _ \<Rightarrow> None)"

definition get_lock :: "synch \<Rightarrow> addr \<Rightarrow> lock option" where
  "get_lock y a = (case objs y a of Some (Obj_lock l) \<Rightarrow> Some l | _ \<Rightarrow> None)"

definition get_cv :: "synch \<Rightarrow> addr \<Rightarrow> cv option" where
  "get_cv y a = (case objs y a of Some (Obj_cv c) \<Rightarrow> Some c | _ \<Rightarrow> None)"

definition put_obj :: "addr \<Rightarrow> obj \<Rightarrow> synch \<Rightarrow> synch" where
  "put_obj a ob y = y\<lparr>objs := (objs y)(a \<mapsto> ob)\<rparr>"

text \<open>Raising and restoring the priority of the thread system.\<close>

definition y_splhigh :: "synch \<Rightarrow> int \<times> synch" where
  "y_splhigh y = (let (s, k) = splhigh (ks y) in (s, y\<lparr>ks := k\<rparr>))"

definition y_splx :: "int \<Rightarrow> synch \<Rightarrow> synch" where
  "y_splx s y = y\<lparr>ks := snd (splx s (ks y))\<rparr>"

section \<open>Semaphores\<close>

text \<open>\<open>mem\<close> is the address \<open>kmalloc\<close> returns for the structure, \<open>namemem\<close> whether \<open>kstrdup\<close> succeeds.\<close>

definition sem_create :: "addr option \<Rightarrow> bool \<Rightarrow> string \<Rightarrow> int \<Rightarrow> synch \<Rightarrow> (addr option \<times> synch) option" where
  "sem_create mem namemem name initial_count y = do {
     kassert (initial_count \<ge> 0);
     Some (case mem of
         None \<Rightarrow> (None, y)
       | Some a \<Rightarrow> if \<not> namemem then (None, y)
           else (Some a, put_obj a (Obj_sem \<lparr>sem_name = name, sem_count = initial_count\<rparr>) y))
   }"

definition sem_destroy :: "addr \<Rightarrow> synch \<Rightarrow> synch option" where
  "sem_destroy a y = do {
     _ \<leftarrow> get_sem y a;
     let (spl, y1) = y_splhigh y;
     hs \<leftarrow> thread_hassleepers a (ks y1);
     kassert (\<not> hs);
     let y2 = y_splx spl y1;
     Some (y2\<lparr>objs := (objs y2)(a := None)\<rparr>)
   }"

text \<open>The loop of \<open>P\<close> and what follows it.\<close>

definition P_loop :: "tid kmem \<Rightarrow> addr \<Rightarrow> int \<Rightarrow> synch \<Rightarrow> (event list \<times> synch) option" where
  "P_loop km a spl y = do {
     s \<leftarrow> get_sem y a;
     if sem_count s = 0 then do {
       (_, k) \<leftarrow> thread_sleep a (C_P a spl) km (ks y);
       Some ([], y\<lparr>ks := k\<rparr>)
     }
     else do {
       kassert (sem_count s > 0);
       Some ([E_P a], y_splx spl (put_obj a (Obj_sem (s\<lparr>sem_count := sem_count s - 1\<rparr>)) y))
     }
   }"

definition sem_P :: "tid kmem \<Rightarrow> addr \<Rightarrow> synch \<Rightarrow> (event list \<times> synch) option" where
  "sem_P km a y = do {
     _ \<leftarrow> get_sem y a;
     kassert (\<not> in_interrupt (ks y));
     let (spl, y1) = y_splhigh y;
     P_loop km a spl y1
   }"

definition sem_V :: "(nat \<Rightarrow> tid kmem) \<Rightarrow> addr \<Rightarrow> synch \<Rightarrow> (event list \<times> synch) option" where
  "sem_V kms a y = do {
     let (spl, y1) = y_splhigh y;
     s \<leftarrow> get_sem y1 a;
     n \<leftarrow> c_int (sem_count s + 1);
     kassert (n > 0);
     let y2 = put_obj a (Obj_sem (s\<lparr>sem_count := n\<rparr>)) y1;
     k \<leftarrow> thread_wakeup kms a (ks y2);
     Some ([E_V a], y_splx spl (y2\<lparr>ks := k\<rparr>))
   }"

section \<open>Locks\<close>

definition lock_create :: "addr option \<Rightarrow> bool \<Rightarrow> string \<Rightarrow> synch \<Rightarrow> addr option \<times> synch" where
  "lock_create mem namemem name y = (case mem of
       None \<Rightarrow> (None, y)
     | Some a \<Rightarrow> if \<not> namemem then (None, y)
         else (Some a, put_obj a (Obj_lock \<lparr>lk_name = name, lk_locked = 0, lk_owner = None\<rparr>) y))"

definition lock_destroy :: "addr \<Rightarrow> synch \<Rightarrow> synch option" where
  "lock_destroy a y = do {
     l \<leftarrow> get_lock y a;
     let (spl, y1) = y_splhigh y;
     kassert (lk_locked l = 0);
     kassert (lk_owner l = None);
     hs \<leftarrow> thread_hassleepers a (ks y1);
     kassert (\<not> hs);
     Some (y_splx spl (y1\<lparr>objs := (objs y1)(a := None)\<rparr>))
   }"

text \<open>
  The loop of \<open>lock_acquire\<close> and what follows it. \<open>outer\<close> is the priority \<open>cv_wait\<close> restores
  when it is the caller.
\<close>

definition acquire_loop ::
  "tid kmem \<Rightarrow> addr \<Rightarrow> int \<Rightarrow> int option \<Rightarrow> synch \<Rightarrow> (event list \<times> synch) option" where
  "acquire_loop km a spl outer y = do {
     l \<leftarrow> get_lock y a;
     if lk_locked l = 1 then do {
       (_, k) \<leftarrow> thread_sleep a (C_acquire a spl outer) km (ks y);
       Some ([], y\<lparr>ks := k\<rparr>)
     }
     else do {
       kassert (lk_locked l = 0);
       kassert (lk_owner l = None);
       cur \<leftarrow> curthread (ks y);
       let y1 = y_splx spl (put_obj a (Obj_lock (l\<lparr>lk_locked := 1, lk_owner := Some cur\<rparr>)) y);
       Some ([E_acquire a cur], case outer of None \<Rightarrow> y1 | Some s \<Rightarrow> y_splx s y1)
     }
   }"

definition lock_acquire_for :: "int option \<Rightarrow> tid kmem \<Rightarrow> addr \<Rightarrow> synch \<Rightarrow> (event list \<times> synch) option" where
  "lock_acquire_for outer km a y = do {
     _ \<leftarrow> get_lock y a;
     kassert (\<not> in_interrupt (ks y));
     let (spl, y1) = y_splhigh y;
     acquire_loop km a spl outer y1
   }"

definition lock_acquire :: "tid kmem \<Rightarrow> addr \<Rightarrow> synch \<Rightarrow> (event list \<times> synch) option" where
  "lock_acquire = lock_acquire_for None"

definition lock_release :: "(nat \<Rightarrow> tid kmem) \<Rightarrow> addr \<Rightarrow> synch \<Rightarrow> (event list \<times> synch) option" where
  "lock_release kms a y = do {
     let (spl, y1) = y_splhigh y;
     l \<leftarrow> get_lock y1 a;
     kassert (lk_locked l = 1);
     cur \<leftarrow> curthread (ks y1);
     kassert (lk_owner l = Some cur);
     let y2 = put_obj a (Obj_lock (l\<lparr>lk_locked := 0, lk_owner := None\<rparr>)) y1;
     k \<leftarrow> thread_wakeup kms a (ks y2);
     Some ([E_release a cur], y_splx spl (y2\<lparr>ks := k\<rparr>))
   }"

definition lock_do_i_hold :: "addr \<Rightarrow> synch \<Rightarrow> (bool \<times> synch) option" where
  "lock_do_i_hold a y = do {
     let (spl, y1) = y_splhigh y;
     l \<leftarrow> get_lock y1 a;
     let ihold = (lk_locked l \<noteq> 0 \<and> lk_owner l = curthread (ks y1));
     Some (ihold, y_splx spl y1)
   }"

section \<open>Condition variables\<close>

definition cv_create :: "addr option \<Rightarrow> bool \<Rightarrow> string \<Rightarrow> synch \<Rightarrow> addr option \<times> synch" where
  "cv_create mem namemem name y = (case mem of
       None \<Rightarrow> (None, y)
     | Some a \<Rightarrow> if \<not> namemem then (None, y) else (Some a, put_obj a (Obj_cv \<lparr>cv_name = name\<rparr>) y))"

definition cv_destroy :: "addr \<Rightarrow> synch \<Rightarrow> synch option" where
  "cv_destroy a y = do {
     _ \<leftarrow> get_cv y a;
     let (spl, y1) = y_splhigh y;
     hs \<leftarrow> thread_hassleepers a (ks y1);
     kassert (\<not> hs);
     Some (y_splx spl (y1\<lparr>objs := (objs y1)(a := None)\<rparr>))
   }"

text \<open>The two assertions that the current thread holds the lock.\<close>

definition holds_lock :: "addr \<Rightarrow> synch \<Rightarrow> unit option" where
  "holds_lock a y = do {
     l \<leftarrow> get_lock y a;
     kassert (lk_locked l = 1);
     cur \<leftarrow> curthread (ks y);
     kassert (lk_owner l = Some cur)
   }"

definition cv_wait ::
  "(nat \<Rightarrow> tid kmem) \<Rightarrow> tid kmem \<Rightarrow> addr \<Rightarrow> addr \<Rightarrow> synch \<Rightarrow> (event list \<times> synch) option" where
  "cv_wait kms km cva a y = do {
     _ \<leftarrow> get_cv y cva;
     kassert (\<not> in_interrupt (ks y));
     let (spl, y1) = y_splhigh y;
     _ \<leftarrow> holds_lock a y1;
     (es, y2) \<leftarrow> lock_release kms a y1;
     (_, k) \<leftarrow> thread_sleep cva (C_cv a spl) km (ks y2);
     Some (es, y2\<lparr>ks := k\<rparr>)
   }"

definition cv_signal :: "tid kmem \<Rightarrow> addr \<Rightarrow> addr \<Rightarrow> synch \<Rightarrow> (event list \<times> synch) option" where
  "cv_signal km cva a y = do {
     _ \<leftarrow> get_cv y cva;
     let (spl, y1) = y_splhigh y;
     _ \<leftarrow> holds_lock a y1;
     k \<leftarrow> thread_wakeup_one km cva (ks y1);
     Some ([], y_splx spl (y1\<lparr>ks := k\<rparr>))
   }"

definition cv_broadcast :: "(nat \<Rightarrow> tid kmem) \<Rightarrow> addr \<Rightarrow> addr \<Rightarrow> synch \<Rightarrow> (event list \<times> synch) option" where
  "cv_broadcast kms cva a y = do {
     _ \<leftarrow> get_cv y cva;
     let (spl, y1) = y_splhigh y;
     _ \<leftarrow> holds_lock a y1;
     k \<leftarrow> thread_wakeup kms cva (ks y1);
     Some ([], y_splx spl (y1\<lparr>ks := k\<rparr>))
   }"

section \<open>Sleeping for seconds, and going on after a sleep\<close>

text \<open>The loop of \<open>clocksleep\<close>: \<open>num_secs\<close> more sleeps on \<open>lbolt\<close>.\<close>

definition clock_loop :: "addr \<Rightarrow> tid kmem \<Rightarrow> int \<Rightarrow> int \<Rightarrow> synch \<Rightarrow> (event list \<times> synch) option" where
  "clock_loop lbolt km num_secs s y =
     (if num_secs > 0 then do {
        (_, k) \<leftarrow> thread_sleep lbolt (C_clock (num_secs - 1) s) km (ks y);
        Some ([], y\<lparr>ks := k\<rparr>)
      }
      else Some ([], y_splx s y))"

definition clocksleep :: "addr \<Rightarrow> tid kmem \<Rightarrow> int \<Rightarrow> synch \<Rightarrow> (event list \<times> synch) option" where
  "clocksleep lbolt km num_secs y = (let (s, y1) = y_splhigh y in clock_loop lbolt km num_secs s y1)"

definition run_cont :: "addr \<Rightarrow> tid kmem \<Rightarrow> cont \<Rightarrow> synch \<Rightarrow> (event list \<times> synch) option" where
  "run_cont lbolt km c y = (case c of
     C_P a spl \<Rightarrow> P_loop km a spl y
   | C_acquire a spl outer \<Rightarrow> acquire_loop km a spl outer y
   | C_cv a spl \<Rightarrow> lock_acquire_for (Some spl) km a y
   | C_clock n s \<Rightarrow> clock_loop lbolt km n s y
   | C_other \<Rightarrow> Some ([], y))"

text \<open>Dispatching a thread and letting it run on to the end of the primitive it slept in.\<close>

definition y_dispatch :: "addr \<Rightarrow> tid kmem \<Rightarrow> synch \<Rightarrow> (event list \<times> synch) option" where
  "y_dispatch lbolt km y = do {
     (x, k) \<leftarrow> dispatch (ks y);
     case x of
       Woken c \<Rightarrow> run_cont lbolt km c (y\<lparr>ks := k\<rparr>)
     | _ \<Rightarrow> Some ([], y\<lparr>ks := k\<rparr>)
   }"

end
