(* ===== verification/SynchInv.thy ===== *)
theory SynchInv
  imports Synch
begin

text \<open>
  What the primitives of \<open>synch.c\<close> do to the threads and the objects: the threads waiting on an
  address (\<open>waiters\<close>), how each operation of the thread system changes them, and that every step
  of a primitive is one of the shapes of \<open>effect\<close>.
\<close>

section \<open>Who waits on an address\<close>

definition waiters :: "'c kern \<Rightarrow> addr \<Rightarrow> tid list" where
  "waiters k a = filter (sleeps_on k a) (asleep k)"

lemma waiters_cong: "asleep k' = asleep k \<Longrightarrow> \<forall>p \<in> set (asleep k). threads k' p = threads k p \<Longrightarrow> waiters k' a = waiters k a"
  unfolding waiters_def by (auto simp: sleeps_on_def intro!: filter_cong)

lemma waiters_splx [simp]: "waiters (snd (splx s k)) = waiters k"
  by (rule ext, rule waiters_cong) (simp_all add: asleep_def)

lemma waiters_high [simp]: "waiters (k\<lparr>curspl := s, cst_iec := e\<rparr>) = waiters k"
  by (rule ext, rule waiters_cong) (simp_all add: asleep_def)

lemma thread_sleep_waiters:
  assumes inv: "kern_inv k" and km: "kmalloc_ok km" and ok: "thread_sleep a c km k = Some (b, k')"
  obtains cur where "curthread k = Some cur" and "waiters k' x = waiters k x @ (if x = a then [cur] else [])"
proof -
  obtain cur t where cur: "curthread k = Some cur" "threads k cur = Some t"
    using ok by (auto simp: thread_sleep_def bind_Some_iff split: if_splits)
  let ?t = "t\<lparr>t_sleepaddr := Some a\<rparr>"
  let ?k = "k\<lparr>threads := (threads k)(cur \<mapsto> ?t)\<rparr>"
  have st: "stack_ok ?t" using kern_inv_cur [OF inv cur(1)] cur(2) by auto
  have inv1: "kern_inv ?k" using kern_inv_update_cur [OF inv cur(1) st] .
  have cur1: "curthread ?k = Some cur" "threads ?k cur = Some ?t" using cur by simp_all
  have out: "mi_switch_out S_SLEEP (R_sleep c) km ?k = Some (b, k')" and spl: "curspl ?k > 0"
    using ok cur by (auto simp: thread_sleep_def mi_switch_out_def split: if_splits)
  have new: "cur \<notin> set (asleep k)"
    using inv cur(1) by (auto simp: kern_inv_def places_ok_def live_def running_def)
  have "waiters k' x = waiters k x @ (if x = a then [cur] else [])"
  proof (cases rule: stash_sleep_cases [OF kern_inv_wf [OF inv1] spl cur1 st km kern_inv_bounds(3) [OF inv1],
        of "R_sleep c", case_names stuck out])
    case stuck
    then show ?thesis using out by simp
  next
    case (out a')
    then have as: "asleep k' = asleep k @ [cur]" and th: "\<forall>p. p \<noteq> cur \<longrightarrow> threads k' p = threads k p"
      and on: "sleeps_on k' x cur \<longleftrightarrow> x = a"
      using \<open>mi_switch_out S_SLEEP (R_sleep c) km ?k = Some (b, k')\<close> by (auto simp: asleep_def sleeps_on_def)
    have "filter (sleeps_on k' x) (asleep k) = waiters k x"
      unfolding waiters_def using th new by (auto simp: sleeps_on_def intro!: filter_cong)
    then show ?thesis using on by (simp add: waiters_def [of k'] as)
  qed
  then show ?thesis using that cur(1) by blast
qed

lemma thread_sleep_others:
  assumes "kern_inv k" and "kmalloc_ok km" and "thread_sleep a c km k = Some (b, k')" and "x \<noteq> a"
  shows "waiters k' x = waiters k x"
  by (rule thread_sleep_waiters [OF assms(1-3), of x]) (simp add: assms(4))

lemma thread_wakeup_waiters:
  assumes inv: "kern_inv k" and km: "\<forall>n. kmalloc_ok (kms n)" and ok: "thread_wakeup kms a k = Some k'"
  shows "waiters k' x = (if x = a then [] else waiters k x)" and "ready k' = ready k @ waiters k a"
proof -
  have spl: "curspl k > 0" using ok by (auto simp: thread_wakeup_def split: if_splits)
  have "waiters k' x = (if x = a then [] else waiters k x) \<and> ready k' = ready k @ waiters k a"
  proof (cases rule: thread_wakeup_cases [OF kern_inv_wf [OF inv] spl km kern_inv_bounds(1) [OF inv]
      kern_inv_asleep_threads [OF inv], of a, case_names stuck woken])
    case stuck
    then show ?thesis using ok by simp
  next
    case (woken sl' q')
    then have "asleep k' = filter (\<lambda>p. \<not> sleeps_on k a p) (asleep k)" "sleeps_on k' = sleeps_on k"
        "ready k' = ready k @ waiters k a"
      using ok by (auto simp: asleep_def ready_def waiters_def sleeps_on_def fun_eq_iff)
    moreover have "x \<noteq> a \<Longrightarrow> sleeps_on k x p \<and> \<not> sleeps_on k a p \<longleftrightarrow> sleeps_on k x p" for p
      by (auto simp: sleeps_on_def split: option.splits)
    ultimately show ?thesis by (auto simp: waiters_def intro: filter_cong)
  qed
  then show "waiters k' x = (if x = a then [] else waiters k x)" and "ready k' = ready k @ waiters k a" by auto
qed

lemma thread_wakeup_one_waiters:
  assumes inv: "kern_inv k" and km: "kmalloc_ok km" and ok: "thread_wakeup_one km a k = Some k'"
  shows "waiters k' x = (if x = a then tl (waiters k a) else waiters k x)"
proof -
  have spl: "curspl k > 0" using ok by (auto simp: thread_wakeup_one_def split: if_splits)
  show ?thesis
  proof (cases rule: thread_wakeup_one_cases [OF kern_inv_wf [OF inv] spl km kern_inv_bounds(2) [OF inv],
        of a, case_names none stuck woken])
    case none
    then show ?thesis using ok by (auto simp: waiters_def filter_empty_conv)
  next
    case stuck
    then show ?thesis using ok by simp
  next
    case (woken xs p ys sl' q')
    then have "asleep k' = xs @ ys" "sleeps_on k' = sleeps_on k"
      using ok by (auto simp: asleep_def sleeps_on_def fun_eq_iff)
    moreover have "x \<noteq> a \<Longrightarrow> \<not> sleeps_on k x p"
      using woken(2) by (auto simp: sleeps_on_def split: option.splits)
    moreover have "filter (sleeps_on k a) xs = []" using woken(3) by (simp add: filter_empty_conv)
    ultimately show ?thesis using woken(1,2) by (simp add: waiters_def)
  qed
qed

lemma dispatch_waiters:
  assumes inv: "kern_inv k" and cur: "curthread k = None" and ok: "dispatch k = Some (x, k')"
  shows "waiters k' a = waiters k a"
  by (cases rule: dispatch_cases [OF inv cur, case_names idle run]) (use ok in \<open>auto intro: waiters_cong\<close>)

text \<open>Operations that put nobody to sleep leave the sleepers and their entries alone.\<close>

lemma mi_switch_out_frame:
  assumes "mi_switch_out st r km k = Some (b, k')"
  shows "(\<forall>p. curthread k \<noteq> Some p \<longrightarrow> threads k' p = threads k p) \<and> (st \<noteq> S_SLEEP \<longrightarrow> asleep k' = asleep k)"
  using assms
  by (auto simp: mi_switch_out_def stash_def make_runnable_def asleep_def bind_Some_iff
      split: option.splits if_splits threadstate.splits)

lemma cur_not_asleep: "kern_inv k \<Longrightarrow> curthread k = Some p \<Longrightarrow> p \<notin> set (asleep k)"
  by (auto simp: kern_inv_def places_ok_def live_def running_def)

lemma thread_yield_as_waiters:
  assumes inv: "kern_inv k" and ok: "thread_yield_as mk km k = Some (b, k')"
  shows "waiters k' a = waiters k a"
proof -
  obtain k1 b1 where out: "mi_switch_out S_READY (mk (curspl k)) km (k\<lparr>curspl := SPL_HIGH, cst_iec := False\<rparr>) = Some (b1, k1)"
    and k': "k' = k1 \<or> k' = snd (splx (curspl k) k1)"
    using ok by (auto simp: thread_yield_as_def splhigh_eq bind_Some_iff split: if_splits)
  have "waiters k1 a = waiters (k\<lparr>curspl := SPL_HIGH, cst_iec := False\<rparr>) a"
    using mi_switch_out_frame [OF out] cur_not_asleep [OF inv] by (intro waiters_cong) (auto simp: asleep_def)
  then show ?thesis using k' by auto
qed

lemma thread_exit_waiters:
  assumes inv: "kern_inv k" and ok: "thread_exit km k = Some (b, k')"
  shows "waiters k' a = waiters k a"
proof -
  obtain K p where out: "mi_switch_out S_ZOMB R_dead km K = Some (b, k')" and cur: "curthread k = Some p" "curthread K = Some p"
    and K: "asleep K = asleep k" "\<forall>x. x \<noteq> p \<longrightarrow> threads K x = threads k x"
    using ok by (auto simp: thread_exit_def splhigh_eq vop_decref_def bind_Some_iff Let_def asleep_def
        split: if_splits option.splits)
  show ?thesis
    using mi_switch_out_frame [OF out] cur_not_asleep [OF inv cur(1)] K cur by (intro waiters_cong) auto
qed

lemma thread_fork_waiters:
  assumes inv: "kern_inv k" and cur: "curthread k = Some c" "threads k c = Some ct" and m: "fork_mem_ok m k"
    and refs: "\<forall>v. t_cwd ct = Some v \<longrightarrow> 0 \<le> vrefs k v" and ok: "thread_fork m name k = Some (r, k')"
  shows "waiters k' a = waiters k a"
proof (cases rule: thread_fork_cases [OF inv cur m refs, of name, case_names nomem born])
  case (nomem sl zs q)
  then show ?thesis using ok by (intro waiters_cong) (auto simp: containers_def asleep_def)
next
  case (born p stack sl zs q)
  then have "p \<notin> set (asleep k)" using kern_inv_asleep_threads [OF inv] by auto
  then show ?thesis using ok born by (intro waiters_cong) (auto simp: containers_def asleep_def)
qed

lemma timer_interrupt_waiters:
  assumes inv: "kern_inv k" and kms: "\<forall>n. kmalloc_ok (kms n)" and km: "kmalloc_ok km"
    and ok: "timer_interrupt lbolt kms km k = Some (b, k')"
  shows "set (waiters k' a) \<subseteq> set (waiters k a) \<and> (a \<noteq> lbolt \<longrightarrow> waiters k' a = waiters k a)"
proof -
  let ?mk = "\<lambda>spl. R_irq spl (in_interrupt k) (curspl k)"
  define K where "K l = k\<lparr>curspl := SPL_HIGH, cst_iec := False, in_interrupt := True, lbolt_counter := l\<rparr>" for l
  have K: "kern_inv (K l)" "waiters (K l) a = waiters k a" "curspl (K l) > 0" for l
    using kern_inv_fields [OF inv, where s = SPL_HIGH and e = False and i = True
        and l = l and a = "active_as k" and v = "vrefs k"]
    by (auto simp: K_def asleep_def intro: waiters_cong)
  obtain sw k1 where hc: "hardclock ?mk lbolt kms km (k\<lparr>curspl := SPL_HIGH, cst_iec := False, in_interrupt := True\<rparr>) = Some (sw, k1)"
    and k': "asleep k' = asleep k1" "threads k' = threads k1"
    using ok by (auto simp: timer_interrupt_def Let_def bind_Some_iff splhigh_eq asleep_def split: if_splits)
  obtain k2 where k2: "(\<exists>l. k2 = K l) \<or> thread_wakeup kms lbolt (K 0) = Some k2"
    and k1: "thread_yield_as ?mk km k2 = Some (sw, k1)"
    using hc by (auto simp: hardclock_def bind_Some_iff c_int_def K_def split: if_splits)
  have "kern_inv k2" using k2 K thread_wakeup_inv [OF K(1) kms K(3)] by auto
  then have "waiters k1 a = waiters k2 a" using thread_yield_as_waiters k1 by blast
  moreover have "waiters k2 a = waiters k a \<or> a = lbolt \<and> waiters k2 a = []"
    using k2 K thread_wakeup_waiters(1) [OF K(1) kms, of lbolt 0 k2 a] by (auto split: if_splits)
  moreover have "waiters k' a = waiters k1 a" using k' by (intro waiters_cong) auto
  ultimately show ?thesis by auto
qed

section \<open>The effect of a step\<close>

text \<open>
  Every step of a primitive is one of the following. \<open>no_more y y' x\<close>: nobody starts to wait
  on \<open>x\<close>. It is required of the addresses of semaphores and locks, except where a thread goes
  to sleep in \<open>P\<close> with a count of zero or in \<open>lock_acquire\<close> on a lock that is held.
\<close>

definition no_more :: "synch \<Rightarrow> synch \<Rightarrow> addr \<Rightarrow> bool" where
  "no_more y y' x \<longleftrightarrow> get_sem y x = None \<and> get_lock y x = None \<or> set (waiters (ks y') x) \<subseteq> set (waiters (ks y) x)"

inductive effect :: "synch \<Rightarrow> event list \<Rightarrow> synch \<Rightarrow> bool" where
  eff_quiet: "objs y' = objs y \<Longrightarrow> \<forall>x. no_more y y' x \<Longrightarrow> effect y [] y'"
| eff_sleep_P: "get_sem y a = Some s \<Longrightarrow> sem_count s = 0 \<Longrightarrow> objs y' = objs y \<Longrightarrow> \<forall>x. x \<noteq> a \<longrightarrow> no_more y y' x \<Longrightarrow> effect y [] y'"
| eff_P: "get_sem y a = Some s \<Longrightarrow> sem_count s > 0 \<Longrightarrow> objs y' = (objs y)(a \<mapsto> Obj_sem (s\<lparr>sem_count := sem_count s - 1\<rparr>)) \<Longrightarrow>
    \<forall>x. no_more y y' x \<Longrightarrow> effect y [E_P a] y'"
| eff_V: "get_sem y a = Some s \<Longrightarrow> objs y' = (objs y)(a \<mapsto> Obj_sem (s\<lparr>sem_count := sem_count s + 1\<rparr>)) \<Longrightarrow>
    waiters (ks y') a = [] \<Longrightarrow> \<forall>x. no_more y y' x \<Longrightarrow> effect y [E_V a] y'"
| eff_sleep_lock: "get_lock y a = Some l \<Longrightarrow> lk_locked l = 1 \<Longrightarrow> objs y' = objs y \<Longrightarrow> \<forall>x. x \<noteq> a \<longrightarrow> no_more y y' x \<Longrightarrow> effect y [] y'"
| eff_acquire: "get_lock y a = Some l \<Longrightarrow> lk_locked l = 0 \<Longrightarrow> lk_owner l = None \<Longrightarrow>
    objs y' = (objs y)(a \<mapsto> Obj_lock (l\<lparr>lk_locked := 1, lk_owner := Some t\<rparr>)) \<Longrightarrow> \<forall>x. no_more y y' x \<Longrightarrow> effect y [E_acquire a t] y'"
| eff_release: "get_lock y a = Some l \<Longrightarrow> lk_locked l = 1 \<Longrightarrow> lk_owner l = Some t \<Longrightarrow>
    objs y' = (objs y)(a \<mapsto> Obj_lock (l\<lparr>lk_locked := 0, lk_owner := None\<rparr>)) \<Longrightarrow> waiters (ks y') a = [] \<Longrightarrow>
    \<forall>x. no_more y y' x \<Longrightarrow> effect y [E_release a t] y'"

lemma effect_start:
  assumes "effect y1 es y'" and "objs y1 = objs y" and "\<And>x. waiters (ks y1) x = waiters (ks y) x"
  shows "effect y es y'"
proof -
  have get: "get_sem y1 = get_sem y" "get_lock y1 = get_lock y" and nm: "no_more y1 = no_more y"
    using assms(2,3) by (auto simp: get_sem_def get_lock_def no_more_def fun_eq_iff)
  from assms(1) show ?thesis
    by cases (auto simp: assms(2) get nm intro: effect.intros)
qed

lemma no_more_same: "waiters (ks y') = waiters (ks y) \<Longrightarrow> no_more y y' x"
  by (simp add: no_more_def)

lemma y_splhigh_simps [simp]:
  "fst (y_splhigh y) = curspl (ks y)"
  "ks (snd (y_splhigh y)) = (ks y)\<lparr>curspl := SPL_HIGH, cst_iec := False\<rparr>"
  "objs (snd (y_splhigh y)) = objs y"
  by (simp_all add: y_splhigh_def splhigh_eq)

lemma y_splx_simps [simp]:
  "ks (y_splx s y) = snd (splx s (ks y))" "objs (y_splx s y) = objs y" "ks (put_obj a ob y) = ks y"
  "objs (put_obj a ob y) = (objs y)(a \<mapsto> ob)"
  by (simp_all add: y_splx_def put_obj_def)

lemma get_simps [simp]:
  "get_sem (snd (y_splhigh y)) = get_sem y" "get_lock (snd (y_splhigh y)) = get_lock y" "get_cv (snd (y_splhigh y)) = get_cv y"
  by (simp_all add: get_sem_def get_lock_def get_cv_def fun_eq_iff)

lemma kern_inv_splx_cur: "kern_inv k \<Longrightarrow> curthread k = Some c \<Longrightarrow> kern_inv (snd (splx s k))"
  using kern_inv_spl by blast

lemma P_loop_effect:
  assumes inv: "kern_inv (ks y)" and cur: "curthread (ks y) = Some c" and km: "kmalloc_ok km"
    and ok: "P_loop km a spl y = Some (es, y')"
  shows "kern_inv (ks y') \<and> effect y es y'"
proof -
  obtain s where s: "get_sem y a = Some s" using ok by (auto simp: P_loop_def bind_Some_iff)
  show ?thesis
  proof (cases "sem_count s = 0")
    case True
    then obtain b k where sl: "thread_sleep a (C_P a spl) km (ks y) = Some (b, k)" and r: "es = []" "y' = y\<lparr>ks := k\<rparr>"
      using ok s by (auto simp: P_loop_def bind_Some_iff)
    have "\<forall>x. x \<noteq> a \<longrightarrow> no_more y y' x"
      using thread_sleep_others [OF inv km sl] r(2) by (simp add: no_more_def)
    then show ?thesis using thread_sleep_inv [OF inv km sl] eff_sleep_P [OF s True, of y'] r by simp
  next
    case False
    then have r: "es = [E_P a]" "sem_count s > 0" "y' = y_splx spl (put_obj a (Obj_sem (s\<lparr>sem_count := sem_count s - 1\<rparr>)) y)"
      using ok s by (auto simp: P_loop_def split: if_splits)
    then show ?thesis using kern_inv_splx_cur [OF inv cur] eff_P [OF s r(2), of y'] by (simp add: no_more_same)
  qed
qed

lemma acquire_loop_effect:
  assumes inv: "kern_inv (ks y)" and cur: "curthread (ks y) = Some c" and km: "kmalloc_ok km"
    and ok: "acquire_loop km a spl outer y = Some (es, y')"
  shows "kern_inv (ks y') \<and> effect y es y'"
proof -
  obtain l where l: "get_lock y a = Some l" using ok by (auto simp: acquire_loop_def bind_Some_iff)
  show ?thesis
  proof (cases "lk_locked l = 1")
    case True
    then obtain b k where sl: "thread_sleep a (C_acquire a spl outer) km (ks y) = Some (b, k)" and r: "es = []" "y' = y\<lparr>ks := k\<rparr>"
      using ok l by (auto simp: acquire_loop_def bind_Some_iff)
    have "\<forall>x. x \<noteq> a \<longrightarrow> no_more y y' x"
      using thread_sleep_others [OF inv km sl] r(2) by (simp add: no_more_def)
    then show ?thesis using thread_sleep_inv [OF inv km sl] eff_sleep_lock [OF l True, of y'] r by simp
  next
    case False
    define y1 where "y1 = y_splx spl (put_obj a (Obj_lock (l\<lparr>lk_locked := 1, lk_owner := Some c\<rparr>)) y)"
    have r: "es = [E_acquire a c]" "lk_locked l = 0" "lk_owner l = None"
        "y' = (case outer of None \<Rightarrow> y1 | Some s \<Rightarrow> y_splx s y1)"
      using ok l cur False by (cases outer; auto simp: acquire_loop_def y1_def Let_def split: if_splits)+
    have "kern_inv (ks y1)" "curthread (ks y1) = Some c" using kern_inv_splx_cur [OF inv cur] cur by (simp_all add: y1_def)
    then have "kern_inv (ks y')" using r(4) kern_inv_splx_cur by (cases outer) auto
    moreover have "waiters (ks y') = waiters (ks y)" "objs y' = (objs y)(a \<mapsto> Obj_lock (l\<lparr>lk_locked := 1, lk_owner := Some c\<rparr>))"
      using r(4) by (cases outer; simp add: y1_def)+
    ultimately show ?thesis using eff_acquire [OF l r(2,3), of y' c] r(1) no_more_same by blast
  qed
qed

text \<open>A primitive that begins by raising the priority has the effect of the rest.\<close>

lemma effect_high:
  assumes "effect (snd (y_splhigh y)) es y'"
  shows "effect y es y'"
  using assms by (rule effect_start) simp_all

lemma sem_P_effect:
  assumes inv: "kern_inv (ks y)" and cur: "curthread (ks y) = Some c" and km: "kmalloc_ok km"
    and ok: "sem_P km a y = Some (es, y')"
  shows "kern_inv (ks y') \<and> effect y es y'"
proof -
  have "P_loop km a (curspl (ks y)) (snd (y_splhigh y)) = Some (es, y')"
    using ok by (auto simp: sem_P_def bind_Some_iff case_prod_unfold split: if_splits)
  from P_loop_effect [OF _ _ km this] show ?thesis using kern_inv_high [OF inv] cur effect_high by simp
qed

lemma lock_acquire_effect:
  assumes inv: "kern_inv (ks y)" and cur: "curthread (ks y) = Some c" and km: "kmalloc_ok km"
    and ok: "lock_acquire_for outer km a y = Some (es, y')"
  shows "kern_inv (ks y') \<and> effect y es y'"
proof -
  have "acquire_loop km a (curspl (ks y)) outer (snd (y_splhigh y)) = Some (es, y')"
    using ok by (auto simp: lock_acquire_for_def bind_Some_iff case_prod_unfold split: if_splits)
  from acquire_loop_effect [OF _ _ km this] show ?thesis using kern_inv_high [OF inv] cur effect_high by simp
qed

text \<open>Waking everybody on \<open>a\<close> after changing the object there.\<close>

lemma wake_effect:
  assumes inv: "kern_inv (ks y)" and kms: "\<forall>n. kmalloc_ok (kms n)"
    and wk: "thread_wakeup kms a ((ks y)\<lparr>curspl := SPL_HIGH, cst_iec := False\<rparr>) = Some k"
    and spl: "curthread (ks y) \<noteq> None \<or> s > 0"
  shows "kern_inv (snd (splx s k))" and "waiters k a = []" and "x \<noteq> a \<Longrightarrow> waiters k x = waiters (ks y) x"
    and "curthread k = curthread (ks y)"
proof -
  let ?k = "(ks y)\<lparr>curspl := SPL_HIGH, cst_iec := False\<rparr>"
  have inv1: "kern_inv ?k" using kern_inv_high [OF inv] .
  have "kern_inv k" using thread_wakeup_inv [OF inv1 kms _ wk] by simp
  moreover show cur: "curthread k = curthread (ks y)" using thread_wakeup_frame [OF inv1 kms _ wk] by simp
  ultimately show "kern_inv (snd (splx s k))" using kern_inv_spl spl by metis
  show "waiters k a = []" using thread_wakeup_waiters(1) [OF inv1 kms wk, of a] by simp
  show "waiters k x = waiters (ks y) x" if "x \<noteq> a" using thread_wakeup_waiters(1) [OF inv1 kms wk, of x] that by simp
qed

lemma sem_V_effect:
  assumes inv: "kern_inv (ks y)" and kms: "\<forall>n. kmalloc_ok (kms n)" and ok: "sem_V kms a y = Some (es, y')"
  shows "kern_inv (ks y') \<and> effect y es y'"
proof -
  obtain s k where s: "get_sem y a = Some s" and wk: "thread_wakeup kms a ((ks y)\<lparr>curspl := SPL_HIGH, cst_iec := False\<rparr>) = Some k"
    and r: "es = [E_V a]" "ks y' = snd (splx (curspl (ks y)) k)"
      "objs y' = (objs y)(a \<mapsto> Obj_sem (s\<lparr>sem_count := sem_count s + 1\<rparr>))"
    using ok by (auto simp: sem_V_def bind_Some_iff case_prod_unfold c_int_def Let_def split: if_splits)
  have spl: "curthread (ks y) \<noteq> None \<or> curspl (ks y) > 0" using inv by (auto simp: kern_inv_def caps_ok_def)
  note w = wake_effect [OF inv kms wk spl]
  have "no_more y y' x" for x using w(2) w(3) [of x] r(2) by (cases "x = a") (simp_all add: no_more_def)
  then have "effect y es y'" using eff_V [OF s r(3)] w(2) r(1,2) by simp
  then show ?thesis using w(1) r(2) by simp
qed

lemma lock_release_effect:
  assumes inv: "kern_inv (ks y)" and kms: "\<forall>n. kmalloc_ok (kms n)" and ok: "lock_release kms a y = Some (es, y')"
  shows "kern_inv (ks y') \<and> effect y es y'"
proof -
  obtain l c k where l: "get_lock y a = Some l" "lk_locked l = 1" "lk_owner l = Some c" and cur: "curthread (ks y) = Some c"
    and wk: "thread_wakeup kms a ((ks y)\<lparr>curspl := SPL_HIGH, cst_iec := False\<rparr>) = Some k"
    and r: "es = [E_release a c]" "ks y' = snd (splx (curspl (ks y)) k)"
      "objs y' = (objs y)(a \<mapsto> Obj_lock (l\<lparr>lk_locked := 0, lk_owner := None\<rparr>))"
    using ok by (auto simp: lock_release_def bind_Some_iff case_prod_unfold Let_def split: if_splits)
  have spl: "curthread (ks y) \<noteq> None \<or> curspl (ks y) > 0" using cur by simp
  note w = wake_effect [OF inv kms wk spl]
  have "no_more y y' x" for x using w(2) w(3) [of x] r(2) by (cases "x = a") (simp_all add: no_more_def)
  then have "effect y es y'" using eff_release [OF l r(3)] w(2) r(1,2) by simp
  then show ?thesis using w(1) r(2) by simp
qed

lemma cv_wait_effect:
  assumes inv: "kern_inv (ks y)" and kms: "\<forall>n. kmalloc_ok (kms n)" and km: "kmalloc_ok km"
    and ok: "cv_wait kms km cva a y = Some (es, y')"
  shows "kern_inv (ks y') \<and> effect y es y'"
proof -
  obtain c y2 b k where cv: "get_cv y cva = Some c" and rel: "lock_release kms a (snd (y_splhigh y)) = Some (es, y2)"
    and sl: "thread_sleep cva (C_cv a (curspl (ks y))) km (ks y2) = Some (b, k)" and y': "y' = y2\<lparr>ks := k\<rparr>"
    using ok by (auto simp: cv_wait_def bind_Some_iff case_prod_unfold Let_def split: if_splits)
  have r: "kern_inv (ks y2)" "effect (snd (y_splhigh y)) es y2"
    using lock_release_effect [OF _ kms rel] kern_inv_high [OF inv] by simp_all
  have e: "effect y es y2" using effect_high [OF r(2)] .
  have w: "waiters k x = waiters (ks y2) x" if "x \<noteq> cva" for x using thread_sleep_others [OF r(1) km sl that] .
  have none: "get_sem y cva = None" "get_lock y cva = None"
    using cv by (auto simp: get_cv_def get_sem_def get_lock_def split: option.splits obj.splits)
  have nm: "no_more y y2 x \<Longrightarrow> no_more y y' x" for x
    using w [of x] none y' by (cases "x = cva") (auto simp: no_more_def)
  from e have "effect y es y'"
  proof cases
    case (eff_release b l t)
    moreover have "b \<noteq> cva" using eff_release(2) none(2) by auto
    ultimately show ?thesis using effect.eff_release [of y b l t y'] w [of b] nm y' by auto
  qed (use rel in \<open>auto simp: lock_release_def bind_Some_iff case_prod_unfold Let_def split: if_splits\<close>)
  then show ?thesis using thread_sleep_inv [OF r(1) km sl] y' by simp
qed

lemma cv_signal_effect:
  assumes inv: "kern_inv (ks y)" and cur: "curthread (ks y) = Some c" and km: "kmalloc_ok km"
    and ok: "cv_signal km cva a y = Some (es, y')"
  shows "kern_inv (ks y') \<and> effect y es y'"
proof -
  let ?k = "(ks y)\<lparr>curspl := SPL_HIGH, cst_iec := False\<rparr>"
  obtain k where wk: "thread_wakeup_one km cva ?k = Some k"
    and r: "es = []" "ks y' = snd (splx (curspl (ks y)) k)" "objs y' = objs y"
    using ok by (auto simp: cv_signal_def bind_Some_iff case_prod_unfold Let_def split: if_splits)
  have inv1: "kern_inv ?k" using kern_inv_high [OF inv] .
  have k: "kern_inv k" using thread_wakeup_one_inv [OF inv1 km _ wk] by simp
  have "curthread k = Some c"
    using wk cur by (auto simp: thread_wakeup_one_def make_runnable_def bind_Some_iff split: option.splits if_splits)
  then have "kern_inv (ks y')" using kern_inv_splx_cur [OF k] r(2) by simp
  moreover have "set (waiters k x) \<subseteq> set (waiters (ks y) x)" for x
    using thread_wakeup_one_waiters [OF inv1 km wk, of x]
    by (cases "waiters (ks y) cva") (auto split: if_splits)
  then have "no_more y y' x" for x using r(2) by (simp add: no_more_def)
  ultimately show ?thesis using eff_quiet r by simp
qed

lemma cv_broadcast_effect:
  assumes inv: "kern_inv (ks y)" and cur: "curthread (ks y) = Some c" and kms: "\<forall>n. kmalloc_ok (kms n)"
    and ok: "cv_broadcast kms cva a y = Some (es, y')"
  shows "kern_inv (ks y') \<and> effect y es y'"
proof -
  obtain k where wk: "thread_wakeup kms cva ((ks y)\<lparr>curspl := SPL_HIGH, cst_iec := False\<rparr>) = Some k"
    and r: "es = []" "ks y' = snd (splx (curspl (ks y)) k)" "objs y' = objs y"
    using ok by (auto simp: cv_broadcast_def bind_Some_iff case_prod_unfold Let_def split: if_splits)
  have spl: "curthread (ks y) \<noteq> None \<or> curspl (ks y) > 0" using cur by simp
  note w = wake_effect [OF inv kms wk spl]
  have "no_more y y' x" for x using w(2) w(3) [of x] r(2) by (cases "x = cva") (simp_all add: no_more_def)
  then show ?thesis using eff_quiet r w(1) by simp
qed

lemma clock_loop_effect:
  assumes inv: "kern_inv (ks y)" and cur: "curthread (ks y) = Some c" and km: "kmalloc_ok km" and lb: "objs y lbolt = None"
    and ok: "clock_loop lbolt km n s y = Some (es, y')"
  shows "kern_inv (ks y') \<and> effect y es y'"
proof (cases "n > 0")
  case True
  then obtain b k where sl: "thread_sleep lbolt (C_clock (n - 1) s) km (ks y) = Some (b, k)" and r: "es = []" "y' = y\<lparr>ks := k\<rparr>"
    using ok by (auto simp: clock_loop_def bind_Some_iff)
  have "no_more y y' x" for x
    using thread_sleep_others [OF inv km sl, of x] r(2) lb by (cases "x = lbolt") (simp_all add: no_more_def get_sem_def get_lock_def)
  then show ?thesis using thread_sleep_inv [OF inv km sl] eff_quiet r by simp
next
  case False
  then have r: "es = []" "y' = y_splx s y" using ok by (simp_all add: clock_loop_def)
  then show ?thesis using eff_quiet [of y' y] kern_inv_splx_cur [OF inv cur] by (simp add: no_more_same)
qed

lemma clocksleep_effect:
  assumes inv: "kern_inv (ks y)" and cur: "curthread (ks y) = Some c" and km: "kmalloc_ok km" and lb: "objs y lbolt = None"
    and ok: "clocksleep lbolt km n y = Some (es, y')"
  shows "kern_inv (ks y') \<and> effect y es y'"
proof -
  have "clock_loop lbolt km n (curspl (ks y)) (snd (y_splhigh y)) = Some (es, y')"
    using ok by (simp add: clocksleep_def case_prod_unfold)
  from clock_loop_effect [OF _ _ km _ this] show ?thesis using kern_inv_high [OF inv] cur lb effect_high by simp
qed

lemma run_cont_effect:
  assumes "kern_inv (ks y)" and "curthread (ks y) = Some c" and "kmalloc_ok km" and "objs y lbolt = None"
    and "run_cont lbolt km x y = Some (es, y')"
  shows "kern_inv (ks y') \<and> effect y es y'"
proof (cases x)
  case (C_P a spl)
  then show ?thesis using P_loop_effect [OF assms(1-3)] assms(5) by (simp add: run_cont_def)
next
  case (C_acquire a spl outer)
  then show ?thesis using acquire_loop_effect [OF assms(1-3)] assms(5) by (simp add: run_cont_def)
next
  case (C_cv a spl)
  then show ?thesis using lock_acquire_effect [OF assms(1-3)] assms(5) by (simp add: run_cont_def)
next
  case (C_clock n s)
  then show ?thesis using clock_loop_effect [OF assms(1-4)] assms(5) by (simp add: run_cont_def)
next
  case C_other
  then show ?thesis using assms(1,5) eff_quiet [of y y] by (simp add: run_cont_def no_more_same)
qed

lemma y_dispatch_effect:
  assumes inv: "kern_inv (ks y)" and cur: "curthread (ks y) = None" and km: "kmalloc_ok km" and lb: "objs y lbolt = None"
    and ok: "y_dispatch lbolt km y = Some (es, y')"
  shows "kern_inv (ks y') \<and> effect y es y'"
proof -
  obtain x k where d: "dispatch (ks y) = Some (x, k)" using ok by (auto simp: y_dispatch_def bind_Some_iff)
  have r: "case x of Woken c \<Rightarrow> run_cont lbolt km c (y\<lparr>ks := k\<rparr>) = Some (es, y') | _ \<Rightarrow> es = [] \<and> y' = y\<lparr>ks := k\<rparr>"
    using ok d by (cases x) (simp_all add: y_dispatch_def)
  have w: "waiters k a = waiters (ks y) a" for a using dispatch_waiters [OF inv cur d] .
  have k: "kern_inv k" and run: "x \<noteq> Idle \<Longrightarrow> \<exists>p. curthread k = Some p"
    by (cases rule: dispatch_cases [OF inv cur, case_names idle run]; use d inv in auto)+
  show ?thesis
  proof (cases x)
    case (Woken c)
    then have "kern_inv (ks y') \<and> effect (y\<lparr>ks := k\<rparr>) es y'"
      using run_cont_effect [of "y\<lparr>ks := k\<rparr>"] r k run km lb by fastforce
    then show ?thesis using effect_start [of "y\<lparr>ks := k\<rparr>" es y' y] w by simp
  qed (use r k w eff_quiet [of y' y] in \<open>auto simp: no_more_def\<close>)
qed

end
