(* ===== verification/SynchSys.thy ===== *)
theory SynchSys
  imports SynchInv
begin

text \<open>
  The kernel as a system of synchronizing threads: its steps (\<open>sstep\<close>), the invariant of the
  objects, the abstract semaphore and lock as automata over the completed events, the runs of
  the kernel, and the guarantees of \<open>synch.c\<close> over all runs.
\<close>


section \<open>Steps and invariant\<close>

inductive sstep :: "addr \<Rightarrow> synch \<Rightarrow> event list \<Rightarrow> synch \<Rightarrow> bool" for lbolt where
  s_P: "curthread (ks y) = Some c \<Longrightarrow> kmalloc_ok km \<Longrightarrow> sem_P km a y = Some (es, y') \<Longrightarrow> sstep lbolt y es y'"
| s_V: "\<forall>n. kmalloc_ok (kms n) \<Longrightarrow> sem_V kms a y = Some (es, y') \<Longrightarrow> sstep lbolt y es y'"
| s_acquire: "curthread (ks y) = Some c \<Longrightarrow> kmalloc_ok km \<Longrightarrow> lock_acquire km a y = Some (es, y') \<Longrightarrow> sstep lbolt y es y'"
| s_release: "\<forall>n. kmalloc_ok (kms n) \<Longrightarrow> lock_release kms a y = Some (es, y') \<Longrightarrow> sstep lbolt y es y'"
| s_hold: "curthread (ks y) = Some c \<Longrightarrow> lock_do_i_hold a y = Some (b, y') \<Longrightarrow> sstep lbolt y [] y'"
| s_wait: "\<forall>n. kmalloc_ok (kms n) \<Longrightarrow> kmalloc_ok km \<Longrightarrow> cv_wait kms km cva a y = Some (es, y') \<Longrightarrow> sstep lbolt y es y'"
| s_signal: "curthread (ks y) = Some c \<Longrightarrow> kmalloc_ok km \<Longrightarrow> cv_signal km cva a y = Some (es, y') \<Longrightarrow> sstep lbolt y es y'"
| s_broadcast: "curthread (ks y) = Some c \<Longrightarrow> \<forall>n. kmalloc_ok (kms n) \<Longrightarrow> cv_broadcast kms cva a y = Some (es, y') \<Longrightarrow> sstep lbolt y es y'"
| s_clock: "curthread (ks y) = Some c \<Longrightarrow> kmalloc_ok km \<Longrightarrow> clocksleep lbolt km n y = Some (es, y') \<Longrightarrow> sstep lbolt y es y'"
| s_dispatch: "curthread (ks y) = None \<Longrightarrow> kmalloc_ok km \<Longrightarrow> y_dispatch lbolt km y = Some (es, y') \<Longrightarrow> sstep lbolt y es y'"
| s_sem_create: "objs y a = None \<Longrightarrow> a \<noteq> lbolt \<Longrightarrow> waiters (ks y) a = [] \<Longrightarrow>
    sem_create (Some a) True name n y = Some (Some a, y') \<Longrightarrow> sstep lbolt y [E_sem_create a n] y'"
| s_lock_create: "objs y a = None \<Longrightarrow> a \<noteq> lbolt \<Longrightarrow> waiters (ks y) a = [] \<Longrightarrow>
    lock_create (Some a) True name y = (Some a, y') \<Longrightarrow> sstep lbolt y [] y'"
| s_cv_create: "objs y a = None \<Longrightarrow> a \<noteq> lbolt \<Longrightarrow> cv_create (Some a) True name y = (Some a, y') \<Longrightarrow> sstep lbolt y [] y'"
| s_sem_destroy: "curthread (ks y) = Some c \<Longrightarrow> sem_destroy a y = Some y' \<Longrightarrow> sstep lbolt y [E_sem_destroy a] y'"
| s_lock_destroy: "curthread (ks y) = Some c \<Longrightarrow> lock_destroy a y = Some y' \<Longrightarrow> sstep lbolt y [] y'"
| s_cv_destroy: "curthread (ks y) = Some c \<Longrightarrow> cv_destroy a y = Some y' \<Longrightarrow> sstep lbolt y [] y'"
| s_fork: "curthread (ks y) = Some c \<Longrightarrow> threads (ks y) c = Some ct \<Longrightarrow> \<forall>v. t_cwd ct = Some v \<longrightarrow> 0 \<le> vrefs (ks y) v \<Longrightarrow>
    fork_mem_ok m (ks y) \<Longrightarrow> thread_fork m name (ks y) = Some (r, k) \<Longrightarrow> sstep lbolt y [] (y\<lparr>ks := k\<rparr>)"
| s_yield: "kmalloc_ok km \<Longrightarrow> thread_yield km (ks y) = Some (b, k) \<Longrightarrow> sstep lbolt y [] (y\<lparr>ks := k\<rparr>)"
| s_exit: "kmalloc_ok km \<Longrightarrow> thread_exit km (ks y) = Some (b, k) \<Longrightarrow> sstep lbolt y [] (y\<lparr>ks := k\<rparr>)"
| s_timer: "cst_iec (ks y) \<or> curthread (ks y) = None \<Longrightarrow> \<forall>n. kmalloc_ok (kms n) \<Longrightarrow> kmalloc_ok km \<Longrightarrow>
    timer_interrupt lbolt kms km (ks y) = Some (b, k) \<Longrightarrow> sstep lbolt y [] (y\<lparr>ks := k\<rparr>)"
| s_splx: "curthread (ks y) = Some c \<Longrightarrow> sstep lbolt y [] (y_splx s y)"

inductive_cases sstepE: "sstep lbolt y es y'"

fun obj_ok :: "tid list \<Rightarrow> obj option \<Rightarrow> bool" where
  "obj_ok ws (Some (Obj_sem s)) \<longleftrightarrow> 0 \<le> sem_count s \<and> (0 < sem_count s \<longrightarrow> ws = [])"
| "obj_ok ws (Some (Obj_lock l)) \<longleftrightarrow> lk_locked l = 0 \<and> lk_owner l = None \<and> ws = [] \<or> lk_locked l = 1 \<and> lk_owner l \<noteq> None"
| "obj_ok ws _ \<longleftrightarrow> True"

definition objs_ok :: "synch \<Rightarrow> bool" where
  "objs_ok y \<longleftrightarrow> (\<forall>a. obj_ok (waiters (ks y) a) (objs y a))"

definition syn_inv :: "addr \<Rightarrow> synch \<Rightarrow> bool" where
  "syn_inv lbolt y \<longleftrightarrow> kern_inv (ks y) \<and> objs y lbolt = None \<and> objs_ok y"

lemma get_sem_Some: "get_sem y a = Some s \<longleftrightarrow> objs y a = Some (Obj_sem s)"
  by (auto simp: get_sem_def split: option.splits obj.splits)

lemma get_lock_Some: "get_lock y a = Some l \<longleftrightarrow> objs y a = Some (Obj_lock l)"
  by (auto simp: get_lock_def split: option.splits obj.splits)

lemma obj_ok_no_more:
  assumes "no_more y y' x" and "obj_ok (waiters (ks y) x) (objs y x)"
  shows "obj_ok (waiters (ks y') x) (objs y x)"
proof (cases "objs y x")
  case (Some ob)
  then show ?thesis using assms
    by (cases ob) (auto simp: no_more_def get_sem_def get_lock_def)
qed simp

lemma effect_objs_ok:
  assumes ok: "objs_ok y" and e: "effect y es y'"
  shows "objs_ok y'"
  unfolding objs_ok_def
proof
  fix x
  have x: "obj_ok (waiters (ks y) x) (objs y x)" using ok by (simp add: objs_ok_def)
  note mono = obj_ok_no_more [OF _ x]
  from e show "obj_ok (waiters (ks y') x) (objs y' x)"
  proof cases
    case eff_quiet
    then show ?thesis using mono by simp
  next
    case (eff_sleep_P a s)
    then show ?thesis using mono x by (cases "x = a") (simp_all add: get_sem_Some)
  next
    case (eff_P a s)
    then show ?thesis using mono [of y'] x by (cases "x = a") (auto simp: get_sem_Some)
  next
    case (eff_V a s)
    then show ?thesis using mono x by (cases "x = a") (simp_all add: get_sem_Some)
  next
    case (eff_sleep_lock a l)
    then show ?thesis using mono x by (cases "x = a") (simp_all add: get_lock_Some)
  next
    case (eff_acquire a l t)
    then show ?thesis using mono x by (cases "x = a") (simp_all add: get_lock_Some)
  next
    case (eff_release a l t)
    then show ?thesis using mono x by (cases "x = a") (simp_all add: get_lock_Some)
  qed
qed

lemma effect_lbolt: "effect y es y' \<Longrightarrow> objs y lbolt = None \<Longrightarrow> objs y' lbolt = None"
  by (erule effect.cases) (auto simp: get_sem_Some get_lock_Some)

text \<open>The counting semaphore and the lock as automata over the events.\<close>

fun sem_next :: "addr \<Rightarrow> event \<Rightarrow> int option \<Rightarrow> int option option" where
  "sem_next a (E_P b) c = (if b \<noteq> a then Some c else case c of None \<Rightarrow> None | Some n \<Rightarrow> if n > 0 then Some (Some (n - 1)) else None)"
| "sem_next a (E_V b) c = (if b \<noteq> a then Some c else case c of None \<Rightarrow> None | Some n \<Rightarrow> Some (Some (n + 1)))"
| "sem_next a (E_sem_create b n) c = (if b \<noteq> a then Some c else if c = None \<and> n \<ge> 0 then Some (Some n) else None)"
| "sem_next a (E_sem_destroy b) c = (if b \<noteq> a then Some c else if c = None then None else Some None)"
| "sem_next a _ c = Some c"

fun lock_next :: "addr \<Rightarrow> event \<Rightarrow> tid option \<Rightarrow> tid option option" where
  "lock_next a (E_acquire b t) h = (if b \<noteq> a then Some h else if h = None then Some (Some t) else None)"
| "lock_next a (E_release b t) h = (if b \<noteq> a then Some h else if h = Some t then Some None else None)"
| "lock_next a _ h = Some h"

primrec runs_of :: "('e \<Rightarrow> 's \<Rightarrow> 's option) \<Rightarrow> 'e list \<Rightarrow> 's \<Rightarrow> 's option" where
  "runs_of f [] s = Some s"
| "runs_of f (e # es) s = f e s \<bind> runs_of f es"

lemma runs_of_append: "runs_of f (es @ fs) s = runs_of f es s \<bind> runs_of f fs"
  by (induction es arbitrary: s) (auto split: Option.bind_splits)

definition count_of :: "synch \<Rightarrow> addr \<Rightarrow> int option" where
  "count_of y a = map_option sem_count (get_sem y a)"

definition holder_of :: "synch \<Rightarrow> addr \<Rightarrow> tid option" where
  "holder_of y a = get_lock y a \<bind> lk_owner"

lemma effect_sem_run: "effect y es y' \<Longrightarrow> runs_of (sem_next a) es (count_of y a) = Some (count_of y' a)"
  by (erule effect.cases) (auto simp: count_of_def get_sem_def get_lock_def split: option.splits obj.splits if_splits)

lemma effect_lock_run: "effect y es y' \<Longrightarrow> runs_of (lock_next a) es (holder_of y a) = Some (holder_of y' a)"
  by (erule effect.cases) (auto simp: holder_of_def get_sem_def get_lock_def split: option.splits obj.splits if_splits)

text \<open>Creating and destroying objects.\<close>

inductive life :: "addr \<Rightarrow> synch \<Rightarrow> event list \<Rightarrow> synch \<Rightarrow> bool" for lbolt where
  life_sem: "objs y a = None \<Longrightarrow> a \<noteq> lbolt \<Longrightarrow> waiters (ks y) a = [] \<Longrightarrow> 0 \<le> sem_count s \<Longrightarrow> ks y' = ks y \<Longrightarrow>
    objs y' = (objs y)(a \<mapsto> Obj_sem s) \<Longrightarrow> life lbolt y [E_sem_create a (sem_count s)] y'"
| life_lock: "objs y a = None \<Longrightarrow> a \<noteq> lbolt \<Longrightarrow> waiters (ks y) a = [] \<Longrightarrow> lk_locked l = 0 \<Longrightarrow> lk_owner l = None \<Longrightarrow>
    ks y' = ks y \<Longrightarrow> objs y' = (objs y)(a \<mapsto> Obj_lock l) \<Longrightarrow> life lbolt y [] y'"
| life_cv: "objs y a = None \<Longrightarrow> a \<noteq> lbolt \<Longrightarrow> ks y' = ks y \<Longrightarrow> objs y' = (objs y)(a \<mapsto> Obj_cv v) \<Longrightarrow> life lbolt y [] y'"
| life_no_sem: "get_sem y a = Some s \<Longrightarrow> ks y' = snd (splx p k) \<Longrightarrow> waiters k = waiters (ks y) \<Longrightarrow> objs y' = (objs y)(a := None) \<Longrightarrow>
    life lbolt y [E_sem_destroy a] y'"
| life_no_lock: "get_lock y a = Some l \<Longrightarrow> lk_owner l = None \<Longrightarrow> waiters (ks y') = waiters (ks y) \<Longrightarrow> objs y' = (objs y)(a := None) \<Longrightarrow>
    life lbolt y [] y'"
| life_no_cv: "get_cv y a = Some v \<Longrightarrow> waiters (ks y') = waiters (ks y) \<Longrightarrow> objs y' = (objs y)(a := None) \<Longrightarrow>
    life lbolt y [] y'"

lemma life_objs_ok: "life lbolt y es y' \<Longrightarrow> objs_ok y \<Longrightarrow> objs_ok y'"
  by (erule life.cases) (auto simp: objs_ok_def)

lemma life_lbolt: "life lbolt y es y' \<Longrightarrow> objs y lbolt = None \<Longrightarrow> objs y' lbolt = None"
  by (erule life.cases) auto

lemma life_sem_run: "life lbolt y es y' \<Longrightarrow> runs_of (sem_next a) es (count_of y a) = Some (count_of y' a)"
  by (erule life.cases) (auto simp: count_of_def get_sem_def get_lock_def get_cv_def split: option.splits obj.splits if_splits)

lemma life_lock_run: "life lbolt y es y' \<Longrightarrow> runs_of (lock_next a) es (holder_of y a) = Some (holder_of y' a)"
  by (erule life.cases) (auto simp: holder_of_def get_sem_def get_lock_def get_cv_def split: option.splits obj.splits if_splits)

lemma quiet_step: "(\<And>x. set (waiters k x) \<subseteq> set (waiters (ks y) x)) \<Longrightarrow> effect y [] (y\<lparr>ks := k\<rparr>)"
  by (rule eff_quiet) (auto simp: no_more_def)

lemma kern_inv_high_splx: "kern_inv k \<Longrightarrow> curthread k = Some c \<Longrightarrow> kern_inv (snd (splx s (k\<lparr>curspl := SPL_HIGH, cst_iec := False\<rparr>)))"
  using kern_inv_splx_cur [of "k\<lparr>curspl := SPL_HIGH, cst_iec := False\<rparr>"]
    kern_inv_fields [where k = k and s = SPL_HIGH and e = False and i = "in_interrupt k" and l = "lbolt_counter k"
      and a = "active_as k" and v = "vrefs k"] by simp

lemma sstep_destroy:
  assumes inv: "kern_inv (ks y)" and cur: "curthread (ks y) = Some c"
  shows "sem_destroy a y = Some y' \<Longrightarrow> kern_inv (ks y') \<and> life lbolt y [E_sem_destroy a] y'"
    and "lock_destroy a y = Some y' \<Longrightarrow> kern_inv (ks y') \<and> life lbolt y [] y'"
    and "cv_destroy a y = Some y' \<Longrightarrow> kern_inv (ks y') \<and> life lbolt y [] y'"
    and "lock_do_i_hold a y = Some (b, y') \<Longrightarrow> kern_inv (ks y') \<and> effect y [] y'"
  using kern_inv_high_splx [OF inv cur]
  by (auto simp: sem_destroy_def lock_destroy_def cv_destroy_def lock_do_i_hold_def bind_Some_iff case_prod_unfold Let_def no_more_same
      split: if_splits intro: life_no_sem life_no_lock life_no_cv eff_quiet)

lemma sstep_create:
  assumes "objs y a = None" "a \<noteq> lbolt"
  shows "waiters (ks y) a = [] \<Longrightarrow> sem_create (Some a) True name n y = Some (Some a, y') \<Longrightarrow> ks y' = ks y \<and> life lbolt y [E_sem_create a n] y'"
    and "waiters (ks y) a = [] \<Longrightarrow> lock_create (Some a) True name y = (Some a, y') \<Longrightarrow> ks y' = ks y \<and> life lbolt y [] y'"
    and "cv_create (Some a) True name y = (Some a, y') \<Longrightarrow> ks y' = ks y \<and> life lbolt y [] y'"
proof -
  assume *: "waiters (ks y) a = []" "sem_create (Some a) True name n y = Some (Some a, y')"
  then have n: "0 \<le> n" and y': "y' = put_obj a (Obj_sem \<lparr>sem_name = name, sem_count = n\<rparr>) y"
    by (auto simp: sem_create_def split: if_splits)
  have "life lbolt y [E_sem_create a (sem_count \<lparr>sem_name = name, sem_count = n\<rparr>)] y'"
    by (rule life_sem) (use assms * n y' in simp_all)
  then show "ks y' = ks y \<and> life lbolt y [E_sem_create a n] y'" using y' by simp
next
  assume *: "waiters (ks y) a = []" "lock_create (Some a) True name y = (Some a, y')"
  then have y': "y' = put_obj a (Obj_lock \<lparr>lk_name = name, lk_locked = 0, lk_owner = None\<rparr>) y"
    by (auto simp: lock_create_def split: if_splits)
  have "life lbolt y [] y'"
    by (rule life_lock [OF assms *(1), of "\<lparr>lk_name = name, lk_locked = 0, lk_owner = None\<rparr>"]) (use y' in simp_all)
  then show "ks y' = ks y \<and> life lbolt y [] y'" using y' by simp
next
  assume *: "cv_create (Some a) True name y = (Some a, y')"
  then have y': "y' = put_obj a (Obj_cv \<lparr>cv_name = name\<rparr>) y"
    by (auto simp: cv_create_def split: if_splits)
  then show "ks y' = ks y \<and> life lbolt y [] y'" using life_cv [OF assms, of y'] by simp
qed

lemma sstep_cases:
  assumes inv: "syn_inv lbolt y" and st: "sstep lbolt y es y'"
  shows "kern_inv (ks y') \<and> (effect y es y' \<or> life lbolt y es y')"
proof -
  have k: "kern_inv (ks y)" and lb: "objs y lbolt = None" using inv by (simp_all add: syn_inv_def)
  note kk = sem_P_effect [OF k] sem_V_effect [OF k] lock_acquire_effect [OF k] lock_release_effect [OF k] cv_wait_effect [OF k]
    cv_signal_effect [OF k] cv_broadcast_effect [OF k] clocksleep_effect [OF k _ _ lb] y_dispatch_effect [OF k _ _ lb]
    sstep_destroy(1-3) [OF k, where lbolt = lbolt] sstep_destroy(4) [OF k]
  show ?thesis
  proof (rule sstepE [OF st])
    fix c ct m name r ka
    assume *: "es = []" "y' = y\<lparr>ks := ka\<rparr>" "curthread (ks y) = Some c" "threads (ks y) c = Some ct"
      "\<forall>v. t_cwd ct = Some v \<longrightarrow> 0 \<le> vrefs (ks y) v" "fork_mem_ok m (ks y)" "thread_fork m name (ks y) = Some (r, ka)"
    then show ?thesis
      using thread_fork_inv [OF k *(3,4,6,5,7)] thread_fork_waiters [OF k *(3,4,6,5,7)] quiet_step [of ka y] by simp
  next
    fix km b ka
    assume *: "es = []" "y' = y\<lparr>ks := ka\<rparr>" "kmalloc_ok km" "thread_yield km (ks y) = Some (b, ka)"
    then show ?thesis
      using thread_yield_as_inv [OF k *(3)] thread_yield_as_waiters [OF k] quiet_step [of ka y]
      by (fastforce simp: thread_yield_def)
  next
    fix km b ka
    assume *: "es = []" "y' = y\<lparr>ks := ka\<rparr>" "kmalloc_ok km" "thread_exit km (ks y) = Some (b, ka)"
    then show ?thesis
      using thread_exit_inv [OF k *(3,4)] thread_exit_waiters [OF k *(4)] quiet_step [of ka y] by simp
  next
    fix kms km b ka
    assume *: "es = []" "y' = y\<lparr>ks := ka\<rparr>" "\<forall>n. kmalloc_ok (kms n)" "kmalloc_ok km" "timer_interrupt lbolt kms km (ks y) = Some (b, ka)"
    then show ?thesis
      using timer_interrupt_inv [OF k *(3-5)] timer_interrupt_waiters [OF k *(3-5)] quiet_step [of ka y] by simp
  next
    fix c s
    assume *: "es = []" "y' = y_splx s y" "curthread (ks y) = Some c"
    then show ?thesis
      using kern_inv_splx_cur [OF k *(3)] by (auto intro!: eff_quiet simp: no_more_same)
  next
    fix c km a
    assume "curthread (ks y) = Some c" "kmalloc_ok km" "lock_acquire km a y = Some (es, y')"
    then show ?thesis using lock_acquire_effect [OF k] by (simp add: lock_acquire_def)
  next
    fix a name n
    assume *: "es = [E_sem_create a n]" "objs y a = None" "a \<noteq> lbolt" "waiters (ks y) a = []" "sem_create (Some a) True name n y = Some (Some a, y')"
    then show ?thesis using sstep_create(1) [OF *(2-5)] k by simp
  next
    fix a name
    assume *: "es = []" "objs y a = None" "a \<noteq> lbolt" "waiters (ks y) a = []" "lock_create (Some a) True name y = (Some a, y')"
    then show ?thesis using sstep_create(2) [OF *(2-5)] k by simp
  next
    fix a name
    assume *: "es = []" "objs y a = None" "a \<noteq> lbolt" "cv_create (Some a) True name y = (Some a, y')"
    then show ?thesis using sstep_create(3) [OF *(2-4)] k by simp
  qed ((drule (2) kk | drule (1) kk), simp)+
qed

section \<open>Runs\<close>

text \<open>A run is the trace of the completed events and the state it ends in.\<close>

definition synch_start :: "event list \<times> synch \<Rightarrow> bool" where
  "synch_start w \<longleftrightarrow> fst w = [] \<and> booted (ks (snd w)) \<and> objs (snd w) = (\<lambda>_. None)"

definition run_step :: "addr \<Rightarrow> event list \<times> synch \<Rightarrow> event list \<times> synch \<Rightarrow> bool" where
  "run_step lbolt w w' \<longleftrightarrow> (\<exists>es. sstep lbolt (snd w) es (snd w') \<and> fst w' = fst w @ es)"

definition run_inv :: "addr \<Rightarrow> event list \<times> synch \<Rightarrow> bool" where
  "run_inv lbolt w \<longleftrightarrow> syn_inv lbolt (snd w) \<and>
     (\<forall>a. runs_of (sem_next a) (fst w) None = Some (count_of (snd w) a) \<and>
          runs_of (lock_next a) (fst w) None = Some (holder_of (snd w) a))"

lemma synch_start_inv: "synch_start w \<Longrightarrow> run_inv lbolt w"
  using booted_inv
  by (auto simp: synch_start_def run_inv_def syn_inv_def objs_ok_def count_of_def holder_of_def get_sem_def get_lock_def)

lemma sstep_inv: "syn_inv lbolt y \<Longrightarrow> sstep lbolt y es y' \<Longrightarrow> syn_inv lbolt y'"
  using sstep_cases effect_objs_ok effect_lbolt life_objs_ok life_lbolt unfolding syn_inv_def by meson

lemma sstep_runs:
  assumes "syn_inv lbolt y" and "sstep lbolt y es y'"
  shows "runs_of (sem_next a) es (count_of y a) = Some (count_of y' a)"
    and "runs_of (lock_next a) es (holder_of y a) = Some (holder_of y' a)"
  using sstep_cases [OF assms] effect_sem_run effect_lock_run life_sem_run life_lock_run by meson+

lemma run_step_inv: "run_inv lbolt w \<Longrightarrow> run_step lbolt w w' \<Longrightarrow> run_inv lbolt w'"
  by (auto simp: run_inv_def run_step_def runs_of_append sstep_runs intro: sstep_inv)

interpretation runs: invariant_of synch_start "run_step lbolt" "run_inv lbolt" for lbolt
  by unfold_locales (rule synch_start_inv, assumption, rule run_step_inv)

lemma lock_run_free:
  "runs_of (lock_next a) ys (Some t) = Some h \<Longrightarrow> E_release a t \<notin> set ys \<Longrightarrow> h = Some t"
proof (induction ys)
  case (Cons e ys)
  then show ?case by (cases e) (auto split: if_splits)
qed simp

lemma lock_run_exclusive:
  assumes "runs_of (lock_next a) (xs @ E_acquire a t # ys @ E_acquire a u # zs) h0 = Some h"
  shows "E_release a t \<in> set ys"
proof (rule ccontr)
  assume "E_release a t \<notin> set ys"
  moreover obtain h1 where "runs_of (lock_next a) ys (Some t) = Some h1" "lock_next a (E_acquire a u) h1 \<noteq> None"
    using assms by (auto simp: runs_of_append bind_eq_Some_conv split: if_splits)
  ultimately show False using lock_run_free by fastforce
qed

definition sem_total :: "addr \<Rightarrow> event list \<Rightarrow> int" where
  "sem_total a es = int (count_list es (E_V a)) - int (count_list es (E_P a))"

lemma sem_run_total:
  "runs_of (sem_next a) es (Some n) = Some c \<Longrightarrow> E_sem_destroy a \<notin> set es \<Longrightarrow> c = Some (n + sem_total a es)"
proof (induction es arbitrary: n)
  case (Cons e es)
  then show ?case by (cases e) (fastforce simp: sem_total_def split: if_splits)+
qed (simp add: sem_total_def)

lemma cv_wait_caller:
  assumes "cv_wait kms km cva a y = Some (es, y')"
  obtains c where "curthread (ks y) = Some c" and "holder_of y a = Some c" and "get_lock y a \<noteq> None" and "get_cv y cva \<noteq> None"
  using assms by (auto simp: cv_wait_def holds_lock_def holder_of_def bind_Some_iff case_prod_unfold Let_def split: if_splits)

lemma cv_wait_outcome:
  assumes inv: "kern_inv (ks y)" and kms: "\<forall>n. kmalloc_ok (kms n)" and km: "kmalloc_ok km"
    and ok: "cv_wait kms km cva a y = Some (es, y')" and cur: "curthread (ks y) = Some c" and ne: "a \<noteq> cva"
  shows "es = [E_release a c] \<and> holder_of y' a = None \<and> waiters (ks y') a = [] \<and> waiters (ks y') cva = waiters (ks y) cva @ [c]"
proof -
  obtain y2 b k where rel: "lock_release kms a (snd (y_splhigh y)) = Some (es, y2)"
    and sl: "thread_sleep cva (C_cv a (curspl (ks y))) km (ks y2) = Some (b, k)" and y': "y' = y2\<lparr>ks := k\<rparr>"
    using ok by (auto simp: cv_wait_def bind_Some_iff case_prod_unfold Let_def split: if_splits)
  obtain l k1 where wk: "thread_wakeup kms a ((ks y)\<lparr>curspl := SPL_HIGH, cst_iec := False\<rparr>) = Some k1"
    and r: "es = [E_release a c]" "ks y2 = snd (splx SPL_HIGH k1)" "objs y2 = (objs y)(a \<mapsto> Obj_lock (l\<lparr>lk_locked := 0, lk_owner := None\<rparr>))"
    using rel cur by (auto simp: lock_release_def bind_Some_iff case_prod_unfold splhigh_eq y_splhigh_def get_lock_def
        Let_def put_obj_def y_splx_def split: if_splits)
  note w = wake_effect [OF inv kms wk, of SPL_HIGH]
  have inv2: "kern_inv (ks y2)" and cur2: "curthread (ks y2) = Some c" using w r cur by auto
  have "waiters k x = waiters k1 x @ (if x = cva then [c] else [])" for x
    by (rule thread_sleep_waiters [OF inv2 km sl, of x]) (use cur2 r in simp)
  then show ?thesis using w(2,3) cur r ne y' by (auto simp: holder_of_def get_lock_def)
qed

section \<open>Properties\<close>

text \<open>
  C4. Every run of the kernel drives the abstract semaphore: at each semaphore, \<open>P\<close> completes
  only when the count is positive and takes one from it, \<open>V\<close> adds one, and the count kept in
  the structure is the count of the abstract semaphore after the events of the run.
\<close>

theorem semaphore_refines:
  assumes "reachable synch_start (run_step lbolt) (es, y)"
  shows "runs_of (sem_next a) es None = Some (count_of y a)"
  using runs.reachable_inv [OF assms] by (simp add: run_inv_def)

text \<open>
  Since its creation with count \<open>n\<close>, the count of a semaphore is \<open>n\<close> plus the completed
  \<open>V\<close>s minus the completed \<open>P\<close>s, and it is never negative.
\<close>

theorem semaphore_balance:
  assumes "reachable synch_start (run_step lbolt) (xs @ E_sem_create a n # ys, y)" and "E_sem_destroy a \<notin> set ys"
  shows "\<exists>s. get_sem y a = Some s \<and> sem_count s = n + sem_total a ys \<and> sem_count s \<ge> 0"
proof -
  have inv: "run_inv lbolt (xs @ E_sem_create a n # ys, y)" using runs.reachable_inv [OF assms(1)] .
  then have "runs_of (sem_next a) (xs @ E_sem_create a n # ys) None = Some (count_of y a)" by (simp add: run_inv_def)
  then have "runs_of (sem_next a) ys (Some n) = Some (count_of y a)"
    by (auto simp: runs_of_append bind_eq_Some_conv split: if_splits)
  then have "count_of y a = Some (n + sem_total a ys)" using sem_run_total assms(2) by blast
  then obtain s where s: "get_sem y a = Some s" "sem_count s = n + sem_total a ys" by (auto simp: count_of_def)
  moreover have "obj_ok (waiters (ks y) a) (objs y a)" using inv by (simp add: run_inv_def syn_inv_def objs_ok_def)
  ultimately show ?thesis by (simp add: get_sem_Some)
qed

text \<open>
  C5. Mutual exclusion. In every run, between two acquisitions of the same lock the thread
  that made the first one releases it.
\<close>

theorem lock_mutual_exclusion:
  assumes "reachable synch_start (run_step lbolt) (xs @ E_acquire a t # ys @ E_acquire a u # zs, y)"
  shows "E_release a t \<in> set ys"
  using runs.reachable_inv [OF assms] lock_run_exclusive [of a xs t ys u zs None "holder_of y a"] by (simp add: run_inv_def)

text \<open>
  C7. No wakeup is lost. In every state the kernel can reach, a semaphore with a positive
  count and a lock that is free have no thread asleep on them.
\<close>

theorem no_lost_wakeup:
  assumes "reachable synch_start (run_step lbolt) (es, y)"
    and "(\<exists>s. get_sem y a = Some s \<and> sem_count s > 0) \<or> (\<exists>l. get_lock y a = Some l \<and> lk_locked l = 0)"
  shows "waiters (ks y) a = []"
proof -
  have "obj_ok (waiters (ks y) a) (objs y a)"
    using runs.reachable_inv [OF assms(1)] by (simp add: run_inv_def syn_inv_def objs_ok_def)
  then show ?thesis using assms(2) by (auto simp: get_sem_Some get_lock_Some)
qed

text \<open>
  C8. \<open>cv_wait\<close> gives up the lock and starts to wait in one step: when it leaves the processor
  the lock is free, nobody is asleep on it, and the caller is the last of the threads waiting
  on the condition variable.
\<close>

theorem cv_wait_atomic:
  assumes "reachable synch_start (run_step lbolt) (es0, y)"
    and "\<forall>n. kmalloc_ok (kms n)" and "kmalloc_ok km" and "cv_wait kms km cva a y = Some (es, y')"
  shows "\<exists>c. curthread (ks y) = Some c \<and> holder_of y a = Some c \<and> es = [E_release a c] \<and> holder_of y' a = None \<and>
    waiters (ks y') a = [] \<and> waiters (ks y') cva = waiters (ks y) cva @ [c]"
proof -
  have inv: "kern_inv (ks y)" using runs.reachable_inv [OF assms(1)] by (simp add: run_inv_def syn_inv_def)
  obtain c where c: "curthread (ks y) = Some c" "holder_of y a = Some c" and l: "get_lock y a \<noteq> None" "get_cv y cva \<noteq> None"
    using cv_wait_caller [OF assms(4)] by blast
  then have "a \<noteq> cva" by (auto simp: get_lock_def get_cv_def split: option.splits obj.splits)
  then show ?thesis using cv_wait_outcome [OF inv assms(2-4) c(1)] c by auto
qed

section \<open>A run\<close>

text \<open>Boot, a semaphore with one unit taken and given back, a lock taken, released and taken again.\<close>

definition some_mem :: "tid kmem" where
  "some_mem n = Some (replicate (n div 4) 0)"

definition y_boot :: synch where
  "y_boot = \<lparr>ks = \<lparr>curspl = 15, cst_iec = False, in_interrupt = False, curthread = Some 0,
     threads = [0 \<mapsto> \<lparr>t_pcb = \<lparr>pcb_ininterrupt = False, pcb_resume = R_dead\<rparr>, t_name = ''<boot/menu>'',
        t_sleepaddr = None, t_stack = None, t_vmspace = None, t_cwd = None\<rparr>],
     sleepers = Some \<lparr>a_num = 0, a_max = 0, a_v = None\<rparr>, zombies = Some \<lparr>a_num = 0, a_max = 0, a_v = None\<rparr>,
     runqueue = Some \<lparr>q_size = 32, q_nextwrite = 0, q_nextread = 0, q_data = replicate 32 0\<rparr>,
     numthreads = 1, vrefs = (\<lambda>_. 0), active_as = None, lbolt_counter = 0\<rparr>, objs = (\<lambda>_. None)\<rparr>"

lemma y_boot_start: "synch_start ([], y_boot)"
  unfolding synch_start_def booted_def
  by (simp, rule conjI, rule exI [of _ "\<lparr>curspl = 15, cst_iec = False, in_interrupt = False, curthread = None, threads = (\<lambda>_. None),
       sleepers = None, zombies = None, runqueue = None, numthreads = 0, vrefs = (\<lambda>_. 0), active_as = None,
       lbolt_counter = 0\<rparr>"], simp add: SPL_HIGH_def,
     rule exI [of _ "\<lparr>curspl = 15, cst_iec = False, in_interrupt = False, curthread = None, threads = (\<lambda>_. None),
       sleepers = None, zombies = None,
       runqueue = Some \<lparr>q_size = 32, q_nextwrite = 0, q_nextread = 0, q_data = replicate 32 0\<rparr>,
       numthreads = 0, vrefs = (\<lambda>_. 0), active_as = None, lbolt_counter = 0\<rparr>"],
     intro exI [of _ True] conjI exI [of _ "\<lambda>n. Some (replicate (n div 4) 0)"] exI [of _ 0])
    (simp_all add: kmalloc_ok_def scheduler_bootstrap_def q_create_def ptr_bytes_def
      thread_bootstrap_def array_create_def thread_create_def y_boot_def)

definition "y_sem = snd (the (sem_create (Some 100) True ''s'' 1 y_boot))"
definition "y_P = snd (the (sem_P some_mem 100 y_sem))"
definition "y_V = snd (the (sem_V (\<lambda>_. some_mem) 100 y_P))"
definition "y_lock = snd (lock_create (Some 200) True ''l'' y_V)"
definition "y_acq = snd (the (lock_acquire some_mem 200 y_lock))"
definition "y_rel = snd (the (lock_release (\<lambda>_. some_mem) 200 y_acq))"
definition "y_acq2 = snd (the (lock_acquire some_mem 200 y_rel))"

lemma snd_the: "map_option fst x = Some e \<Longrightarrow> x = Some (e, snd (the x))"
  by (cases x) auto

lemma y_ops:
  "sem_create (Some 100) True ''s'' 1 y_boot = Some (Some 100, y_sem)"
  "sem_P some_mem 100 y_sem = Some ([E_P 100], y_P)"
  "sem_V (\<lambda>_. some_mem) 100 y_P = Some ([E_V 100], y_V)"
  "lock_acquire some_mem 200 y_lock = Some ([E_acquire 200 0], y_acq)"
  "lock_release (\<lambda>_. some_mem) 200 y_acq = Some ([E_release 200 0], y_rel)"
  "lock_acquire some_mem 200 y_rel = Some ([E_acquire 200 0], y_acq2)"
proof -
  have "map_option fst (sem_create (Some 100) True ''s'' 1 y_boot) = Some (Some 100)" by code_simp
  then show "sem_create (Some 100) True ''s'' 1 y_boot = Some (Some 100, y_sem)" unfolding y_sem_def by (rule snd_the)
  have "map_option fst (sem_P some_mem 100 y_sem) = Some [E_P 100]" by code_simp
  then show "sem_P some_mem 100 y_sem = Some ([E_P 100], y_P)" unfolding y_P_def by (rule snd_the)
  have "map_option fst (sem_V (\<lambda>_. some_mem) 100 y_P) = Some [E_V 100]" by code_simp
  then show "sem_V (\<lambda>_. some_mem) 100 y_P = Some ([E_V 100], y_V)" unfolding y_V_def by (rule snd_the)
  have "map_option fst (lock_acquire some_mem 200 y_lock) = Some [E_acquire 200 0]" by code_simp
  then show "lock_acquire some_mem 200 y_lock = Some ([E_acquire 200 0], y_acq)" unfolding y_acq_def by (rule snd_the)
  have "map_option fst (lock_release (\<lambda>_. some_mem) 200 y_acq) = Some [E_release 200 0]" by code_simp
  then show "lock_release (\<lambda>_. some_mem) 200 y_acq = Some ([E_release 200 0], y_rel)" unfolding y_rel_def by (rule snd_the)
  have "map_option fst (lock_acquire some_mem 200 y_rel) = Some [E_acquire 200 0]" by code_simp
  then show "lock_acquire some_mem 200 y_rel = Some ([E_acquire 200 0], y_acq2)" unfolding y_acq2_def by (rule snd_the)
qed

lemma y_facts:
  "curthread (ks y_sem) = Some 0" "curthread (ks y_lock) = Some 0" "curthread (ks y_rel) = Some 0" "objs y_boot 100 = None"
  "waiters (ks y_boot) 100 = []" "waiters (ks y_V) 200 = []" "objs y_V 200 = None"
  by code_simp+

lemma y_lock_made: "lock_create (Some 200) True ''l'' y_V = (Some 200, y_lock)"
  by (simp add: y_lock_def lock_create_def)

lemma some_mem_ok: "kmalloc_ok some_mem" "\<forall>n :: nat. kmalloc_ok some_mem"
  by (simp_all add: kmalloc_ok_def some_mem_def)

lemma run_snoc: "reachable synch_start (run_step lbolt) (es, y) \<Longrightarrow> sstep lbolt y fs y' \<Longrightarrow>
   reachable synch_start (run_step lbolt) (es @ fs, y')"
  by (erule reach_next) (auto simp: run_step_def)

lemma y_boot_run: "reachable synch_start (run_step 7) ([], y_boot)"
  by (rule reach_start) (rule y_boot_start)

lemma y_V_run: "reachable synch_start (run_step 7) ([E_sem_create 100 1, E_P 100, E_V 100], y_V)"
proof -
  have "reachable synch_start (run_step 7) ([] @ [E_sem_create 100 1], y_sem)"
    by (rule run_snoc [OF y_boot_run], rule s_sem_create [OF _ _ _ y_ops(1)]) (simp_all add: y_facts)
  from run_snoc [OF run_snoc [OF this s_P [OF y_facts(1) some_mem_ok(1) y_ops(2)]] s_V [OF some_mem_ok(2) y_ops(3)]]
  show ?thesis by simp
qed

lemma y_acq2_run: "reachable synch_start (run_step 7)
   ([E_sem_create 100 1, E_P 100, E_V 100] @ E_acquire 200 0 # [E_release 200 0] @ E_acquire 200 0 # [], y_acq2)"
proof -
  have "sstep 7 y_V [] y_lock" by (rule s_lock_create [OF _ _ _ y_lock_made]) (simp_all add: y_facts)
  from run_snoc [OF run_snoc [OF run_snoc [OF run_snoc [OF y_V_run this]
      s_acquire [OF y_facts(2) some_mem_ok(1) y_ops(4)]] s_release [OF some_mem_ok(2) y_ops(5)]]
      s_acquire [OF y_facts(3) some_mem_ok(1) y_ops(6)]]
  show ?thesis by simp
qed

theorem semaphore_refines_witness:
  "runs_of (sem_next 100) [E_sem_create 100 1, E_P 100, E_V 100] None = Some (count_of y_V 100)"
  by (rule semaphore_refines [OF y_V_run])

theorem semaphore_balance_witness:
  "\<exists>s. get_sem y_V 100 = Some s \<and> sem_count s = 1 + sem_total 100 [E_P 100, E_V 100] \<and> sem_count s \<ge> 0"
  by (rule semaphore_balance [where xs = "[]" and lbolt = 7]) (simp_all add: y_V_run)

theorem lock_mutual_exclusion_witness: "E_release 200 0 \<in> set [E_release 200 0]"
  by (rule lock_mutual_exclusion [OF y_acq2_run])

theorem no_lost_wakeup_witness: "waiters (ks y_V) 100 = []"
proof -
  have "get_sem y_V 100 = Some \<lparr>sem_name = ''s'', sem_count = 1\<rparr>" by code_simp
  then show ?thesis by (intro no_lost_wakeup [OF y_V_run]) (auto simp: y_facts)
qed

definition "y_cv = snd (cv_create (Some 300) True ''c'' y_acq2)"
definition "y_wait = snd (the (cv_wait (\<lambda>_. some_mem) some_mem 300 200 y_cv))"

lemma y_cv_wait:
  "cv_wait (\<lambda>_. some_mem) some_mem 300 200 y_cv = Some ([E_release 200 0], y_wait)" "objs y_acq2 300 = None" "curthread (ks y_cv) = Some 0"
proof -
  have "map_option fst (cv_wait (\<lambda>_. some_mem) some_mem 300 200 y_cv) = Some [E_release 200 0]" by code_simp
  then show "cv_wait (\<lambda>_. some_mem) some_mem 300 200 y_cv = Some ([E_release 200 0], y_wait)" unfolding y_wait_def by (rule snd_the)
  show "objs y_acq2 300 = None" "curthread (ks y_cv) = Some 0" by code_simp+
qed

theorem cv_wait_atomic_witness:
  "\<exists>c. curthread (ks y_cv) = Some c \<and> holder_of y_cv 200 = Some c \<and> [E_release 200 0] = [E_release 200 c] \<and> holder_of y_wait 200 = None \<and>
    waiters (ks y_wait) 200 = [] \<and> waiters (ks y_wait) 300 = waiters (ks y_cv) 300 @ [c]"
proof -
  have "cv_create (Some 300) True ''c'' y_acq2 = (Some 300, y_cv)" by (simp add: y_cv_def cv_create_def)
  then have "sstep 7 y_acq2 [] y_cv" by (rule s_cv_create [OF y_cv_wait(2), rotated]) simp
  from cv_wait_atomic [OF run_snoc [OF y_acq2_run this] some_mem_ok(2) some_mem_ok(1) y_cv_wait(1)] show ?thesis .
qed

end
