(* ===== verification/Uio.thy ===== *)
theory Uio
  imports KPrelude
begin

text \<open>
  Moving data between the kernel and a caller: \<open>lib/copyinout.c\<close> and \<open>userprog/uio.c\<close>.

  User memory is a partial map from addresses to bytes with a set of writable addresses; an
  access outside it is the fault that \<open>copyfail\<close> turns into \<open>EFAULT\<close>. The memory reached
  through a \<open>uio\<close> is part of the record: for a kernel pointer the block \<open>iov_kbuf\<close> with the
  position \<open>iov_koff\<close> in it, for a user pointer the address \<open>iov_ubase\<close> in \<open>uio_user\<close>.
  \<open>uio_segflg\<close> says which of the two the union \<open>iov_un\<close> of the source holds.
\<close>

type_synonym byte = "8 word"

section \<open>Blocks of bytes\<close>

definition blk_get :: "'a list \<Rightarrow> nat \<Rightarrow> nat \<Rightarrow> 'a list option" where
  "blk_get xs i n = (if i + n \<le> length xs then Some (take n (drop i xs)) else None)"

definition blk_put :: "'a list \<Rightarrow> nat \<Rightarrow> 'a list \<Rightarrow> 'a list option" where
  "blk_put xs i ys = (if i + length ys \<le> length xs then Some (take i xs @ ys @ drop (i + length ys) xs) else None)"

lemma blk_get_Some: "blk_get xs i n = Some ys \<longleftrightarrow> i + n \<le> length xs \<and> ys = take n (drop i xs)"
  by (auto simp: blk_get_def)

lemma blk_put_Some: "blk_put xs i ys = Some zs \<longleftrightarrow> i + length ys \<le> length xs \<and> zs = take i xs @ ys @ drop (i + length ys) xs"
  by (auto simp: blk_put_def)

lemma blk_put_length: "blk_put xs i ys = Some zs \<Longrightarrow> length zs = length xs"
  by (auto simp: blk_put_Some)

lemma blk_put_whole: "length ys = length xs \<Longrightarrow> blk_put xs 0 ys = Some ys"
  by (simp add: blk_put_def)

lemma blk_put_nth:
  "blk_put xs i ys = Some zs \<Longrightarrow> j < length xs \<Longrightarrow> zs ! j = (if i \<le> j \<and> j < i + length ys then ys ! (j - i) else xs ! j)"
  by (auto simp: blk_put_Some nth_append)

lemma blk_get_put: "blk_put xs i ys = Some zs \<Longrightarrow> blk_get zs i (length ys) = Some ys"
  by (auto simp: blk_put_Some blk_get_def)

lemma blk_put_twice:
  assumes "blk_put xs i ys = Some zs"
  shows "blk_put zs (i + length ys) us = blk_put xs i (ys @ us)"
  using assms by (auto simp: blk_put_def ac_simps split: if_splits)

text \<open>Conversion of an unsigned result to the signed 32-bit \<open>off_t\<close>.\<close>

definition to_off :: "int \<Rightarrow> int" where
  "to_off x = (x + 2 ^ 31) mod 2 ^ 32 - 2 ^ 31"

lemma to_off_id [simp]: "- (2 ^ 31) \<le> x \<Longrightarrow> x < 2 ^ 31 \<Longrightarrow> to_off x = x"
  by (simp add: to_off_def)

section \<open>User memory\<close>

record umem =
  um_space :: "nat option"
  um_byte :: "nat \<Rightarrow> byte option"
  um_writable :: "nat \<Rightarrow> bool"

definition USERTOP :: nat where
  "USERTOP = 0x80000000"

definition copycheck :: "nat \<Rightarrow> nat \<Rightarrow> nat kres" where
  "copycheck userptr len =
     (let bot = userptr; top = nat ((int bot + int len - 1) mod 2 ^ 32) in
      if top < bot then Inl EFAULT
      else if bot \<ge> USERTOP then Inl EFAULT
      else if top \<ge> USERTOP then Inr (USERTOP - bot)
      else Inr len)"

text \<open>
  \<open>memcpy\<close> copies upwards; on a fault what lies below the faulting address has been copied.
\<close>

primrec user_fetch :: "umem \<Rightarrow> nat \<Rightarrow> nat \<Rightarrow> byte list \<times> bool" where
  "user_fetch m a 0 = ([], True)"
| "user_fetch m a (Suc n) = (case um_byte m a of
       None \<Rightarrow> ([], False)
     | Some b \<Rightarrow> (let (bs, ok) = user_fetch m (a + 1) n in (b # bs, ok)))"

fun user_store :: "umem \<Rightarrow> nat \<Rightarrow> byte list \<Rightarrow> umem \<times> bool" where
  "user_store m a [] = (m, True)"
| "user_store m a (b # bs) =
     (if um_byte m a = None \<or> \<not> um_writable m a then (m, False)
      else user_store (m\<lparr>um_byte := (um_byte m)(a \<mapsto> b)\<rparr>) (a + 1) bs)"

definition copyin :: "umem \<Rightarrow> nat \<Rightarrow> byte list \<Rightarrow> nat \<Rightarrow> nat \<Rightarrow> (unit kres \<times> byte list) option" where
  "copyin m usersrc dest p len = (case copycheck usersrc len of
       Inl e \<Rightarrow> Some (Inl e, dest)
     | Inr stoplen \<Rightarrow>
         if stoplen \<noteq> len then Some (Inl EFAULT, dest)
         else let (bs, ok) = user_fetch m usersrc len in do {
           kassert (p + len \<le> length dest);
           dest' \<leftarrow> blk_put dest p bs;
           Some (if ok then Inr () else Inl EFAULT, dest')
         })"

definition copyout :: "byte list \<Rightarrow> nat \<Rightarrow> umem \<Rightarrow> nat \<Rightarrow> nat \<Rightarrow> (unit kres \<times> umem) option" where
  "copyout src p m userdest len = (case copycheck userdest len of
       Inl e \<Rightarrow> Some (Inl e, m)
     | Inr stoplen \<Rightarrow>
         if stoplen \<noteq> len then Some (Inl EFAULT, m)
         else do {
           bs \<leftarrow> blk_get src p len;
           let (m', ok) = user_store m userdest bs;
           Some (if ok then Inr () else Inl EFAULT, m')
         })"

text \<open>
  \<open>copystr\<close> with the two memories as access functions: \<open>rd i\<close> reads \<open>src[i]\<close>, \<open>wr i b s\<close> stores
  \<open>dest[i]\<close>. \<open>None\<close> is an access outside a kernel block, \<open>Some (Inl EFAULT)\<close> a fault on a user
  address, from which \<open>longjmp\<close> leaves the loop.
\<close>

function copystr ::
  "(nat \<Rightarrow> byte kres option) \<Rightarrow> (nat \<Rightarrow> byte \<Rightarrow> 's \<Rightarrow> 's kres option) \<Rightarrow> nat \<Rightarrow> nat \<Rightarrow> nat \<Rightarrow> 's \<Rightarrow> (nat kres \<times> 's) option" where
  "copystr rd wr maxlen stoplen i s =
     (if i < maxlen \<and> i < stoplen then do {
        r \<leftarrow> rd i;
        case r of Inl e \<Rightarrow> Some (Inl e, s)
        | Inr b \<Rightarrow> do {
            w \<leftarrow> wr i b s;
            case w of Inl e \<Rightarrow> Some (Inl e, s)
            | Inr s' \<Rightarrow> if b = 0 then Some (Inr (i + 1), s') else copystr rd wr maxlen stoplen (i + 1) s'
          }
      }
      else if stoplen < maxlen then Some (Inl EFAULT, s)
      else Some (Inl ENAMETOOLONG, s))"
  by pat_completeness auto
termination by (relation "measure (\<lambda>(_, _, maxlen, _, i, _). maxlen - i)") auto

declare copystr.simps [simp del]

definition user_rd :: "umem \<Rightarrow> nat \<Rightarrow> nat \<Rightarrow> byte kres option" where
  "user_rd m a i = Some (case um_byte m (a + i) of None \<Rightarrow> Inl EFAULT | Some b \<Rightarrow> Inr b)"

definition user_wr :: "nat \<Rightarrow> nat \<Rightarrow> byte \<Rightarrow> umem \<Rightarrow> umem kres option" where
  "user_wr a i b m = Some (if um_byte m (a + i) = None \<or> \<not> um_writable m (a + i) then Inl EFAULT
     else Inr (m\<lparr>um_byte := (um_byte m)(a + i \<mapsto> b)\<rparr>))"

definition kern_rd :: "byte list \<Rightarrow> nat \<Rightarrow> byte kres option" where
  "kern_rd src i = (if i < length src then Some (Inr (src ! i)) else None)"

definition kern_wr :: "nat \<Rightarrow> byte \<Rightarrow> byte list \<Rightarrow> byte list kres option" where
  "kern_wr i b dest = (if i < length dest then Some (Inr (dest[i := b])) else None)"

definition copyinstr :: "umem \<Rightarrow> nat \<Rightarrow> byte list \<Rightarrow> nat \<Rightarrow> (nat kres \<times> byte list) option" where
  "copyinstr m usersrc dest len = (case copycheck usersrc len of
       Inl e \<Rightarrow> Some (Inl e, dest)
     | Inr stoplen \<Rightarrow> copystr (user_rd m usersrc) kern_wr len stoplen 0 dest)"

definition copyoutstr :: "byte list \<Rightarrow> umem \<Rightarrow> nat \<Rightarrow> nat \<Rightarrow> (nat kres \<times> umem) option" where
  "copyoutstr src m userdest len = (case copycheck userdest len of
       Inl e \<Rightarrow> Some (Inl e, m)
     | Inr stoplen \<Rightarrow> copystr (kern_rd src) (user_wr userdest) len stoplen 0 m)"

section \<open>The uio structure\<close>

datatype uio_rw = UIO_READ | UIO_WRITE

datatype uio_seg = UIO_USERSPACE | UIO_SYSSPACE | UIO_USERISPACE

record uio =
  iov_kbuf :: "byte list"
  iov_koff :: nat
  iov_ubase :: nat
  iov_len :: nat
  uio_offset :: int
  uio_resid :: nat
  uio_segflg :: uio_seg
  uio_rw :: uio_rw
  uio_space :: "nat option"
  uio_user :: umem

text \<open>The transfer of \<open>size\<close> bytes in one turn of the loop, with the base pointer moved on.\<close>

definition uiomove_chunk :: "byte list \<Rightarrow> nat \<Rightarrow> nat \<Rightarrow> uio \<Rightarrow> (unit kres \<times> byte list \<times> uio) option" where
  "uiomove_chunk buf p sz u = (case uio_segflg u of
       UIO_SYSSPACE \<Rightarrow> (case uio_rw u of
           UIO_READ \<Rightarrow> do {
             bs \<leftarrow> blk_get buf p sz;
             k \<leftarrow> blk_put (iov_kbuf u) (iov_koff u) bs;
             Some (Inr (), buf, u\<lparr>iov_kbuf := k, iov_koff := iov_koff u + sz\<rparr>)
           }
         | UIO_WRITE \<Rightarrow> do {
             bs \<leftarrow> blk_get (iov_kbuf u) (iov_koff u) sz;
             buf' \<leftarrow> blk_put buf p bs;
             Some (Inr (), buf', u\<lparr>iov_koff := iov_koff u + sz\<rparr>)
           })
     | _ \<Rightarrow> (case uio_rw u of
           UIO_READ \<Rightarrow> do {
             (r, m) \<leftarrow> copyout buf p (uio_user u) (iov_ubase u) sz;
             let u1 = u\<lparr>uio_user := m\<rparr>;
             case r of Inl e \<Rightarrow> Some (Inl e, buf, u1)
             | Inr _ \<Rightarrow> Some (Inr (), buf, u1\<lparr>iov_ubase := (iov_ubase u1 + sz) mod 2 ^ 32\<rparr>)
           }
         | UIO_WRITE \<Rightarrow> do {
             (r, buf') \<leftarrow> copyin (uio_user u) (iov_ubase u) buf p sz;
             case r of Inl e \<Rightarrow> Some (Inl e, buf', u)
             | Inr _ \<Rightarrow> Some (Inr (), buf', u\<lparr>iov_ubase := (iov_ubase u + sz) mod 2 ^ 32\<rparr>)
           }))"

definition uio_advance :: "nat \<Rightarrow> uio \<Rightarrow> uio" where
  "uio_advance sz u = u\<lparr>iov_len := iov_len u - sz,
     uio_resid := nat ((int (uio_resid u) - int sz) mod 2 ^ 32),
     uio_offset := to_off (uio_offset u + int sz)\<rparr>"

function uiomove_loop :: "byte list \<Rightarrow> nat \<Rightarrow> nat \<Rightarrow> uio \<Rightarrow> (unit kres \<times> byte list \<times> uio) option" where
  "uiomove_loop buf p n u =
     (if n > 0 \<and> uio_resid u > 0 then
        let sz = min (iov_len u) n in
        if sz = 0 then None
        else case uiomove_chunk buf p sz u of
            None \<Rightarrow> None
          | Some (Inl e, buf', u') \<Rightarrow> Some (Inl e, buf', u')
          | Some (Inr _, buf', u') \<Rightarrow> uiomove_loop buf' (p + sz) (n - sz) (uio_advance sz u')
      else Some (Inr (), buf, u))"
  by pat_completeness auto
termination by (relation "measure (\<lambda>(_, _, n, _). n)") (auto simp: min_def split: if_splits)

declare uiomove_loop.simps [simp del]

definition uiomove :: "byte list \<Rightarrow> nat \<Rightarrow> nat \<Rightarrow> uio \<Rightarrow> (unit kres \<times> byte list \<times> uio) option" where
  "uiomove buf p n u = do {
     kassert (if uio_segflg u = UIO_SYSSPACE then uio_space u = None else uio_space u = um_space (uio_user u));
     uiomove_loop buf p n u
   }"

function uiomovezeros_loop :: "nat \<Rightarrow> uio \<Rightarrow> (unit kres \<times> uio) option" where
  "uiomovezeros_loop n u =
     (if n > 0 then
        let amt = min 16 n in do {
          (r, _, u') \<leftarrow> uiomove (replicate 16 0) 0 amt u;
          case r of Inl e \<Rightarrow> Some (Inl e, u') | Inr _ \<Rightarrow> uiomovezeros_loop (n - amt) u'
        }
      else Some (Inr (), u))"
  by pat_completeness auto
termination by (relation "measure fst") auto

declare uiomovezeros_loop.simps [simp del]

definition uiomovezeros :: "nat \<Rightarrow> uio \<Rightarrow> (unit kres \<times> uio) option" where
  "uiomovezeros n u = do { kassert (uio_rw u = UIO_READ); uiomovezeros_loop n u }"

text \<open>A \<open>uio\<close> on a kernel block, with no user memory behind it.\<close>

definition no_user :: umem where
  "no_user = \<lparr>um_space = None, um_byte = (\<lambda>_. None), um_writable = (\<lambda>_. False)\<rparr>"

definition mk_kuio :: "byte list \<Rightarrow> nat \<Rightarrow> int \<Rightarrow> uio_rw \<Rightarrow> uio" where
  "mk_kuio kbuf len pos rw = \<lparr>iov_kbuf = kbuf, iov_koff = 0, iov_ubase = 0, iov_len = len, uio_offset = pos,
     uio_resid = len, uio_segflg = UIO_SYSSPACE, uio_rw = rw, uio_space = None, uio_user = no_user\<rparr>"

section \<open>Moving data through a kernel uio\<close>

definition kuio :: "uio \<Rightarrow> bool" where
  "kuio u \<longleftrightarrow> uio_segflg u = UIO_SYSSPACE \<and> uio_space u = None \<and> iov_koff u + iov_len u \<le> length (iov_kbuf u) \<and>
     uio_resid u \<le> iov_len u \<and> uio_resid u < 2 ^ 32 \<and> 0 \<le> uio_offset u \<and> uio_offset u + int (uio_resid u) < 2 ^ 31"

definition uio_took :: "nat \<Rightarrow> uio \<Rightarrow> uio" where
  "uio_took n u = u\<lparr>iov_koff := iov_koff u + n, iov_len := iov_len u - n, uio_resid := uio_resid u - n,
     uio_offset := uio_offset u + int n\<rparr>"

lemma uio_took_0 [simp]: "uio_took 0 u = u"
  by (simp add: uio_took_def)

lemma uio_took_add: "uio_took m (uio_took n u) = uio_took (n + m) u"
  by (simp add: uio_took_def add.assoc)

lemma uio_took_simps [simp]:
  "iov_kbuf (uio_took n u) = iov_kbuf u" "iov_koff (uio_took n u) = iov_koff u + n" "iov_len (uio_took n u) = iov_len u - n"
  "uio_resid (uio_took n u) = uio_resid u - n" "uio_offset (uio_took n u) = uio_offset u + int n"
  "uio_segflg (uio_took n u) = uio_segflg u" "uio_rw (uio_took n u) = uio_rw u" "uio_space (uio_took n u) = uio_space u"
  "uio_user (uio_took n u) = uio_user u"
  "uio_took n (u\<lparr>iov_kbuf := k\<rparr>) = (uio_took n u)\<lparr>iov_kbuf := k\<rparr>"
  by (simp_all add: uio_took_def)

lemma kuio_took: "kuio u \<Longrightarrow> n \<le> uio_resid u \<Longrightarrow> kuio (uio_took n u)"
  by (auto simp: kuio_def)

lemma kuio_kbuf: "kuio u \<Longrightarrow> length k = length (iov_kbuf u) \<Longrightarrow> kuio (u\<lparr>iov_kbuf := k\<rparr>)"
  by (simp add: kuio_def)

lemma uio_advance_eq:
  assumes "n \<le> uio_resid u" and "uio_resid u < 2 ^ 32" and "0 \<le> uio_offset u" and "uio_offset u + int n < 2 ^ 31"
  shows "uio_advance n u = u\<lparr>iov_len := iov_len u - n, uio_resid := uio_resid u - n, uio_offset := uio_offset u + int n\<rparr>"
proof -
  have "(int (uio_resid u) - int n) mod 2 ^ 32 = int (uio_resid u - n)" using assms by (simp add: of_nat_diff)
  then show ?thesis using assms by (simp add: uio_advance_def)
qed

lemma uiomove_loop_none: "n = 0 \<or> uio_resid u = 0 \<Longrightarrow> uiomove_loop buf p n u = Some (Inr (), buf, u)"
  by (subst uiomove_loop.simps) auto

lemma uiomove_one_chunk:
  assumes "kuio u" and "n \<le> uio_resid u"
    and "uiomove_chunk buf p n u = Some (Inr (), buf', u')" and "uio_resid u' = uio_resid u" and "uio_offset u' = uio_offset u"
  shows "uiomove buf p n u = Some (Inr (), if n = 0 then buf else buf', if n = 0 then u else
    u'\<lparr>iov_len := iov_len u' - n, uio_resid := uio_resid u - n, uio_offset := uio_offset u + int n\<rparr>)"
proof (cases "n = 0")
  case True
  then show ?thesis using assms(1) by (simp add: uiomove_def uiomove_loop_none kuio_def)
next
  case False
  have n: "min (iov_len u) n = n" using assms(1,2) by (simp add: kuio_def)
  have "uio_advance n u' = u'\<lparr>iov_len := iov_len u' - n, uio_resid := uio_resid u' - n, uio_offset := uio_offset u' + int n\<rparr>"
    by (rule uio_advance_eq) (use assms in \<open>auto simp: kuio_def\<close>)
  moreover have "uiomove buf p n u = uiomove_loop buf' (p + n) 0 (uio_advance n u')"
    unfolding uiomove_def by (subst uiomove_loop.simps) (use False n assms in \<open>simp add: kuio_def\<close>)
  ultimately show ?thesis using False assms(4,5) by (simp add: uiomove_loop_none)
qed

lemma uiomove_read:
  assumes "kuio u" and "uio_rw u = UIO_READ" and "n \<le> uio_resid u" and "p + n \<le> length buf"
  shows "uiomove buf p n u = Some (Inr (), buf,
    (uio_took n u)\<lparr>iov_kbuf := take (iov_koff u) (iov_kbuf u) @ take n (drop p buf) @ drop (iov_koff u + n) (iov_kbuf u)\<rparr>)"
proof -
  let ?k = "take (iov_koff u) (iov_kbuf u) @ take n (drop p buf) @ drop (iov_koff u + n) (iov_kbuf u)"
  have len: "length (take n (drop p buf)) = n" using assms(4) by simp
  then have "uiomove_chunk buf p n u = Some (Inr (), buf, u\<lparr>iov_kbuf := ?k, iov_koff := iov_koff u + n\<rparr>)"
    using assms unfolding uiomove_chunk_def blk_get_def blk_put_def len by (auto simp: kuio_def)
  from uiomove_one_chunk [OF assms(1,3) this] show ?thesis by (simp add: uio_took_def)
qed

lemma uiomove_write:
  assumes "kuio u" and "uio_rw u = UIO_WRITE" and "n \<le> uio_resid u" and "p + n \<le> length buf"
  shows "uiomove buf p n u = Some (Inr (), take p buf @ take n (drop (iov_koff u) (iov_kbuf u)) @ drop (p + n) buf, uio_took n u)"
proof -
  have fits: "iov_koff u + n \<le> length (iov_kbuf u)" using assms(1,3) by (simp add: kuio_def)
  then have mn: "min (length (iov_kbuf u) - iov_koff u) n = n" by simp
  have "uiomove_chunk buf p n u = Some (Inr (), take p buf @ take n (drop (iov_koff u) (iov_kbuf u)) @ drop (p + n) buf,
      u\<lparr>iov_koff := iov_koff u + n\<rparr>)"
    using assms fits by (simp add: uiomove_chunk_def blk_get_def blk_put_def kuio_def mn)
  from uiomove_one_chunk [OF assms(1,3) this] show ?thesis by (simp add: uio_took_def)
qed

lemma uiomovezeros_read:
  assumes "kuio u" and "uio_rw u = UIO_READ" and "n \<le> uio_resid u"
  shows "uiomovezeros n u = Some (Inr (),
    (uio_took n u)\<lparr>iov_kbuf := take (iov_koff u) (iov_kbuf u) @ replicate n 0 @ drop (iov_koff u + n) (iov_kbuf u)\<rparr>)"
proof -
  have "uiomovezeros_loop n u = Some (Inr (),
    (uio_took n u)\<lparr>iov_kbuf := take (iov_koff u) (iov_kbuf u) @ replicate n 0 @ drop (iov_koff u + n) (iov_kbuf u)\<rparr>)"
    using assms
  proof (induction n u rule: uiomovezeros_loop.induct)
    case (1 n u)
    show ?case
    proof (cases "n = 0")
      case False
      define a where "a = min 16 n"
      have a: "a \<le> n" "a \<le> 16" "a \<noteq> 0" using False by (auto simp: a_def)
      define u1 where "u1 = (uio_took a u)\<lparr>iov_kbuf := take (iov_koff u) (iov_kbuf u) @ replicate a 0 @ drop (iov_koff u + a) (iov_kbuf u)\<rparr>"
      have kb: "iov_koff u + n \<le> length (iov_kbuf u)" using "1.prems" by (auto simp: kuio_def)
      have m: "uiomove (replicate 16 0) 0 a u = Some (Inr (), replicate 16 0, u1)"
        using uiomove_read [OF "1.prems"(1,2), of a 0 "replicate 16 0"] "1.prems"(3) a by (simp add: u1_def min_def)
      have k1: "kuio u1" using "1.prems" a kb by (auto simp: u1_def intro!: kuio_kbuf kuio_took)
      have "uiomovezeros_loop (n - a) u1 = Some (Inr (), (uio_took (n - a) u1)\<lparr>iov_kbuf :=
          take (iov_koff u1) (iov_kbuf u1) @ replicate (n - a) 0 @ drop (iov_koff u1 + (n - a)) (iov_kbuf u1)\<rparr>)"
        by (rule "1.IH" [OF _ a_def m refl refl refl]) (use False k1 "1.prems" a in \<open>simp_all add: u1_def\<close>)
      moreover have "replicate a (0 :: byte) @ replicate (n - a) 0 @ xs = replicate n 0 @ xs" for xs
        using a(1) by (metis append_assoc le_add_diff_inverse replicate_add)
      ultimately show ?thesis
        using False m a kb
        by (subst uiomovezeros_loop.simps)
          (simp add: Let_def a_def [symmetric] u1_def uio_took_add add.commute)
    qed (simp add: uiomovezeros_loop.simps)
  qed
  then show ?thesis using assms(2) by (simp add: uiomovezeros_def)
qed

section \<open>Properties\<close>

lemma user_store_frame:
  "user_store m a bs = (m', ok) \<Longrightarrow>
     (\<forall>x. x < a \<or> a + length bs \<le> x \<longrightarrow> um_byte m' x = um_byte m x) \<and> um_space m' = um_space m \<and> um_writable m' = um_writable m \<and>
     (\<forall>x. um_byte m' x = None \<longleftrightarrow> um_byte m x = None)"
proof (induction m a bs rule: user_store.induct)
  case (2 m a b bs)
  then show ?case by (fastforce split: if_splits)
qed simp

lemma user_store_all:
  "(\<forall>i < length bs. um_byte m (a + i) \<noteq> None \<and> um_writable m (a + i)) \<Longrightarrow>
     snd (user_store m a bs) \<and> (\<forall>i < length bs. um_byte (fst (user_store m a bs)) (a + i) = Some (bs ! i))"
proof (induction m a bs rule: user_store.induct)
  case (2 m a b bs)
  let ?m = "m\<lparr>um_byte := (um_byte m)(a \<mapsto> b)\<rparr>"
  have here: "um_byte m a \<noteq> None" "um_writable m a" using "2.prems" by (force dest: spec [of _ 0])+
  have rest: "\<forall>i < length bs. um_byte ?m (a + 1 + i) \<noteq> None \<and> um_writable ?m (a + 1 + i)"
    using "2.prems" by (auto dest: spec [of _ "Suc _"])
  have IH: "snd (user_store ?m (a + 1) bs)" "\<forall>i < length bs. um_byte (fst (user_store ?m (a + 1) bs)) (a + 1 + i) = Some (bs ! i)"
    using "2.IH" [OF _ rest] here by auto
  have at: "um_byte (fst (user_store ?m (a + 1) bs)) a = Some b"
    using user_store_frame [of ?m "a + 1" bs] by (cases "user_store ?m (a + 1) bs") simp
  have "um_byte (fst (user_store ?m (a + 1) bs)) (a + i) = Some ((b # bs) ! i)" if "i < length (b # bs)" for i
    using that at IH(2) by (cases i) auto
  then show ?case using here IH(1) by simp
qed simp

lemma user_fetch_all:
  "(\<forall>i < n. um_byte m (a + i) = Some (bs ! i)) \<Longrightarrow> length bs = n \<Longrightarrow> user_fetch m a n = (bs, True)"
proof (induction n arbitrary: a bs)
  case (Suc n)
  then obtain b bs' where bs: "bs = b # bs'" by (cases bs) auto
  have "um_byte m a = Some b" using Suc.prems bs by (auto dest: spec [of _ 0])
  moreover have "user_fetch m (a + 1) n = (bs', True)"
    by (rule Suc.IH) (use Suc.prems bs in \<open>auto dest: spec [of _ "Suc _"]\<close>)
  ultimately show ?case using bs by simp
qed simp

lemma copycheck_bounds: "copycheck a n = Inr stop \<Longrightarrow> n < 2 ^ 32 \<Longrightarrow> a + stop \<le> USERTOP"
proof -
  assume ok: "copycheck a n = Inr stop" and n: "n < 2 ^ 32"
  let ?top = "nat ((int a + int n - 1) mod 2 ^ 32)"
  have a: "\<not> ?top < a" "a < USERTOP" using ok by (auto simp: copycheck_def Let_def split: if_splits)
  show ?thesis
  proof (cases "?top \<ge> USERTOP")
    case True
    then have "stop = USERTOP - a" using ok a by (simp add: copycheck_def Let_def)
    then show ?thesis using a by simp
  next
    case False
    then have stop: "stop = n" using ok a by (simp add: copycheck_def Let_def)
    have "n \<noteq> 0"
    proof
      assume "n = 0"
      then have "?top = (if a = 0 then 2 ^ 32 - 1 else a - 1)" using a(2) by (simp add: USERTOP_def nat_diff_distrib)
      then show False using a(1) False by (simp add: USERTOP_def split: if_splits)
    qed
    have "int a + int n - 1 < 2 ^ 32"
    proof (rule ccontr)
      assume big: "\<not> int a + int n - 1 < 2 ^ 32"
      have "(int a + int n - 1) mod 2 ^ 32 = (int a + int n - 1 - 2 ^ 32) mod 2 ^ 32" by (rule minus_mod_self2 [symmetric])
      also have "\<dots> = int a + int n - 1 - 2 ^ 32"
        using a(2) n big by (intro mod_pos_pos_trivial) (auto simp: USERTOP_def)
      finally show False using a(1) n by simp
    qed
    then have "?top = a + n - 1" using \<open>n \<noteq> 0\<close> by simp
    then show ?thesis using False stop \<open>n \<noteq> 0\<close> by simp
  qed
qed

lemma copyout_outcome:
  assumes "copyout src p m a len = Some (r, m')" and "len < 2 ^ 32"
  obtains (refused) "r = Inl EFAULT" "m' = m"
  | (tried) ok where "a + len \<le> USERTOP" "p + len \<le> length src" "user_store m a (take len (drop p src)) = (m', ok)"
      "r = (if ok then Inr () else Inl EFAULT)"
proof (cases "copycheck a len")
  case (Inl e)
  then have "e = EFAULT" by (auto simp: copycheck_def Let_def split: if_splits)
  then show ?thesis using refused Inl assms(1) by (simp add: copyout_def)
next
  case (Inr stop)
  show ?thesis
  proof (cases "stop = len")
    case True
    then have "a + len \<le> USERTOP" using copycheck_bounds [OF Inr assms(2)] by simp
    then show ?thesis using tried assms(1) Inr True
      by (cases "user_store m a (take len (drop p src))") (auto simp: copyout_def blk_get_def split: if_splits)
  next
    case False
    then show ?thesis using refused Inr assms(1) by (simp add: copyout_def)
  qed
qed

lemma user_store_ok_contents:
  "user_store m a bs = (m', True) \<Longrightarrow> i < length bs \<Longrightarrow> um_byte m' (a + i) = Some (bs ! i)"
proof (induction m a bs arbitrary: i rule: user_store.induct)
  case (2 m a b bs)
  let ?m = "m\<lparr>um_byte := (um_byte m)(a \<mapsto> b)\<rparr>"
  have ok: "\<not> (um_byte m a = None \<or> \<not> um_writable m a)" "user_store ?m (a + 1) bs = (m', True)"
    using "2.prems"(1) by (auto split: if_splits)
  show ?case
  proof (cases i)
    case 0
    then show ?thesis using user_store_frame [OF ok(2)] by simp
  next
    case (Suc j)
    then show ?thesis using "2.IH" [OF ok, of j] "2.prems"(2) by simp
  qed
qed simp

text \<open>
  C31. No copy to user space writes a byte of kernel memory: whatever address and length the
  caller passes, \<open>copyout\<close> changes only bytes of the requested range below \<open>USERTOP\<close>, and it
  reports \<open>EFAULT\<close> unless the whole range now holds the data.
\<close>

theorem copyout_user_only:
  assumes "copyout src p m a len = Some (r, m')" and "len < 2 ^ 32"
  shows "(\<forall>x. um_byte m' x = um_byte m x \<or> a \<le> x \<and> x < a + len \<and> x < USERTOP) \<and>
    (r = Inl EFAULT \<or> r = Inr () \<and> (\<forall>i < len. um_byte m' (a + i) = Some (src ! (p + i))))"
  using assms
proof (cases rule: copyout_outcome)
  case refused
  then show ?thesis by simp
next
  case (tried ok)
  let ?bs = "take len (drop p src)"
  have len: "length ?bs = len" using tried(2) by simp
  have "um_byte m' x = um_byte m x \<or> a \<le> x \<and> x < a + len \<and> x < USERTOP" for x
    using user_store_frame [OF tried(3)] len tried(1) by (cases "x < a \<or> a + len \<le> x") auto
  moreover have "ok \<Longrightarrow> i < len \<Longrightarrow> um_byte m' (a + i) = Some (src ! (p + i))" for i
    using user_store_ok_contents [of m a ?bs m' i] tried(2,3) len by simp
  ultimately show ?thesis using tried(4) by auto
qed

definition small_user :: umem where
  "small_user = \<lparr>um_space = Some 1, um_byte = (\<lambda>x. if 4096 \<le> x \<and> x < 4104 then Some 0 else None), um_writable = (\<lambda>x. True)\<rparr>"

theorem copyout_user_only_witness:
  "(\<forall>x. um_byte (snd (the (copyout [1, 2, 3] 0 small_user 4102 3))) x = um_byte small_user x \<or> 4102 \<le> x \<and> x < 4102 + 3 \<and> x < USERTOP) \<and>
   (fst (the (copyout [1, 2, 3] 0 small_user 4102 3)) = Inl EFAULT \<or> fst (the (copyout [1, 2, 3] 0 small_user 4102 3)) = Inr () \<and>
    (\<forall>i < 3. um_byte (snd (the (copyout [1, 2, 3] 0 small_user 4102 3))) (4102 + i) = Some ([1, 2, 3] ! (0 + i))))"
proof -
  have "copyout [1, 2, 3] 0 small_user 4102 3 =
      Some (fst (the (copyout [1, 2, 3] 0 small_user 4102 3)), snd (the (copyout [1, 2, 3] 0 small_user 4102 3)))"
    by (simp add: copyout_def copycheck_def USERTOP_def Let_def blk_get_def small_user_def numeral_3_eq_3)
  then show ?thesis by (rule copyout_user_only) simp
qed

text \<open>
  What the kernel copies out to mapped, writable user memory it copies in again unchanged.
\<close>

theorem copyout_copyin:
  assumes "p + len \<le> length src" and "0 < len" and "a + len \<le> USERTOP" and "len \<le> length dest"
    and "\<forall>i < len. um_byte m (a + i) \<noteq> None \<and> um_writable m (a + i)"
  shows "\<exists>m'. copyout src p m a len = Some (Inr (), m') \<and>
    copyin m' a dest 0 len = Some (Inr (), take len (drop p src) @ drop len dest)"
proof -
  let ?bs = "take len (drop p src)"
  have len: "length ?bs = len" using assms(1) by simp
  have "nat ((int a + int len - 1) mod 2 ^ 32) = a + len - 1" using assms(2,3) by (simp add: USERTOP_def)
  then have chk: "copycheck a len = Inr len" using assms(2,3) unfolding copycheck_def Let_def by auto
  obtain m' where m': "user_store m a ?bs = (m', True)" "\<forall>i < len. um_byte m' (a + i) = Some (?bs ! i)"
    using user_store_all [of ?bs m a] assms(5) len by (cases "user_store m a ?bs") auto
  have "user_fetch m' a len = (?bs, True)" by (rule user_fetch_all [OF m'(2) len])
  then show ?thesis
    using assms(1,4) m'(1) len by (auto simp: copyout_def copyin_def chk blk_get_def blk_put_def)
qed

theorem copyout_copyin_witness:
  "\<exists>m'. copyout [1, 2, 3] 0 small_user 4100 3 = Some (Inr (), m') \<and>
    copyin m' 4100 [9, 9, 9, 9] 0 3 = Some (Inr (), take 3 (drop 0 [1, 2, 3]) @ drop 3 [9, 9, 9, 9])"
  by (rule copyout_copyin) (auto simp: USERTOP_def small_user_def)

text \<open>What every transfer keeps of the structure.\<close>

definition same_target :: "uio \<Rightarrow> uio \<Rightarrow> bool" where
  "same_target u u' \<longleftrightarrow> uio_segflg u' = uio_segflg u \<and> uio_rw u' = uio_rw u \<and> uio_space u' = uio_space u"

lemma copyin_length: "copyin m a dest p n = Some (r, dest') \<Longrightarrow> length dest' = length dest"
  by (auto simp: copyin_def bind_Some_iff blk_put_Some split: sum.split_asm if_split_asm prod.split_asm)

lemma uiomove_chunk_keeps:
  assumes "uiomove_chunk buf p n u = Some (r, buf', u')"
  shows "same_target u u' \<and> uio_resid u' = uio_resid u \<and> uio_offset u' = uio_offset u \<and> iov_len u' = iov_len u \<and> length buf' = length buf"
proof (cases "uio_segflg u = UIO_SYSSPACE")
  case True
  then show ?thesis using assms
    by (cases "uio_rw u") (auto simp: uiomove_chunk_def same_target_def bind_Some_iff blk_put_Some)
next
  case False
  then have seg: "uiomove_chunk buf p n u = (case uio_rw u of
      UIO_READ \<Rightarrow> copyout buf p (uio_user u) (iov_ubase u) n \<bind> (\<lambda>(q, m). Some (q, buf,
        case q of Inl e \<Rightarrow> u\<lparr>uio_user := m\<rparr> | Inr x \<Rightarrow> u\<lparr>uio_user := m, iov_ubase := (iov_ubase u + n) mod 2 ^ 32\<rparr>))
    | UIO_WRITE \<Rightarrow> copyin (uio_user u) (iov_ubase u) buf p n \<bind> (\<lambda>(q, b). Some (q, b,
        case q of Inl e \<Rightarrow> u | Inr x \<Rightarrow> u\<lparr>iov_ubase := (iov_ubase u + n) mod 2 ^ 32\<rparr>)))"
    by (cases "uio_segflg u") (auto simp: uiomove_chunk_def Let_def intro!: Option.bind_cong split: uio_rw.split sum.split)
  show ?thesis using assms copyin_length unfolding seg same_target_def
    by (cases r; cases "uio_rw u") (auto simp: bind_Some_iff)
qed

lemma uiomove_loop_accounts:
  assumes "uiomove_loop buf p n u = Some (r, buf', u')" and "n \<le> uio_resid u" and "uio_resid u < 2 ^ 32"
    and "0 \<le> uio_offset u" and "uio_offset u + int n < 2 ^ 31"
  shows "\<exists>k \<le> n. uio_resid u' = uio_resid u - k \<and> uio_offset u' = uio_offset u + int k \<and> iov_len u' = iov_len u - k \<and>
    (\<forall>x. r = Inr x \<longrightarrow> k = n) \<and> same_target u u'"
  using assms
proof (induction buf p n u rule: uiomove_loop.induct)
  case (1 buf p n u)
  show ?case
  proof (cases "n > 0 \<and> uio_resid u > 0")
    case True
    define sz where "sz = min (iov_len u) n"
    have sz: "sz \<noteq> 0" "sz \<le> n" using "1.prems"(1) True by (subst (asm) uiomove_loop.simps, auto simp: sz_def Let_def split: if_splits)+
    obtain q buf1 u1 where ch: "uiomove_chunk buf p sz u = Some (q, buf1, u1)"
      using "1.prems"(1) True by (subst (asm) uiomove_loop.simps) (auto simp: sz_def Let_def split: if_splits option.splits)
    note keep = uiomove_chunk_keeps [OF ch]
    show ?thesis
    proof (cases q)
      case (Inl e)
      then have "r = Inl e" "u' = u1" using "1.prems"(1) True ch sz by (subst (asm) uiomove_loop.simps, simp add: sz_def [symmetric] Let_def)+
      then show ?thesis using keep by (intro exI [of _ 0]) simp
    next
      case (Inr x)
      have loop: "uiomove_loop buf1 (p + sz) (n - sz) (uio_advance sz u1) = Some (r, buf', u')"
        using "1.prems"(1) True ch sz Inr by (subst (asm) uiomove_loop.simps) (simp add: sz_def [symmetric] Let_def)
      have adv: "uio_advance sz u1 = u1\<lparr>iov_len := iov_len u1 - sz, uio_resid := uio_resid u1 - sz, uio_offset := uio_offset u1 + int sz\<rparr>"
        by (rule uio_advance_eq) (use keep "1.prems" sz in auto)
      have "\<exists>k \<le> n - sz. uio_resid u' = uio_resid (uio_advance sz u1) - k \<and> uio_offset u' = uio_offset (uio_advance sz u1) + int k \<and>
          iov_len u' = iov_len (uio_advance sz u1) - k \<and> (\<forall>x. r = Inr x \<longrightarrow> k = n - sz) \<and> same_target (uio_advance sz u1) u'"
        by (rule "1.IH" [OF True sz_def sz(1) ch refl Inr refl loop]) (use keep "1.prems" sz in \<open>auto simp: adv\<close>)
      then obtain k where "k \<le> n - sz" "uio_resid u' = uio_resid u - (sz + k)" "uio_offset u' = uio_offset u + int (sz + k)"
          "iov_len u' = iov_len u - (sz + k)" "\<forall>x. r = Inr x \<longrightarrow> k = n - sz" "same_target u u'"
        using keep by (auto simp: adv same_target_def)
      then show ?thesis using sz by (intro exI [of _ "sz + k"]) auto
    qed
  next
    case False
    then show ?thesis using "1.prems" by (auto simp: uiomove_loop_none same_target_def intro!: exI [of _ 0])
  qed
qed

text \<open>
  \<open>uiomove\<close> keeps the books: on success and on a fault alike, to kernel and to user memory,
  the offset has grown and the residue and the length of the region have shrunk by the same
  amount, which is \<open>n\<close> on success; the direction, the segment and the space are unchanged.
\<close>

theorem uiomove_accounts:
  assumes "uiomove buf p n u = Some (r, buf', u')" and "n \<le> uio_resid u" and "uio_resid u < 2 ^ 32"
    and "0 \<le> uio_offset u" and "uio_offset u + int n < 2 ^ 31"
  shows "\<exists>k \<le> n. uio_resid u' = uio_resid u - k \<and> uio_offset u' = uio_offset u + int k \<and> iov_len u' = iov_len u - k \<and>
    (k = n \<or> (\<exists>e. r = Inl e)) \<and> same_target u u'"
  using uiomove_loop_accounts [of buf p n u r buf' u'] assms by (cases r) (auto simp: uiomove_def split: if_splits)

definition user_uio :: uio where
  "user_uio = \<lparr>iov_kbuf = [], iov_koff = 0, iov_ubase = 4100, iov_len = 4, uio_offset = 10, uio_resid = 4,
     uio_segflg = UIO_USERSPACE, uio_rw = UIO_READ, uio_space = Some 1, uio_user = small_user\<rparr>"

theorem uiomove_accounts_witness:
  "\<exists>k \<le> 3. uio_resid (snd (snd (the (uiomove [1, 2, 3] 0 3 user_uio)))) = uio_resid user_uio - k \<and>
    uio_offset (snd (snd (the (uiomove [1, 2, 3] 0 3 user_uio)))) = uio_offset user_uio + int k \<and>
    iov_len (snd (snd (the (uiomove [1, 2, 3] 0 3 user_uio)))) = iov_len user_uio - k \<and>
    (k = 3 \<or> (\<exists>e. fst (the (uiomove [1, 2, 3] 0 3 user_uio)) = Inl e)) \<and>
    same_target user_uio (snd (snd (the (uiomove [1, 2, 3] 0 3 user_uio))))"
proof -
  have "\<exists>x. uiomove [1, 2, 3] 0 3 user_uio = Some x"
    unfolding uiomove_def by (subst uiomove_loop.simps)
      (simp add: user_uio_def uiomove_chunk_def copyout_def copycheck_def USERTOP_def Let_def blk_get_def small_user_def numeral_3_eq_3 uiomove_loop_none)
  then obtain r b u where x: "uiomove [1, 2, 3] 0 3 user_uio = Some (r, b, u)" by auto
  show ?thesis unfolding x by simp (rule uiomove_accounts [OF x], simp_all add: user_uio_def)
qed

end
