(* ===== verification/Lhd.thy ===== *)
theory Lhd
  imports Uio
begin

text \<open>
  The disk driver \<open>dev/lamebus/lhd.c\<close>.

  The card is part of the state: its registers, its transfer buffer and the sectors of the
  medium. The status code it reports for each operation is a parameter, \<open>hw_status\<close>: an
  operation that ends in \<open>LHD_OK\<close> has moved one sector between the medium and the buffer, any
  other has moved nothing. The interrupt handler runs when the operation ends, before the
  \<open>P\<close> on \<open>lh_done\<close> goes through. A \<open>P\<close> on a semaphore whose count is zero with nobody left
  to raise it is \<open>None\<close>: the thread does not come back.
\<close>

unbundle bit_operations_syntax

definition LHD_SECTSIZE :: nat where "LHD_SECTSIZE = 512"
definition LHD_IDLE :: int where "LHD_IDLE = 0"
definition LHD_WORKING :: int where "LHD_WORKING = 1"
definition LHD_OK :: int where "LHD_OK = 4"
definition LHD_INVSECT :: int where "LHD_INVSECT = 12"
definition LHD_MEDIA :: int where "LHD_MEDIA = 20"
definition LHD_ISWRITE :: int where "LHD_ISWRITE = 2"
definition LHD_STATEMASK :: int where "LHD_STATEMASK = 0x1d"

lemmas lhd_codes = LHD_IDLE_def LHD_WORKING_def LHD_OK_def LHD_INVSECT_def LHD_MEDIA_def LHD_ISWRITE_def LHD_STATEMASK_def

record lhd_softc =
  lh_buf :: "byte list"
  lh_result :: "unit kres"
  lh_clear :: int
  lh_done :: int
  d_blocks :: nat
  d_blocksize :: nat
  reg_stat :: int
  reg_sect :: nat
  hw_sect :: "nat \<Rightarrow> byte list"
  hw_status :: "nat \<Rightarrow> int"
  hw_ops :: nat

definition lhd_code_to_errno :: "int \<Rightarrow> unit kres" where
  "lhd_code_to_errno code =
     (let s = code AND LHD_STATEMASK in
      if s = LHD_OK then Inr () else if s = LHD_INVSECT then Inl EINVAL
      else if s = LHD_MEDIA then Inl EIO else Inl EAGAIN)"

definition lhd_iodone :: "lhd_softc \<Rightarrow> unit kres \<Rightarrow> lhd_softc" where
  "lhd_iodone lh err = lh\<lparr>lh_result := err, lh_done := lh_done lh + 1\<rparr>"

definition lhd_irq :: "lhd_softc \<Rightarrow> lhd_softc" where
  "lhd_irq lh =
     (let val = reg_stat lh; s = val AND LHD_STATEMASK in
      if s = LHD_OK \<or> s = LHD_INVSECT \<or> s = LHD_MEDIA
      then lhd_iodone (lh\<lparr>reg_stat := 0\<rparr>) (lhd_code_to_errno val)
      else lh)"

text \<open>The card carries out the operation started by a store to the status register.\<close>

definition hw_run :: "lhd_softc \<Rightarrow> lhd_softc" where
  "hw_run lh =
     (let write = reg_stat lh AND LHD_ISWRITE \<noteq> 0; st = hw_status lh (hw_ops lh);
          lh1 = lh\<lparr>reg_stat := st, hw_ops := hw_ops lh + 1\<rparr> in
      if st AND LHD_STATEMASK \<noteq> LHD_OK then lh1
      else if write then lh1\<lparr>hw_sect := (hw_sect lh)(reg_sect lh := lh_buf lh)\<rparr>
      else lh1\<lparr>lh_buf := hw_sect lh (reg_sect lh)\<rparr>)"

text \<open>\<open>P\<close> and \<open>V\<close> on the two semaphores of the driver.\<close>

definition clear_P :: "lhd_softc \<Rightarrow> lhd_softc option" where
  "clear_P lh = (if lh_clear lh > 0 then Some (lh\<lparr>lh_clear := lh_clear lh - 1\<rparr>) else None)"

definition clear_V :: "lhd_softc \<Rightarrow> lhd_softc" where
  "clear_V lh = lh\<lparr>lh_clear := lh_clear lh + 1\<rparr>"

definition done_P :: "lhd_softc \<Rightarrow> lhd_softc option" where
  "done_P lh = (if lh_done lh > 0 then Some (lh\<lparr>lh_done := lh_done lh - 1\<rparr>) else None)"

text \<open>Starting an operation on a sector and waiting for it.\<close>

definition lhd_operate :: "int \<Rightarrow> nat \<Rightarrow> lhd_softc \<Rightarrow> lhd_softc option" where
  "lhd_operate statval sector lh = done_P (lhd_irq (hw_run (lh\<lparr>reg_sect := sector, reg_stat := statval\<rparr>)))"

text \<open>One turn of the loop of \<open>lhd_io\<close>.\<close>

definition lhd_sector_io :: "int \<Rightarrow> nat \<Rightarrow> uio \<Rightarrow> lhd_softc \<Rightarrow> (unit kres \<times> uio \<times> lhd_softc) option" where
  "lhd_sector_io statval sector u lh = do {
     lh1 \<leftarrow> clear_P lh;
     (r1, buf, u1) \<leftarrow> (if uio_rw u = UIO_WRITE then uiomove (lh_buf lh1) 0 LHD_SECTSIZE u
                       else Some (Inr (), lh_buf lh1, u));
     let lh2 = lh1\<lparr>lh_buf := buf\<rparr>;
     case r1 of Inl e \<Rightarrow> Some (Inl e, u1, clear_V lh2)
     | Inr _ \<Rightarrow> do {
         lh3 \<leftarrow> lhd_operate statval sector lh2;
         (r2, u2) \<leftarrow> (if lh_result lh3 = Inr () \<and> uio_rw u1 = UIO_READ then do {
                          (r, _, u') \<leftarrow> uiomove (lh_buf lh3) 0 LHD_SECTSIZE u1;
                          Some (r, u')
                        }
                      else Some (lh_result lh3, u1));
         Some (r2, u2, clear_V lh3)
       }
   }"

primrec lhd_io_loop :: "int \<Rightarrow> nat \<Rightarrow> nat \<Rightarrow> uio \<Rightarrow> lhd_softc \<Rightarrow> (unit kres \<times> uio \<times> lhd_softc) option" where
  "lhd_io_loop statval sector 0 u lh = Some (Inr (), u, lh)"
| "lhd_io_loop statval sector (Suc n) u lh = do {
     (r, u1, lh1) \<leftarrow> lhd_sector_io statval sector u lh;
     case r of Inl e \<Rightarrow> Some (Inl e, u1, lh1)
     | Inr _ \<Rightarrow> lhd_io_loop statval ((sector + 1) mod 2 ^ 32) n u1 lh1
   }"

text \<open>The conversions of \<open>lhd_io\<close>: \<open>uio_offset\<close> is signed, the sector number is not.\<close>

definition c_quot :: "int \<Rightarrow> int \<Rightarrow> int" where
  "c_quot a b = sgn a * (\<bar>a\<bar> div b)"

definition lhd_io :: "uio \<Rightarrow> lhd_softc \<Rightarrow> (unit kres \<times> uio \<times> lhd_softc) option" where
  "lhd_io u lh =
     (let sector = nat (c_quot (uio_offset u) (int LHD_SECTSIZE) mod 2 ^ 32);
          sectoff = uio_offset u - int LHD_SECTSIZE * c_quot (uio_offset u) (int LHD_SECTSIZE);
          len = uio_resid u div LHD_SECTSIZE;
          lenoff = uio_resid u mod LHD_SECTSIZE;
          statval = (if uio_rw u = UIO_WRITE then LHD_WORKING OR LHD_ISWRITE else LHD_WORKING) in
      if sectoff \<noteq> 0 \<or> lenoff \<noteq> 0 then Some (Inl EINVAL, u, lh)
      else if (sector + len) mod 2 ^ 32 > d_blocks lh then Some (Inl EINVAL, u, lh)
      else lhd_io_loop statval sector len u lh)"

definition lhd_open :: "int \<Rightarrow> unit kres" where
  "lhd_open openflags = Inr ()"

definition lhd_close :: "unit kres" where
  "lhd_close = Inr ()"

definition lhd_ioctl :: "int \<Rightarrow> nat \<Rightarrow> unit kres" where
  "lhd_ioctl op data = Inl EIOCTL"

text \<open>
  \<open>config_lhd\<close> up to the registration with the VFS layer: \<open>mem1\<close> and \<open>mem2\<close> say whether the two
  semaphores can be created, \<open>nsect\<close> is the value of the register \<open>LHD_REG_NSECT\<close>.
\<close>

definition config_lhd :: "bool \<Rightarrow> bool \<Rightarrow> nat \<Rightarrow> lhd_softc \<Rightarrow> errno + lhd_softc" where
  "config_lhd mem1 mem2 nsect lh =
     (if \<not> mem1 then Inl ENOMEM
      else if \<not> mem2 then Inl ENOMEM
      else Inr (lh\<lparr>lh_clear := 1, lh_done := 0, d_blocks := nsect, d_blocksize := LHD_SECTSIZE\<rparr>))"

section \<open>One-sector transfers\<close>

text \<open>The state of the driver between two requests, and a card that reports no error from now on.\<close>

definition lhd_ok :: "lhd_softc \<Rightarrow> bool" where
  "lhd_ok lh \<longleftrightarrow> lh_clear lh = 1 \<and> lh_done lh = 0 \<and> length (lh_buf lh) = 512 \<and> (\<forall>s. length (hw_sect lh s) = 512) \<and>
     d_blocks lh < 2 ^ 22 \<and>
     (\<forall>n. hw_status lh n AND LHD_STATEMASK = LHD_OK \<or> hw_status lh n AND LHD_STATEMASK = LHD_INVSECT \<or>
          hw_status lh n AND LHD_STATEMASK = LHD_MEDIA)"

definition fault_free :: "lhd_softc \<Rightarrow> bool" where
  "fault_free lh \<longleftrightarrow> (\<forall>n \<ge> hw_ops lh. hw_status lh n AND LHD_STATEMASK = LHD_OK)"

definition lhd_moved :: "lhd_softc \<Rightarrow> lhd_softc \<Rightarrow> bool" where
  "lhd_moved lh lh' \<longleftrightarrow> lhd_ok lh' \<and> hw_ops lh \<le> hw_ops lh' \<and> hw_status lh' = hw_status lh \<and>
     d_blocks lh' = d_blocks lh \<and> d_blocksize lh' = d_blocksize lh"

lemma lhd_moved_trans: "lhd_moved a b \<Longrightarrow> lhd_moved b c \<Longrightarrow> lhd_moved a c"
  by (auto simp: lhd_moved_def)

lemma fault_free_moved: "fault_free a \<Longrightarrow> lhd_moved a b \<Longrightarrow> fault_free b"
  by (auto simp: fault_free_def lhd_moved_def)

definition lhd_finish :: "bool \<Rightarrow> nat \<Rightarrow> lhd_softc \<Rightarrow> lhd_softc" where
  "lhd_finish write b lh = (let r = lhd_code_to_errno (hw_status lh (hw_ops lh)) in
     lh\<lparr>reg_sect := b, reg_stat := 0, hw_ops := hw_ops lh + 1, lh_result := r, lh_done := 0,
       hw_sect := (if write \<and> r = Inr () then (hw_sect lh)(b := lh_buf lh) else hw_sect lh),
       lh_buf := (if write \<or> r \<noteq> Inr () then lh_buf lh else hw_sect lh b)\<rparr>)"

lemma lhd_operate_status:
  assumes "lh_done lh = 0" and "hw_status lh (hw_ops lh) AND LHD_STATEMASK \<in> {LHD_OK, LHD_INVSECT, LHD_MEDIA}"
  shows "lhd_operate st b lh = Some (lhd_finish (st AND LHD_ISWRITE \<noteq> 0) b lh)"
proof (cases "hw_status lh (hw_ops lh) AND LHD_STATEMASK = LHD_OK")
  case True
  then have "lhd_code_to_errno (hw_status lh (hw_ops lh)) = Inr ()" by (simp add: lhd_code_to_errno_def)
  with True assms(1) show ?thesis
    by (simp add: lhd_operate_def done_P_def lhd_irq_def hw_run_def lhd_iodone_def lhd_finish_def Let_def)
next
  case False
  then have "lhd_code_to_errno (hw_status lh (hw_ops lh)) \<noteq> Inr ()" by (simp add: lhd_code_to_errno_def Let_def)
  with False assms show ?thesis
    by (auto simp add: lhd_operate_def done_P_def lhd_irq_def hw_run_def lhd_iodone_def lhd_finish_def Let_def)
qed

lemma lhd_io_loop_1: "lhd_io_loop st b 1 u lh = lhd_sector_io st b u lh"
proof (cases "lhd_sector_io st b u lh")
  case (Some x)
  obtain r u1 lh1 where "x = (r, u1, lh1)" by (cases x)
  then show ?thesis using Some by (cases r) auto
qed simp

lemma lhd_io_enter:
  assumes "uio_resid u = 512" and "uio_offset u = int b * 512" and "b < d_blocks lh" and "d_blocks lh < 2 ^ 22"
  shows "lhd_io u lh = lhd_sector_io (if uio_rw u = UIO_WRITE then 3 else 1) b u lh"
proof -
  have q: "c_quot (int b * 512) 512 = int b" by (cases b) (auto simp: c_quot_def)
  have st: "LHD_WORKING = 1" "1 OR LHD_ISWRITE = 3" by (simp_all add: lhd_codes)
  have "lhd_io u lh = lhd_io_loop (if uio_rw u = UIO_WRITE then 3 else 1) b 1 u lh"
    using assms q unfolding lhd_io_def LHD_SECTSIZE_def st by (simp del: lhd_io_loop.simps One_nat_def)
  then show ?thesis unfolding lhd_io_loop_1 .
qed

lemma lhd_finish_moved:
  assumes "lhd_ok lh" and "length buf = 512"
  shows "lhd_moved lh (clear_V (lhd_finish w b (lh\<lparr>lh_clear := 0, lh_buf := buf\<rparr>)))"
  using assms by (auto simp: lhd_moved_def lhd_ok_def clear_V_def lhd_finish_def Let_def)

lemma lhd_operate_ok:
  assumes "lhd_ok lh"
  shows "lhd_operate st b (lh\<lparr>lh_clear := 0, lh_buf := buf\<rparr>) =
    Some (lhd_finish (st AND LHD_ISWRITE \<noteq> 0) b (lh\<lparr>lh_clear := 0, lh_buf := buf\<rparr>))"
  by (rule lhd_operate_status) (use assms in \<open>auto simp: lhd_ok_def\<close>)

lemma lhd_io_write:
  assumes ok: "lhd_ok lh" and u: "kuio u" "uio_rw u = UIO_WRITE" "uio_resid u = 512" "uio_offset u = int b * 512" and b: "b < d_blocks lh"
  obtains lh' where "lhd_moved lh lh'" and "hw_ops lh' = hw_ops lh + 1"
    and "lhd_io u lh = Some (lhd_code_to_errno (hw_status lh (hw_ops lh)), uio_took 512 u, lh')"
    and "hw_sect lh' = (if lhd_code_to_errno (hw_status lh (hw_ops lh)) = Inr () then (hw_sect lh)(b := take 512 (drop (iov_koff u) (iov_kbuf u)))
          else hw_sect lh)"
proof -
  let ?d = "take 512 (drop (iov_koff u) (iov_kbuf u))" and ?r = "lhd_code_to_errno (hw_status lh (hw_ops lh))"
  let ?l = "lhd_finish True b (lh\<lparr>lh_clear := 0, lh_buf := ?d\<rparr>)"
  have len: "length ?d = 512" using u(1,3) by (auto simp: kuio_def)
  have mv: "uiomove (lh_buf lh) 0 512 u = Some (Inr (), ?d, uio_took 512 u)"
    using uiomove_write [OF u(1,2), of 512 0 "lh_buf lh"] u(3) ok by (simp add: lhd_ok_def)
  have c: "clear_P lh = Some (lh\<lparr>lh_clear := 0\<rparr>)" "d_blocks lh < 2 ^ 22" using ok by (simp_all add: clear_P_def lhd_ok_def)
  have r: "lh_result ?l = ?r" by (simp add: lhd_finish_def Let_def)
  have "lhd_sector_io 3 b u lh = Some (?r, uio_took 512 u, clear_V ?l)"
    by (simp add: lhd_sector_io_def c LHD_SECTSIZE_def u(2) mv lhd_operate_ok [OF ok] r LHD_ISWRITE_def)
  then have "lhd_io u lh = Some (?r, uio_took 512 u, clear_V ?l)"
    using lhd_io_enter [OF u(3,4) b c(2)] u(2) by simp
  then show ?thesis by (rule that [OF lhd_finish_moved [OF ok len], rotated]) (simp_all add: clear_V_def lhd_finish_def Let_def)
qed

lemma lhd_io_read:
  assumes ok: "lhd_ok lh" and u: "kuio u" "uio_rw u = UIO_READ" "uio_resid u = 512" "uio_offset u = int b * 512" and b: "b < d_blocks lh"
  obtains lh' where "lhd_moved lh lh'" and "hw_ops lh' = hw_ops lh + 1" and "hw_sect lh' = hw_sect lh"
    and "lhd_io u lh = Some (lhd_code_to_errno (hw_status lh (hw_ops lh)),
      if lhd_code_to_errno (hw_status lh (hw_ops lh)) = Inr ()
      then (uio_took 512 u)\<lparr>iov_kbuf := take (iov_koff u) (iov_kbuf u) @ hw_sect lh b @ drop (iov_koff u + 512) (iov_kbuf u)\<rparr> else u, lh')"
proof -
  let ?r = "lhd_code_to_errno (hw_status lh (hw_ops lh))"
  let ?l = "lhd_finish False b (lh\<lparr>lh_clear := 0, lh_buf := lh_buf lh\<rparr>)"
  let ?u = "(uio_took 512 u)\<lparr>iov_kbuf := take (iov_koff u) (iov_kbuf u) @ hw_sect lh b @ drop (iov_koff u + 512) (iov_kbuf u)\<rparr>"
  have len: "length (lh_buf lh) = 512" "length (hw_sect lh b) = 512" using ok by (auto simp: lhd_ok_def)
  have mv: "uiomove (hw_sect lh b) 0 512 u = Some (Inr (), hw_sect lh b, ?u)"
    using uiomove_read [OF u(1,2), of 512 0 "hw_sect lh b"] u(3) len by simp
  have c: "clear_P lh = Some (lh\<lparr>lh_clear := 0\<rparr>)" "d_blocks lh < 2 ^ 22" using ok by (simp_all add: clear_P_def lhd_ok_def)
  have r: "lh_result ?l = ?r" "?r = Inr () \<Longrightarrow> lh_buf ?l = hw_sect lh b" by (simp_all add: lhd_finish_def Let_def)
  have op: "lhd_operate 1 b (lh\<lparr>lh_clear := 0, lh_buf := lh_buf lh\<rparr>) = Some ?l"
    using lhd_operate_ok [OF ok, of 1 b "lh_buf lh"] by (simp add: LHD_ISWRITE_def)
  have "lhd_sector_io 1 b u lh = Some (?r, if ?r = Inr () then ?u else u, clear_V ?l)"
  proof (cases "?r = Inr ()")
    case True
    then show ?thesis using op r by (simp add: lhd_sector_io_def c LHD_SECTSIZE_def u(2) mv)
  next
    case False
    then show ?thesis using op r by (simp add: lhd_sector_io_def c LHD_SECTSIZE_def u(2))
  qed
  then have io: "lhd_io u lh = Some (?r, if ?r = Inr () then ?u else u, clear_V ?l)"
    using lhd_io_enter [OF u(3,4) b c(2)] u(2) by simp
  show ?thesis by (rule that [OF lhd_finish_moved [OF ok len(1)] _ _ io]) (simp_all add: clear_V_def lhd_finish_def Let_def)
qed

end
