(* ===== verification/SfsDisk.thy ===== *)
theory SfsDisk
  imports Lhd Bitmap KArray
begin

text \<open>
  The file system on disk: the structures of \<open>include/kern/sfs.h\<close> with their byte layout, the
  mounted file system of \<open>include/sfs.h\<close>, and the block I/O of \<open>fs/sfs/sfs_io.c\<close>.

  A structure is written to disk as its memory image; the machine is big-endian and the
  layouts have no padding. Block numbers, sizes and counts are natural numbers; the fields
  are 16 or 32 bits wide, which \<open>inode_ok\<close> and its like say and which decoding ensures.
\<close>

section \<open>Constants\<close>

definition SFS_MAGIC :: nat where "SFS_MAGIC = 0xabadf001"
definition SFS_BLOCKSIZE :: nat where "SFS_BLOCKSIZE = 512"
definition SFS_VOLNAME_SIZE :: nat where "SFS_VOLNAME_SIZE = 32"
definition SFS_NDIRECT :: nat where "SFS_NDIRECT = 15"
definition SFS_DBPERIDB :: nat where "SFS_DBPERIDB = 128"
definition SFS_NAMELEN :: nat where "SFS_NAMELEN = 60"
definition SFS_SB_LOCATION :: nat where "SFS_SB_LOCATION = 0"
definition SFS_ROOT_LOCATION :: nat where "SFS_ROOT_LOCATION = 1"
definition SFS_MAP_LOCATION :: nat where "SFS_MAP_LOCATION = 2"
definition SFS_NOINO :: nat where "SFS_NOINO = 0"
definition SFS_TYPE_INVAL :: nat where "SFS_TYPE_INVAL = 0"
definition SFS_TYPE_FILE :: nat where "SFS_TYPE_FILE = 1"
definition SFS_TYPE_DIR :: nat where "SFS_TYPE_DIR = 2"

lemmas sfs_consts = SFS_BLOCKSIZE_def SFS_VOLNAME_SIZE_def SFS_NDIRECT_def SFS_DBPERIDB_def SFS_NAMELEN_def
  SFS_SB_LOCATION_def SFS_ROOT_LOCATION_def SFS_MAP_LOCATION_def SFS_NOINO_def SFS_TYPE_INVAL_def SFS_TYPE_FILE_def SFS_TYPE_DIR_def

definition SFS_BLOCKBITS :: nat where "SFS_BLOCKBITS = SFS_BLOCKSIZE * 8"

definition SFS_ROUNDUP :: "nat \<Rightarrow> nat \<Rightarrow> nat" where
  "SFS_ROUNDUP a b = ((a + b - 1) mod 2 ^ 32 div b * b) mod 2 ^ 32"

definition SFS_BITMAPSIZE :: "nat \<Rightarrow> nat" where
  "SFS_BITMAPSIZE nblocks = SFS_ROUNDUP nblocks SFS_BLOCKBITS"

definition SFS_BITBLOCKS :: "nat \<Rightarrow> nat" where
  "SFS_BITBLOCKS nblocks = SFS_BITMAPSIZE nblocks div SFS_BLOCKBITS"

section \<open>Byte order\<close>

definition be16 :: "nat \<Rightarrow> byte list" where
  "be16 n = [of_nat (n div 256), of_nat n]"

definition be32 :: "nat \<Rightarrow> byte list" where
  "be32 n = [of_nat (n div 256 div 256 div 256), of_nat (n div 256 div 256), of_nat (n div 256), of_nat n]"

fun de16 :: "byte list \<Rightarrow> nat" where
  "de16 [a, b] = unat a * 256 + unat b"
| "de16 _ = 0"

fun de32 :: "byte list \<Rightarrow> nat" where
  "de32 [a, b, c, d] = ((unat a * 256 + unat b) * 256 + unat c) * 256 + unat d"
| "de32 _ = 0"

definition enc32 :: "nat list \<Rightarrow> byte list" where
  "enc32 xs = concat (map be32 xs)"

fun dec32 :: "byte list \<Rightarrow> nat list" where
  "dec32 (a # b # c # d # r) = de32 [a, b, c, d] # dec32 r"
| "dec32 _ = []"

lemma unat_byte: "unat (of_nat n :: byte) = n mod 256"
  by (simp add: unat_of_nat)

lemma unat_byte_less: "unat (a :: byte) < 256"
proof -
  have "unat a < 2 ^ LENGTH(8)" by (rule unsigned_less)
  then show ?thesis by simp
qed

lemma length_be [simp]: "length (be16 n) = 2" "length (be32 n) = 4"
  by (simp_all add: be16_def be32_def)

lemma de16_be16: "n < 2 ^ 16 \<Longrightarrow> de16 (be16 n) = n"
  using div_mult_mod_eq [of n 256] by (simp add: be16_def unat_byte div_less_iff_less_mult)

lemma de32_be32:
  assumes "n < 2 ^ 32"
  shows "de32 (be32 n) = n"
proof -
  have "n div 256 div 256 div 256 < 256" using assms by (simp add: div_less_iff_less_mult)
  then show ?thesis
    using div_mult_mod_eq [of n 256] div_mult_mod_eq [of "n div 256" 256] div_mult_mod_eq [of "n div 256 div 256" 256]
    by (simp add: be32_def unat_byte)
qed

lemma byte_of_parts: "unat b < 256 \<Longrightarrow> (of_nat (k * 256 + unat (b :: byte)) :: byte) = b"
  by (metis mod_mult_self3 unat_byte mod_less word_unat_eq_iff)

lemma be16_de16:
  assumes "length bs = 2"
  shows "be16 (de16 bs) = bs"
proof -
  obtain a b where "bs = [a, b]" using assms by (auto simp: length_Suc_conv numeral_2_eq_2)
  moreover have "(unat a * 256 + unat b) div 256 = unat a" using unat_byte_less [of b] by simp
  ultimately show ?thesis by (simp only: be16_def de16.simps byte_of_parts unat_byte_less) simp
qed

lemma be32_de32:
  assumes "length bs = 4"
  shows "be32 (de32 bs) = bs"
proof -
  obtain a b c d where bs: "bs = [a, b, c, d]" using assms by (auto simp: length_Suc_conv eval_nat_numeral)
  have q: "(k * 256 + unat (x :: byte)) div 256 = k" for k x using unat_byte_less [of x] by simp
  show ?thesis by (simp only: bs be32_def de32.simps q byte_of_parts unat_byte_less) simp
qed

lemma de16_less: "de16 bs < 2 ^ 16"
proof (induction bs rule: de16.induct)
  case (1 a b)
  then show ?case using unat_byte_less [of a] unat_byte_less [of b] by simp
qed simp_all

lemma de32_less: "de32 bs < 2 ^ 32"
proof (induction bs rule: de32.induct)
  case (1 a b c d)
  then show ?case using unat_byte_less [of a] unat_byte_less [of b] unat_byte_less [of c] unat_byte_less [of d] by simp
qed simp_all

lemma length_enc32 [simp]: "length (enc32 xs) = 4 * length xs"
  by (induction xs) (simp_all add: enc32_def)

lemma dec32_enc32: "(\<And>x. x \<in> set xs \<Longrightarrow> x < 2 ^ 32) \<Longrightarrow> dec32 (enc32 xs) = xs"
proof (induction xs)
  case (Cons x xs)
  have "dec32 (be32 x @ r) = de32 (be32 x) # dec32 r" for r by (simp add: be32_def)
  then show ?case using Cons de32_be32 [of x] by (simp add: enc32_def)
qed (simp add: enc32_def)

lemma length_dec32: "length (dec32 bs) = length bs div 4"
  by (induction bs rule: dec32.induct) simp_all

lemma enc32_dec32: "length bs = 4 * n \<Longrightarrow> enc32 (dec32 bs) = bs"
proof (induction n arbitrary: bs)
  case (Suc n)
  then obtain a b c d r where bs: "bs = a # b # c # d # r" by (auto simp: length_Suc_conv eval_nat_numeral)
  then show ?case using Suc be32_de32 [of "[a, b, c, d]"] by (simp add: enc32_def del: de32.simps)
qed (simp add: enc32_def)

lemma dec32_less: "x \<in> set (dec32 bs) \<Longrightarrow> x < 2 ^ 32"
  by (induction bs rule: dec32.induct) (auto simp: de32_less [simplified] simp del: de32.simps)

lemma nth_enc32:
  assumes "i < length xs"
  shows "take 4 (drop (4 * i) (enc32 xs)) = be32 (xs ! i)"
  using assms
proof (induction xs arbitrary: i)
  case (Cons x xs)
  then show ?case by (cases i) (simp_all add: enc32_def)
qed simp

section \<open>On-disk structures\<close>

record sfs_super =
  sp_magic :: nat
  sp_nblocks :: nat
  sp_volname :: "byte list"
  sp_reserved :: "byte list"

record sfs_inode =
  sfi_size :: nat
  sfi_type :: nat
  sfi_linkcount :: nat
  sfi_direct :: "nat list"
  sfi_indirect :: nat
  sfi_waste :: "byte list"

record sfs_dir =
  sfd_ino :: nat
  sfd_name :: "byte list"

definition enc_super :: "sfs_super \<Rightarrow> byte list" where
  "enc_super s = be32 (sp_magic s) @ be32 (sp_nblocks s) @ sp_volname s @ sp_reserved s"

definition dec_super :: "byte list \<Rightarrow> sfs_super" where
  "dec_super b = \<lparr>sp_magic = de32 (take 4 b), sp_nblocks = de32 (take 4 (drop 4 b)),
     sp_volname = take 32 (drop 8 b), sp_reserved = drop 40 b\<rparr>"

definition enc_inode :: "sfs_inode \<Rightarrow> byte list" where
  "enc_inode i = be32 (sfi_size i) @ be16 (sfi_type i) @ be16 (sfi_linkcount i) @ enc32 (sfi_direct i) @
     be32 (sfi_indirect i) @ sfi_waste i"

definition dec_inode :: "byte list \<Rightarrow> sfs_inode" where
  "dec_inode b = \<lparr>sfi_size = de32 (take 4 b), sfi_type = de16 (take 2 (drop 4 b)),
     sfi_linkcount = de16 (take 2 (drop 6 b)), sfi_direct = dec32 (take 60 (drop 8 b)),
     sfi_indirect = de32 (take 4 (drop 68 b)), sfi_waste = drop 72 b\<rparr>"

definition enc_dir :: "sfs_dir \<Rightarrow> byte list" where
  "enc_dir d = be32 (sfd_ino d) @ sfd_name d"

definition dec_dir :: "byte list \<Rightarrow> sfs_dir" where
  "dec_dir b = \<lparr>sfd_ino = de32 (take 4 b), sfd_name = drop 4 b\<rparr>"

definition super_ok :: "sfs_super \<Rightarrow> bool" where
  "super_ok s \<longleftrightarrow> sp_magic s < 2 ^ 32 \<and> sp_nblocks s < 2 ^ 32 \<and> length (sp_volname s) = 32 \<and> length (sp_reserved s) = 472"

definition inode_ok :: "sfs_inode \<Rightarrow> bool" where
  "inode_ok i \<longleftrightarrow> sfi_size i < 2 ^ 32 \<and> sfi_type i < 2 ^ 16 \<and> sfi_linkcount i < 2 ^ 16 \<and> length (sfi_direct i) = 15 \<and>
     (\<forall>x \<in> set (sfi_direct i). x < 2 ^ 32) \<and> sfi_indirect i < 2 ^ 32 \<and> length (sfi_waste i) = 440"

definition dir_ok :: "sfs_dir \<Rightarrow> bool" where
  "dir_ok d \<longleftrightarrow> sfd_ino d < 2 ^ 32 \<and> length (sfd_name d) = 60"

lemma enc_lengths:
  "super_ok s \<Longrightarrow> length (enc_super s) = 512" "inode_ok i \<Longrightarrow> length (enc_inode i) = 512" "dir_ok d \<Longrightarrow> length (enc_dir d) = 64"
  by (simp_all add: enc_super_def enc_inode_def enc_dir_def super_ok_def inode_ok_def dir_ok_def)

lemma dec_super_enc: "super_ok s \<Longrightarrow> dec_super (enc_super s) = s"
  by (simp add: dec_super_def enc_super_def super_ok_def de32_be32)

lemma dec_inode_enc: "inode_ok i \<Longrightarrow> dec_inode (enc_inode i) = i"
  by (simp add: dec_inode_def enc_inode_def inode_ok_def de32_be32 de16_be16 dec32_enc32)

lemma dec_dir_enc: "dir_ok d \<Longrightarrow> dec_dir (enc_dir d) = d"
  by (simp add: dec_dir_def enc_dir_def dir_ok_def de32_be32)

lemma dec_ok:
  "length b = 512 \<Longrightarrow> super_ok (dec_super b)" "length b = 512 \<Longrightarrow> inode_ok (dec_inode b)" "length b = 64 \<Longrightarrow> dir_ok (dec_dir b)"
  using de32_less de16_less dec32_less
  by (auto simp: dec_super_def dec_inode_def dec_dir_def super_ok_def inode_ok_def dir_ok_def length_dec32)

section \<open>The mounted file system\<close>

text \<open>
  \<open>sfs_vnode\<close> has the fields of the abstract vnode that \<open>vnode.c\<close> keeps: the two counts. The
  operation table of a vnode is determined by the inode type. The loaded vnodes are kept by
  address in \<open>sfs_mem\<close>; \<open>sfs_vnodes\<close> is the table of their addresses.
\<close>

record sfs_vnode =
  vn_refcount :: int
  vn_opencount :: int
  sv_i :: sfs_inode
  sv_ino :: nat
  sv_dirty :: bool

record sfs_fs =
  sfs_super :: sfs_super
  sfs_superdirty :: bool
  sfs_device :: lhd_softc
  sfs_vnodes :: "nat array"
  sfs_freemap :: bitmap
  sfs_freemapdirty :: bool
  sfs_mem :: "nat \<Rightarrow> sfs_vnode option"

section \<open>Block I/O\<close>

text \<open>
  The loop of \<open>sfs_rwblock\<close>; \<open>left\<close> is ten minus \<open>tries\<close>. \<open>EINVAL\<close> from the device is a panic.
\<close>

fun sfs_rwblock_try :: "nat \<Rightarrow> uio \<Rightarrow> lhd_softc \<Rightarrow> (unit kres \<times> uio \<times> lhd_softc) option" where
  "sfs_rwblock_try left u lh = (case lhd_io u lh of
       None \<Rightarrow> None
     | Some (Inl EINVAL, _, _) \<Rightarrow> None
     | Some (Inl EIO, u', lh') \<Rightarrow>
         (case left of 0 \<Rightarrow> Some (Inl EIO, u', lh') | Suc n \<Rightarrow> sfs_rwblock_try n u' lh')
     | Some r \<Rightarrow> Some r)"

declare sfs_rwblock_try.simps [simp del]

definition sfs_rwblock :: "uio \<Rightarrow> sfs_fs \<Rightarrow> (unit kres \<times> uio \<times> sfs_fs) option" where
  "sfs_rwblock u fs = do {
     (r, u', lh) \<leftarrow> sfs_rwblock_try 10 u (sfs_device fs);
     Some (r, u', fs\<lparr>sfs_device := lh\<rparr>)
   }"

definition SFSUIO :: "byte list \<Rightarrow> nat \<Rightarrow> uio_rw \<Rightarrow> uio option" where
  "SFSUIO data block rw = do {
     pos \<leftarrow> c_int (to_off (int block) * int SFS_BLOCKSIZE);
     Some (mk_kuio data SFS_BLOCKSIZE pos rw)
   }"

definition sfs_rblock :: "byte list \<Rightarrow> nat \<Rightarrow> sfs_fs \<Rightarrow> (unit kres \<times> byte list \<times> sfs_fs) option" where
  "sfs_rblock data block fs = do {
     ku \<leftarrow> SFSUIO data block UIO_READ;
     (r, ku', fs') \<leftarrow> sfs_rwblock ku fs;
     Some (r, iov_kbuf ku', fs')
   }"

definition sfs_wblock :: "byte list \<Rightarrow> nat \<Rightarrow> sfs_fs \<Rightarrow> (unit kres \<times> sfs_fs) option" where
  "sfs_wblock data block fs = do {
     ku \<leftarrow> SFSUIO data block UIO_WRITE;
     (r, ku', fs') \<leftarrow> sfs_rwblock ku fs;
     Some (r, fs')
   }"

section \<open>What block I/O does\<close>

definition disk :: "sfs_fs \<Rightarrow> nat \<Rightarrow> byte list" where
  "disk fs = hw_sect (sfs_device fs)"

definition healthy :: "sfs_fs \<Rightarrow> bool" where
  "healthy fs \<longleftrightarrow> lhd_ok (sfs_device fs) \<and> fault_free (sfs_device fs)"

lemma fault_free_code: "fault_free lh \<Longrightarrow> lhd_code_to_errno (hw_status lh (hw_ops lh)) = Inr ()"
  by (simp add: fault_free_def lhd_code_to_errno_def)

lemma kuio_mk:
  assumes "length data = 512" and "b + 1 < 2 ^ 22"
  shows "kuio (mk_kuio data 512 (int b * 512) rw)"
proof -
  have "int b + 1 < 2 ^ 22" using assms(2) by simp
  then show ?thesis using assms(1) by (simp add: kuio_def mk_kuio_def)
qed

lemma SFSUIO_ok:
  assumes "b + 1 < 2 ^ 22"
  shows "SFSUIO data b rw = Some (mk_kuio data 512 (int b * 512) rw)"
proof -
  have "int b + 1 < 2 ^ 22" using assms by simp
  then show ?thesis by (simp add: SFSUIO_def SFS_BLOCKSIZE_def)
qed

lemma rwblock_first_try:
  assumes "lhd_io u lh = Some (Inr (), u', lh')"
  shows "sfs_rwblock_try n u lh = Some (Inr (), u', lh')"
  using assms by (subst sfs_rwblock_try.simps) simp

lemma rwblock_read:
  assumes h: "healthy fs" and u: "kuio u" "uio_rw u = UIO_READ" "uio_resid u = 512" "uio_offset u = int b * 512"
    and b: "b < d_blocks (sfs_device fs)"
  obtains lh where "sfs_rwblock u fs = Some (Inr (),
      (uio_took 512 u)\<lparr>iov_kbuf := take (iov_koff u) (iov_kbuf u) @ disk fs b @ drop (iov_koff u + 512) (iov_kbuf u)\<rparr>, fs\<lparr>sfs_device := lh\<rparr>)"
    and "lhd_moved (sfs_device fs) lh" and "hw_sect lh = disk fs"
proof -
  have ok: "lhd_ok (sfs_device fs)" and ff: "fault_free (sfs_device fs)" using h by (simp_all add: healthy_def)
  obtain lh where lh: "lhd_moved (sfs_device fs) lh" "hw_sect lh = hw_sect (sfs_device fs)"
      "lhd_io u (sfs_device fs) = Some (Inr (), (uio_took 512 u)\<lparr>iov_kbuf := take (iov_koff u) (iov_kbuf u) @
        hw_sect (sfs_device fs) b @ drop (iov_koff u + 512) (iov_kbuf u)\<rparr>, lh)"
    by (rule lhd_io_read [OF ok u b]) (simp add: fault_free_code [OF ff])
  show ?thesis by (rule that [OF _ lh(1)]) (simp_all add: sfs_rwblock_def rwblock_first_try [OF lh(3)] disk_def lh(2))
qed

lemma rwblock_write:
  assumes h: "healthy fs" and u: "kuio u" "uio_rw u = UIO_WRITE" "uio_resid u = 512" "uio_offset u = int b * 512"
    and b: "b < d_blocks (sfs_device fs)"
  obtains lh where "sfs_rwblock u fs = Some (Inr (), uio_took 512 u, fs\<lparr>sfs_device := lh\<rparr>)"
    and "lhd_moved (sfs_device fs) lh" and "hw_sect lh = (disk fs)(b := take 512 (drop (iov_koff u) (iov_kbuf u)))"
proof -
  have ok: "lhd_ok (sfs_device fs)" and ff: "fault_free (sfs_device fs)" using h by (simp_all add: healthy_def)
  obtain lh where lh: "lhd_moved (sfs_device fs) lh" "hw_sect lh = (hw_sect (sfs_device fs))(b := take 512 (drop (iov_koff u) (iov_kbuf u)))"
      "lhd_io u (sfs_device fs) = Some (Inr (), uio_took 512 u, lh)"
    by (rule lhd_io_write [OF ok u b]) (simp add: fault_free_code [OF ff])
  show ?thesis by (rule that [OF _ lh(1)]) (simp_all add: sfs_rwblock_def rwblock_first_try [OF lh(3)] disk_def lh(2))
qed

lemma healthy_dblocks: "healthy fs \<Longrightarrow> b < d_blocks (sfs_device fs) \<Longrightarrow> b + 1 < 2 ^ 22"
  by (auto simp: healthy_def lhd_ok_def)

lemma rblock_ok:
  assumes h: "healthy fs" and b: "b < d_blocks (sfs_device fs)" and len: "length data = 512"
  obtains lh where "sfs_rblock data b fs = Some (Inr (), disk fs b, fs\<lparr>sfs_device := lh\<rparr>)"
    and "lhd_moved (sfs_device fs) lh" and "hw_sect lh = disk fs"
proof -
  note b22 = healthy_dblocks [OF h b]
  let ?u = "mk_kuio data 512 (int b * 512) UIO_READ"
  obtain lh where lh: "sfs_rwblock ?u fs = Some (Inr (), (uio_took 512 ?u)\<lparr>iov_kbuf := take (iov_koff ?u) (iov_kbuf ?u) @ disk fs b @
        drop (iov_koff ?u + 512) (iov_kbuf ?u)\<rparr>, fs\<lparr>sfs_device := lh\<rparr>)" "lhd_moved (sfs_device fs) lh" "hw_sect lh = disk fs"
    by (rule rwblock_read [OF h kuio_mk [OF len b22, of UIO_READ] _ _ _ b]) (simp_all add: mk_kuio_def)
  show ?thesis
    by (rule that [OF _ lh(2,3)]) (simp add: sfs_rblock_def SFSUIO_ok [OF b22] lh(1), simp add: mk_kuio_def len)
qed

lemma wblock_ok:
  assumes h: "healthy fs" and b: "b < d_blocks (sfs_device fs)" and len: "length data = 512"
  obtains lh where "sfs_wblock data b fs = Some (Inr (), fs\<lparr>sfs_device := lh\<rparr>)"
    and "lhd_moved (sfs_device fs) lh" and "hw_sect lh = (disk fs)(b := data)"
proof -
  note b22 = healthy_dblocks [OF h b]
  let ?u = "mk_kuio data 512 (int b * 512) UIO_WRITE"
  obtain lh where lh: "sfs_rwblock ?u fs = Some (Inr (), uio_took 512 ?u, fs\<lparr>sfs_device := lh\<rparr>)" "lhd_moved (sfs_device fs) lh"
      "hw_sect lh = (disk fs)(b := take 512 (drop (iov_koff ?u) (iov_kbuf ?u)))"
    by (rule rwblock_write [OF h kuio_mk [OF len b22, of UIO_WRITE] _ _ _ b]) (simp_all add: mk_kuio_def)
  show ?thesis
    by (rule that [OF _ lh(2)]) (simp_all add: sfs_wblock_def SFSUIO_ok [OF b22] lh(1) lh(3), simp add: mk_kuio_def len)
qed

lemma healthy_moved:
  "healthy fs \<Longrightarrow> lhd_moved (sfs_device fs) lh \<Longrightarrow> healthy (fs\<lparr>sfs_device := lh\<rparr>)"
  using fault_free_moved by (auto simp: healthy_def lhd_moved_def)

lemma disk_upd [simp]: "disk (fs\<lparr>sfs_device := lh\<rparr>) = hw_sect lh"
  by (simp add: disk_def)

lemma lhd_moved_blocks: "lhd_moved lh lh' \<Longrightarrow> d_blocks lh' = d_blocks lh"
  by (simp add: lhd_moved_def)

section \<open>Retries\<close>

lemma lhd_code_values:
  "s AND LHD_STATEMASK = LHD_OK \<Longrightarrow> lhd_code_to_errno s = Inr ()"
  "s AND LHD_STATEMASK = LHD_MEDIA \<Longrightarrow> lhd_code_to_errno s = Inl EIO"
  by (simp_all add: lhd_code_to_errno_def LHD_OK_def LHD_MEDIA_def LHD_INVSECT_def)

lemma rwblock_read_retry:
  assumes "lhd_ok lh" and "kuio u" "uio_rw u = UIO_READ" "uio_resid u = 512" "uio_offset u = int b * 512" and "b < d_blocks lh" and "k \<le> n"
    and "\<forall>i < k. hw_status lh (hw_ops lh + i) AND LHD_STATEMASK = LHD_MEDIA" and "hw_status lh (hw_ops lh + k) AND LHD_STATEMASK = LHD_OK"
  shows "\<exists>lh'. sfs_rwblock_try n u lh = Some (Inr (),
      (uio_took 512 u)\<lparr>iov_kbuf := take (iov_koff u) (iov_kbuf u) @ hw_sect lh b @ drop (iov_koff u + 512) (iov_kbuf u)\<rparr>, lh') \<and>
      hw_sect lh' = hw_sect lh"
  using assms
proof (induction k arbitrary: n lh)
  case 0
  have s: "lhd_code_to_errno (hw_status lh (hw_ops lh)) = Inr ()" using 0 lhd_code_values(1) by simp
  show ?case
    by (rule lhd_io_read [OF "0.prems"(1-6)]) (use s rwblock_first_try in auto)
next
  case (Suc k)
  have s: "lhd_code_to_errno (hw_status lh (hw_ops lh)) = Inl EIO" using Suc.prems(8) lhd_code_values(2) by force
  obtain m where n: "n = Suc m" using Suc.prems(7) by (cases n) auto
  obtain lh1 where lh1: "lhd_moved lh lh1" "hw_ops lh1 = hw_ops lh + 1" "hw_sect lh1 = hw_sect lh" "lhd_io u lh = Some (Inl EIO, u, lh1)"
    by (rule lhd_io_read [OF Suc.prems(1-6)]) (use s in auto)
  have same: "hw_status lh1 = hw_status lh" "d_blocks lh1 = d_blocks lh" "lhd_ok lh1" using lh1(1) by (simp_all add: lhd_moved_def)
  have "\<exists>lh'. sfs_rwblock_try m u lh1 = Some (Inr (),
      (uio_took 512 u)\<lparr>iov_kbuf := take (iov_koff u) (iov_kbuf u) @ hw_sect lh1 b @ drop (iov_koff u + 512) (iov_kbuf u)\<rparr>, lh') \<and>
      hw_sect lh' = hw_sect lh1"
  proof (rule Suc.IH)
    show "\<forall>i < k. hw_status lh1 (hw_ops lh1 + i) AND LHD_STATEMASK = LHD_MEDIA"
      using Suc.prems(8) by (auto simp: same lh1(2) dest: spec [of _ "Suc _"])
    show "hw_status lh1 (hw_ops lh1 + k) AND LHD_STATEMASK = LHD_OK" using Suc.prems(9) by (simp add: same lh1(2))
  qed (use Suc.prems same n in auto)
  then show ?case unfolding n by (subst sfs_rwblock_try.simps) (simp add: lh1(3,4))
qed

text \<open>
  A block read survives media errors: when at most ten attempts fail and the next one
  succeeds, the caller gets the contents of the block.
\<close>

theorem sfs_rblock_retries:
  assumes "lhd_ok (sfs_device fs)" and "b < d_blocks (sfs_device fs)" and "length data = 512" and "k \<le> 10"
    and "\<forall>n < k. hw_status (sfs_device fs) (hw_ops (sfs_device fs) + n) AND LHD_STATEMASK = LHD_MEDIA"
    and "hw_status (sfs_device fs) (hw_ops (sfs_device fs) + k) AND LHD_STATEMASK = LHD_OK"
  shows "\<exists>fs'. sfs_rblock data b fs = Some (Inr (), disk fs b, fs') \<and> disk fs' = disk fs"
proof -
  have b22: "b + 1 < 2 ^ 22" using assms(1,2) by (auto simp: lhd_ok_def)
  let ?u = "mk_kuio data 512 (int b * 512) UIO_READ"
  have "\<exists>lh'. sfs_rwblock_try 10 ?u (sfs_device fs) = Some (Inr (), (uio_took 512 ?u)\<lparr>iov_kbuf := take (iov_koff ?u) (iov_kbuf ?u) @
      hw_sect (sfs_device fs) b @ drop (iov_koff ?u + 512) (iov_kbuf ?u)\<rparr>, lh') \<and> hw_sect lh' = hw_sect (sfs_device fs)"
    by (rule rwblock_read_retry [OF assms(1) kuio_mk [OF assms(3) b22, of UIO_READ] _ _ _ assms(2,4,5,6)]) (simp_all add: mk_kuio_def)
  then show ?thesis
    by (auto simp: sfs_rblock_def SFSUIO_ok [OF b22] sfs_rwblock_def disk_def) (simp add: mk_kuio_def assms(3))
qed

definition some_disk :: "(nat \<Rightarrow> int) \<Rightarrow> sfs_fs" where
  "some_disk status = \<lparr>sfs_super = \<lparr>sp_magic = SFS_MAGIC, sp_nblocks = 100, sp_volname = replicate 32 0, sp_reserved = replicate 472 0\<rparr>,
     sfs_superdirty = False,
     sfs_device = \<lparr>lh_buf = replicate 512 0, lh_result = Inr (), lh_clear = 1, lh_done = 0, d_blocks = 100, d_blocksize = 512,
       reg_stat = 0, reg_sect = 0, hw_sect = (\<lambda>b. replicate 512 (of_nat b)), hw_status = status, hw_ops = 0\<rparr>,
     sfs_vnodes = \<lparr>a_num = 0, a_max = 0, a_v = None\<rparr>, sfs_freemap = \<lparr>nbits = 4096, bm_v = replicate 13 0 @ replicate 499 255\<rparr>,
     sfs_freemapdirty = False, sfs_mem = (\<lambda>_. None)\<rparr>"

lemma some_disk_ok: "(\<And>n. status n = 4 \<or> status n = 20) \<Longrightarrow> lhd_ok (sfs_device (some_disk status))"
proof -
  assume *: "status n = 4 \<or> status n = 20" for n
  have "status n AND LHD_STATEMASK = LHD_OK \<or> status n AND LHD_STATEMASK = LHD_INVSECT \<or> status n AND LHD_STATEMASK = LHD_MEDIA" for n
    using * [of n] by (elim disjE) (simp_all add: lhd_codes)
  then show ?thesis by (simp add: some_disk_def lhd_ok_def)
qed

theorem sfs_rblock_retries_witness:
  "\<exists>fs'. sfs_rblock (replicate 512 0) 7 (some_disk (\<lambda>n. if n < 3 then 20 else 4)) =
     Some (Inr (), disk (some_disk (\<lambda>n. if n < 3 then 20 else 4)) 7, fs') \<and> disk fs' = disk (some_disk (\<lambda>n. if n < 3 then 20 else 4))"
proof (rule sfs_rblock_retries [where k = 3])
  show "lhd_ok (sfs_device (some_disk (\<lambda>n. if n < 3 then 20 else 4)))" by (rule some_disk_ok) simp
qed (simp_all add: some_disk_def lhd_codes)

lemma lhd_io_nothing_left:
  assumes "uio_resid u = 0" and "uio_offset u = int b * 512" and "b \<le> d_blocks lh" and "d_blocks lh < 2 ^ 22"
  shows "lhd_io u lh = Some (Inr (), u, lh)"
proof -
  have "c_quot (int b * 512) 512 = int b" by (cases b) (auto simp: c_quot_def)
  then show ?thesis using assms by (simp add: lhd_io_def LHD_SECTSIZE_def)
qed

text \<open>
  C33. A block write does not survive a media error. When the first attempt fails, the retry
  finds the transfer already used up, does nothing and reports success: the caller is told
  that the block was written, and the disk is unchanged.
\<close>

theorem sfs_wblock_lost:
  assumes "lhd_ok (sfs_device fs)" and "b < d_blocks (sfs_device fs)" and "length data = 512"
    and "hw_status (sfs_device fs) (hw_ops (sfs_device fs)) AND LHD_STATEMASK = LHD_MEDIA"
  shows "\<exists>fs'. sfs_wblock data b fs = Some (Inr (), fs') \<and> disk fs' = disk fs"
proof -
  have b22: "b + 1 < 2 ^ 22" using assms(1,2) by (auto simp: lhd_ok_def)
  let ?u = "mk_kuio data 512 (int b * 512) UIO_WRITE" and ?lh = "sfs_device fs"
  have s: "lhd_code_to_errno (hw_status ?lh (hw_ops ?lh)) = Inl EIO" using assms(4) by (rule lhd_code_values)
  obtain lh where lh: "lhd_moved ?lh lh" "lhd_io ?u ?lh = Some (Inl EIO, uio_took 512 ?u, lh)" "hw_sect lh = hw_sect ?lh"
    by (rule lhd_io_write [OF assms(1) kuio_mk [OF assms(3) b22, of UIO_WRITE] _ _ _ assms(2)]) (simp_all add: mk_kuio_def s)
  have dl: "d_blocks lh = d_blocks ?lh" "d_blocks lh < 2 ^ 22" using lh(1) by (simp_all add: lhd_moved_def lhd_ok_def)
  have "lhd_io (uio_took 512 ?u) lh = Some (Inr (), uio_took 512 ?u, lh)"
    by (rule lhd_io_nothing_left [where b = "b + 1"]) (use assms(2) dl in \<open>simp_all add: mk_kuio_def\<close>)
  then have "sfs_rwblock_try 9 (uio_took 512 ?u) lh = Some (Inr (), uio_took 512 ?u, lh)" by (rule rwblock_first_try)
  then have "sfs_rwblock_try (Suc 9) ?u ?lh = Some (Inr (), uio_took 512 ?u, lh)"
    by (subst sfs_rwblock_try.simps) (simp add: lh(2))
  moreover have "Suc 9 = 10" by simp
  ultimately have "sfs_rwblock_try 10 ?u ?lh = Some (Inr (), uio_took 512 ?u, lh)" by metis
  then show ?thesis by (auto simp: sfs_wblock_def SFSUIO_ok [OF b22] sfs_rwblock_def disk_def lh(3))
qed

theorem sfs_wblock_lost_witness:
  "\<exists>fs'. sfs_wblock (replicate 512 1) 7 (some_disk (\<lambda>n. if n = 0 then 20 else 4)) = Some (Inr (), fs') \<and>
     disk fs' = disk (some_disk (\<lambda>n. if n = 0 then 20 else 4))"
proof (rule sfs_wblock_lost)
  show "lhd_ok (sfs_device (some_disk (\<lambda>n. if n = 0 then 20 else 4)))" by (rule some_disk_ok) simp
qed (simp_all add: some_disk_def lhd_codes)

end
