(* ===== verification/SfsFile.thy ===== *)
theory SfsFile
  imports SfsDisk
begin

text \<open>
  Blocks and files of \<open>fs/sfs/sfs_vnode.c\<close>: allocation, the block map of an inode, reading and
  writing a file, and truncation.

  The functions take the vnode and the file system and return both. The static buffers of the
  source (\<open>idbuf\<close>, \<open>iobuf\<close>) are filled before each use and do not outlive the call that filled
  them, so they are local here. This is right for one call at a time: the source holds no lock around these functions, and two
  threads that sleep in the disk driver inside these functions would share the buffers.
\<close>

section \<open>Simple blocks\<close>

definition zero_block :: "byte list" where
  "zero_block = replicate 512 0"

definition sfs_clearblock :: "nat \<Rightarrow> sfs_fs \<Rightarrow> (unit kres \<times> sfs_fs) option" where
  "sfs_clearblock block fs = sfs_wblock zero_block block fs"

definition sfs_sync_inode :: "sfs_vnode \<Rightarrow> sfs_fs \<Rightarrow> (unit kres \<times> sfs_vnode \<times> sfs_fs) option" where
  "sfs_sync_inode sv fs =
     (if sv_dirty sv then do {
        (r, fs1) \<leftarrow> sfs_wblock (enc_inode (sv_i sv)) (sv_ino sv) fs;
        case r of Inl e \<Rightarrow> Some (Inl e, sv, fs1)
        | Inr _ \<Rightarrow> Some (Inr (), sv\<lparr>sv_dirty := False\<rparr>, fs1)
      }
      else Some (Inr (), sv, fs))"

definition sfs_balloc :: "sfs_fs \<Rightarrow> (nat kres \<times> sfs_fs) option" where
  "sfs_balloc fs = do {
     (r, bm) \<leftarrow> bitmap_alloc (sfs_freemap fs);
     case r of Inl e \<Rightarrow> Some (Inl e, fs\<lparr>sfs_freemap := bm\<rparr>)
     | Inr diskblock \<Rightarrow> do {
         let fs1 = fs\<lparr>sfs_freemap := bm, sfs_freemapdirty := True\<rparr>;
         kassert (diskblock < sp_nblocks (sfs_super fs1));
         (r2, fs2) \<leftarrow> sfs_clearblock diskblock fs1;
         case r2 of Inl e \<Rightarrow> Some (Inl e, fs2) | Inr _ \<Rightarrow> Some (Inr diskblock, fs2)
       }
   }"

definition sfs_bfree :: "nat \<Rightarrow> sfs_fs \<Rightarrow> sfs_fs option" where
  "sfs_bfree diskblock fs = do {
     bm \<leftarrow> bitmap_unmark diskblock (sfs_freemap fs);
     Some (fs\<lparr>sfs_freemap := bm, sfs_freemapdirty := True\<rparr>)
   }"

definition sfs_bused :: "sfs_fs \<Rightarrow> nat \<Rightarrow> bool option" where
  "sfs_bused fs diskblock = do {
     kassert (diskblock < sp_nblocks (sfs_super fs));
     w \<leftarrow> bitmap_isset (sfs_freemap fs) diskblock;
     Some (w \<noteq> 0)
   }"

section \<open>The block map of an inode\<close>

text \<open>Handing back a block: one that is not zero must be marked in use.\<close>

definition bmap_hand :: "nat \<Rightarrow> sfs_vnode \<Rightarrow> sfs_fs \<Rightarrow> (nat kres \<times> sfs_vnode \<times> sfs_fs) option" where
  "bmap_hand block sv fs = do {
     used \<leftarrow> (if block \<noteq> 0 then sfs_bused fs block else Some True);
     kassert used;
     Some (Inr block, sv, fs)
   }"

definition sfs_bmap_direct :: "sfs_vnode \<Rightarrow> nat \<Rightarrow> bool \<Rightarrow> sfs_fs \<Rightarrow> (nat kres \<times> sfs_vnode \<times> sfs_fs) option" where
  "sfs_bmap_direct sv fileblock doalloc fs = do {
     block \<leftarrow> peek (sfi_direct (sv_i sv)) (int fileblock);
     if block = 0 \<and> doalloc then do {
       (r, fs1) \<leftarrow> sfs_balloc fs;
       case r of Inl e \<Rightarrow> Some (Inl e, sv, fs1)
       | Inr b \<Rightarrow>
           bmap_hand b (sv\<lparr>sv_i := (sv_i sv)\<lparr>sfi_direct := (sfi_direct (sv_i sv))[fileblock := b]\<rparr>, sv_dirty := True\<rparr>) fs1
     }
     else bmap_hand block sv fs
   }"

text \<open>The part of \<open>sfs_bmap\<close> that works on the loaded indirect block \<open>idbuf\<close>.\<close>

definition sfs_bmap_entry ::
  "nat \<Rightarrow> nat list \<Rightarrow> nat \<Rightarrow> sfs_vnode \<Rightarrow> bool \<Rightarrow> sfs_fs \<Rightarrow> (nat kres \<times> sfs_vnode \<times> sfs_fs) option" where
  "sfs_bmap_entry idblock idbuf idoff sv doalloc fs = do {
     block \<leftarrow> peek idbuf (int idoff);
     if block = 0 \<and> doalloc then do {
       (r, fs1) \<leftarrow> sfs_balloc fs;
       case r of Inl e \<Rightarrow> Some (Inl e, sv, fs1)
       | Inr b \<Rightarrow> do {
           (r2, fs2) \<leftarrow> sfs_wblock (enc32 (idbuf[idoff := b])) idblock fs1;
           case r2 of Inl e \<Rightarrow> Some (Inl e, sv, fs2) | Inr _ \<Rightarrow> bmap_hand b sv fs2
         }
     }
     else bmap_hand block sv fs
   }"

definition sfs_bmap_indirect :: "sfs_vnode \<Rightarrow> nat \<Rightarrow> bool \<Rightarrow> sfs_fs \<Rightarrow> (nat kres \<times> sfs_vnode \<times> sfs_fs) option" where
  "sfs_bmap_indirect sv idoff doalloc fs =
     (let idblock = sfi_indirect (sv_i sv) in
      if idblock = 0 \<and> \<not> doalloc then Some (Inr 0, sv, fs)
      else if idblock = 0 then do {
        (r, fs1) \<leftarrow> sfs_balloc fs;
        case r of Inl e \<Rightarrow> Some (Inl e, sv, fs1)
        | Inr b \<Rightarrow>
            sfs_bmap_entry b (replicate SFS_DBPERIDB 0) idoff
              (sv\<lparr>sv_i := (sv_i sv)\<lparr>sfi_indirect := b\<rparr>, sv_dirty := True\<rparr>) doalloc fs1
      }
      else do {
        (r, data, fs1) \<leftarrow> sfs_rblock zero_block idblock fs;
        case r of Inl e \<Rightarrow> Some (Inl e, sv, fs1)
        | Inr _ \<Rightarrow> sfs_bmap_entry idblock (dec32 data) idoff sv doalloc fs1
      })"

definition sfs_bmap :: "sfs_vnode \<Rightarrow> nat \<Rightarrow> bool \<Rightarrow> sfs_fs \<Rightarrow> (nat kres \<times> sfs_vnode \<times> sfs_fs) option" where
  "sfs_bmap sv fileblock doalloc fs =
     (if fileblock < SFS_NDIRECT then sfs_bmap_direct sv fileblock doalloc fs
      else let fb = fileblock - SFS_NDIRECT; idnum = fb div SFS_DBPERIDB; idoff = fb mod SFS_DBPERIDB in
        if idnum > 0 then Some (Inl EINVAL, sv, fs)
        else sfs_bmap_indirect sv idoff doalloc fs)"

section \<open>File I/O\<close>

text \<open>\<open>uio_offset / SFS_BLOCKSIZE\<close> and \<open>uio_offset % SFS_BLOCKSIZE\<close>, stored as \<open>u_int32_t\<close>.\<close>

definition off_block :: "int \<Rightarrow> nat" where
  "off_block off = nat (c_quot off (int SFS_BLOCKSIZE) mod 2 ^ 32)"

definition off_within :: "int \<Rightarrow> nat" where
  "off_within off = nat ((off - int SFS_BLOCKSIZE * c_quot off (int SFS_BLOCKSIZE)) mod 2 ^ 32)"

type_synonym io_result = "unit kres \<times> sfs_vnode \<times> uio \<times> sfs_fs"

definition sfs_partialio :: "sfs_vnode \<Rightarrow> uio \<Rightarrow> nat \<Rightarrow> nat \<Rightarrow> sfs_fs \<Rightarrow> io_result option" where
  "sfs_partialio sv u skipstart len fs =
     (let doalloc = (uio_rw u = UIO_WRITE) in do {
        kassert ((skipstart + len) mod 2 ^ 32 \<le> SFS_BLOCKSIZE);
        (r, sv1, fs1) \<leftarrow> sfs_bmap sv (off_block (uio_offset u)) doalloc fs;
        case r of Inl e \<Rightarrow> Some (Inl e, sv1, u, fs1)
        | Inr diskblock \<Rightarrow> do {
            (r2, iobuf, fs2) \<leftarrow> (if diskblock = 0 then do {
                kassert (uio_rw u = UIO_READ);
                Some (Inr (), zero_block, fs1)
              }
              else sfs_rblock zero_block diskblock fs1);
            case r2 of Inl e \<Rightarrow> Some (Inl e, sv1, u, fs2)
            | Inr _ \<Rightarrow> do {
                (r3, iobuf', u1) \<leftarrow> uiomove iobuf skipstart len u;
                case r3 of Inl e \<Rightarrow> Some (Inl e, sv1, u1, fs2)
                | Inr _ \<Rightarrow>
                    if uio_rw u1 = UIO_WRITE then do {
                      (r4, fs3) \<leftarrow> sfs_wblock iobuf' diskblock fs2;
                      Some (r4, sv1, u1, fs3)
                    }
                    else Some (Inr (), sv1, u1, fs2)
              }
          }
      })"

definition sfs_blockio :: "sfs_vnode \<Rightarrow> uio \<Rightarrow> sfs_fs \<Rightarrow> io_result option" where
  "sfs_blockio sv u fs =
     (let doalloc = (uio_rw u = UIO_WRITE) in do {
        (r, sv1, fs1) \<leftarrow> sfs_bmap sv (off_block (uio_offset u)) doalloc fs;
        case r of Inl e \<Rightarrow> Some (Inl e, sv1, u, fs1)
        | Inr diskblock \<Rightarrow>
            if diskblock = 0 then do {
              kassert (uio_rw u = UIO_READ);
              (r2, u1) \<leftarrow> uiomovezeros SFS_BLOCKSIZE u;
              Some (r2, sv1, u1, fs1)
            }
            else do {
              let saveoff = uio_offset u;
              let diskoff = to_off (int (diskblock * SFS_BLOCKSIZE));
              kassert (uio_resid u \<ge> SFS_BLOCKSIZE);
              let saveres = to_off (int (uio_resid u));
              (r2, u1, fs2) \<leftarrow> sfs_rwblock (u\<lparr>uio_offset := diskoff, uio_resid := SFS_BLOCKSIZE\<rparr>) fs1;
              off \<leftarrow> c_int (uio_offset u1 - diskoff);
              off' \<leftarrow> c_int (off + saveoff);
              let res = nat ((int (uio_resid u1) - int SFS_BLOCKSIZE + saveres) mod 2 ^ 32);
              Some (r2, sv1, u1\<lparr>uio_offset := off', uio_resid := res\<rparr>, fs2)
            }
      })"

primrec sfs_io_blocks :: "nat \<Rightarrow> sfs_vnode \<Rightarrow> uio \<Rightarrow> sfs_fs \<Rightarrow> io_result option" where
  "sfs_io_blocks 0 sv u fs = Some (Inr (), sv, u, fs)"
| "sfs_io_blocks (Suc n) sv u fs = do {
     (r, sv1, u1, fs1) \<leftarrow> sfs_blockio sv u fs;
     case r of Inl e \<Rightarrow> Some (Inl e, sv1, u1, fs1) | Inr _ \<Rightarrow> sfs_io_blocks n sv1 u1 fs1
   }"

text \<open>The whole blocks and the partial block at the end.\<close>

definition sfs_io_rest :: "sfs_vnode \<Rightarrow> uio \<Rightarrow> sfs_fs \<Rightarrow> io_result option" where
  "sfs_io_rest sv u fs =
     (if uio_resid u = 0 then Some (Inr (), sv, u, fs)
      else do {
        kassert (off_within (uio_offset u) = 0);
        (r, sv1, u1, fs1) \<leftarrow> sfs_io_blocks (uio_resid u div SFS_BLOCKSIZE) sv u fs;
        case r of Inl e \<Rightarrow> Some (Inl e, sv1, u1, fs1)
        | Inr _ \<Rightarrow> do {
            kassert (uio_resid u1 < SFS_BLOCKSIZE);
            if uio_resid u1 > 0 then sfs_partialio sv1 u1 0 (uio_resid u1) fs1
            else Some (Inr (), sv1, u1, fs1)
          }
      })"

text \<open>Everything between the check for the end of the file and the label \<open>out\<close>.\<close>

definition sfs_io_body :: "sfs_vnode \<Rightarrow> uio \<Rightarrow> sfs_fs \<Rightarrow> io_result option" where
  "sfs_io_body sv u fs =
     (let blkoff = off_within (uio_offset u) in
      if blkoff \<noteq> 0 then do {
        let len = min (SFS_BLOCKSIZE - blkoff) (uio_resid u);
        (r, sv1, u1, fs1) \<leftarrow> sfs_partialio sv u blkoff len fs;
        case r of Inl e \<Rightarrow> Some (Inl e, sv1, u1, fs1) | Inr _ \<Rightarrow> sfs_io_rest sv1 u1 fs1
      }
      else sfs_io_rest sv u fs)"

text \<open>The label \<open>out\<close>.\<close>

definition sfs_io_out :: "nat \<Rightarrow> sfs_vnode \<Rightarrow> uio \<Rightarrow> sfs_vnode \<times> uio" where
  "sfs_io_out extraresid sv u =
     (if uio_rw u = UIO_WRITE \<and> uio_offset u > to_off (int (sfi_size (sv_i sv)))
      then sv\<lparr>sv_i := (sv_i sv)\<lparr>sfi_size := nat (uio_offset u mod 2 ^ 32)\<rparr>, sv_dirty := True\<rparr> else sv,
      u\<lparr>uio_resid := (uio_resid u + extraresid) mod 2 ^ 32\<rparr>)"

definition sfs_io_run :: "nat \<Rightarrow> sfs_vnode \<Rightarrow> uio \<Rightarrow> sfs_fs \<Rightarrow> io_result option" where
  "sfs_io_run extraresid sv u fs = do {
     (r, sv1, u1, fs1) \<leftarrow> sfs_io_body sv u fs;
     let (sv2, u2) = sfs_io_out extraresid sv1 u1;
     Some (r, sv2, u2, fs1)
   }"

definition sfs_io :: "sfs_vnode \<Rightarrow> uio \<Rightarrow> sfs_fs \<Rightarrow> io_result option" where
  "sfs_io sv u fs =
     (if uio_rw u = UIO_READ then
        let sz = to_off (int (sfi_size (sv_i sv))); endpos = to_off (uio_offset u + int (uio_resid u)) in
        if uio_offset u \<ge> sz then Some (Inr (), sv, u, fs)
        else if endpos > sz then do {
          let extraresid = nat ((endpos - sz) mod 2 ^ 32);
          kassert (uio_resid u > extraresid);
          sfs_io_run extraresid sv (u\<lparr>uio_resid := uio_resid u - extraresid\<rparr>) fs
        }
        else sfs_io_run 0 sv u fs
      else sfs_io_run 0 sv u fs)"

definition sfs_read :: "sfs_vnode \<Rightarrow> uio \<Rightarrow> sfs_fs \<Rightarrow> io_result option" where
  "sfs_read sv u fs = do { kassert (uio_rw u = UIO_READ); sfs_io sv u fs }"

definition sfs_write :: "sfs_vnode \<Rightarrow> uio \<Rightarrow> sfs_fs \<Rightarrow> io_result option" where
  "sfs_write sv u fs = do { kassert (uio_rw u = UIO_WRITE); sfs_io sv u fs }"

section \<open>Truncation\<close>

text \<open>The loop over the direct blocks, from \<open>i\<close>; \<open>n\<close> are left.\<close>

primrec truncate_direct :: "nat \<Rightarrow> nat \<Rightarrow> nat \<Rightarrow> sfs_vnode \<Rightarrow> sfs_fs \<Rightarrow> (sfs_vnode \<times> sfs_fs) option" where
  "truncate_direct blocklen i 0 sv fs = Some (sv, fs)"
| "truncate_direct blocklen i (Suc n) sv fs = do {
     block \<leftarrow> peek (sfi_direct (sv_i sv)) (int i);
     if i \<ge> blocklen \<and> block \<noteq> 0 then do {
       fs1 \<leftarrow> sfs_bfree block fs;
       truncate_direct blocklen (i + 1) n
         (sv\<lparr>sv_i := (sv_i sv)\<lparr>sfi_direct := (sfi_direct (sv_i sv))[i := 0]\<rparr>, sv_dirty := True\<rparr>) fs1
     }
     else truncate_direct blocklen (i + 1) n sv fs
   }"

text \<open>The loop over the entries of the indirect block, from \<open>j\<close>; the flags are \<open>iddirty\<close> and \<open>hasnonzero\<close>.\<close>

primrec truncate_entries ::
  "nat \<Rightarrow> nat \<Rightarrow> nat \<Rightarrow> nat list \<Rightarrow> bool \<Rightarrow> bool \<Rightarrow> sfs_fs \<Rightarrow> (nat list \<times> bool \<times> bool \<times> sfs_fs) option" where
  "truncate_entries blocklen j 0 idbuf iddirty hasnonzero fs = Some (idbuf, iddirty, hasnonzero, fs)"
| "truncate_entries blocklen j (Suc n) idbuf iddirty hasnonzero fs = do {
     block \<leftarrow> peek idbuf (int j);
     if blocklen < SFS_NDIRECT + j \<and> block \<noteq> 0 then do {
       fs1 \<leftarrow> sfs_bfree block fs;
       truncate_entries blocklen (j + 1) n (idbuf[j := 0]) True hasnonzero fs1
     }
     else truncate_entries blocklen (j + 1) n idbuf iddirty (hasnonzero \<or> block \<noteq> 0) fs
   }"

definition truncate_indirect :: "nat \<Rightarrow> sfs_vnode \<Rightarrow> sfs_fs \<Rightarrow> (unit kres \<times> sfs_vnode \<times> sfs_fs) option" where
  "truncate_indirect blocklen sv fs =
     (let idblock = sfi_indirect (sv_i sv); highblock = SFS_NDIRECT + SFS_DBPERIDB - 1 in
      if blocklen < highblock \<and> idblock \<noteq> 0 then do {
        (r, data, fs1) \<leftarrow> sfs_rblock zero_block idblock fs;
        case r of Inl e \<Rightarrow> Some (Inl e, sv, fs1)
        | Inr _ \<Rightarrow> do {
            (idbuf, iddirty, hasnonzero, fs2) \<leftarrow> truncate_entries blocklen 0 SFS_DBPERIDB (dec32 data) False False fs1;
            if \<not> hasnonzero then do {
              fs3 \<leftarrow> sfs_bfree idblock fs2;
              Some (Inr (), sv\<lparr>sv_i := (sv_i sv)\<lparr>sfi_indirect := 0\<rparr>, sv_dirty := True\<rparr>, fs3)
            }
            else if iddirty then do {
              (r2, fs3) \<leftarrow> sfs_wblock (enc32 idbuf) idblock fs2;
              Some (r2, sv, fs3)
            }
            else Some (Inr (), sv, fs2)
          }
      }
      else Some (Inr (), sv, fs))"

definition sfs_truncate :: "sfs_vnode \<Rightarrow> int \<Rightarrow> sfs_fs \<Rightarrow> (unit kres \<times> sfs_vnode \<times> sfs_fs) option" where
  "sfs_truncate sv len fs = do {
     x \<leftarrow> c_int (len + int SFS_BLOCKSIZE);
     let blocklen = off_block (x - 1);
     (sv1, fs1) \<leftarrow> truncate_direct blocklen 0 SFS_NDIRECT sv fs;
     (r, sv2, fs2) \<leftarrow> truncate_indirect blocklen sv1 fs1;
     case r of Inl e \<Rightarrow> Some (Inl e, sv2, fs2)
     | Inr _ \<Rightarrow> Some (Inr (), sv2\<lparr>sv_i := (sv_i sv2)\<lparr>sfi_size := nat (len mod 2 ^ 32)\<rparr>, sv_dirty := True\<rparr>, fs2)
   }"

end
