(* ===== verification/SfsFileInv.thy ===== *)
theory SfsFileInv
  imports SfsFile
begin

text \<open>
  What the operations of \<open>SfsFile\<close> do to a file: the abstract view of a file as a sequence of
  bytes, the invariant of a mounted file system and of a file in it, and the block map.
\<close>

section \<open>The blocks of a file\<close>

text \<open>
  A file is seen through the sectors \<open>d\<close> of the disk and its inode \<open>i\<close>: its 143 block numbers
  (\<open>ents\<close>, zero for a hole), the blocks it claims (\<open>claimed\<close>, the indirect block included) and
  the contents of its blocks (\<open>fblock\<close>).
\<close>

definition ids :: "(nat \<Rightarrow> byte list) \<Rightarrow> sfs_inode \<Rightarrow> nat list" where
  "ids d i = (if sfi_indirect i = 0 then replicate 128 0 else dec32 (d (sfi_indirect i)))"

definition ents :: "(nat \<Rightarrow> byte list) \<Rightarrow> sfs_inode \<Rightarrow> nat list" where
  "ents d i = sfi_direct i @ ids d i"

definition claimed :: "(nat \<Rightarrow> byte list) \<Rightarrow> sfs_inode \<Rightarrow> nat list" where
  "claimed d i = filter (\<lambda>b. b \<noteq> 0) (sfi_indirect i # ents d i)"

definition fblock :: "(nat \<Rightarrow> byte list) \<Rightarrow> sfs_inode \<Rightarrow> nat \<Rightarrow> byte list" where
  "fblock d i k = (if ents d i ! k = 0 then zero_block else d (ents d i ! k))"

definition fbyte :: "(nat \<Rightarrow> byte list) \<Rightarrow> sfs_inode \<Rightarrow> nat \<Rightarrow> byte" where
  "fbyte d i p = fblock d i (p div 512) ! (p mod 512)"

definition sectors_ok :: "(nat \<Rightarrow> byte list) \<Rightarrow> bool" where
  "sectors_ok d \<longleftrightarrow> (\<forall>b. length (d b) = 512)"

lemma length_zero_block [simp]: "length zero_block = 512"
  by (simp add: zero_block_def)

lemma dec32_zero: "dec32 (replicate (4 * n) 0) = replicate n 0"
proof (induction n)
  case (Suc n)
  have "replicate (4 * Suc n) (0 :: byte) = 0 # 0 # 0 # 0 # replicate (4 * n) 0" by (simp add: numeral_eq_Suc)
  then show ?case using Suc by simp
qed simp

lemma dec32_zero_block: "dec32 zero_block = replicate 128 0"
  using dec32_zero [of 128] by (simp add: zero_block_def)

lemma length_ids: "sectors_ok d \<Longrightarrow> length (ids d i) = 128"
  by (simp add: ids_def sectors_ok_def length_dec32)

lemma length_ents: "sectors_ok d \<Longrightarrow> inode_ok i \<Longrightarrow> length (ents d i) = 143"
  by (simp add: ents_def length_ids inode_ok_def)

lemma length_fblock: "sectors_ok d \<Longrightarrow> length (fblock d i k) = 512"
  by (simp add: fblock_def sectors_ok_def)

lemma claimed_iff: "b \<in> set (claimed d i) \<longleftrightarrow> b \<noteq> 0 \<and> (b = sfi_indirect i \<or> b \<in> set (ents d i))"
  by (auto simp: claimed_def)

lemma distinct_filter_nth:
  assumes "distinct (filter P xs)" and "i < length xs" and "j < length xs" and "xs ! i = xs ! j" and "P (xs ! i)"
  shows "i = j"
  using assms
proof (induction xs arbitrary: i j)
  case (Cons x xs)
  have "x \<notin> set (filter P xs) \<or> \<not> P x" "distinct (filter P xs)" using Cons.prems(1) by (auto split: if_splits)
  then show ?case using Cons by (cases i; cases j) (auto dest: nth_mem)
qed simp

lemma distinct_filter_update:
  assumes "distinct (filter P xs)" and "k < length xs" and "\<not> P (xs ! k)" and "b \<notin> set xs"
  shows "distinct (filter P (xs[k := b]))"
  using assms
proof (induction xs arbitrary: k)
  case (Cons x xs)
  then show ?case by (cases k) (auto split: if_splits dest: set_update_subset_insert [THEN subsetD])
qed simp

lemma ents_nth_claimed: "k < length (ents d i) \<Longrightarrow> ents d i ! k \<noteq> 0 \<Longrightarrow> ents d i ! k \<in> set (claimed d i)"
  by (simp add: claimed_iff)

lemma ents_inj:
  assumes "distinct (claimed d i)" and "j < length (ents d i)" and "k < length (ents d i)" and "ents d i ! j = ents d i ! k" and "ents d i ! j \<noteq> 0"
  shows "j = k"
  using distinct_filter_nth [of "\<lambda>b. b \<noteq> 0" "ents d i" j k] assms by (auto simp: claimed_def split: if_splits)

lemma ents_not_indirect:
  assumes "distinct (claimed d i)" and "k < length (ents d i)" and "ents d i ! k \<noteq> 0"
  shows "ents d i ! k \<noteq> sfi_indirect i"
proof
  assume eq: "ents d i ! k = sfi_indirect i"
  then have "sfi_indirect i \<in> set (ents d i)" using nth_mem [OF assms(2)] by simp
  then show False using assms(1,3) eq by (simp add: claimed_def)
qed

text \<open>Storing into a block that only holds data changes that block of the file and nothing else.\<close>

lemma store_data:
  assumes dist: "distinct (claimed d i)" and k: "k < length (ents d i)" and nz: "ents d i ! k \<noteq> 0"
  shows "ents (d(ents d i ! k := x)) i = ents d i" and "claimed (d(ents d i ! k := x)) i = claimed d i"
    and "j < length (ents d i) \<Longrightarrow> fblock (d(ents d i ! k := x)) i j = (if j = k then x else fblock d i j)"
proof -
  have ne: "ents d i ! k \<noteq> sfi_indirect i" using ents_not_indirect [OF assms] .
  show e: "ents (d(ents d i ! k := x)) i = ents d i" using ne by (auto simp: ents_def ids_def)
  then show "claimed (d(ents d i ! k := x)) i = claimed d i" by (simp add: claimed_def)
  show "fblock (d(ents d i ! k := x)) i j = (if j = k then x else fblock d i j)" if "j < length (ents d i)"
    using ents_inj [OF dist that k] nz by (auto simp: fblock_def e)
qed

text \<open>A block outside the file has no influence on it.\<close>

lemma other_block:
  assumes "b \<notin> set (claimed d i)" and "b \<noteq> 0"
  shows "ents (d(b := x)) i = ents d i" and "claimed (d(b := x)) i = claimed d i"
    and "k < length (ents d i) \<Longrightarrow> fblock (d(b := x)) i k = fblock d i k"
proof -
  have ne: "b \<noteq> sfi_indirect i" using assms by (simp add: claimed_iff)
  show e: "ents (d(b := x)) i = ents d i" using ne by (auto simp: ents_def ids_def)
  then show "claimed (d(b := x)) i = claimed d i" by (simp add: claimed_def)
  show "fblock (d(b := x)) i k = fblock d i k" if "k < length (ents d i)"
    using assms ents_nth_claimed [OF that] by (auto simp: fblock_def e)
qed

lemma same_blocks:
  assumes "\<forall>b \<in> set (claimed d i). d' b = d b"
  shows "ents d' i = ents d i" and "claimed d' i = claimed d i" and "k < length (ents d i) \<Longrightarrow> fblock d' i k = fblock d i k"
proof -
  have "sfi_indirect i \<noteq> 0 \<Longrightarrow> d' (sfi_indirect i) = d (sfi_indirect i)" using assms by (simp add: claimed_iff)
  then show e: "ents d' i = ents d i" by (simp add: ents_def ids_def)
  then show "claimed d' i = claimed d i" by (simp add: claimed_def)
  show "fblock d' i k = fblock d i k" if "k < length (ents d i)"
    using assms ents_nth_claimed [OF that] by (auto simp: fblock_def e)
qed

section \<open>The invariant\<close>

definition fs_used :: "sfs_fs \<Rightarrow> nat set" where
  "fs_used fs = bitmap_used (sfs_freemap fs)"

text \<open>
  A mounted file system: the disk works, the blocks past the end of the file system and the
  superblock are marked in use. A file in it: its block numbers are in range, in use and
  pairwise different.
\<close>

definition fs_ok :: "sfs_fs \<Rightarrow> bool" where
  "fs_ok fs \<longleftrightarrow> healthy fs \<and> bitmap_ok (sfs_freemap fs) \<and> sp_nblocks (sfs_super fs) \<le> d_blocks (sfs_device fs) \<and>
     sp_nblocks (sfs_super fs) \<le> nbits (sfs_freemap fs) \<and>
     {sp_nblocks (sfs_super fs)..<nbits (sfs_freemap fs)} \<subseteq> fs_used fs \<and> 0 \<in> fs_used fs"

definition file_ok :: "sfs_fs \<Rightarrow> sfs_inode \<Rightarrow> bool" where
  "file_ok fs i \<longleftrightarrow> inode_ok i \<and> distinct (claimed (disk fs) i) \<and>
     set (claimed (disk fs) i) \<subseteq> fs_used fs \<inter> {..<sp_nblocks (sfs_super fs)}"

lemma fs_ok_sectors: "fs_ok fs \<Longrightarrow> sectors_ok (disk fs)"
  by (simp add: fs_ok_def healthy_def lhd_ok_def sectors_ok_def disk_def)

lemma fs_ok_dblocks: "fs_ok fs \<Longrightarrow> b < sp_nblocks (sfs_super fs) \<Longrightarrow> b < d_blocks (sfs_device fs)"
  by (simp add: fs_ok_def)

lemma file_ok_length: "fs_ok fs \<Longrightarrow> file_ok fs i \<Longrightarrow> length (ents (disk fs) i) = 143"
  by (simp add: file_ok_def length_ents fs_ok_sectors)

text \<open>
  How a file system with a file in it may change while the file is worked on: the file stays
  well formed, its new blocks come from the free ones, and no block that is in use outside the
  file is touched.
\<close>

definition keeps :: "sfs_fs \<Rightarrow> sfs_fs \<Rightarrow> bool" where
  "keeps fs fs' \<longleftrightarrow> sfs_super fs' = sfs_super fs \<and> sfs_superdirty fs' = sfs_superdirty fs \<and> sfs_vnodes fs' = sfs_vnodes fs \<and>
     sfs_mem fs' = sfs_mem fs \<and> d_blocks (sfs_device fs') = d_blocks (sfs_device fs) \<and> nbits (sfs_freemap fs') = nbits (sfs_freemap fs)"

lemma keeps_refl [simp]: "keeps fs fs"
  by (simp add: keeps_def)

lemma keeps_trans: "keeps a b \<Longrightarrow> keeps b c \<Longrightarrow> keeps a c"
  by (simp add: keeps_def)

definition evolves :: "sfs_fs \<Rightarrow> sfs_inode \<Rightarrow> sfs_fs \<Rightarrow> sfs_inode \<Rightarrow> bool" where
  "evolves fs i fs' i' \<longleftrightarrow> fs_ok fs' \<and> file_ok fs' i' \<and> keeps fs fs' \<and>
     fs_used fs \<subseteq> fs_used fs' \<and> (\<forall>b \<in> fs_used fs. b \<notin> set (claimed (disk fs) i) \<longrightarrow> disk fs' b = disk fs b) \<and>
     set (claimed (disk fs) i) \<subseteq> set (claimed (disk fs') i') \<and>
     set (claimed (disk fs') i') \<subseteq> set (claimed (disk fs) i) \<union> (fs_used fs' - fs_used fs) \<and>
     sfi_type i' = sfi_type i \<and> sfi_linkcount i' = sfi_linkcount i"

lemma evolves_refl: "fs_ok fs \<Longrightarrow> file_ok fs i \<Longrightarrow> evolves fs i fs i"
  by (simp add: evolves_def)

lemma evolves_trans:
  assumes "evolves fs i fs1 i1" and "evolves fs1 i1 fs2 i2"
  shows "evolves fs i fs2 i2"
proof -
  have "disk fs2 b = disk fs b" if "b \<in> fs_used fs" "b \<notin> set (claimed (disk fs) i)" for b
  proof -
    have "b \<in> fs_used fs1" "b \<notin> set (claimed (disk fs1) i1)" "disk fs1 b = disk fs b"
      using assms(1) that by (auto simp: evolves_def)
    then show ?thesis using assms(2) by (simp add: evolves_def)
  qed
  moreover have "set (claimed (disk fs2) i2) \<subseteq> set (claimed (disk fs) i) \<union> (fs_used fs2 - fs_used fs)"
    using assms unfolding evolves_def by blast
  moreover have "fs_used fs \<subseteq> fs_used fs2" "set (claimed (disk fs) i) \<subseteq> set (claimed (disk fs2) i2)"
    using assms unfolding evolves_def by blast+
  moreover have "keeps fs fs2" using assms keeps_trans unfolding evolves_def by blast
  ultimately show ?thesis using assms unfolding evolves_def by simp
qed

text \<open>A second file whose blocks are in use and disjoint from the first stays as it is.\<close>

lemma evolves_other_file:
  assumes "evolves fs i fs' i'" and "file_ok fs j" and "set (claimed (disk fs) j) \<inter> set (claimed (disk fs) i) = {}"
  shows "file_ok fs' j" and "set (claimed (disk fs') j) \<inter> set (claimed (disk fs') i') = {}"
    and "ents (disk fs') j = ents (disk fs) j" and "k < length (ents (disk fs) j) \<Longrightarrow> fblock (disk fs') j k = fblock (disk fs) j k"
proof -
  have "\<forall>b \<in> set (claimed (disk fs) j). disk fs' b = disk fs b"
    using assms by (auto simp: evolves_def file_ok_def)
  note same = same_blocks [OF this]
  show "ents (disk fs') j = ents (disk fs) j" by (rule same)
  show "k < length (ents (disk fs) j) \<Longrightarrow> fblock (disk fs') j k = fblock (disk fs) j k" by (rule same)
  show "file_ok fs' j" using assms same(2) by (auto simp: file_ok_def evolves_def keeps_def)
  show "set (claimed (disk fs') j) \<inter> set (claimed (disk fs') i') = {}"
    using assms same(2) by (auto simp: file_ok_def evolves_def)
qed

lemma fs_ok_moved:
  assumes "fs_ok fs" and "lhd_moved (sfs_device fs) lh"
  shows "fs_ok (fs\<lparr>sfs_device := lh\<rparr>)"
  using assms healthy_moved lhd_moved_blocks [OF assms(2)] by (auto simp: fs_ok_def fs_used_def)

lemma keeps_moved: "lhd_moved (sfs_device fs) lh \<Longrightarrow> keeps fs (fs\<lparr>sfs_device := lh\<rparr>)"
  by (simp add: keeps_def lhd_moved_blocks)

lemma evolves_moved:
  assumes "fs_ok fs" and "file_ok fs i" and "lhd_moved (sfs_device fs) lh" and "hw_sect lh = disk fs"
  shows "evolves fs i (fs\<lparr>sfs_device := lh\<rparr>) i"
  using assms fs_ok_moved [OF assms(1,3)] keeps_moved [OF assms(3)]
  by (simp add: evolves_def file_ok_def fs_used_def)

section \<open>Allocation and freeing\<close>

definition fs_full :: "sfs_fs \<Rightarrow> bool" where
  "fs_full fs \<longleftrightarrow> fs_used fs = {..<nbits (sfs_freemap fs)}"

lemma balloc_cases:
  assumes ok: "fs_ok fs"
  obtains (full) "sfs_balloc fs = Some (Inl ENOSPC, fs)" and "fs_full fs"
  | (got) b fs' where "sfs_balloc fs = Some (Inr b, fs')" and "fs_ok fs'" and "keeps fs fs'"
      and "b \<noteq> 0" and "b \<notin> fs_used fs" and "b < sp_nblocks (sfs_super fs)" and "\<forall>x < b. x \<in> fs_used fs"
      and "fs_used fs' = insert b (fs_used fs)" and "disk fs' = (disk fs)(b := zero_block)"
proof -
  have bok: "bitmap_ok (sfs_freemap fs)" using ok by (simp add: fs_ok_def)
  from bok show ?thesis
  proof (cases rule: bitmap_alloc_cases)
    case full
    then show ?thesis using that(1) by (simp add: sfs_balloc_def fs_full_def fs_used_def)
  next
    case (taken b bm)
    have b: "b < sp_nblocks (sfs_super fs)" "b \<noteq> 0"
      using taken ok by (auto simp: fs_ok_def fs_used_def not_less subset_iff)
    let ?fs = "fs\<lparr>sfs_freemap := bm, sfs_freemapdirty := True\<rparr>"
    have h: "healthy ?fs" using ok by (simp add: fs_ok_def healthy_def)
    obtain lh where lh: "sfs_wblock zero_block b ?fs = Some (Inr (), ?fs\<lparr>sfs_device := lh\<rparr>)" "lhd_moved (sfs_device ?fs) lh"
        "hw_sect lh = (disk ?fs)(b := zero_block)"
      using wblock_ok [OF h, of b zero_block] fs_ok_dblocks [OF ok b(1)] by auto
    let ?fs' = "fs\<lparr>sfs_freemap := bm, sfs_freemapdirty := True, sfs_device := lh\<rparr>"
    have eq: "sfs_balloc fs = Some (Inr b, ?fs')"
      using lh(1) taken(1) b(1) by (simp add: sfs_balloc_def sfs_clearblock_def)
    have used: "fs_used ?fs' = insert b (fs_used fs)" using taken by (simp add: fs_used_def)
    have "fs_ok ?fs'"
      using ok taken healthy_moved [OF h lh(2)] lhd_moved_blocks [OF lh(2)] used by (auto simp: fs_ok_def fs_used_def)
    moreover have "keeps fs ?fs'" using taken lhd_moved_blocks [OF lh(2)] by (simp add: keeps_def)
    ultimately show ?thesis using that(2) [OF eq] b taken used lh(3) by (simp add: fs_used_def disk_def)
  qed
qed

lemma bfree_ok:
  assumes ok: "fs_ok fs" and b: "b \<in> fs_used fs" "b < sp_nblocks (sfs_super fs)" "b \<noteq> 0"
  obtains bm where "sfs_bfree b fs = Some (fs\<lparr>sfs_freemap := bm, sfs_freemapdirty := True\<rparr>)"
    and "fs_ok (fs\<lparr>sfs_freemap := bm, sfs_freemapdirty := True\<rparr>)" and "bitmap_used bm = fs_used fs - {b}" and "nbits bm = nbits (sfs_freemap fs)"
proof -
  obtain bm where bm: "bitmap_unmark b (sfs_freemap fs) = Some bm" "bitmap_ok bm" "nbits bm = nbits (sfs_freemap fs)" "bitmap_used bm = fs_used fs - {b}"
    using bitmap_unmark_spec [of "sfs_freemap fs" b] ok b by (auto simp: fs_ok_def fs_used_def)
  then have "fs_ok (fs\<lparr>sfs_freemap := bm, sfs_freemapdirty := True\<rparr>)"
    using ok b by (auto simp: fs_ok_def fs_used_def healthy_def)
  then show ?thesis using that bm by (simp add: sfs_bfree_def)
qed

lemma bused_ok:
  "fs_ok fs \<Longrightarrow> b < sp_nblocks (sfs_super fs) \<Longrightarrow> sfs_bused fs b = Some (b \<in> fs_used fs)"
  using bitmap_isset_spec [of "sfs_freemap fs" b] by (auto simp: fs_ok_def sfs_bused_def fs_used_def)

lemma bmap_hand_ok:
  assumes "fs_ok fs" and "b = 0 \<or> b \<in> fs_used fs \<and> b < sp_nblocks (sfs_super fs)"
  shows "bmap_hand b sv fs = Some (Inr b, sv, fs)"
  using assms bused_ok by (auto simp: bmap_hand_def)

section \<open>The block map\<close>

text \<open>Filling a hole with a zeroed block leaves the contents of the file as they are.\<close>

lemma ents_fill:
  assumes e: "ents d' i' = (ents d i)[k := b]" and ind: "sfi_indirect i' = sfi_indirect i" and k: "k < length (ents d i)" "ents d i ! k = 0"
    and b: "b \<notin> set (claimed d i)" "b \<noteq> 0" and dist: "distinct (claimed d i)" and zero: "d' b = zero_block"
    and same: "\<forall>x \<in> set (ents d i). x \<noteq> 0 \<longrightarrow> d' x = d x"
  shows "distinct (claimed d' i')" and "set (claimed d' i') = insert b (set (claimed d i))"
    and "j < length (ents d i) \<Longrightarrow> fblock d' i' j = fblock d i j"
proof -
  have nb: "b \<notin> set (sfi_indirect i # ents d i)" using b by (auto simp: claimed_iff)
  have c: "claimed d' i' = filter (\<lambda>x. x \<noteq> 0) ((sfi_indirect i # ents d i)[Suc k := b])" by (simp add: claimed_def e ind)
  show "distinct (claimed d' i')"
    unfolding c by (rule distinct_filter_update) (use dist k nb in \<open>simp_all add: claimed_def\<close>)
  have "set ((ents d i)[k := b]) - {0} = insert b (set (ents d i) - {0})"
  proof -
    have "x \<in> set ((ents d i)[k := b])" if "x \<in> set (ents d i)" "x \<noteq> 0" for x
    proof -
      obtain n where n: "n < length (ents d i)" "ents d i ! n = x" using \<open>x \<in> set (ents d i)\<close> by (auto simp: in_set_conv_nth)
      then show ?thesis using that(2) k by (metis length_list_update nth_list_update_neq nth_mem)
    qed
    moreover have "b \<in> set ((ents d i)[k := b])" using k by (simp add: set_update_memI)
    ultimately show ?thesis using b(2) set_update_subset_insert [of "ents d i" k b] by blast
  qed
  then show "set (claimed d' i') = insert b (set (claimed d i))" using b(2) by (auto simp: claimed_def e ind)
  show "fblock d' i' j = fblock d i j" if "j < length (ents d i)"
    using that k b zero same nth_mem [OF that] by (auto simp: fblock_def e nth_list_update)
qed

lemma evolves_grow:
  assumes ok: "fs_ok fs" "file_ok fs i" and new: "fs_ok fs'" "keeps fs fs'" "fs_used fs' = insert b (fs_used fs)"
    and b: "b \<notin> fs_used fs" "b < sp_nblocks (sfs_super fs)"
    and i': "inode_ok i'" "sfi_type i' = sfi_type i" "sfi_linkcount i' = sfi_linkcount i"
    and c: "distinct (claimed (disk fs') i')" "set (claimed (disk fs') i') = insert b (set (claimed (disk fs) i))"
    and same: "\<forall>x \<in> fs_used fs. x \<notin> set (claimed (disk fs) i) \<longrightarrow> disk fs' x = disk fs x"
  shows "evolves fs i fs' i'"
  using assms unfolding evolves_def file_ok_def by (auto simp: keeps_def)

lemma file_ok_block: "file_ok fs i \<Longrightarrow> b \<in> set (claimed (disk fs) i) \<Longrightarrow> b \<in> fs_used fs \<and> b < sp_nblocks (sfs_super fs) \<and> b \<noteq> 0"
  using claimed_iff [of b "disk fs" i] by (auto simp: file_ok_def)

lemma file_ok_indirect: "file_ok fs i \<Longrightarrow> sfi_indirect i \<noteq> 0 \<Longrightarrow> sfi_indirect i \<in> fs_used fs \<and> sfi_indirect i < sp_nblocks (sfs_super fs)"
  using file_ok_block [of fs i "sfi_indirect i"] by (simp add: claimed_iff)

lemma inode_ok_direct:
  "inode_ok i \<Longrightarrow> b < 2 ^ 32 \<Longrightarrow> inode_ok (i\<lparr>sfi_direct := (sfi_direct i)[k := b]\<rparr>)"
  using set_update_subset_insert [of "sfi_direct i" k b] by (auto simp: inode_ok_def)

lemma inode_ok_indirect: "inode_ok i \<Longrightarrow> b < 2 ^ 32 \<Longrightarrow> inode_ok (i\<lparr>sfi_indirect := b\<rparr>)"
  by (simp add: inode_ok_def)

lemma fs_ok_small: "fs_ok fs \<Longrightarrow> b < sp_nblocks (sfs_super fs) \<Longrightarrow> b < 2 ^ 32"
  by (auto simp: fs_ok_def healthy_def lhd_ok_def)

text \<open>Reading the map.\<close>

lemma bmap_read:
  assumes ok: "fs_ok fs" "file_ok fs (sv_i sv)" and k: "k < 143"
  obtains lh where "sfs_bmap sv k False fs = Some (Inr (ents (disk fs) (sv_i sv) ! k), sv, fs\<lparr>sfs_device := lh\<rparr>)"
    and "lhd_moved (sfs_device fs) lh" and "hw_sect lh = disk fs"
proof -
  let ?i = "sv_i sv" and ?b = "ents (disk fs) (sv_i sv) ! k"
  have len: "length (ents (disk fs) ?i) = 143" "length (sfi_direct ?i) = 15" "length (ids (disk fs) ?i) = 128"
    using file_ok_length [OF ok] ok length_ids fs_ok_sectors by (auto simp: file_ok_def inode_ok_def)
  have b: "?b = 0 \<or> ?b \<in> fs_used fs \<and> ?b < sp_nblocks (sfs_super fs)"
    using ents_nth_claimed [of k "disk fs" ?i] len k ok(2) by (auto simp: file_ok_def)
  have self: "lhd_moved (sfs_device fs) (sfs_device fs)" "hw_sect (sfs_device fs) = disk fs"
    using ok(1) by (simp_all add: lhd_moved_def fs_ok_def healthy_def disk_def)
  show ?thesis
  proof (cases "k < 15")
    case True
    then have "sfi_direct ?i ! k = ?b" using len by (simp add: ents_def nth_append)
    then have "sfs_bmap sv k False fs = Some (Inr ?b, sv, fs)"
      using True len bmap_hand_ok [OF ok(1) b] by (simp add: sfs_bmap_def SFS_NDIRECT_def sfs_bmap_direct_def)
    then show ?thesis using that [of "sfs_device fs"] self by simp
  next
    case False
    then have e: "ids (disk fs) ?i ! (k - 15) = ?b" using len by (simp add: ents_def nth_append)
    have bm: "sfs_bmap sv k False fs = sfs_bmap_indirect sv (k - 15) False fs"
      using False k by (simp add: sfs_bmap_def SFS_NDIRECT_def SFS_DBPERIDB_def)
    show ?thesis
    proof (cases "sfi_indirect ?i = 0")
      case True
      then have "?b = 0" using e k False by (simp add: ids_def)
      then show ?thesis using that [of "sfs_device fs"] self True by (simp add: bm sfs_bmap_indirect_def)
    next
      case nz: False
      then have "sfi_indirect ?i < sp_nblocks (sfs_super fs)" using file_ok_indirect [OF ok(2)] by simp
      then obtain lh where lh: "sfs_rblock zero_block (sfi_indirect ?i) fs = Some (Inr (), disk fs (sfi_indirect ?i), fs\<lparr>sfs_device := lh\<rparr>)"
          "lhd_moved (sfs_device fs) lh" "hw_sect lh = disk fs"
        using rblock_ok [of fs "sfi_indirect ?i" zero_block] ok(1) fs_ok_dblocks by (auto simp: fs_ok_def)
      have b': "?b = 0 \<or> ?b \<in> fs_used (fs\<lparr>sfs_device := lh\<rparr>) \<and> ?b < sp_nblocks (sfs_super (fs\<lparr>sfs_device := lh\<rparr>))"
        using b by (simp add: fs_used_def)
      have n: "nat (int k - 15) = k - 15" using False by linarith
      have "ids (disk fs) ?i = dec32 (disk fs (sfi_indirect ?i))" using nz by (simp add: ids_def)
      then have "sfs_bmap sv k False fs = Some (Inr ?b, sv, fs\<lparr>sfs_device := lh\<rparr>)"
        using nz lh(1) e len(3) k False bmap_hand_ok [OF fs_ok_moved [OF ok(1) lh(2)] b']
        by (simp add: bm sfs_bmap_indirect_def sfs_bmap_entry_def n)
      then show ?thesis using that lh by blast
    qed
  qed
qed

text \<open>Looking a block up with allocation. The contents of the file do not change.\<close>

definition sv_keeps :: "sfs_vnode \<Rightarrow> sfs_vnode \<Rightarrow> bool" where
  "sv_keeps sv sv' \<longleftrightarrow> vn_refcount sv' = vn_refcount sv \<and> vn_opencount sv' = vn_opencount sv \<and> sv_ino sv' = sv_ino sv \<and>
     (sv_dirty sv \<longrightarrow> sv_dirty sv')"

definition same_file :: "sfs_fs \<Rightarrow> sfs_vnode \<Rightarrow> sfs_fs \<Rightarrow> sfs_vnode \<Rightarrow> bool" where
  "same_file fs sv fs' sv' \<longleftrightarrow> evolves fs (sv_i sv) fs' (sv_i sv') \<and> sv_keeps sv sv' \<and> sfi_size (sv_i sv') = sfi_size (sv_i sv) \<and>
     (\<forall>j < 143. fblock (disk fs') (sv_i sv') j = fblock (disk fs) (sv_i sv) j)"

lemma same_file_trans: "same_file fs sv fs1 sv1 \<Longrightarrow> same_file fs1 sv1 fs2 sv2 \<Longrightarrow> same_file fs sv fs2 sv2"
  using evolves_trans by (auto simp: same_file_def sv_keeps_def)

lemma same_file_moved:
  "fs_ok fs \<Longrightarrow> file_ok fs (sv_i sv) \<Longrightarrow> lhd_moved (sfs_device fs) lh \<Longrightarrow> hw_sect lh = disk fs \<Longrightarrow>
   same_file fs sv (fs\<lparr>sfs_device := lh\<rparr>) sv"
  using evolves_moved by (simp add: same_file_def sv_keeps_def)

lemma same_file_refl: "fs_ok fs \<Longrightarrow> file_ok fs (sv_i sv) \<Longrightarrow> same_file fs sv fs sv"
  by (simp add: same_file_def sv_keeps_def evolves_refl)

lemma same_fileD:
  "same_file fs sv fs' sv' \<Longrightarrow> fs_ok fs' \<and> file_ok fs' (sv_i sv') \<and> keeps fs fs'"
  by (simp add: same_file_def evolves_def)

lemma bmap_direct_write:
  assumes ok: "fs_ok fs" "file_ok fs (sv_i sv)" and k: "k < 15"
  obtains (nospace) "sfs_bmap_direct sv k True fs = Some (Inl ENOSPC, sv, fs)" and "fs_full fs"
  | (block) sv' fs' where "sfs_bmap_direct sv k True fs = Some (Inr (ents (disk fs') (sv_i sv') ! k), sv', fs')"
      and "ents (disk fs') (sv_i sv') ! k \<noteq> 0" and "same_file fs sv fs' sv'"
proof -
  let ?i = "sv_i sv" and ?d = "disk fs"
  have i: "inode_ok ?i" and dist: "distinct (claimed ?d ?i)" and len: "length (sfi_direct ?i) = 15" "length (ents ?d ?i) = 143"
    using ok file_ok_length [OF ok] by (auto simp: file_ok_def inode_ok_def)
  have e: "ents ?d ?i ! k = sfi_direct ?i ! k" using k len by (simp add: ents_def nth_append)
  show ?thesis
  proof (cases "sfi_direct ?i ! k = 0")
    case False
    have "bmap_hand (sfi_direct ?i ! k) sv fs = Some (Inr (sfi_direct ?i ! k), sv, fs)"
      using bmap_hand_ok [OF ok(1)] file_ok_block [OF ok(2)] ents_nth_claimed [of k ?d ?i] False e k len by auto
    then have "sfs_bmap_direct sv k True fs = Some (Inr (ents ?d ?i ! k), sv, fs)"
      using False k len by (simp add: sfs_bmap_direct_def e)
    then show ?thesis using block False e same_file_refl [OF ok] by metis
  next
    case hole: True
    from ok(1) show ?thesis
    proof (cases rule: balloc_cases)
      case full
      then show ?thesis using nospace hole k len by (simp add: sfs_bmap_direct_def)
    next
      case (got b fs')
      let ?i' = "?i\<lparr>sfi_direct := (sfi_direct ?i)[k := b]\<rparr>"
      let ?sv = "sv\<lparr>sv_i := ?i', sv_dirty := True\<rparr>"
      have nc: "b \<notin> set (claimed ?d ?i)" using file_ok_block [OF ok(2)] got(5) by auto
      then have nind: "b \<noteq> sfi_indirect ?i" using got(4) by (simp add: claimed_iff)
      have ents': "ents (disk fs') ?i' = (ents ?d ?i)[k := b]"
        using nind k len got(9) by (simp add: ents_def ids_def list_update_append)
      have same: "\<forall>x \<in> set (ents ?d ?i). x \<noteq> 0 \<longrightarrow> disk fs' x = ?d x"
        using nc by (auto simp: got(9) claimed_iff)
      have ez: "ents ?d ?i ! k = 0" "k < length (ents ?d ?i)" using hole e k len by simp_all
      have zb: "disk fs' b = zero_block" "sfi_indirect ?i' = sfi_indirect ?i" by (simp_all add: got(9))
      note fill = ents_fill [OF ents' zb(2) ez(2,1) nc got(4) dist zb(1) same]
      have ev: "evolves fs ?i fs' ?i'"
      proof (rule evolves_grow [OF ok got(2,3,8,5,6)])
        show "inode_ok ?i'" using inode_ok_direct [OF i fs_ok_small [OF ok(1) got(6)]] .
        show "distinct (claimed (disk fs') ?i')" "set (claimed (disk fs') ?i') = insert b (set (claimed ?d ?i))"
          by (rule fill(1), rule fill(2))
        show "\<forall>x \<in> fs_used fs. x \<notin> set (claimed ?d ?i) \<longrightarrow> disk fs' x = ?d x" using got(5) by (auto simp: got(9))
      qed simp_all
      have sf: "same_file fs sv fs' ?sv" using ev fill(3) len by (simp add: same_file_def sv_keeps_def)
      have eb: "ents (disk fs') ?i' ! k = b" using ents' k len by simp
      have "bmap_hand b ?sv fs' = Some (Inr b, ?sv, fs')"
        by (rule bmap_hand_ok [OF got(2)]) (use got(3,6,8) in \<open>simp add: keeps_def\<close>)
      then have "sfs_bmap_direct sv k True fs = Some (Inr (ents (disk fs') (sv_i ?sv) ! k), ?sv, fs')"
        using hole k len got(1) eb by (simp add: sfs_bmap_direct_def)
      then show ?thesis by (rule block [OF _ _ sf]) (use eb got(4) in simp)
    qed
  qed
qed

lemma bmap_entry_write:
  assumes ok: "fs_ok fs" "file_ok fs (sv_i sv)" and nz: "sfi_indirect (sv_i sv) \<noteq> 0" and off: "off < 128"
  obtains (nospace) "sfs_bmap_entry (sfi_indirect (sv_i sv)) (ids (disk fs) (sv_i sv)) off sv True fs = Some (Inl ENOSPC, sv, fs)"
      and "fs_full fs"
  | (block) fs' where "sfs_bmap_entry (sfi_indirect (sv_i sv)) (ids (disk fs) (sv_i sv)) off sv True fs =
        Some (Inr (ents (disk fs') (sv_i sv) ! (15 + off)), sv, fs')"
      and "ents (disk fs') (sv_i sv) ! (15 + off) \<noteq> 0" and "same_file fs sv fs' sv"
proof -
  let ?i = "sv_i sv" and ?d = "disk fs"
  let ?ind = "sfi_indirect ?i" and ?x = "ids ?d ?i"
  have i: "inode_ok ?i" and dist: "distinct (claimed ?d ?i)" and len: "length (sfi_direct ?i) = 15" "length (ents ?d ?i) = 143" "length ?x = 128"
    using ok file_ok_length [OF ok] length_ids fs_ok_sectors by (auto simp: file_ok_def inode_ok_def)
  have e: "ents ?d ?i ! (15 + off) = ?x ! off" using off len by (simp add: ents_def nth_append)
  have ind: "?ind \<in> fs_used fs" "?ind < sp_nblocks (sfs_super fs)" using file_ok_indirect [OF ok(2) nz] by auto
  show ?thesis
  proof (cases "?x ! off = 0")
    case False
    have "bmap_hand (?x ! off) sv fs = Some (Inr (?x ! off), sv, fs)"
      using bmap_hand_ok [OF ok(1)] file_ok_block [OF ok(2)] ents_nth_claimed [of "15 + off" ?d ?i] False e off len by auto
    then have "sfs_bmap_entry ?ind ?x off sv True fs = Some (Inr (ents ?d ?i ! (15 + off)), sv, fs)"
      using False off len by (simp add: sfs_bmap_entry_def e)
    then show ?thesis using block False e same_file_refl [OF ok] by metis
  next
    case hole: True
    from ok(1) show ?thesis
    proof (cases rule: balloc_cases)
      case full
      then show ?thesis using nospace hole off len by (simp add: sfs_bmap_entry_def)
    next
      case (got b fs1)
      have nc: "b \<notin> set (claimed ?d ?i)" using file_ok_block [OF ok(2)] got(5) by auto
      have small: "y < 2 ^ 32" if "y \<in> set (?x[off := b])" for y
        using that set_update_subset_insert [of ?x off b] dec32_less fs_ok_small [OF ok(1) got(6)] nz
        by (auto simp: ids_def split: if_splits)
      have "length (enc32 (?x[off := b])) = 512" using len by simp
      then obtain lh where lh: "sfs_wblock (enc32 (?x[off := b])) ?ind fs1 = Some (Inr (), fs1\<lparr>sfs_device := lh\<rparr>)"
          "lhd_moved (sfs_device fs1) lh" "hw_sect lh = (disk fs1)(?ind := enc32 (?x[off := b]))"
        using wblock_ok [of fs1 ?ind "enc32 (?x[off := b])"] got(2) fs_ok_dblocks [OF got(2)] got(3) ind(2) by (auto simp: fs_ok_def keeps_def)
      define fs' where "fs' = fs1\<lparr>sfs_device := lh\<rparr>"
      have d': "disk fs' = (?d(b := zero_block))(?ind := enc32 (?x[off := b]))" by (simp add: fs'_def lh(3) got(9))
      have fs': "fs_ok fs'" "keeps fs fs'" "fs_used fs' = insert b (fs_used fs)"
        using fs_ok_moved [OF got(2) lh(2)] keeps_trans [OF got(3) keeps_moved [OF lh(2)]] got(8) by (simp_all add: fs'_def fs_used_def)
      have bind: "b \<noteq> ?ind" using ind got(5) by auto
      have ents': "ents (disk fs') ?i = (ents ?d ?i)[15 + off := b]"
        using nz bind off len dec32_enc32 [OF small] by (simp add: ents_def ids_def d' list_update_append)
      have same: "\<forall>x \<in> set (ents ?d ?i). x \<noteq> 0 \<longrightarrow> disk fs' x = ?d x"
      proof (intro ballI impI)
        fix x assume x: "x \<in> set (ents ?d ?i)" "x \<noteq> 0"
        then have "x \<noteq> b" using nc by (auto simp: claimed_iff)
        moreover have "x \<noteq> ?ind" using x ents_not_indirect [OF dist] by (auto simp: in_set_conv_nth)
        ultimately show "disk fs' x = ?d x" by (simp add: d')
      qed
      have ez: "ents ?d ?i ! (15 + off) = 0" "15 + off < length (ents ?d ?i)" using hole e off len by simp_all
      have zb: "disk fs' b = zero_block" using bind by (simp add: d')
      note fill = ents_fill [OF ents' refl ez(2,1) nc got(4) dist zb same]
      have "evolves fs ?i fs' ?i"
      proof (rule evolves_grow [OF ok fs' got(5,6) i])
        show "distinct (claimed (disk fs') ?i)" "set (claimed (disk fs') ?i) = insert b (set (claimed ?d ?i))"
          by (rule fill(1), rule fill(2))
        show "\<forall>x \<in> fs_used fs. x \<notin> set (claimed ?d ?i) \<longrightarrow> disk fs' x = ?d x" using got(5) nz by (auto simp: d' claimed_iff)
      qed simp_all
      then have sf: "same_file fs sv fs' sv" using fill(3) len by (simp add: same_file_def sv_keeps_def)
      have eb: "ents (disk fs') ?i ! (15 + off) = b" using ents' off len by simp
      have "bmap_hand b sv fs' = Some (Inr b, sv, fs')"
        by (rule bmap_hand_ok [OF fs'(1)]) (use fs'(2,3) got(6) in \<open>simp add: keeps_def\<close>)
      then have "sfs_bmap_entry ?ind ?x off sv True fs = Some (Inr (ents (disk fs') ?i ! (15 + off)), sv, fs')"
        using hole off len got(1) lh(1) eb by (simp add: sfs_bmap_entry_def fs'_def)
      then show ?thesis by (rule block [OF _ _ sf]) (use eb got(4) in simp)
    qed
  qed
qed

lemma same_file_indirect:
  assumes ok: "fs_ok fs" "file_ok fs (sv_i sv)" and z: "sfi_indirect (sv_i sv) = 0"
    and new: "fs_ok fs'" "keeps fs fs'" "fs_used fs' = insert b (fs_used fs)" "disk fs' = (disk fs)(b := zero_block)"
    and b: "b \<noteq> 0" "b \<notin> fs_used fs" "b < sp_nblocks (sfs_super fs)"
  defines "sv1 \<equiv> sv\<lparr>sv_i := (sv_i sv)\<lparr>sfi_indirect := b\<rparr>, sv_dirty := True\<rparr>"
  shows "same_file fs sv fs' sv1"
proof -
  let ?i = "sv_i sv" and ?d = "disk fs"
  let ?i' = "?i\<lparr>sfi_indirect := b\<rparr>"
  have i: "inode_ok ?i" and dist: "distinct (claimed ?d ?i)" and len: "length (ents ?d ?i) = 143"
    using ok file_ok_length [OF ok] by (auto simp: file_ok_def)
  have nc: "b \<notin> set (claimed ?d ?i)" using file_ok_block [OF ok(2)] b by auto
  have e: "ents (disk fs') ?i' = ents ?d ?i" using z b(1) by (simp add: ents_def ids_def new(4) dec32_zero_block)
  have c: "claimed (disk fs') ?i' = b # claimed ?d ?i" using b(1) z by (simp add: claimed_def e)
  have "evolves fs ?i fs' ?i'"
  proof (rule evolves_grow [OF ok new(1-3) b(2,3) inode_ok_indirect [OF i fs_ok_small [OF ok(1) b(3)]]])
    show "distinct (claimed (disk fs') ?i')" "set (claimed (disk fs') ?i') = insert b (set (claimed ?d ?i))"
      using dist nc by (simp_all add: c)
    show "\<forall>x \<in> fs_used fs. x \<notin> set (claimed ?d ?i) \<longrightarrow> disk fs' x = ?d x" using b(2) by (auto simp: new(4))
  qed simp_all
  moreover have "fblock (disk fs') ?i' j = fblock ?d ?i j" if "j < 143" for j
  proof -
    have "ents ?d ?i ! j \<noteq> 0 \<Longrightarrow> disk fs' (ents ?d ?i ! j) = ?d (ents ?d ?i ! j)"
      using nc ents_nth_claimed [of j ?d ?i] that len by (auto simp: new(4))
    then show ?thesis by (simp add: fblock_def e)
  qed
  ultimately show ?thesis by (simp add: same_file_def sv_keeps_def sv1_def)
qed

lemma bmap_indirect_write:
  assumes ok: "fs_ok fs" "file_ok fs (sv_i sv)" and off: "off < 128"
  obtains (nospace) sv' fs' where "sfs_bmap_indirect sv off True fs = Some (Inl ENOSPC, sv', fs')" and "same_file fs sv fs' sv'" and "fs_full fs'"
  | (block) sv' fs' where "sfs_bmap_indirect sv off True fs = Some (Inr (ents (disk fs') (sv_i sv') ! (15 + off)), sv', fs')"
      and "ents (disk fs') (sv_i sv') ! (15 + off) \<noteq> 0" and "same_file fs sv fs' sv'"
proof -
  note nosp = that(1) and blk = that(2)
  have step: ?thesis
    if eq: "sfs_bmap_indirect sv off True fs = sfs_bmap_entry (sfi_indirect (sv_i sv1)) (ids (disk fs1) (sv_i sv1)) off sv1 True fs1"
      and sf: "same_file fs sv fs1 sv1" and nz: "sfi_indirect (sv_i sv1) \<noteq> 0" for sv1 fs1
  proof -
    have ok1: "fs_ok fs1" "file_ok fs1 (sv_i sv1)" using same_fileD [OF sf] by auto
    show ?thesis
    proof (cases rule: bmap_entry_write [OF ok1 nz off, case_names nospace block])
      case nospace
      then show ?thesis using nosp [of sv1 fs1] eq sf by simp
    next
      case (block fs')
      then show ?thesis using blk [of fs' sv1] eq same_file_trans [OF sf] by simp
    qed
  qed
  show ?thesis
  proof (cases "sfi_indirect (sv_i sv) = 0")
    case z: True
    from ok(1) show ?thesis
    proof (cases rule: balloc_cases)
      case full
      then show ?thesis using nosp [of sv fs] z same_file_refl [OF ok] by (simp add: sfs_bmap_indirect_def)
    next
      case (got b fs1)
      let ?sv = "sv\<lparr>sv_i := (sv_i sv)\<lparr>sfi_indirect := b\<rparr>, sv_dirty := True\<rparr>"
      have sf: "same_file fs sv fs1 ?sv" using same_file_indirect [OF ok z got(2,3,8,9,4,5,6)] .
      show ?thesis
        by (rule step [OF _ sf]) (use z got in \<open>simp_all add: sfs_bmap_indirect_def ids_def dec32_zero_block SFS_DBPERIDB_def\<close>)
    qed
  next
    case nz: False
    then obtain lh where lh: "sfs_rblock zero_block (sfi_indirect (sv_i sv)) fs = Some (Inr (), disk fs (sfi_indirect (sv_i sv)), fs\<lparr>sfs_device := lh\<rparr>)"
        "lhd_moved (sfs_device fs) lh" "hw_sect lh = disk fs"
      using rblock_ok [of fs "sfi_indirect (sv_i sv)" zero_block] file_ok_indirect [OF ok(2) nz] fs_ok_dblocks [OF ok(1)] ok(1) by (auto simp: fs_ok_def)
    show ?thesis
      by (rule step [OF _ same_file_moved [OF ok lh(2,3)] nz]) (use nz lh in \<open>simp add: sfs_bmap_indirect_def ids_def Let_def\<close>)
  qed
qed

lemma bmap_write:
  assumes ok: "fs_ok fs" "file_ok fs (sv_i sv)" and k: "k < 143"
  obtains (nospace) sv' fs' where "sfs_bmap sv k True fs = Some (Inl ENOSPC, sv', fs')" and "same_file fs sv fs' sv'" and "fs_full fs'"
  | (block) sv' fs' where "sfs_bmap sv k True fs = Some (Inr (ents (disk fs') (sv_i sv') ! k), sv', fs')"
      and "ents (disk fs') (sv_i sv') ! k \<noteq> 0" and "same_file fs sv fs' sv'"
proof (cases "k < 15")
  case True
  then have bm: "sfs_bmap sv k True fs = sfs_bmap_direct sv k True fs" by (simp add: sfs_bmap_def SFS_NDIRECT_def)
  show ?thesis
  proof (cases rule: bmap_direct_write [OF ok True, case_names nospace block])
    case nospace
    then show ?thesis using that(1) [of sv fs] same_file_refl [OF ok] bm by simp
  next
    case (block fs' sv')
    then show ?thesis using that(2) bm by simp
  qed
next
  case False
  then have bm: "sfs_bmap sv k True fs = sfs_bmap_indirect sv (k - 15) True fs" and k15: "15 + (k - 15) = k" "k - 15 < 128"
    using k by (simp_all add: sfs_bmap_def SFS_NDIRECT_def SFS_DBPERIDB_def)
  show ?thesis
  proof (cases rule: bmap_indirect_write [OF ok k15(2), case_names nospace block])
    case (nospace sv' fs')
    then show ?thesis using that(1) bm by simp
  next
    case (block fs' sv')
    then show ?thesis using that(2) bm by (simp add: k15(1))
  qed
qed

lemma bmap_too_far: "143 \<le> k \<Longrightarrow> sfs_bmap sv k doalloc fs = Some (Inl EINVAL, sv, fs)"
proof -
  assume k: "143 \<le> k"
  then have "0 < (k - 15) div 128" by (simp add: div_greater_zero_iff)
  then show ?thesis using k by (simp add: sfs_bmap_def SFS_NDIRECT_def SFS_DBPERIDB_def)
qed

end
