(* ===== verification/SfsRead.thy ===== *)
theory SfsRead
  imports SfsFileInv
begin

text \<open>
  Reading a file: \<open>sfs_io\<close> on a kernel \<open>uio\<close> delivers exactly the bytes of the file at the
  position asked for, up to the end of the file.
\<close>

section \<open>Positions\<close>

lemma off_block_eq: "0 \<le> off \<Longrightarrow> off < 2 ^ 31 \<Longrightarrow> off_block off = nat off div 512"
proof -
  assume o: "0 \<le> off" "off < 2 ^ 31"
  then have "c_quot off 512 = off div 512" by (cases "off = 0") (simp_all add: c_quot_def)
  moreover have "0 \<le> off div 512" "off div 512 < 2 ^ 31" using o by (auto simp: pos_imp_zdiv_nonneg_iff intro: le_less_trans [OF zdiv_mono2 [of off 1 512, simplified]])
  ultimately show ?thesis using o by (simp add: off_block_def SFS_BLOCKSIZE_def nat_div_distrib)
qed

lemma off_within_eq: "0 \<le> off \<Longrightarrow> off < 2 ^ 31 \<Longrightarrow> off_within off = nat off mod 512"
proof -
  assume o: "0 \<le> off" "off < 2 ^ 31"
  then have "c_quot off 512 = off div 512" by (cases "off = 0") (simp_all add: c_quot_def)
  moreover have "off - 512 * (off div 512) = off mod 512" by (simp add: minus_mult_div_eq_mod)
  ultimately show ?thesis using o by (simp add: off_within_def SFS_BLOCKSIZE_def nat_mod_distrib)
qed

lemma kuio_off: "kuio u \<Longrightarrow> off_block (uio_offset u) = nat (uio_offset u) div 512" "kuio u \<Longrightarrow> off_within (uio_offset u) = nat (uio_offset u) mod 512"
  by (auto simp: kuio_def intro!: off_block_eq off_within_eq)

text \<open>A stretch of bytes inside one block.\<close>

lemma fbyte_slice:
  assumes "sectors_ok d" and "p mod 512 + n \<le> 512"
  shows "take n (drop (p mod 512) (fblock d i (p div 512))) = map (fbyte d i) [p..<p + n]"
proof (rule nth_equalityI)
  show "length (take n (drop (p mod 512) (fblock d i (p div 512)))) = length (map (fbyte d i) [p..<p + n])"
    using assms length_fblock [OF assms(1)] by simp
next
  fix j assume "j < length (take n (drop (p mod 512) (fblock d i (p div 512))))"
  then have j: "j < n" by simp
  have "(p + j) div 512 = p div 512 \<and> (p + j) mod 512 = p mod 512 + j"
  proof -
    have "p + j = 512 * (p div 512) + (p mod 512 + j)" by simp
    moreover have "p mod 512 + j < 512" using assms(2) j by simp
    ultimately show ?thesis by (metis div_mult_self4 mod_mult_self4 div_less mod_less add.right_neutral zero_neq_numeral)
  qed
  then show "take n (drop (p mod 512) (fblock d i (p div 512))) ! j = map (fbyte d i) [p..<p + n] ! j"
    using assms j length_fblock [OF assms(1)] by (simp add: fbyte_def)
qed

text \<open>Bytes delivered into the region of a \<open>uio\<close>.\<close>

definition put_bytes :: "uio \<Rightarrow> byte list \<Rightarrow> uio" where
  "put_bytes u bs = (uio_took (length bs) u)\<lparr>iov_kbuf := take (iov_koff u) (iov_kbuf u) @ bs @ drop (iov_koff u + length bs) (iov_kbuf u)\<rparr>"

lemma put_bytes_fits: "kuio u \<Longrightarrow> length bs \<le> uio_resid u \<Longrightarrow> iov_koff u + length bs \<le> length (iov_kbuf u)"
  by (simp add: kuio_def)

lemma kuio_put: "kuio u \<Longrightarrow> length bs \<le> uio_resid u \<Longrightarrow> kuio (put_bytes u bs)"
  using put_bytes_fits [of u bs] unfolding put_bytes_def by (intro kuio_kbuf kuio_took) auto

lemma put_bytes_append:
  assumes "kuio u" and "length (as @ bs) \<le> uio_resid u"
  shows "put_bytes (put_bytes u as) bs = put_bytes u (as @ bs)"
  using put_bytes_fits [OF assms] by (simp add: put_bytes_def uio_took_add add.assoc add.commute [of "length bs"])

lemma put_bytes_simps [simp]:
  "uio_offset (put_bytes u bs) = uio_offset u + int (length bs)" "uio_resid (put_bytes u bs) = uio_resid u - length bs"
  "uio_rw (put_bytes u bs) = uio_rw u" "iov_koff (put_bytes u bs) = iov_koff u + length bs"
  by (simp_all add: put_bytes_def)

lemma put_bytes_Nil: "iov_koff u \<le> length (iov_kbuf u) \<Longrightarrow> put_bytes u [] = u"
  by (simp add: put_bytes_def)

section \<open>Reading\<close>

text \<open>The outcome of a read of \<open>n\<close> bytes at the position of the \<open>uio\<close>.\<close>

definition reads :: "nat \<Rightarrow> sfs_vnode \<Rightarrow> uio \<Rightarrow> sfs_fs \<Rightarrow> io_result option \<Rightarrow> bool" where
  "reads n sv u fs x \<longleftrightarrow> (\<exists>lh. lhd_moved (sfs_device fs) lh \<and> hw_sect lh = disk fs \<and>
     x = Some (Inr (), sv, put_bytes u (map (fbyte (disk fs) (sv_i sv)) [nat (uio_offset u)..<nat (uio_offset u) + n]), fs\<lparr>sfs_device := lh\<rparr>))"

lemma map_upt_split: "map f [a..<a + m] @ map f [a + m..<a + m + n] = map f [a..<a + (m + n)]"
  using upt_add_eq_append [of a "a + m" n] by (simp only: map_append [symmetric] add.assoc le_add1)

lemma reads_moved:
  assumes "lhd_moved (sfs_device fs) lh" and "hw_sect lh = disk fs" and "reads n sv u (fs\<lparr>sfs_device := lh\<rparr>) x"
  shows "reads n sv u fs x"
  using assms lhd_moved_trans by (auto simp: reads_def)

lemma partialio_read:
  assumes ok: "fs_ok fs" "file_ok fs (sv_i sv)" and u: "kuio u" "uio_rw u = UIO_READ" and n: "n \<le> uio_resid u"
    and pos: "nat (uio_offset u) div 512 < 143" "nat (uio_offset u) mod 512 + n \<le> 512"
  shows "reads n sv u fs (sfs_partialio sv u (nat (uio_offset u) mod 512) n fs)"
proof -
  let ?o = "nat (uio_offset u)" and ?d = "disk fs" and ?i = "sv_i sv"
  let ?k = "?o div 512"
  have len: "length (ents ?d ?i) = 143" using file_ok_length [OF ok] .
  obtain lh where lh: "sfs_bmap sv ?k False fs = Some (Inr (ents ?d ?i ! ?k), sv, fs\<lparr>sfs_device := lh\<rparr>)"
      "lhd_moved (sfs_device fs) lh" "hw_sect lh = ?d"
    by (rule bmap_read [OF ok pos(1)])
  let ?fs = "fs\<lparr>sfs_device := lh\<rparr>"
  obtain lh2 where lh2: "(if ents ?d ?i ! ?k = 0 then Some (Inr (), zero_block, ?fs) else sfs_rblock zero_block (ents ?d ?i ! ?k) ?fs) =
      Some (Inr (), fblock ?d ?i ?k, ?fs\<lparr>sfs_device := lh2\<rparr>)" "lhd_moved lh lh2" "hw_sect lh2 = ?d"
  proof (cases "ents ?d ?i ! ?k = 0")
    case True
    then show ?thesis using that [of lh] lh(2,3) by (simp add: fblock_def lhd_moved_def)
  next
    case False
    then have "ents ?d ?i ! ?k < d_blocks lh"
      using file_ok_block [OF ok(2) ents_nth_claimed] pos(1) len fs_ok_dblocks [OF ok(1)] lhd_moved_blocks [OF lh(2)] by simp
    then show ?thesis
      using rblock_ok [of ?fs "ents ?d ?i ! ?k" zero_block] fs_ok_moved [OF ok(1) lh(2)] that False lh(3)
      by (auto simp: fblock_def fs_ok_def)
  qed
  have mv: "uiomove (fblock ?d ?i ?k) (?o mod 512) n u = Some (Inr (), fblock ?d ?i ?k, put_bytes u (map (fbyte ?d ?i) [?o..<?o + n]))"
    using uiomove_read [OF u n, of "?o mod 512" "fblock ?d ?i ?k"] pos(2) length_fblock [OF fs_ok_sectors [OF ok(1)]]
      fbyte_slice [OF fs_ok_sectors [OF ok(1)] pos(2)] by (simp add: put_bytes_def)
  have "n < 2 ^ 32" using n u(1) by (simp add: kuio_def)
  then have "sfs_partialio sv u (?o mod 512) n fs = Some (Inr (), sv, put_bytes u (map (fbyte ?d ?i) [?o..<?o + n]), ?fs\<lparr>sfs_device := lh2\<rparr>)"
    using lh(1) lh2(1) mv pos(2) u(2) kuio_off(1) [OF u(1)]
    by (auto simp: sfs_partialio_def SFS_BLOCKSIZE_def Let_def split: if_splits)
  then show ?thesis using lhd_moved_trans [OF lh(2) lh2(2)] lh2(3) by (auto simp: reads_def)
qed

lemma reads_split:
  assumes u: "kuio u" and mn: "m + n \<le> uio_resid u" and first: "reads m sv u fs x"
    and second: "\<And>lh. lhd_moved (sfs_device fs) lh \<Longrightarrow> hw_sect lh = disk fs \<Longrightarrow>
      reads n sv (put_bytes u (map (fbyte (disk fs) (sv_i sv)) [nat (uio_offset u)..<nat (uio_offset u) + m])) (fs\<lparr>sfs_device := lh\<rparr>)
        (f sv (put_bytes u (map (fbyte (disk fs) (sv_i sv)) [nat (uio_offset u)..<nat (uio_offset u) + m])) (fs\<lparr>sfs_device := lh\<rparr>))"
  shows "reads (m + n) sv u fs (x \<bind> (\<lambda>(r, sv1, u1, fs1). case r of Inl e \<Rightarrow> Some (Inl e, sv1, u1, fs1) | Inr y \<Rightarrow> f sv1 u1 fs1))"
proof -
  let ?o = "nat (uio_offset u)"
  let ?bs = "\<lambda>a k. map (fbyte (disk fs) (sv_i sv)) [a..<a + k]"
  obtain lh where lh: "lhd_moved (sfs_device fs) lh" "hw_sect lh = disk fs" "x = Some (Inr (), sv, put_bytes u (?bs ?o m), fs\<lparr>sfs_device := lh\<rparr>)"
    using first by (auto simp: reads_def)
  have o: "nat (uio_offset (put_bytes u (?bs ?o m))) = ?o + m" using u by (simp add: kuio_def nat_add_distrib)
  obtain lh2 where lh2: "lhd_moved lh lh2" "hw_sect lh2 = disk fs"
      "f sv (put_bytes u (?bs ?o m)) (fs\<lparr>sfs_device := lh\<rparr>) = Some (Inr (), sv, put_bytes (put_bytes u (?bs ?o m)) (?bs (?o + m) n), fs\<lparr>sfs_device := lh2\<rparr>)"
    using second [OF lh(1,2)] lh(2) unfolding reads_def o by auto
  have "put_bytes (put_bytes u (?bs ?o m)) (?bs (?o + m) n) = put_bytes u (?bs ?o (m + n))"
    using put_bytes_append [OF u, of "?bs ?o m" "?bs (?o + m) n"] mn map_upt_split [of "fbyte (disk fs) (sv_i sv)" ?o m n] by simp
  then show ?thesis unfolding reads_def using lh lh2 lhd_moved_trans by (intro exI [of _ lh2]) auto
qed

lemma blockio_mapped:
  assumes u: "kuio u" "512 \<le> uio_resid u" and bm: "sfs_bmap sv (nat (uio_offset u) div 512) (uio_rw u = UIO_WRITE) fs = Some (Inr b, sv1, fs1)"
    and b: "b \<noteq> 0" "b + 1 < 2 ^ 22"
    and rw: "sfs_rwblock (u\<lparr>uio_offset := int b * 512, uio_resid := 512\<rparr>) fs1 = Some (r, u1, fs2)"
    "uio_offset u1 = int b * 512 + 512" "uio_resid u1 = 0"
  shows "sfs_blockio sv u fs = Some (r, sv1, u1\<lparr>uio_offset := uio_offset u + 512, uio_resid := uio_resid u - 512\<rparr>, fs2)"
proof -
  have uo: "0 \<le> uio_offset u" "uio_offset u + int (uio_resid u) < 2 ^ 31" using u(1) by (auto simp: kuio_def)
  have bi: "int b + 1 < 2 ^ 22" using b(2) by simp
  have off: "to_off (int (b * 512)) = int b * 512" using bi by simp
  have res: "nat ((int (uio_resid u1) - 512 + to_off (int (uio_resid u))) mod 2 ^ 32) = uio_resid u - 512"
    using u(2) uo by (simp add: rw(3) nat_diff_distrib)
  have co: "c_int (uio_offset u1 - int b * 512) = Some 512" "c_int (512 + uio_offset u) = Some (uio_offset u + 512)"
    using uo u(2) by (simp_all add: rw(2) add.commute)
  show ?thesis
    unfolding sfs_blockio_def kuio_off(1) [OF u(1)] SFS_BLOCKSIZE_def
    using b(1) u(2) by (simp add: bm Let_def off [simplified] rw(1) co res [simplified])
qed

lemma blockio_read:
  assumes ok: "fs_ok fs" "file_ok fs (sv_i sv)" and u: "kuio u" "uio_rw u = UIO_READ" and n: "512 \<le> uio_resid u"
    and pos: "nat (uio_offset u) div 512 < 143" "nat (uio_offset u) mod 512 = 0"
  shows "reads 512 sv u fs (sfs_blockio sv u fs)"
proof -
  let ?o = "nat (uio_offset u)" and ?d = "disk fs" and ?i = "sv_i sv"
  let ?k = "?o div 512"
  have len: "length (ents ?d ?i) = 143" using file_ok_length [OF ok] .
  have bytes: "map (fbyte ?d ?i) [?o..<?o + 512] = fblock ?d ?i ?k"
    using fbyte_slice [OF fs_ok_sectors [OF ok(1)], of ?o 512 ?i] pos(2) length_fblock [OF fs_ok_sectors [OF ok(1)]] by simp
  have lenf: "length (fblock ?d ?i ?k) = 512" using length_fblock [OF fs_ok_sectors [OF ok(1)]] .
  obtain lh where lh: "sfs_bmap sv ?k False fs = Some (Inr (ents ?d ?i ! ?k), sv, fs\<lparr>sfs_device := lh\<rparr>)"
      "lhd_moved (sfs_device fs) lh" "hw_sect lh = ?d"
    by (rule bmap_read [OF ok pos(1)])
  let ?fs = "fs\<lparr>sfs_device := lh\<rparr>" and ?b = "ents ?d ?i ! ?k"
  show ?thesis
  proof (cases "?b = 0")
    case True
    then have "uiomovezeros 512 u = Some (Inr (), put_bytes u (fblock ?d ?i ?k))"
      using uiomovezeros_read [OF u n] by (simp add: fblock_def zero_block_def put_bytes_def)
    then have "sfs_blockio sv u fs = Some (Inr (), sv, put_bytes u (fblock ?d ?i ?k), ?fs)"
      using lh(1) True u(2) kuio_off(1) [OF u(1)] by (simp add: sfs_blockio_def SFS_BLOCKSIZE_def)
    then show ?thesis using lh(2,3) bytes by (auto simp: reads_def)
  next
    case False
    have b: "?b < sp_nblocks (sfs_super fs)" "?b < d_blocks lh"
      using file_ok_block [OF ok(2) ents_nth_claimed] False pos(1) len fs_ok_dblocks [OF ok(1)] lhd_moved_blocks [OF lh(2)] by auto
    have h: "healthy ?fs" using fs_ok_moved [OF ok(1) lh(2)] by (simp add: fs_ok_def)
    have b22: "?b + 1 < 2 ^ 22" using healthy_dblocks [OF h] b(2) by simp
    then have bi: "int ?b + 1 < 2 ^ 22" by simp
    define u0 where "u0 = u\<lparr>uio_offset := int ?b * 512, uio_resid := 512\<rparr>"
    have u0: "kuio u0" "uio_rw u0 = UIO_READ" "uio_resid u0 = 512" "uio_offset u0 = int ?b * 512"
      using u n bi by (simp_all add: kuio_def u0_def)
    obtain lh2 where lh2: "sfs_rwblock u0 ?fs = Some (Inr (), put_bytes u0 (disk ?fs ?b), ?fs\<lparr>sfs_device := lh2\<rparr>)"
        "lhd_moved lh lh2" "hw_sect lh2 = disk ?fs"
      using rwblock_read [OF h u0] b(2) lenf lh(3) False by (auto simp: put_bytes_def fblock_def)
    have fb: "disk ?fs ?b = fblock ?d ?i ?k" using False lh(3) by (simp add: fblock_def)
    have "sfs_blockio sv u fs = Some (Inr (), sv, (put_bytes u0 (fblock ?d ?i ?k))\<lparr>uio_offset := uio_offset u + 512, uio_resid := uio_resid u - 512\<rparr>,
        fs\<lparr>sfs_device := lh2\<rparr>)"
      by (rule blockio_mapped [OF u(1) n _ False b22]) (use lh(1) lh2(1) u0 fb lenf u(2) in \<open>simp_all add: u0_def\<close>)
    moreover have "(put_bytes u0 (fblock ?d ?i ?k))\<lparr>uio_offset := uio_offset u + 512, uio_resid := uio_resid u - 512\<rparr> = put_bytes u (fblock ?d ?i ?k)"
      using lenf by (simp add: put_bytes_def u0_def uio_took_def)
    ultimately have "sfs_blockio sv u fs = Some (Inr (), sv, put_bytes u (fblock ?d ?i ?k), fs\<lparr>sfs_device := lh2\<rparr>)" by simp
    then show ?thesis using lhd_moved_trans [OF lh(2) lh2(2)] lh2(3) lh(3) bytes by (auto simp: reads_def)
  qed
qed

lemma reads_nothing: "fs_ok fs \<Longrightarrow> kuio u \<Longrightarrow> reads 0 sv u fs (Some (Inr (), sv, u, fs))"
  unfolding reads_def
  by (intro exI [of _ "sfs_device fs"]) (simp add: put_bytes_Nil kuio_def lhd_moved_def fs_ok_def healthy_def disk_def)

lemma block_index: "p < 73216 \<Longrightarrow> p div 512 < (143 :: nat)"
  by (simp add: div_less_iff_less_mult)

lemma bytes_offset: "kuio u \<Longrightarrow> nat (uio_offset (put_bytes u bs)) = nat (uio_offset u) + length bs"
  by (simp add: kuio_def nat_add_distrib)

lemma file_ok_moved: "file_ok fs i \<Longrightarrow> hw_sect lh = disk fs \<Longrightarrow> file_ok (fs\<lparr>sfs_device := lh\<rparr>) i"
  by (simp add: file_ok_def fs_used_def)

lemma io_blocks_read:
  assumes "fs_ok fs" "file_ok fs (sv_i sv)" and "kuio u" "uio_rw u = UIO_READ" and "512 * n \<le> uio_resid u"
    and "nat (uio_offset u) mod 512 = 0" and "nat (uio_offset u) + 512 * n \<le> 73216"
  shows "reads (512 * n) sv u fs (sfs_io_blocks n sv u fs)"
  using assms
proof (induction n arbitrary: u fs)
  case 0
  then show ?case using reads_nothing by simp
next
  case (Suc n)
  have k: "nat (uio_offset u) div 512 < 143" using Suc.prems(7) by simp
  have one: "reads 512 sv u fs (sfs_blockio sv u fs)"
    by (rule blockio_read) (use Suc.prems k in auto)
  have "reads (512 + 512 * n) sv u fs (sfs_io_blocks (Suc n) sv u fs)"
    unfolding sfs_io_blocks.simps
  proof (rule reads_split [OF Suc.prems(3) _ one])
    fix lh
    assume lh: "lhd_moved (sfs_device fs) lh" "hw_sect lh = disk fs"
    let ?bs = "map (fbyte (disk fs) (sv_i sv)) [nat (uio_offset u)..<nat (uio_offset u) + 512]"
    show "reads (512 * n) sv (put_bytes u ?bs) (fs\<lparr>sfs_device := lh\<rparr>) (sfs_io_blocks n sv (put_bytes u ?bs) (fs\<lparr>sfs_device := lh\<rparr>))"
      by (rule Suc.IH [OF fs_ok_moved [OF Suc.prems(1) lh(1)] file_ok_moved [OF Suc.prems(2) lh(2)] kuio_put [OF Suc.prems(3)]])
        (use Suc.prems bytes_offset [OF Suc.prems(3), of ?bs] in auto)
  qed (use Suc.prems(5) in simp)
  then show ?case by simp
qed

lemma io_rest_read:
  assumes ok: "fs_ok fs" "file_ok fs (sv_i sv)" and u: "kuio u" "uio_rw u = UIO_READ"
    and pos: "uio_resid u = 0 \<or> nat (uio_offset u) mod 512 = 0" "nat (uio_offset u) + uio_resid u \<le> 73216"
  shows "reads (uio_resid u) sv u fs (sfs_io_rest sv u fs)"
proof (cases "uio_resid u = 0")
  case True
  then show ?thesis using reads_nothing [OF ok(1) u(1)] by (simp add: sfs_io_rest_def)
next
  case False
  let ?q = "uio_resid u div 512" and ?r = "uio_resid u mod 512"
  let ?f = "\<lambda>sv1 u1 fs1. kassert (uio_resid u1 < SFS_BLOCKSIZE) \<bind> (\<lambda>_. if uio_resid u1 > 0 then sfs_partialio sv1 u1 0 (uio_resid u1) fs1
            else Some (Inr (), sv1, u1, fs1))"
  have qr: "512 * ?q + ?r = uio_resid u" by simp
  have m: "nat (uio_offset u) mod 512 = 0" using pos(1) False by simp
  have one: "reads (512 * ?q) sv u fs (sfs_io_blocks ?q sv u fs)"
    by (rule io_blocks_read [OF ok u]) (use pos m qr in \<open>auto simp del: mult_div_mod_eq\<close>)
  have eq: "sfs_io_rest sv u fs = sfs_io_blocks ?q sv u fs \<bind>
      (\<lambda>(r, sv1, u1, fs1). case r of Inl e \<Rightarrow> Some (Inl e, sv1, u1, fs1) | Inr y \<Rightarrow> ?f sv1 u1 fs1)"
    using False m kuio_off(2) [OF u(1)] by (simp add: sfs_io_rest_def SFS_BLOCKSIZE_def)
  have "reads (512 * ?q + ?r) sv u fs (sfs_io_rest sv u fs)"
    unfolding eq
  proof (rule reads_split [OF u(1) _ one])
    fix lh
    assume lh: "lhd_moved (sfs_device fs) lh" "hw_sect lh = disk fs"
    let ?bs = "map (fbyte (disk fs) (sv_i sv)) [nat (uio_offset u)..<nat (uio_offset u) + 512 * ?q]"
    let ?fs = "fs\<lparr>sfs_device := lh\<rparr>" and ?u = "put_bytes u ?bs"
    have u1: "kuio ?u" "uio_rw ?u = UIO_READ" "uio_resid ?u = ?r" using kuio_put [OF u(1), of ?bs] u(2) by (simp_all add: minus_mult_div_eq_mod)
    have o1: "nat (uio_offset ?u) = nat (uio_offset u) + 512 * ?q" using bytes_offset [OF u(1), of ?bs] by simp
    have ok1: "fs_ok ?fs" "file_ok ?fs (sv_i sv)" using fs_ok_moved [OF ok(1) lh(1)] file_ok_moved [OF ok(2) lh(2)] .
    show "reads ?r sv ?u ?fs (?f sv ?u ?fs)"
    proof (cases "?r = 0")
      case True
      then show ?thesis using reads_nothing [OF ok1(1) u1(1)] u1(3) by (simp add: SFS_BLOCKSIZE_def)
    next
      case r: False
      have "nat (uio_offset ?u) < 73216" using o1 pos(2) qr r by linarith
      then have o2: "nat (uio_offset ?u) mod 512 = 0" "nat (uio_offset ?u) div 512 < 143" using m o1 block_index by auto
      have "reads ?r sv ?u ?fs (sfs_partialio sv ?u (nat (uio_offset ?u) mod 512) ?r ?fs)"
        by (rule partialio_read [OF ok1 u1(1,2)]) (use u1(3) o2 in \<open>auto simp: less_imp_le\<close>)
      then show ?thesis using r u1(3) o2(1) by (simp add: SFS_BLOCKSIZE_def)
    qed
  qed (use qr in simp)
  then show ?thesis by simp
qed

lemma to_block_end:
  assumes "p mod 512 \<noteq> (0 :: nat)" and "n = min (512 - p mod 512) r"
  shows "n \<le> r" and "p mod 512 + n \<le> 512" and "r - n = 0 \<or> (p + n) mod 512 = 0"
proof -
  have m: "p mod 512 < 512" by simp
  show "n \<le> r" "p mod 512 + n \<le> 512" using assms(2) m by simp_all
  show "r - n = 0 \<or> (p + n) mod 512 = 0"
  proof (cases "512 - p mod 512 \<le> r")
    case True
    then have "p + n = 512 * (p div 512) + 512"
      using m mult_div_mod_eq [of 512 p] assms(2) unfolding min_absorb1 [OF True] by linarith
    then show ?thesis by simp
  qed (use assms(2) in \<open>simp add: min_def\<close>)
qed

lemma io_body_read:
  assumes ok: "fs_ok fs" "file_ok fs (sv_i sv)" and u: "kuio u" "uio_rw u = UIO_READ" and pos: "nat (uio_offset u) + uio_resid u \<le> 73216" "nat (uio_offset u) < 73216"
  shows "reads (uio_resid u) sv u fs (sfs_io_body sv u fs)"
proof (cases "nat (uio_offset u) mod 512 = 0")
  case True
  then have "sfs_io_body sv u fs = sfs_io_rest sv u fs" using kuio_off(2) [OF u(1)] by (simp add: sfs_io_body_def)
  then show ?thesis using io_rest_read [OF ok u _ pos(1)] True by simp
next
  case False
  let ?m = "nat (uio_offset u) mod 512"
  define n where n: "n = min (512 - ?m) (uio_resid u)"
  note e = to_block_end [OF False n]
  have one: "reads n sv u fs (sfs_partialio sv u ?m n fs)"
    by (rule partialio_read [OF ok u e(1) _ e(2)]) (use pos block_index in simp)
  have eq: "sfs_io_body sv u fs = sfs_partialio sv u ?m n fs \<bind>
      (\<lambda>(r, sv1, u1, fs1). case r of Inl e \<Rightarrow> Some (Inl e, sv1, u1, fs1) | Inr y \<Rightarrow> sfs_io_rest sv1 u1 fs1)"
    using False kuio_off(2) [OF u(1)] by (simp add: sfs_io_body_def SFS_BLOCKSIZE_def Let_def n)
  have "reads (n + (uio_resid u - n)) sv u fs (sfs_io_body sv u fs)"
    unfolding eq
  proof (rule reads_split [OF u(1) _ one])
    fix lh
    assume lh: "lhd_moved (sfs_device fs) lh" "hw_sect lh = disk fs"
    let ?bs = "map (fbyte (disk fs) (sv_i sv)) [nat (uio_offset u)..<nat (uio_offset u) + n]"
    let ?fs = "fs\<lparr>sfs_device := lh\<rparr>" and ?u = "put_bytes u ?bs"
    have o1: "nat (uio_offset ?u) = nat (uio_offset u) + n" "uio_resid ?u = uio_resid u - n" "uio_rw ?u = UIO_READ"
      using bytes_offset [OF u(1), of ?bs] u(2) by simp_all
    have "uio_resid ?u = 0 \<or> nat (uio_offset ?u) mod 512 = 0" "nat (uio_offset ?u) + uio_resid ?u \<le> 73216"
      unfolding o1 using e pos by simp_all
    then have "reads (uio_resid ?u) sv ?u ?fs (sfs_io_rest sv ?u ?fs)"
      using io_rest_read [OF fs_ok_moved [OF ok(1) lh(1)] file_ok_moved [OF ok(2) lh(2)] kuio_put [OF u(1)] o1(3)] e(1) by simp
    then show "reads (uio_resid u - n) sv ?u ?fs (sfs_io_rest sv ?u ?fs)" unfolding o1 .
  qed (use e(1) in simp)
  then show ?thesis using e(1) by simp
qed

text \<open>The contents of a file.\<close>

definition contents :: "(nat \<Rightarrow> byte list) \<Rightarrow> sfs_inode \<Rightarrow> byte list" where
  "contents d i = map (fbyte d i) [0..<sfi_size i]"

lemma take_drop_cut: "m = n - (p + n - length xs) \<Longrightarrow> take n (drop p xs) = take m (drop p xs)"
  by (cases "p + n \<le> length xs") auto

lemma contents_slice: "p + n \<le> sfi_size i \<Longrightarrow> take n (drop p (contents d i)) = map (fbyte d i) [p..<p + n]"
  by (simp add: contents_def drop_map take_map)

lemma moved_self: "fs_ok fs \<Longrightarrow> lhd_moved (sfs_device fs) (sfs_device fs) \<and> hw_sect (sfs_device fs) = disk fs"
  by (simp add: lhd_moved_def fs_ok_def healthy_def disk_def)

lemma io_out_read:
  assumes "uio_rw u = UIO_READ" and "uio_resid u + e < 2 ^ 32"
  shows "sfs_io_out e sv u = (sv, u\<lparr>uio_resid := uio_resid u + e\<rparr>)"
  using assms by (simp add: sfs_io_out_def)

lemma sfs_io_read:
  assumes ok: "fs_ok fs" "file_ok fs (sv_i sv)" and u: "kuio u" "uio_rw u = UIO_READ" and max: "sfi_size (sv_i sv) \<le> 73216"
  obtains lh where "sfs_io sv u fs = Some (Inr (), sv,
      put_bytes u (take (uio_resid u) (drop (nat (uio_offset u)) (contents (disk fs) (sv_i sv)))), fs\<lparr>sfs_device := lh\<rparr>)"
    and "lhd_moved (sfs_device fs) lh" and "hw_sect lh = disk fs"
proof -
  let ?o = "nat (uio_offset u)" and ?s = "sfi_size (sv_i sv)" and ?n = "uio_resid u"
  have uo: "0 \<le> uio_offset u" "uio_offset u + int ?n < 2 ^ 31" "?n < 2 ^ 32" using u(1) by (auto simp: kuio_def)
  have sz: "to_off (int ?s) = int ?s" "to_off (uio_offset u + int ?n) = uio_offset u + int ?n" using max uo by simp_all
  show ?thesis
  proof (cases "uio_offset u < int ?s")
    case False
    then have nil: "take ?n (drop ?o (contents (disk fs) (sv_i sv))) = []" using uo(1) by (simp add: contents_def)
    have pb: "put_bytes u (take ?n (drop ?o (contents (disk fs) (sv_i sv)))) = u" unfolding nil using u(1) by (intro put_bytes_Nil) (simp add: kuio_def)
    have "sfs_io sv u fs = Some (Inr (), sv, u, fs\<lparr>sfs_device := sfs_device fs\<rparr>)" using False sz u(2) by (simp add: sfs_io_def)
    then show ?thesis using that [of "sfs_device fs"] moved_self [OF ok(1)] unfolding pb by simp
  next
    case True
    define e where "e = ?o + ?n - ?s"
    define u0 where "u0 = u\<lparr>uio_resid := ?n - e\<rparr>"
    have le: "?o < ?s" "?o + (?n - e) \<le> ?s" "e \<le> ?n" using True uo(1) by (auto simp: e_def)
    have u0: "kuio u0" "uio_rw u0 = UIO_READ" "uio_offset u0 = uio_offset u" "uio_resid u0 = ?n - e" using u by (auto simp: u0_def kuio_def)
    have io: "sfs_io sv u fs = sfs_io_run e sv u0 fs"
    proof (cases "uio_offset u + int ?n > int ?s")
      case over: True
      then have "nat ((uio_offset u + int ?n - int ?s) mod 2 ^ 32) = e" "?n > e" using uo True by (simp_all add: e_def nat_diff_distrib)
      then show ?thesis using True over sz u(2) by (simp add: sfs_io_def Let_def u0_def)
    next
      case within: False
      then have e0: "e = 0" using uo(1) by (simp add: e_def)
      show ?thesis using True within sz u(2) unfolding e0 u0_def by (simp add: sfs_io_def Let_def)
    qed
    have "reads (uio_resid u0) sv u0 fs (sfs_io_body sv u0 fs)"
      by (rule io_body_read [OF ok u0(1,2)]) (use le max u0 in auto)
    then obtain lh where lh: "lhd_moved (sfs_device fs) lh" "hw_sect lh = disk fs"
        "sfs_io_body sv u0 fs = Some (Inr (), sv, put_bytes u0 (map (fbyte (disk fs) (sv_i sv)) [?o..<?o + (?n - e)]), fs\<lparr>sfs_device := lh\<rparr>)"
      unfolding reads_def u0(3,4) by blast
    let ?bs = "map (fbyte (disk fs) (sv_i sv)) [?o..<?o + (?n - e)]"
    have bs: "take ?n (drop ?o (contents (disk fs) (sv_i sv))) = ?bs"
    proof -
      have "take ?n (drop ?o (contents (disk fs) (sv_i sv))) = take (?n - e) (drop ?o (contents (disk fs) (sv_i sv)))"
        by (rule take_drop_cut) (simp add: contents_def e_def)
      then show ?thesis using contents_slice [OF le(2)] by simp
    qed
    have "sfs_io_out e sv (put_bytes u0 ?bs) = (sv, (put_bytes u0 ?bs)\<lparr>uio_resid := e\<rparr>)"
      using io_out_read [of "put_bytes u0 ?bs" e sv] u0(2,4) le(3) uo(3) by simp
    moreover have "(put_bytes u0 ?bs)\<lparr>uio_resid := e\<rparr> = put_bytes u ?bs"
      using le(3) by (simp add: put_bytes_def uio_took_def u0_def)
    ultimately have "sfs_io sv u fs = Some (Inr (), sv, put_bytes u ?bs, fs\<lparr>sfs_device := lh\<rparr>)"
      by (simp add: io sfs_io_run_def lh(3))
    then show ?thesis using that lh(1,2) bs by simp
  qed
qed

end
