(* ===== verification/SfsWrite.thy ===== *)
theory SfsWrite
  imports SfsRead
begin

text \<open>
  Writing a file: \<open>sfs_io\<close> from a kernel \<open>uio\<close>, and the properties of reading and writing.
\<close>

section \<open>Writing\<close>

text \<open>The first \<open>m\<close> bytes of the region of \<open>u\<close> are in the file at the position of \<open>u\<close>; nothing else has changed.\<close>

definition wrote :: "nat \<Rightarrow> sfs_fs \<Rightarrow> sfs_vnode \<Rightarrow> uio \<Rightarrow> sfs_fs \<Rightarrow> sfs_vnode \<Rightarrow> bool" where
  "wrote m fs sv u fs' sv' \<longleftrightarrow> evolves fs (sv_i sv) fs' (sv_i sv') \<and> sv_keeps sv sv' \<and> sfi_size (sv_i sv') = sfi_size (sv_i sv) \<and>
     (\<forall>p < 73216. fbyte (disk fs') (sv_i sv') p = (if nat (uio_offset u) \<le> p \<and> p < nat (uio_offset u) + m
        then iov_kbuf u ! (iov_koff u + (p - nat (uio_offset u))) else fbyte (disk fs) (sv_i sv) p))"

definition writes :: "nat \<Rightarrow> sfs_vnode \<Rightarrow> uio \<Rightarrow> sfs_fs \<Rightarrow> io_result option \<Rightarrow> bool" where
  "writes n sv u fs x \<longleftrightarrow> (\<exists>r m sv' fs'. x = Some (r, sv', uio_took m u, fs') \<and> m \<le> n \<and> wrote m fs sv u fs' sv' \<and>
     (r = Inr () \<and> m = n \<or> r = Inl ENOSPC \<and> fs_full fs' \<or> r = Inl EINVAL \<and> nat (uio_offset u) + n > 73216))"

lemma wrote_none:
  assumes "same_file fs sv fs' sv'"
  shows "wrote 0 fs sv u fs' sv'"
  using assms block_index by (auto simp: wrote_def same_file_def fbyte_def)

lemma wroteD: "wrote m fs sv u fs' sv' \<Longrightarrow> fs_ok fs' \<and> file_ok fs' (sv_i sv')"
  by (simp add: wrote_def evolves_def)

lemma took_offset: "kuio u \<Longrightarrow> nat (uio_offset (uio_took m u)) = nat (uio_offset u) + m"
  by (simp add: kuio_def nat_add_distrib)

lemma wrote_trans:
  assumes "kuio u" and "wrote m fs sv u fs1 sv1" and "wrote n fs1 sv1 (uio_took m u) fs2 sv2"
  shows "wrote (m + n) fs sv u fs2 sv2"
proof -
  let ?o = "nat (uio_offset u)"
  have "fbyte (disk fs2) (sv_i sv2) p = (if ?o \<le> p \<and> p < ?o + (m + n)
      then iov_kbuf u ! (iov_koff u + (p - ?o)) else fbyte (disk fs) (sv_i sv) p)" if p: "p < 73216" for p
  proof (cases "?o + m \<le> p \<and> p < ?o + m + n")
    case True
    then have "m + (p - (?o + m)) = p - ?o" by simp
    then show ?thesis using True assms(3) p took_offset [OF assms(1)] by (simp add: wrote_def add.assoc)
  next
    case False
    then have "fbyte (disk fs2) (sv_i sv2) p = fbyte (disk fs1) (sv_i sv1) p"
      using assms(3) p took_offset [OF assms(1)] by (auto simp: wrote_def)
    then show ?thesis using False assms(2) p by (auto simp: wrote_def)
  qed
  moreover have "evolves fs (sv_i sv) fs2 (sv_i sv2)"
    using assms(2,3) evolves_trans [of fs "sv_i sv" fs1 "sv_i sv1" fs2 "sv_i sv2"] by (simp add: wrote_def)
  moreover have "sv_keeps sv sv2" "sfi_size (sv_i sv2) = sfi_size (sv_i sv)"
    using assms(2,3) by (simp_all add: wrote_def sv_keeps_def)
  ultimately show ?thesis by (simp add: wrote_def)
qed

lemma writes_split:
  assumes u: "kuio u" and first: "writes m sv u fs x"
    and second: "\<And>sv1 fs1. fs_ok fs1 \<Longrightarrow> file_ok fs1 (sv_i sv1) \<Longrightarrow> writes n sv1 (uio_took m u) fs1 (f sv1 (uio_took m u) fs1)"
  shows "writes (m + n) sv u fs (x \<bind> (\<lambda>(r, sv1, u1, fs1). case r of Inl e \<Rightarrow> Some (Inl e, sv1, u1, fs1) | Inr y \<Rightarrow> f sv1 u1 fs1))"
proof -
  obtain r k sv1 fs1 where x: "x = Some (r, sv1, uio_took k u, fs1)" "k \<le> m" "wrote k fs sv u fs1 sv1"
      "r = Inr () \<and> k = m \<or> r = Inl ENOSPC \<and> fs_full fs1 \<or> r = Inl EINVAL \<and> nat (uio_offset u) + m > 73216"
    using first by (auto simp: writes_def)
  show ?thesis
  proof (cases r)
    case (Inl e)
    then show ?thesis using x unfolding writes_def by (intro exI [of _ r] exI [of _ k] exI [of _ sv1] exI [of _ fs1]) auto
  next
    case (Inr y)
    then have k: "k = m" using x(4) by simp
    obtain q j sv2 fs2 where y: "f sv1 (uio_took m u) fs1 = Some (q, sv2, uio_took j (uio_took m u), fs2)" "j \<le> n"
        "wrote j fs1 sv1 (uio_took m u) fs2 sv2"
        "q = Inr () \<and> j = n \<or> q = Inl ENOSPC \<and> fs_full fs2 \<or> q = Inl EINVAL \<and> nat (uio_offset (uio_took m u)) + n > 73216"
      using second [of fs1 sv1] wroteD [OF x(3)] by (auto simp: writes_def)
    have "wrote (m + j) fs sv u fs2 sv2" using wrote_trans [OF u] x(3) y(3) k by simp
    then show ?thesis using x(1) Inr y(1,2,4) k took_offset [OF u] unfolding writes_def
      by (intro exI [of _ q] exI [of _ "m + j"] exI [of _ sv2] exI [of _ fs2]) (auto simp: uio_took_add add.assoc)
  qed
qed

text \<open>Storing into a data block of the file.\<close>

lemma evolves_store:
  assumes ok: "fs_ok fs" "file_ok fs i" and k: "k < 143" "ents (disk fs) i ! k \<noteq> 0"
    and lh: "lhd_moved (sfs_device fs) lh" "hw_sect lh = (disk fs)(ents (disk fs) i ! k := x)"
  shows "evolves fs i (fs\<lparr>sfs_device := lh\<rparr>) i"
proof -
  have dist: "distinct (claimed (disk fs) i)" and len: "length (ents (disk fs) i) = 143" using ok file_ok_length [OF ok] by (auto simp: file_ok_def)
  have c: "claimed (hw_sect lh) i = claimed (disk fs) i" unfolding lh(2) by (rule store_data(2) [OF dist]) (use k len in simp_all)
  have "ents (disk fs) i ! k \<in> set (claimed (disk fs) i)" by (rule ents_nth_claimed) (use k len in simp_all)
  then show ?thesis
    using ok fs_ok_moved [OF ok(1) lh(1)] keeps_moved [OF lh(1)] c by (auto simp: evolves_def file_ok_def fs_used_def lh(2))
qed

lemma in_same_block:
  fixes p q :: nat
  assumes "q mod 512 + n \<le> 512"
  shows "q \<le> p \<and> p < q + n \<longleftrightarrow> p div 512 = q div 512 \<and> q mod 512 \<le> p mod 512 \<and> p mod 512 < q mod 512 + n"
    and "p div 512 = q div 512 \<Longrightarrow> p - q = p mod 512 - q mod 512"
proof -
  have pq: "512 * (p div 512) + p mod 512 = p" "512 * (q div 512) + q mod 512 = q" "p mod 512 < 512" "q mod 512 < 512" by simp_all
  show "p - q = p mod 512 - q mod 512" if "p div 512 = q div 512" using pq that by linarith
  show "q \<le> p \<and> p < q + n \<longleftrightarrow> p div 512 = q div 512 \<and> q mod 512 \<le> p mod 512 \<and> p mod 512 < q mod 512 + n"
  proof
    assume qp: "q \<le> p \<and> p < q + n"
    then have "p < 512 * (q div 512) + 512" using pq(2) assms by linarith
    then have "p div 512 \<le> q div 512" using pq(1) by linarith
    moreover have "q div 512 \<le> p div 512" using qp by (simp add: div_le_mono)
    ultimately have e: "p div 512 = q div 512" by simp
    then show "p div 512 = q div 512 \<and> q mod 512 \<le> p mod 512 \<and> p mod 512 < q mod 512 + n" using pq(1,2) qp by linarith
  next
    assume "p div 512 = q div 512 \<and> q mod 512 \<le> p mod 512 \<and> p mod 512 < q mod 512 + n"
    then show "q \<le> p \<and> p < q + n" using pq(1,2) by linarith
  qed
qed

lemma nth_take_drop: "j < n \<Longrightarrow> k + n \<le> length xs \<Longrightarrow> take n (drop k xs) ! j = xs ! (k + j)"
  by simp

lemma splice_nth:
  assumes "s + length D \<le> length B" and "b < length B"
  shows "(take s B @ D @ drop (s + length D) B) ! b = (if s \<le> b \<and> b < s + length D then D ! (b - s) else B ! b)"
  using assms by (auto simp: nth_append)

text \<open>One stretch written into one block.\<close>

lemma wrote_in_block:
  assumes u: "kuio u" and sf: "same_file fs sv fs1 sv1" and k: "k = nat (uio_offset u) div 512" "k < 143"
    and nz: "ents (disk fs1) (sv_i sv1) ! k \<noteq> 0" and n: "nat (uio_offset u) mod 512 + n \<le> 512" "n \<le> uio_resid u"
    and lh: "lhd_moved (sfs_device fs1) lh"
    "hw_sect lh = (disk fs1)(ents (disk fs1) (sv_i sv1) ! k := take (nat (uio_offset u) mod 512) (fblock (disk fs) (sv_i sv) k) @
       take n (drop (iov_koff u) (iov_kbuf u)) @ drop (nat (uio_offset u) mod 512 + n) (fblock (disk fs) (sv_i sv) k))"
  shows "wrote n fs sv u (fs1\<lparr>sfs_device := lh\<rparr>) sv1"
proof -
  let ?o = "nat (uio_offset u)" and ?B = "fblock (disk fs) (sv_i sv) k" and ?D = "take n (drop (iov_koff u) (iov_kbuf u))"
  have ok1: "fs_ok fs1" "file_ok fs1 (sv_i sv1)" using same_fileD [OF sf] by auto
  have dist: "distinct (claimed (disk fs1) (sv_i sv1))" and len: "length (ents (disk fs1) (sv_i sv1)) = 143"
    using ok1 file_ok_length [OF ok1] by (auto simp: file_ok_def)
  have lens: "length ?D = n" "length (fblock (disk fs1) (sv_i sv1) k) = 512"
    using u n(2) length_fblock [OF fs_ok_sectors [OF ok1(1)]] by (auto simp: kuio_def)
  have same: "fblock (disk fs1) (sv_i sv1) j = fblock (disk fs) (sv_i sv) j" if "j < 143" for j
    using sf that by (simp add: same_file_def)
  then have lenB: "length ?B = 512" using lens(2) k(2) by simp
  have fb: "fblock (hw_sect lh) (sv_i sv1) j = (if j = k then take (?o mod 512) ?B @ ?D @ drop (?o mod 512 + n) ?B else fblock (disk fs) (sv_i sv) j)"
    if "j < 143" for j
    unfolding lh(2) using store_data(3) [OF dist, of k j] nz k(2) len that same [OF that] by simp
  have "fbyte (hw_sect lh) (sv_i sv1) p = (if ?o \<le> p \<and> p < ?o + n then iov_kbuf u ! (iov_koff u + (p - ?o)) else fbyte (disk fs) (sv_i sv) p)"
    if p: "p < 73216" for p
  proof (cases "p div 512 = k")
    case False
    then show ?thesis using fb [OF block_index [OF p]] in_same_block(1) [OF n(1), of p] k(1) by (auto simp: fbyte_def)
  next
    case True
    then have d: "p - ?o = p mod 512 - ?o mod 512" using in_same_block(2) [OF n(1), of p] k(1) by simp
    have kb: "iov_koff u + n \<le> length (iov_kbuf u)" using u n(2) by (simp add: kuio_def)
    have iff: "?o \<le> p \<and> p < ?o + n \<longleftrightarrow> ?o mod 512 \<le> p mod 512 \<and> p mod 512 < ?o mod 512 + n"
      using in_same_block(1) [OF n(1), of p] True k(1) by blast
    have "fbyte (hw_sect lh) (sv_i sv1) p = (take (?o mod 512) ?B @ ?D @ drop (?o mod 512 + length ?D) ?B) ! (p mod 512)"
      using fb [OF block_index [OF p]] True lens(1) by (simp add: fbyte_def)
    also have "\<dots> = (if ?o mod 512 \<le> p mod 512 \<and> p mod 512 < ?o mod 512 + n then ?D ! (p mod 512 - ?o mod 512) else ?B ! (p mod 512))"
      using splice_nth [of "?o mod 512" ?D ?B "p mod 512"] lens(1) lenB n(1) by simp
    finally have f: "fbyte (hw_sect lh) (sv_i sv1) p = (if ?o \<le> p \<and> p < ?o + n then ?D ! (p - ?o) else ?B ! (p mod 512))"
      unfolding iff d .
    show ?thesis
    proof (cases "?o \<le> p \<and> p < ?o + n")
      case within: True
      then have "?D ! (p - ?o) = iov_kbuf u ! (iov_koff u + (p - ?o))" using kb by (intro nth_take_drop) auto
      then show ?thesis using f within by simp
    next
      case False
      then show ?thesis unfolding f if_not_P [OF False] using \<open>p div 512 = k\<close> by (simp add: fbyte_def)
    qed
  qed
  moreover have "evolves fs (sv_i sv) (fs1\<lparr>sfs_device := lh\<rparr>) (sv_i sv1)"
    using evolves_trans [OF _ evolves_store [OF ok1 k(2) nz lh]] sf by (simp add: same_file_def)
  ultimately show ?thesis using sf by (simp add: wrote_def same_file_def)
qed

text \<open>A transfer inside one block is done whole or not at all.\<close>

definition writes_all :: "nat \<Rightarrow> sfs_vnode \<Rightarrow> uio \<Rightarrow> sfs_fs \<Rightarrow> io_result option \<Rightarrow> bool" where
  "writes_all n sv u fs x \<longleftrightarrow> (\<exists>sv' fs'. x = Some (Inr (), sv', uio_took n u, fs') \<and> wrote n fs sv u fs' sv' \<and> nat (uio_offset u) + n \<le> 73216 \<or>
     (\<exists>e. x = Some (Inl e, sv', u, fs') \<and> same_file fs sv fs' sv' \<and> (e = ENOSPC \<and> fs_full fs' \<or> e = EINVAL \<and> nat (uio_offset u) + n > 73216)))"

lemma writes_error: "same_file fs sv fs' sv' \<Longrightarrow> e = ENOSPC \<and> fs_full fs' \<or> e = EINVAL \<and> nat (uio_offset u) + n > 73216 \<Longrightarrow>
  writes n sv u fs (Some (Inl e, sv', u, fs'))"
  unfolding writes_def by (intro exI [of _ "Inl e"] exI [of _ 0] exI [of _ sv'] exI [of _ fs']) (auto intro: wrote_none)

lemma writes_done: "wrote n fs sv u fs' sv' \<Longrightarrow> writes n sv u fs (Some (Inr (), sv', uio_took n u, fs'))"
  unfolding writes_def by blast

lemma all_writes: "writes_all n sv u fs x \<Longrightarrow> writes n sv u fs x"
  unfolding writes_all_def using writes_error writes_done by blast

lemma all_error: "same_file fs sv fs' sv' \<Longrightarrow> e = ENOSPC \<and> fs_full fs' \<or> e = EINVAL \<and> nat (uio_offset u) + n > 73216 \<Longrightarrow>
  writes_all n sv u fs (Some (Inl e, sv', u, fs'))"
  unfolding writes_all_def by blast

lemma all_done: "wrote n fs sv u fs' sv' \<Longrightarrow> nat (uio_offset u) + n \<le> 73216 \<Longrightarrow> writes_all n sv u fs (Some (Inr (), sv', uio_took n u, fs'))"
  unfolding writes_all_def by blast

lemma bmap_write_far:
  assumes "fs_ok fs" "file_ok fs (sv_i sv)" and "\<not> nat (uio_offset u) div 512 < 143" and "0 < n \<or> nat (uio_offset u) mod 512 \<noteq> 0"
  shows "sfs_bmap sv (nat (uio_offset u) div 512) True fs = Some (Inl EINVAL, sv, fs)" and "writes_all n sv u fs (Some (Inl EINVAL, sv, u, fs))"
proof -
  show "sfs_bmap sv (nat (uio_offset u) div 512) True fs = Some (Inl EINVAL, sv, fs)" using assms(3) bmap_too_far by simp
  have "73216 \<le> nat (uio_offset u)" using assms(3) block_index by (meson not_le)
  moreover have "nat (uio_offset u) \<noteq> 73216 \<or> 0 < n" using assms(4) by auto
  ultimately show "writes_all n sv u fs (Some (Inl EINVAL, sv, u, fs))"
    by (intro all_error [OF same_file_refl [OF assms(1,2)]]) auto
qed

lemma partialio_write_all:
  assumes ok: "fs_ok fs" "file_ok fs (sv_i sv)" and u: "kuio u" "uio_rw u = UIO_WRITE" and n: "n \<le> uio_resid u"
    and pos: "nat (uio_offset u) mod 512 + n \<le> 512" "0 < n \<or> nat (uio_offset u) mod 512 \<noteq> 0"
  shows "writes_all n sv u fs (sfs_partialio sv u (nat (uio_offset u) mod 512) n fs)"
proof -
  let ?o = "nat (uio_offset u)"
  let ?k = "?o div 512"
  have n32: "n < 2 ^ 32" using n u(1) by (simp add: kuio_def)
  show ?thesis
  proof (cases "?k < 143")
    case False
    then show ?thesis using bmap_write_far [OF ok False pos(2)] u(2) pos(1) kuio_off(1) [OF u(1)]
      by (simp add: sfs_partialio_def SFS_BLOCKSIZE_def)
  next
    case k: True
    show ?thesis
    proof (cases rule: bmap_write [OF ok k, case_names nospace block])
      case (nospace sv1 fs1)
      then show ?thesis using all_error [OF nospace(2), of ENOSPC u n] nospace(3) u(2) pos(1) kuio_off(1) [OF u(1)]
        by (simp add: sfs_partialio_def SFS_BLOCKSIZE_def)
    next
      case (block sv1 fs1)
      let ?b = "ents (disk fs1) (sv_i sv1) ! ?k" and ?B = "fblock (disk fs) (sv_i sv) ?k"
      have ok1: "fs_ok fs1" "file_ok fs1 (sv_i sv1)" using same_fileD [OF block(3)] by auto
      have len: "length (ents (disk fs1) (sv_i sv1)) = 143" using file_ok_length [OF ok1] .
      have b: "?b < d_blocks (sfs_device fs1)"
        using file_ok_block [OF ok1(2) ents_nth_claimed] block(2) k len fs_ok_dblocks [OF ok1(1)] by simp
      have "fblock (disk fs1) (sv_i sv1) ?k = ?B" using block(3) k by (simp add: same_file_def)
      then have B: "disk fs1 ?b = ?B" using block(2) by (simp add: fblock_def [of "disk fs1"])
      have h1: "healthy fs1" using ok1(1) by (simp add: fs_ok_def)
      obtain lh where lh: "sfs_rblock zero_block ?b fs1 = Some (Inr (), ?B, fs1\<lparr>sfs_device := lh\<rparr>)" "lhd_moved (sfs_device fs1) lh" "hw_sect lh = disk fs1"
        using rblock_ok [OF h1 b length_zero_block] unfolding B by blast
      have lenB: "length ?B = 512" using length_fblock [OF fs_ok_sectors [OF ok(1)]] .
      define data where "data = take (?o mod 512) ?B @ take n (drop (iov_koff u) (iov_kbuf u)) @ drop (?o mod 512 + n) ?B"
      have mv: "uiomove ?B (?o mod 512) n u = Some (Inr (), data, uio_took n u)"
        using uiomove_write [OF u n, of "?o mod 512" ?B] lenB pos(1) by (simp add: data_def)
      have "iov_koff u + n \<le> length (iov_kbuf u)" using u(1) n by (simp add: kuio_def)
      then have len_data: "length data = 512" using pos(1) lenB by (simp add: data_def)
      obtain lh2 where lh2: "sfs_wblock data ?b (fs1\<lparr>sfs_device := lh\<rparr>) = Some (Inr (), fs1\<lparr>sfs_device := lh2\<rparr>)" "lhd_moved lh lh2"
          "hw_sect lh2 = (disk fs1)(?b := data)"
        using wblock_ok [OF healthy_moved [OF h1 lh(2)], of ?b data] b len_data lhd_moved_blocks [OF lh(2)] lh(3) by auto
      have "wrote n fs sv u (fs1\<lparr>sfs_device := lh2\<rparr>) sv1"
        by (rule wrote_in_block [OF u(1) block(3) refl k block(2) pos(1) n lhd_moved_trans [OF lh(2) lh2(2)]]) (simp add: lh2(3) data_def)
      moreover have "sfs_partialio sv u (?o mod 512) n fs = Some (Inr (), sv1, uio_took n u, fs1\<lparr>sfs_device := lh2\<rparr>)"
        using block(1,2) lh(1) lh2(1) mv u(2) pos(1) kuio_off(1) [OF u(1)]
        by (simp add: sfs_partialio_def SFS_BLOCKSIZE_def)
      moreover have "?o + n \<le> 73216" using k pos(1) mult_div_mod_eq [of 512 ?o] by linarith
      ultimately show ?thesis using all_done by simp
    qed
  qed
qed

lemmas partialio_write = partialio_write_all [THEN all_writes]

lemma blockio_write:
  assumes ok: "fs_ok fs" "file_ok fs (sv_i sv)" and u: "kuio u" "uio_rw u = UIO_WRITE" and n: "512 \<le> uio_resid u"
    and pos: "nat (uio_offset u) mod 512 = 0"
  shows "writes 512 sv u fs (sfs_blockio sv u fs)"
proof -
  let ?o = "nat (uio_offset u)"
  let ?k = "?o div 512"
  show ?thesis
  proof (cases "?k < 143")
    case False
    then show ?thesis using bmap_write_far(1) [OF ok False, of 512] all_writes [OF bmap_write_far(2) [OF ok False, of 512]] u(2) kuio_off(1) [OF u(1)]
      by (simp add: sfs_blockio_def)
  next
    case k: True
    show ?thesis
    proof (cases rule: bmap_write [OF ok k, case_names nospace block])
      case (nospace sv1 fs1)
      then show ?thesis using writes_error [OF nospace(2), of ENOSPC u 512] nospace(3) u(2) kuio_off(1) [OF u(1)]
        by (simp add: sfs_blockio_def)
    next
      case (block sv1 fs1)
      let ?b = "ents (disk fs1) (sv_i sv1) ! ?k" and ?B = "fblock (disk fs) (sv_i sv) ?k"
      have ok1: "fs_ok fs1" "file_ok fs1 (sv_i sv1)" using same_fileD [OF block(3)] by auto
      have len: "length (ents (disk fs1) (sv_i sv1)) = 143" using file_ok_length [OF ok1] .
      have b: "?b < d_blocks (sfs_device fs1)"
        using file_ok_block [OF ok1(2) ents_nth_claimed] block(2) k len fs_ok_dblocks [OF ok1(1)] by simp
      have h1: "healthy fs1" using ok1(1) by (simp add: fs_ok_def)
      have b22: "?b + 1 < 2 ^ 22" using healthy_dblocks [OF h1 b] .
      then have bi: "int ?b + 1 < 2 ^ 22" by simp
      define u0 where "u0 = u\<lparr>uio_offset := int ?b * 512, uio_resid := 512\<rparr>"
      have u0: "kuio u0" "uio_rw u0 = UIO_WRITE" "uio_resid u0 = 512" "uio_offset u0 = int ?b * 512"
        using u n bi by (simp_all add: kuio_def u0_def)
      obtain lh where lh: "sfs_rwblock u0 fs1 = Some (Inr (), uio_took 512 u0, fs1\<lparr>sfs_device := lh\<rparr>)" "lhd_moved (sfs_device fs1) lh"
          "hw_sect lh = (disk fs1)(?b := take 512 (drop (iov_koff u0) (iov_kbuf u0)))"
        by (rule rwblock_write [OF h1 u0 b])
      have lenB: "length ?B = 512" using length_fblock [OF fs_ok_sectors [OF ok(1)]] .
      have "wrote 512 fs sv u (fs1\<lparr>sfs_device := lh\<rparr>) sv1"
        by (rule wrote_in_block [OF u(1) block(3) refl k block(2) _ n lh(2)]) (use pos lh(3) lenB in \<open>simp_all add: u0_def\<close>)
      moreover have "sfs_blockio sv u fs = Some (Inr (), sv1, (uio_took 512 u0)\<lparr>uio_offset := uio_offset u + 512, uio_resid := uio_resid u - 512\<rparr>,
          fs1\<lparr>sfs_device := lh\<rparr>)"
        by (rule blockio_mapped [OF u(1) n _ block(2) b22]) (use block(1) lh(1) u0 u(2) in \<open>simp_all add: u0_def\<close>)
      moreover have "(uio_took 512 u0)\<lparr>uio_offset := uio_offset u + 512, uio_resid := uio_resid u - 512\<rparr> = uio_took 512 u"
        by (simp add: u0_def uio_took_def)
      ultimately show ?thesis using writes_done by simp
    qed
  qed
qed

lemma io_blocks_write:
  assumes "fs_ok fs" "file_ok fs (sv_i sv)" and "kuio u" "uio_rw u = UIO_WRITE" and "512 * n \<le> uio_resid u"
    and "nat (uio_offset u) mod 512 = 0"
  shows "writes (512 * n) sv u fs (sfs_io_blocks n sv u fs)"
  using assms
proof (induction n arbitrary: u fs sv)
  case 0
  then show ?case using writes_done [OF wrote_none [OF same_file_refl]] by (simp add: uio_took_def)
next
  case (Suc n)
  have one: "writes 512 sv u fs (sfs_blockio sv u fs)"
    by (rule blockio_write) (use Suc.prems in auto)
  have "writes (512 + 512 * n) sv u fs (sfs_io_blocks (Suc n) sv u fs)"
    unfolding sfs_io_blocks.simps
  proof (rule writes_split [OF Suc.prems(3) one])
    fix sv1 :: sfs_vnode and fs1 :: sfs_fs
    assume ok1: "fs_ok fs1" "file_ok fs1 (sv_i sv1)"
    show "writes (512 * n) sv1 (uio_took 512 u) fs1 (sfs_io_blocks n sv1 (uio_took 512 u) fs1)"
      by (rule Suc.IH [OF ok1 kuio_took [OF Suc.prems(3)]]) (use Suc.prems took_offset [OF Suc.prems(3), of 512] in auto)
  qed
  then show ?case by simp
qed

lemma io_rest_write:
  assumes ok: "fs_ok fs" "file_ok fs (sv_i sv)" and u: "kuio u" "uio_rw u = UIO_WRITE"
    and pos: "uio_resid u = 0 \<or> nat (uio_offset u) mod 512 = 0"
  shows "writes (uio_resid u) sv u fs (sfs_io_rest sv u fs)"
proof (cases "uio_resid u = 0")
  case True
  then show ?thesis using writes_done [OF wrote_none [OF same_file_refl [OF ok]]] by (simp add: sfs_io_rest_def)
next
  case False
  let ?q = "uio_resid u div 512" and ?r = "uio_resid u mod 512"
  let ?f = "\<lambda>sv1 u1 fs1. kassert (uio_resid u1 < SFS_BLOCKSIZE) \<bind> (\<lambda>_. if uio_resid u1 > 0 then sfs_partialio sv1 u1 0 (uio_resid u1) fs1
            else Some (Inr (), sv1, u1, fs1))"
  have qr: "512 * ?q + ?r = uio_resid u" by simp
  have m: "nat (uio_offset u) mod 512 = 0" using pos(1) False by simp
  have one: "writes (512 * ?q) sv u fs (sfs_io_blocks ?q sv u fs)"
    by (rule io_blocks_write [OF ok u]) (use m in auto)
  have eq: "sfs_io_rest sv u fs = sfs_io_blocks ?q sv u fs \<bind>
      (\<lambda>(r, sv1, u1, fs1). case r of Inl e \<Rightarrow> Some (Inl e, sv1, u1, fs1) | Inr y \<Rightarrow> ?f sv1 u1 fs1)"
    using False m kuio_off(2) [OF u(1)] by (simp add: sfs_io_rest_def SFS_BLOCKSIZE_def)
  have "writes (512 * ?q + ?r) sv u fs (sfs_io_rest sv u fs)"
    unfolding eq
  proof (rule writes_split [OF u(1) one])
    fix sv1 :: sfs_vnode and fs1 :: sfs_fs
    assume ok1: "fs_ok fs1" "file_ok fs1 (sv_i sv1)"
    let ?u = "uio_took (512 * ?q) u"
    have u1: "kuio ?u" "uio_rw ?u = UIO_WRITE" "uio_resid ?u = ?r" using kuio_took [OF u(1), of "512 * ?q"] u(2) by (simp_all add: minus_mult_div_eq_mod)
    have o1: "nat (uio_offset ?u) mod 512 = 0" using took_offset [OF u(1), of "512 * ?q"] m by simp
    show "writes ?r sv1 ?u fs1 (?f sv1 ?u fs1)"
    proof (cases "?r = 0")
      case True
      then show ?thesis using writes_done [OF wrote_none [OF same_file_refl [OF ok1]]] u1(3) by (simp add: SFS_BLOCKSIZE_def)
    next
      case r: False
      have "writes ?r sv1 ?u fs1 (sfs_partialio sv1 ?u (nat (uio_offset ?u) mod 512) ?r fs1)"
        by (rule partialio_write [OF ok1 u1(1,2)]) (use u1(3) o1 r in \<open>auto simp: less_imp_le\<close>)
      then show ?thesis using r u1(3) o1 by (simp add: SFS_BLOCKSIZE_def)
    qed
  qed
  then show ?thesis by simp
qed

lemma io_body_write:
  assumes ok: "fs_ok fs" "file_ok fs (sv_i sv)" and u: "kuio u" "uio_rw u = UIO_WRITE"
  shows "writes (uio_resid u) sv u fs (sfs_io_body sv u fs)"
proof (cases "nat (uio_offset u) mod 512 = 0")
  case True
  then have "sfs_io_body sv u fs = sfs_io_rest sv u fs" using kuio_off(2) [OF u(1)] by (simp add: sfs_io_body_def)
  then show ?thesis using io_rest_write [OF ok u] True by simp
next
  case False
  let ?m = "nat (uio_offset u) mod 512"
  define n where n: "n = min (512 - ?m) (uio_resid u)"
  note e = to_block_end [OF False n]
  have one: "writes n sv u fs (sfs_partialio sv u ?m n fs)"
    by (rule partialio_write [OF ok u e(1,2)]) (use False in simp)
  have eq: "sfs_io_body sv u fs = sfs_partialio sv u ?m n fs \<bind>
      (\<lambda>(r, sv1, u1, fs1). case r of Inl e \<Rightarrow> Some (Inl e, sv1, u1, fs1) | Inr y \<Rightarrow> sfs_io_rest sv1 u1 fs1)"
    using False kuio_off(2) [OF u(1)] by (simp add: sfs_io_body_def SFS_BLOCKSIZE_def Let_def n)
  have "writes (n + (uio_resid u - n)) sv u fs (sfs_io_body sv u fs)"
    unfolding eq
  proof (rule writes_split [OF u(1) one])
    fix sv1 :: sfs_vnode and fs1 :: sfs_fs
    assume ok1: "fs_ok fs1" "file_ok fs1 (sv_i sv1)"
    let ?u = "uio_took n u"
    have o1: "nat (uio_offset ?u) = nat (uio_offset u) + n" "uio_resid ?u = uio_resid u - n" "uio_rw ?u = UIO_WRITE"
      using took_offset [OF u(1), of n] u(2) by simp_all
    have "uio_resid ?u = 0 \<or> nat (uio_offset ?u) mod 512 = 0" unfolding o1 using e(3) .
    then have "writes (uio_resid ?u) sv1 ?u fs1 (sfs_io_rest sv1 ?u fs1)"
      using io_rest_write [OF ok1 kuio_took [OF u(1) e(1)] o1(3)] by simp
    then show "writes (uio_resid u - n) sv1 ?u fs1 (sfs_io_rest sv1 ?u fs1)" unfolding o1 .
  qed
  then show ?thesis using e(1) by simp
qed

lemma kuio_region_length: "kuio u \<Longrightarrow> n \<le> uio_resid u \<Longrightarrow> length (take n (drop (iov_koff u) (iov_kbuf u))) = n"
proof -
  assume "kuio u" "n \<le> uio_resid u"
  then have "iov_koff u + n \<le> length (iov_kbuf u)" by (simp add: kuio_def)
  then show ?thesis by simp
qed

lemma size_field_free [simp]:
  "ents d (i\<lparr>sfi_size := n\<rparr>) = ents d i" "claimed d (i\<lparr>sfi_size := n\<rparr>) = claimed d i" "fbyte d (i\<lparr>sfi_size := n\<rparr>) = fbyte d i"
  by (simp_all add: ents_def ids_def claimed_def fbyte_def fblock_def fun_eq_iff)

lemma evolves_size:
  "evolves fs i fs' i' \<Longrightarrow> n < 2 ^ 32 \<Longrightarrow> evolves fs i fs' (i'\<lparr>sfi_size := n\<rparr>)"
  by (simp add: evolves_def file_ok_def inode_ok_def)

text \<open>The outcome of \<open>sfs_io\<close> for a write.\<close>

definition write_outcome :: "sfs_fs \<Rightarrow> sfs_vnode \<Rightarrow> uio \<Rightarrow> unit kres \<Rightarrow> nat \<Rightarrow> sfs_fs \<Rightarrow> sfs_vnode \<Rightarrow> bool" where
  "write_outcome fs sv u r m fs' sv' \<longleftrightarrow> m \<le> uio_resid u \<and>
     (r = Inr () \<and> m = uio_resid u \<or> r = Inl ENOSPC \<and> fs_full fs' \<or> r = Inl EINVAL \<and> nat (uio_offset u) + uio_resid u > 73216) \<and>
     evolves fs (sv_i sv) fs' (sv_i sv') \<and> sv_keeps sv sv' \<and>
     sfi_size (sv_i sv') = max (sfi_size (sv_i sv)) (nat (uio_offset u) + m) \<and>
     (\<forall>p < 73216. fbyte (disk fs') (sv_i sv') p = (if nat (uio_offset u) \<le> p \<and> p < nat (uio_offset u) + m
        then iov_kbuf u ! (iov_koff u + (p - nat (uio_offset u))) else fbyte (disk fs) (sv_i sv) p))"

lemma sfs_io_write:
  assumes ok: "fs_ok fs" "file_ok fs (sv_i sv)" and u: "kuio u" "uio_rw u = UIO_WRITE" and sz: "sfi_size (sv_i sv) < 2 ^ 31"
  obtains r m sv' fs' where "sfs_io sv u fs = Some (r, sv', uio_took m u, fs')" and "write_outcome fs sv u r m fs' sv'"
proof -
  obtain r m sv1 fs1 where w: "sfs_io_body sv u fs = Some (r, sv1, uio_took m u, fs1)" "m \<le> uio_resid u" "wrote m fs sv u fs1 sv1"
      "r = Inr () \<and> m = uio_resid u \<or> r = Inl ENOSPC \<and> fs_full fs1 \<or> r = Inl EINVAL \<and> nat (uio_offset u) + uio_resid u > 73216"
    using io_body_write [OF ok u] by (auto simp: writes_def)
  have uo: "0 \<le> uio_offset u" "uio_offset u + int (uio_resid u) < 2 ^ 31" using u(1) by (auto simp: kuio_def)
  let ?e = "uio_offset u + int m"
  have e: "nat ?e = nat (uio_offset u) + m" "?e < 2 ^ 31" using uo w(2) by (simp_all add: nat_add_distrib)
  define sv' where "sv' = (if ?e > int (sfi_size (sv_i sv))
    then sv1\<lparr>sv_i := (sv_i sv1)\<lparr>sfi_size := nat ?e\<rparr>, sv_dirty := True\<rparr> else sv1)"
  have s1: "sfi_size (sv_i sv1) = sfi_size (sv_i sv)" using w(3) by (simp add: wrote_def)
  have u32: "uio_resid u - m < 2 ^ 32" using u(1) by (auto simp: kuio_def)
  have out: "to_off (int (sfi_size (sv_i sv))) = int (sfi_size (sv_i sv))" "?e mod 2 ^ 32 = ?e" "(uio_resid u - m) mod 2 ^ 32 = uio_resid u - m"
    using sz uo(1) e(2) u32 by simp_all
  have "sfs_io_out 0 sv1 (uio_took m u) = (sv', uio_took m u)"
    unfolding sfs_io_out_def using u(2) by (simp add: s1 sv'_def out [simplified])
  then have io: "sfs_io sv u fs = Some (r, sv', uio_took m u, fs1)" using u(2) w(1) by (simp add: sfs_io_def sfs_io_run_def)
  have "evolves fs (sv_i sv) fs1 (sv_i sv')"
    using w(3) evolves_size [of fs "sv_i sv" fs1 "sv_i sv1" "nat ?e"] e(2) by (simp add: wrote_def sv'_def)
  moreover have "sv_keeps sv sv'" "fbyte (disk fs1) (sv_i sv') = fbyte (disk fs1) (sv_i sv1)"
    using w(3) by (simp_all add: wrote_def sv'_def sv_keeps_def)
  moreover have "sfi_size (sv_i sv') = max (sfi_size (sv_i sv)) (nat (uio_offset u) + m)"
    using e(1) uo(1) by (auto simp: sv'_def s1 max_def)
  ultimately have "write_outcome fs sv u r m fs1 sv'" using w by (simp add: write_outcome_def wrote_def)
  then show ?thesis using that io by blast
qed

section \<open>Properties\<close>

text \<open>
  C2. Reading a file. On a well-formed file system \<open>sfs_read\<close> into a kernel buffer always
  returns, changes neither the disk nor the vnode, and delivers the bytes of the file from the
  offset on, as many as were asked for or as there are before the end of the file; holes read
  as zeros.
\<close>

theorem sfs_read_correct:
  assumes "fs_ok fs" and "file_ok fs (sv_i sv)" and "kuio u" and "uio_rw u = UIO_READ" and "sfi_size (sv_i sv) \<le> 73216"
  shows "\<exists>fs'. sfs_read sv u fs = Some (Inr (), sv,
      put_bytes u (take (uio_resid u) (drop (nat (uio_offset u)) (contents (disk fs) (sv_i sv)))), fs') \<and> disk fs' = disk fs"
proof -
  obtain lh where "sfs_io sv u fs = Some (Inr (), sv,
      put_bytes u (take (uio_resid u) (drop (nat (uio_offset u)) (contents (disk fs) (sv_i sv)))), fs\<lparr>sfs_device := lh\<rparr>)" "hw_sect lh = disk fs"
    by (rule sfs_io_read [OF assms])
  then show ?thesis using assms(4) by (simp add: sfs_read_def)
qed

text \<open>
  C1. Writing a file. On a well-formed file system \<open>sfs_write\<close> from a kernel buffer always
  returns; the first \<open>m\<close> bytes of the buffer are in the file at the offset, every other byte of
  the file is as before, the file system is still well formed and no block in use outside the
  file has changed. The whole buffer has been written unless the disk is full or the range
  ends past the largest file.
\<close>

theorem sfs_write_correct:
  assumes "fs_ok fs" and "file_ok fs (sv_i sv)" and "kuio u" and "uio_rw u = UIO_WRITE" and "sfi_size (sv_i sv) < 2 ^ 31"
  shows "\<exists>r m sv' fs'. sfs_write sv u fs = Some (r, sv', uio_took m u, fs') \<and> write_outcome fs sv u r m fs' sv'"
proof -
  obtain r m sv' fs' where "sfs_io sv u fs = Some (r, sv', uio_took m u, fs')" "write_outcome fs sv u r m fs' sv'"
    by (rule sfs_io_write [OF assms])
  then show ?thesis using assms(4) by (auto simp: sfs_write_def)
qed

lemma written_contents:
  assumes u: "kuio u" and w: "write_outcome fs sv u r m fs' sv'" and small: "nat (uio_offset u) + m \<le> 73216"
  shows "take m (drop (nat (uio_offset u)) (contents (disk fs') (sv_i sv'))) = take m (drop (iov_koff u) (iov_kbuf u))"
proof -
  let ?o = "nat (uio_offset u)"
  have m: "m \<le> uio_resid u" "?o + m \<le> sfi_size (sv_i sv')" using w by (simp_all add: write_outcome_def)
  have "map (fbyte (disk fs') (sv_i sv')) [?o..<?o + m] = take m (drop (iov_koff u) (iov_kbuf u))"
  proof (rule nth_equalityI)
    show "length (map (fbyte (disk fs') (sv_i sv')) [?o..<?o + m]) = length (take m (drop (iov_koff u) (iov_kbuf u)))"
      using kuio_region_length [OF u m(1)] by simp
  next
    fix i
    assume "i < length (map (fbyte (disk fs') (sv_i sv')) [?o..<?o + m])"
    then have i: "i < m" by simp
    have "iov_koff u + m \<le> length (iov_kbuf u)" using u m(1) by (simp add: kuio_def)
    then have "take m (drop (iov_koff u) (iov_kbuf u)) ! i = iov_kbuf u ! (iov_koff u + i)" by (rule nth_take_drop [OF i])
    moreover have "fbyte (disk fs') (sv_i sv') (?o + i) = iov_kbuf u ! (iov_koff u + i)" using w i small by (simp add: write_outcome_def)
    ultimately show "map (fbyte (disk fs') (sv_i sv')) [?o..<?o + m] ! i = take m (drop (iov_koff u) (iov_kbuf u)) ! i"
      using i by simp
  qed
  then show ?thesis using contents_slice [OF m(2)] by simp
qed

text \<open>
  C3. What was written is read back. The write puts \<open>m\<close> bytes into the file, all of them
  unless the disk is full, and a read of these \<open>m\<close> bytes into a fresh kernel buffer delivers the
  bytes of the source buffer.
\<close>

theorem sfs_write_read:
  assumes "fs_ok fs" and "file_ok fs (sv_i sv)" and "kuio u" and "uio_rw u = UIO_WRITE" and "sfi_size (sv_i sv) \<le> 73216"
    and "nat (uio_offset u) + uio_resid u \<le> 73216"
  shows "\<exists>r m sv' fs' fs''. sfs_write sv u fs = Some (r, sv', uio_took m u, fs') \<and>
    (r = Inr () \<and> m = uio_resid u \<or> r = Inl ENOSPC \<and> fs_full fs' \<and> m \<le> uio_resid u) \<and>
    sfs_read sv' (mk_kuio (replicate m 0) m (uio_offset u) UIO_READ) fs' = Some (Inr (), sv',
      put_bytes (mk_kuio (replicate m 0) m (uio_offset u) UIO_READ) (take m (drop (iov_koff u) (iov_kbuf u))), fs'')"
proof -
  have "sfi_size (sv_i sv) < 2 ^ 31" using assms(5) by simp
  then obtain r m sv' fs' where io: "sfs_io sv u fs = Some (r, sv', uio_took m u, fs')" and w: "write_outcome fs sv u r m fs' sv'"
    by (rule sfs_io_write [OF assms(1-4)])
  have m: "m \<le> uio_resid u" using w by (simp add: write_outcome_def)
  let ?v = "mk_kuio (replicate m 0) m (uio_offset u) UIO_READ"
  have v: "kuio ?v" "uio_rw ?v = UIO_READ" using assms(3) m by (auto simp: kuio_def mk_kuio_def)
  have ok': "fs_ok fs'" "file_ok fs' (sv_i sv')" "sfi_size (sv_i sv') \<le> 73216"
    using w assms(5,6) m by (auto simp: write_outcome_def evolves_def)
  obtain lh where "sfs_io sv' ?v fs' = Some (Inr (), sv',
      put_bytes ?v (take (uio_resid ?v) (drop (nat (uio_offset ?v)) (contents (disk fs') (sv_i sv')))), fs'\<lparr>sfs_device := lh\<rparr>)"
    by (rule sfs_io_read [OF ok'(1,2) v ok'(3)])
  then have "sfs_read sv' ?v fs' = Some (Inr (), sv', put_bytes ?v (take m (drop (iov_koff u) (iov_kbuf u))), fs'\<lparr>sfs_device := lh\<rparr>)"
    using written_contents [OF assms(3) w] assms(6) m by (simp add: sfs_read_def v(2)) (simp add: mk_kuio_def)
  moreover have "r = Inr () \<and> m = uio_resid u \<or> r = Inl ENOSPC \<and> fs_full fs' \<and> m \<le> uio_resid u"
    using w assms(6) by (auto simp: write_outcome_def)
  ultimately show ?thesis using io assms(4) by (auto simp: sfs_write_def)
qed

text \<open>
  Files do not interfere. A write to one file leaves every byte of another file whose
  blocks are in use and not shared with the first as it was, and the two still share no block.
\<close>

theorem sfs_write_isolated:
  assumes "fs_ok fs" and "file_ok fs (sv_i sv)" and "kuio u" and "uio_rw u = UIO_WRITE" and "sfi_size (sv_i sv) < 2 ^ 31"
    and "file_ok fs j" and "set (claimed (disk fs) j) \<inter> set (claimed (disk fs) (sv_i sv)) = {}"
  shows "\<exists>r sv' u' fs'. sfs_write sv u fs = Some (r, sv', u', fs') \<and> file_ok fs' j \<and>
    set (claimed (disk fs') j) \<inter> set (claimed (disk fs') (sv_i sv')) = {} \<and> (\<forall>p < 73216. fbyte (disk fs') j p = fbyte (disk fs) j p)"
proof -
  obtain r m sv' fs' where w: "sfs_io sv u fs = Some (r, sv', uio_took m u, fs')" "write_outcome fs sv u r m fs' sv'"
    by (rule sfs_io_write [OF assms(1-5)])
  then have ev: "evolves fs (sv_i sv) fs' (sv_i sv')" by (simp add: write_outcome_def)
  note other = evolves_other_file [OF ev assms(6,7)]
  have "fbyte (disk fs') j p = fbyte (disk fs) j p" if "p < 73216" for p
    using other(4) file_ok_length [OF assms(1,6)] block_index [OF that] by (simp add: fbyte_def)
  then show ?thesis using w(1) other(1,2) assms(4) by (auto simp: sfs_write_def)
qed

section \<open>A small file system\<close>

text \<open>A volume of 100 blocks with the first three in use, and an empty file on it.\<close>

definition small_fs :: sfs_fs where
  "small_fs = (some_disk (\<lambda>_. 4))\<lparr>sfs_freemap := \<lparr>nbits = 4096, bm_v = 7 # replicate 11 0 @ [0xf0] @ replicate 499 255\<rparr>\<rparr>"

definition small_sv :: sfs_vnode where
  "small_sv = \<lparr>vn_refcount = 1, vn_opencount = 1, sv_i = \<lparr>sfi_size = 0, sfi_type = 1, sfi_linkcount = 1, sfi_direct = replicate 15 0,
     sfi_indirect = 0, sfi_waste = replicate 440 0\<rparr>, sv_ino = 2, sv_dirty = False\<rparr>"

lemma small_bits:
  assumes "100 \<le> i" and "i < 4096"
  shows "bitmap_bit (x # replicate 11 0 @ [0xf0] @ replicate 499 255) i"
proof (cases "i < 104")
  case True
  then have "i \<in> {100, 101, 102, 103}" using assms(1) by auto
  then show ?thesis by (auto simp: bitmap_bit_def nth_append bit_simps)
next
  case False
  then have q: "13 \<le> i div 8" "i div 8 < 512" using assms(2) by auto
  have nth: "(x # replicate 11 0 @ [0xf0] @ replicate 499 (255 :: byte)) ! (i div 8) = 255"
    using q by (simp add: nth_append nth_Cons')
  have "bit (255 :: byte) k" if "k < 8" for k
  proof -
    from that have "k \<in> {0, 1, 2, 3, 4, 5, 6, 7}" by auto
    then show ?thesis by (auto simp: bit_simps)
  qed
  then show ?thesis unfolding bitmap_bit_def nth by simp
qed

lemma small_fs_ok: "fs_ok small_fs"
proof -
  have lh: "lhd_ok (sfs_device (some_disk (\<lambda>_. 4)))" by (rule some_disk_ok) simp
  have "healthy small_fs"
    using lh by (simp add: healthy_def small_fs_def some_disk_def fault_free_def lhd_codes)
  moreover have "bitmap_ok (sfs_freemap small_fs)" by (simp add: small_fs_def bitmap_ok_def)
  moreover have "{100..<4096} \<subseteq> fs_used small_fs" using small_bits by (auto simp: small_fs_def fs_used_def bitmap_used_def)
  moreover have "0 \<in> fs_used small_fs" by (simp add: small_fs_def fs_used_def bitmap_used_def bitmap_bit_def bit_simps)
  ultimately show ?thesis by (simp add: fs_ok_def) (simp add: small_fs_def some_disk_def)
qed

lemma small_claimed: "claimed d (sv_i small_sv) = []"
  by (simp add: claimed_def ents_def ids_def small_sv_def)

lemma small_file_ok: "file_ok small_fs (sv_i small_sv)"
  by (simp add: file_ok_def small_claimed) (simp add: inode_ok_def small_sv_def)

lemma small_kuio: "kuio (mk_kuio [1, 2, 3] 3 5 rw)"
  by (simp add: kuio_def mk_kuio_def)

text \<open>A file of seven bytes in block 2; the read asks for one byte more than there is.\<close>

definition short_sv :: sfs_vnode where
  "short_sv = small_sv\<lparr>sv_i := (sv_i small_sv)\<lparr>sfi_size := 7, sfi_direct := 2 # replicate 14 0\<rparr>\<rparr>"

lemma short_claimed: "claimed d (sv_i short_sv) = [2]"
  by (simp add: claimed_def ents_def ids_def short_sv_def small_sv_def)

lemma short_file_ok: "file_ok small_fs (sv_i short_sv)"
proof -
  have "2 \<in> fs_used small_fs" "sp_nblocks (sfs_super small_fs) = 100"
    by (simp_all add: small_fs_def some_disk_def fs_used_def bitmap_used_def bitmap_bit_def bit_simps)
  then show ?thesis by (simp add: file_ok_def short_claimed) (simp add: inode_ok_def short_sv_def small_sv_def)
qed

theorem sfs_read_correct_witness:
  "\<exists>u fs'. sfs_read short_sv (mk_kuio [1, 9, 3] 3 5 UIO_READ) small_fs = Some (Inr (), short_sv, u, fs') \<and>
     iov_kbuf u = [2, 2, 3] \<and> uio_resid u = 1 \<and> uio_offset u = 7 \<and> disk fs' = disk small_fs"
proof -
  have "contents (disk small_fs) (sv_i short_sv) = [2, 2, 2, 2, 2, 2, 2]"
    by (simp add: contents_def fbyte_def fblock_def ents_def short_sv_def disk_def small_fs_def some_disk_def upt_rec)
  moreover have size: "sfi_size (sv_i short_sv) = 7" by (simp add: short_sv_def)
  ultimately show ?thesis using sfs_read_correct [OF small_fs_ok short_file_ok, of "mk_kuio [1, 9, 3] 3 5 UIO_READ"]
    by (auto simp: kuio_def mk_kuio_def put_bytes_def uio_took_def size)
qed

theorem sfs_write_correct_witness:
  "\<exists>r m sv' fs'. sfs_write small_sv (mk_kuio [1, 2, 3] 3 5 UIO_WRITE) small_fs =
      Some (r, sv', uio_took m (mk_kuio [1, 2, 3] 3 5 UIO_WRITE), fs') \<and>
    write_outcome small_fs small_sv (mk_kuio [1, 2, 3] 3 5 UIO_WRITE) r m fs' sv'"
  by (rule sfs_write_correct [OF small_fs_ok small_file_ok small_kuio]) (simp_all add: mk_kuio_def small_sv_def)

theorem sfs_write_read_witness:
  "\<exists>r m sv' fs' fs''. sfs_write small_sv (mk_kuio [1, 2, 3] 3 5 UIO_WRITE) small_fs =
      Some (r, sv', uio_took m (mk_kuio [1, 2, 3] 3 5 UIO_WRITE), fs') \<and>
    (r = Inr () \<and> m = uio_resid (mk_kuio [1, 2, 3] 3 5 UIO_WRITE) \<or>
     r = Inl ENOSPC \<and> fs_full fs' \<and> m \<le> uio_resid (mk_kuio [1, 2, 3] 3 5 UIO_WRITE)) \<and>
    sfs_read sv' (mk_kuio (replicate m 0) m (uio_offset (mk_kuio [1, 2, 3] 3 5 UIO_WRITE)) UIO_READ) fs' = Some (Inr (), sv',
      put_bytes (mk_kuio (replicate m 0) m (uio_offset (mk_kuio [1, 2, 3] 3 5 UIO_WRITE)) UIO_READ)
        (take m (drop (iov_koff (mk_kuio [1, 2, 3] 3 5 UIO_WRITE)) (iov_kbuf (mk_kuio [1, 2, 3] 3 5 UIO_WRITE)))), fs'')"
  by (rule sfs_write_read [OF small_fs_ok small_file_ok small_kuio]) (simp_all add: mk_kuio_def small_sv_def)

theorem sfs_write_isolated_witness:
  "\<exists>r sv' u' fs'. sfs_write small_sv (mk_kuio [1, 2, 3] 3 5 UIO_WRITE) small_fs = Some (r, sv', u', fs') \<and> file_ok fs' (sv_i small_sv) \<and>
    set (claimed (disk fs') (sv_i small_sv)) \<inter> set (claimed (disk fs') (sv_i sv')) = {} \<and>
    (\<forall>p < 73216. fbyte (disk fs') (sv_i small_sv) p = fbyte (disk small_fs) (sv_i small_sv) p)"
  by (rule sfs_write_isolated [OF small_fs_ok small_file_ok small_kuio _ _ small_file_ok])
    (simp_all add: mk_kuio_def small_claimed, simp add: small_sv_def)

end
