(* ===== verification/SfsTruncate.thy ===== *)
theory SfsTruncate
  imports SfsWrite
begin

text \<open>
  Truncating a file: the loops of \<open>sfs_truncate\<close> as the freeing of a list of blocks, what is
  left of the file afterwards, and the block the code forgets to free.
\<close>

section \<open>Freeing the blocks past a position\<close>

text \<open>Both loops of \<open>sfs_truncate\<close> free a list of blocks and clear their entries.\<close>

primrec bfrees :: "nat list \<Rightarrow> sfs_fs \<Rightarrow> sfs_fs option" where
  "bfrees [] fs = Some fs"
| "bfrees (b # bs) fs = sfs_bfree b fs \<bind> bfrees bs"

definition wipe :: "(nat \<Rightarrow> bool) \<Rightarrow> nat \<Rightarrow> nat list \<Rightarrow> nat list" where
  "wipe P i xs = map (\<lambda>k. if i \<le> k \<and> P k then 0 else xs ! k) [0..<length xs]"

definition wiped :: "(nat \<Rightarrow> bool) \<Rightarrow> nat \<Rightarrow> nat list \<Rightarrow> nat list" where
  "wiped P i xs = filter (\<lambda>b. b \<noteq> 0) (map (\<lambda>k. if P k then xs ! k else 0) [i..<length xs])"

lemma length_wipe [simp]: "length (wipe P i xs) = length xs"
  by (simp add: wipe_def)

lemma nth_wipe: "k < length xs \<Longrightarrow> wipe P i xs ! k = (if i \<le> k \<and> P k then 0 else xs ! k)"
  by (simp add: wipe_def)

lemma wiped_step:
  assumes "i < length xs"
  shows "wiped P i xs = (if P i \<and> xs ! i \<noteq> 0 then xs ! i # wiped P (Suc i) xs else wiped P (Suc i) xs)"
    and "wiped P (Suc i) (xs[i := v]) = wiped P (Suc i) xs"
  using assms by (auto simp: wiped_def upt_conv_Cons intro!: arg_cong [where f = "filter _"])

lemma wipe_step:
  assumes "i < length xs"
  shows "P i \<Longrightarrow> wipe P (Suc i) (xs[i := 0]) = wipe P i xs" and "\<not> (P i \<and> xs ! i \<noteq> 0) \<Longrightarrow> wipe P (Suc i) xs = wipe P i xs"
  using assms by (auto simp: list_eq_iff_nth_eq nth_wipe nth_list_update le_Suc_eq Suc_le_eq dest: le_neq_implies_less)

lemma wipe_end: "wipe P (length xs) xs = xs" "wiped P (length xs) xs = []"
  by (auto simp: list_eq_iff_nth_eq nth_wipe wiped_def)

lemma truncate_direct_frees:
  assumes "i + n = length (sfi_direct (sv_i sv))"
  shows "truncate_direct blocklen i n sv fs = map_option (\<lambda>fs'. (sv\<lparr>sv_i := (sv_i sv)\<lparr>sfi_direct := wipe (\<lambda>k. blocklen \<le> k) i (sfi_direct (sv_i sv))\<rparr>,
           sv_dirty := sv_dirty sv \<or> wiped (\<lambda>k. blocklen \<le> k) i (sfi_direct (sv_i sv)) \<noteq> []\<rparr>, fs'))
         (bfrees (wiped (\<lambda>k. blocklen \<le> k) i (sfi_direct (sv_i sv))) fs)"
  using assms
proof (induction n arbitrary: i sv fs)
  case 0
  then show ?case using wipe_end [of _ "sfi_direct (sv_i sv)"] by simp
next
  case (Suc n)
  let ?dir = "sfi_direct (sv_i sv)" and ?P = "\<lambda>k. blocklen \<le> k"
  have i: "i < length ?dir" and n: "Suc i + n = length ?dir" using Suc.prems by auto
  note wd = wiped_step [OF i, of ?P]
  show ?case
  proof (cases "blocklen \<le> i \<and> ?dir ! i \<noteq> 0")
    case True
    then show ?thesis using i n Suc.IH [of "Suc i" "sv\<lparr>sv_i := (sv_i sv)\<lparr>sfi_direct := ?dir[i := 0]\<rparr>, sv_dirty := True\<rparr>"] wd(1)
      wipe_step(1) [OF i, of ?P] wd(2) [of 0]
      by (simp add: peek_def split: Option.bind_split)
  next
    case False
    then show ?thesis using i n Suc.IH [of "Suc i" sv] wd(1) wipe_step(2) [OF i, of ?P] by (auto simp: peek_def)
  qed
qed

lemma truncate_entries_frees:
  assumes "j + n = length xs"
  shows "truncate_entries blocklen j n xs dirty nz fs = map_option (\<lambda>fs'. (wipe (\<lambda>k. blocklen < SFS_NDIRECT + k) j xs,
           dirty \<or> wiped (\<lambda>k. blocklen < SFS_NDIRECT + k) j xs \<noteq> [],
           nz \<or> (\<exists>k. j \<le> k \<and> k < length xs \<and> wipe (\<lambda>k. blocklen < SFS_NDIRECT + k) j xs ! k \<noteq> 0), fs'))
         (bfrees (wiped (\<lambda>k. blocklen < SFS_NDIRECT + k) j xs) fs)"
  using assms
proof (induction n arbitrary: j xs dirty nz fs)
  case 0
  then show ?case using wipe_end [of _ xs] by auto
next
  case (Suc n)
  let ?P = "\<lambda>k. blocklen < SFS_NDIRECT + k"
  have j: "j < length xs" and n: "Suc j + n = length xs" using Suc.prems by auto
  note wd = wiped_step [OF j, of ?P]
  have split: "(\<exists>k. j \<le> k \<and> k < length xs \<and> Q k) \<longleftrightarrow> Q j \<or> (\<exists>k. Suc j \<le> k \<and> k < length xs \<and> Q k)" for Q
    using j by (metis Suc_leD Suc_leI le_neq_implies_less order_refl)
  show ?case
  proof (cases "?P j \<and> xs ! j \<noteq> 0")
    case True
    then show ?thesis using j n Suc.IH [of "Suc j" "xs[j := 0]" True] wd(1) wipe_step(1) [OF j, of ?P] wd(2) [of 0] split
      by (simp add: peek_def nth_wipe split: Option.bind_split)
  next
    case False
    then have "wipe ?P j xs ! j = xs ! j" using j by (auto simp: nth_wipe)
    then show ?thesis using False j n Suc.IH [of "Suc j" xs] wd(1) wipe_step(2) [OF j, of ?P] split by (auto simp: peek_def)
  qed
qed

lemma bfrees_ok:
  assumes "fs_ok fs" and "distinct bs" and "set bs \<subseteq> fs_used fs \<inter> {..<sp_nblocks (sfs_super fs)}" and "0 \<notin> set bs"
  obtains bm fd where "bfrees bs fs = Some (fs\<lparr>sfs_freemap := bm, sfs_freemapdirty := fd\<rparr>)"
    and "fs_ok (fs\<lparr>sfs_freemap := bm, sfs_freemapdirty := fd\<rparr>)" and "bitmap_used bm = fs_used fs - set bs" and "nbits bm = nbits (sfs_freemap fs)"
  using assms
proof (induction bs arbitrary: fs thesis)
  case Nil
  show ?case by (rule Nil.prems(1) [of "sfs_freemapdirty fs" "sfs_freemap fs"]) (use Nil in \<open>simp_all add: fs_used_def\<close>)
next
  case (Cons b bs)
  obtain bm where bm: "sfs_bfree b fs = Some (fs\<lparr>sfs_freemap := bm, sfs_freemapdirty := True\<rparr>)"
      "fs_ok (fs\<lparr>sfs_freemap := bm, sfs_freemapdirty := True\<rparr>)" "bitmap_used bm = fs_used fs - {b}" "nbits bm = nbits (sfs_freemap fs)"
    by (rule bfree_ok [of fs b]) (use Cons.prems in auto)
  let ?fs = "fs\<lparr>sfs_freemap := bm, sfs_freemapdirty := True\<rparr>"
  obtain bm' fd where step: "bfrees bs ?fs = Some (?fs\<lparr>sfs_freemap := bm', sfs_freemapdirty := fd\<rparr>)"
      "fs_ok (?fs\<lparr>sfs_freemap := bm', sfs_freemapdirty := fd\<rparr>)" "bitmap_used bm' = fs_used ?fs - set bs" "nbits bm' = nbits (sfs_freemap ?fs)"
    by (rule Cons.IH [of ?fs]) (use Cons.prems bm in \<open>auto simp: fs_used_def\<close>)
  show ?case by (rule Cons.prems(1) [of fd bm']) (use step bm in \<open>auto simp: fs_used_def\<close>)
qed

text \<open>A file some of whose entries are cleared.\<close>

definition pruned :: "nat list \<Rightarrow> nat list \<Rightarrow> bool" where
  "pruned ys xs \<longleftrightarrow> list_all2 (\<lambda>y x. y = 0 \<or> y = x) ys xs"

lemma pruned_refl: "pruned xs xs"
  by (simp add: pruned_def list_all2_refl)

lemma pruned_wipe: "pruned (wipe P i xs) xs"
  by (simp add: pruned_def list_all2_conv_all_nth nth_wipe)

lemma pruned_subset: "pruned ys xs \<Longrightarrow> set (filter (\<lambda>b. b \<noteq> 0) ys) \<subseteq> set (filter (\<lambda>b. b \<noteq> 0) xs)"
  unfolding pruned_def by (induction rule: list_all2_induct) auto

lemma pruned_distinct:
  "pruned ys xs \<Longrightarrow> distinct (filter (\<lambda>b. b \<noteq> 0) xs) \<Longrightarrow> distinct (filter (\<lambda>b. b \<noteq> 0) ys)"
  unfolding pruned_def
proof (induction rule: list_all2_induct)
  case (Cons y ys x xs)
  then show ?case using pruned_subset [of ys xs] by (auto simp: pruned_def split: if_splits)
qed simp

lemma set_wiped: "set (wiped P i xs) = {xs ! k | k. i \<le> k \<and> k < length xs \<and> P k \<and> xs ! k \<noteq> 0}"
  by (auto simp: wiped_def)

lemma distinct_wiped:
  assumes "distinct (filter (\<lambda>b. b \<noteq> 0) xs)"
  shows "distinct (wiped P 0 xs)" and "set (wiped P 0 xs) = set (filter (\<lambda>b. b \<noteq> 0) xs) - set (filter (\<lambda>b. b \<noteq> 0) (wipe P 0 xs))"
proof -
  have "pruned (map (\<lambda>k. if P k then xs ! k else 0) [0..<length xs]) xs"
    by (simp add: pruned_def list_all2_conv_all_nth)
  then show "distinct (wiped P 0 xs)" unfolding wiped_def using pruned_distinct assms by blast
  show "set (wiped P 0 xs) = set (filter (\<lambda>b. b \<noteq> 0) xs) - set (filter (\<lambda>b. b \<noteq> 0) (wipe P 0 xs))" (is "_ = ?R")
  proof
    show "set (wiped P 0 xs) \<subseteq> ?R"
      using distinct_filter_nth [OF assms] by (fastforce simp: set_wiped in_set_conv_nth nth_wipe split: if_splits)
    show "?R \<subseteq> set (wiped P 0 xs)"
    proof
      fix b assume b: "b \<in> ?R"
      then obtain k where k: "k < length xs" "xs ! k = b" "b \<noteq> 0" by (auto simp: in_set_conv_nth)
      then have "wipe P 0 xs ! k \<in> set (wipe P 0 xs)" by simp
      then have "P k" using b k nth_wipe [OF k(1), of P 0] by (auto split: if_splits)
      then show "b \<in> set (wiped P 0 xs)" using k by (auto simp: set_wiped)
    qed
  qed
qed

definition shrinks :: "sfs_fs \<Rightarrow> sfs_inode \<Rightarrow> sfs_fs \<Rightarrow> sfs_inode \<Rightarrow> bool" where
  "shrinks fs i fs' i' \<longleftrightarrow> fs_ok fs' \<and> file_ok fs' i' \<and> keeps fs fs' \<and>
     set (claimed (disk fs') i') \<subseteq> set (claimed (disk fs) i) \<and>
     fs_used fs' = fs_used fs - (set (claimed (disk fs) i) - set (claimed (disk fs') i')) \<and>
     (\<forall>b. b = 0 \<or> b \<noteq> sfi_indirect i \<longrightarrow> disk fs' b = disk fs b) \<and>
     sfi_size i' = sfi_size i \<and> sfi_type i' = sfi_type i \<and> sfi_linkcount i' = sfi_linkcount i"

text \<open>The entry \<open>k\<close> of a file is cleared by truncation to \<open>blocklen\<close> blocks.\<close>

definition past :: "nat \<Rightarrow> nat \<Rightarrow> bool" where
  "past blocklen k \<longleftrightarrow> (if k < 15 then blocklen \<le> k else blocklen < k)"

lemma shrinks_freed:
  assumes "file_ok fs i" and "inode_ok i'" and pr: "pruned (sfi_indirect i' # ents (disk fs') i') (sfi_indirect i # ents (disk fs) i)"
    and "fs_ok fs'" and keeps: "keeps fs fs'" and used: "fs_used fs' = fs_used fs - (set (claimed (disk fs) i) - set (claimed (disk fs') i'))"
    and "\<forall>b. b = 0 \<or> b \<noteq> sfi_indirect i \<longrightarrow> disk fs' b = disk fs b"
    and "sfi_size i' = sfi_size i" and "sfi_type i' = sfi_type i" and "sfi_linkcount i' = sfi_linkcount i"
  shows "shrinks fs i fs' i'"
proof -
  have sub: "set (claimed (disk fs') i') \<subseteq> set (claimed (disk fs) i)" unfolding claimed_def by (rule pruned_subset [OF pr])
  have "distinct (claimed (disk fs') i')"
    unfolding claimed_def by (rule pruned_distinct [OF pr]) (use assms(1) in \<open>simp add: file_ok_def claimed_def\<close>)
  moreover have "set (claimed (disk fs') i') \<subseteq> fs_used fs'" using sub used assms(1) unfolding file_ok_def by blast
  moreover have "set (claimed (disk fs') i') \<subseteq> {..<sp_nblocks (sfs_super fs')}"
    using sub keeps assms(1) unfolding file_ok_def keeps_def by auto
  ultimately have "file_ok fs' i'" using assms(2) by (simp add: file_ok_def)
  then show ?thesis using assms sub unfolding shrinks_def by simp
qed

lemma ids_direct [simp]: "ids d (i\<lparr>sfi_direct := xs\<rparr>) = ids d i"
  by (simp add: ids_def)

lemma disk_freemap [simp]: "disk (fs\<lparr>sfs_freemap := bm, sfs_freemapdirty := fd\<rparr>) = disk fs"
  by (simp add: disk_def)

lemma set_claimed:
  "set (claimed d i) = ({sfi_indirect i} - {0}) \<union> (set (filter (\<lambda>b. b \<noteq> 0) (sfi_direct i)) \<union> set (filter (\<lambda>b. b \<noteq> 0) (ids d i)))"
  by (auto simp: claimed_def ents_def)

lemma claimed_disjoint:
  assumes "file_ok fs i"
  shows "set (filter (\<lambda>b. b \<noteq> 0) (sfi_direct i)) \<inter> set (filter (\<lambda>b. b \<noteq> 0) (ids (disk fs) i)) = {}"
    and "sfi_indirect i \<notin> set (filter (\<lambda>b. b \<noteq> 0) (sfi_direct i))" and "sfi_indirect i \<notin> set (filter (\<lambda>b. b \<noteq> 0) (ids (disk fs) i))"
    and "distinct (filter (\<lambda>b. b \<noteq> 0) (sfi_direct i))" and "distinct (filter (\<lambda>b. b \<noteq> 0) (ids (disk fs) i))"
  using assms by (auto simp: file_ok_def claimed_def ents_def split: if_splits)

lemma inode_ok_wipe: "inode_ok i \<Longrightarrow> inode_ok (i\<lparr>sfi_direct := wipe P k (sfi_direct i)\<rparr>)"
  by (auto simp: inode_ok_def wipe_def)

lemma truncate_direct_shrinks:
  assumes ok: "fs_ok fs" "file_ok fs (sv_i sv)"
  obtains sv' fs' where "truncate_direct blocklen 0 15 sv fs = Some (sv', fs')" and "shrinks fs (sv_i sv) fs' (sv_i sv')" and "sv_keeps sv sv'"
    and "disk fs' = disk fs" and "sfi_indirect (sv_i sv') = sfi_indirect (sv_i sv)"
    and "sfi_direct (sv_i sv') = wipe (\<lambda>k. blocklen \<le> k) 0 (sfi_direct (sv_i sv))"
proof -
  let ?i = "sv_i sv" and ?P = "\<lambda>k. blocklen \<le> k"
  let ?dir = "sfi_direct ?i"
  have iok: "inode_ok ?i" and len: "length ?dir = 15" using ok(2) by (auto simp: file_ok_def inode_ok_def)
  note dj = claimed_disjoint [OF ok(2)]
  note w = distinct_wiped [OF dj(4), of ?P]
  have "set (wiped ?P 0 ?dir) \<subseteq> set (claimed (disk fs) ?i)" using w(2) unfolding set_claimed by blast
  then have s1: "set (wiped ?P 0 ?dir) \<subseteq> fs_used fs \<inter> {..<sp_nblocks (sfs_super fs)}" using ok(2) by (auto simp: file_ok_def)
  have s2: "0 \<notin> set (wiped ?P 0 ?dir)" by (simp add: wiped_def)
  obtain bm fd where fr: "bfrees (wiped ?P 0 ?dir) fs = Some (fs\<lparr>sfs_freemap := bm, sfs_freemapdirty := fd\<rparr>)"
      "fs_ok (fs\<lparr>sfs_freemap := bm, sfs_freemapdirty := fd\<rparr>)" "bitmap_used bm = fs_used fs - set (wiped ?P 0 ?dir)" "nbits bm = nbits (sfs_freemap fs)"
    by (rule bfrees_ok [OF ok(1) w(1) s1 s2])
  let ?fs = "fs\<lparr>sfs_freemap := bm, sfs_freemapdirty := fd\<rparr>" and ?i' = "?i\<lparr>sfi_direct := wipe ?P 0 ?dir\<rparr>"
  have pr: "pruned (sfi_indirect ?i' # ents (disk ?fs) ?i') (sfi_indirect ?i # ents (disk fs) ?i)"
    using pruned_wipe [of ?P 0 ?dir] by (simp add: pruned_def ents_def list_all2_appendI list_all2_refl)
  have "set (claimed (disk fs) ?i) - set (claimed (disk fs) ?i') = set (wiped ?P 0 ?dir)"
    using dj(1,2) unfolding w(2) set_claimed by auto
  then have used: "fs_used ?fs = fs_used fs - (set (claimed (disk fs) ?i) - set (claimed (disk ?fs) ?i'))" using fr(3) by (simp add: fs_used_def)
  have kp: "keeps fs ?fs" using fr(4) by (simp add: keeps_def)
  have "shrinks fs ?i ?fs ?i'"
    by (rule shrinks_freed [OF ok(2) inode_ok_wipe [OF iok] pr fr(2) kp used]) simp_all
  then show ?thesis using that truncate_direct_frees [of 0 15 sv blocklen fs] fr len by (simp add: sv_keeps_def)
qed

lemma shrinks_ids:
  assumes ok: "fs_ok fs" "file_ok fs i" and i': "i' = i \<or> i' = i\<lparr>sfi_indirect := 0\<rparr>" and ids: "ids (disk fs') i' = wipe P 0 (ids (disk fs) i)"
    and ok': "fs_ok fs'" and keeps: "keeps fs fs'"
    and used: "fs_used fs' = fs_used fs - set (wiped P 0 (ids (disk fs) i)) - ({sfi_indirect i} - {sfi_indirect i'})"
    and disk: "\<forall>b. b = 0 \<or> b \<noteq> sfi_indirect i \<longrightarrow> disk fs' b = disk fs b"
  shows "shrinks fs i fs' i'"
proof -
  have iok: "inode_ok i'" using ok(2) i' by (auto simp: file_ok_def inode_ok_def)
  note dj = claimed_disjoint [OF ok(2)]
  note w = distinct_wiped [OF dj(5), of P]
  have dir: "sfi_direct i' = sfi_direct i" and ind: "sfi_indirect i' = sfi_indirect i \<or> sfi_indirect i' = 0" using i' by auto
  have sub: "set (filter (\<lambda>b. b \<noteq> 0) (wipe P 0 (ids (disk fs) i))) \<subseteq> set (filter (\<lambda>b. b \<noteq> 0) (ids (disk fs) i))"
    by (rule pruned_subset [OF pruned_wipe])
  have pr: "pruned (sfi_indirect i' # ents (disk fs') i') (sfi_indirect i # ents (disk fs) i)"
    using pruned_wipe [of P 0 "ids (disk fs) i"] ind by (auto simp: pruned_def ents_def ids dir intro: list_all2_appendI list_all2_refl)
  have "set (claimed (disk fs) i) - set (claimed (disk fs') i') = set (wiped P 0 (ids (disk fs) i)) \<union> ({sfi_indirect i} - {sfi_indirect i'})"
  proof (cases "sfi_indirect i' = sfi_indirect i")
    case True
    then show ?thesis using dj(1,3) sub unfolding w(2) set_claimed ids dir by auto
  next
    case False
    then have "sfi_indirect i' = 0" "sfi_indirect i \<noteq> 0" using ind by auto
    then show ?thesis using dj(1-3) sub unfolding w(2) set_claimed ids dir by auto
  qed
  then have u: "fs_used fs' = fs_used fs - (set (claimed (disk fs) i) - set (claimed (disk fs') i'))" using used by auto
  show ?thesis by (rule shrinks_freed [OF ok(2) iok pr ok' keeps u disk]) (use i' in auto)
qed

lemma wipe_none:
  assumes "wiped P 0 xs = []"
  shows "wipe P 0 xs = xs"
proof (rule nth_equalityI)
  fix k assume k: "k < length (wipe P 0 xs)"
  have "P k \<Longrightarrow> xs ! k \<noteq> 0 \<Longrightarrow> xs ! k \<in> set (wiped P 0 xs)" using k by (auto simp: set_wiped)
  then show "wipe P 0 xs ! k = xs ! k" using k assms by (auto simp: nth_wipe)
qed simp

lemma truncate_indirect_skip:
  assumes ok: "fs_ok fs" "file_ok fs (sv_i sv)" and skip: "\<not> (blocklen < 142 \<and> sfi_indirect (sv_i sv) \<noteq> 0)"
  shows "wiped (\<lambda>k. blocklen < 15 + k) 0 (ids (disk fs) (sv_i sv)) = []"
proof -
  have len: "length (ids (disk fs) (sv_i sv)) = 128" using length_ids fs_ok_sectors ok(1) by blast
  show ?thesis using skip len by (auto simp: wiped_def filter_empty_conv) (simp add: ids_def)
qed

lemma truncate_indirect_freed:
  assumes ok: "fs_ok fs" "file_ok fs (sv_i sv)" and go: "blocklen < 142" "sfi_indirect (sv_i sv) \<noteq> 0"
  defines "xs \<equiv> ids (disk fs) (sv_i sv)" and "P \<equiv> \<lambda>k. blocklen < 15 + k"
  obtains data fs1 fs2 where "sfs_rblock zero_block (sfi_indirect (sv_i sv)) fs = Some (Inr (), data, fs1)" and "dec32 data = xs"
    and "truncate_entries blocklen 0 128 xs False False fs1 =
          Some (wipe P 0 xs, wiped P 0 xs \<noteq> [], (\<exists>k < 128. wipe P 0 xs ! k \<noteq> 0), fs2)"
    and "fs_ok fs2" and "keeps fs fs2" and "disk fs2 = disk fs" and "fs_used fs2 = fs_used fs - set (wiped P 0 xs)"
proof -
  let ?ind = "sfi_indirect (sv_i sv)"
  have ind: "?ind \<in> fs_used fs" "?ind < sp_nblocks (sfs_super fs)" using file_ok_indirect [OF ok(2) go(2)] by auto
  obtain lh where rb: "sfs_rblock zero_block ?ind fs = Some (Inr (), disk fs ?ind, fs\<lparr>sfs_device := lh\<rparr>)"
      "lhd_moved (sfs_device fs) lh" "hw_sect lh = disk fs"
    by (rule rblock_ok [of fs ?ind zero_block]) (use ok(1) fs_ok_dblocks [OF ok(1) ind(2)] in \<open>auto simp: fs_ok_def\<close>)
  let ?fs1 = "fs\<lparr>sfs_device := lh\<rparr>"
  have ok1: "fs_ok ?fs1" "keeps fs ?fs1" "fs_used ?fs1 = fs_used fs" "disk ?fs1 = disk fs"
    using fs_ok_moved [OF ok(1) rb(2)] keeps_moved [OF rb(2)] rb(3) by (auto simp: fs_used_def disk_def)
  note dj = claimed_disjoint [OF ok(2), folded xs_def]
  note w = distinct_wiped [OF dj(5), of P]
  have len: "length xs = 128" unfolding xs_def using length_ids fs_ok_sectors ok(1) by blast
  have "set (wiped P 0 xs) \<subseteq> set (claimed (disk fs) (sv_i sv))" using w(2) unfolding set_claimed xs_def by blast
  then have s1: "set (wiped P 0 xs) \<subseteq> fs_used ?fs1 \<inter> {..<sp_nblocks (sfs_super ?fs1)}" using ok(2) ok1(3) by (auto simp: file_ok_def)
  have s2: "0 \<notin> set (wiped P 0 xs)" by (simp add: wiped_def)
  obtain bm fd where fr: "bfrees (wiped P 0 xs) ?fs1 = Some (?fs1\<lparr>sfs_freemap := bm, sfs_freemapdirty := fd\<rparr>)"
      "fs_ok (?fs1\<lparr>sfs_freemap := bm, sfs_freemapdirty := fd\<rparr>)" "bitmap_used bm = fs_used ?fs1 - set (wiped P 0 xs)"
      "nbits bm = nbits (sfs_freemap ?fs1)"
    by (rule bfrees_ok [OF ok1(1) w(1) s1 s2])
  let ?fs2 = "?fs1\<lparr>sfs_freemap := bm, sfs_freemapdirty := fd\<rparr>"
  have te: "truncate_entries blocklen 0 128 xs False False ?fs1 =
      Some (wipe P 0 xs, wiped P 0 xs \<noteq> [], (\<exists>k < 128. wipe P 0 xs ! k \<noteq> 0), ?fs2)"
    using truncate_entries_frees [of 0 128 xs blocklen False False ?fs1] len fr(1) by (simp add: SFS_NDIRECT_def P_def)
  show thesis
  proof (rule that [OF rb(1) _ te fr(2)])
    show "dec32 (disk fs ?ind) = xs" using go(2) by (simp add: xs_def ids_def)
    show "keeps fs ?fs2" by (rule keeps_trans [OF ok1(2)]) (use fr(4) in \<open>simp add: keeps_def\<close>)
    show "disk ?fs2 = disk fs" using ok1(4) by simp
    show "fs_used ?fs2 = fs_used fs - set (wiped P 0 xs)" using fr(3) ok1(3) by (simp add: fs_used_def)
  qed
qed

lemma truncate_indirect_shrinks:
  assumes ok: "fs_ok fs" "file_ok fs (sv_i sv)"
  obtains sv' fs' where "truncate_indirect blocklen sv fs = Some (Inr (), sv', fs')" and "shrinks fs (sv_i sv) fs' (sv_i sv')" and "sv_keeps sv sv'"
    and "sfi_direct (sv_i sv') = sfi_direct (sv_i sv)"
    and "ids (disk fs') (sv_i sv') = wipe (\<lambda>k. blocklen < 15 + k) 0 (ids (disk fs) (sv_i sv))"
    and "blocklen < 142 \<longrightarrow> sfi_indirect (sv_i sv') \<noteq> 0 \<longrightarrow> (\<exists>k < 128. ids (disk fs') (sv_i sv') ! k \<noteq> 0)"
proof (cases "blocklen < 142 \<and> sfi_indirect (sv_i sv) \<noteq> 0")
  case False
  note none = truncate_indirect_skip [OF ok False]
  have eq: "ids (disk fs) (sv_i sv) = wipe (\<lambda>k. blocklen < 15 + k) 0 (ids (disk fs) (sv_i sv))" using wipe_none [OF none] by simp
  have "shrinks fs (sv_i sv) fs (sv_i sv)"
    by (rule shrinks_ids [OF ok _ eq ok(1)]) (simp_all add: none)
  moreover have "truncate_indirect blocklen sv fs = Some (Inr (), sv, fs)"
    using False by (auto simp: truncate_indirect_def SFS_NDIRECT_def SFS_DBPERIDB_def)
  ultimately show ?thesis using that eq False by (auto simp: sv_keeps_def)
next
  case True
  let ?i = "sv_i sv" and ?P = "\<lambda>k. blocklen < 15 + k"
  let ?ind = "sfi_indirect ?i" and ?xs = "ids (disk fs) ?i"
  have go: "blocklen < 142" "?ind \<noteq> 0" using True by auto
  have ind: "?ind \<in> fs_used fs" "?ind < sp_nblocks (sfs_super fs)" using file_ok_indirect [OF ok(2) go(2)] by auto
  have len: "length ?xs = 128" using length_ids fs_ok_sectors ok(1) by blast
  obtain data fs1 fs2 where rb: "sfs_rblock zero_block ?ind fs = Some (Inr (), data, fs1)" and xs: "dec32 data = ?xs"
    and te: "truncate_entries blocklen 0 128 ?xs False False fs1 =
          Some (wipe ?P 0 ?xs, wiped ?P 0 ?xs \<noteq> [], (\<exists>k < 128. wipe ?P 0 ?xs ! k \<noteq> 0), fs2)"
    and fs2: "fs_ok fs2" "keeps fs fs2" "disk fs2 = disk fs" "fs_used fs2 = fs_used fs - set (wiped ?P 0 ?xs)"
    by (rule truncate_indirect_freed [OF ok go])
  have sb: "sp_nblocks (sfs_super fs2) = sp_nblocks (sfs_super fs)" using fs2(2) by (simp add: keeps_def)
  note dj = claimed_disjoint [OF ok(2)]
  note run = truncate_indirect_def [of blocklen sv fs] rb xs te SFS_NDIRECT_def SFS_DBPERIDB_def Let_def
  consider (empty) "\<not> (\<exists>k < 128. wipe ?P 0 ?xs ! k \<noteq> 0)" | (store) "\<exists>k < 128. wipe ?P 0 ?xs ! k \<noteq> 0" "wiped ?P 0 ?xs \<noteq> []"
    | (same) "\<exists>k < 128. wipe ?P 0 ?xs ! k \<noteq> 0" "wiped ?P 0 ?xs = []" by blast
  then show ?thesis
  proof cases
    case empty
    have "?ind \<notin> set (wiped ?P 0 ?xs)" using dj(3) distinct_wiped(2) [OF dj(5), of ?P] by blast
    then have u2: "?ind \<in> fs_used fs2" using ind(1) fs2(4) by blast
    obtain bm where fr: "sfs_bfree ?ind fs2 = Some (fs2\<lparr>sfs_freemap := bm, sfs_freemapdirty := True\<rparr>)"
        "fs_ok (fs2\<lparr>sfs_freemap := bm, sfs_freemapdirty := True\<rparr>)" "bitmap_used bm = fs_used fs2 - {?ind}" "nbits bm = nbits (sfs_freemap fs2)"
      by (rule bfree_ok [OF fs2(1) u2]) (use ind(2) go(2) sb in auto)
    let ?fs' = "fs2\<lparr>sfs_freemap := bm, sfs_freemapdirty := True\<rparr>" and ?i' = "?i\<lparr>sfi_indirect := 0\<rparr>"
    have "wipe ?P 0 ?xs = replicate 128 0" using empty len by (auto simp: list_eq_iff_nth_eq)
    then have ids': "ids (disk ?fs') ?i' = wipe ?P 0 ?xs" by (simp add: ids_def)
    have kp: "keeps fs ?fs'" using fs2(2) fr(4) by (simp add: keeps_def)
    have "shrinks fs ?i ?fs' ?i'"
      by (rule shrinks_ids [OF ok _ ids' fr(2) kp]) (use fr(3) fs2(3,4) go(2) in \<open>simp_all add: fs_used_def\<close>)
    moreover have "truncate_indirect blocklen sv fs = Some (Inr (), sv\<lparr>sv_i := ?i', sv_dirty := True\<rparr>, ?fs')"
      using go empty fr(1) by (simp add: run)
    ultimately show ?thesis using that ids' by (simp add: sv_keeps_def)
  next
    case store
    obtain lh where wb: "sfs_wblock (enc32 (wipe ?P 0 ?xs)) ?ind fs2 = Some (Inr (), fs2\<lparr>sfs_device := lh\<rparr>)"
        "lhd_moved (sfs_device fs2) lh" "hw_sect lh = (disk fs2)(?ind := enc32 (wipe ?P 0 ?xs))"
      by (rule wblock_ok [of fs2 ?ind "enc32 (wipe ?P 0 ?xs)"]) (use fs2(1) fs_ok_dblocks [OF fs2(1)] ind(2) sb len in \<open>auto simp: fs_ok_def\<close>)
    let ?fs' = "fs2\<lparr>sfs_device := lh\<rparr>"
    have "x < 2 ^ 32" if "x \<in> set ?xs" for x using that dec32_less xs by metis
    then have "dec32 (enc32 (wipe ?P 0 ?xs)) = wipe ?P 0 ?xs"
      by (intro dec32_enc32) (auto simp: wipe_def)
    then have ids': "ids (disk ?fs') ?i = wipe ?P 0 ?xs" using go(2) wb(3) by (simp add: ids_def disk_def)
    have "shrinks fs ?i ?fs' ?i"
      by (rule shrinks_ids [OF ok _ ids' fs_ok_moved [OF fs2(1) wb(2)] keeps_trans [OF fs2(2) keeps_moved [OF wb(2)]]])
        (use wb(3) fs2(3,4) go(2) in \<open>auto simp: fs_used_def disk_def\<close>)
    moreover have "truncate_indirect blocklen sv fs = Some (Inr (), sv, ?fs')" using go store wb(1) by (simp add: run)
    ultimately show ?thesis using that ids' store(1) by (simp add: sv_keeps_def)
  next
    case same
    have ids': "ids (disk fs2) ?i = wipe ?P 0 ?xs" using wipe_none [OF same(2)] fs2(3) by simp
    have "shrinks fs ?i fs2 ?i" by (rule shrinks_ids [OF ok _ ids' fs2(1,2)]) (use fs2(3,4) in simp_all)
    moreover have "truncate_indirect blocklen sv fs = Some (Inr (), sv, fs2)" using go same by (simp add: run)
    ultimately show ?thesis using that ids' same(1) by (simp add: sv_keeps_def)
  qed
qed

section \<open>Truncation\<close>

lemma shrinks_trans:
  assumes "shrinks fs i fs1 i1" and "shrinks fs1 i1 fs2 i2" and "sfi_indirect i1 = sfi_indirect i"
  shows "shrinks fs i fs2 i2"
proof -
  note a = assms(1,2) [unfolded shrinks_def]
  have sub: "set (claimed (disk fs1) i1) \<subseteq> set (claimed (disk fs) i)" "set (claimed (disk fs2) i2) \<subseteq> set (claimed (disk fs1) i1)"
    and used: "fs_used fs1 = fs_used fs - (set (claimed (disk fs) i) - set (claimed (disk fs1) i1))"
      "fs_used fs2 = fs_used fs1 - (set (claimed (disk fs1) i1) - set (claimed (disk fs2) i2))"
    and keep: "keeps fs fs1" "keeps fs1 fs2" using a by simp_all
  have "fs_used fs2 = fs_used fs - (set (claimed (disk fs) i) - set (claimed (disk fs2) i2))" unfolding used using sub by blast
  moreover have "\<forall>b. b = 0 \<or> b \<noteq> sfi_indirect i \<longrightarrow> disk fs2 b = disk fs b" using a assms(3) by simp
  ultimately show ?thesis using a keeps_trans [OF keep] order_trans [OF sub(2,1)] unfolding shrinks_def by simp
qed

lemma ents_wiped:
  assumes "length (sfi_direct i) = 15" and "length (ids d i) = 128" and "sfi_direct i' = wipe (\<lambda>k. blocklen \<le> k) 0 (sfi_direct i)"
    and "ids d' i' = wipe (\<lambda>k. blocklen < 15 + k) 0 (ids d i)" and "k < 143"
  shows "ents d' i' ! k = (if past blocklen k then 0 else ents d i ! k)"
  using assms by (auto simp: ents_def nth_append past_def nth_wipe)

lemma truncate_runs:
  assumes ok: "fs_ok fs" "file_ok fs (sv_i sv)" and len: "0 \<le> len" "len + 512 < 2 ^ 31"
  defines "blocklen \<equiv> (nat len + 511) div 512"
  obtains sv' fs' i where "sfs_truncate sv len fs = Some (Inr (), sv', fs')" and "sv_i sv' = i\<lparr>sfi_size := nat len\<rparr>" and "shrinks fs (sv_i sv) fs' i"
    and "\<forall>k < 143. ents (disk fs') i ! k = (if past blocklen k then 0 else ents (disk fs) (sv_i sv) ! k)"
    and "sv_keeps sv sv'" and "sv_dirty sv'" and "blocklen < 142 \<longrightarrow> sfi_indirect i \<noteq> 0 \<longrightarrow> (\<exists>k < 128. ids (disk fs') i ! k \<noteq> 0)"
proof -
  have "c_quot (511 + len) 512 = (511 + len) div 512" using len(1) by (simp add: c_quot_def)
  then have bl: "off_block (511 + len) = blocklen"
    using len by (simp add: off_block_def SFS_BLOCKSIZE_def blocklen_def nat_div_distrib nat_add_distrib add.commute)
  obtain sv1 fs1 where d: "truncate_direct blocklen 0 15 sv fs = Some (sv1, fs1)" "shrinks fs (sv_i sv) fs1 (sv_i sv1)" "sv_keeps sv sv1"
      "disk fs1 = disk fs" "sfi_indirect (sv_i sv1) = sfi_indirect (sv_i sv)" "sfi_direct (sv_i sv1) = wipe (\<lambda>k. blocklen \<le> k) 0 (sfi_direct (sv_i sv))"
    by (rule truncate_direct_shrinks [OF ok])
  have ok1: "fs_ok fs1" "file_ok fs1 (sv_i sv1)" using d(2) by (simp_all add: shrinks_def)
  obtain sv2 fs2 where n: "truncate_indirect blocklen sv1 fs1 = Some (Inr (), sv2, fs2)" "shrinks fs1 (sv_i sv1) fs2 (sv_i sv2)" "sv_keeps sv1 sv2"
      "sfi_direct (sv_i sv2) = sfi_direct (sv_i sv1)"
      "ids (disk fs2) (sv_i sv2) = wipe (\<lambda>k. blocklen < 15 + k) 0 (ids (disk fs1) (sv_i sv1))"
      "blocklen < 142 \<longrightarrow> sfi_indirect (sv_i sv2) \<noteq> 0 \<longrightarrow> (\<exists>k < 128. ids (disk fs2) (sv_i sv2) ! k \<noteq> 0)"
    by (rule truncate_indirect_shrinks [OF ok1])
  have "ids (disk fs1) (sv_i sv1) = ids (disk fs) (sv_i sv)" using d(4,5) by (simp add: ids_def)
  note e = ents_wiped [of "sv_i sv" "disk fs" "sv_i sv2" blocklen "disk fs2", OF _ length_ids [OF fs_ok_sectors [OF ok(1)]] _ n(5) [unfolded this]]
  have "length (sfi_direct (sv_i sv)) = 15" using ok(2) by (simp add: file_ok_def inode_ok_def)
  note e = e [OF this]
  have "len mod 2 ^ 32 = len" using len by simp
  then have "sfs_truncate sv len fs = Some (Inr (), sv2\<lparr>sv_i := (sv_i sv2)\<lparr>sfi_size := nat len\<rparr>, sv_dirty := True\<rparr>, fs2)"
    using d(1) n(1) len bl by (simp add: sfs_truncate_def c_int_def SFS_BLOCKSIZE_def SFS_NDIRECT_def Let_def)
  moreover have "sv_keeps sv (sv2\<lparr>sv_i := (sv_i sv2)\<lparr>sfi_size := nat len\<rparr>, sv_dirty := True\<rparr>)"
    using d(3) n(3) by (simp add: sv_keeps_def)
  ultimately show ?thesis using that [OF _ _ shrinks_trans [OF d(2) n(2) d(5)]] e n(4,6) d(6) by simp
qed

lemma resized [simp]: "ents d (i\<lparr>sfi_size := n\<rparr>) = ents d i" "claimed d (i\<lparr>sfi_size := n\<rparr>) = claimed d i" "fblock d (i\<lparr>sfi_size := n\<rparr>) k = fblock d i k"
  by (simp_all add: ents_def ids_def claimed_def fblock_def)

lemma file_ok_resized: "file_ok fs i \<Longrightarrow> n < 2 ^ 32 \<Longrightarrow> file_ok fs (i\<lparr>sfi_size := n\<rparr>)"
  by (simp add: file_ok_def inode_ok_def)

text \<open>
  C10. Truncation. \<open>sfs_truncate\<close> to a length of up to 2 GB sets the size, frees exactly the
  blocks that the file no longer claims, keeps the invariants of the file system and of the
  file, changes no block of the disk outside the file, and leaves every block of the file that
  is not past the new end as it was. A block is taken to be past the new end from the block
  after the last needed one on among the direct blocks, but only from the second one on among
  the blocks reached through the indirect block.
\<close>

theorem sfs_truncate_correct:
  assumes "fs_ok fs" and "file_ok fs (sv_i sv)" and "0 \<le> len" and "len + 512 < 2 ^ 31"
  shows "\<exists>sv' fs'. sfs_truncate sv len fs = Some (Inr (), sv', fs') \<and> sfi_size (sv_i sv') = nat len \<and>
    fs_ok fs' \<and> file_ok fs' (sv_i sv') \<and>
    fs_used fs' = fs_used fs - (set (claimed (disk fs) (sv_i sv)) - set (claimed (disk fs') (sv_i sv'))) \<and>
    (\<forall>b. b \<in> set (claimed (disk fs) (sv_i sv)) \<or> disk fs' b = disk fs b) \<and>
    (\<forall>k < 143. ents (disk fs') (sv_i sv') ! k = (if past ((nat len + 511) div 512) k then 0 else ents (disk fs) (sv_i sv) ! k) \<and>
       fblock (disk fs') (sv_i sv') k = (if past ((nat len + 511) div 512) k then zero_block else fblock (disk fs) (sv_i sv) k))"
proof -
  let ?past = "past ((nat len + 511) div 512)"
  obtain sv' fs' i where r: "sfs_truncate sv len fs = Some (Inr (), sv', fs')" "sv_i sv' = i\<lparr>sfi_size := nat len\<rparr>" "shrinks fs (sv_i sv) fs' i"
    "\<forall>k < 143. ents (disk fs') i ! k = (if ?past k then 0 else ents (disk fs) (sv_i sv) ! k)"
    by (rule truncate_runs [OF assms]) blast
  have same: "disk fs' b = disk fs b" if "b = 0 \<or> b \<noteq> sfi_indirect (sv_i sv)" for b using r(3) that unfolding shrinks_def by blast
  have dist: "distinct (claimed (disk fs) (sv_i sv))" using assms(2) by (simp add: file_ok_def)
  have "disk fs' (ents (disk fs) (sv_i sv) ! k) = disk fs (ents (disk fs) (sv_i sv) ! k)" if "k < 143" for k
    using same ents_not_indirect [OF dist, of k] file_ok_length [OF assms(1,2)] that by metis
  then have blocks: "fblock (disk fs') i k = (if ?past k then zero_block else fblock (disk fs) (sv_i sv) k)" if "k < 143" for k
    using r(4) that by (simp add: fblock_def)
  have "file_ok fs' i" "nat len < 2 ^ 32" using r(3) assms(3,4) by (simp_all add: shrinks_def)
  then have "file_ok fs' (sv_i sv')" unfolding r(2) by (rule file_ok_resized)
  moreover have "disk fs' b = disk fs b" if "b \<notin> set (claimed (disk fs) (sv_i sv))" for b
    using same that by (auto simp: claimed_iff)
  moreover have "fs_ok fs'" "fs_used fs' = fs_used fs - (set (claimed (disk fs) (sv_i sv)) - set (claimed (disk fs') (sv_i sv')))"
    using r(2,3) by (simp_all add: shrinks_def)
  moreover have "sfi_size (sv_i sv') = nat len" using r(2) by simp
  moreover have "\<forall>k < 143. ents (disk fs') (sv_i sv') ! k = (if ?past k then 0 else ents (disk fs) (sv_i sv) ! k) \<and>
      fblock (disk fs') (sv_i sv') k = (if ?past k then zero_block else fblock (disk fs) (sv_i sv) k)"
    using r(2,4) blocks by simp
  ultimately show ?thesis using r(1) by blast
qed

text \<open>
  C34. Truncation forgets a block. When the new length needs 15 blocks or more, the first block
  past the new end stays in the file: its entry in the indirect block is kept, the block stays
  marked in use, and its old contents are still there to be read when the file grows again.
\<close>

theorem sfs_truncate_keeps_tail:
  assumes "fs_ok fs" and "file_ok fs (sv_i sv)" and "0 \<le> len" and "len + 512 < 2 ^ 31"
    and "k = (nat len + 511) div 512" and "15 \<le> k" and "k < 143" and "ents (disk fs) (sv_i sv) ! k \<noteq> 0"
  shows "\<exists>sv' fs'. sfs_truncate sv len fs = Some (Inr (), sv', fs') \<and> sfi_size (sv_i sv') \<le> 512 * k \<and>
    ents (disk fs') (sv_i sv') ! k = ents (disk fs) (sv_i sv) ! k \<and> ents (disk fs) (sv_i sv) ! k \<in> fs_used fs' \<and>
    fblock (disk fs') (sv_i sv') k = disk fs (ents (disk fs) (sv_i sv) ! k)"
proof -
  obtain sv' fs' i where r: "sfs_truncate sv len fs = Some (Inr (), sv', fs')" "sv_i sv' = i\<lparr>sfi_size := nat len\<rparr>" "shrinks fs (sv_i sv) fs' i"
    "\<forall>j < 143. ents (disk fs') i ! j = (if past ((nat len + 511) div 512) j then 0 else ents (disk fs) (sv_i sv) ! j)"
    by (rule truncate_runs [OF assms(1-4)]) blast
  have dist: "distinct (claimed (disk fs) (sv_i sv))" using assms(2) by (simp add: file_ok_def)
  have l: "length (ents (disk fs) (sv_i sv)) = 143" using file_ok_length [OF assms(1,2)] .
  have ok': "fs_ok fs'" "file_ok fs' i" using r(3) by (simp_all add: shrinks_def)
  have e: "ents (disk fs') i ! k = ents (disk fs) (sv_i sv) ! k" using r(4) assms(5,6,7) by (simp add: past_def)
  have "disk fs' (ents (disk fs) (sv_i sv) ! k) = disk fs (ents (disk fs) (sv_i sv) ! k)"
    using ents_not_indirect [OF dist] r(3) assms(7,8) l by (simp add: shrinks_def)
  moreover have "ents (disk fs') i ! k \<in> fs_used fs'"
    using ents_nth_claimed [of k "disk fs'" i] file_ok_length [OF ok'] file_ok_block [OF ok'(2)] e assms(7,8) by auto
  moreover have "nat len \<le> 512 * k" using assms(5) by linarith
  ultimately have "sfi_size (sv_i sv') \<le> 512 * k \<and> ents (disk fs') (sv_i sv') ! k = ents (disk fs) (sv_i sv) ! k \<and>
    ents (disk fs) (sv_i sv) ! k \<in> fs_used fs' \<and> fblock (disk fs') (sv_i sv') k = disk fs (ents (disk fs) (sv_i sv) ! k)"
    using r(2) e assms(8) by (simp add: fblock_def)
  then show ?thesis using r(1) by blast
qed

section \<open>A file with an indirect block\<close>

text \<open>On the volume of 100 blocks, a file whose block 15 is block 6 of the disk, reached through block 5.\<close>

definition tail_fs :: sfs_fs where
  "tail_fs = small_fs\<lparr>sfs_device := (sfs_device small_fs)\<lparr>hw_sect := (disk small_fs)(5 := enc32 (6 # replicate 127 0))\<rparr>,
     sfs_freemap := \<lparr>nbits = 4096, bm_v = 0x67 # replicate 11 0 @ [0xf0] @ replicate 499 255\<rparr>\<rparr>"

definition tail_sv :: sfs_vnode where
  "tail_sv = small_sv\<lparr>sv_i := (sv_i small_sv)\<lparr>sfi_size := 8000, sfi_indirect := 5\<rparr>\<rparr>"

lemma tail_fs_ok: "fs_ok tail_fs"
proof -
  have h: "healthy small_fs" using small_fs_ok by (simp add: fs_ok_def)
  have "healthy tail_fs"
    using h by (simp add: healthy_def tail_fs_def lhd_ok_def fault_free_def disk_def)
  moreover have "bitmap_ok (sfs_freemap tail_fs)" by (simp add: tail_fs_def bitmap_ok_def)
  moreover have "{100..<4096} \<subseteq> fs_used tail_fs" using small_bits by (auto simp: tail_fs_def fs_used_def bitmap_used_def)
  moreover have "0 \<in> fs_used tail_fs" by (simp add: tail_fs_def fs_used_def bitmap_used_def bitmap_bit_def bit_simps)
  ultimately show ?thesis by (simp add: fs_ok_def) (simp add: tail_fs_def small_fs_def some_disk_def)
qed

lemma tail_ids: "ids (disk tail_fs) (sv_i tail_sv) = 6 # replicate 127 0"
proof -
  have "dec32 (enc32 (6 # replicate 127 0)) = 6 # replicate 127 0" by (rule dec32_enc32) auto
  then show ?thesis by (simp add: ids_def tail_sv_def tail_fs_def disk_def)
qed

lemma tail_claimed: "claimed (disk tail_fs) (sv_i tail_sv) = [5, 6]"
  unfolding claimed_def ents_def tail_ids by (simp add: tail_sv_def small_sv_def)

lemma tail_used: "5 \<in> fs_used tail_fs" "6 \<in> fs_used tail_fs"
  by (simp_all add: tail_fs_def fs_used_def bitmap_used_def bitmap_bit_def bit_simps)

lemma tail_file_ok: "file_ok tail_fs (sv_i tail_sv)"
  unfolding file_ok_def tail_claimed using tail_used
  by (simp add: inode_ok_def) (simp add: tail_sv_def tail_fs_def small_sv_def small_fs_def some_disk_def)

lemma tail_ent: "ents (disk tail_fs) (sv_i tail_sv) ! 15 = 6"
  unfolding ents_def tail_ids by (simp add: tail_sv_def small_sv_def nth_append)

theorem sfs_truncate_correct_witness:
  "\<exists>sv' fs'. sfs_truncate tail_sv 0 tail_fs = Some (Inr (), sv', fs') \<and> sfi_size (sv_i sv') = nat 0 \<and>
    fs_ok fs' \<and> file_ok fs' (sv_i sv') \<and>
    fs_used fs' = fs_used tail_fs - (set (claimed (disk tail_fs) (sv_i tail_sv)) - set (claimed (disk fs') (sv_i sv'))) \<and>
    (\<forall>b. b \<in> set (claimed (disk tail_fs) (sv_i tail_sv)) \<or> disk fs' b = disk tail_fs b) \<and>
    (\<forall>k < 143. ents (disk fs') (sv_i sv') ! k = (if past ((nat 0 + 511) div 512) k then 0 else ents (disk tail_fs) (sv_i tail_sv) ! k) \<and>
       fblock (disk fs') (sv_i sv') k = (if past ((nat 0 + 511) div 512) k then zero_block else fblock (disk tail_fs) (sv_i tail_sv) k))"
  by (rule sfs_truncate_correct [OF tail_fs_ok tail_file_ok]) simp_all

theorem sfs_truncate_keeps_tail_witness:
  "\<exists>sv' fs'. sfs_truncate tail_sv 7680 tail_fs = Some (Inr (), sv', fs') \<and> sfi_size (sv_i sv') \<le> 512 * 15 \<and>
    ents (disk fs') (sv_i sv') ! 15 = ents (disk tail_fs) (sv_i tail_sv) ! 15 \<and> ents (disk tail_fs) (sv_i tail_sv) ! 15 \<in> fs_used fs' \<and>
    fblock (disk fs') (sv_i sv') 15 = disk tail_fs (ents (disk tail_fs) (sv_i tail_sv) ! 15)"
  by (rule sfs_truncate_keeps_tail [OF tail_fs_ok tail_file_ok]) (simp_all add: tail_ent)

end
