(* ===== verification/SfsDir.thy ===== *)
theory SfsDir
  imports SfsWrite
begin

text \<open>
  Directories of the file system (\<open>kern/fs/sfs/sfs_vnode.c\<close>, the part on directory I/O), and a
  directory seen as a finite map from names to inode numbers. A name is the list of bytes of a C
  string, without the terminating zero. The entry that \<open>sfs_readdir\<close> fills is overwritten as a
  whole whenever the call succeeds, so its old contents are not part of the model.
\<close>

section \<open>Directory I/O\<close>

definition SFS_DIRSIZE :: nat where
  "SFS_DIRSIZE = 64"

text \<open>The bytes of a C string stored in a buffer.\<close>

definition cstr :: "byte list \<Rightarrow> byte list" where
  "cstr bs = takeWhile (\<lambda>b. b \<noteq> 0) bs"

definition dir_pos :: "int \<Rightarrow> int" where
  "dir_pos slot = to_off (slot * int SFS_DIRSIZE)"

definition sfs_readdir :: "sfs_vnode \<Rightarrow> int \<Rightarrow> sfs_fs \<Rightarrow> (sfs_dir kres \<times> sfs_vnode \<times> sfs_fs) option" where
  "sfs_readdir sv slot fs = do {
     let actualpos = dir_pos slot;
     (r, sv1, ku, fs1) \<leftarrow> sfs_io sv (mk_kuio (replicate SFS_DIRSIZE 0) SFS_DIRSIZE actualpos UIO_READ) fs;
     case r of Inl e \<Rightarrow> Some (Inl e, sv1, fs1)
     | Inr _ \<Rightarrow> do {
         kassert (uio_resid ku = 0);
         Some (Inr (dec_dir (iov_kbuf ku)), sv1, fs1)
       }
   }"

definition sfs_writedir :: "sfs_vnode \<Rightarrow> sfs_dir \<Rightarrow> int \<Rightarrow> sfs_fs \<Rightarrow> (unit kres \<times> sfs_vnode \<times> sfs_fs) option" where
  "sfs_writedir sv sd slot fs = do {
     kassert (slot \<ge> 0);
     let actualpos = dir_pos slot;
     (r, sv1, ku, fs1) \<leftarrow> sfs_io sv (mk_kuio (enc_dir sd) SFS_DIRSIZE actualpos UIO_WRITE) fs;
     case r of Inl e \<Rightarrow> Some (Inl e, sv1, fs1)
     | Inr _ \<Rightarrow> do {
         kassert (uio_resid ku = 0);
         Some (Inr (), sv1, fs1)
       }
   }"

text \<open>The size is an unsigned number in both operations, as \<open>sizeof\<close> is.\<close>

definition sfs_dir_nentries :: "sfs_vnode \<Rightarrow> int option" where
  "sfs_dir_nentries sv = do {
     kassert (sfi_type (sv_i sv) = SFS_TYPE_DIR);
     let sz = nat (to_off (int (sfi_size (sv_i sv))) mod 2 ^ 32);
     kassert (sz mod SFS_DIRSIZE = 0);
     Some (int (sz div SFS_DIRSIZE))
   }"

text \<open>
  The loop of \<open>sfs_dir_findname\<close> from slot \<open>i\<close> with \<open>n\<close> slots to go; \<open>hit\<close> is the inode number and
  the slot found so far and \<open>emptyslot\<close> the last free slot seen.
\<close>

primrec findname_loop ::
  "byte list \<Rightarrow> int \<Rightarrow> nat \<Rightarrow> (nat \<times> int) option \<Rightarrow> int option \<Rightarrow> sfs_vnode \<Rightarrow> sfs_fs \<Rightarrow>
     ((nat \<times> int) kres \<times> int option \<times> sfs_vnode \<times> sfs_fs) option" where
  "findname_loop name i 0 hit emptyslot sv fs =
     Some (case hit of Some h \<Rightarrow> Inr h | None \<Rightarrow> Inl ENOENT, emptyslot, sv, fs)"
| "findname_loop name i (Suc n) hit emptyslot sv fs = do {
     (r, sv1, fs1) \<leftarrow> sfs_readdir sv i fs;
     case r of Inl e \<Rightarrow> Some (Inl e, emptyslot, sv1, fs1)
     | Inr tsd \<Rightarrow>
         if sfd_ino tsd = SFS_NOINO then findname_loop name (i + 1) n hit (Some i) sv1 fs1
         else if cstr ((sfd_name tsd)[SFS_NAMELEN - 1 := 0]) = name then do {
           kassert (hit = None);
           findname_loop name (i + 1) n (Some (sfd_ino tsd, i)) emptyslot sv1 fs1
         }
         else findname_loop name (i + 1) n hit emptyslot sv1 fs1
   }"

definition sfs_dir_findname ::
  "sfs_vnode \<Rightarrow> byte list \<Rightarrow> sfs_fs \<Rightarrow> ((nat \<times> int) kres \<times> int option \<times> sfs_vnode \<times> sfs_fs) option" where
  "sfs_dir_findname sv name fs = do {
     nentries \<leftarrow> sfs_dir_nentries sv;
     findname_loop name 0 (nat nentries) None None sv fs
   }"

text \<open>The result on success is the slot the entry went to.\<close>

definition sfs_dir_link :: "sfs_vnode \<Rightarrow> byte list \<Rightarrow> nat \<Rightarrow> sfs_fs \<Rightarrow> (int kres \<times> sfs_vnode \<times> sfs_fs) option" where
  "sfs_dir_link sv name ino fs = do {
     (result, emptyslot, sv1, fs1) \<leftarrow> sfs_dir_findname sv name fs;
     case result of
       Inr _ \<Rightarrow> Some (Inl EEXIST, sv1, fs1)
     | Inl e \<Rightarrow>
         if e \<noteq> ENOENT then Some (Inl e, sv1, fs1)
         else if length name + 1 > SFS_NAMELEN then Some (Inl ENAMETOOLONG, sv1, fs1)
         else do {
           slot \<leftarrow> (case emptyslot of Some s \<Rightarrow> Some s | None \<Rightarrow> sfs_dir_nentries sv1);
           let sd = \<lparr>sfd_ino = ino, sfd_name = name @ replicate (SFS_NAMELEN - length name) 0\<rparr>;
           (r, sv2, fs2) \<leftarrow> sfs_writedir sv1 sd slot fs1;
           Some (map_sum id (\<lambda>_. slot) r, sv2, fs2)
         }
   }"

definition sfs_dir_unlink :: "sfs_vnode \<Rightarrow> int \<Rightarrow> sfs_fs \<Rightarrow> (unit kres \<times> sfs_vnode \<times> sfs_fs) option" where
  "sfs_dir_unlink sv slot fs =
     sfs_writedir sv \<lparr>sfd_ino = SFS_NOINO, sfd_name = replicate SFS_NAMELEN 0\<rparr> slot fs"


section \<open>Transfers inside one block\<close>

lemma io_body_write_all:
  assumes ok: "fs_ok fs" "file_ok fs (sv_i sv)" and u: "kuio u" "uio_rw u = UIO_WRITE"
    and pos: "nat (uio_offset u) mod 512 + uio_resid u \<le> 512" "0 < uio_resid u" "uio_resid u < 512"
  shows "writes_all (uio_resid u) sv u fs (sfs_io_body sv u fs)"
proof -
  let ?m = "nat (uio_offset u) mod 512"
  have p: "writes_all (uio_resid u) sv u fs (sfs_partialio sv u ?m (uio_resid u) fs)"
    by (rule partialio_write_all [OF ok u _ pos(1)]) (use pos(2) in auto)
  show ?thesis
  proof (cases "?m = 0")
    case True
    then have "sfs_io_body sv u fs = sfs_partialio sv u ?m (uio_resid u) fs"
      using pos(2,3) kuio_off(2) [OF u(1)] by (simp add: sfs_io_body_def sfs_io_rest_def SFS_BLOCKSIZE_def)
    then show ?thesis using p by simp
  next
    case False
    have min: "min (SFS_BLOCKSIZE - ?m) (uio_resid u) = uio_resid u" using pos(1) by (simp add: SFS_BLOCKSIZE_def)
    have eq: "sfs_io_body sv u fs = sfs_partialio sv u ?m (uio_resid u) fs \<bind>
        (\<lambda>(r, sv1, u1, fs1). case r of Inl e \<Rightarrow> Some (Inl e, sv1, u1, fs1) | Inr y \<Rightarrow> sfs_io_rest sv1 u1 fs1)"
      using False kuio_off(2) [OF u(1)] min by (simp add: sfs_io_body_def Let_def)
    have "sfs_io_rest sv1 (uio_took (uio_resid u) u) fs1 = Some (Inr (), sv1, uio_took (uio_resid u) u, fs1)" for sv1 fs1
      by (simp add: sfs_io_rest_def)
    then show ?thesis unfolding eq using p unfolding writes_all_def by fastforce
  qed
qed

lemma sfs_io_write_all:
  assumes ok: "fs_ok fs" "file_ok fs (sv_i sv)" and u: "kuio u" "uio_rw u = UIO_WRITE" and sz: "sfi_size (sv_i sv) < 2 ^ 31"
    and pos: "nat (uio_offset u) mod 512 + uio_resid u \<le> 512" "0 < uio_resid u" "uio_resid u < 512"
  obtains (all) sv' fs' where "sfs_io sv u fs = Some (Inr (), sv', uio_took (uio_resid u) u, fs')"
      and "write_outcome fs sv u (Inr ()) (uio_resid u) fs' sv'" and "nat (uio_offset u) + uio_resid u \<le> 73216"
    | (none) e sv' fs' where "sfs_io sv u fs = Some (Inl e, sv', uio_took 0 u, fs')" and "write_outcome fs sv u (Inl e) 0 fs' sv'"
proof -
  obtain r m sv' fs' where io: "sfs_io sv u fs = Some (r, sv', uio_took m u, fs')" and w: "write_outcome fs sv u r m fs' sv'"
    by (rule sfs_io_write [OF ok u sz])
  have m: "m \<le> uio_resid u" using w by (simp add: write_outcome_def)
  obtain sv1 fs1 where b: "sfs_io_body sv u fs = Some (Inr (), sv1, uio_took (uio_resid u) u, fs1) \<and> nat (uio_offset u) + uio_resid u \<le> 73216 \<or>
      (\<exists>e. sfs_io_body sv u fs = Some (Inl e, sv1, u, fs1))"
    using io_body_write_all [OF ok u pos] by (auto simp: writes_all_def)
  show ?thesis
  proof (cases r)
    case (Inr x)
    then have "m = uio_resid u" "r = Inr ()" using w by (auto simp: write_outcome_def)
    moreover have "nat (uio_offset u) + uio_resid u \<le> 73216"
      using b io Inr u(2) by (auto simp: sfs_io_def sfs_io_run_def split: prod.splits)
    ultimately show ?thesis using all io w by simp
  next
    case (Inl e)
    have "uio_took m u = u"
      using b io Inl u(2) pos(3) by (auto simp: sfs_io_def sfs_io_run_def sfs_io_out_def split: prod.splits if_splits)
    then have "uio_resid (uio_took m u) = uio_resid u" by (rule arg_cong)
    then have "m = 0" using m pos(2) by simp
    then show ?thesis using none io w Inl by simp
  qed
qed

section \<open>The entries of a directory\<close>

text \<open>Slot \<open>s\<close> of a directory, the name it holds and whether it is in use.\<close>

definition slot_dir :: "(nat \<Rightarrow> byte list) \<Rightarrow> sfs_inode \<Rightarrow> nat \<Rightarrow> sfs_dir" where
  "slot_dir d i s = dec_dir (map (fbyte d i) [64 * s..<64 * s + 64])"

definition slot_name :: "sfs_dir \<Rightarrow> byte list" where
  "slot_name e = cstr ((sfd_name e)[59 := 0])"

definition slot_is :: "(nat \<Rightarrow> byte list) \<Rightarrow> sfs_inode \<Rightarrow> byte list \<Rightarrow> nat \<Rightarrow> bool" where
  "slot_is d i name s \<longleftrightarrow> sfd_ino (slot_dir d i s) \<noteq> 0 \<and> slot_name (slot_dir d i s) = name"

definition nslots :: "sfs_inode \<Rightarrow> nat" where
  "nslots i = sfi_size i div 64"

text \<open>The directory as a map from names to inode numbers.\<close>

definition dirmap :: "(nat \<Rightarrow> byte list) \<Rightarrow> sfs_inode \<Rightarrow> byte list \<Rightarrow> nat option" where
  "dirmap d i name = map_option (\<lambda>s. sfd_ino (slot_dir d i s)) (find (slot_is d i name) [0..<nslots i])"

text \<open>A well-formed directory: whole entries, no more than fit into a file, and no name twice.\<close>

definition dir_wf :: "sfs_fs \<Rightarrow> sfs_inode \<Rightarrow> bool" where
  "dir_wf fs i \<longleftrightarrow> fs_ok fs \<and> file_ok fs i \<and> sfi_type i = SFS_TYPE_DIR \<and> sfi_size i mod 64 = 0 \<and> sfi_size i \<le> 73216 \<and>
     (\<forall>s < nslots i. \<forall>t < nslots i. \<forall>name. slot_is (disk fs) i name s \<longrightarrow> slot_is (disk fs) i name t \<longrightarrow> s = t)"

lemma dir_wfD:
  assumes "dir_wf fs i"
  shows "fs_ok fs" "file_ok fs i" "sfi_type i = SFS_TYPE_DIR" "sfi_size i = 64 * nslots i" "nslots i \<le> 1144"
    and "s < nslots i \<Longrightarrow> t < nslots i \<Longrightarrow> slot_is (disk fs) i name s \<Longrightarrow> slot_is (disk fs) i name t \<Longrightarrow> s = t"
proof -
  show "fs_ok fs" "file_ok fs i" "sfi_type i = SFS_TYPE_DIR" using assms by (simp_all add: dir_wf_def)
  show "sfi_size i = 64 * nslots i" "nslots i \<le> 1144" using assms by (auto simp: dir_wf_def nslots_def)
  show "s < nslots i \<Longrightarrow> t < nslots i \<Longrightarrow> slot_is (disk fs) i name s \<Longrightarrow> slot_is (disk fs) i name t \<Longrightarrow> s = t"
    using assms by (simp add: dir_wf_def)
qed

lemma dir_wf_moved:
  assumes "dir_wf fs i" and "lhd_moved (sfs_device fs) lh" and "hw_sect lh = disk fs"
  shows "dir_wf (fs\<lparr>sfs_device := lh\<rparr>) i" "disk (fs\<lparr>sfs_device := lh\<rparr>) = disk fs"
proof -
  show d: "disk (fs\<lparr>sfs_device := lh\<rparr>) = disk fs" using assms(3) by (simp add: disk_def)
  have "fs_ok (fs\<lparr>sfs_device := lh\<rparr>)" by (rule fs_ok_moved [OF dir_wfD(1) [OF assms(1)] assms(2)])
  then show "dir_wf (fs\<lparr>sfs_device := lh\<rparr>) i" using assms(1) d by (simp add: dir_wf_def file_ok_def fs_used_def)
qed

lemma find_unique:
  assumes "P s" and "s \<in> set xs" and "\<And>t. t \<in> set xs \<Longrightarrow> P t \<Longrightarrow> t = s"
  shows "find P xs = Some s"
  using assms(2,3)
proof (induction xs)
  case (Cons x xs)
  show ?case
  proof (cases "P x")
    case True
    then have "x = s" using Cons.prems(2) [of x] by simp
    then show ?thesis using True by simp
  next
    case False
    then have "x \<noteq> s" using assms(1) by blast
    then show ?thesis using Cons False by simp
  qed
qed simp

lemma dirmap_Some:
  assumes "dir_wf fs i" and "slot_is (disk fs) i name s" and "s < nslots i"
  shows "dirmap (disk fs) i name = Some (sfd_ino (slot_dir (disk fs) i s))"
proof -
  have "find (slot_is (disk fs) i name) [0..<nslots i] = Some s"
    by (rule find_unique) (use assms dir_wfD(6) [OF assms(1)] in auto)
  then show ?thesis by (simp add: dirmap_def)
qed

lemma dirmap_None: "dirmap d i name = None \<longleftrightarrow> (\<forall>s < nslots i. \<not> slot_is d i name s)"
  by (auto simp: dirmap_def find_None_iff)

lemma dirmap_SomeD:
  assumes "dirmap d i name = Some ino"
  obtains s where "s < nslots i" "slot_is d i name s" "ino = sfd_ino (slot_dir d i s)"
  using assms by (auto simp: dirmap_def find_Some_iff)

section \<open>Reading entries and searching\<close>

lemma dir_pos_slot: "s \<le> 1144 \<Longrightarrow> dir_pos (int s) = int (64 * s)"
  by (simp add: dir_pos_def SFS_DIRSIZE_def)

lemma nat_slot [simp]: "nat (64 * int s) = 64 * s"
  by (simp add: nat_mult_distrib)

lemma readdir_ok:
  assumes wf: "dir_wf fs (sv_i sv)" and s: "s < nslots (sv_i sv)"
  obtains lh where "sfs_readdir sv (int s) fs = Some (Inr (slot_dir (disk fs) (sv_i sv) s), sv, fs\<lparr>sfs_device := lh\<rparr>)"
    and "lhd_moved (sfs_device fs) lh" and "hw_sect lh = disk fs"
proof -
  note d = dir_wfD [OF wf]
  let ?u = "mk_kuio (replicate 64 0) 64 (int (64 * s)) UIO_READ"
  have u: "kuio ?u" "uio_rw ?u = UIO_READ" using s d(5) by (simp_all add: kuio_def mk_kuio_def)
  have max: "sfi_size (sv_i sv) \<le> 73216" using d(4,5) by simp
  obtain lh where lh: "sfs_io sv ?u fs = Some (Inr (), sv,
      put_bytes ?u (take (uio_resid ?u) (drop (nat (uio_offset ?u)) (contents (disk fs) (sv_i sv)))), fs\<lparr>sfs_device := lh\<rparr>)"
      "lhd_moved (sfs_device fs) lh" "hw_sect lh = disk fs"
    by (rule sfs_io_read [OF d(1,2) u max])
  have fits: "64 * s + 64 \<le> sfi_size (sv_i sv)" using s d(4) by simp
  have bytes: "take (uio_resid ?u) (drop (nat (uio_offset ?u)) (contents (disk fs) (sv_i sv))) = map (fbyte (disk fs) (sv_i sv)) [64 * s..<64 * s + 64]"
    using contents_slice [OF fits] by (simp add: mk_kuio_def)
  let ?v = "put_bytes ?u (map (fbyte (disk fs) (sv_i sv)) [64 * s..<64 * s + 64])"
  have v: "uio_resid ?v = 0" "iov_kbuf ?v = map (fbyte (disk fs) (sv_i sv)) [64 * s..<64 * s + 64]"
    by (simp_all add: put_bytes_def mk_kuio_def)
  have "dir_pos (int s) = int (64 * s)" using s d(5) by (intro dir_pos_slot) simp
  then have "sfs_readdir sv (int s) fs = Some (Inr (slot_dir (disk fs) (sv_i sv) s), sv, fs\<lparr>sfs_device := lh\<rparr>)"
    using lh(1) v unfolding bytes by (simp add: sfs_readdir_def SFS_DIRSIZE_def slot_dir_def Let_def)
  then show ?thesis using that lh(2,3) by blast
qed

text \<open>The last free slot in a range.\<close>

definition last_free :: "(nat \<Rightarrow> byte list) \<Rightarrow> sfs_inode \<Rightarrow> nat list \<Rightarrow> int option \<Rightarrow> int option" where
  "last_free d i ss e = fold (\<lambda>s e. if sfd_ino (slot_dir d i s) = 0 then Some (int s) else e) ss e"

lemma last_free_cases: "last_free d i ss e = e \<or> (\<exists>s \<in> set ss. last_free d i ss e = Some (int s) \<and> sfd_ino (slot_dir d i s) = 0)"
  unfolding last_free_def by (induction ss arbitrary: e) (auto split: if_splits)

definition found :: "(nat \<Rightarrow> byte list) \<Rightarrow> sfs_inode \<Rightarrow> byte list \<Rightarrow> nat list \<Rightarrow> (nat \<times> int) kres" where
  "found d i name ss = (case find (slot_is d i name) ss of Some s \<Rightarrow> Inr (sfd_ino (slot_dir d i s), int s) | None \<Rightarrow> Inl ENOENT)"

lemma findname_loop_ok:
  assumes "dir_wf fs (sv_i sv)" and "s + n = nslots (sv_i sv)"
    and "hit \<noteq> None \<longrightarrow> (\<forall>t. s \<le> t \<and> t < s + n \<longrightarrow> \<not> slot_is (disk fs) (sv_i sv) name t)"
  shows "\<exists>lh. findname_loop name (int s) n hit e sv fs =
      Some (case hit of Some h \<Rightarrow> Inr h | None \<Rightarrow> found (disk fs) (sv_i sv) name [s..<s + n],
        last_free (disk fs) (sv_i sv) [s..<s + n] e, sv, fs\<lparr>sfs_device := lh\<rparr>) \<and> lhd_moved (sfs_device fs) lh \<and> hw_sect lh = disk fs"
  using assms
proof (induction n arbitrary: s hit e fs)
  case 0
  have "lhd_moved (sfs_device fs) (sfs_device fs)" using dir_wfD(1) [OF 0(1)] by (simp add: lhd_moved_def fs_ok_def healthy_def)
  then show ?case by (intro exI [of _ "sfs_device fs"]) (simp add: found_def last_free_def disk_def split: option.split)
next
  case (Suc n)
  let ?d = "disk fs" and ?i = "sv_i sv"
  obtain lh where rd: "sfs_readdir sv (int s) fs = Some (Inr (slot_dir ?d ?i s), sv, fs\<lparr>sfs_device := lh\<rparr>)"
      "lhd_moved (sfs_device fs) lh" "hw_sect lh = ?d"
    by (rule readdir_ok [OF Suc.prems(1), of s]) (use Suc.prems(2) in auto)
  let ?fs = "fs\<lparr>sfs_device := lh\<rparr>" and ?e = "if sfd_ino (slot_dir ?d ?i s) = 0 then Some (int s) else e"
  note mv = dir_wf_moved [OF Suc.prems(1) rd(2,3)]
  have upt: "[s..<s + Suc n] = s # [Suc s..<Suc s + n]" by (simp add: upt_conv_Cons)
  let ?hit = "if slot_is ?d ?i name s then Some (sfd_ino (slot_dir ?d ?i s), int s) else hit"
  have uniq: "\<forall>t. Suc s \<le> t \<and> t < Suc s + n \<longrightarrow> \<not> slot_is ?d ?i name t" if "?hit \<noteq> None"
  proof (cases "slot_is ?d ?i name s")
    case True
    show ?thesis
    proof (intro allI impI notI)
      fix t assume "Suc s \<le> t \<and> t < Suc s + n" "slot_is ?d ?i name t"
      then have "s = t" using dir_wfD(6) [OF Suc.prems(1), of s t name] True Suc.prems(2) by simp
      then show False using \<open>Suc s \<le> t \<and> t < Suc s + n\<close> by simp
    qed
  next
    case False
    then show ?thesis using that Suc.prems(3) by auto
  qed
  have n': "Suc s + n = nslots ?i" using Suc.prems(2) by simp
  have u': "?hit \<noteq> None \<longrightarrow> (\<forall>t. Suc s \<le> t \<and> t < Suc s + n \<longrightarrow> \<not> slot_is (disk ?fs) ?i name t)" unfolding mv(2) using uniq by blast
  obtain lh' where ih: "findname_loop name (int (Suc s)) n ?hit ?e sv ?fs =
      Some (case ?hit of Some h \<Rightarrow> Inr h | None \<Rightarrow> found ?d ?i name [Suc s..<Suc s + n], last_free ?d ?i [Suc s..<Suc s + n] ?e, sv, ?fs\<lparr>sfs_device := lh'\<rparr>)"
      "lhd_moved (sfs_device ?fs) lh'" "hw_sect lh' = ?d"
    using Suc.IH [of ?fs "Suc s" ?hit ?e, OF mv(1) n' u', unfolded mv(2)] by (elim exE conjE)
  have first: "hit = None" if "slot_is ?d ?i name s"
  proof (rule ccontr)
    assume "hit \<noteq> None"
    from spec [OF mp [OF Suc.prems(3) this], of s] show False using that by simp
  qed
  have int: "int s + 1 = int (Suc s)" by simp
  have "findname_loop name (int s) (Suc n) hit e sv fs = findname_loop name (int (Suc s)) n ?hit ?e sv ?fs"
    using first unfolding findname_loop.simps int rd(1)
    by (auto simp: slot_is_def slot_name_def SFS_NOINO_def SFS_NAMELEN_def)
  moreover have "(case ?hit of Some h \<Rightarrow> Inr h | None \<Rightarrow> found ?d ?i name [Suc s..<Suc s + n]) =
      (case hit of Some h \<Rightarrow> Inr h | None \<Rightarrow> found ?d ?i name [s..<s + Suc n])"
    unfolding upt using first by (cases hit) (auto simp: found_def)
  moreover have "last_free ?d ?i [s..<s + Suc n] e = last_free ?d ?i [Suc s..<Suc s + n] ?e"
    unfolding upt by (simp add: last_free_def)
  moreover have "lhd_moved (sfs_device fs) lh'" using lhd_moved_trans [OF rd(2)] ih(2) by simp
  ultimately show ?case using ih(1,3) by (intro exI [of _ lh']) simp
qed

lemma nentries_ok: "dir_wf fs (sv_i sv) \<Longrightarrow> sfs_dir_nentries sv = Some (int (nslots (sv_i sv)))"
proof -
  assume "dir_wf fs (sv_i sv)"
  note d = dir_wfD [OF this]
  have "to_off (int (sfi_size (sv_i sv))) = int (sfi_size (sv_i sv))" using d(4,5) by simp
  then show ?thesis using d(3-5) by (simp add: sfs_dir_nentries_def SFS_DIRSIZE_def)
qed

lemma findname_ok:
  assumes wf: "dir_wf fs (sv_i sv)"
  obtains lh where "sfs_dir_findname sv name fs = Some (found (disk fs) (sv_i sv) name [0..<nslots (sv_i sv)],
      last_free (disk fs) (sv_i sv) [0..<nslots (sv_i sv)] None, sv, fs\<lparr>sfs_device := lh\<rparr>)"
    and "lhd_moved (sfs_device fs) lh" and "hw_sect lh = disk fs"
proof -
  obtain lh where "findname_loop name (int 0) (nslots (sv_i sv)) None None sv fs = Some (found (disk fs) (sv_i sv) name [0..<nslots (sv_i sv)],
      last_free (disk fs) (sv_i sv) [0..<nslots (sv_i sv)] None, sv, fs\<lparr>sfs_device := lh\<rparr>)" "lhd_moved (sfs_device fs) lh" "hw_sect lh = disk fs"
    using findname_loop_ok [OF wf, of 0 "nslots (sv_i sv)" None name None] by auto
  then show ?thesis using that nentries_ok [OF wf] by (simp add: sfs_dir_findname_def)
qed

section \<open>Writing entries\<close>

lemma slot_bytes: "map (fbyte d i) [64 * s..<64 * s + 64] = bs \<longleftrightarrow> length bs = 64 \<and> (\<forall>j < 64. fbyte d i (64 * s + j) = bs ! j)"
  by (auto simp: list_eq_iff_nth_eq)

text \<open>What a directory looks like after an entry was stored in a slot.\<close>

definition stored :: "sfs_fs \<Rightarrow> sfs_vnode \<Rightarrow> sfs_dir \<Rightarrow> nat \<Rightarrow> sfs_fs \<Rightarrow> sfs_vnode \<Rightarrow> bool" where
  "stored fs sv sd s fs' sv' \<longleftrightarrow> evolves fs (sv_i sv) fs' (sv_i sv') \<and> sv_keeps sv sv' \<and>
     sfi_size (sv_i sv') = max (sfi_size (sv_i sv)) (64 * s + 64) \<and>
     (\<forall>t < 1144. slot_dir (disk fs') (sv_i sv') t = (if t = s then sd else slot_dir (disk fs) (sv_i sv) t))"

text \<open>The directory is as it was.\<close>

definition unchanged :: "sfs_fs \<Rightarrow> sfs_vnode \<Rightarrow> sfs_fs \<Rightarrow> sfs_vnode \<Rightarrow> bool" where
  "unchanged fs sv fs' sv' \<longleftrightarrow> evolves fs (sv_i sv) fs' (sv_i sv') \<and> sv_keeps sv sv' \<and> sfi_size (sv_i sv') = sfi_size (sv_i sv) \<and>
     (\<forall>t < 1144. slot_dir (disk fs') (sv_i sv') t = slot_dir (disk fs) (sv_i sv) t)"

lemma slot_kept:
  assumes "\<forall>p < 73216. fbyte d' i' p = (if 64 * s \<le> p \<and> p < 64 * s + m then b p else fbyte d i p)" and "t \<noteq> s \<or> m = 0" and "m \<le> 64" and "t < 1144"
  shows "slot_dir d' i' t = slot_dir d i t"
proof -
  have "fbyte d' i' p = fbyte d i p" if "64 * t \<le> p" "p < 64 * t + 64" for p
  proof -
    have "p < 73216" using that assms(4) by simp
    moreover have "\<not> (64 * s \<le> p \<and> p < 64 * s + m)"
    proof (cases "m = 0")
      case False
      then have "t < s \<or> s < t" using assms(2) by auto
      then show ?thesis using that assms(3) by auto
    qed simp
    ultimately show ?thesis using spec [OF assms(1), of p] by auto
  qed
  then have "map (fbyte d' i') [64 * t..<64 * t + 64] = map (fbyte d i) [64 * t..<64 * t + 64]" by (intro map_cong) auto
  then show ?thesis unfolding slot_dir_def by (rule arg_cong)
qed

lemma writedir_ok:
  assumes wf: "dir_wf fs (sv_i sv)" and s: "s \<le> nslots (sv_i sv)" and sd: "dir_ok sd"
  obtains (fits) sv' fs' where "sfs_writedir sv sd (int s) fs = Some (Inr (), sv', fs')" and "s < 1144" and "stored fs sv sd s fs' sv'"
    | (full) sv' fs' where "sfs_writedir sv sd (int s) fs = Some (Inl ENOSPC, sv', fs')" and "fs_full fs'" and "unchanged fs sv fs' sv'"
    | (big) sv' fs' where "sfs_writedir sv sd (int s) fs = Some (Inl EINVAL, sv', fs')" and "s = 1144" and "unchanged fs sv fs' sv'"
proof -
  note d = dir_wfD [OF wf]
  let ?u = "mk_kuio (enc_dir sd) 64 (int (64 * s)) UIO_WRITE"
  have len: "length (enc_dir sd) = 64" by (rule enc_lengths(3) [OF sd])
  have u: "kuio ?u" "uio_rw ?u = UIO_WRITE" "uio_resid ?u = 64" "nat (uio_offset ?u) = 64 * s" "iov_koff ?u = 0" "iov_kbuf ?u = enc_dir sd"
    using s d(5) len by (simp_all add: kuio_def mk_kuio_def)
  have sz: "sfi_size (sv_i sv) < 2 ^ 31" using d(4,5) by simp
  have "64 * s mod 512 = 64 * (s mod 8)" using mod_mult_mult1 [of 64 s 8] by simp
  moreover have "s mod 8 \<le> 7" using mod_less_divisor [of 8 s] by linarith
  ultimately have "64 * s mod 512 + 64 \<le> 512" by linarith
  then have pos: "nat (uio_offset ?u) mod 512 + uio_resid ?u \<le> 512" "0 < uio_resid ?u" "uio_resid ?u < 512" unfolding u(3,4) by simp_all
  have run: "sfs_writedir sv sd (int s) fs = do {
      (r, sv1, ku, fs1) \<leftarrow> sfs_io sv ?u fs;
      case r of Inl e \<Rightarrow> Some (Inl e, sv1, fs1) | Inr _ \<Rightarrow> kassert (uio_resid ku = 0) \<bind> (\<lambda>_. Some (Inr (), sv1, fs1)) }"
    using dir_pos_slot [of s] s d(5) by (simp add: sfs_writedir_def SFS_DIRSIZE_def Let_def)
  have old: "64 * s \<le> sfi_size (sv_i sv)" using s d(4) by simp
  show ?thesis
  proof (cases rule: sfs_io_write_all [OF d(1,2) u(1,2) sz pos, case_names all none])
    case (all sv' fs')
    note w = all(2) [unfolded write_outcome_def u(3-6)]
    have s': "s < 1144" using all(3) unfolding u(3,4) by simp
    have "fbyte (disk fs') (sv_i sv') (64 * s + j) = enc_dir sd ! j" if "j < 64" for j
      using w that s' by simp
    then have "map (fbyte (disk fs') (sv_i sv')) [64 * s..<64 * s + 64] = enc_dir sd" unfolding slot_bytes using len by simp
    then have "slot_dir (disk fs') (sv_i sv') s = sd" unfolding slot_dir_def using dec_dir_enc [OF sd] by simp
    moreover have "slot_dir (disk fs') (sv_i sv') t = slot_dir (disk fs) (sv_i sv) t" if "t < 1144" "t \<noteq> s" for t
      by (rule slot_kept [where m = 64 and s = s and b = "\<lambda>p. enc_dir sd ! (p - 64 * s)"]) (use w that in auto)
    ultimately have "stored fs sv sd s fs' sv'" unfolding stored_def using w by auto
    moreover have "sfs_writedir sv sd (int s) fs = Some (Inr (), sv', fs')" using all(1) u(3) by (simp add: run)
    ultimately show ?thesis using fits s' by blast
  next
    case (none e sv' fs')
    note w = none(2) [unfolded write_outcome_def u(3-6)]
    have "slot_dir (disk fs') (sv_i sv') t = slot_dir (disk fs) (sv_i sv) t" if "t < 1144" for t
      by (rule slot_kept [where m = 0 and s = s and b = "\<lambda>p. enc_dir sd ! (p - 64 * s)"]) (use w that in auto)
    then have "unchanged fs sv fs' sv'" unfolding unchanged_def using w old by simp
    moreover have "e = ENOSPC \<and> fs_full fs' \<or> e = EINVAL \<and> s = 1144" using w s d(5) by auto
    moreover have "sfs_writedir sv sd (int s) fs = Some (Inl e, sv', fs')" using none(1) by (simp add: run)
    ultimately show ?thesis using full big by blast
  qed
qed

section \<open>The directory as a map\<close>

lemma nslots_stored:
  assumes "dir_wf fs (sv_i sv)" and "stored fs sv sd s fs' sv'" and "s \<le> nslots (sv_i sv)"
  shows "nslots (sv_i sv') = max (nslots (sv_i sv)) (s + 1)" and "sfi_size (sv_i sv') = 64 * nslots (sv_i sv')"
proof -
  have "sfi_size (sv_i sv') = max (64 * nslots (sv_i sv)) (64 * s + 64)" using assms(2) dir_wfD(4) [OF assms(1)] by (simp add: stored_def)
  also have "\<dots> = 64 * max (nslots (sv_i sv)) (s + 1)" by (simp add: max_def)
  finally have sz: "sfi_size (sv_i sv') = 64 * max (nslots (sv_i sv)) (s + 1)" .
  then show n: "nslots (sv_i sv') = max (nslots (sv_i sv)) (s + 1)" by (simp add: nslots_def)
  show "sfi_size (sv_i sv') = 64 * nslots (sv_i sv')" unfolding n by (rule sz)
qed

lemma slot_is_stored:
  assumes "stored fs sv sd s fs' sv'" and "t < 1144"
  shows "slot_is (disk fs') (sv_i sv') nm t \<longleftrightarrow> (if t = s then sfd_ino sd \<noteq> 0 \<and> slot_name sd = nm else slot_is (disk fs) (sv_i sv) nm t)"
  using assms by (simp add: stored_def slot_is_def)

lemma dir_wf_stored:
  assumes wf: "dir_wf fs (sv_i sv)" and st: "stored fs sv sd s fs' sv'" and s: "s \<le> nslots (sv_i sv)" "s < 1144"
    and fresh: "sfd_ino sd = 0 \<or> (\<forall>t < nslots (sv_i sv). t \<noteq> s \<longrightarrow> \<not> slot_is (disk fs) (sv_i sv) (slot_name sd) t)"
  shows "dir_wf fs' (sv_i sv')"
proof -
  note d = dir_wfD [OF wf] and n = nslots_stored [OF wf st s(1)] and e = slot_is_stored [OF st]
  have ev: "fs_ok fs'" "file_ok fs' (sv_i sv')" "sfi_type (sv_i sv') = SFS_TYPE_DIR" using st d(3) by (simp_all add: stored_def evolves_def)
  have n': "nslots (sv_i sv') \<le> 1144" using n(1) s d(5) by simp
  have old: "t < nslots (sv_i sv)" if "t < nslots (sv_i sv')" "t \<noteq> s" for t using that n(1) s(1) by (auto simp: max_def split: if_splits)
  have "t = u" if t: "t < nslots (sv_i sv')" "u < nslots (sv_i sv')" and at: "slot_is (disk fs') (sv_i sv') nm t" "slot_is (disk fs') (sv_i sv') nm u" for t u nm
  proof -
    have lt: "t < 1144" "u < 1144" using t n' by auto
    show ?thesis
    proof (cases "t = s \<or> u = s")
      case True
      then show ?thesis using at fresh e [OF lt(1)] e [OF lt(2)] old t by (auto split: if_splits)
    next
      case False
      then have "slot_is (disk fs) (sv_i sv) nm t" "slot_is (disk fs) (sv_i sv) nm u" using at e [OF lt(1)] e [OF lt(2)] by auto
      then show ?thesis using d(6) [of t u nm] old t False by blast
    qed
  qed
  then show ?thesis unfolding dir_wf_def using ev n n' by simp
qed

lemma dirmap_eqI:
  assumes "dir_wf fs i" and "\<And>nm ino. m nm = Some ino \<longleftrightarrow> (\<exists>s < nslots i. slot_is (disk fs) i nm s \<and> sfd_ino (slot_dir (disk fs) i s) = ino)"
  shows "dirmap (disk fs) i = m"
proof
  fix nm
  show "dirmap (disk fs) i nm = m nm"
  proof (cases "m nm")
    case None
    then have "\<forall>s < nslots i. \<not> slot_is (disk fs) i nm s" using assms(2) [of nm] by auto
    then show ?thesis using None dirmap_None by metis
  next
    case (Some ino)
    then obtain s where "s < nslots i" "slot_is (disk fs) i nm s" "sfd_ino (slot_dir (disk fs) i s) = ino" using assms(2) [of nm ino] by blast
    then show ?thesis using dirmap_Some [OF assms(1)] Some by simp
  qed
qed

lemma dirmap_Some_iff:
  assumes "dir_wf fs i"
  shows "dirmap (disk fs) i nm = Some ino \<longleftrightarrow> (\<exists>s < nslots i. slot_is (disk fs) i nm s \<and> sfd_ino (slot_dir (disk fs) i s) = ino)"
  using dirmap_Some [OF assms] by (auto elim!: dirmap_SomeD)

text \<open>Storing an entry in a free slot, or in the slot after the last, adds it to the map.\<close>

lemma dirmap_added:
  assumes wf: "dir_wf fs (sv_i sv)" and st: "stored fs sv sd s fs' sv'" and s: "s \<le> nslots (sv_i sv)" "s < 1144"
    and free: "s < nslots (sv_i sv) \<Longrightarrow> sfd_ino (slot_dir (disk fs) (sv_i sv) s) = 0"
    and new: "dirmap (disk fs) (sv_i sv) (slot_name sd) = None" and ino: "sfd_ino sd \<noteq> 0"
  shows "dir_wf fs' (sv_i sv')" and "dirmap (disk fs') (sv_i sv') = (dirmap (disk fs) (sv_i sv))(slot_name sd \<mapsto> sfd_ino sd)"
proof -
  have none: "\<forall>t < nslots (sv_i sv). \<not> slot_is (disk fs) (sv_i sv) (slot_name sd) t" using new dirmap_None by blast
  show wf': "dir_wf fs' (sv_i sv')" by (rule dir_wf_stored [OF wf st s]) (use none in blast)
  note d = dir_wfD [OF wf] and n = nslots_stored(1) [OF wf st s(1)] and e = slot_is_stored [OF st]
  have dir: "slot_dir (disk fs') (sv_i sv') t = (if t = s then sd else slot_dir (disk fs) (sv_i sv) t)" if "t < 1144" for t
    using st that by (simp add: stored_def)
  show "dirmap (disk fs') (sv_i sv') = (dirmap (disk fs) (sv_i sv))(slot_name sd \<mapsto> sfd_ino sd)"
  proof (rule dirmap_eqI [OF wf'])
    fix nm ino'
    have "(\<exists>t < nslots (sv_i sv'). slot_is (disk fs') (sv_i sv') nm t \<and> sfd_ino (slot_dir (disk fs') (sv_i sv') t) = ino') \<longleftrightarrow>
        slot_name sd = nm \<and> sfd_ino sd = ino' \<or>
        (\<exists>t < nslots (sv_i sv). slot_is (disk fs) (sv_i sv) nm t \<and> sfd_ino (slot_dir (disk fs) (sv_i sv) t) = ino')" (is "?L \<longleftrightarrow> ?N \<or> ?O")
    proof
      assume ?L
      then obtain t where t: "t < nslots (sv_i sv')" "slot_is (disk fs') (sv_i sv') nm t" "sfd_ino (slot_dir (disk fs') (sv_i sv') t) = ino'" by blast
      then have t4: "t < 1144" using dir_wfD(5) [OF wf'] by simp
      show "?N \<or> ?O"
      proof (cases "t = s")
        case True
        then show ?thesis using t(2,3) e [OF t4, of nm] dir [OF t4] by simp
      next
        case False
        then have "t < nslots (sv_i sv)" using t(1) n s(1) by (auto simp: max_def split: if_splits)
        then show ?thesis using False t(2,3) e [OF t4, of nm] dir [OF t4] by auto
      qed
    next
      assume "?N \<or> ?O"
      then show ?L
      proof
        assume ?N
        moreover have "s < nslots (sv_i sv')" unfolding n by simp
        ultimately show ?L using e [OF s(2), of nm] dir [OF s(2)] ino by (intro exI [of _ s]) simp
      next
        assume ?O
        then obtain t where t: "t < nslots (sv_i sv)" "slot_is (disk fs) (sv_i sv) nm t" "sfd_ino (slot_dir (disk fs) (sv_i sv) t) = ino'" by blast
        have "t \<noteq> s" using t(1,2) free by (auto simp: slot_is_def)
        moreover have "t < 1144" using t(1) d(5) by simp
        moreover have "t < nslots (sv_i sv')" using t(1) unfolding n by simp
        ultimately show ?L using t(2,3) e [of t nm] dir [of t] by (intro exI [of _ t]) simp
      qed
    qed
    moreover have "slot_name sd = nm \<Longrightarrow> dirmap (disk fs) (sv_i sv) nm = None" using new by simp
    ultimately show "((dirmap (disk fs) (sv_i sv))(slot_name sd \<mapsto> sfd_ino sd)) nm = Some ino' \<longleftrightarrow>
        (\<exists>t < nslots (sv_i sv'). slot_is (disk fs') (sv_i sv') nm t \<and> sfd_ino (slot_dir (disk fs') (sv_i sv') t) = ino')"
      using dirmap_Some_iff [OF wf, of nm ino'] by auto
  qed
qed

text \<open>Clearing the slot of a name removes the name from the map.\<close>

lemma dirmap_removed:
  assumes wf: "dir_wf fs (sv_i sv)" and st: "stored fs sv sd s fs' sv'" and s: "s < nslots (sv_i sv)"
    and at: "slot_is (disk fs) (sv_i sv) name s" and ino: "sfd_ino sd = 0"
  shows "dir_wf fs' (sv_i sv')" and "dirmap (disk fs') (sv_i sv') = (dirmap (disk fs) (sv_i sv))(name := None)"
proof -
  note d = dir_wfD [OF wf]
  have s': "s \<le> nslots (sv_i sv)" "s < 1144" using s d(5) by auto
  show wf': "dir_wf fs' (sv_i sv')" by (rule dir_wf_stored [OF wf st s']) (use ino in blast)
  have n: "nslots (sv_i sv') = nslots (sv_i sv)" using nslots_stored(1) [OF wf st s'(1)] s by simp
  note e = slot_is_stored [OF st]
  have dir: "slot_dir (disk fs') (sv_i sv') t = (if t = s then sd else slot_dir (disk fs) (sv_i sv) t)" if "t < 1144" for t
    using st that by (simp add: stored_def)
  show "dirmap (disk fs') (sv_i sv') = (dirmap (disk fs) (sv_i sv))(name := None)"
  proof (rule dirmap_eqI [OF wf'])
    fix nm ino'
    have "slot_is (disk fs') (sv_i sv') nm t \<and> sfd_ino (slot_dir (disk fs') (sv_i sv') t) = ino' \<longleftrightarrow>
        nm \<noteq> name \<and> slot_is (disk fs) (sv_i sv) nm t \<and> sfd_ino (slot_dir (disk fs) (sv_i sv) t) = ino'" if t: "t < nslots (sv_i sv)" for t
    proof (cases "t = s")
      case True
      then show ?thesis using e [OF s'(2), of nm] ino at by (auto simp: slot_is_def)
    next
      case False
      have "t < 1144" using t d(5) by simp
      then show ?thesis using False e [of t nm] dir [of t] d(6) [OF t s, of name] at by auto
    qed
    then show "((dirmap (disk fs) (sv_i sv))(name := None)) nm = Some ino' \<longleftrightarrow>
        (\<exists>t < nslots (sv_i sv'). slot_is (disk fs') (sv_i sv') nm t \<and> sfd_ino (slot_dir (disk fs') (sv_i sv') t) = ino')"
      unfolding n using dirmap_Some_iff [OF wf, of nm ino'] by auto
  qed
qed

lemma stored_after_moved:
  assumes "stored (fs\<lparr>sfs_device := lh\<rparr>) sv sd s fs' sv'" and "lhd_moved (sfs_device fs) lh" and "hw_sect lh = disk fs"
  shows "stored fs sv sd s fs' sv'"
proof -
  have d: "disk (fs\<lparr>sfs_device := lh\<rparr>) = disk fs" using assms(3) by (simp add: disk_def)
  have "keeps (fs\<lparr>sfs_device := lh\<rparr>) fs' \<Longrightarrow> keeps fs fs'" by (rule keeps_trans [OF keeps_moved [OF assms(2)]])
  then show ?thesis using assms(1) d by (simp add: stored_def evolves_def fs_used_def)
qed

lemma unchanged_after_moved:
  assumes "unchanged (fs\<lparr>sfs_device := lh\<rparr>) sv fs' sv'" and "lhd_moved (sfs_device fs) lh" and "hw_sect lh = disk fs"
  shows "unchanged fs sv fs' sv'"
proof -
  have d: "disk (fs\<lparr>sfs_device := lh\<rparr>) = disk fs" using assms(3) by (simp add: disk_def)
  have "keeps (fs\<lparr>sfs_device := lh\<rparr>) fs' \<Longrightarrow> keeps fs fs'" by (rule keeps_trans [OF keeps_moved [OF assms(2)]])
  then show ?thesis using assms(1) d by (simp add: unchanged_def evolves_def fs_used_def)
qed

lemma unchanged_moved:
  assumes "dir_wf fs (sv_i sv)" and "lhd_moved (sfs_device fs) lh" and "hw_sect lh = disk fs"
  shows "unchanged fs sv (fs\<lparr>sfs_device := lh\<rparr>) sv"
  using evolves_moved [OF dir_wfD(1,2) [OF assms(1)] assms(2,3)] assms(3)
  by (simp add: unchanged_def sv_keeps_def disk_def)

lemma unchanged_wf:
  assumes "dir_wf fs (sv_i sv)" and "unchanged fs sv fs' sv'"
  shows "dir_wf fs' (sv_i sv')" and "dirmap (disk fs') (sv_i sv') = dirmap (disk fs) (sv_i sv)"
proof -
  have n: "nslots (sv_i sv') = nslots (sv_i sv)" using assms(2) by (simp add: unchanged_def nslots_def)
  have b: "nslots (sv_i sv) \<le> 1144" using dir_wfD(5) [OF assms(1)] .
  have e: "slot_dir (disk fs') (sv_i sv') t = slot_dir (disk fs) (sv_i sv) t" if "t < nslots (sv_i sv)" for t
    using assms(2) that b by (simp add: unchanged_def)
  show wf': "dir_wf fs' (sv_i sv')"
    using assms e unfolding dir_wf_def n by (simp add: unchanged_def evolves_def slot_is_def)
  show "dirmap (disk fs') (sv_i sv') = dirmap (disk fs) (sv_i sv)"
    by (rule dirmap_eqI [OF wf']) (use dirmap_Some_iff [OF assms(1)] e n in \<open>auto simp: slot_is_def\<close>)
qed

lemma found_map:
  assumes wf: "dir_wf fs i"
  shows "found (disk fs) i name [0..<nslots i] = (case dirmap (disk fs) i name of None \<Rightarrow> Inl ENOENT
      | Some ino \<Rightarrow> Inr (ino, int (the (find (slot_is (disk fs) i name) [0..<nslots i]))))"
  by (auto simp: found_def dirmap_def split: option.split)

lemma entry_name:
  assumes "length name \<le> 59" and "0 \<notin> set name"
  shows "slot_name \<lparr>sfd_ino = ino, sfd_name = name @ replicate (SFS_NAMELEN - length name) 0\<rparr> = name"
    and "ino < 2 ^ 32 \<Longrightarrow> dir_ok \<lparr>sfd_ino = ino, sfd_name = name @ replicate (SFS_NAMELEN - length name) 0\<rparr>"
proof -
  have "(name @ replicate (60 - length name) 0)[59 := 0] = name @ replicate (60 - length name) 0"
    using assms(1) by (auto simp: list_eq_iff_nth_eq nth_list_update nth_append)
  moreover have "replicate (60 - length name) (0 :: byte) = 0 # replicate (59 - length name) 0"
    using assms(1) by (simp add: Suc_diff_le flip: replicate_Suc)
  moreover have "takeWhile (\<lambda>b. b \<noteq> 0) (name @ 0 # xs) = name" for xs
    using assms(2) by (induction name) auto
  ultimately show "slot_name \<lparr>sfd_ino = ino, sfd_name = name @ replicate (SFS_NAMELEN - length name) 0\<rparr> = name"
    by (simp add: slot_name_def cstr_def SFS_NAMELEN_def)
  show "ino < 2 ^ 32 \<Longrightarrow> dir_ok \<lparr>sfd_ino = ino, sfd_name = name @ replicate (SFS_NAMELEN - length name) 0\<rparr>"
    using assms(1) by (simp add: dir_ok_def SFS_NAMELEN_def)
qed

section \<open>Properties\<close>

lemma link_free_slot:
  assumes wf: "dir_wf fs i"
  obtains s where "(case last_free (disk fs) i [0..<nslots i] None of Some x \<Rightarrow> Some x | None \<Rightarrow> Some (int (nslots i))) = Some (int s)"
    and "s \<le> nslots i" and "s < nslots i \<longrightarrow> sfd_ino (slot_dir (disk fs) i s) = 0"
  using last_free_cases [of "disk fs" i "[0..<nslots i]" None] that [of "nslots i"] that by fastforce

lemma link_new:
  assumes wf: "dir_wf fs (sv_i sv)" and name: "0 \<notin> set name" "length name \<le> 59" and ino: "0 < ino" "ino < 2 ^ 32"
    and new: "dirmap (disk fs) (sv_i sv) name = None"
  obtains r sv' fs' where "sfs_dir_link sv name ino fs = Some (r, sv', fs')" and "dir_wf fs' (sv_i sv')" and "sv_keeps sv sv'"
    and "(r = Inl ENOSPC \<and> fs_full fs' \<or> r = Inl EINVAL \<and> nslots (sv_i sv) = 1144) \<and> unchanged fs sv fs' sv' \<or>
      (\<exists>s. r = Inr s \<and> evolves fs (sv_i sv) fs' (sv_i sv') \<and> dirmap (disk fs') (sv_i sv') = (dirmap (disk fs) (sv_i sv))(name \<mapsto> ino))"
proof -
  let ?sd = "\<lparr>sfd_ino = ino, sfd_name = name @ replicate (SFS_NAMELEN - length name) 0\<rparr>"
  note en = entry_name [OF name(2,1), of ino]
  obtain lh where fn: "sfs_dir_findname sv name fs = Some (found (disk fs) (sv_i sv) name [0..<nslots (sv_i sv)],
      last_free (disk fs) (sv_i sv) [0..<nslots (sv_i sv)] None, sv, fs\<lparr>sfs_device := lh\<rparr>)"
      "lhd_moved (sfs_device fs) lh" "hw_sect lh = disk fs"
    by (rule findname_ok [OF wf])
  let ?fs = "fs\<lparr>sfs_device := lh\<rparr>"
  note mv = dir_wf_moved [OF wf fn(2,3)]
  have f: "found (disk fs) (sv_i sv) name [0..<nslots (sv_i sv)] = Inl ENOENT" using found_map [OF wf] new by simp
  obtain s where s: "(case last_free (disk fs) (sv_i sv) [0..<nslots (sv_i sv)] None of Some x \<Rightarrow> Some x | None \<Rightarrow> Some (int (nslots (sv_i sv)))) = Some (int s)"
      "s \<le> nslots (sv_i sv)" "s < nslots (sv_i sv) \<longrightarrow> sfd_ino (slot_dir (disk fs) (sv_i sv) s) = 0"
    by (rule link_free_slot [OF wf])
  have s1: "(case last_free (disk fs) (sv_i sv) [0..<nslots (sv_i sv)] None of Some x \<Rightarrow> Some x | None \<Rightarrow> sfs_dir_nentries sv) = Some (int s)"
    unfolding nentries_ok [OF wf] by (rule s(1))
  have run: "sfs_dir_link sv name ino fs = do { (r, sv2, fs2) \<leftarrow> sfs_writedir sv ?sd (int s) ?fs; Some (map_sum id (\<lambda>_. int s) r, sv2, fs2) }"
    using fn(1) f s1 name(2) by (simp add: sfs_dir_link_def SFS_NAMELEN_def Let_def)
  have ok: "dir_ok ?sd" by (rule en(2) [OF ino(2)])
  have b1144: "s = 1144 \<Longrightarrow> nslots (sv_i sv) = 1144" using s(2) dir_wfD(5) [OF wf] by simp
  show ?thesis
  proof (cases rule: writedir_ok [OF mv(1) s(2) ok, case_names fits full big])
    case (fits sv' fs')
    have st: "stored fs sv ?sd s fs' sv'" by (rule stored_after_moved [OF fits(3) fn(2,3)])
    have new': "dirmap (disk fs) (sv_i sv) (slot_name ?sd) = None" using new en(1) by simp
    have "sfd_ino ?sd \<noteq> 0" using ino(1) by simp
    note a = dirmap_added [OF wf st s(2) fits(2) mp [OF s(3)] new' this, unfolded en(1)]
    show ?thesis by (rule that [of "Inr (int s)" sv' fs']) (use a fits(1) run st in \<open>auto simp: stored_def\<close>)
  next
    case (full sv' fs')
    note un = unchanged_after_moved [OF full(3) fn(2,3)]
    show ?thesis by (rule that [of "Inl ENOSPC" sv' fs']) (use unchanged_wf [OF wf un] un full run in \<open>auto simp: unchanged_def\<close>)
  next
    case (big sv' fs')
    note un = unchanged_after_moved [OF big(3) fn(2,3)]
    show ?thesis by (rule that [of "Inl EINVAL" sv' fs']) (use unchanged_wf [OF wf un] un big run b1144 in \<open>auto simp: unchanged_def\<close>)
  qed
qed

text \<open>
  C13. Linking a name. A directory stands for a finite map from names to inode numbers.
  \<open>sfs_dir_link\<close> on a well-formed directory always returns and leaves it well-formed. It reports
  \<open>EEXIST\<close> exactly when the map has the name and \<open>ENAMETOOLONG\<close> when a new name does not fit into
  an entry; otherwise it adds the name to the map, or reports \<open>ENOSPC\<close> on a full disk or \<open>EINVAL\<close>
  on a directory of the largest size. On every error the map is as it was.
\<close>

theorem sfs_dir_link_correct:
  assumes "dir_wf fs (sv_i sv)" and "0 \<notin> set name" and "0 < ino" and "ino < 2 ^ 32"
  shows "\<exists>r sv' fs'. sfs_dir_link sv name ino fs = Some (r, sv', fs') \<and> dir_wf fs' (sv_i sv') \<and>
    (case dirmap (disk fs) (sv_i sv) name of
       Some _ \<Rightarrow> r = Inl EEXIST \<and> dirmap (disk fs') (sv_i sv') = dirmap (disk fs) (sv_i sv)
     | None \<Rightarrow>
         if length name \<ge> 60 then r = Inl ENAMETOOLONG \<and> dirmap (disk fs') (sv_i sv') = dirmap (disk fs) (sv_i sv)
         else (\<exists>s. r = Inr s) \<and> dirmap (disk fs') (sv_i sv') = (dirmap (disk fs) (sv_i sv))(name \<mapsto> ino) \<or>
           (r = Inl ENOSPC \<and> fs_full fs' \<or> r = Inl EINVAL \<and> nslots (sv_i sv) = 1144) \<and>
           dirmap (disk fs') (sv_i sv') = dirmap (disk fs) (sv_i sv))"
proof (cases "dirmap (disk fs) (sv_i sv) name = None \<and> length name < 60")
  case True
  then have l59: "length name \<le> 59" and new: "dirmap (disk fs) (sv_i sv) name = None" by simp_all
  obtain r sv' fs' where r: "sfs_dir_link sv name ino fs = Some (r, sv', fs')" "dir_wf fs' (sv_i sv')"
    "(r = Inl ENOSPC \<and> fs_full fs' \<or> r = Inl EINVAL \<and> nslots (sv_i sv) = 1144) \<and> unchanged fs sv fs' sv' \<or>
      (\<exists>s. r = Inr s \<and> evolves fs (sv_i sv) fs' (sv_i sv') \<and> dirmap (disk fs') (sv_i sv') = (dirmap (disk fs) (sv_i sv))(name \<mapsto> ino))"
    by (rule link_new [OF assms(1,2) l59 assms(3,4) new])
  then show ?thesis using True unchanged_wf(2) [OF assms(1), of fs' sv'] by (intro exI [of _ r] exI [of _ sv'] exI [of _ fs']) auto
next
  case False
  obtain lh where fn: "sfs_dir_findname sv name fs = Some (found (disk fs) (sv_i sv) name [0..<nslots (sv_i sv)],
      last_free (disk fs) (sv_i sv) [0..<nslots (sv_i sv)] None, sv, fs\<lparr>sfs_device := lh\<rparr>)"
      "lhd_moved (sfs_device fs) lh" "hw_sect lh = disk fs"
    by (rule findname_ok [OF assms(1)])
  let ?r = "if dirmap (disk fs) (sv_i sv) name = None then Inl ENAMETOOLONG else Inl EEXIST"
  have "sfs_dir_link sv name ino fs = Some (?r, sv, fs\<lparr>sfs_device := lh\<rparr>)"
    using fn(1) found_map [OF assms(1), of name] False by (auto simp: sfs_dir_link_def SFS_NAMELEN_def split: option.splits)
  then show ?thesis using False dir_wf_moved [OF assms(1) fn(2,3)]
    by (intro exI [of _ ?r] exI [of _ sv] exI [of _ "fs\<lparr>sfs_device := lh\<rparr>"]) (auto split: option.splits)
qed

text \<open>
  C14. Finding and unlinking a name. The search always returns and changes nothing on disk. It
  reports \<open>ENOENT\<close> exactly when the map has no such name; otherwise it returns the inode number
  the map has for it and a slot, and clearing that slot removes exactly this name from the map,
  unless the block is a hole and the disk is full.
\<close>

theorem sfs_dir_unlink_correct:
  assumes "dir_wf fs (sv_i sv)"
  shows "\<exists>r e fs1. sfs_dir_findname sv name fs = Some (r, e, sv, fs1) \<and> disk fs1 = disk fs \<and>
    (case dirmap (disk fs) (sv_i sv) name of None \<Rightarrow> r = Inl ENOENT
     | Some ino \<Rightarrow> (\<exists>slot q sv' fs'. r = Inr (ino, slot) \<and> sfs_dir_unlink sv slot fs1 = Some (q, sv', fs') \<and> dir_wf fs' (sv_i sv') \<and>
         (q = Inr () \<and> dirmap (disk fs') (sv_i sv') = (dirmap (disk fs) (sv_i sv))(name := None) \<or>
          q = Inl ENOSPC \<and> fs_full fs' \<and> dirmap (disk fs') (sv_i sv') = dirmap (disk fs) (sv_i sv))))"
proof -
  obtain lh where fn: "sfs_dir_findname sv name fs = Some (found (disk fs) (sv_i sv) name [0..<nslots (sv_i sv)],
      last_free (disk fs) (sv_i sv) [0..<nslots (sv_i sv)] None, sv, fs\<lparr>sfs_device := lh\<rparr>)"
      "lhd_moved (sfs_device fs) lh" "hw_sect lh = disk fs"
    by (rule findname_ok [OF assms])
  let ?fs = "fs\<lparr>sfs_device := lh\<rparr>"
  note mv = dir_wf_moved [OF assms fn(2,3)]
  show ?thesis
  proof (cases "dirmap (disk fs) (sv_i sv) name")
    case None
    then show ?thesis using fn(1) mv(2) found_map [OF assms, of name] by simp
  next
    case (Some ino)
    then obtain s where s: "s < nslots (sv_i sv)" "slot_is (disk fs) (sv_i sv) name s" "ino = sfd_ino (slot_dir (disk fs) (sv_i sv) s)"
      by (rule dirmap_SomeD)
    have "find (slot_is (disk fs) (sv_i sv) name) [0..<nslots (sv_i sv)] = Some s"
      by (rule find_unique) (use s dir_wfD(6) [OF assms] in auto)
    then have r: "found (disk fs) (sv_i sv) name [0..<nslots (sv_i sv)] = Inr (ino, int s)" using s(3) by (simp add: found_def)
    let ?sd = "\<lparr>sfd_ino = SFS_NOINO, sfd_name = replicate SFS_NAMELEN 0\<rparr>"
    have sd: "dir_ok ?sd" by (simp add: dir_ok_def SFS_NOINO_def SFS_NAMELEN_def)
    have "\<exists>q sv' fs'. sfs_dir_unlink sv (int s) ?fs = Some (q, sv', fs') \<and> dir_wf fs' (sv_i sv') \<and>
         (q = Inr () \<and> dirmap (disk fs') (sv_i sv') = (dirmap (disk fs) (sv_i sv))(name := None) \<or>
          q = Inl ENOSPC \<and> fs_full fs' \<and> dirmap (disk fs') (sv_i sv') = dirmap (disk fs) (sv_i sv))"
    proof (cases rule: writedir_ok [OF mv(1) less_imp_le [OF s(1)] sd, case_names fits full big])
      case (fits sv' fs')
      have st: "stored fs sv ?sd s fs' sv'" by (rule stored_after_moved [OF fits(3) fn(2,3)])
      have "sfd_ino ?sd = 0" by (simp add: SFS_NOINO_def)
      note a = dirmap_removed [OF assms st s(1,2) this]
      show ?thesis using a fits(1) by (auto simp: sfs_dir_unlink_def)
    next
      case (full sv' fs')
      note un = unchanged_after_moved [OF full(3) fn(2,3)]
      show ?thesis using unchanged_wf [OF assms un] full by (auto simp: sfs_dir_unlink_def)
    next
      case (big sv' fs')
      then show ?thesis using s(1) dir_wfD(5) [OF assms] by simp
    qed
    then show ?thesis using fn(1) mv(2) r Some by auto
  qed
qed

text \<open>An empty directory on the small volume.\<close>

definition small_dir :: sfs_vnode where
  "small_dir = small_sv\<lparr>sv_i := (sv_i small_sv)\<lparr>sfi_type := SFS_TYPE_DIR\<rparr>, sv_ino := SFS_ROOT_LOCATION\<rparr>"

lemma small_dir_wf: "dir_wf small_fs (sv_i small_dir)"
proof -
  have "claimed d (sv_i small_dir) = []" for d
    by (simp add: claimed_def ents_def ids_def small_dir_def small_sv_def)
  then have "file_ok small_fs (sv_i small_dir)"
    by (simp add: file_ok_def) (simp add: inode_ok_def small_dir_def small_sv_def SFS_TYPE_DIR_def)
  then show ?thesis using small_fs_ok by (simp add: dir_wf_def nslots_def) (simp add: small_dir_def small_sv_def)
qed

theorem sfs_dir_link_correct_witness:
  "\<exists>r sv' fs'. sfs_dir_link small_dir [97] 5 small_fs = Some (r, sv', fs') \<and> dir_wf fs' (sv_i sv') \<and>
    (case dirmap (disk small_fs) (sv_i small_dir) [97] of
       Some _ \<Rightarrow> r = Inl EEXIST \<and> dirmap (disk fs') (sv_i sv') = dirmap (disk small_fs) (sv_i small_dir)
     | None \<Rightarrow>
         if length [97 :: byte] \<ge> 60 then r = Inl ENAMETOOLONG \<and> dirmap (disk fs') (sv_i sv') = dirmap (disk small_fs) (sv_i small_dir)
         else (\<exists>s. r = Inr s) \<and> dirmap (disk fs') (sv_i sv') = (dirmap (disk small_fs) (sv_i small_dir))([97] \<mapsto> 5) \<or>
           (r = Inl ENOSPC \<and> fs_full fs' \<or> r = Inl EINVAL \<and> nslots (sv_i small_dir) = 1144) \<and>
           dirmap (disk fs') (sv_i sv') = dirmap (disk small_fs) (sv_i small_dir))"
  by (rule sfs_dir_link_correct [OF small_dir_wf]) simp_all

text \<open>A directory with one entry, \<open>a\<close>, in block 2 of the small volume.\<close>

definition one_dir :: sfs_vnode where
  "one_dir = small_dir\<lparr>sv_i := (sv_i small_dir)\<lparr>sfi_size := 64, sfi_direct := 2 # replicate 14 0\<rparr>\<rparr>"

definition one_block :: "byte list" where
  "one_block = enc_dir \<lparr>sfd_ino = 5, sfd_name = 97 # replicate 59 0\<rparr> @ replicate 448 0"

definition one_fs :: sfs_fs where
  "one_fs = small_fs\<lparr>sfs_device := (sfs_device small_fs)\<lparr>hw_sect := (hw_sect (sfs_device small_fs))(2 := one_block)\<rparr>\<rparr>"

lemma one_length: "length one_block = 512"
  by (simp add: one_block_def enc_dir_def be32_def)

lemma one_slot: "slot_dir (disk one_fs) (sv_i one_dir) 0 = \<lparr>sfd_ino = 5, sfd_name = 97 # replicate 59 0\<rparr>"
proof -
  have "map (fbyte (disk one_fs) (sv_i one_dir)) [0..<64] = take 64 one_block"
    by (rule nth_equalityI) (simp_all add: fbyte_def fblock_def ents_def one_dir_def one_fs_def disk_def one_length)
  also have "\<dots> = enc_dir \<lparr>sfd_ino = 5, sfd_name = 97 # replicate 59 0\<rparr>" by (simp add: one_block_def enc_dir_def be32_def)
  finally show ?thesis by (simp add: slot_dir_def dec_dir_enc dir_ok_def)
qed

lemma one_dir_wf: "dir_wf one_fs (sv_i one_dir)"
proof -
  have fs: "fs_ok one_fs" using small_fs_ok one_length by (simp add: fs_ok_def healthy_def lhd_ok_def fault_free_def one_fs_def fs_used_def)
  have c: "claimed d (sv_i one_dir) = [2]" for d
    by (simp add: claimed_def ents_def ids_def one_dir_def small_dir_def small_sv_def)
  have "2 \<in> fs_used one_fs" "sp_nblocks (sfs_super one_fs) = 100"
    by (simp_all add: one_fs_def small_fs_def some_disk_def fs_used_def bitmap_used_def bitmap_bit_def bit_simps)
  then have "file_ok one_fs (sv_i one_dir)"
    by (simp add: file_ok_def c) (simp add: inode_ok_def one_dir_def small_dir_def small_sv_def SFS_TYPE_DIR_def)
  moreover have "sfi_size (sv_i one_dir) = 64" "sfi_type (sv_i one_dir) = SFS_TYPE_DIR" by (simp_all add: one_dir_def small_dir_def)
  ultimately show ?thesis using fs by (simp add: dir_wf_def nslots_def)
qed

theorem sfs_dir_unlink_correct_witness:
  "\<exists>e fs1 slot q sv' fs'. sfs_dir_findname one_dir [97] one_fs = Some (Inr (5, slot), e, one_dir, fs1) \<and>
     sfs_dir_unlink one_dir slot fs1 = Some (q, sv', fs') \<and> dir_wf fs' (sv_i sv') \<and>
     (q = Inr () \<and> dirmap (disk fs') (sv_i sv') [97] = None \<or> q = Inl ENOSPC \<and> fs_full fs' \<and> dirmap (disk fs') (sv_i sv') [97] = Some 5)"
proof -
  have n: "nslots (sv_i one_dir) = 1" by (simp add: nslots_def one_dir_def)
  have "(replicate 59 (0 :: byte))[58 := 0] = 0 # replicate 58 0" by (simp add: numeral_eq_Suc)
  then have "dirmap (disk one_fs) (sv_i one_dir) [97] = Some 5"
    by (simp add: dirmap_def n slot_is_def one_slot slot_name_def cstr_def)
  then show ?thesis using sfs_dir_unlink_correct [OF one_dir_wf, of "[97]"] by fastforce
qed

end
