(* ===== verification/SfsVnode.thy ===== *)
theory SfsVnode
  imports SfsTruncate SfsDir
begin

unbundle bit_operations_syntax

text \<open>
  Vnodes: the reference and open counts of \<open>kern/fs/vfs/vnode.c\<close>, and the vnode operations, the
  vnode table and the function tables of \<open>kern/fs/sfs/sfs_vnode.c\<close>.

  A vnode is named by the address of its \<open>struct sfs_vnode\<close>; \<open>sfs_mem\<close> holds the structures that
  are in memory and \<open>sfs_vnodes\<close> is the array of the loaded ones. What \<open>kmalloc\<close> and
  \<open>lock_create\<close> return to \<open>sfs_loadvnode\<close> is an argument. \<open>vn_countlock\<close> is held around single
  updates of a count, during which the thread does not sleep, so these are steps here. Warnings
  that are only printed are left out. A vnode made by \<open>sfs_loadvnode\<close> gets the table that belongs
  to the type in its inode, and this type never changes, so \<open>vn_ops\<close> is computed from it.
\<close>

section \<open>Counts\<close>

definition put_sv :: "nat \<Rightarrow> sfs_vnode \<Rightarrow> sfs_fs \<Rightarrow> sfs_fs" where
  "put_sv v sv fs = fs\<lparr>sfs_mem := (sfs_mem fs)(v \<mapsto> sv)\<rparr>"

definition on_sv :: "nat \<Rightarrow> (sfs_vnode \<Rightarrow> sfs_fs \<Rightarrow> ('a \<times> sfs_vnode \<times> sfs_fs) option) \<Rightarrow> sfs_fs \<Rightarrow> ('a \<times> sfs_fs) option" where
  "on_sv v f fs = do {
     sv \<leftarrow> sfs_mem fs v;
     (r, sv1, fs1) \<leftarrow> f sv fs;
     Some (r, put_sv v sv1 fs1)
   }"

definition vnode_init :: "bool \<Rightarrow> sfs_vnode \<Rightarrow> sfs_vnode kres" where
  "vnode_init lk sv = (let sv1 = sv\<lparr>vn_refcount := 1, vn_opencount := 0\<rparr> in if lk then Inr sv1 else Inl ENOMEM)"

definition vnode_kill :: "sfs_vnode \<Rightarrow> sfs_vnode option" where
  "vnode_kill sv = do {
     kassert (vn_refcount sv = 1);
     kassert (vn_opencount sv = 0);
     Some (sv\<lparr>vn_refcount := 0, vn_opencount := 0\<rparr>)
   }"

definition vnode_incref :: "nat \<Rightarrow> sfs_fs \<Rightarrow> sfs_fs option" where
  "vnode_incref v fs = do {
     sv \<leftarrow> sfs_mem fs v;
     n \<leftarrow> c_int (vn_refcount sv + 1);
     Some (put_sv v (sv\<lparr>vn_refcount := n\<rparr>) fs)
   }"

definition vnode_incopen :: "nat \<Rightarrow> sfs_fs \<Rightarrow> sfs_fs option" where
  "vnode_incopen v fs = do {
     sv \<leftarrow> sfs_mem fs v;
     n \<leftarrow> c_int (vn_opencount sv + 1);
     Some (put_sv v (sv\<lparr>vn_opencount := n\<rparr>) fs)
   }"

definition vnode_check :: "nat \<Rightarrow> string \<Rightarrow> sfs_fs \<Rightarrow> unit option" where
  "vnode_check v opstr fs = do {
     kassert (v \<noteq> 0);
     kassert (v \<noteq> 0xdeadbeef);
     sv \<leftarrow> sfs_mem fs v;
     kassert (vn_refcount sv \<ge> 0);
     kassert (\<not> (vn_refcount sv = 0 \<and> opstr \<noteq> ''reclaim''));
     kassert (vn_opencount sv \<ge> 0)
   }"

section \<open>Simple operations\<close>

definition O_RDONLY :: int where "O_RDONLY = 0"
definition O_WRONLY :: int where "O_WRONLY = 1"
definition O_RDWR :: int where "O_RDWR = 2"
definition O_APPEND :: int where "O_APPEND = 32"
definition O_ACCMODE :: int where "O_ACCMODE = 3"
definition S_IFREG :: nat where "S_IFREG = 0x1000"
definition S_IFDIR :: nat where "S_IFDIR = 0x2000"

record stat =
  st_mode :: nat
  st_nlink :: nat
  st_size :: int
  st_blocks :: nat

definition sfs_open :: "nat \<Rightarrow> int \<Rightarrow> sfs_fs \<Rightarrow> (unit kres \<times> sfs_fs) option" where
  "sfs_open v openflags fs = (if openflags AND O_APPEND \<noteq> 0 then Some (Inl EUNIMP, fs) else Some (Inr (), fs))"

definition sfs_opendir :: "nat \<Rightarrow> int \<Rightarrow> sfs_fs \<Rightarrow> (unit kres \<times> sfs_fs) option" where
  "sfs_opendir v openflags fs =
     (if openflags AND O_ACCMODE \<noteq> O_RDONLY then Some (Inl EISDIR, fs)
      else if openflags AND O_APPEND \<noteq> 0 then Some (Inl EISDIR, fs)
      else Some (Inr (), fs))"

definition sfs_fsync :: "nat \<Rightarrow> sfs_fs \<Rightarrow> (unit kres \<times> sfs_fs) option" where
  "sfs_fsync v fs = on_sv v sfs_sync_inode fs"

text \<open>Both function tables have \<open>sfs_fsync\<close>, \<open>sfs_gettype\<close>, \<open>sfs_close\<close> and \<open>sfs_reclaim\<close> in their slots.\<close>

definition sfs_close :: "nat \<Rightarrow> sfs_fs \<Rightarrow> (unit kres \<times> sfs_fs) option" where
  "sfs_close v fs = do { vnode_check v ''fsync'' fs; sfs_fsync v fs }"

definition vnode_decopen :: "nat \<Rightarrow> sfs_fs \<Rightarrow> sfs_fs option" where
  "vnode_decopen v fs = do {
     sv \<leftarrow> sfs_mem fs v;
     kassert (vn_opencount sv > 0);
     let opencount = vn_opencount sv - 1;
     let fs1 = put_sv v (sv\<lparr>vn_opencount := opencount\<rparr>) fs;
     if opencount > 0 then Some fs1
     else do {
       vnode_check v ''close'' fs1;
       (r, fs2) \<leftarrow> sfs_close v fs1;
       Some fs2
     }
   }"

definition sfs_ioctl :: "nat \<Rightarrow> int \<Rightarrow> nat \<Rightarrow> sfs_fs \<Rightarrow> (unit kres \<times> sfs_fs) option" where
  "sfs_ioctl v oper data fs = Some (Inl EINVAL, fs)"

definition sfs_gettype :: "nat \<Rightarrow> sfs_fs \<Rightarrow> (nat kres \<times> sfs_fs) option" where
  "sfs_gettype v fs = do {
     sv \<leftarrow> sfs_mem fs v;
     if sfi_type (sv_i sv) = SFS_TYPE_FILE then Some (Inr S_IFREG, fs)
     else if sfi_type (sv_i sv) = SFS_TYPE_DIR then Some (Inr S_IFDIR, fs)
     else None
   }"

definition sfs_stat :: "nat \<Rightarrow> sfs_fs \<Rightarrow> (stat kres \<times> sfs_fs) option" where
  "sfs_stat v fs = do {
     vnode_check v ''gettype'' fs;
     (r, fs1) \<leftarrow> sfs_gettype v fs;
     case r of Inl e \<Rightarrow> Some (Inl e, fs1)
     | Inr mode \<Rightarrow> do {
         sv \<leftarrow> sfs_mem fs1 v;
         Some (Inr \<lparr>st_mode = mode, st_nlink = 0, st_size = to_off (int (sfi_size (sv_i sv))), st_blocks = 0\<rparr>, fs1)
       }
   }"

definition sfs_tryseek :: "nat \<Rightarrow> int \<Rightarrow> sfs_fs \<Rightarrow> (unit kres \<times> sfs_fs) option" where
  "sfs_tryseek v pos fs = (if pos < 0 then Some (Inl EINVAL, fs) else Some (Inr (), fs))"

definition sfs_mmap :: "nat \<Rightarrow> sfs_fs \<Rightarrow> (unit kres \<times> sfs_fs) option" where
  "sfs_mmap v fs = Some (Inl EUNIMP, fs)"

definition sfs_namefile :: "nat \<Rightarrow> uio \<Rightarrow> sfs_fs \<Rightarrow> (unit kres \<times> uio \<times> sfs_fs) option" where
  "sfs_namefile v u fs = do {
     sv \<leftarrow> sfs_mem fs v;
     kassert (sv_ino sv = SFS_ROOT_LOCATION);
     Some (Inr (), u, fs)
   }"

definition sfs_notdir :: "sfs_fs \<Rightarrow> ('a kres \<times> sfs_fs) option" where "sfs_notdir fs = Some (Inl ENOTDIR, fs)"
definition sfs_isdir :: "sfs_fs \<Rightarrow> ('a kres \<times> sfs_fs) option" where "sfs_isdir fs = Some (Inl EISDIR, fs)"
definition sfs_unimp :: "sfs_fs \<Rightarrow> ('a kres \<times> sfs_fs) option" where "sfs_unimp fs = Some (Inl EUNIMP, fs)"

section \<open>Reclaiming a vnode\<close>

text \<open>\<open>VOP_TRUNCATE\<close>: \<open>sfs_truncate\<close> for a file and \<open>sfs_isdir\<close> for a directory.\<close>

definition vop_truncate_of :: "nat \<Rightarrow> int \<Rightarrow> sfs_fs \<Rightarrow> (unit kres \<times> sfs_fs) option" where
  "vop_truncate_of v len fs = do {
     vnode_check v ''truncate'' fs;
     sv \<leftarrow> sfs_mem fs v;
     if sfi_type (sv_i sv) = SFS_TYPE_FILE then on_sv v (\<lambda>sv. sfs_truncate sv len) fs else sfs_isdir fs
   }"

text \<open>The end of \<open>sfs_reclaim\<close>: the vnode leaves the table and memory.\<close>

definition reclaim_forget :: "nat \<Rightarrow> sfs_fs \<Rightarrow> sfs_fs option" where
  "reclaim_forget v fs = do {
     hit \<leftarrow> array_scan (\<lambda>sv2. sv2 = v) (sfs_vnodes fs);
     (ix, sv2) \<leftarrow> hit;
     arr \<leftarrow> array_remove ix (sfs_vnodes fs);
     sv \<leftarrow> sfs_mem fs v;
     killed \<leftarrow> vnode_kill sv;
     Some (fs\<lparr>sfs_vnodes := arr, sfs_mem := (sfs_mem fs)(v := None)\<rparr>)
   }"

definition sfs_reclaim :: "nat \<Rightarrow> sfs_fs \<Rightarrow> (unit kres \<times> sfs_fs) option" where
  "sfs_reclaim v fs = do {
     sv \<leftarrow> sfs_mem fs v;
     if vn_refcount sv \<noteq> 1 then do {
       kassert (vn_refcount sv > 1);
       Some (Inl EBUSY, put_sv v (sv\<lparr>vn_refcount := vn_refcount sv - 1\<rparr>) fs)
     }
     else do {
       (r, fs1) \<leftarrow> (if sfi_linkcount (sv_i sv) = 0 then vop_truncate_of v 0 fs else Some (Inr (), fs));
       case r of Inl e \<Rightarrow> Some (Inl e, fs1)
       | Inr _ \<Rightarrow> do {
           (r2, fs2) \<leftarrow> on_sv v sfs_sync_inode fs1;
           case r2 of Inl e \<Rightarrow> Some (Inl e, fs2)
           | Inr _ \<Rightarrow> do {
               sv2 \<leftarrow> sfs_mem fs2 v;
               fs3 \<leftarrow> (if sfi_linkcount (sv_i sv2) = 0 then sfs_bfree (sv_ino sv2) fs2 else Some fs2);
               fs4 \<leftarrow> reclaim_forget v fs3;
               Some (Inr (), fs4)
             }
         }
     }
   }"

definition vnode_decref :: "nat \<Rightarrow> sfs_fs \<Rightarrow> sfs_fs option" where
  "vnode_decref v fs = do {
     sv \<leftarrow> sfs_mem fs v;
     kassert (vn_refcount sv > 0);
     if vn_refcount sv > 1 then Some (put_sv v (sv\<lparr>vn_refcount := vn_refcount sv - 1\<rparr>) fs)
     else do {
       vnode_check v ''reclaim'' fs;
       (r, fs1) \<leftarrow> sfs_reclaim v fs;
       Some fs1
     }
   }"

section \<open>Loading a vnode\<close>

text \<open>What \<open>kmalloc\<close> returns for the vnode, whether \<open>lock_create\<close> succeeds, and \<open>kmalloc\<close> for the table.\<close>

record vmem =
  vm_addr :: "nat option"
  vm_lock :: bool
  vm_table :: "nat \<Rightarrow> nat list option"

text \<open>The linear search of \<open>sfs_loadvnode\<close> from index \<open>i\<close> with \<open>n\<close> entries to go.\<close>

primrec loadvnode_find :: "nat \<Rightarrow> int \<Rightarrow> nat \<Rightarrow> sfs_fs \<Rightarrow> nat option option" where
  "loadvnode_find ino i 0 fs = Some None"
| "loadvnode_find ino i (Suc n) fs = do {
     v \<leftarrow> array_getguy (sfs_vnodes fs) i;
     sv \<leftarrow> sfs_mem fs v;
     used \<leftarrow> sfs_bused fs (sv_ino sv);
     kassert used;
     if sv_ino sv = ino then Some (Some v) else loadvnode_find ino (i + 1) n fs
   }"

text \<open>The inode that was read, with the type that a new object gets.\<close>

definition loadvnode_type :: "nat \<Rightarrow> sfs_inode \<Rightarrow> (sfs_inode \<times> bool) option" where
  "loadvnode_type forcetype i =
     (if forcetype \<noteq> SFS_TYPE_INVAL then do {
        kassert (sfi_type i = SFS_TYPE_INVAL);
        Some (i\<lparr>sfi_type := forcetype\<rparr>, True)
      }
      else Some (i, False))"

definition loadvnode_new :: "vmem \<Rightarrow> nat \<Rightarrow> nat \<Rightarrow> nat \<Rightarrow> sfs_fs \<Rightarrow> (nat kres \<times> sfs_fs) option" where
  "loadvnode_new mem v ino forcetype fs = do {
     used \<leftarrow> sfs_bused fs ino;
     kassert used;
     (r, data, fs1) \<leftarrow> sfs_rblock zero_block ino fs;
     case r of Inl e \<Rightarrow> Some (Inl e, fs1)
     | Inr _ \<Rightarrow> do {
         (i, dirty) \<leftarrow> loadvnode_type forcetype (dec_inode data);
         kassert (sfi_type i = SFS_TYPE_FILE \<or> sfi_type i = SFS_TYPE_DIR);
         case vnode_init (vm_lock mem) \<lparr>vn_refcount = 0, vn_opencount = 0, sv_i = i, sv_ino = ino, sv_dirty = dirty\<rparr> of
           Inl e \<Rightarrow> Some (Inl e, fs1)
         | Inr sv \<Rightarrow> do {
             (r2, arr) \<leftarrow> array_add (vm_table mem) v (sfs_vnodes fs1);
             let fs2 = fs1\<lparr>sfs_vnodes := arr\<rparr>;
             case r2 of
               Inl e \<Rightarrow> do { killed \<leftarrow> vnode_kill sv; Some (Inl e, fs2) }
             | Inr _ \<Rightarrow> Some (Inr v, put_sv v sv fs2)
           }
       }
   }"

definition sfs_loadvnode :: "vmem \<Rightarrow> nat \<Rightarrow> nat \<Rightarrow> sfs_fs \<Rightarrow> (nat kres \<times> sfs_fs) option" where
  "sfs_loadvnode mem ino forcetype fs = do {
     hit \<leftarrow> loadvnode_find ino 0 (nat (array_getnum (sfs_vnodes fs))) fs;
     case hit of
       Some v \<Rightarrow> do {
         kassert (forcetype = SFS_TYPE_INVAL);
         fs1 \<leftarrow> vnode_incref v fs;
         Some (Inr v, fs1)
       }
     | None \<Rightarrow> (case vm_addr mem of
           None \<Rightarrow> Some (Inl ENOMEM, fs)
         | Some v \<Rightarrow> loadvnode_new mem v ino forcetype fs)
   }"

definition sfs_getroot :: "vmem \<Rightarrow> sfs_fs \<Rightarrow> (nat \<times> sfs_fs) option" where
  "sfs_getroot mem fs = do {
     (r, fs1) \<leftarrow> sfs_loadvnode mem SFS_ROOT_LOCATION SFS_TYPE_INVAL fs;
     case r of Inl e \<Rightarrow> None | Inr v \<Rightarrow> Some (v, fs1)
   }"

section \<open>Names\<close>

text \<open>The result on success is the vnode and the slot.\<close>

definition sfs_lookonce :: "vmem \<Rightarrow> nat \<Rightarrow> byte list \<Rightarrow> sfs_fs \<Rightarrow> ((nat \<times> int) kres \<times> sfs_fs) option" where
  "sfs_lookonce mem v name fs = do {
     (result, fs1) \<leftarrow> on_sv v (\<lambda>sv fs. map_option (\<lambda>(r, e, x). (r, x)) (sfs_dir_findname sv name fs)) fs;
     case result of Inl e \<Rightarrow> Some (Inl e, fs1)
     | Inr (ino, slot) \<Rightarrow> do {
         (r2, fs2) \<leftarrow> sfs_loadvnode mem ino SFS_TYPE_INVAL fs1;
         case r2 of Inl e \<Rightarrow> Some (Inl e, fs2)
         | Inr ret \<Rightarrow> do {
             rsv \<leftarrow> sfs_mem fs2 ret;
             kassert (sfi_linkcount (sv_i rsv) \<noteq> 0);
             Some (Inr (ret, slot), fs2)
           }
       }
   }"

definition sfs_makeobj :: "vmem \<Rightarrow> nat \<Rightarrow> sfs_fs \<Rightarrow> (nat kres \<times> sfs_fs) option" where
  "sfs_makeobj mem type fs = do {
     (result, fs1) \<leftarrow> sfs_balloc fs;
     case result of Inl e \<Rightarrow> Some (Inl e, fs1) | Inr ino \<Rightarrow> sfs_loadvnode mem ino type fs1
   }"

text \<open>A change of the link count, which is an unsigned 16-bit number, with the inode marked dirty.\<close>

definition relink :: "int \<Rightarrow> nat \<Rightarrow> sfs_fs \<Rightarrow> sfs_fs option" where
  "relink k v fs = do {
     sv \<leftarrow> sfs_mem fs v;
     Some (put_sv v (sv\<lparr>sv_i := (sv_i sv)\<lparr>sfi_linkcount := nat ((int (sfi_linkcount (sv_i sv)) + k) mod 2 ^ 16)\<rparr>, sv_dirty := True\<rparr>) fs)
   }"

definition creat_new :: "vmem \<Rightarrow> nat \<Rightarrow> byte list \<Rightarrow> sfs_fs \<Rightarrow> (nat kres \<times> sfs_fs) option" where
  "creat_new mem v name fs = do {
     (result, fs1) \<leftarrow> sfs_makeobj mem SFS_TYPE_FILE fs;
     case result of Inl e \<Rightarrow> Some (Inl e, fs1)
     | Inr newguy \<Rightarrow> do {
         nsv \<leftarrow> sfs_mem fs1 newguy;
         (r2, fs2) \<leftarrow> on_sv v (\<lambda>sv. sfs_dir_link sv name (sv_ino nsv)) fs1;
         case r2 of
           Inl e \<Rightarrow> do { fs3 \<leftarrow> vnode_decref newguy fs2; Some (Inl e, fs3) }
         | Inr slot \<Rightarrow> do { fs3 \<leftarrow> relink 1 newguy fs2; Some (Inr newguy, fs3) }
       }
   }"

definition sfs_creat :: "vmem \<Rightarrow> nat \<Rightarrow> byte list \<Rightarrow> bool \<Rightarrow> sfs_fs \<Rightarrow> (nat kres \<times> sfs_fs) option" where
  "sfs_creat mem v name excl fs = do {
     (result, fs1) \<leftarrow> on_sv v (\<lambda>sv fs. map_option (\<lambda>(r, e, x). (r, x)) (sfs_dir_findname sv name fs)) fs;
     case result of
       Inr (ino, slot) \<Rightarrow> if excl then Some (Inl EEXIST, fs1) else sfs_loadvnode mem ino SFS_TYPE_INVAL fs1
     | Inl e \<Rightarrow> if e \<noteq> ENOENT then Some (Inl e, fs1) else creat_new mem v name fs1
   }"

definition sfs_link :: "nat \<Rightarrow> byte list \<Rightarrow> nat \<Rightarrow> sfs_fs \<Rightarrow> (unit kres \<times> sfs_fs) option" where
  "sfs_link dir name file fs = do {
     f \<leftarrow> sfs_mem fs file;
     (result, fs1) \<leftarrow> on_sv dir (\<lambda>sv. sfs_dir_link sv name (sv_ino f)) fs;
     case result of Inl e \<Rightarrow> Some (Inl e, fs1)
     | Inr slot \<Rightarrow> do { fs2 \<leftarrow> relink 1 file fs1; Some (Inr (), fs2) }
   }"

definition sfs_remove :: "vmem \<Rightarrow> nat \<Rightarrow> byte list \<Rightarrow> sfs_fs \<Rightarrow> (unit kres \<times> sfs_fs) option" where
  "sfs_remove mem dir name fs = do {
     (result, fs1) \<leftarrow> sfs_lookonce mem dir name fs;
     case result of Inl e \<Rightarrow> Some (Inl e, fs1)
     | Inr (victim, slot) \<Rightarrow> do {
         (r2, fs2) \<leftarrow> on_sv dir (\<lambda>sv. sfs_dir_unlink sv slot) fs1;
         fs3 \<leftarrow> (case r2 of Inl e \<Rightarrow> Some fs2
           | Inr _ \<Rightarrow> do {
               vsv \<leftarrow> sfs_mem fs2 victim;
               kassert (sfi_linkcount (sv_i vsv) > 0);
               relink (- 1) victim fs2
             });
         fs4 \<leftarrow> vnode_decref victim fs3;
         Some (r2, fs4)
       }
   }"

text \<open>The part of \<open>sfs_rename\<close> after the new name was linked; the error path undoes the link.\<close>

definition rename_unlink :: "nat \<Rightarrow> nat \<Rightarrow> int \<Rightarrow> int \<Rightarrow> sfs_fs \<Rightarrow> (unit kres \<times> sfs_fs) option" where
  "rename_unlink d1 g1 slot1 slot2 fs = do {
     fs1 \<leftarrow> relink 1 g1 fs;
     (result, fs2) \<leftarrow> on_sv d1 (\<lambda>sv. sfs_dir_unlink sv slot1) fs1;
     case result of
       Inr _ \<Rightarrow> do {
         gsv \<leftarrow> sfs_mem fs2 g1;
         kassert (sfi_linkcount (sv_i gsv) > 0);
         fs3 \<leftarrow> relink (- 1) g1 fs2;
         fs4 \<leftarrow> vnode_decref g1 fs3;
         Some (Inr (), fs4)
       }
     | Inl e \<Rightarrow> do {
         (result2, fs3) \<leftarrow> on_sv d1 (\<lambda>sv. sfs_dir_unlink sv slot2) fs2;
         case result2 of Inl e2 \<Rightarrow> None
         | Inr _ \<Rightarrow> do {
             gsv \<leftarrow> sfs_mem fs3 g1;
             let fs4 = put_sv g1 (gsv\<lparr>sv_i := (sv_i gsv)\<lparr>sfi_linkcount := nat ((int (sfi_linkcount (sv_i gsv)) - 1) mod 2 ^ 16)\<rparr>\<rparr>) fs3;
             fs5 \<leftarrow> vnode_decref g1 fs4;
             Some (Inl e, fs5)
           }
       }
   }"

definition sfs_rename :: "vmem \<Rightarrow> nat \<Rightarrow> byte list \<Rightarrow> nat \<Rightarrow> byte list \<Rightarrow> sfs_fs \<Rightarrow> (unit kres \<times> sfs_fs) option" where
  "sfs_rename mem d1 n1 d2 n2 fs = do {
     sv \<leftarrow> sfs_mem fs d1;
     kassert (d1 = d2);
     kassert (sv_ino sv = SFS_ROOT_LOCATION);
     (result, fs1) \<leftarrow> sfs_lookonce mem d1 n1 fs;
     case result of Inl e \<Rightarrow> Some (Inl e, fs1)
     | Inr (g1, slot1) \<Rightarrow> do {
         gsv \<leftarrow> sfs_mem fs1 g1;
         kassert (sfi_type (sv_i gsv) = SFS_TYPE_FILE);
         (r2, fs2) \<leftarrow> on_sv d1 (\<lambda>sv. sfs_dir_link sv n2 (sv_ino gsv)) fs1;
         case r2 of
           Inl e \<Rightarrow> do { fs3 \<leftarrow> vnode_decref g1 fs2; Some (Inl e, fs3) }
         | Inr slot2 \<Rightarrow> rename_unlink d1 g1 slot1 slot2 fs2
       }
   }"

text \<open>The results of \<open>sfs_lookparent\<close> are the directory and the bytes copied to \<open>buf\<close>.\<close>

definition sfs_lookparent :: "nat \<Rightarrow> byte list \<Rightarrow> nat \<Rightarrow> sfs_fs \<Rightarrow> ((nat \<times> byte list) kres \<times> sfs_fs) option" where
  "sfs_lookparent v path buflen fs = do {
     sv \<leftarrow> sfs_mem fs v;
     if sfi_type (sv_i sv) \<noteq> SFS_TYPE_DIR then Some (Inl ENOTDIR, fs)
     else if length path + 1 > buflen then Some (Inl ENAMETOOLONG, fs)
     else do { fs1 \<leftarrow> vnode_incref v fs; Some (Inr (v, path @ [0]), fs1) }
   }"

definition sfs_lookup :: "vmem \<Rightarrow> nat \<Rightarrow> byte list \<Rightarrow> sfs_fs \<Rightarrow> (nat kres \<times> sfs_fs) option" where
  "sfs_lookup mem v path fs = do {
     sv \<leftarrow> sfs_mem fs v;
     if sfi_type (sv_i sv) \<noteq> SFS_TYPE_DIR then Some (Inl ENOTDIR, fs)
     else do {
       (result, fs1) \<leftarrow> sfs_lookonce mem v path fs;
       Some (map_sum id fst result, fs1)
     }
   }"

section \<open>The function tables\<close>

record vnode_ops =
  vop_open :: "nat \<Rightarrow> int \<Rightarrow> sfs_fs \<Rightarrow> (unit kres \<times> sfs_fs) option"
  vop_close :: "nat \<Rightarrow> sfs_fs \<Rightarrow> (unit kres \<times> sfs_fs) option"
  vop_reclaim :: "nat \<Rightarrow> sfs_fs \<Rightarrow> (unit kres \<times> sfs_fs) option"
  vop_read :: "nat \<Rightarrow> uio \<Rightarrow> sfs_fs \<Rightarrow> ((unit kres \<times> uio) \<times> sfs_fs) option"
  vop_readlink :: "nat \<Rightarrow> uio \<Rightarrow> sfs_fs \<Rightarrow> ((unit kres \<times> uio) \<times> sfs_fs) option"
  vop_getdirentry :: "nat \<Rightarrow> uio \<Rightarrow> sfs_fs \<Rightarrow> ((unit kres \<times> uio) \<times> sfs_fs) option"
  vop_write :: "nat \<Rightarrow> uio \<Rightarrow> sfs_fs \<Rightarrow> ((unit kres \<times> uio) \<times> sfs_fs) option"
  vop_ioctl :: "nat \<Rightarrow> int \<Rightarrow> nat \<Rightarrow> sfs_fs \<Rightarrow> (unit kres \<times> sfs_fs) option"
  vop_stat :: "nat \<Rightarrow> sfs_fs \<Rightarrow> (stat kres \<times> sfs_fs) option"
  vop_gettype :: "nat \<Rightarrow> sfs_fs \<Rightarrow> (nat kres \<times> sfs_fs) option"
  vop_tryseek :: "nat \<Rightarrow> int \<Rightarrow> sfs_fs \<Rightarrow> (unit kres \<times> sfs_fs) option"
  vop_fsync :: "nat \<Rightarrow> sfs_fs \<Rightarrow> (unit kres \<times> sfs_fs) option"
  vop_mmap :: "nat \<Rightarrow> sfs_fs \<Rightarrow> (unit kres \<times> sfs_fs) option"
  vop_truncate :: "nat \<Rightarrow> int \<Rightarrow> sfs_fs \<Rightarrow> (unit kres \<times> sfs_fs) option"
  vop_namefile :: "nat \<Rightarrow> uio \<Rightarrow> sfs_fs \<Rightarrow> ((unit kres \<times> uio) \<times> sfs_fs) option"
  vop_creat :: "vmem \<Rightarrow> nat \<Rightarrow> byte list \<Rightarrow> bool \<Rightarrow> sfs_fs \<Rightarrow> (nat kres \<times> sfs_fs) option"
  vop_symlink :: "nat \<Rightarrow> byte list \<Rightarrow> byte list \<Rightarrow> sfs_fs \<Rightarrow> (unit kres \<times> sfs_fs) option"
  vop_mkdir :: "nat \<Rightarrow> byte list \<Rightarrow> sfs_fs \<Rightarrow> (unit kres \<times> sfs_fs) option"
  vop_link :: "nat \<Rightarrow> byte list \<Rightarrow> nat \<Rightarrow> sfs_fs \<Rightarrow> (unit kres \<times> sfs_fs) option"
  vop_remove :: "vmem \<Rightarrow> nat \<Rightarrow> byte list \<Rightarrow> sfs_fs \<Rightarrow> (unit kres \<times> sfs_fs) option"
  vop_rmdir :: "nat \<Rightarrow> byte list \<Rightarrow> sfs_fs \<Rightarrow> (unit kres \<times> sfs_fs) option"
  vop_rename :: "vmem \<Rightarrow> nat \<Rightarrow> byte list \<Rightarrow> nat \<Rightarrow> byte list \<Rightarrow> sfs_fs \<Rightarrow> (unit kres \<times> sfs_fs) option"
  vop_lookup :: "vmem \<Rightarrow> nat \<Rightarrow> byte list \<Rightarrow> sfs_fs \<Rightarrow> (nat kres \<times> sfs_fs) option"
  vop_lookparent :: "nat \<Rightarrow> byte list \<Rightarrow> nat \<Rightarrow> sfs_fs \<Rightarrow> ((nat \<times> byte list) kres \<times> sfs_fs) option"

text \<open>An operation that only returns an error code leaves its \<open>uio\<close> alone.\<close>

definition with_uio :: "(unit kres \<times> sfs_fs) option \<Rightarrow> uio \<Rightarrow> ((unit kres \<times> uio) \<times> sfs_fs) option" where
  "with_uio x u = map_option (\<lambda>(r, fs). ((r, u), fs)) x"

definition io_on_sv :: "(sfs_vnode \<Rightarrow> uio \<Rightarrow> sfs_fs \<Rightarrow> io_result option) \<Rightarrow> nat \<Rightarrow> uio \<Rightarrow> sfs_fs \<Rightarrow> ((unit kres \<times> uio) \<times> sfs_fs) option" where
  "io_on_sv f v u fs = on_sv v (\<lambda>sv fs. map_option (\<lambda>(r, sv1, u1, fs1). ((r, u1), sv1, fs1)) (f sv u fs)) fs"

definition sfs_fileops :: vnode_ops where
  "sfs_fileops = \<lparr>
     vop_open = sfs_open,
     vop_close = sfs_close,
     vop_reclaim = sfs_reclaim,
     vop_read = io_on_sv sfs_read,
     vop_readlink = \<lambda>v u fs. with_uio (sfs_notdir fs) u,
     vop_getdirentry = \<lambda>v u fs. with_uio (sfs_notdir fs) u,
     vop_write = io_on_sv sfs_write,
     vop_ioctl = sfs_ioctl,
     vop_stat = sfs_stat,
     vop_gettype = sfs_gettype,
     vop_tryseek = sfs_tryseek,
     vop_fsync = sfs_fsync,
     vop_mmap = sfs_mmap,
     vop_truncate = \<lambda>v len. on_sv v (\<lambda>sv. sfs_truncate sv len),
     vop_namefile = \<lambda>v u fs. with_uio (sfs_notdir fs) u,
     vop_creat = \<lambda>mem v name excl. sfs_notdir,
     vop_symlink = \<lambda>v c name. sfs_notdir,
     vop_mkdir = \<lambda>v name. sfs_notdir,
     vop_link = \<lambda>v name f. sfs_notdir,
     vop_remove = \<lambda>mem v name. sfs_notdir,
     vop_rmdir = \<lambda>v name. sfs_notdir,
     vop_rename = \<lambda>mem v1 n1 v2 n2. sfs_notdir,
     vop_lookup = \<lambda>mem v name. sfs_notdir,
     vop_lookparent = \<lambda>v path buflen. sfs_notdir\<rparr>"

definition sfs_dirops :: vnode_ops where
  "sfs_dirops = \<lparr>
     vop_open = sfs_opendir,
     vop_close = sfs_close,
     vop_reclaim = sfs_reclaim,
     vop_read = \<lambda>v u fs. with_uio (sfs_isdir fs) u,
     vop_readlink = \<lambda>v u fs. with_uio (sfs_isdir fs) u,
     vop_getdirentry = \<lambda>v u fs. with_uio (sfs_unimp fs) u,
     vop_write = \<lambda>v u fs. with_uio (sfs_isdir fs) u,
     vop_ioctl = sfs_ioctl,
     vop_stat = sfs_stat,
     vop_gettype = sfs_gettype,
     vop_tryseek = \<lambda>v pos. sfs_unimp,
     vop_fsync = sfs_fsync,
     vop_mmap = \<lambda>v. sfs_isdir,
     vop_truncate = \<lambda>v len. sfs_isdir,
     vop_namefile = \<lambda>v u fs. map_option (\<lambda>(r, u1, fs1). ((r, u1), fs1)) (sfs_namefile v u fs),
     vop_creat = sfs_creat,
     vop_symlink = \<lambda>v c name. sfs_unimp,
     vop_mkdir = \<lambda>v name. sfs_unimp,
     vop_link = sfs_link,
     vop_remove = sfs_remove,
     vop_rmdir = \<lambda>v name. sfs_unimp,
     vop_rename = sfs_rename,
     vop_lookup = sfs_lookup,
     vop_lookparent = sfs_lookparent\<rparr>"

definition vn_ops :: "sfs_vnode \<Rightarrow> vnode_ops option" where
  "vn_ops sv =
     (if sfi_type (sv_i sv) = SFS_TYPE_FILE then Some sfs_fileops
      else if sfi_type (sv_i sv) = SFS_TYPE_DIR then Some sfs_dirops
      else None)"

text \<open>The macro \<open>__VOP\<close>: the check, then the function in the table.\<close>

definition VOP :: "(vnode_ops \<Rightarrow> sfs_fs \<Rightarrow> 'a option) \<Rightarrow> string \<Rightarrow> nat \<Rightarrow> sfs_fs \<Rightarrow> 'a option" where
  "VOP f opstr v fs = do {
     vnode_check v opstr fs;
     sv \<leftarrow> sfs_mem fs v;
     ops \<leftarrow> vn_ops sv;
     f ops fs
   }"

end
