(* ===== verification/SfsVnodeInv.thy ===== *)
theory SfsVnodeInv
  imports SfsVnode
begin

text \<open>
  The invariant of the vnode table, what loading a vnode does, and what happens to a file when
  its last reference goes.
\<close>

section \<open>The vnode table\<close>

text \<open>
  The invariant of the table: the loaded vnodes are in memory, referenced, of inodes in use, and
  no inode is loaded twice.
\<close>

definition loaded :: "sfs_fs \<Rightarrow> nat list" where
  "loaded fs = array_list (sfs_vnodes fs)"

definition vn_ino :: "sfs_fs \<Rightarrow> nat \<Rightarrow> nat" where
  "vn_ino fs v = (case sfs_mem fs v of Some sv \<Rightarrow> sv_ino sv | None \<Rightarrow> 0)"

definition vnode_ok :: "sfs_fs \<Rightarrow> nat \<Rightarrow> bool" where
  "vnode_ok fs v \<longleftrightarrow> (\<exists>sv. sfs_mem fs v = Some sv \<and> 1 \<le> vn_refcount sv \<and> vn_refcount sv < 2 ^ 31 \<and> 0 \<le> vn_opencount sv \<and>
     sv_ino sv \<in> fs_used fs \<and> sv_ino sv < sp_nblocks (sfs_super fs))"

definition table_ok :: "sfs_fs \<Rightarrow> bool" where
  "table_ok fs \<longleftrightarrow> fs_ok fs \<and> array_ok (sfs_vnodes fs) \<and> distinct (loaded fs) \<and> (\<forall>v \<in> set (loaded fs). vnode_ok fs v) \<and>
     inj_on (vn_ino fs) (set (loaded fs))"

lemma table_okD:
  assumes "table_ok fs"
  shows "fs_ok fs" "array_ok (sfs_vnodes fs)" "distinct (loaded fs)" "inj_on (vn_ino fs) (set (loaded fs))"
    and "v \<in> set (loaded fs) \<Longrightarrow> vnode_ok fs v"
  using assms by (simp_all add: table_ok_def)

lemma vnode_okE:
  assumes "vnode_ok fs v"
  obtains sv where "sfs_mem fs v = Some sv" "1 \<le> vn_refcount sv" "vn_refcount sv < 2 ^ 31" "0 \<le> vn_opencount sv" "sv_ino sv = vn_ino fs v"
    "vn_ino fs v \<in> fs_used fs" "vn_ino fs v < sp_nblocks (sfs_super fs)"
  using assms by (auto simp: vnode_ok_def vn_ino_def)

lemma getnum_loaded: "table_ok fs \<Longrightarrow> array_getnum (sfs_vnodes fs) = int (length (loaded fs))"
  unfolding loaded_def using table_okD(2) array_ok_bounds by (force simp: array_getnum_def)

text \<open>The search finds the vnode of an inode exactly when it is loaded, and never panics.\<close>

lemma loadvnode_find_from:
  assumes t: "table_ok fs" and "k + n = length (loaded fs)"
  shows "loadvnode_find ino (int k) n fs = Some (find (\<lambda>v. vn_ino fs v = ino) (drop k (loaded fs)))"
  using assms(2)
proof (induction n arbitrary: k)
  case (Suc n)
  let ?v = "loaded fs ! k"
  have k: "k < length (loaded fs)" using Suc.prems by simp
  then have "?v \<in> set (loaded fs)" by simp
  then obtain sv where sv: "sfs_mem fs ?v = Some sv" "sv_ino sv = vn_ino fs ?v" "vn_ino fs ?v \<in> fs_used fs" "vn_ino fs ?v < sp_nblocks (sfs_super fs)"
    using vnode_okE [OF table_okD(5) [OF t]] by metis
  have get: "array_getguy (sfs_vnodes fs) (int k) = Some ?v"
    using array_getguy_list [OF table_okD(2) [OF t], of "int k"] getnum_loaded [OF t] k by (simp add: loaded_def)
  have used: "sfs_bused fs (sv_ino sv) = Some True" using bused_ok [OF table_okD(1) [OF t]] sv by simp
  have d: "drop k (loaded fs) = ?v # drop (Suc k) (loaded fs)" using k by (simp add: Cons_nth_drop_Suc)
  have ih: "loadvnode_find ino (int k + 1) n fs = Some (find (\<lambda>v. vn_ino fs v = ino) (drop (Suc k) (loaded fs)))"
    using Suc.IH [of "Suc k"] Suc.prems by (simp add: add.commute)
  show ?case using get sv(1,2) used ih d by simp
qed simp

lemma loadvnode_find_ok:
  assumes "table_ok fs"
  shows "loadvnode_find ino 0 (nat (array_getnum (sfs_vnodes fs))) fs = Some (find (\<lambda>v. vn_ino fs v = ino) (loaded fs))"
  using loadvnode_find_from [OF assms, of 0 "length (loaded fs)" ino] getnum_loaded [OF assms] by simp

text \<open>A change of one vnode that keeps its inode and its counts legal keeps the invariant.\<close>

lemma table_ok_put:
  assumes t: "table_ok fs" and "sfs_mem fs v = Some sv" and "sv_ino sv' = sv_ino sv" and "1 \<le> vn_refcount sv'" and "vn_refcount sv' < 2 ^ 31"
    and "0 \<le> vn_opencount sv'"
  shows "table_ok (put_sv v sv' fs)"
proof -
  let ?fs = "put_sv v sv' fs"
  have f: "fs_ok ?fs = fs_ok fs" "loaded ?fs = loaded fs" "sfs_vnodes ?fs = sfs_vnodes fs"
    by (simp_all add: put_sv_def fs_ok_def healthy_def fs_used_def loaded_def)
  have ino: "vn_ino ?fs = vn_ino fs" using assms(2,3) by (auto simp: vn_ino_def put_sv_def)
  have "vnode_ok ?fs w" if "w \<in> set (loaded fs)" for w
    using table_okD(5) [OF t that] assms(2-) by (cases "w = v") (auto simp: vnode_ok_def put_sv_def fs_used_def)
  then show ?thesis using t by (simp add: table_ok_def f ino)
qed

lemma table_ok_moved:
  assumes "table_ok fs" and "lhd_moved (sfs_device fs) lh"
  shows "table_ok (fs\<lparr>sfs_device := lh\<rparr>)" and "loaded (fs\<lparr>sfs_device := lh\<rparr>) = loaded fs" and "vn_ino (fs\<lparr>sfs_device := lh\<rparr>) = vn_ino fs"
proof -
  show l: "loaded (fs\<lparr>sfs_device := lh\<rparr>) = loaded fs" by (simp add: loaded_def)
  show i: "vn_ino (fs\<lparr>sfs_device := lh\<rparr>) = vn_ino fs" by (auto simp: vn_ino_def)
  have "vnode_ok (fs\<lparr>sfs_device := lh\<rparr>) v = vnode_ok fs v" for v by (simp add: vnode_ok_def fs_used_def)
  then show "table_ok (fs\<lparr>sfs_device := lh\<rparr>)"
    using assms fs_ok_moved [OF table_okD(1) [OF assms(1)] assms(2)] l i by (simp add: table_ok_def)
qed

lemma table_ok_add:
  assumes t: "table_ok fs" and v: "v \<notin> set (loaded fs)" and arr: "array_ok arr" "array_list arr = loaded fs @ [v]"
    and sv: "sv_ino sv \<in> fs_used fs" "sv_ino sv < sp_nblocks (sfs_super fs)" "sv_ino sv \<notin> vn_ino fs ` set (loaded fs)"
      "vn_refcount sv = 1" "vn_opencount sv = 0"
  shows "table_ok (put_sv v sv (fs\<lparr>sfs_vnodes := arr\<rparr>))" and "loaded (put_sv v sv (fs\<lparr>sfs_vnodes := arr\<rparr>)) = loaded fs @ [v]"
proof -
  let ?fs = "put_sv v sv (fs\<lparr>sfs_vnodes := arr\<rparr>)"
  show l: "loaded ?fs = loaded fs @ [v]" using arr(2) by (simp add: put_sv_def loaded_def)
  have f: "fs_ok ?fs" "array_ok (sfs_vnodes ?fs)" "fs_used ?fs = fs_used fs" "sfs_super ?fs = sfs_super fs"
    using table_okD(1) [OF t] arr(1) by (simp_all add: put_sv_def fs_ok_def healthy_def fs_used_def)
  have ino: "vn_ino ?fs w = (if w = v then sv_ino sv else vn_ino fs w)" for w by (simp add: vn_ino_def put_sv_def)
  have "vnode_ok ?fs w" if "w \<in> set (loaded ?fs)" for w
  proof (cases "w = v")
    case True
    then show ?thesis using sv unfolding vnode_ok_def f by (simp add: put_sv_def)
  next
    case False
    then have "vnode_ok fs w" using that l table_okD(5) [OF t] by simp
    then show ?thesis using False unfolding vnode_ok_def f by (simp add: put_sv_def)
  qed
  moreover have "distinct (loaded ?fs)" using v table_okD(3) [OF t] l by simp
  moreover have "inj_on (vn_ino ?fs) (set (loaded ?fs))"
  proof -
    have "inj_on (vn_ino ?fs) (set (loaded fs)) = inj_on (vn_ino fs) (set (loaded fs))"
      by (rule inj_on_cong) (use v ino in auto)
    moreover have "vn_ino ?fs ` set (loaded fs) = vn_ino fs ` set (loaded fs)" by (rule image_cong) (use v ino in auto)
    ultimately show ?thesis using v table_okD(4) [OF t] l ino sv(3) by auto
  qed
  ultimately show "table_ok ?fs" using f unfolding table_ok_def by blast
qed

text \<open>The vnode that is made for an inode.\<close>

definition new_vnode :: "nat \<Rightarrow> sfs_inode \<Rightarrow> bool \<Rightarrow> sfs_vnode" where
  "new_vnode ino i dirty = \<lparr>vn_refcount = 1, vn_opencount = 0, sv_i = i, sv_ino = ino, sv_dirty = dirty\<rparr>"

lemma loadvnode_new_ok:
  assumes t: "table_ok fs" and ino: "ino \<in> fs_used fs" "ino < sp_nblocks (sfs_super fs)" "ino \<notin> vn_ino fs ` set (loaded fs)"
    and km: "kmalloc_ok (vm_table mem)" "length (loaded fs) < 2 ^ 28" and v: "v \<notin> set (loaded fs)"
    and type: "loadvnode_type forcetype (dec_inode (disk fs ino)) = Some (i, dirty)" "sfi_type i = SFS_TYPE_FILE \<or> sfi_type i = SFS_TYPE_DIR"
  obtains r fs' where "loadvnode_new mem v ino forcetype fs = Some (r, fs')" and "table_ok fs'" and "disk fs' = disk fs" and "fs_used fs' = fs_used fs"
    and "sfs_super fs' = sfs_super fs" and "lhd_moved (sfs_device fs) (sfs_device fs')"
    and "r = Inl ENOMEM \<and> (\<not> vm_lock mem \<or> (\<exists>n. vm_table mem n = None)) \<and> loaded fs' = loaded fs \<and> sfs_mem fs' = sfs_mem fs \<or>
      r = Inr v \<and> loaded fs' = loaded fs @ [v] \<and> sfs_mem fs' = (sfs_mem fs)(v \<mapsto> new_vnode ino i dirty)"
proof -
  have ok: "fs_ok fs" using table_okD(1) [OF t] .
  have h: "healthy fs" "ino < d_blocks (sfs_device fs)" using ok fs_ok_dblocks [OF ok ino(2)] by (simp_all add: fs_ok_def)
  obtain lh where rb: "sfs_rblock zero_block ino fs = Some (Inr (), disk fs ino, fs\<lparr>sfs_device := lh\<rparr>)" "lhd_moved (sfs_device fs) lh" "hw_sect lh = disk fs"
    by (rule rblock_ok [OF h length_zero_block])
  let ?fs = "fs\<lparr>sfs_device := lh\<rparr>"
  note mv = table_ok_moved [OF t rb(2)]
  have d: "disk ?fs = disk fs" "fs_used ?fs = fs_used fs" "sfs_super ?fs = sfs_super fs" using rb(3) by (simp_all add: disk_def fs_used_def)
  have used: "sfs_bused fs ino = Some True" using bused_ok [OF ok ino(2)] ino(1) by simp
  note run = loadvnode_new_def [of mem v ino forcetype fs] used rb(1) type vnode_init_def
  show ?thesis
  proof (cases "vm_lock mem")
    case False
    then have "loadvnode_new mem v ino forcetype fs = Some (Inl ENOMEM, ?fs)" using type(2) by (simp add: run)
    then show ?thesis by (rule that) (use mv d rb(2) False in auto)
  next
    case True
    have num: "a_num (sfs_vnodes fs) < 2 ^ 28" using km(2) getnum_loaded [OF t] by (simp add: array_getnum_def)
    show ?thesis
    proof (cases rule: array_add_cases [OF table_okD(2) [OF t] km(1) num, of v, case_names nomem added])
      case nomem
      have "?fs\<lparr>sfs_vnodes := sfs_vnodes fs\<rparr> = ?fs" by simp
      then have "loadvnode_new mem v ino forcetype fs = Some (Inl ENOMEM, ?fs)"
        using type(2) nomem(1) True by (simp add: run vnode_kill_def)
      then show ?thesis by (rule that) (use mv d rb(2) nomem(3) in auto)
    next
      case (added arr)
      let ?sv = "new_vnode ino i dirty"
      let ?fs' = "put_sv v ?sv (?fs\<lparr>sfs_vnodes := arr\<rparr>)"
      have "array_list arr = loaded ?fs @ [v]" using added(3) by (simp add: loaded_def)
      note a = table_ok_add [OF mv(1) _ added(2) this, of ?sv]
      have "loadvnode_new mem v ino forcetype fs = Some (Inr v, ?fs')"
        using type(2) added(1) True by (simp add: run new_vnode_def)
      moreover have "table_ok ?fs'" "loaded ?fs' = loaded fs @ [v]"
        using a v ino mv(2,3) d by (simp_all add: new_vnode_def)
      moreover have "disk ?fs' = disk fs" "fs_used ?fs' = fs_used fs" "sfs_super ?fs' = sfs_super fs" "sfs_device ?fs' = lh"
        "sfs_mem ?fs' = (sfs_mem fs)(v \<mapsto> ?sv)"
        using d by (simp_all add: put_sv_def disk_def fs_used_def)
      ultimately show ?thesis using that rb(2) by simp
    qed
  qed
qed

section \<open>Properties of loading\<close>

definition vmem_enough :: "vmem \<Rightarrow> bool" where
  "vmem_enough mem \<longleftrightarrow> vm_addr mem \<noteq> None \<and> vm_lock mem \<and> (\<forall>n. vm_table mem n \<noteq> None)"

lemma loadvnode_result:
  assumes "table_ok fs" and "ino \<in> fs_used fs" and "ino < sp_nblocks (sfs_super fs)"
    and "kmalloc_ok (vm_table mem)" and "length (loaded fs) < 2 ^ 28" and "\<forall>v. vm_addr mem = Some v \<longrightarrow> v \<notin> set (loaded fs)"
    and "\<forall>v sv. sfs_mem fs v = Some sv \<longrightarrow> vn_refcount sv < 2 ^ 31 - 1"
    and "sfi_type (dec_inode (disk fs ino)) = SFS_TYPE_FILE \<or> sfi_type (dec_inode (disk fs ino)) = SFS_TYPE_DIR"
  shows "\<exists>r fs'. sfs_loadvnode mem ino SFS_TYPE_INVAL fs = Some (r, fs') \<and> table_ok fs' \<and> disk fs' = disk fs \<and> fs_used fs' = fs_used fs \<and>
    ((\<exists>v sv. v \<in> set (loaded fs) \<and> sfs_mem fs v = Some sv \<and> sv_ino sv = ino \<and> r = Inr v \<and> loaded fs' = loaded fs \<and>
        sfs_mem fs' = (sfs_mem fs)(v \<mapsto> sv\<lparr>vn_refcount := vn_refcount sv + 1\<rparr>)) \<or>
     ino \<notin> vn_ino fs ` set (loaded fs) \<and>
       (r = Inl ENOMEM \<and> \<not> vmem_enough mem \<and> loaded fs' = loaded fs \<and> sfs_mem fs' = sfs_mem fs \<or>
        (\<exists>v. vm_addr mem = Some v \<and> r = Inr v \<and> loaded fs' = loaded fs @ [v] \<and>
           sfs_mem fs' = (sfs_mem fs)(v \<mapsto> new_vnode ino (dec_inode (disk fs ino)) False))))"
proof (cases "find (\<lambda>v. vn_ino fs v = ino) (loaded fs)")
  case (Some v)
  then have v: "v \<in> set (loaded fs)" "vn_ino fs v = ino" by (auto simp: find_Some_iff)
  obtain sv where sv: "sfs_mem fs v = Some sv" "1 \<le> vn_refcount sv" "0 \<le> vn_opencount sv" "sv_ino sv = ino"
    using vnode_okE [OF table_okD(5) [OF assms(1) v(1)]] v(2) by metis
  let ?sv = "sv\<lparr>vn_refcount := vn_refcount sv + 1\<rparr>"
  have n: "vn_refcount sv + 1 < 2 ^ 31" using assms(7) sv(1) by auto
  have "table_ok (put_sv v ?sv fs)" by (rule table_ok_put [OF assms(1) sv(1)]) (use sv n in auto)
  moreover have "sfs_loadvnode mem ino SFS_TYPE_INVAL fs = Some (Inr v, put_sv v ?sv fs)"
    using loadvnode_find_ok [OF assms(1), of ino] Some sv n by (simp add: sfs_loadvnode_def vnode_incref_def)
  ultimately show ?thesis using v sv by (intro exI [of _ "Inr v"] exI [of _ "put_sv v ?sv fs"]) (auto simp: put_sv_def disk_def fs_used_def loaded_def)
next
  case None
  then have new: "ino \<notin> vn_ino fs ` set (loaded fs)" by (auto simp: find_None_iff)
  show ?thesis
  proof (cases "vm_addr mem")
    case None
    then have "sfs_loadvnode mem ino SFS_TYPE_INVAL fs = Some (Inl ENOMEM, fs)"
      using loadvnode_find_ok [OF assms(1), of ino] \<open>find _ _ = None\<close> by (simp add: sfs_loadvnode_def)
    then show ?thesis using assms(1) new None unfolding vmem_enough_def by blast
  next
    case (Some v)
    then have v: "v \<notin> set (loaded fs)" using assms(6) by blast
    have type: "loadvnode_type SFS_TYPE_INVAL (dec_inode (disk fs ino)) = Some (dec_inode (disk fs ino), False)" by (simp add: loadvnode_type_def)
    obtain r fs' where r: "loadvnode_new mem v ino SFS_TYPE_INVAL fs = Some (r, fs')" "table_ok fs'" "disk fs' = disk fs" "fs_used fs' = fs_used fs"
        "r = Inl ENOMEM \<and> \<not> vmem_enough mem \<and> loaded fs' = loaded fs \<and> sfs_mem fs' = sfs_mem fs \<or>
         r = Inr v \<and> loaded fs' = loaded fs @ [v] \<and> sfs_mem fs' = (sfs_mem fs)(v \<mapsto> new_vnode ino (dec_inode (disk fs ino)) False)"
      by (rule loadvnode_new_ok [OF assms(1-3) new assms(4,5) v type assms(8)]) (auto simp: vmem_enough_def)
    have "sfs_loadvnode mem ino SFS_TYPE_INVAL fs = Some (r, fs')"
      using loadvnode_find_ok [OF assms(1), of ino] \<open>find _ _ = None\<close> Some r(1) by (simp add: sfs_loadvnode_def)
    then show ?thesis using r(2-) new Some by blast
  qed
qed

text \<open>
  C28. One vnode per inode. On a well-formed vnode table \<open>sfs_loadvnode\<close> always returns for an inode
  in use with a legal type, and keeps the table well-formed: no inode is ever loaded twice. A loaded
  inode gives its vnode with one more reference; otherwise a new vnode with one reference and the
  inode on disk enters the table, or \<open>ENOMEM\<close> is reported, which happens only when an allocation
  fails, and nothing changes. The disk and the free map are not changed.
\<close>

theorem sfs_loadvnode_correct:
  assumes "table_ok fs" and "ino \<in> fs_used fs" and "ino < sp_nblocks (sfs_super fs)"
    and "kmalloc_ok (vm_table mem)" and "length (loaded fs) < 2 ^ 28" and "\<forall>v. vm_addr mem = Some v \<longrightarrow> v \<notin> set (loaded fs)"
    and "\<forall>v sv. sfs_mem fs v = Some sv \<longrightarrow> vn_refcount sv < 2 ^ 31 - 1"
    and "sfi_type (dec_inode (disk fs ino)) = SFS_TYPE_FILE \<or> sfi_type (dec_inode (disk fs ino)) = SFS_TYPE_DIR"
  shows "\<exists>r fs'. sfs_loadvnode mem ino SFS_TYPE_INVAL fs = Some (r, fs') \<and> table_ok fs' \<and> disk fs' = disk fs \<and> fs_used fs' = fs_used fs \<and>
    ((\<exists>v sv. v \<in> set (loaded fs) \<and> sfs_mem fs v = Some sv \<and> sv_ino sv = ino \<and> r = Inr v \<and> loaded fs' = loaded fs \<and>
        sfs_mem fs' = (sfs_mem fs)(v \<mapsto> sv\<lparr>vn_refcount := vn_refcount sv + 1\<rparr>)) \<or>
     ino \<notin> vn_ino fs ` set (loaded fs) \<and>
       (r = Inl ENOMEM \<and> \<not> vmem_enough mem \<and> loaded fs' = loaded fs \<and> sfs_mem fs' = sfs_mem fs \<or>
        (\<exists>v. vm_addr mem = Some v \<and> r = Inr v \<and> loaded fs' = loaded fs @ [v] \<and>
           sfs_mem fs' = (sfs_mem fs)(v \<mapsto> new_vnode ino (dec_inode (disk fs ino)) False))))"
  by (rule loadvnode_result [OF assms])

text \<open>
  C35. A lost block. When \<open>kmalloc\<close> fails in \<open>sfs_makeobj\<close> after the block for the inode was allocated,
  the call reports \<open>ENOMEM\<close>, no vnode is made, and the block stays marked in use although nothing
  refers to it.
\<close>

theorem sfs_makeobj_leaks:
  assumes "table_ok fs" and "\<not> fs_full fs" and "vm_addr mem = None"
  shows "\<exists>b fs'. sfs_makeobj mem type fs = Some (Inl ENOMEM, fs') \<and> b \<notin> fs_used fs \<and> fs_used fs' = insert b (fs_used fs) \<and>
    loaded fs' = loaded fs \<and> sfs_mem fs' = sfs_mem fs"
proof (cases rule: balloc_cases [OF table_okD(1) [OF assms(1)], case_names full got])
  case full
  then show ?thesis using assms(2) by simp
next
  case (got b fs1)
  have k: "loaded fs1 = loaded fs" "sfs_mem fs1 = sfs_mem fs" "sfs_super fs1 = sfs_super fs" "sfs_vnodes fs1 = sfs_vnodes fs"
    using got(3) by (simp_all add: keeps_def loaded_def)
  have ino: "vn_ino fs1 = vn_ino fs" using k(2) by (simp add: vn_ino_def fun_eq_iff)
  have "vnode_ok fs1 v" if "v \<in> set (loaded fs)" for v using table_okD(5) [OF assms(1) that] got(8) k by (auto simp: vnode_ok_def)
  then have t1: "table_ok fs1" using assms(1) got(2) k ino by (simp add: table_ok_def)
  have "find (\<lambda>v. vn_ino fs1 v = b) (loaded fs1) = None"
  proof -
    have "vn_ino fs v \<noteq> b" if "v \<in> set (loaded fs)" for v
      using vnode_okE [OF table_okD(5) [OF assms(1) that]] got(5) by metis
    then show ?thesis using k ino by (simp add: find_None_iff)
  qed
  then have "sfs_makeobj mem type fs = Some (Inl ENOMEM, fs1)"
    using got(1) loadvnode_find_ok [OF t1, of b] assms(3) by (simp add: sfs_makeobj_def sfs_loadvnode_def)
  then show ?thesis using got(5,8) k by blast
qed

section \<open>Erasing a file\<close>

lemma past_zero: "past 0 k"
  by (simp add: past_def)

lemma truncate_to_zero:
  assumes ok: "fs_ok fs" "file_ok fs (sv_i sv)"
  obtains sv' fs' where "sfs_truncate sv 0 fs = Some (Inr (), sv', fs')" and "fs_ok fs'" and "keeps fs fs'"
    and "fs_used fs' = fs_used fs - set (claimed (disk fs) (sv_i sv))" and "sv_keeps sv sv'" and "sv_dirty sv'" and "inode_ok (sv_i sv')"
    and "sfi_linkcount (sv_i sv') = sfi_linkcount (sv_i sv)"
proof -
  have len: "(0 :: int) \<le> 0" "(0 :: int) + 512 < 2 ^ 31" by simp_all
  obtain sv' fs' i where r: "sfs_truncate sv 0 fs = Some (Inr (), sv', fs')" "sv_i sv' = i\<lparr>sfi_size := nat 0\<rparr>" "shrinks fs (sv_i sv) fs' i"
      "\<forall>k < 143. ents (disk fs') i ! k = (if past ((nat 0 + 511) div 512) k then 0 else ents (disk fs) (sv_i sv) ! k)"
      "sv_keeps sv sv'" "sv_dirty sv'" "(nat 0 + 511) div 512 < 142 \<longrightarrow> sfi_indirect i \<noteq> 0 \<longrightarrow> (\<exists>k < 128. ids (disk fs') i ! k \<noteq> 0)"
    by (rule truncate_runs [OF ok len])
  have ok': "fs_ok fs'" "file_ok fs' i" using r(3) by (simp_all add: shrinks_def)
  have l: "length (ents (disk fs') i) = 143" "length (sfi_direct i) = 15"
    using file_ok_length [OF ok'] ok'(2) by (simp_all add: file_ok_def inode_ok_def)
  have z: "ents (disk fs') i ! k = 0" if "k < 143" for k using r(4) that by (simp add: past_zero)
  have "ids (disk fs') i ! k = 0" if "k < 128" for k using z [of "15 + k"] that l(2) by (simp add: ents_def nth_append)
  then have "sfi_indirect i = 0" using r(7) by auto
  moreover have "set (ents (disk fs') i) \<subseteq> {0}" using z l(1) by (auto simp: in_set_conv_nth)
  ultimately have "claimed (disk fs') i = []" unfolding claimed_def by (auto simp: filter_empty_conv)
  then have "fs_used fs' = fs_used fs - set (claimed (disk fs) (sv_i sv))" using r(3) by (simp add: shrinks_def)
  moreover have "inode_ok (sv_i sv')" using ok'(2) r(2) by (simp add: file_ok_def inode_ok_def)
  moreover have "sfi_linkcount (sv_i sv') = sfi_linkcount (sv_i sv)" using r(2,3) by (simp add: shrinks_def)
  moreover have "keeps fs fs'" using r(3) by (simp add: shrinks_def)
  ultimately show ?thesis using that r(1,5,6) ok'(1) by blast
qed

lemma forget_ok:
  assumes "array_ok (sfs_vnodes fs)" and "distinct (loaded fs)" and "v \<in> set (loaded fs)" and "sfs_mem fs v = Some sv"
    and "vn_refcount sv = 1" and "vn_opencount sv = 0"
  obtains arr where "reclaim_forget v fs = Some (fs\<lparr>sfs_vnodes := arr, sfs_mem := (sfs_mem fs)(v := None)\<rparr>)"
    and "array_ok arr" and "array_list arr = remove1 v (loaded fs)"
proof -
  obtain hit where hit: "array_scan (\<lambda>w. w = v) (sfs_vnodes fs) = Some hit" using array_scan_returns [OF assms(1)] by blast
  moreover have "hit \<noteq> None" using array_scan_none_iff [OF assms(1), of "\<lambda>w. w = v"] hit assms(3) by (auto simp: loaded_def)
  ultimately obtain ix w where ix: "array_scan (\<lambda>w. w = v) (sfs_vnodes fs) = Some (Some (ix, w))" by auto
  have i: "0 \<le> ix" "ix < a_num (sfs_vnodes fs)" "loaded fs ! nat ix = v"
    using array_scan_hit [OF assms(1) ix] by (auto simp: loaded_def array_getnum_def)
  obtain arr where arr: "array_remove ix (sfs_vnodes fs) = Some arr" "array_ok arr"
      "array_list arr = take (nat ix) (loaded fs) @ drop (Suc (nat ix)) (loaded fs)"
    using array_remove_list [OF assms(1) i(1,2)] by (auto simp: loaded_def)
  have l: "nat ix < length (loaded fs)" using i(1,2) assms(1) by (simp add: loaded_def)
  have split: "loaded fs = take (nat ix) (loaded fs) @ v # drop (Suc (nat ix)) (loaded fs)" using id_take_nth_drop [OF l] i(3) by simp
  have "v \<notin> set (take (nat ix) (loaded fs))" using assms(2) by (subst (asm) split) auto
  then have "remove1 v (loaded fs) = take (nat ix) (loaded fs) @ drop (Suc (nat ix)) (loaded fs)"
    by (subst split) (simp add: remove1_append)
  then show ?thesis using that arr ix assms(4-6) by (simp add: reclaim_forget_def vnode_kill_def)
qed

lemma reclaim_erases:
  assumes t: "table_ok fs" and v: "v \<in> set (loaded fs)" "v \<noteq> 0" "v \<noteq> 0xdeadbeef" and sv: "sfs_mem fs v = Some sv" "vn_refcount sv = 1" "vn_opencount sv = 0"
    and fl: "file_ok fs (sv_i sv)" "sfi_type (sv_i sv) = SFS_TYPE_FILE" "sfi_linkcount (sv_i sv) = 0"
    and ino: "sv_ino sv \<noteq> 0" "sv_ino sv \<notin> set (claimed (disk fs) (sv_i sv))"
  obtains fs' where "sfs_reclaim v fs = Some (Inr (), fs')" and "fs_ok fs'" and "array_ok (sfs_vnodes fs')" and "loaded fs' = remove1 v (loaded fs)"
    and "sfs_mem fs' = (sfs_mem fs)(v := None)" and "fs_used fs' = fs_used fs - set (claimed (disk fs) (sv_i sv)) - {sv_ino sv}"
    and "sfs_super fs' = sfs_super fs"
proof -
  have ok: "fs_ok fs" using table_okD(1) [OF t] .
  have b: "sv_ino sv \<in> fs_used fs" "sv_ino sv < sp_nblocks (sfs_super fs)" using table_okD(5) [OF t v(1)] sv(1) by (auto simp: vnode_ok_def)
  obtain sv1 fs1 where tr: "sfs_truncate sv 0 fs = Some (Inr (), sv1, fs1)" "fs_ok fs1" "keeps fs fs1"
      "fs_used fs1 = fs_used fs - set (claimed (disk fs) (sv_i sv))" "sv_keeps sv sv1" "sv_dirty sv1" "inode_ok (sv_i sv1)"
      "sfi_linkcount (sv_i sv1) = sfi_linkcount (sv_i sv)"
    by (rule truncate_to_zero [OF ok fl(1)])
  let ?fsA = "put_sv v sv1 fs1"
  have kp: "sfs_super fs1 = sfs_super fs" "sfs_vnodes fs1 = sfs_vnodes fs" "sfs_mem fs1 = sfs_mem fs" using tr(3) by (simp_all add: keeps_def)
  have sv1: "vn_refcount sv1 = 1" "vn_opencount sv1 = 0" "sv_ino sv1 = sv_ino sv" using tr(5) sv(2,3) by (simp_all add: sv_keeps_def)
  have okA: "fs_ok ?fsA" using tr(2) by (simp add: put_sv_def fs_ok_def healthy_def fs_used_def)
  have hA: "healthy ?fsA" "sv_ino sv < d_blocks (sfs_device ?fsA)"
    using okA fs_ok_dblocks [OF okA, of "sv_ino sv"] b(2) kp(1) by (simp_all add: fs_ok_def put_sv_def)
  obtain lh where wb: "sfs_wblock (enc_inode (sv_i sv1)) (sv_ino sv) ?fsA = Some (Inr (), ?fsA\<lparr>sfs_device := lh\<rparr>)" "lhd_moved (sfs_device ?fsA) lh"
    by (rule wblock_ok [OF hA enc_lengths(2) [OF tr(7)]])
  let ?sv2 = "sv1\<lparr>sv_dirty := False\<rparr>"
  let ?fsB = "put_sv v ?sv2 (?fsA\<lparr>sfs_device := lh\<rparr>)"
  have okB: "fs_ok ?fsB" using fs_ok_moved [OF okA wb(2)] by (simp add: put_sv_def fs_ok_def healthy_def fs_used_def)
  have usedB: "fs_used ?fsB = fs_used fs - set (claimed (disk fs) (sv_i sv))" using tr(4) by (simp add: put_sv_def fs_used_def)
  have bB: "sv_ino sv \<in> fs_used ?fsB" "sv_ino sv < sp_nblocks (sfs_super ?fsB)" using usedB b ino(2) kp(1) by (simp_all add: put_sv_def)
  obtain bm where fr: "sfs_bfree (sv_ino sv) ?fsB = Some (?fsB\<lparr>sfs_freemap := bm, sfs_freemapdirty := True\<rparr>)"
      "fs_ok (?fsB\<lparr>sfs_freemap := bm, sfs_freemapdirty := True\<rparr>)" "bitmap_used bm = fs_used ?fsB - {sv_ino sv}"
    by (rule bfree_ok [OF okB bB ino(1)])
  let ?fsC = "?fsB\<lparr>sfs_freemap := bm, sfs_freemapdirty := True\<rparr>"
  have C: "sfs_vnodes ?fsC = sfs_vnodes fs" "loaded ?fsC = loaded fs" "sfs_mem ?fsC = (sfs_mem fs)(v \<mapsto> ?sv2)" "sfs_super ?fsC = sfs_super fs"
    using kp by (simp_all add: put_sv_def loaded_def)
  obtain arr where fg: "reclaim_forget v ?fsC = Some (?fsC\<lparr>sfs_vnodes := arr, sfs_mem := (sfs_mem ?fsC)(v := None)\<rparr>)" "array_ok arr"
      "array_list arr = remove1 v (loaded ?fsC)"
    by (rule forget_ok [of ?fsC v ?sv2]) (use table_okD [OF t] C v(1) sv1 in auto)
  let ?fsD = "?fsC\<lparr>sfs_vnodes := arr, sfs_mem := (sfs_mem ?fsC)(v := None)\<rparr>"
  have chk: "vnode_check v ''truncate'' fs = Some ()" using v sv by (simp add: vnode_check_def)
  have tru: "vop_truncate_of v 0 fs = Some (Inr (), ?fsA)" using chk sv(1) fl(2) tr(1) by (simp add: vop_truncate_of_def on_sv_def)
  have syn: "on_sv v sfs_sync_inode ?fsA = Some (Inr (), ?fsB)"
    using wb(1) tr(6) sv1(3) by (simp add: on_sv_def sfs_sync_inode_def put_sv_def)
  have mB: "sfs_mem ?fsB v = Some ?sv2" by (simp add: put_sv_def)
  have l0: "sfi_linkcount (sv_i sv1) = 0" using tr(8) fl(3) by simp
  have "sfs_reclaim v fs = Some (Inr (), ?fsD)"
    unfolding sfs_reclaim_def using sv(1,2) fl(3) tru syn mB l0 fr(1) fg(1) sv1(3) by simp
  moreover have "fs_ok ?fsD" using fr(2) by (simp add: fs_ok_def healthy_def fs_used_def)
  moreover have "loaded ?fsD = remove1 v (loaded fs)" using fg(3) C(2) by (simp add: loaded_def)
  moreover have "sfs_mem ?fsD = (sfs_mem fs)(v := None)" using C(3) by simp
  moreover have "fs_used ?fsD = fs_used fs - set (claimed (disk fs) (sv_i sv)) - {sv_ino sv}" using fr(3) usedB by (simp add: fs_used_def)
  ultimately show ?thesis using that [of ?fsD] fg(2) C(4) by simp
qed

text \<open>
  C29. The last reference to an unlinked file. When the last reference to a file without links is
  dropped, \<open>vnode_decref\<close> erases the file: its vnode leaves the table and memory, exactly its blocks
  and the block of its inode become free, and every other vnode stays as it is.
\<close>

theorem vnode_decref_erases:
  assumes "table_ok fs" and "v \<in> set (loaded fs)" and "v \<noteq> 0" and "v \<noteq> 0xdeadbeef"
    and "sfs_mem fs v = Some sv" and "vn_refcount sv = 1" and "vn_opencount sv = 0"
    and "file_ok fs (sv_i sv)" and "sfi_type (sv_i sv) = SFS_TYPE_FILE" and "sfi_linkcount (sv_i sv) = 0" and "sv_ino sv \<noteq> 0"
    and "\<forall>w \<in> set (loaded fs). vn_ino fs w \<notin> set (claimed (disk fs) (sv_i sv))"
  shows "\<exists>fs'. vnode_decref v fs = Some fs' \<and> table_ok fs' \<and> loaded fs' = remove1 v (loaded fs) \<and> sfs_mem fs' = (sfs_mem fs)(v := None) \<and>
    fs_used fs' = fs_used fs - set (claimed (disk fs) (sv_i sv)) - {sv_ino sv}"
proof -
  have ino: "sv_ino sv = vn_ino fs v" using assms(5) by (simp add: vn_ino_def)
  then have "sv_ino sv \<notin> set (claimed (disk fs) (sv_i sv))" using assms(2,12) by simp
  then obtain fs' where r: "sfs_reclaim v fs = Some (Inr (), fs')" "fs_ok fs'" "array_ok (sfs_vnodes fs')" "loaded fs' = remove1 v (loaded fs)"
      "sfs_mem fs' = (sfs_mem fs)(v := None)" "fs_used fs' = fs_used fs - set (claimed (disk fs) (sv_i sv)) - {sv_ino sv}" "sfs_super fs' = sfs_super fs"
    by (rule reclaim_erases [OF assms(1-11)])
  have set': "set (loaded fs') = set (loaded fs) - {v}" using r(4) table_okD(3) [OF assms(1)] by simp
  have same: "vn_ino fs' w = vn_ino fs w" if "w \<noteq> v" for w using r(5) that by (simp add: vn_ino_def)
  have "vnode_ok fs' w" if w: "w \<in> set (loaded fs')" for w
  proof -
    have w': "w \<in> set (loaded fs)" "w \<noteq> v" using w set' by auto
    obtain s where s: "sfs_mem fs w = Some s" "1 \<le> vn_refcount s" "vn_refcount s < 2 ^ 31" "0 \<le> vn_opencount s" "sv_ino s = vn_ino fs w"
        "vn_ino fs w \<in> fs_used fs" "vn_ino fs w < sp_nblocks (sfs_super fs)"
      by (rule vnode_okE [OF table_okD(5) [OF assms(1) w'(1)]])
    have "vn_ino fs w \<noteq> sv_ino sv" using inj_onD [OF table_okD(4) [OF assms(1)] _ w'(1) assms(2)] w'(2) ino by auto
    then have "vn_ino fs w \<in> fs_used fs'" using s(6) r(6) assms(12) w'(1) by simp
    then show ?thesis using s w'(2) r(5,7) by (auto simp: vnode_ok_def)
  qed
  moreover have "inj_on (vn_ino fs') (set (loaded fs'))"
  proof -
    have "inj_on (vn_ino fs) (set (loaded fs) - {v})" by (rule inj_on_subset [OF table_okD(4) [OF assms(1)]]) auto
    moreover have "inj_on (vn_ino fs') (set (loaded fs) - {v}) = inj_on (vn_ino fs) (set (loaded fs) - {v})" by (rule inj_on_cong) (use same in auto)
    ultimately show ?thesis using set' by simp
  qed
  moreover have "distinct (loaded fs')" using r(4) table_okD(3) [OF assms(1)] by simp
  ultimately have "table_ok fs'" using r(2,3) by (simp add: table_ok_def)
  moreover have "vnode_decref v fs = Some fs'" using assms(3-7) r(1) by (simp add: vnode_decref_def vnode_check_def)
  ultimately show ?thesis using r(4-6) by blast
qed

section \<open>Examples\<close>

text \<open>The small volume with one vnode in its table, of an unlinked empty file in block 2.\<close>

definition gone_sv :: sfs_vnode where
  "gone_sv = small_sv\<lparr>vn_opencount := 0, sv_i := (sv_i small_sv)\<lparr>sfi_linkcount := 0\<rparr>\<rparr>"

definition one_vnode :: sfs_fs where
  "one_vnode = put_sv 16 gone_sv (small_fs\<lparr>sfs_vnodes := \<lparr>a_num = 1, a_max = 1, a_v = Some [16]\<rparr>\<rparr>)"

lemma one_vnode_used: "2 \<in> fs_used one_vnode"
  by (simp add: one_vnode_def put_sv_def small_fs_def fs_used_def bitmap_used_def bitmap_bit_def bit_simps)

lemma one_vnode_loaded: "loaded one_vnode = [16]"
  by (simp add: one_vnode_def put_sv_def loaded_def array_list_def array_cells_def)

lemma one_vnode_ok: "table_ok one_vnode"
proof -
  have "fs_ok one_vnode" using small_fs_ok by (simp add: one_vnode_def put_sv_def fs_ok_def healthy_def fs_used_def)
  moreover have "array_ok (sfs_vnodes one_vnode)" by (simp add: one_vnode_def put_sv_def array_ok_def array_cells_def)
  moreover have "vnode_ok one_vnode 16"
    using one_vnode_used by (simp add: vnode_ok_def) (simp add: one_vnode_def put_sv_def gone_sv_def small_sv_def small_fs_def some_disk_def)
  ultimately show ?thesis by (simp add: table_ok_def one_vnode_loaded)
qed

definition no_mem :: vmem where
  "no_mem = \<lparr>vm_addr = None, vm_lock = True, vm_table = (\<lambda>_. None)\<rparr>"

text \<open>Block 1 as the inode of a directory.\<close>

definition root_disk :: sfs_fs where
  "root_disk = one_vnode\<lparr>sfs_device := (sfs_device one_vnode)\<lparr>hw_sect := (disk one_vnode)(1 := enc_inode (sv_i small_dir))\<rparr>\<rparr>"

lemma root_disk_ok: "table_ok root_disk"
proof -
  have i: "inode_ok (sv_i small_dir)" using small_dir_wf by (simp add: dir_wf_def file_ok_def)
  have "fs_ok root_disk"
    using table_okD(1) [OF one_vnode_ok] enc_lengths(2) [OF i] by (simp add: root_disk_def fs_ok_def healthy_def lhd_ok_def fault_free_def disk_def fs_used_def)
  moreover have "vnode_ok root_disk = vnode_ok one_vnode" "vn_ino root_disk = vn_ino one_vnode" "loaded root_disk = loaded one_vnode"
    by (auto simp: vnode_ok_def vn_ino_def loaded_def root_disk_def fs_used_def)
  ultimately show ?thesis using one_vnode_ok by (simp add: table_ok_def) (simp add: root_disk_def)
qed

lemma root_disk_inode: "dec_inode (disk root_disk 1) = sv_i small_dir"
  using dec_inode_enc [of "sv_i small_dir"] small_dir_wf by (simp add: root_disk_def disk_def dir_wf_def file_ok_def)

lemma root_disk_facts:
  "1 \<in> fs_used root_disk" "1 < sp_nblocks (sfs_super root_disk)" "loaded root_disk = [16]"
  "\<forall>v sv. sfs_mem root_disk v = Some sv \<longrightarrow> vn_refcount sv < 2 ^ 31 - 1"
  by (simp_all add: root_disk_def one_vnode_def put_sv_def small_fs_def some_disk_def fs_used_def bitmap_used_def bitmap_bit_def bit_simps
      loaded_def array_list_def array_cells_def gone_sv_def small_sv_def)

definition good_mem :: vmem where
  "good_mem = \<lparr>vm_addr = Some 80, vm_lock = True, vm_table = (\<lambda>n. Some (replicate (n div 4) 0))\<rparr>"

lemma good_mem_ok: "vmem_enough good_mem" "kmalloc_ok (vm_table good_mem)" "vm_addr good_mem = Some 80"
  by (simp_all add: vmem_enough_def good_mem_def kmalloc_ok_def)

theorem sfs_loadvnode_correct_witness:
  "\<exists>fs'. sfs_loadvnode good_mem 1 SFS_TYPE_INVAL root_disk = Some (Inr 80, fs') \<and> table_ok fs' \<and> disk fs' = disk root_disk \<and> fs_used fs' = fs_used root_disk \<and>
    loaded fs' = [16, 80] \<and> sfs_mem fs' = (sfs_mem root_disk)(80 \<mapsto> new_vnode 1 (sv_i small_dir) False)"
proof -
  have type: "sfi_type (dec_inode (disk root_disk 1)) = SFS_TYPE_FILE \<or> sfi_type (dec_inode (disk root_disk 1)) = SFS_TYPE_DIR"
    unfolding root_disk_inode by (simp add: small_dir_def)
  have other: "sv_ino sv = 2" if "sfs_mem root_disk 16 = Some sv" for sv
    using that by (simp add: root_disk_def one_vnode_def put_sv_def) (auto simp: gone_sv_def small_sv_def)
  have fresh: "\<forall>v. vm_addr good_mem = Some v \<longrightarrow> v \<notin> set (loaded root_disk)" "length (loaded root_disk) < 2 ^ 28"
    by (simp_all add: good_mem_ok root_disk_facts)
  show ?thesis
    using sfs_loadvnode_correct [OF root_disk_ok root_disk_facts(1,2) good_mem_ok(2) fresh(2,1) root_disk_facts(4) type] good_mem_ok other
    unfolding root_disk_facts(3) root_disk_inode by fastforce
qed

theorem sfs_makeobj_leaks_witness:
  "\<exists>b fs'. sfs_makeobj no_mem SFS_TYPE_FILE one_vnode = Some (Inl ENOMEM, fs') \<and> b \<notin> fs_used one_vnode \<and> fs_used fs' = insert b (fs_used one_vnode) \<and>
    loaded fs' = loaded one_vnode \<and> sfs_mem fs' = sfs_mem one_vnode"
proof (rule sfs_makeobj_leaks [OF one_vnode_ok])
  have "8 \<notin> fs_used one_vnode" "8 < nbits (sfs_freemap one_vnode)"
    by (simp_all add: one_vnode_def put_sv_def small_fs_def fs_used_def bitmap_used_def bitmap_bit_def nth_append)
  then show "\<not> fs_full one_vnode" by (auto simp: fs_full_def)
  show "vm_addr no_mem = None" by (simp add: no_mem_def)
qed

theorem vnode_decref_erases_witness:
  "\<exists>fs'. vnode_decref 16 one_vnode = Some fs' \<and> table_ok fs' \<and> loaded fs' = remove1 16 (loaded one_vnode) \<and> sfs_mem fs' = (sfs_mem one_vnode)(16 := None) \<and>
    fs_used fs' = fs_used one_vnode - set (claimed (disk one_vnode) (sv_i gone_sv)) - {sv_ino gone_sv}"
proof (rule vnode_decref_erases [OF one_vnode_ok])
  have cl: "claimed d (sv_i gone_sv) = []" for d by (simp add: claimed_def ents_def ids_def gone_sv_def small_sv_def)
  show "file_ok one_vnode (sv_i gone_sv)" by (simp add: file_ok_def cl) (simp add: gone_sv_def small_sv_def inode_ok_def)
  show "\<forall>w \<in> set (loaded one_vnode). vn_ino one_vnode w \<notin> set (claimed (disk one_vnode) (sv_i gone_sv))" by (simp add: cl)
  show "sfs_mem one_vnode 16 = Some gone_sv" by (simp add: one_vnode_def put_sv_def)
qed (simp_all add: one_vnode_loaded gone_sv_def small_sv_def SFS_TYPE_FILE_def)

end
