(* ===== verification/SfsFs.thy ===== *)
theory SfsFs
  imports SfsVnodeInv
begin

text \<open>
  The file-system level of SFS (\<open>kern/fs/sfs/sfs_fs.c\<close>): the free map on disk, \<open>sfs_sync\<close>,
  \<open>sfs_unmount\<close> and \<open>sfs_domount\<close>, with the property that what is synced is what is mounted.
  \<open>sfs_mount\<close> only hands \<open>sfs_domount\<close> to the VFS layer. Warnings that are only printed are left out.
\<close>

section \<open>Operations\<close>

text \<open>The loop of \<open>sfs_mapio\<close> from sector \<open>j\<close> of the map with \<open>n\<close> sectors to go.\<close>

primrec mapio_loop :: "uio_rw \<Rightarrow> nat \<Rightarrow> nat \<Rightarrow> sfs_fs \<Rightarrow> (unit kres \<times> sfs_fs) option" where
  "mapio_loop rw j 0 fs = Some (Inr (), fs)"
| "mapio_loop rw j (Suc n) fs = do {
     let bitdata = bitmap_getdata (sfs_freemap fs);
     let off = j * SFS_BLOCKSIZE;
     kassert (off + SFS_BLOCKSIZE \<le> length bitdata);
     let ptr = take SFS_BLOCKSIZE (drop off bitdata);
     (result, fs1) \<leftarrow> (case rw of
         UIO_READ \<Rightarrow> do {
           (r, data, fs1) \<leftarrow> sfs_rblock ptr (SFS_MAP_LOCATION + j) fs;
           Some (r, fs1\<lparr>sfs_freemap := (sfs_freemap fs1)\<lparr>bm_v := take off bitdata @ data @ drop (off + SFS_BLOCKSIZE) bitdata\<rparr>\<rparr>)
         }
       | UIO_WRITE \<Rightarrow> sfs_wblock ptr (SFS_MAP_LOCATION + j) fs);
     case result of Inl e \<Rightarrow> Some (Inl e, fs1) | Inr _ \<Rightarrow> mapio_loop rw (j + 1) n fs1
   }"

definition sfs_mapio :: "uio_rw \<Rightarrow> sfs_fs \<Rightarrow> (unit kres \<times> sfs_fs) option" where
  "sfs_mapio rw fs = mapio_loop rw 0 (SFS_BITBLOCKS (sp_nblocks (sfs_super fs))) fs"

text \<open>The loop of \<open>sfs_sync\<close> over the loaded vnodes; the results of \<open>VOP_FSYNC\<close> are ignored.\<close>

primrec sync_vnodes :: "int \<Rightarrow> nat \<Rightarrow> sfs_fs \<Rightarrow> sfs_fs option" where
  "sync_vnodes i 0 fs = Some fs"
| "sync_vnodes i (Suc n) fs = do {
     v \<leftarrow> array_getguy (sfs_vnodes fs) i;
     vnode_check v ''fsync'' fs;
     (r, fs1) \<leftarrow> sfs_fsync v fs;
     sync_vnodes (i + 1) n fs1
   }"

definition sync_freemap :: "sfs_fs \<Rightarrow> (unit kres \<times> sfs_fs) option" where
  "sync_freemap fs =
     (if sfs_freemapdirty fs then do {
        (result, fs1) \<leftarrow> sfs_mapio UIO_WRITE fs;
        case result of Inl e \<Rightarrow> Some (Inl e, fs1) | Inr _ \<Rightarrow> Some (Inr (), fs1\<lparr>sfs_freemapdirty := False\<rparr>)
      }
      else Some (Inr (), fs))"

definition sync_super :: "sfs_fs \<Rightarrow> (unit kres \<times> sfs_fs) option" where
  "sync_super fs =
     (if sfs_superdirty fs then do {
        (result, fs1) \<leftarrow> sfs_wblock (enc_super (sfs_super fs)) SFS_SB_LOCATION fs;
        case result of Inl e \<Rightarrow> Some (Inl e, fs1) | Inr _ \<Rightarrow> Some (Inr (), fs1\<lparr>sfs_superdirty := False\<rparr>)
      }
      else Some (Inr (), fs))"

definition sfs_sync :: "sfs_fs \<Rightarrow> (unit kres \<times> sfs_fs) option" where
  "sfs_sync fs = do {
     fs1 \<leftarrow> sync_vnodes 0 (nat (array_getnum (sfs_vnodes fs))) fs;
     (r, fs2) \<leftarrow> sync_freemap fs1;
     case r of Inl e \<Rightarrow> Some (Inl e, fs2) | Inr _ \<Rightarrow> sync_super fs2
   }"

definition sfs_getvolname :: "sfs_fs \<Rightarrow> byte list" where
  "sfs_getvolname fs = sp_volname (sfs_super fs)"

text \<open>On success the structure is gone and the device is left.\<close>

definition sfs_unmount :: "sfs_fs \<Rightarrow> lhd_softc kres option" where
  "sfs_unmount fs =
     (if array_getnum (sfs_vnodes fs) > 0 then Some (Inl EBUSY)
      else do {
        kassert (\<not> sfs_superdirty fs);
        kassert (\<not> sfs_freemapdirty fs);
        Some (Inr (sfs_device fs))
      })"

text \<open>What \<open>kmalloc\<close> returns to \<open>sfs_domount\<close> and to the functions it calls.\<close>

record mount_mem =
  mm_sfs :: bool
  mm_array :: bool
  mm_bitmap :: bool
  mm_bits :: "nat \<Rightarrow> 8 word list option"

definition mount_enough :: "mount_mem \<Rightarrow> bool" where
  "mount_enough mem \<longleftrightarrow> mm_sfs mem \<and> mm_array mem \<and> mm_bitmap mem \<and> (\<forall>n. mm_bits mem n \<noteq> None)"

text \<open>The fields of the new structure that are set later hold whatever \<open>kmalloc\<close> left there; they are not read before.\<close>

definition mount_start :: "nat array \<Rightarrow> lhd_softc \<Rightarrow> sfs_super \<Rightarrow> bitmap \<Rightarrow> sfs_fs" where
  "mount_start vnodes dev super bm = \<lparr>sfs_super = super, sfs_superdirty = False, sfs_device = dev, sfs_vnodes = vnodes,
     sfs_freemap = bm, sfs_freemapdirty = False, sfs_mem = (\<lambda>_. None)\<rparr>"

text \<open>The part of \<open>sfs_domount\<close> after the superblock was read.\<close>

definition mount_map :: "mount_mem \<Rightarrow> sfs_fs \<Rightarrow> (sfs_fs kres \<times> lhd_softc) option" where
  "mount_map mem fs =
     (if sp_magic (sfs_super fs) \<noteq> SFS_MAGIC then Some (Inl EINVAL, sfs_device fs)
      else do {
        let fs1 = fs\<lparr>sfs_super := (sfs_super fs)\<lparr>sp_volname := (sp_volname (sfs_super fs))[SFS_VOLNAME_SIZE - 1 := 0]\<rparr>\<rparr>;
        freemap \<leftarrow> bitmap_create (mm_bitmap mem) (mm_bits mem) (SFS_BITMAPSIZE (sp_nblocks (sfs_super fs1)));
        case freemap of None \<Rightarrow> Some (Inl ENOMEM, sfs_device fs1)
        | Some bm \<Rightarrow> do {
            (result, fs2) \<leftarrow> sfs_mapio UIO_READ (fs1\<lparr>sfs_freemap := bm\<rparr>);
            case result of Inl e \<Rightarrow> Some (Inl e, sfs_device fs2)
            | Inr _ \<Rightarrow> Some (Inr (fs2\<lparr>sfs_superdirty := False, sfs_freemapdirty := False\<rparr>), sfs_device fs2)
          }
      })"

definition sfs_domount :: "mount_mem \<Rightarrow> lhd_softc \<Rightarrow> (sfs_fs kres \<times> lhd_softc) option" where
  "sfs_domount mem dev =
     (if d_blocksize dev \<noteq> SFS_BLOCKSIZE then Some (Inl ENXIO, dev)
      else if \<not> mm_sfs mem then Some (Inl ENOMEM, dev)
      else case array_create (mm_array mem) of
        None \<Rightarrow> Some (Inl ENOMEM, dev)
      | Some vnodes \<Rightarrow> do {
          let fs = mount_start vnodes dev (dec_super zero_block) \<lparr>nbits = 0, bm_v = []\<rparr>;
          (result, data, fs1) \<leftarrow> sfs_rblock zero_block SFS_SB_LOCATION fs;
          case result of Inl e \<Rightarrow> Some (Inl e, sfs_device fs1)
          | Inr _ \<Rightarrow> mount_map mem (fs1\<lparr>sfs_super := dec_super data\<rparr>)
        })"

section \<open>The map on disk\<close>

definition chunk :: "byte list \<Rightarrow> nat \<Rightarrow> byte list" where
  "chunk v k = take 512 (drop (512 * k) v)"

lemma length_chunk: "length v = 512 * N \<Longrightarrow> k < N \<Longrightarrow> length (chunk v k) = 512"
  by (simp add: chunk_def)

lemma concat_chunks:
  assumes "length v = 512 * N" and "n \<le> N"
  shows "concat (map (chunk v) [0..<n]) = take (512 * n) v"
  using assms(2)
proof (induction n)
  case (Suc n)
  have "take (512 * Suc n) v = take (512 * n) v @ take 512 (drop (512 * n) v)"
    using take_add [of "512 * n" 512 v] by (simp add: add.commute)
  then show ?case using Suc by (simp add: chunk_def)
qed simp

lemma mapio_write:
  assumes "healthy fs" and "length (bm_v (sfs_freemap fs)) = 512 * N" and "2 + N \<le> d_blocks (sfs_device fs)" and "j + n = N"
  shows "\<exists>lh. mapio_loop UIO_WRITE j n fs = Some (Inr (), fs\<lparr>sfs_device := lh\<rparr>) \<and> lhd_moved (sfs_device fs) lh \<and>
     hw_sect lh = (\<lambda>b. if 2 + j \<le> b \<and> b < 2 + N then chunk (bm_v (sfs_freemap fs)) (b - 2) else disk fs b)"
  using assms(1,3,4) assms(2)
proof (induction n arbitrary: j fs)
  case 0
  then show ?case by (intro exI [of _ "sfs_device fs"]) (auto simp: healthy_def disk_def lhd_moved_def fun_eq_iff)
next
  case (Suc n)
  let ?v = "bm_v (sfs_freemap fs)"
  have j: "j < N" "Suc j + n = N" using Suc.prems(3) by auto
  have len: "length (chunk ?v j) = 512" by (rule length_chunk [OF Suc.prems(4) j(1)])
  have "2 + j < d_blocks (sfs_device fs)" using Suc.prems(2) j(1) by simp
  then obtain lh where wb: "sfs_wblock (chunk ?v j) (2 + j) fs = Some (Inr (), fs\<lparr>sfs_device := lh\<rparr>)" "lhd_moved (sfs_device fs) lh"
      "hw_sect lh = (disk fs)(2 + j := chunk ?v j)"
    by (rule wblock_ok [OF Suc.prems(1) _ len])
  let ?fs = "fs\<lparr>sfs_device := lh\<rparr>"
  have h: "healthy ?fs" by (rule healthy_moved [OF Suc.prems(1) wb(2)])
  have b: "2 + N \<le> d_blocks (sfs_device ?fs)" "length (bm_v (sfs_freemap ?fs)) = 512 * N"
    using Suc.prems(2,4) lhd_moved_blocks [OF wb(2)] by simp_all
  obtain lh' where ih: "mapio_loop UIO_WRITE (Suc j) n ?fs = Some (Inr (), ?fs\<lparr>sfs_device := lh'\<rparr>)" "lhd_moved (sfs_device ?fs) lh'"
      "hw_sect lh' = (\<lambda>b. if 2 + Suc j \<le> b \<and> b < 2 + N then chunk (bm_v (sfs_freemap ?fs)) (b - 2) else disk ?fs b)"
    using Suc.IH [OF h b(1) j(2) b(2)] by blast
  have off: "j * 512 + 512 \<le> length ?v" using Suc.prems(4) j(1) by simp
  have "mapio_loop UIO_WRITE j (Suc n) fs = Some (Inr (), fs\<lparr>sfs_device := lh'\<rparr>)"
    using off wb(1) ih(1) by (simp add: Let_def bitmap_getdata_def SFS_BLOCKSIZE_def SFS_MAP_LOCATION_def chunk_def mult.commute)
  moreover have "hw_sect lh' = (\<lambda>b. if 2 + j \<le> b \<and> b < 2 + N then chunk ?v (b - 2) else disk fs b)"
    unfolding ih(3) using wb(3) j(1) by (auto simp: disk_def fun_eq_iff)
  moreover have "lhd_moved (sfs_device fs) lh'"
    using lhd_moved_trans [OF wb(2)] ih(2) by simp
  ultimately show ?case by blast
qed

lemma mapio_read:
  assumes "healthy fs" and "length (bm_v (sfs_freemap fs)) = 512 * N" and "2 + N \<le> d_blocks (sfs_device fs)" and "j + n = N"
  shows "\<exists>lh. mapio_loop UIO_READ j n fs = Some (Inr (), fs\<lparr>sfs_device := lh, sfs_freemap := (sfs_freemap fs)\<lparr>bm_v :=
       take (512 * j) (bm_v (sfs_freemap fs)) @ concat (map (\<lambda>k. disk fs (2 + k)) [j..<N])\<rparr>\<rparr>) \<and> hw_sect lh = disk fs \<and> lhd_moved (sfs_device fs) lh"
  using assms(1,3,4) assms(2)
proof (induction n arbitrary: j fs)
  case 0
  then show ?case by (intro exI [of _ "sfs_device fs"]) (simp add: disk_def healthy_def lhd_moved_def)
next
  case (Suc n)
  let ?v = "bm_v (sfs_freemap fs)"
  have j: "j < N" "Suc j + n = N" using Suc.prems(3) by auto
  have len: "length (chunk ?v j) = 512" by (rule length_chunk [OF Suc.prems(4) j(1)])
  have "2 + j < d_blocks (sfs_device fs)" using Suc.prems(2) j(1) by simp
  then obtain lh where rb: "sfs_rblock (chunk ?v j) (2 + j) fs = Some (Inr (), disk fs (2 + j), fs\<lparr>sfs_device := lh\<rparr>)" "lhd_moved (sfs_device fs) lh"
      "hw_sect lh = disk fs"
    by (rule rblock_ok [OF Suc.prems(1) _ len])
  let ?w = "take (512 * j) ?v @ disk fs (2 + j) @ drop (512 * j + 512) ?v"
  let ?fs = "fs\<lparr>sfs_device := lh, sfs_freemap := (sfs_freemap fs)\<lparr>bm_v := ?w\<rparr>\<rparr>"
  have sect: "length (disk fs (2 + j)) = 512" using Suc.prems(1) by (simp add: healthy_def lhd_ok_def disk_def)
  have h: "healthy ?fs" using healthy_moved [OF Suc.prems(1) rb(2)] by (simp add: healthy_def)
  have b: "2 + N \<le> d_blocks (sfs_device ?fs)" "length (bm_v (sfs_freemap ?fs)) = 512 * N" "disk ?fs = disk fs"
    using Suc.prems(2,4) lhd_moved_blocks [OF rb(2)] rb(3) sect j(1) by (simp_all add: disk_def)
  obtain lh' where ih: "mapio_loop UIO_READ (Suc j) n ?fs = Some (Inr (), ?fs\<lparr>sfs_device := lh', sfs_freemap := (sfs_freemap ?fs)\<lparr>bm_v :=
       take (512 * Suc j) (bm_v (sfs_freemap ?fs)) @ concat (map (\<lambda>k. disk ?fs (2 + k)) [Suc j..<N])\<rparr>\<rparr>)" "hw_sect lh' = disk ?fs" "lhd_moved (sfs_device ?fs) lh'"
    using Suc.IH [OF h b(1) j(2) b(2)] by blast
  have off: "j * 512 + 512 \<le> length ?v" using Suc.prems(4) j(1) by simp
  have "mapio_loop UIO_READ j (Suc n) fs = mapio_loop UIO_READ (Suc j) n ?fs"
    using off rb(1) by (simp add: Let_def bitmap_getdata_def SFS_BLOCKSIZE_def SFS_MAP_LOCATION_def chunk_def mult.commute add.commute)
  moreover have "take (512 * Suc j) ?w = take (512 * j) ?v @ disk fs (2 + j)" using off sect by (simp add: mult.commute)
  moreover have "[j..<N] = j # [Suc j..<N]" using j(1) by (rule upt_conv_Cons)
  moreover have "lhd_moved (sfs_device fs) lh'" using lhd_moved_trans [OF rb(2)] ih(3) by simp
  ultimately show ?case using ih(1,2) b(3) by (intro exI [of _ lh']) simp
qed

section \<open>What is synced is what is mounted\<close>

definition map_stored :: "sfs_fs \<Rightarrow> bool" where
  "map_stored fs \<longleftrightarrow> (\<forall>k < SFS_BITBLOCKS (sp_nblocks (sfs_super fs)). disk fs (2 + k) = chunk (bm_v (sfs_freemap fs)) k)"

definition super_stored :: "sfs_fs \<Rightarrow> bool" where
  "super_stored fs \<longleftrightarrow> disk fs 0 = enc_super (sfs_super fs)"

text \<open>A volume as \<open>sfs_domount\<close> accepts it: a clean flag means that the data are on the disk.\<close>

definition volume_ok :: "sfs_fs \<Rightarrow> bool" where
  "volume_ok fs \<longleftrightarrow> healthy fs \<and> d_blocksize (sfs_device fs) = 512 \<and> super_ok (sfs_super fs) \<and>
     sp_magic (sfs_super fs) = SFS_MAGIC \<and> sp_volname (sfs_super fs) ! 31 = 0 \<and>
     bitmap_ok (sfs_freemap fs) \<and> nbits (sfs_freemap fs) = SFS_BITMAPSIZE (sp_nblocks (sfs_super fs)) \<and>
     2 + SFS_BITBLOCKS (sp_nblocks (sfs_super fs)) \<le> d_blocks (sfs_device fs) \<and>
     (sfs_freemapdirty fs \<or> map_stored fs) \<and> (sfs_superdirty fs \<or> super_stored fs)"

lemma bitmap_size: "SFS_BITMAPSIZE n = 4096 * SFS_BITBLOCKS n" "SFS_BITMAPSIZE n \<le> 2 ^ 32 - 8"
proof -
  let ?k = "(n + 4096 - 1) mod 2 ^ 32 div 4096"
  have "(n + 4096 - 1) mod 2 ^ 32 < 4096 * 2 ^ 20" by simp
  then have k: "?k < 2 ^ 20" by (simp only: less_mult_imp_div_less mult.commute)
  then have s: "SFS_BITMAPSIZE n = ?k * 4096" by (simp add: SFS_BITMAPSIZE_def SFS_ROUNDUP_def SFS_BLOCKBITS_def SFS_BLOCKSIZE_def)
  then show "SFS_BITMAPSIZE n = 4096 * SFS_BITBLOCKS n" by (simp add: SFS_BITBLOCKS_def SFS_BLOCKBITS_def SFS_BLOCKSIZE_def)
  show "SFS_BITMAPSIZE n \<le> 2 ^ 32 - 8" unfolding s using k by simp
qed

lemma bitmap_length:
  "bitmap_ok b \<Longrightarrow> nbits b = SFS_BITMAPSIZE n \<Longrightarrow> length (bm_v b) = 512 * SFS_BITBLOCKS n"
  using bitmap_size(1) [of n] by (simp add: bitmap_ok_def)

lemma sync_freemap_ok:
  assumes "volume_ok fs"
  obtains fs' lh where "sync_freemap fs = Some (Inr (), fs')" and "fs' = fs\<lparr>sfs_device := lh, sfs_freemapdirty := False\<rparr>"
    and "lhd_moved (sfs_device fs) lh" and "map_stored fs'" and "\<forall>b. b < 2 \<or> 2 + SFS_BITBLOCKS (sp_nblocks (sfs_super fs)) \<le> b \<longrightarrow> disk fs' b = disk fs b"
proof (cases "sfs_freemapdirty fs")
  case True
  have v: "healthy fs" "length (bm_v (sfs_freemap fs)) = 512 * SFS_BITBLOCKS (sp_nblocks (sfs_super fs))"
      "2 + SFS_BITBLOCKS (sp_nblocks (sfs_super fs)) \<le> d_blocks (sfs_device fs)"
    using assms bitmap_length by (auto simp: volume_ok_def)
  obtain lh where lh: "mapio_loop UIO_WRITE 0 (SFS_BITBLOCKS (sp_nblocks (sfs_super fs))) fs = Some (Inr (), fs\<lparr>sfs_device := lh\<rparr>)"
      "lhd_moved (sfs_device fs) lh"
      "hw_sect lh = (\<lambda>b. if 2 + 0 \<le> b \<and> b < 2 + SFS_BITBLOCKS (sp_nblocks (sfs_super fs)) then chunk (bm_v (sfs_freemap fs)) (b - 2) else disk fs b)"
    using mapio_write [OF v add_0] by blast
  show thesis
    by (rule that [OF _ refl lh(2)]) (use True lh(1,3) in \<open>auto simp: sync_freemap_def sfs_mapio_def map_stored_def disk_def\<close>)
next
  case False
  have m: "lhd_moved (sfs_device fs) (sfs_device fs)" using assms by (simp add: volume_ok_def healthy_def lhd_moved_def)
  show thesis
    by (rule that [OF _ refl m]) (use False assms in \<open>auto simp: sync_freemap_def volume_ok_def map_stored_def disk_def\<close>)
qed

lemma sync_super_ok:
  assumes "healthy fs" and "super_ok (sfs_super fs)" and "2 \<le> d_blocks (sfs_device fs)" and "sfs_superdirty fs \<or> super_stored fs"
  obtains fs' lh where "sync_super fs = Some (Inr (), fs')" and "fs' = fs\<lparr>sfs_device := lh, sfs_superdirty := False\<rparr>"
    and "lhd_moved (sfs_device fs) lh" and "super_stored fs'" and "\<forall>b > 0. disk fs' b = disk fs b"
proof (cases "sfs_superdirty fs")
  case True
  have "0 < d_blocks (sfs_device fs)" using assms(3) by simp
  then obtain lh where wb: "sfs_wblock (enc_super (sfs_super fs)) 0 fs = Some (Inr (), fs\<lparr>sfs_device := lh\<rparr>)" "lhd_moved (sfs_device fs) lh"
      "hw_sect lh = (disk fs)(0 := enc_super (sfs_super fs))"
    by (rule wblock_ok [OF assms(1) _ enc_lengths(1) [OF assms(2)]])
  show thesis
    by (rule that [OF _ refl wb(2)]) (use True wb(1,3) in \<open>auto simp: sync_super_def super_stored_def disk_def SFS_SB_LOCATION_def\<close>)
next
  case False
  have m: "lhd_moved (sfs_device fs) (sfs_device fs)" using assms by (simp add: healthy_def lhd_moved_def)
  show thesis
    by (rule that [OF _ refl m]) (use False assms in \<open>auto simp: sync_super_def super_stored_def disk_def\<close>)
qed

lemma sync_ok:
  assumes "volume_ok fs" and "array_getnum (sfs_vnodes fs) = 0"
  obtains fs' lh where "sfs_sync fs = Some (Inr (), fs')" and "fs' = fs\<lparr>sfs_device := lh, sfs_freemapdirty := False, sfs_superdirty := False\<rparr>"
    and "volume_ok fs'" and "\<forall>b. b = 1 \<or> 2 + SFS_BITBLOCKS (sp_nblocks (sfs_super fs)) \<le> b \<longrightarrow> disk fs' b = disk fs b"
proof -
  obtain fs1 lh1 where 1: "sync_freemap fs = Some (Inr (), fs1)" "fs1 = fs\<lparr>sfs_device := lh1, sfs_freemapdirty := False\<rparr>"
      "lhd_moved (sfs_device fs) lh1" "map_stored fs1"
      "\<forall>b. b < 2 \<or> 2 + SFS_BITBLOCKS (sp_nblocks (sfs_super fs)) \<le> b \<longrightarrow> disk fs1 b = disk fs b"
    by (rule sync_freemap_ok [OF assms(1)])
  have h: "healthy fs1" "super_ok (sfs_super fs1)" "2 \<le> d_blocks (sfs_device fs1)" "sfs_superdirty fs1 \<or> super_stored fs1"
    using assms(1) 1(2,5) healthy_moved [OF _ 1(3)] lhd_moved_blocks [OF 1(3)] by (auto simp: volume_ok_def super_stored_def healthy_def)
  obtain fs2 lh2 where 2: "sync_super fs1 = Some (Inr (), fs2)" "fs2 = fs1\<lparr>sfs_device := lh2, sfs_superdirty := False\<rparr>"
      "lhd_moved (sfs_device fs1) lh2" "super_stored fs2" "\<forall>b > 0. disk fs2 b = disk fs1 b"
    by (rule sync_super_ok [OF h])
  have eq: "fs2 = fs\<lparr>sfs_device := lh2, sfs_freemapdirty := False, sfs_superdirty := False\<rparr>" using 1(2) 2(2) by simp
  have m: "lhd_moved (sfs_device fs) lh2" using lhd_moved_trans [OF 1(3)] 2(3) 1(2) by simp
  have "map_stored fs2" using 1(2,4) 2(2,5) by (simp add: map_stored_def)
  then have vol: "volume_ok fs2"
    using assms(1) 2(4) m healthy_moved [OF h(1) 2(3)] unfolding eq by (simp add: volume_ok_def lhd_moved_def healthy_def)
  show thesis
    by (rule that [OF _ eq vol]) (use 1(1,5) 2(1,5) assms(2) in \<open>simp_all add: sfs_sync_def\<close>)
qed

lemma mount_map_ok:
  assumes "volume_ok fs" and "map_stored fs" and "healthy fs1" and "disk fs1 = disk fs" and "d_blocks (sfs_device fs1) = d_blocks (sfs_device fs)"
    and "sfs_super fs1 = sfs_super fs" and "kmalloc_bytes_ok (mm_bits mem)"
  shows "(\<exists>d. mount_map mem fs1 = Some (Inl ENOMEM, d)) \<and> \<not> mount_enough mem \<or>
     (\<exists>lh. mount_map mem fs1 = Some (Inr (fs1\<lparr>sfs_device := lh, sfs_freemap := sfs_freemap fs, sfs_superdirty := False, sfs_freemapdirty := False\<rparr>), lh) \<and>
        hw_sect lh = disk fs \<and> lhd_moved (sfs_device fs1) lh)"
proof -
  let ?n = "sp_nblocks (sfs_super fs)" and ?N = "SFS_BITBLOCKS (sp_nblocks (sfs_super fs))"
  let ?fs = "\<lambda>b. fs1\<lparr>sfs_freemap := b\<rparr>"
  have v: "super_ok (sfs_super fs)" "sp_magic (sfs_super fs) = SFS_MAGIC" "sp_volname (sfs_super fs) ! 31 = 0" "nbits (sfs_freemap fs) = SFS_BITMAPSIZE ?n"
      "length (bm_v (sfs_freemap fs)) = 512 * ?N" "2 + ?N \<le> d_blocks (sfs_device fs)"
    using assms(1) bitmap_length by (auto simp: volume_ok_def)
  have name: "sp_volname (sfs_super fs) = (sp_volname (sfs_super fs))[31 := 0]" using v(3) by (metis list_update_id)
  then have same: "fs1\<lparr>sfs_super := (sfs_super fs)\<lparr>sp_volname := (sp_volname (sfs_super fs))[31 := 0]\<rparr>\<rparr> = fs1"
    using assms(6) by (metis (no_types) sfs_super.surjective sfs_super.update_convs(3) sfs_fs.surjective sfs_fs.update_convs(1))
  show ?thesis
  proof (cases rule: bitmap_create_spec [OF assms(7) bitmap_size(2) [of ?n], of "mm_bitmap mem"])
    case 1
    then show ?thesis using v(2) assms(6) by (auto simp: mount_map_def same SFS_VOLNAME_SIZE_def mount_enough_def)
  next
    case fresh: (2 b)
    have len: "length (bm_v b) = 512 * ?N" by (rule bitmap_length [OF fresh(2,3)])
    obtain lh where rd: "mapio_loop UIO_READ 0 ?N (?fs b) = Some (Inr (), (?fs b)\<lparr>sfs_device := lh, sfs_freemap := (sfs_freemap (?fs b))\<lparr>bm_v :=
          take (512 * 0) (bm_v (sfs_freemap (?fs b))) @ concat (map (\<lambda>k. disk (?fs b) (2 + k)) [0..<?N])\<rparr>\<rparr>)" "hw_sect lh = disk (?fs b)" "lhd_moved (sfs_device (?fs b)) lh"
      using mapio_read [of "?fs b" ?N 0 ?N] len assms(3,5) v(6) by (auto simp: healthy_def)
    have "concat (map (\<lambda>k. disk (?fs b) (2 + k)) [0..<?N]) = concat (map (chunk (bm_v (sfs_freemap fs))) [0..<?N])"
      using assms(2,4) by (intro arg_cong [where f = concat] map_cong) (simp_all add: map_stored_def disk_def)
    also have "\<dots> = bm_v (sfs_freemap fs)" using concat_chunks [OF v(5) order_refl] v(5) by simp
    finally have "b\<lparr>bm_v := concat (map (\<lambda>k. disk (?fs b) (2 + k)) [0..<?N])\<rparr> = sfs_freemap fs" using fresh(3) v(4) by simp
    then show ?thesis using rd v(2) assms(4,6) fresh(1) by (simp add: mount_map_def same SFS_VOLNAME_SIZE_def sfs_mapio_def disk_def)
  qed
qed

lemma domount_ok:
  assumes "volume_ok fs" and "\<not> sfs_freemapdirty fs" and "\<not> sfs_superdirty fs" and "kmalloc_bytes_ok (mm_bits mem)"
  shows "\<exists>r dev'. sfs_domount mem (sfs_device fs) = Some (r, dev') \<and> (case r of Inl e \<Rightarrow> e = ENOMEM \<and> \<not> mount_enough mem
     | Inr fs2 \<Rightarrow> sfs_super fs2 = sfs_super fs \<and> sfs_freemap fs2 = sfs_freemap fs \<and> array_getnum (sfs_vnodes fs2) = 0 \<and>
         hw_sect (sfs_device fs2) = hw_sect (sfs_device fs) \<and> \<not> sfs_superdirty fs2 \<and> \<not> sfs_freemapdirty fs2 \<and>
         lhd_moved (sfs_device fs) (sfs_device fs2) \<and> sfs_device fs2 = dev' \<and> array_ok (sfs_vnodes fs2) \<and> sfs_mem fs2 = (\<lambda>_. None))"
proof -
  let ?dev = "sfs_device fs"
  have v: "healthy fs" "d_blocksize ?dev = 512" "map_stored fs" "disk fs 0 = enc_super (sfs_super fs)" "super_ok (sfs_super fs)" "0 < d_blocks ?dev"
    using assms(1-3) by (auto simp: volume_ok_def super_stored_def)
  show ?thesis
  proof (cases "mm_sfs mem \<and> (array_create (mm_array mem) :: nat array option) \<noteq> None")
    case False
    then show ?thesis using v(2) by (auto simp: sfs_domount_def SFS_BLOCKSIZE_def mount_enough_def array_create_def)
  next
    case True
    then obtain vs :: "nat array" where vs: "mm_sfs mem" "array_create (mm_array mem) = Some vs" by auto
    then have num: "array_getnum vs = 0" "array_ok vs" by (auto simp: array_create_def array_getnum_def array_ok_def array_cells_def split: if_splits)
    let ?fs0 = "mount_start vs ?dev (dec_super zero_block) \<lparr>nbits = 0, bm_v = []\<rparr>"
    have f0: "healthy ?fs0" "0 < d_blocks (sfs_device ?fs0)" "length zero_block = 512" "disk ?fs0 = disk fs" "sfs_device ?fs0 = ?dev" "sfs_vnodes ?fs0 = vs" "sfs_mem ?fs0 = (\<lambda>_. None)"
      using v(1,6) by (simp_all add: healthy_def mount_start_def zero_block_def disk_def SFS_BLOCKSIZE_def)
    obtain lh where rb: "sfs_rblock zero_block 0 ?fs0 = Some (Inr (), disk ?fs0 0, ?fs0\<lparr>sfs_device := lh\<rparr>)" "lhd_moved (sfs_device ?fs0) lh" "hw_sect lh = disk ?fs0"
      by (rule rblock_ok [OF f0(1-3)])
    let ?fs1 = "?fs0\<lparr>sfs_device := lh, sfs_super := sfs_super fs\<rparr>"
    have "dec_super (disk ?fs0 0) = sfs_super fs" using v(4,5) f0(4) by (simp add: dec_super_enc)
    then have dm: "sfs_domount mem ?dev = mount_map mem ?fs1"
      using vs v(2) rb(1) by (simp add: sfs_domount_def SFS_BLOCKSIZE_def SFS_SB_LOCATION_def)
    have f1: "healthy ?fs1" "disk ?fs1 = disk fs" "d_blocks (sfs_device ?fs1) = d_blocks ?dev" "sfs_super ?fs1 = sfs_super fs"
      using healthy_moved [OF f0(1) rb(2)] rb(2,3) f0(4,5) by (simp_all add: healthy_def disk_def lhd_moved_def)
    have "lhd_moved ?dev lh" using rb(2) f0(5) by simp
    then have "lhd_moved ?dev l" if "lhd_moved (sfs_device ?fs1) l" for l using lhd_moved_trans [of ?dev lh l] that by simp
    then show ?thesis using mount_map_ok [OF assms(1) v(3) f1 assms(4)] f0(6,7) num unfolding dm by (auto simp: disk_def)
  qed
qed

text \<open>
  C15. Sync, unmount and mount of a volume with no loaded vnodes. On a disk without faults \<open>sfs_sync\<close> succeeds, then
  \<open>sfs_unmount\<close> finds both structures clean and gives the device back, and \<open>sfs_domount\<close> of that device fails for lack
  of memory (only when an allocation fails) or yields the same superblock and the same free map with no vnodes. No block but the superblock and the
  blocks of the free map was written.
\<close>

theorem sfs_sync_mount:
  assumes "volume_ok fs" and "array_getnum (sfs_vnodes fs) = 0" and "kmalloc_bytes_ok (mm_bits mem)"
  shows "\<exists>fs1 dev r dev'. sfs_sync fs = Some (Inr (), fs1) \<and> sfs_unmount fs1 = Some (Inr dev) \<and> sfs_domount mem dev = Some (r, dev') \<and>
    (\<forall>b. b = 1 \<or> 2 + SFS_BITBLOCKS (sp_nblocks (sfs_super fs)) \<le> b \<longrightarrow> hw_sect dev b = hw_sect (sfs_device fs) b) \<and>
    (case r of Inl e \<Rightarrow> e = ENOMEM \<and> \<not> mount_enough mem
     | Inr fs2 \<Rightarrow> sfs_super fs2 = sfs_super fs \<and> sfs_freemap fs2 = sfs_freemap fs \<and> array_getnum (sfs_vnodes fs2) = 0 \<and>
         hw_sect (sfs_device fs2) = hw_sect dev \<and> \<not> sfs_superdirty fs2 \<and> \<not> sfs_freemapdirty fs2)"
proof -
  obtain fs1 lh where s: "sfs_sync fs = Some (Inr (), fs1)" "fs1 = fs\<lparr>sfs_device := lh, sfs_freemapdirty := False, sfs_superdirty := False\<rparr>"
      "volume_ok fs1" "\<forall>b. b = 1 \<or> 2 + SFS_BITBLOCKS (sp_nblocks (sfs_super fs)) \<le> b \<longrightarrow> disk fs1 b = disk fs b"
    by (rule sync_ok [OF assms(1,2)])
  let ?dev = "sfs_device fs1"
  have un: "sfs_unmount fs1 = Some (Inr ?dev)" using s(2) assms(2) by (simp add: sfs_unmount_def)
  have same: "sfs_super fs1 = sfs_super fs" "sfs_freemap fs1 = sfs_freemap fs" using s(2) by simp_all
  have clean: "\<not> sfs_freemapdirty fs1" "\<not> sfs_superdirty fs1" using s(2) by simp_all
  have "\<exists>r dev'. sfs_domount mem ?dev = Some (r, dev') \<and> (case r of Inl e \<Rightarrow> e = ENOMEM \<and> \<not> mount_enough mem
     | Inr fs2 \<Rightarrow> sfs_super fs2 = sfs_super fs \<and> sfs_freemap fs2 = sfs_freemap fs \<and> array_getnum (sfs_vnodes fs2) = 0 \<and>
         hw_sect (sfs_device fs2) = hw_sect ?dev \<and> \<not> sfs_superdirty fs2 \<and> \<not> sfs_freemapdirty fs2)"
    using domount_ok [OF s(3) clean assms(3)] unfolding same by (fastforce split: sum.splits)
  then obtain r dev' where "sfs_domount mem ?dev = Some (r, dev')" "case r of Inl e \<Rightarrow> e = ENOMEM \<and> \<not> mount_enough mem
     | Inr fs2 \<Rightarrow> sfs_super fs2 = sfs_super fs \<and> sfs_freemap fs2 = sfs_freemap fs \<and> array_getnum (sfs_vnodes fs2) = 0 \<and>
         hw_sect (sfs_device fs2) = hw_sect ?dev \<and> \<not> sfs_superdirty fs2 \<and> \<not> sfs_freemapdirty fs2"
    by blast
  with s(1,4) un show ?thesis unfolding disk_def by blast
qed

text \<open>The volume of 100 blocks with both structures changed since they were last written.\<close>

definition dirty_fs :: sfs_fs where
  "dirty_fs = small_fs\<lparr>sfs_super := \<lparr>sp_magic = SFS_MAGIC, sp_nblocks = 100, sp_volname = 118 # replicate 31 0, sp_reserved = replicate 472 0\<rparr>,
     sfs_superdirty := True, sfs_freemapdirty := True\<rparr>"

definition some_mem :: mount_mem where
  "some_mem = \<lparr>mm_sfs = True, mm_array = True, mm_bitmap = True, mm_bits = (\<lambda>n. Some (replicate n 255))\<rparr>"

lemma dirty_fs_ok: "volume_ok dirty_fs"
proof -
  have "healthy dirty_fs" "bitmap_ok (sfs_freemap dirty_fs)" using small_fs_ok by (simp_all add: dirty_fs_def fs_ok_def healthy_def)
  then show ?thesis
    by (simp add: volume_ok_def) (simp add: dirty_fs_def small_fs_def some_disk_def super_ok_def SFS_MAGIC_def SFS_BITBLOCKS_def SFS_BITMAPSIZE_def
          SFS_ROUNDUP_def SFS_BLOCKBITS_def SFS_BLOCKSIZE_def)
qed

theorem sfs_sync_mount_witness:
  "\<exists>fs1 dev fs2 dev'. sfs_sync dirty_fs = Some (Inr (), fs1) \<and> sfs_unmount fs1 = Some (Inr dev) \<and> sfs_domount some_mem dev = Some (Inr fs2, dev') \<and>
    sfs_super fs2 = sfs_super dirty_fs \<and> sfs_freemap fs2 = sfs_freemap dirty_fs \<and> array_getnum (sfs_vnodes fs2) = 0 \<and>
    hw_sect (sfs_device fs2) = hw_sect dev \<and> \<not> sfs_superdirty fs2 \<and> \<not> sfs_freemapdirty fs2"
proof -
  have "array_getnum (sfs_vnodes dirty_fs) = 0" by (simp add: dirty_fs_def small_fs_def some_disk_def array_getnum_def)
  moreover have "kmalloc_bytes_ok (mm_bits some_mem)" by (simp add: kmalloc_bytes_ok_def some_mem_def)
  moreover have "mount_enough some_mem" by (simp add: mount_enough_def some_mem_def)
  ultimately show ?thesis using sfs_sync_mount [OF dirty_fs_ok, of some_mem] by (fastforce split: sum.splits)
qed

end
