(* ===== verification/Mksfs.thy ===== *)
theory Mksfs
  imports SfsFs
begin

text \<open>
  The program that makes an empty volume (\<open>sbin/mksfs/mksfs.c\<close> and its \<open>disk.c\<close>), and that the kernel can mount what it makes.
  The structures are written in the byte order of the disk. Errors of the calls for opening and reading the
  file end the program and are left out. This is the program as it runs under the kernel: the branches for \<open>HOST\<close>, which skip the
  header of a disk image in the file, are not compiled in.
\<close>

unbundle bit_operations_syntax

section \<open>Writing blocks\<close>

text \<open>
  The file of a volume as a function from block numbers to blocks. \<open>wr k n\<close> is how many of \<open>n\<close> bytes the
  \<open>k\<close>-th call of \<open>write\<close> takes; the loop of \<open>diskwrite\<close> goes on with the rest. Taking none ends the program,
  \<open>None\<close> here. Calls that are interrupted and made again leave no trace.
\<close>

definition BLOCKSIZE :: nat where "BLOCKSIZE = 512"
definition MAXBITBLOCKS :: nat where "MAXBITBLOCKS = 32"

function write_loop :: "(nat \<Rightarrow> nat \<Rightarrow> nat) \<Rightarrow> nat \<Rightarrow> nat \<Rightarrow> byte list \<Rightarrow> byte list \<Rightarrow> byte list option" where
  "write_loop wr k tot cdata blk =
     (if tot < BLOCKSIZE then
        let len = wr k (BLOCKSIZE - tot) in
        if len = 0 then None
        else write_loop wr (k + 1) (tot + len) cdata (take tot blk @ take len (drop tot cdata) @ drop (tot + len) blk)
      else Some blk)"
  by pat_completeness auto
termination by (relation "measure (\<lambda>(wr, k, tot, cdata, blk). BLOCKSIZE - tot)") auto

declare write_loop.simps [simp del]

definition diskwrite :: "(nat \<Rightarrow> nat \<Rightarrow> nat) \<Rightarrow> byte list \<Rightarrow> nat \<Rightarrow> (nat \<Rightarrow> byte list) \<Rightarrow> (nat \<Rightarrow> byte list) option" where
  "diskwrite wr data block d =
     (let b = block * BLOCKSIZE mod 2 ^ 32 div BLOCKSIZE in
      do { blk \<leftarrow> write_loop wr 0 0 data (d b); Some (d(b := blk)) })"

section \<open>Making the volume\<close>

text \<open>
  The functions give the file back with a flag, false when the program ends with an error message.
\<close>

definition writesuper :: "(nat \<Rightarrow> nat \<Rightarrow> nat) \<Rightarrow> byte list \<Rightarrow> nat \<Rightarrow> (nat \<Rightarrow> byte list) \<Rightarrow> (bool \<times> (nat \<Rightarrow> byte list)) option" where
  "writesuper wr volname nblocks d =
     (if length volname \<ge> SFS_VOLNAME_SIZE then Some (False, d)
      else do {
        let sp = \<lparr>sp_magic = SFS_MAGIC, sp_nblocks = nblocks, sp_volname = volname @ replicate (SFS_VOLNAME_SIZE - length volname) 0,
          sp_reserved = replicate 472 0\<rparr>;
        d1 \<leftarrow> diskwrite wr (enc_super sp) SFS_SB_LOCATION d;
        Some (True, d1)
      })"

definition root_inode :: sfs_inode where
  "root_inode = \<lparr>sfi_size = 0, sfi_type = SFS_TYPE_DIR, sfi_linkcount = 1, sfi_direct = replicate 15 0, sfi_indirect = 0, sfi_waste = replicate 440 0\<rparr>"

definition writerootdir :: "(nat \<Rightarrow> nat \<Rightarrow> nat) \<Rightarrow> (nat \<Rightarrow> byte list) \<Rightarrow> (nat \<Rightarrow> byte list) option" where
  "writerootdir wr d = diskwrite wr (enc_inode root_inode) SFS_ROOT_LOCATION d"

definition doallocbit :: "nat \<Rightarrow> 8 word list \<Rightarrow> 8 word list option" where
  "doallocbit i bitbuf = do {
     let ix = i div 8;
     let mask = push_bit (i mod 8) (1 :: 8 word);
     w \<leftarrow> peek bitbuf (int ix);
     kassert (w AND mask = 0);
     poke bitbuf (int ix) (w OR mask)
   }"

text \<open>The loops of \<open>writebitmap\<close>, from \<open>i\<close> with \<open>n\<close> to go.\<close>

primrec doallocbits :: "nat \<Rightarrow> nat \<Rightarrow> 8 word list \<Rightarrow> 8 word list option" where
  "doallocbits i 0 bitbuf = Some bitbuf"
| "doallocbits i (Suc n) bitbuf = do { b1 \<leftarrow> doallocbit i bitbuf; doallocbits (i + 1) n b1 }"

primrec writemap :: "(nat \<Rightarrow> nat \<Rightarrow> nat) \<Rightarrow> nat \<Rightarrow> nat \<Rightarrow> 8 word list \<Rightarrow> (nat \<Rightarrow> byte list) \<Rightarrow> (nat \<Rightarrow> byte list) option" where
  "writemap wr i 0 bitbuf d = Some d"
| "writemap wr i (Suc n) bitbuf d = do {
     d1 \<leftarrow> diskwrite wr (take SFS_BLOCKSIZE (drop (i * SFS_BLOCKSIZE) bitbuf)) (SFS_MAP_LOCATION + i) d;
     writemap wr (i + 1) n bitbuf d1
   }"

definition writebitmap :: "(nat \<Rightarrow> nat \<Rightarrow> nat) \<Rightarrow> nat \<Rightarrow> (nat \<Rightarrow> byte list) \<Rightarrow> (bool \<times> (nat \<Rightarrow> byte list)) option" where
  "writebitmap wr fsblocks d =
     (let nbits = SFS_BITMAPSIZE fsblocks; nblocks = SFS_BITBLOCKS fsblocks in
      if nblocks > MAXBITBLOCKS then Some (False, d)
      else do {
        b1 \<leftarrow> doallocbit SFS_SB_LOCATION (replicate (MAXBITBLOCKS * SFS_BLOCKSIZE) 0);
        b2 \<leftarrow> doallocbit SFS_ROOT_LOCATION b1;
        b3 \<leftarrow> doallocbits SFS_MAP_LOCATION nblocks b2;
        b4 \<leftarrow> doallocbits fsblocks (nbits - fsblocks) b3;
        d1 \<leftarrow> writemap wr 0 nblocks b4 d;
        Some (True, d1)
      })"

text \<open>The name without one colon at its end; \<open>None\<close> when it is not legal.\<close>

definition volume_name :: "byte list \<Rightarrow> byte list option" where
  "volume_name arg =
     (let s = dropWhile (\<lambda>c. c \<noteq> 58) arg; name = takeWhile (\<lambda>c. c \<noteq> 58) arg in
      if s \<noteq> [] \<and> length s \<noteq> 1 then None
      else if 47 \<in> set name then None
      else Some name)"

text \<open>The program on a file of \<open>fsize\<close> bytes.\<close>

definition mksfs :: "(nat \<Rightarrow> nat \<Rightarrow> nat) \<Rightarrow> byte list \<Rightarrow> nat \<Rightarrow> (nat \<Rightarrow> byte list) \<Rightarrow> (bool \<times> (nat \<Rightarrow> byte list)) option" where
  "mksfs wr arg fsize d =
     (case volume_name arg of None \<Rightarrow> Some (False, d)
      | Some volname \<Rightarrow> do {
          let nblocks = fsize div BLOCKSIZE mod 2 ^ 32;
          (ok, d1) \<leftarrow> writesuper wr volname nblocks d;
          if \<not> ok then Some (False, d1)
          else do { d2 \<leftarrow> writerootdir wr d1; writebitmap wr nblocks d2 }
        })"

section \<open>What is on the disk\<close>

text \<open>A \<open>write\<close> takes something, and not more than it was given.\<close>

definition write_ok :: "(nat \<Rightarrow> nat \<Rightarrow> nat) \<Rightarrow> bool" where
  "write_ok wr \<longleftrightarrow> (\<forall>k n. 0 < n \<longrightarrow> 0 < wr k n \<and> wr k n \<le> n)"

lemma write_loop_all:
  "write_ok wr \<Longrightarrow> length cdata = 512 \<Longrightarrow> length blk = 512 \<Longrightarrow> tot \<le> 512 \<Longrightarrow> take tot blk = take tot cdata \<Longrightarrow>
   write_loop wr k tot cdata blk = Some cdata"
proof (induction wr k tot cdata blk rule: write_loop.induct)
  case (1 wr k tot cdata blk)
  show ?case
  proof (cases "tot < 512")
    case True
    let ?len = "wr k (512 - tot)"
    let ?blk = "take tot blk @ take ?len (drop tot cdata) @ drop (tot + ?len) blk"
    have len: "0 < ?len" "tot + ?len \<le> 512" using "1.prems"(1) True by (auto simp: write_ok_def) (metis le_add_diff_inverse2 nat_add_left_cancel_le add.commute zero_less_diff less_imp_le_nat)
    have "take (tot + ?len) ?blk = take (tot + ?len) cdata"
      using "1.prems"(2-5) len True by (simp add: take_add)
    moreover have "length ?blk = 512" using "1.prems"(2,3) len by simp
    ultimately have "write_loop wr (k + 1) (tot + ?len) cdata ?blk = Some cdata"
      using "1.IH" [of ?len] "1.prems" True len by (simp add: BLOCKSIZE_def)
    then show ?thesis using True len by (subst write_loop.simps) (simp add: BLOCKSIZE_def Let_def)
  next
    case False
    then show ?thesis using "1.prems" by (subst write_loop.simps) (simp add: BLOCKSIZE_def)
  qed
qed

lemma diskwrite_ok:
  assumes "write_ok wr" and "length data = 512" and "\<forall>b. length (d b) = 512" and "block < 2 ^ 23"
  shows "diskwrite wr data block d = Some (d(block := data))"
  using write_loop_all [OF assms(1,2), of "d block" 0 0] assms(3,4) by (simp add: diskwrite_def BLOCKSIZE_def)

lemma doallocbit_ok:
  assumes "i < 8 * length v" and "\<not> bitmap_bit v i"
  obtains v' where "doallocbit i v = Some v'" and "length v' = length v" and "\<forall>j. bitmap_bit v' j \<longleftrightarrow> bitmap_bit v j \<or> j = i"
proof -
  have ix: "i div 8 < length v" "i mod 8 < 8" using assms(1) by simp_all
  have "v ! (i div 8) AND 2 ^ (i mod 8) = 0" using assms(2) bitmap_mask [OF ix(2)] by (simp add: bitmap_bit_def)
  then have run: "doallocbit i v = Some (v[i div 8 := (v ! (i div 8)) OR 2 ^ (i mod 8)])"
    using ix(1) by (simp add: doallocbit_def Let_def push_bit_of_1)
  show thesis by (rule that [OF run]) (use bitmap_bit_update(1) [OF ix] in simp_all)
qed

lemma doallocbits_ok:
  assumes "i + n \<le> 8 * length v" and "\<forall>j \<in> {i..<i + n}. \<not> bitmap_bit v j"
  obtains v' where "doallocbits i n v = Some v'" and "length v' = length v" and "\<forall>j. bitmap_bit v' j \<longleftrightarrow> bitmap_bit v j \<or> j \<in> {i..<i + n}"
proof -
  have "\<exists>v'. doallocbits i n v = Some v' \<and> length v' = length v \<and> (\<forall>j. bitmap_bit v' j \<longleftrightarrow> bitmap_bit v j \<or> j \<in> {i..<i + n})"
    using assms
  proof (induction n arbitrary: i v)
    case (Suc n)
    have i: "i < 8 * length v" "\<not> bitmap_bit v i" using Suc.prems by simp_all
    obtain v1 where v1: "doallocbit i v = Some v1" "length v1 = length v" "\<forall>j. bitmap_bit v1 j \<longleftrightarrow> bitmap_bit v j \<or> j = i"
      by (rule doallocbit_ok [OF i])
    have r: "i + 1 + n \<le> 8 * length v1" "\<forall>j \<in> {i + 1..<i + 1 + n}. \<not> bitmap_bit v1 j" using Suc.prems v1(2,3) by auto
    obtain v' where v': "doallocbits (i + 1) n v1 = Some v'" "length v' = length v1"
        "\<forall>j. bitmap_bit v' j \<longleftrightarrow> bitmap_bit v1 j \<or> j \<in> {i + 1..<i + 1 + n}"
      using Suc.IH [OF r] by blast
    have "j \<in> {i..<i + Suc n} \<longleftrightarrow> j = i \<or> j \<in> {i + 1..<i + 1 + n}" for j by auto
    then have "bitmap_bit v' j \<longleftrightarrow> bitmap_bit v j \<or> j \<in> {i..<i + Suc n}" for j using v'(3) v1(3) by metis
    then show ?case using v1(1,2) v'(1,2) by (intro exI [of _ v']) simp
  qed simp
  then show thesis using that by blast
qed

lemma writemap_ok:
  assumes "write_ok wr" and "length v = 512 * N" and "i + n \<le> N" and "N \<le> 32" and "\<forall>b. length (d b) = 512"
  shows "writemap wr i n v d = Some (\<lambda>b. if 2 + i \<le> b \<and> b < 2 + i + n then chunk v (b - 2) else d b)"
  using assms(3,5)
proof (induction n arbitrary: i d)
  case 0
  then show ?case by (auto simp: fun_eq_iff)
next
  case (Suc n)
  have c: "take SFS_BLOCKSIZE (drop (i * SFS_BLOCKSIZE) v) = chunk v i" by (simp add: chunk_def SFS_BLOCKSIZE_def mult.commute)
  have len: "length (chunk v i) = 512" by (rule length_chunk [OF assms(2)]) (use Suc.prems(1) in simp)
  let ?d = "d(2 + i := chunk v i)"
  have w: "diskwrite wr (chunk v i) (SFS_MAP_LOCATION + i) d = Some ?d"
    using diskwrite_ok [OF assms(1) len Suc.prems(2), of "2 + i"] Suc.prems(1) assms(4) by (simp add: SFS_MAP_LOCATION_def)
  have "writemap wr (i + 1) n v ?d = Some (\<lambda>b. if 2 + (i + 1) \<le> b \<and> b < 2 + (i + 1) + n then chunk v (b - 2) else ?d b)"
    by (rule Suc.IH) (use Suc.prems len in simp_all)
  then show ?case by (simp add: c w) (auto simp: fun_eq_iff)
qed

lemma bitmap_covers: "n < 2 ^ 31 \<Longrightarrow> n \<le> SFS_BITMAPSIZE n"
proof -
  assume n: "n < 2 ^ 31"
  let ?k = "(n + 4095) div 4096"
  have k: "?k * 4096 < 2 ^ 32" "n \<le> ?k * 4096" using n by (simp_all add: div_le_dividend less_mult_imp_div_less)
  then show ?thesis using n by (simp add: SFS_BITMAPSIZE_def SFS_ROUNDUP_def SFS_BLOCKBITS_def SFS_BLOCKSIZE_def)
qed

text \<open>The map that \<open>mksfs\<close> writes: the fixed blocks, the map itself, and what lies past the end of the volume.\<close>

definition made_used :: "nat \<Rightarrow> nat set" where
  "made_used n = {..<2 + SFS_BITBLOCKS n} \<union> {n..<SFS_BITMAPSIZE n}"

lemma writebitmap_ok:
  assumes "write_ok wr" and "\<forall>b. length (d b) = 512" and "n < 2 ^ 31" and "SFS_BITBLOCKS n \<le> 32" and "2 + SFS_BITBLOCKS n \<le> n"
  obtains v where "writebitmap wr n d = Some (True, \<lambda>b. if 2 \<le> b \<and> b < 2 + SFS_BITBLOCKS n then chunk v (b - 2) else d b)"
    and "length v = 512 * SFS_BITBLOCKS n" and "\<forall>j < SFS_BITMAPSIZE n. bitmap_bit v j \<longleftrightarrow> j \<in> made_used n"
proof -
  let ?N = "SFS_BITBLOCKS n" and ?B = "SFS_BITMAPSIZE n"
  have B: "?B = 4096 * ?N" "n \<le> ?B" by (rule bitmap_size(1), rule bitmap_covers [OF assms(3)])
  let ?v0 = "replicate (32 * 512) 0 :: 8 word list"
  have z: "\<not> bitmap_bit ?v0 j" if "j < 131072" for j using that by (simp add: bitmap_bit_def)
  have i0: "0 < 8 * length ?v0" "\<not> bitmap_bit ?v0 0" using z [of 0] by simp_all
  obtain v1 where 1: "doallocbit 0 ?v0 = Some v1" "length v1 = length ?v0" "\<forall>j. bitmap_bit v1 j \<longleftrightarrow> bitmap_bit ?v0 j \<or> j = 0"
    by (rule doallocbit_ok [OF i0])
  have i1: "1 < 8 * length v1" "\<not> bitmap_bit v1 1" using 1(2,3) z [of 1] by simp_all
  obtain v2 where 2: "doallocbit 1 v1 = Some v2" "length v2 = length v1" "\<forall>j. bitmap_bit v2 j \<longleftrightarrow> bitmap_bit v1 j \<or> j = 1"
    by (rule doallocbit_ok [OF i1])
  have i2: "2 + ?N \<le> 8 * length v2" "\<forall>j \<in> {2..<2 + ?N}. \<not> bitmap_bit v2 j" using 1(2,3) 2(2,3) z assms(4) by auto
  obtain v3 where 3: "doallocbits 2 ?N v2 = Some v3" "length v3 = length v2" "\<forall>j. bitmap_bit v3 j \<longleftrightarrow> bitmap_bit v2 j \<or> j \<in> {2..<2 + ?N}"
    by (rule doallocbits_ok [OF i2])
  have i3: "n + (?B - n) \<le> 8 * length v3" "\<forall>j \<in> {n..<n + (?B - n)}. \<not> bitmap_bit v3 j"
    using 1(2,3) 2(2,3) 3(2,3) z assms(4,5) B by auto
  obtain v4 where 4: "doallocbits n (?B - n) v3 = Some v4" "length v4 = length v3" "\<forall>j. bitmap_bit v4 j \<longleftrightarrow> bitmap_bit v3 j \<or> j \<in> {n..<n + (?B - n)}"
    by (rule doallocbits_ok [OF i3])
  have len: "length v4 = 512 * 32" using 1(2) 2(2) 3(2) 4(2) by simp
  have w: "writemap wr 0 ?N v4 d = Some (\<lambda>b. if 2 + 0 \<le> b \<and> b < 2 + 0 + ?N then chunk v4 (b - 2) else d b)"
    by (rule writemap_ok [OF assms(1) len _ _ assms(2)]) (use assms(4) in simp_all)
  let ?v = "take (512 * ?N) v4"
  have ch: "chunk v4 k = chunk ?v k" if "k < ?N" for k
  proof -
    have "512 * k + 512 \<le> 512 * ?N" using that by simp
    then show ?thesis by (simp add: chunk_def drop_take min_def)
  qed
  have eq: "(\<lambda>b. if 2 + 0 \<le> b \<and> b < 2 + 0 + ?N then chunk v4 (b - 2) else d b) = (\<lambda>b. if 2 \<le> b \<and> b < 2 + ?N then chunk ?v (b - 2) else d b)"
    using ch by (auto simp: fun_eq_iff)
  have run: "writebitmap wr n d = Some (True, \<lambda>b. if 2 \<le> b \<and> b < 2 + ?N then chunk ?v (b - 2) else d b)"
    using assms(4) 1(1) 2(1) 3(1) 4(1) w unfolding eq
    by (simp add: writebitmap_def MAXBITBLOCKS_def SFS_BLOCKSIZE_def SFS_SB_LOCATION_def SFS_ROOT_LOCATION_def SFS_MAP_LOCATION_def Let_def)
  have "bitmap_bit ?v j \<longleftrightarrow> j \<in> made_used n" if j: "j < ?B" for j
  proof -
    have l: "j < 131072" "j div 8 < 512 * ?N" using j B(1) assms(4) by auto
    have t: "bitmap_bit ?v j \<longleftrightarrow> bitmap_bit v4 j" using l(2) by (simp add: bitmap_bit_def)
    have "bitmap_bit v4 j \<longleftrightarrow> j = 0 \<or> j = 1 \<or> j \<in> {2..<2 + ?N} \<or> j \<in> {n..<n + (?B - n)}"
      using z [OF l(1)] 1(3) 2(3) 3(3) 4(3) by metis
    then show ?thesis unfolding t using j B(2) by (auto simp: made_used_def)
  qed
  then show thesis by (intro that [OF run]) (use len assms(4) in simp_all)
qed

definition made_super :: "byte list \<Rightarrow> nat \<Rightarrow> sfs_super" where
  "made_super name n = \<lparr>sp_magic = SFS_MAGIC, sp_nblocks = n, sp_volname = name @ replicate (32 - length name) 0, sp_reserved = replicate 472 0\<rparr>"

lemma made_super_ok: "length name < 32 \<Longrightarrow> n < 2 ^ 32 \<Longrightarrow> super_ok (made_super name n) \<and> sp_volname (made_super name n) ! 31 = 0"
  by (simp add: super_ok_def made_super_def SFS_MAGIC_def nth_append)

lemma root_inode_ok: "inode_ok root_inode"
  by (simp add: inode_ok_def root_inode_def SFS_TYPE_DIR_def)

lemma mksfs_ok:
  assumes "write_ok wr" and "\<forall>b. length (d b) = 512" and "volume_name arg = Some name" and "length name < 32" and "n < 2 ^ 31"
    and "SFS_BITBLOCKS n \<le> 32" and "2 + SFS_BITBLOCKS n \<le> n"
  obtains v d' where "mksfs wr arg (512 * n) d = Some (True, d')" and "d' 0 = enc_super (made_super name n)" and "d' 1 = enc_inode root_inode"
    and "\<forall>k < SFS_BITBLOCKS n. d' (2 + k) = chunk v k" and "\<forall>b. length (d' b) = 512"
    and "length v = 512 * SFS_BITBLOCKS n" and "\<forall>j < SFS_BITMAPSIZE n. bitmap_bit v j \<longleftrightarrow> j \<in> made_used n"
proof -
  let ?s = "enc_super (made_super name n)" and ?r = "enc_inode root_inode"
  have ls: "length ?s = 512" "length ?r = 512" using made_super_ok [OF assms(4)] assms(5) enc_lengths(1,2) root_inode_ok by auto
  have w0: "diskwrite wr ?s 0 d = Some (d(0 := ?s))" by (rule diskwrite_ok [OF assms(1) ls(1) assms(2)]) simp
  have l1: "\<forall>b. length ((d(0 := ?s)) b) = 512" using assms(2) ls by simp
  have w1: "diskwrite wr ?r 1 (d(0 := ?s)) = Some (d(0 := ?s, 1 := ?r))" by (rule diskwrite_ok [OF assms(1) ls(2) l1]) simp
  have l2: "\<forall>b. length ((d(0 := ?s, 1 := ?r)) b) = 512" using l1 ls by simp
  obtain v where v: "writebitmap wr n (d(0 := ?s, 1 := ?r)) = Some (True, \<lambda>b. if 2 \<le> b \<and> b < 2 + SFS_BITBLOCKS n then chunk v (b - 2) else (d(0 := ?s, 1 := ?r)) b)"
      "length v = 512 * SFS_BITBLOCKS n" "\<forall>j < SFS_BITMAPSIZE n. bitmap_bit v j \<longleftrightarrow> j \<in> made_used n"
    by (rule writebitmap_ok [OF assms(1) l2 assms(5-7)])
  let ?d = "\<lambda>b. if 2 \<le> b \<and> b < 2 + SFS_BITBLOCKS n then chunk v (b - 2) else (d(0 := ?s, 1 := ?r)) b"
  have n: "512 * n div BLOCKSIZE mod 2 ^ 32 = n" using assms(5) by (simp add: BLOCKSIZE_def)
  have "writesuper wr name n d = Some (True, d(0 := ?s))" using w0 assms(4) by (simp add: writesuper_def made_super_def SFS_VOLNAME_SIZE_def SFS_SB_LOCATION_def)
  moreover have "writerootdir wr (d(0 := ?s)) = Some (d(0 := ?s, 1 := ?r))" using w1 by (simp add: writerootdir_def SFS_ROOT_LOCATION_def)
  ultimately have run: "mksfs wr arg (512 * n) d = Some (True, ?d)"
    unfolding mksfs_def n Let_def using assms(3) v(1) by simp
  have "length (chunk v k) = 512" if "k < SFS_BITBLOCKS n" for k by (rule length_chunk [OF v(2) that])
  then have "\<forall>b. length (?d b) = 512" using l2 by auto
  then show thesis by (intro that [OF run _ _ _ _ v(2,3)]) simp_all
qed

text \<open>A volume with the superblock, the root inode and the map that \<open>mksfs\<close> writes.\<close>

lemma made_volume_good:
  assumes "healthy f" and "bitmap_ok (sfs_freemap f)" and "nbits (sfs_freemap f) = SFS_BITMAPSIZE n" and "fs_used f = made_used n"
    and "sfs_super f = made_super name n" and "d_blocks (sfs_device f) = n" and "disk f 1 = enc_inode root_inode" and "0 \<notin> set name" and "n \<le> SFS_BITMAPSIZE n"
  shows "dir_wf f (dec_inode (disk f 1)) \<and> dirmap (disk f) (dec_inode (disk f 1)) = Map.empty \<and> cstr (sp_volname (sfs_super f)) = name"
proof -
  have i: "dec_inode (disk f 1) = root_inode" using assms(7) dec_inode_enc [OF root_inode_ok] by simp
  have "fs_ok f" using assms(1-6,9) by (auto simp: fs_ok_def made_used_def made_super_def)
  moreover have "claimed (disk f) root_inode = []" by (simp add: claimed_def ents_def ids_def root_inode_def)
  then have "file_ok f root_inode" using root_inode_ok by (simp add: file_ok_def)
  ultimately have "dir_wf f root_inode" by (simp add: dir_wf_def root_inode_def nslots_def)
  moreover have "dirmap (disk f) root_inode = Map.empty" by (simp add: fun_eq_iff dirmap_def nslots_def root_inode_def)
  moreover have "cstr (sp_volname (made_super name n)) = name" using assms(8) by (auto simp: cstr_def made_super_def takeWhile_append takeWhile_replicate)
  ultimately show ?thesis using i assms(5) by simp
qed

lemma mksfs_mounted:
  assumes "lhd_ok dev" and "fault_free dev" and "d_blocksize dev = 512" and "write_ok wr" and "volume_name arg = Some name" and "length name < 32"
    and "0 \<notin> set name" and "SFS_BITBLOCKS (d_blocks dev) \<le> 32" and "2 + SFS_BITBLOCKS (d_blocks dev) \<le> d_blocks dev" and "kmalloc_bytes_ok (mm_bits mem)"
  shows "\<exists>d r dev'. mksfs wr arg (512 * d_blocks dev) (hw_sect dev) = Some (True, d) \<and> sfs_domount mem (dev\<lparr>hw_sect := d\<rparr>) = Some (r, dev') \<and>
    (case r of Inl e \<Rightarrow> e = ENOMEM \<and> \<not> mount_enough mem
     | Inr fs \<Rightarrow> dir_wf fs (dec_inode (disk fs 1)) \<and> dirmap (disk fs) (dec_inode (disk fs 1)) = Map.empty \<and>
         cstr (sp_volname (sfs_super fs)) = name \<and> fs_used fs = made_used (d_blocks dev) \<and> sfs_super fs = made_super name (d_blocks dev) \<and>
         sfs_device fs = dev' \<and> array_ok (sfs_vnodes fs) \<and> array_getnum (sfs_vnodes fs) = 0 \<and> sfs_mem fs = (\<lambda>_. None))"
proof -
  let ?n = "d_blocks dev" and ?N = "SFS_BITBLOCKS (d_blocks dev)" and ?B = "SFS_BITMAPSIZE (d_blocks dev)"
  have dl: "\<forall>b. length (hw_sect dev b) = 512" "?n < 2 ^ 22" using assms(1) by (simp_all add: lhd_ok_def)
  then have n: "?n < 2 ^ 31" "?n < 2 ^ 32" by simp_all
  obtain v d where m: "mksfs wr arg (512 * ?n) (hw_sect dev) = Some (True, d)" "d 0 = enc_super (made_super name ?n)" "d 1 = enc_inode root_inode"
      "\<forall>k < ?N. d (2 + k) = chunk v k" "\<forall>b. length (d b) = 512" "length v = 512 * ?N" "\<forall>j < ?B. bitmap_bit v j \<longleftrightarrow> j \<in> made_used ?n"
    by (rule mksfs_ok [OF assms(4) dl(1) assms(5,6) n(1) assms(8,9)])
  have B: "?B = 4096 * ?N" "?n \<le> ?B" "?B \<le> 2 ^ 32 - 8" by (rule bitmap_size(1), rule bitmap_covers [OF n(1)], rule bitmap_size(2))
  let ?dev = "dev\<lparr>hw_sect := d\<rparr>" and ?bm = "\<lparr>nbits = ?B, bm_v = v\<rparr>"
  define fs where "fs = \<lparr>sfs_super = made_super name ?n, sfs_superdirty = False, sfs_device = ?dev, sfs_vnodes = undefined,
    sfs_freemap = ?bm, sfs_freemapdirty = False, sfs_mem = (\<lambda>_. None)\<rparr>"
  have bm: "bitmap_ok ?bm" using m(6) B by (simp add: bitmap_ok_def)
  have used: "bitmap_used ?bm = made_used ?n" using m(7) B(2) assms(9) by (auto simp: bitmap_used_def made_used_def)
  have healthy: "healthy fs" using assms(1,2) m(5) by (simp add: healthy_def fs_def lhd_ok_def fault_free_def)
  have vol: "volume_ok fs"
    using healthy assms(3,9) made_super_ok [OF assms(6) n(2)] bm m(2,4)
    by (simp add: volume_ok_def fs_def map_stored_def super_stored_def disk_def) (simp add: made_super_def)
  have clean: "\<not> sfs_freemapdirty fs" "\<not> sfs_superdirty fs" by (simp_all add: fs_def)
  have good: "dir_wf f (dec_inode (disk f 1)) \<and> dirmap (disk f) (dec_inode (disk f 1)) = Map.empty \<and> cstr (sp_volname (sfs_super f)) = name \<and> fs_used f = made_used ?n"
    if f: "sfs_super f = sfs_super fs" "sfs_freemap f = sfs_freemap fs" "hw_sect (sfs_device f) = hw_sect (sfs_device fs)" "lhd_moved (sfs_device fs) (sfs_device f)" for f
  proof -
    have h: "healthy f" using f(4) healthy fault_free_moved [of ?dev "sfs_device f"] by (simp add: healthy_def fs_def lhd_moved_def)
    have u: "fs_used f = made_used ?n" using used f(2) by (simp add: fs_used_def fs_def)
    have "d_blocks (sfs_device f) = ?n" using f(4) by (simp add: fs_def lhd_moved_def)
    then show ?thesis using made_volume_good [OF h _ _ u _ _ _ assms(7) B(2)] bm m(3) f(1-3) u by (simp add: fs_def disk_def)
  qed
  show ?thesis using domount_ok [OF vol clean assms(10)] good m(1) by (fastforce simp: fs_def split: sum.splits)
qed

text \<open>
  C17. What \<open>mksfs\<close> makes can be mounted. On a disk of at most 131072 sectors \<open>mksfs\<close> succeeds for a legal volume
  name of up to 31 characters; then \<open>sfs_domount\<close> fails for lack of memory, if an allocation fails, or gives a well-formed volume with
  that name whose root is a well-formed and empty directory, and on which exactly the superblock, the root inode, the map and
  the numbers past the end are in use.
\<close>

theorem mksfs_mount:
  assumes "lhd_ok dev" and "fault_free dev" and "d_blocksize dev = 512" and "write_ok wr" and "volume_name arg = Some name" and "length name < 32"
    and "0 \<notin> set name" and "SFS_BITBLOCKS (d_blocks dev) \<le> 32" and "2 + SFS_BITBLOCKS (d_blocks dev) \<le> d_blocks dev" and "kmalloc_bytes_ok (mm_bits mem)"
  shows "\<exists>d r dev'. mksfs wr arg (512 * d_blocks dev) (hw_sect dev) = Some (True, d) \<and> sfs_domount mem (dev\<lparr>hw_sect := d\<rparr>) = Some (r, dev') \<and>
    (case r of Inl e \<Rightarrow> e = ENOMEM \<and> \<not> mount_enough mem
     | Inr fs \<Rightarrow> dir_wf fs (dec_inode (disk fs 1)) \<and> dirmap (disk fs) (dec_inode (disk fs 1)) = Map.empty \<and>
         cstr (sp_volname (sfs_super fs)) = name \<and> fs_used fs = made_used (d_blocks dev))"
  using mksfs_mounted [OF assms] by (fastforce split: sum.splits)

text \<open>A blank disk of 100 sectors, and a system that writes 100 bytes at a time.\<close>

theorem mksfs_mount_witness:
  "\<exists>d fs dev'. mksfs (\<lambda>k n. min n 100) [118, 111, 108, 58] 51200 (hw_sect (sfs_device small_fs)) = Some (True, d) \<and>
    sfs_domount some_mem ((sfs_device small_fs)\<lparr>hw_sect := d\<rparr>) = Some (Inr fs, dev') \<and>
    cstr (sp_volname (sfs_super fs)) = [118, 111, 108] \<and> dirmap (disk fs) (dec_inode (disk fs 1)) = Map.empty \<and> fs_used fs = made_used 100"
proof -
  let ?dev = "sfs_device small_fs"
  have dev: "lhd_ok ?dev" "fault_free ?dev" "d_blocksize ?dev = 512" "d_blocks ?dev = 100"
    using dirty_fs_ok by (simp_all add: volume_ok_def healthy_def dirty_fs_def) (simp add: small_fs_def some_disk_def)
  have w: "write_ok (\<lambda>k n. min n 100)" by (simp add: write_ok_def)
  have nm: "volume_name [118, 111, 108, 58] = Some [118, 111, 108]" by (simp add: volume_name_def)
  have b: "SFS_BITBLOCKS (d_blocks ?dev) \<le> 32" "2 + SFS_BITBLOCKS (d_blocks ?dev) \<le> d_blocks ?dev"
    unfolding dev(4) by (simp_all add: SFS_BITBLOCKS_def SFS_BITMAPSIZE_def SFS_ROUNDUP_def SFS_BLOCKBITS_def SFS_BLOCKSIZE_def)
  have k: "kmalloc_bytes_ok (mm_bits some_mem)" by (simp add: kmalloc_bytes_ok_def some_mem_def)
  have "mount_enough some_mem" by (simp add: mount_enough_def some_mem_def)
  with mksfs_mount [OF dev(1-3) w nm _ _ b k] show ?thesis unfolding dev(4) by (fastforce split: sum.splits)
qed

end
