(* ===== verification/VfsList.thy ===== *)
theory VfsList
  imports SfsVnode
begin

text \<open>
  The table of named devices of the VFS layer (\<open>kern/fs/vfs/vfslist.c\<close>).

  The VFS layer reaches file systems and vnodes only through their function tables
  (\<open>struct fs\<close> of \<open>include/fs.h\<close> and the \<open>VOP\<close> macros of \<open>include/vnode.h\<close>). What these tables do is a
  record of functions over the state \<open>'w\<close> of the file systems and devices, and every operation of the
  layer takes it as an argument. Pointers to vnodes, devices and file systems are addresses; in \<open>kd_device\<close>
  and \<open>kd_fs\<close> zero is the null pointer, other pointers that may be null are options. A string is the list of its bytes without the final zero. The entries of the
  table are not shared, so the array holds them by value. A lock of the layer is free or held by the
  current thread; \<open>kmalloc\<close> results are arguments, and lines that are only printed are left out.
\<close>

section \<open>Function tables and state\<close>

record 'w fsif =
  FSOP_SYNC :: "nat \<Rightarrow> 'w \<Rightarrow> (unit kres \<times> 'w) option"
  FSOP_GETVOLNAME :: "nat \<Rightarrow> 'w \<Rightarrow> byte list option option"
  FSOP_GETROOT :: "nat \<Rightarrow> 'w \<Rightarrow> (nat \<times> 'w) option"
  FSOP_UNMOUNT :: "nat \<Rightarrow> 'w \<Rightarrow> (unit kres \<times> 'w) option"
  dev_create_vnode :: "nat \<Rightarrow> 'w \<Rightarrow> (nat option \<times> 'w) option"
  kfree_vnode :: "nat \<Rightarrow> 'w \<Rightarrow> 'w option"
  vn_fs :: "nat \<Rightarrow> 'w \<Rightarrow> nat option option"
  VOP_INCREF :: "nat \<Rightarrow> 'w \<Rightarrow> 'w option"
  VOP_DECREF :: "nat \<Rightarrow> 'w \<Rightarrow> 'w option"
  VOP_INCOPEN :: "nat \<Rightarrow> 'w \<Rightarrow> 'w option"
  VOP_DECOPEN :: "nat \<Rightarrow> 'w \<Rightarrow> 'w option"
  VOP_OPEN :: "nat \<Rightarrow> int \<Rightarrow> 'w \<Rightarrow> (unit kres \<times> 'w) option"
  VOP_READLINK :: "nat \<Rightarrow> uio \<Rightarrow> 'w \<Rightarrow> ((unit kres \<times> uio) \<times> 'w) option"
  VOP_GETTYPE :: "nat \<Rightarrow> 'w \<Rightarrow> (nat kres \<times> 'w) option"
  VOP_TRUNCATE :: "nat \<Rightarrow> int \<Rightarrow> 'w \<Rightarrow> (unit kres \<times> 'w) option"
  VOP_NAMEFILE :: "nat \<Rightarrow> uio \<Rightarrow> 'w \<Rightarrow> ((unit kres \<times> uio) \<times> 'w) option"
  VOP_CREAT :: "nat \<Rightarrow> byte list \<Rightarrow> bool \<Rightarrow> 'w \<Rightarrow> (nat kres \<times> 'w) option"
  VOP_SYMLINK :: "nat \<Rightarrow> byte list \<Rightarrow> byte list \<Rightarrow> 'w \<Rightarrow> (unit kres \<times> 'w) option"
  VOP_MKDIR :: "nat \<Rightarrow> byte list \<Rightarrow> 'w \<Rightarrow> (unit kres \<times> 'w) option"
  VOP_LINK :: "nat \<Rightarrow> byte list \<Rightarrow> nat \<Rightarrow> 'w \<Rightarrow> (unit kres \<times> 'w) option"
  VOP_REMOVE :: "nat \<Rightarrow> byte list \<Rightarrow> 'w \<Rightarrow> (unit kres \<times> 'w) option"
  VOP_RMDIR :: "nat \<Rightarrow> byte list \<Rightarrow> 'w \<Rightarrow> (unit kres \<times> 'w) option"
  VOP_RENAME :: "nat \<Rightarrow> byte list \<Rightarrow> nat \<Rightarrow> byte list \<Rightarrow> 'w \<Rightarrow> (unit kres \<times> 'w) option"
  VOP_LOOKUP :: "nat \<Rightarrow> byte list \<Rightarrow> 'w \<Rightarrow> (nat kres \<times> 'w) option"
  VOP_LOOKPARENT :: "nat \<Rightarrow> byte list \<Rightarrow> nat \<Rightarrow> 'w \<Rightarrow> ((nat \<times> byte list) kres \<times> 'w) option"

record knowndev =
  kd_name :: "byte list"
  kd_rawname :: "byte list option"
  kd_device :: nat
  kd_vnode :: nat
  kd_fs :: nat

text \<open>The static variables of the layer, the current directory of the thread, and the state behind the tables.\<close>

record 'w vfs =
  knowndevs :: "knowndev array"
  knowndevs_lock :: bool
  bootfs_vnode :: "nat option"
  bootfs_lock :: bool
  t_cwd :: "nat option"
  world :: 'w

definition on_world :: "('w \<Rightarrow> ('a \<times> 'w) option) \<Rightarrow> 'w vfs \<Rightarrow> ('a \<times> 'w vfs) option" where
  "on_world f s = do { (r, w) \<leftarrow> f (world s); Some (r, s\<lparr>world := w\<rparr>) }"

definition do_world :: "('w \<Rightarrow> 'w option) \<Rightarrow> 'w vfs \<Rightarrow> 'w vfs option" where
  "do_world f s = do { w \<leftarrow> f (world s); Some (s\<lparr>world := w\<rparr>) }"

definition lock_table :: "'w vfs \<Rightarrow> 'w vfs option" where
  "lock_table s = do { kassert (\<not> knowndevs_lock s); Some (s\<lparr>knowndevs_lock := True\<rparr>) }"

definition unlock_table :: "'w vfs \<Rightarrow> 'w vfs option" where
  "unlock_table s = do { kassert (knowndevs_lock s); Some (s\<lparr>knowndevs_lock := False\<rparr>) }"

text \<open>The body of a function between \<open>lock_acquire(knowndevs_lock)\<close> and its release at \<open>out\<close> or \<open>puke\<close>.\<close>

definition locked :: "('w vfs \<Rightarrow> ('a \<times> 'w vfs) option) \<Rightarrow> 'w vfs \<Rightarrow> ('a \<times> 'w vfs) option" where
  "locked body s = do {
     s1 \<leftarrow> lock_table s;
     (r, s2) \<leftarrow> body s1;
     s3 \<leftarrow> unlock_table s2;
     Some (r, s3)
   }"

section \<open>Sync\<close>

primrec sync_from :: "'w fsif \<Rightarrow> int \<Rightarrow> nat \<Rightarrow> 'w vfs \<Rightarrow> (unit \<times> 'w vfs) option" where
  "sync_from t i 0 s = Some ((), s)"
| "sync_from t i (Suc n) s = do {
     dev \<leftarrow> array_getguy (knowndevs s) i;
     s1 \<leftarrow> (if kd_fs dev \<noteq> 0 then do { (r, s1) \<leftarrow> on_world (FSOP_SYNC t (kd_fs dev)) s; Some s1 } else Some s);
     sync_from t (i + 1) n s1
   }"

definition vfs_sync :: "'w fsif \<Rightarrow> 'w vfs \<Rightarrow> (unit \<times> 'w vfs) option" where
  "vfs_sync t s = locked (\<lambda>s. sync_from t 0 (nat (array_getnum (knowndevs s))) s) s"

section \<open>Finding a device\<close>

text \<open>One round of the loop of \<open>vfs_getroot\<close>; \<open>None\<close> in the result is that the entry was not named.\<close>

definition getroot_try :: "'w fsif \<Rightarrow> byte list \<Rightarrow> knowndev \<Rightarrow> 'w vfs \<Rightarrow> (nat kres option \<times> 'w vfs) option" where
  "getroot_try t devname kd s = do {
     volname \<leftarrow> (if kd_fs kd \<noteq> 0 then FSOP_GETVOLNAME t (kd_fs kd) (world s) else Some None);
     if kd_fs kd \<noteq> 0 \<and> (kd_name kd = devname \<or> volname = Some devname) then do {
       (vn, s1) \<leftarrow> on_world (FSOP_GETROOT t (kd_fs kd)) s;
       Some (Some (Inr vn), s1)
     }
     else if kd_fs kd = 0 \<and> kd_rawname kd \<noteq> None \<and> kd_name kd = devname then Some (Some (Inl ENXIO), s)
     else if kd_name kd = devname then do {
       kassert (kd_fs kd = 0);
       kassert (kd_rawname kd = None);
       kassert (kd_device kd \<noteq> 0);
       s1 \<leftarrow> do_world (VOP_INCREF t (kd_vnode kd)) s;
       Some (Some (Inr (kd_vnode kd)), s1)
     }
     else if kd_rawname kd = Some devname then do {
       kassert (kd_device kd \<noteq> 0);
       s1 \<leftarrow> do_world (VOP_INCREF t (kd_vnode kd)) s;
       Some (Some (Inr (kd_vnode kd)), s1)
     }
     else Some (None, s)
   }"

primrec getroot_from :: "'w fsif \<Rightarrow> byte list \<Rightarrow> int \<Rightarrow> nat \<Rightarrow> 'w vfs \<Rightarrow> (nat kres \<times> 'w vfs) option" where
  "getroot_from t devname i 0 s = Some (Inl ENODEV, s)"
| "getroot_from t devname i (Suc n) s = do {
     kd \<leftarrow> array_getguy (knowndevs s) i;
     (hit, s1) \<leftarrow> getroot_try t devname kd s;
     case hit of Some r \<Rightarrow> Some (r, s1) | None \<Rightarrow> getroot_from t devname (i + 1) n s1
   }"

definition vfs_getroot :: "'w fsif \<Rightarrow> byte list \<Rightarrow> 'w vfs \<Rightarrow> (nat kres \<times> 'w vfs) option" where
  "vfs_getroot t devname s = locked (\<lambda>s. getroot_from t devname 0 (nat (array_getnum (knowndevs s))) s) s"

definition vfs_getdevname :: "nat \<Rightarrow> 'w vfs \<Rightarrow> (byte list option \<times> 'w vfs) option" where
  "vfs_getdevname fs s = do {
     kassert (fs \<noteq> 0);
     locked (\<lambda>s. do {
       hit \<leftarrow> array_scan (\<lambda>kd. kd_fs kd = fs) (knowndevs s);
       Some (map_option (\<lambda>(i, kd). kd_name kd) hit, s)
     }) s
   }"

section \<open>Adding a device\<close>

definition bytes_of :: "string \<Rightarrow> byte list" where
  "bytes_of str = map (\<lambda>c. of_nat (of_char c)) str"

definition mkrawname :: "bool \<Rightarrow> byte list \<Rightarrow> byte list option" where
  "mkrawname mem name = (if mem then Some (name @ bytes_of ''raw'') else None)"

definition samestring :: "byte list option \<Rightarrow> byte list option \<Rightarrow> bool" where
  "samestring a b = (if a = None \<or> b = None then False else a = b)"

definition samestring3 :: "byte list option \<Rightarrow> byte list option \<Rightarrow> byte list option \<Rightarrow> byte list option \<Rightarrow> bool" where
  "samestring3 a b c d = (samestring a b \<or> samestring a c \<or> samestring a d)"

primrec badnames_from :: "'w fsif \<Rightarrow> byte list option \<Rightarrow> byte list option \<Rightarrow> byte list option \<Rightarrow> int \<Rightarrow> nat \<Rightarrow> 'w vfs \<Rightarrow> bool option" where
  "badnames_from t n1 n2 n3 i 0 s = Some False"
| "badnames_from t n1 n2 n3 i (Suc n) s = do {
     kd \<leftarrow> array_getguy (knowndevs s) i;
     volname \<leftarrow> (if kd_fs kd \<noteq> 0 then FSOP_GETVOLNAME t (kd_fs kd) (world s) else Some None);
     if kd_fs kd \<noteq> 0 \<and> samestring3 volname n1 n2 n3 then Some True
     else if samestring3 (kd_rawname kd) n1 n2 n3 \<or> samestring3 (Some (kd_name kd)) n1 n2 n3 then Some True
     else badnames_from t n1 n2 n3 (i + 1) n s
   }"

definition badnames :: "'w fsif \<Rightarrow> byte list option \<Rightarrow> byte list option \<Rightarrow> byte list option \<Rightarrow> 'w vfs \<Rightarrow> bool option" where
  "badnames t n1 n2 n3 s = do {
     kassert (knowndevs_lock s);
     badnames_from t n1 n2 n3 0 (nat (array_getnum (knowndevs s))) s
   }"

text \<open>Which of the allocations of \<open>vfs_doadd\<close> succeed, and \<open>kmalloc\<close> for the array.\<close>

record addmem =
  am_name :: bool
  am_rawname :: bool
  am_kd :: bool
  am_table :: "nat \<Rightarrow> knowndev list option"

text \<open>The names, the vnode and the entry were made: the part with the table locked.\<close>

definition doadd_enter :: "'w fsif \<Rightarrow> addmem \<Rightarrow> knowndev \<Rightarrow> byte list option \<Rightarrow> 'w vfs \<Rightarrow> (unit kres \<times> 'w vfs) option" where
  "doadd_enter t mem kd volname s = locked (\<lambda>s. do {
     bad \<leftarrow> badnames t (Some (kd_name kd)) (kd_rawname kd) volname s;
     if \<not> bad then do {
       (err, arr) \<leftarrow> array_add (am_table mem) kd (knowndevs s);
       Some (err, s\<lparr>knowndevs := arr\<rparr>)
     }
     else Some (Inl EEXIST, s)
   }) s"

definition vfs_doadd :: "'w fsif \<Rightarrow> addmem \<Rightarrow> byte list \<Rightarrow> bool \<Rightarrow> nat \<Rightarrow> nat \<Rightarrow> 'w vfs \<Rightarrow> (unit kres \<times> 'w vfs) option" where
  "vfs_doadd t mem dname mountable dev fs s =
     (if \<not> am_name mem then Some (Inl ENOMEM, s)
      else do {
        let name = dname;
        let rawname = (if mountable then mkrawname (am_rawname mem) name else None);
        if mountable \<and> rawname = None then Some (Inl ENOMEM, s)
        else do {
          (vnode, s1) \<leftarrow> on_world (dev_create_vnode t dev) s;
          case vnode of None \<Rightarrow> Some (Inl ENOMEM, s1)
          | Some vn \<Rightarrow>
              if \<not> am_kd mem then do { s2 \<leftarrow> do_world (kfree_vnode t vn) s1; Some (Inl ENOMEM, s2) }
              else do {
                let kd = \<lparr>kd_name = name, kd_rawname = rawname, kd_device = dev, kd_vnode = vn, kd_fs = fs\<rparr>;
                volname \<leftarrow> (if fs \<noteq> 0 then FSOP_GETVOLNAME t fs (world s1) else Some None);
                doadd_enter t mem kd volname s1
              }
        }
      })"

definition vfs_adddev :: "'w fsif \<Rightarrow> addmem \<Rightarrow> byte list \<Rightarrow> nat \<Rightarrow> bool \<Rightarrow> 'w vfs \<Rightarrow> (unit kres \<times> 'w vfs) option" where
  "vfs_adddev t mem devname dev mountable s = vfs_doadd t mem devname mountable dev 0 s"

definition vfs_addfs :: "'w fsif \<Rightarrow> addmem \<Rightarrow> byte list \<Rightarrow> nat \<Rightarrow> 'w vfs \<Rightarrow> (unit kres \<times> 'w vfs) option" where
  "vfs_addfs t mem devname fs s = vfs_doadd t mem devname False 0 fs s"

section \<open>Mounting\<close>

text \<open>The entry that is found is given with its index, so that it can be changed in place.\<close>

definition findmount :: "byte list \<Rightarrow> 'w vfs \<Rightarrow> (int \<times> knowndev) kres option" where
  "findmount devname s = do {
     kassert (knowndevs_lock s);
     hit \<leftarrow> array_scan (\<lambda>dev. kd_rawname dev \<noteq> None \<and> devname = kd_name dev) (knowndevs s);
     Some (case hit of Some h \<Rightarrow> Inr h | None \<Rightarrow> Inl ENODEV)
   }"

definition set_kd_fs :: "int \<Rightarrow> knowndev \<Rightarrow> nat \<Rightarrow> 'w vfs \<Rightarrow> 'w vfs option" where
  "set_kd_fs i kd fs s = do {
     arr \<leftarrow> array_setguy i (kd\<lparr>kd_fs := fs\<rparr>) (knowndevs s);
     Some (s\<lparr>knowndevs := arr\<rparr>)
   }"

text \<open>
  \<open>mountfunc\<close> already has its argument \<open>data\<close>. The call of \<open>FSOP_GETVOLNAME\<close> after a mount is left out: the name is only
  printed.
\<close>

definition vfs_mount :: "byte list \<Rightarrow> (nat \<Rightarrow> 'w \<Rightarrow> (nat kres \<times> 'w) option) \<Rightarrow> 'w vfs \<Rightarrow> (unit kres \<times> 'w vfs) option" where
  "vfs_mount devname mountfunc s = locked (\<lambda>s. do {
     found \<leftarrow> findmount devname s;
     case found of Inl e \<Rightarrow> Some (Inl e, s)
     | Inr (i, kd) \<Rightarrow>
         if kd_fs kd \<noteq> 0 then Some (Inl EBUSY, s)
         else do {
           kassert (kd_rawname kd \<noteq> None);
           kassert (kd_device kd \<noteq> 0);
           (result, s1) \<leftarrow> on_world (mountfunc (kd_device kd)) s;
           case result of Inl e \<Rightarrow> Some (Inl e, s1)
           | Inr fs \<Rightarrow> do {
               kassert (fs \<noteq> 0);
               s2 \<leftarrow> set_kd_fs i kd fs s1;
               Some (Inr (), s2)
             }
         }
   }) s"

definition vfs_unmount :: "'w fsif \<Rightarrow> byte list \<Rightarrow> 'w vfs \<Rightarrow> (unit kres \<times> 'w vfs) option" where
  "vfs_unmount t devname s = locked (\<lambda>s. do {
     found \<leftarrow> findmount devname s;
     case found of Inl e \<Rightarrow> Some (Inl e, s)
     | Inr (i, kd) \<Rightarrow>
         if kd_fs kd = 0 then Some (Inl EINVAL, s)
         else do {
           kassert (kd_rawname kd \<noteq> None);
           kassert (kd_device kd \<noteq> 0);
           (result, s1) \<leftarrow> on_world (FSOP_SYNC t (kd_fs kd)) s;
           case result of Inl e \<Rightarrow> Some (Inl e, s1)
           | Inr _ \<Rightarrow> do {
               (result2, s2) \<leftarrow> on_world (FSOP_UNMOUNT t (kd_fs kd)) s1;
               case result2 of Inl e \<Rightarrow> Some (Inl e, s2)
               | Inr _ \<Rightarrow> do { s3 \<leftarrow> set_kd_fs i kd 0 s2; Some (Inr (), s3) }
             }
         }
   }) s"

text \<open>One round of \<open>vfs_unmountall\<close> for the entry at index \<open>i\<close>: at most two tries to sync, then the unmount.\<close>

definition unmount_try :: "'w fsif \<Rightarrow> int \<Rightarrow> knowndev \<Rightarrow> 'w vfs \<Rightarrow> 'w vfs option" where
  "unmount_try t i dev s =
     (if kd_rawname dev = None then Some s
      else if kd_fs dev = 0 then Some s
      else do {
        (result, s1) \<leftarrow> on_world (FSOP_SYNC t (kd_fs dev)) s;
        (result2, s2) \<leftarrow> (case result of Inl e \<Rightarrow> on_world (FSOP_SYNC t (kd_fs dev)) s1 | Inr u \<Rightarrow> Some (Inr u, s1));
        case result2 of Inl e \<Rightarrow> Some s2
        | Inr _ \<Rightarrow> do {
            (result3, s3) \<leftarrow> on_world (FSOP_UNMOUNT t (kd_fs dev)) s2;
            case result3 of Inl e \<Rightarrow> Some s3 | Inr _ \<Rightarrow> set_kd_fs i dev 0 s3
          }
      })"

primrec unmountall_from :: "'w fsif \<Rightarrow> int \<Rightarrow> nat \<Rightarrow> 'w vfs \<Rightarrow> (unit \<times> 'w vfs) option" where
  "unmountall_from t i 0 s = Some ((), s)"
| "unmountall_from t i (Suc n) s = do {
     dev \<leftarrow> array_getguy (knowndevs s) i;
     s1 \<leftarrow> unmount_try t i dev s;
     unmountall_from t (i + 1) n s1
   }"

definition vfs_unmountall :: "'w fsif \<Rightarrow> 'w vfs \<Rightarrow> (unit \<times> 'w vfs) option" where
  "vfs_unmountall t s = locked (\<lambda>s. unmountall_from t 0 (nat (array_getnum (knowndevs s))) s) s"

end
