(* ===== verification/VfsPath.thy ===== *)
theory VfsPath
  imports VfsList
begin

unbundle bit_operations_syntax

text \<open>
  Path names in the VFS layer: the current directory (\<open>kern/fs/vfs/vfscwd.c\<close>), the translation of
  a path to a vnode (\<open>kern/fs/vfs/vfslookup.c\<close>) and the operations on path names
  (\<open>kern/fs/vfs/vfspath.c\<close>).

  A path is the list of its bytes. \<open>getdevice\<close> returns the vnode to start from together with the
  rest of the path, to which the C code returns a pointer.
\<close>

definition NAME_MAX :: nat where "NAME_MAX = 255"
definition O_CREAT :: int where "O_CREAT = 4"
definition O_EXCL :: int where "O_EXCL = 8"
definition O_TRUNC :: int where "O_TRUNC = 16"
definition S_IFMT :: nat where "S_IFMT = 0x7000"

definition S_ISDIR :: "nat \<Rightarrow> bool" where
  "S_ISDIR mode \<longleftrightarrow> mode AND S_IFMT = S_IFDIR"

abbreviation colon_char :: byte where "colon_char \<equiv> 58"
abbreviation slash_char :: byte where "slash_char \<equiv> 47"

section \<open>The current directory\<close>

definition vfs_getcurdir :: "'w fsif \<Rightarrow> 'w vfs \<Rightarrow> (nat kres \<times> 'w vfs) option" where
  "vfs_getcurdir t s =
     (case t_cwd s of
        Some cwd \<Rightarrow> do {
          s1 \<leftarrow> do_world (VOP_INCREF t cwd) s;
          Some (Inr cwd, s1)
        }
      | None \<Rightarrow> Some (Inl ENOENT, s))"

definition vfs_setcurdir :: "'w fsif \<Rightarrow> nat \<Rightarrow> 'w vfs \<Rightarrow> (unit kres \<times> 'w vfs) option" where
  "vfs_setcurdir t dir s = do {
     (result, s1) \<leftarrow> on_world (VOP_GETTYPE t dir) s;
     case result of Inl e \<Rightarrow> Some (Inl e, s1)
     | Inr vtype \<Rightarrow>
         if \<not> S_ISDIR vtype then Some (Inl ENOTDIR, s1)
         else do {
           s2 \<leftarrow> do_world (VOP_INCREF t dir) s1;
           let old = t_cwd s2;
           let s3 = s2\<lparr>t_cwd := Some dir\<rparr>;
           s4 \<leftarrow> (case old of Some v \<Rightarrow> do_world (VOP_DECREF t v) s3 | None \<Rightarrow> Some s3);
           Some (Inr (), s4)
         }
   }"

definition vfs_clearcurdir :: "'w fsif \<Rightarrow> 'w vfs \<Rightarrow> (unit kres \<times> 'w vfs) option" where
  "vfs_clearcurdir t s = do {
     let old = t_cwd s;
     let s1 = s\<lparr>t_cwd := None\<rparr>;
     s2 \<leftarrow> (case old of Some v \<Rightarrow> do_world (VOP_DECREF t v) s1 | None \<Rightarrow> Some s1);
     Some (Inr (), s2)
   }"

section \<open>Translation of a path\<close>

text \<open>The loop that locates the first colon or slash, from index \<open>i\<close>; the result is \<open>slash\<close> and \<open>colon\<close>.\<close>

fun scan_path :: "int \<Rightarrow> byte list \<Rightarrow> int \<times> int" where
  "scan_path i [] = (- 1, - 1)"
| "scan_path i (c # path) =
     (if c = colon_char then (- 1, i)
      else if c = slash_char then (i, - 1)
      else scan_path (i + 1) path)"

text \<open>The loops \<open>while (path[1]=='/') path++\<close> and \<open>while (path[colon+1]=='/') colon++\<close>, for the bytes behind.\<close>

fun skip_slashes :: "byte list \<Rightarrow> byte list" where
  "skip_slashes [] = []"
| "skip_slashes (c # path) = (if c = slash_char then skip_slashes path else c # path)"

text \<open>The vnode for a path that starts with a slash or a colon.\<close>

definition getdevice_root :: "'w fsif \<Rightarrow> byte list \<Rightarrow> 'w vfs \<Rightarrow> (nat kres \<times> 'w vfs) option" where
  "getdevice_root t path s =
     (if hd path = slash_char then do {
        kassert (\<not> bootfs_lock s);
        let s1 = s\<lparr>bootfs_lock := True\<rparr>;
        case bootfs_vnode s1 of None \<Rightarrow> Some (Inl ENOENT, s1\<lparr>bootfs_lock := False\<rparr>)
        | Some vn \<Rightarrow> do {
            s2 \<leftarrow> do_world (VOP_INCREF t vn) s1;
            Some (Inr vn, s2\<lparr>bootfs_lock := False\<rparr>)
          }
      }
      else do {
        kassert (hd path = colon_char);
        (result, s1) \<leftarrow> vfs_getcurdir t s;
        case result of Inl e \<Rightarrow> Some (Inl e, s1)
        | Inr vn \<Rightarrow> do {
            fs \<leftarrow> vn_fs t vn (world s1);
            f \<leftarrow> fs;
            (start, s2) \<leftarrow> on_world (FSOP_GETROOT t f) s1;
            s3 \<leftarrow> do_world (VOP_DECREF t vn) s2;
            Some (Inr start, s3)
          }
      })"

definition getdevice :: "'w fsif \<Rightarrow> byte list \<Rightarrow> 'w vfs \<Rightarrow> ((nat \<times> byte list) kres \<times> 'w vfs) option" where
  "getdevice t path s = do {
     let (slash, colon) = scan_path 0 path;
     if colon < 0 \<and> slash \<noteq> 0 then do {
       (r, s1) \<leftarrow> vfs_getcurdir t s;
       Some (map_sum id (\<lambda>vn. (vn, path)) r, s1)
     }
     else if colon > 0 then do {
       (r, s1) \<leftarrow> vfs_getroot t (take (nat colon) path) s;
       Some (map_sum id (\<lambda>vn. (vn, skip_slashes (drop (nat colon + 1) path))) r, s1)
     }
     else do {
       kassert (colon = 0 \<or> slash = 0);
       (r, s1) \<leftarrow> getdevice_root t path s;
       Some (map_sum id (\<lambda>vn. (vn, skip_slashes (tl path))) r, s1)
     }
   }"

definition vfs_lookparent :: "'w fsif \<Rightarrow> byte list \<Rightarrow> nat \<Rightarrow> 'w vfs \<Rightarrow> ((nat \<times> byte list) kres \<times> 'w vfs) option" where
  "vfs_lookparent t path buflen s = do {
     (result, s1) \<leftarrow> getdevice t path s;
     case result of Inl e \<Rightarrow> Some (Inl e, s1)
     | Inr (startvn, path2) \<Rightarrow> do {
         (result2, s2) \<leftarrow> (if length path2 = 0 then Some (Inl EINVAL, s1) else on_world (VOP_LOOKPARENT t startvn path2 buflen) s1);
         s3 \<leftarrow> do_world (VOP_DECREF t startvn) s2;
         Some (result2, s3)
       }
   }"

definition vfs_lookup :: "'w fsif \<Rightarrow> byte list \<Rightarrow> 'w vfs \<Rightarrow> (nat kres \<times> 'w vfs) option" where
  "vfs_lookup t path s = do {
     (result, s1) \<leftarrow> getdevice t path s;
     case result of Inl e \<Rightarrow> Some (Inl e, s1)
     | Inr (startvn, path2) \<Rightarrow>
         if length path2 = 0 then Some (Inr startvn, s1)
         else do {
           (result2, s2) \<leftarrow> on_world (VOP_LOOKUP t startvn path2) s1;
           s3 \<leftarrow> do_world (VOP_DECREF t startvn) s2;
           Some (result2, s3)
         }
   }"

section \<open>Changing the directories\<close>

definition vfs_chdir :: "'w fsif \<Rightarrow> byte list \<Rightarrow> 'w vfs \<Rightarrow> (unit kres \<times> 'w vfs) option" where
  "vfs_chdir t path s = do {
     (result, s1) \<leftarrow> vfs_lookup t path s;
     case result of Inl e \<Rightarrow> Some (Inl e, s1)
     | Inr vn \<Rightarrow> do {
         (result2, s2) \<leftarrow> vfs_setcurdir t vn s1;
         s3 \<leftarrow> do_world (VOP_DECREF t vn) s2;
         Some (result2, s3)
       }
   }"

text \<open>The string \<open>name\<close> is written to the \<open>uio\<close>, then a colon, then the name of the directory.\<close>

definition vfs_getcwd :: "'w fsif \<Rightarrow> uio \<Rightarrow> 'w vfs \<Rightarrow> ((unit kres \<times> uio) \<times> 'w vfs) option" where
  "vfs_getcwd t u s = do {
     kassert (uio_rw u = UIO_READ);
     (result, s1) \<leftarrow> vfs_getcurdir t s;
     case result of Inl e \<Rightarrow> Some ((Inl e, u), s1)
     | Inr cwd \<Rightarrow> do {
         fs \<leftarrow> vn_fs t cwd (world s1);
         f \<leftarrow> fs;
         volname \<leftarrow> FSOP_GETVOLNAME t f (world s1);
         (nm, s2) \<leftarrow> (case volname of Some n \<Rightarrow> Some (Some n, s1) | None \<Rightarrow> vfs_getdevname f s1);
         name \<leftarrow> nm;
         (r1, b1, u1) \<leftarrow> uiomove name 0 (length name) u;
         ((r3, u3), s3) \<leftarrow> (case r1 of Inl e \<Rightarrow> Some ((Inl e, u1), s2)
           | Inr _ \<Rightarrow> do {
               (r2, b2, u2) \<leftarrow> uiomove [colon_char] 0 1 u1;
               case r2 of Inl e \<Rightarrow> Some ((Inl e, u2), s2) | Inr _ \<Rightarrow> on_world (VOP_NAMEFILE t cwd u2) s2
             });
         s4 \<leftarrow> do_world (VOP_DECREF t cwd) s3;
         Some ((r3, u3), s4)
       }
   }"

definition change_bootfs :: "'w fsif \<Rightarrow> nat option \<Rightarrow> 'w vfs \<Rightarrow> 'w vfs option" where
  "change_bootfs t newguy s = do {
     kassert (\<not> bootfs_lock s);
     let s1 = s\<lparr>bootfs_lock := True\<rparr>;
     let oldguy = bootfs_vnode s1;
     let s2 = s1\<lparr>bootfs_vnode := newguy, bootfs_lock := False\<rparr>;
     case oldguy of Some v \<Rightarrow> do_world (VOP_DECREF t v) s2 | None \<Rightarrow> Some s2
   }"

text \<open>\<open>snprintf\<close> is given \<open>sizeof(tmp)-1 = NAME_MAX\<close> and keeps one byte of it for the zero.\<close>

definition vfs_setbootfs :: "'w fsif \<Rightarrow> byte list \<Rightarrow> 'w vfs \<Rightarrow> (unit kres \<times> 'w vfs) option" where
  "vfs_setbootfs t fsname s = do {
     let tmp = take (NAME_MAX - 1) fsname;
     let c = dropWhile (\<lambda>b. b \<noteq> colon_char) tmp;
     if c \<noteq> [] \<and> length c > 0 then Some (Inl EINVAL, s)
     else do {
       let tmp2 = (if c \<noteq> [] then tmp else tmp @ [colon_char]);
       (result, s1) \<leftarrow> vfs_chdir t tmp2 s;
       case result of Inl e \<Rightarrow> Some (Inl e, s1)
       | Inr _ \<Rightarrow> do {
           (result2, s2) \<leftarrow> vfs_getcurdir t s1;
           case result2 of Inl e \<Rightarrow> Some (Inl e, s2)
           | Inr newguy \<Rightarrow> do { s3 \<leftarrow> change_bootfs t (Some newguy) s2; Some (Inr (), s3) }
         }
     }
   }"

definition vfs_clearbootfs :: "'w fsif \<Rightarrow> 'w vfs \<Rightarrow> 'w vfs option" where
  "vfs_clearbootfs t s = change_bootfs t None s"

section \<open>Operations on path names\<close>

text \<open>The name in a buffer that \<open>VOP_LOOKPARENT\<close> filled: the bytes before the first zero.\<close>

definition cstring :: "byte list \<Rightarrow> byte list" where
  "cstring buf = takeWhile (\<lambda>b. b \<noteq> 0) buf"

text \<open>The first part of \<open>vfs_open\<close>: the vnode is created or looked up.\<close>

definition open_vnode :: "'w fsif \<Rightarrow> byte list \<Rightarrow> int \<Rightarrow> 'w vfs \<Rightarrow> (nat kres \<times> 'w vfs) option" where
  "open_vnode t path openflags s =
     (if openflags AND O_CREAT \<noteq> 0 then do {
        let excl = (openflags AND O_EXCL \<noteq> 0);
        (result, s1) \<leftarrow> vfs_lookparent t path (NAME_MAX + 1) s;
        case result of Inl e \<Rightarrow> Some (Inl e, s1)
        | Inr (dir, name) \<Rightarrow> do {
            (result2, s2) \<leftarrow> on_world (VOP_CREAT t dir (cstring name) excl) s1;
            s3 \<leftarrow> do_world (VOP_DECREF t dir) s2;
            Some (result2, s3)
          }
      }
      else vfs_lookup t path s)"

text \<open>The rest of \<open>vfs_open\<close>, for the vnode \<open>vn\<close>.\<close>

definition open_opened :: "'w fsif \<Rightarrow> nat \<Rightarrow> int \<Rightarrow> bool \<Rightarrow> 'w vfs \<Rightarrow> (nat kres \<times> 'w vfs) option" where
  "open_opened t vn openflags canwrite s = do {
     kassert (vn \<noteq> 0);
     (result, s1) \<leftarrow> on_world (VOP_OPEN t vn openflags) s;
     case result of
       Inl e \<Rightarrow> do { s2 \<leftarrow> do_world (VOP_DECREF t vn) s1; Some (Inl e, s2) }
     | Inr _ \<Rightarrow> do {
         s2 \<leftarrow> do_world (VOP_INCOPEN t vn) s1;
         if openflags AND O_TRUNC \<noteq> 0 then do {
           (result2, s3) \<leftarrow> (if \<not> canwrite then Some (Inl EINVAL, s2) else on_world (VOP_TRUNCATE t vn 0) s2);
           case result2 of
             Inl e \<Rightarrow> do {
               s4 \<leftarrow> do_world (VOP_DECOPEN t vn) s3;
               s5 \<leftarrow> do_world (VOP_DECREF t vn) s4;
               Some (Inl e, s5)
             }
           | Inr _ \<Rightarrow> Some (Inr vn, s3)
         }
         else Some (Inr vn, s2)
       }
   }"

definition vfs_open :: "'w fsif \<Rightarrow> byte list \<Rightarrow> int \<Rightarrow> 'w vfs \<Rightarrow> (nat kres \<times> 'w vfs) option" where
  "vfs_open t path openflags s = do {
     let how = openflags AND O_ACCMODE;
     if how \<noteq> O_RDONLY \<and> how \<noteq> O_WRONLY \<and> how \<noteq> O_RDWR then Some (Inl EINVAL, s)
     else do {
       let canwrite = (how \<noteq> O_RDONLY);
       (result, s1) \<leftarrow> open_vnode t path openflags s;
       case result of Inl e \<Rightarrow> Some (Inl e, s1) | Inr vn \<Rightarrow> open_opened t vn openflags canwrite s1
     }
   }"

definition vfs_close :: "'w fsif \<Rightarrow> nat \<Rightarrow> 'w vfs \<Rightarrow> 'w vfs option" where
  "vfs_close t vn s = do {
     s1 \<leftarrow> do_world (VOP_DECOPEN t vn) s;
     do_world (VOP_DECREF t vn) s1
   }"

text \<open>What \<open>vfs_remove\<close>, \<open>vfs_symlink\<close>, \<open>vfs_mkdir\<close> and \<open>vfs_rmdir\<close> share: one operation on the parent directory.\<close>

definition in_parent :: "'w fsif \<Rightarrow> (nat \<Rightarrow> byte list \<Rightarrow> 'w \<Rightarrow> (unit kres \<times> 'w) option) \<Rightarrow> byte list \<Rightarrow> 'w vfs \<Rightarrow> (unit kres \<times> 'w vfs) option" where
  "in_parent t f path s = do {
     (result, s1) \<leftarrow> vfs_lookparent t path (NAME_MAX + 1) s;
     case result of Inl e \<Rightarrow> Some (Inl e, s1)
     | Inr (dir, name) \<Rightarrow> do {
         (result2, s2) \<leftarrow> on_world (f dir (cstring name)) s1;
         s3 \<leftarrow> do_world (VOP_DECREF t dir) s2;
         Some (result2, s3)
       }
   }"

definition vfs_remove :: "'w fsif \<Rightarrow> byte list \<Rightarrow> 'w vfs \<Rightarrow> (unit kres \<times> 'w vfs) option" where
  "vfs_remove t path s = in_parent t (VOP_REMOVE t) path s"

definition vfs_symlink :: "'w fsif \<Rightarrow> byte list \<Rightarrow> byte list \<Rightarrow> 'w vfs \<Rightarrow> (unit kres \<times> 'w vfs) option" where
  "vfs_symlink t content path s = in_parent t (\<lambda>newdir newname. VOP_SYMLINK t newdir newname content) path s"

definition vfs_mkdir :: "'w fsif \<Rightarrow> byte list \<Rightarrow> 'w vfs \<Rightarrow> (unit kres \<times> 'w vfs) option" where
  "vfs_mkdir t path s = in_parent t (VOP_MKDIR t) path s"

definition vfs_rmdir :: "'w fsif \<Rightarrow> byte list \<Rightarrow> 'w vfs \<Rightarrow> (unit kres \<times> 'w vfs) option" where
  "vfs_rmdir t path s = in_parent t (VOP_RMDIR t) path s"

text \<open>The test of \<open>vfs_rename\<close> and \<open>vfs_link\<close> that both vnodes are on one file system.\<close>

definition same_fs :: "'w fsif \<Rightarrow> nat \<Rightarrow> nat \<Rightarrow> 'w vfs \<Rightarrow> bool option" where
  "same_fs t a b s = do {
     fa \<leftarrow> vn_fs t a (world s);
     fb \<leftarrow> vn_fs t b (world s);
     Some (fa \<noteq> None \<and> fb \<noteq> None \<and> fa = fb)
   }"

text \<open>What \<open>vfs_rename\<close> and \<open>vfs_link\<close> share once the first vnode is there: the operation on both, then both are released.\<close>

definition with_newdir ::
  "'w fsif \<Rightarrow> (nat \<Rightarrow> byte list \<Rightarrow> 'w \<Rightarrow> (unit kres \<times> 'w) option) \<Rightarrow> nat \<Rightarrow> byte list \<Rightarrow> 'w vfs \<Rightarrow> (unit kres \<times> 'w vfs) option" where
  "with_newdir t f old newpath s = do {
     (result, s1) \<leftarrow> vfs_lookparent t newpath (NAME_MAX + 1) s;
     case result of
       Inl e \<Rightarrow> do { s2 \<leftarrow> do_world (VOP_DECREF t old) s1; Some (Inl e, s2) }
     | Inr (newdir, newname) \<Rightarrow> do {
         same \<leftarrow> same_fs t old newdir s1;
         (result2, s2) \<leftarrow> (if \<not> same then Some (Inl EXDEV, s1) else on_world (f newdir (cstring newname)) s1);
         s3 \<leftarrow> do_world (VOP_DECREF t newdir) s2;
         s4 \<leftarrow> do_world (VOP_DECREF t old) s3;
         Some (result2, s4)
       }
   }"

definition vfs_rename :: "'w fsif \<Rightarrow> byte list \<Rightarrow> byte list \<Rightarrow> 'w vfs \<Rightarrow> (unit kres \<times> 'w vfs) option" where
  "vfs_rename t oldpath newpath s = do {
     (result, s1) \<leftarrow> vfs_lookparent t oldpath (NAME_MAX + 1) s;
     case result of Inl e \<Rightarrow> Some (Inl e, s1)
     | Inr (olddir, oldname) \<Rightarrow> with_newdir t (VOP_RENAME t olddir (cstring oldname)) olddir newpath s1
   }"

definition vfs_link :: "'w fsif \<Rightarrow> byte list \<Rightarrow> byte list \<Rightarrow> 'w vfs \<Rightarrow> (unit kres \<times> 'w vfs) option" where
  "vfs_link t oldpath newpath s = do {
     (result, s1) \<leftarrow> vfs_lookup t oldpath s;
     case result of Inl e \<Rightarrow> Some (Inl e, s1)
     | Inr oldfile \<Rightarrow> with_newdir t (\<lambda>newdir newname. VOP_LINK t newdir newname oldfile) oldfile newpath s1
   }"

definition vfs_readlink :: "'w fsif \<Rightarrow> byte list \<Rightarrow> uio \<Rightarrow> 'w vfs \<Rightarrow> ((unit kres \<times> uio) \<times> 'w vfs) option" where
  "vfs_readlink t path u s = do {
     (result, s1) \<leftarrow> vfs_lookup t path s;
     case result of Inl e \<Rightarrow> Some ((Inl e, u), s1)
     | Inr vn \<Rightarrow> do {
         (r, s2) \<leftarrow> on_world (VOP_READLINK t vn u) s1;
         s3 \<leftarrow> do_world (VOP_DECREF t vn) s2;
         Some (r, s3)
       }
   }"

end
