(* ===== verification/VfsRefs.thy ===== *)
theory VfsRefs
  imports VfsPath "HOL-Library.Multiset"
begin

text \<open>
  The references to vnodes that the VFS layer takes and gives back.

  Every \<open>VOP_INCREF\<close>, \<open>VOP_LOOKUP\<close>, \<open>VOP_LOOKPARENT\<close>, \<open>VOP_CREAT\<close> and \<open>FSOP_GETROOT\<close> hands out one
  reference, \<open>VOP_DECREF\<close> takes one back. \<open>traced t\<close> are the function tables \<open>t\<close> with this account beside
  the state: a table that is called for a vnode without a reference stops. The theorem at the
  end relates the functions of the layer on both tables. The account is ghost state: it is not part of the code.
\<close>

section \<open>Tables that count\<close>

definition lift_plain :: "('w \<Rightarrow> ('a \<times> 'w) option) \<Rightarrow> 'w \<times> nat multiset \<Rightarrow> ('a \<times> 'w \<times> nat multiset) option" where
  "lift_plain f x = do { (r, w) \<leftarrow> f (fst x); Some (r, w, snd x) }"

definition lift_using :: "nat \<Rightarrow> ('w \<Rightarrow> ('a \<times> 'w) option) \<Rightarrow> 'w \<times> nat multiset \<Rightarrow> ('a \<times> 'w \<times> nat multiset) option" where
  "lift_using v f x = do { kassert (v \<in># snd x); lift_plain f x }"

definition lift_using2 :: "nat \<Rightarrow> nat \<Rightarrow> ('w \<Rightarrow> ('a \<times> 'w) option) \<Rightarrow> 'w \<times> nat multiset \<Rightarrow> ('a \<times> 'w \<times> nat multiset) option" where
  "lift_using2 v v2 f x = do { kassert (v \<in># snd x \<and> v2 \<in># snd x); lift_plain f x }"

lemma lift_using2_commute: "lift_using2 v v2 f = lift_using2 v2 v f"
  by (auto simp: lift_using2_def fun_eq_iff)

definition lift_giving0 :: "('w \<Rightarrow> (nat \<times> 'w) option) \<Rightarrow> 'w \<times> nat multiset \<Rightarrow> (nat \<times> 'w \<times> nat multiset) option" where
  "lift_giving0 f x = do { (v, w) \<leftarrow> f (fst x); Some (v, w, snd x + {#v#}) }"

definition lift_giving :: "nat \<Rightarrow> ('a \<Rightarrow> nat multiset) \<Rightarrow> ('w \<Rightarrow> ('a \<times> 'w) option) \<Rightarrow> 'w \<times> nat multiset \<Rightarrow> ('a \<times> 'w \<times> nat multiset) option" where
  "lift_giving v got f x = do { kassert (v \<in># snd x); (r, w) \<leftarrow> f (fst x); Some (r, w, snd x + got r) }"

definition lift_count :: "nat \<Rightarrow> ('w \<Rightarrow> 'w option) \<Rightarrow> (nat multiset \<Rightarrow> nat multiset) \<Rightarrow> 'w \<times> nat multiset \<Rightarrow> ('w \<times> nat multiset) option" where
  "lift_count v f upd x = do { kassert (v \<in># snd x); w \<leftarrow> f (fst x); Some (w, upd (snd x)) }"

primrec got :: "nat kres \<Rightarrow> nat multiset" where
  "got (Inl e) = {#}"
| "got (Inr v) = {#v#}"

primrec got_dir :: "(nat \<times> byte list) kres \<Rightarrow> nat multiset" where
  "got_dir (Inl e) = {#}"
| "got_dir (Inr p) = {#fst p#}"

definition traced :: "'w fsif \<Rightarrow> ('w \<times> nat multiset) fsif" where
  "traced t = \<lparr>
     FSOP_SYNC = \<lambda>f. lift_plain (FSOP_SYNC t f),
     FSOP_GETVOLNAME = \<lambda>f x. FSOP_GETVOLNAME t f (fst x),
     FSOP_GETROOT = \<lambda>f. lift_giving0 (FSOP_GETROOT t f),
     FSOP_UNMOUNT = \<lambda>f. lift_plain (FSOP_UNMOUNT t f),
     dev_create_vnode = \<lambda>d x. do { (v, w) \<leftarrow> dev_create_vnode t d (fst x); Some (v, w, snd x + (case v of None \<Rightarrow> {#} | Some a \<Rightarrow> {#a#})) },
     kfree_vnode = \<lambda>v. lift_count v (kfree_vnode t v) (\<lambda>h. h - {#v#}),
     vn_fs = \<lambda>v x. do { kassert (v \<in># snd x); vn_fs t v (fst x) },
     VOP_INCREF = \<lambda>v. lift_count v (VOP_INCREF t v) (\<lambda>h. h + {#v#}),
     VOP_DECREF = \<lambda>v. lift_count v (VOP_DECREF t v) (\<lambda>h. h - {#v#}),
     VOP_INCOPEN = \<lambda>v. lift_count v (VOP_INCOPEN t v) (\<lambda>h. h),
     VOP_DECOPEN = \<lambda>v. lift_count v (VOP_DECOPEN t v) (\<lambda>h. h),
     VOP_OPEN = \<lambda>v fl. lift_using v (VOP_OPEN t v fl),
     VOP_READLINK = \<lambda>v u. lift_using v (VOP_READLINK t v u),
     VOP_GETTYPE = \<lambda>v. lift_using v (VOP_GETTYPE t v),
     VOP_TRUNCATE = \<lambda>v len. lift_using v (VOP_TRUNCATE t v len),
     VOP_NAMEFILE = \<lambda>v u. lift_using v (VOP_NAMEFILE t v u),
     VOP_CREAT = \<lambda>v name excl. lift_giving v got (VOP_CREAT t v name excl),
     VOP_SYMLINK = \<lambda>v name c. lift_using v (VOP_SYMLINK t v name c),
     VOP_MKDIR = \<lambda>v name. lift_using v (VOP_MKDIR t v name),
     VOP_LINK = \<lambda>v name file. lift_using2 v file (VOP_LINK t v name file),
     VOP_REMOVE = \<lambda>v name. lift_using v (VOP_REMOVE t v name),
     VOP_RMDIR = \<lambda>v name. lift_using v (VOP_RMDIR t v name),
     VOP_RENAME = \<lambda>v n1 v2 n2. lift_using2 v v2 (VOP_RENAME t v n1 v2 n2),
     VOP_LOOKUP = \<lambda>v path. lift_giving v got (VOP_LOOKUP t v path),
     VOP_LOOKPARENT = \<lambda>v path n. lift_giving v got_dir (VOP_LOOKPARENT t v path n)\<rparr>"

definition tr :: "'w vfs \<Rightarrow> nat multiset \<Rightarrow> ('w \<times> nat multiset) vfs" where
  "tr s H = \<lparr>knowndevs = knowndevs s, knowndevs_lock = knowndevs_lock s, bootfs_vnode = bootfs_vnode s,
     bootfs_lock = bootfs_lock s, t_cwd = t_cwd s, world = (world s, H)\<rparr>"

primrec ptr_ref :: "nat option \<Rightarrow> nat multiset" where
  "ptr_ref None = {#}"
| "ptr_ref (Some v) = {#v#}"

definition held :: "'w vfs \<Rightarrow> nat multiset" where
  "held s = ptr_ref (t_cwd s) + ptr_ref (bootfs_vnode s) + mset (map kd_vnode (array_list (knowndevs s)))"

lemma tr_sel [simp]:
  "knowndevs (tr s H) = knowndevs s" "knowndevs_lock (tr s H) = knowndevs_lock s" "bootfs_vnode (tr s H) = bootfs_vnode s"
  "bootfs_lock (tr s H) = bootfs_lock s" "t_cwd (tr s H) = t_cwd s" "world (tr s H) = (world s, H)"
  by (simp_all add: tr_def)

lemma tr_upd [simp]:
  "(tr s H)\<lparr>world := (w, G)\<rparr> = tr (s\<lparr>world := w\<rparr>) G" "(tr s H)\<lparr>knowndevs_lock := b\<rparr> = tr (s\<lparr>knowndevs_lock := b\<rparr>) H"
  "(tr s H)\<lparr>bootfs_lock := b\<rparr> = tr (s\<lparr>bootfs_lock := b\<rparr>) H" "(tr s H)\<lparr>bootfs_vnode := v\<rparr> = tr (s\<lparr>bootfs_vnode := v\<rparr>) H"
  "(tr s H)\<lparr>t_cwd := v\<rparr> = tr (s\<lparr>t_cwd := v\<rparr>) H" "(tr s H)\<lparr>knowndevs := a\<rparr> = tr (s\<lparr>knowndevs := a\<rparr>) H"
  by (simp_all add: tr_def)

lemma held_upd [simp]:
  "held (s\<lparr>world := w\<rparr>) = held s" "held (s\<lparr>knowndevs_lock := b\<rparr>) = held s" "held (s\<lparr>bootfs_lock := b\<rparr>) = held s"
  by (simp_all add: held_def)

lemma traced_sel [simp]:
  "FSOP_SYNC (traced t) f = lift_plain (FSOP_SYNC t f)"
  "FSOP_GETVOLNAME (traced t) f x = FSOP_GETVOLNAME t f (fst x)"
  "FSOP_GETROOT (traced t) f = lift_giving0 (FSOP_GETROOT t f)"
  "FSOP_UNMOUNT (traced t) f = lift_plain (FSOP_UNMOUNT t f)"
  "VOP_INCREF (traced t) v = lift_count v (VOP_INCREF t v) (\<lambda>h. h + {#v#})"
  "VOP_DECREF (traced t) v = lift_count v (VOP_DECREF t v) (\<lambda>h. h - {#v#})"
  "VOP_INCOPEN (traced t) v = lift_count v (VOP_INCOPEN t v) (\<lambda>h. h)"
  "VOP_DECOPEN (traced t) v = lift_count v (VOP_DECOPEN t v) (\<lambda>h. h)"
  "VOP_OPEN (traced t) v fl = lift_using v (VOP_OPEN t v fl)"
  "VOP_READLINK (traced t) v u = lift_using v (VOP_READLINK t v u)"
  "VOP_GETTYPE (traced t) v = lift_using v (VOP_GETTYPE t v)"
  "VOP_TRUNCATE (traced t) v len = lift_using v (VOP_TRUNCATE t v len)"
  "VOP_NAMEFILE (traced t) v u = lift_using v (VOP_NAMEFILE t v u)"
  "VOP_CREAT (traced t) v name excl = lift_giving v got (VOP_CREAT t v name excl)"
  "VOP_SYMLINK (traced t) v name c = lift_using v (VOP_SYMLINK t v name c)"
  "VOP_MKDIR (traced t) v name = lift_using v (VOP_MKDIR t v name)"
  "VOP_LINK (traced t) v name file = lift_using2 v file (VOP_LINK t v name file)"
  "VOP_REMOVE (traced t) v name = lift_using v (VOP_REMOVE t v name)"
  "VOP_RMDIR (traced t) v name = lift_using v (VOP_RMDIR t v name)"
  "VOP_RENAME (traced t) v n1 v2 n2 = lift_using2 v v2 (VOP_RENAME t v n1 v2 n2)"
  "VOP_LOOKUP (traced t) v path = lift_giving v got (VOP_LOOKUP t v path)"
  "VOP_LOOKPARENT (traced t) v path n = lift_giving v got_dir (VOP_LOOKPARENT t v path n)"
  by (simp_all add: traced_def)

lemma traced_vn_fs [simp]: "v \<in># H \<Longrightarrow> vn_fs (traced t) v (w, H) = vn_fs t v w"
  by (simp add: traced_def)

section \<open>Accounting\<close>

text \<open>
  \<open>moves A B f g\<close>: when the thread owns \<open>A\<close> beyond what the layer holds, the counting run \<open>g\<close> does
  what \<open>f\<close> does, never misses a reference, and leaves \<open>B\<close> of the result owned; anything else that is
  owned stays as it is.
\<close>

definition moves ::
  "nat multiset \<Rightarrow> ('a \<Rightarrow> nat multiset) \<Rightarrow> ('w vfs \<Rightarrow> ('a \<times> 'w vfs) option) \<Rightarrow>
   (('w \<times> nat multiset) vfs \<Rightarrow> ('a \<times> ('w \<times> nat multiset) vfs) option) \<Rightarrow> bool" where
  "moves A B f g \<longleftrightarrow> (\<forall>s U. g (tr s (held s + A + U)) = map_option (\<lambda>(r, s1). (r, tr s1 (held s1 + B r + U))) (f s))"

definition moves0 ::
  "nat multiset \<Rightarrow> nat multiset \<Rightarrow> ('w vfs \<Rightarrow> 'w vfs option) \<Rightarrow>
   (('w \<times> nat multiset) vfs \<Rightarrow> ('w \<times> nat multiset) vfs option) \<Rightarrow> bool" where
  "moves0 A B f g \<longleftrightarrow> (\<forall>s U. g (tr s (held s + A + U)) = map_option (\<lambda>s1. tr s1 (held s1 + B + U)) (f s))"

lemma movesD: "moves A B f g \<Longrightarrow> g (tr s (held s + A + U)) = map_option (\<lambda>(r, s1). (r, tr s1 (held s1 + B r + U))) (f s)"
  by (simp add: moves_def)

lemma moves0D: "moves0 A B f g \<Longrightarrow> g (tr s (held s + A + U)) = map_option (\<lambda>s1. tr s1 (held s1 + B + U)) (f s)"
  by (simp add: moves0_def)

named_theorems moves_rules \<open>the rules that follow the references through a function\<close>

lemma moves_bind [moves_rules]:
  assumes "moves A B f g" and "\<And>x. moves (B x) C (k x) (l x)"
  shows "moves A C (\<lambda>s. f s \<bind> (\<lambda>(x, s1). k x s1)) (\<lambda>s. g s \<bind> (\<lambda>(x, s1). l x s1))"
  unfolding moves_def
proof (intro allI)
  fix s U
  show "g (tr s (held s + A + U)) \<bind> (\<lambda>(x, s1). l x s1) =
      map_option (\<lambda>(r, s1). (r, tr s1 (held s1 + C r + U))) (f s \<bind> (\<lambda>(x, s1). k x s1))"
    using movesD [OF assms(1)] movesD [OF assms(2)] by (cases "f s") auto
qed

lemma moves_bind0 [moves_rules]:
  assumes "moves0 A B f g" and "moves B C k l"
  shows "moves A C (\<lambda>s. f s \<bind> (\<lambda>s1. k s1)) (\<lambda>s. g s \<bind> (\<lambda>s1. l s1))"
  unfolding moves_def
proof (intro allI)
  fix s U
  show "g (tr s (held s + A + U)) \<bind> (\<lambda>s1. l s1) =
      map_option (\<lambda>(r, s1). (r, tr s1 (held s1 + C r + U))) (f s \<bind> (\<lambda>s1. k s1))"
    using moves0D [OF assms(1)] movesD [OF assms(2)] by (cases "f s") auto
qed

lemma moves_sum [moves_rules]:
  assumes "\<And>e. x = Inl e \<Longrightarrow> moves A C (f e) (g e)" and "\<And>y. x = Inr y \<Longrightarrow> moves A C (h y) (k y)"
  shows "moves A C (\<lambda>s. case x of Inl e \<Rightarrow> f e s | Inr y \<Rightarrow> h y s) (\<lambda>s. case x of Inl e \<Rightarrow> g e s | Inr y \<Rightarrow> k y s)"
  using assms by (cases x) simp_all

lemma moves_pair [moves_rules]:
  assumes "\<And>a b. x = (a, b) \<Longrightarrow> moves A C (f a b) (g a b)"
  shows "moves A C (\<lambda>s. case x of (a, b) \<Rightarrow> f a b s) (\<lambda>s. case x of (a, b) \<Rightarrow> g a b s)"
  using assms by (cases x) simp

lemma moves_if [moves_rules]:
  assumes "c \<Longrightarrow> moves A C f g" and "\<not> c \<Longrightarrow> moves A C h k"
  shows "moves A C (\<lambda>s. if c then f s else h s) (\<lambda>s. if c then g s else k s)"
  using assms by (cases c) simp_all

lemma moves_fail [moves_rules]: "moves A C (\<lambda>s. None) (\<lambda>s. None)"
  by (simp add: moves_def)

lemma moves_return [moves_rules]: "A = C r \<Longrightarrow> moves A C (\<lambda>s. Some (r, s)) (\<lambda>s. Some (r, s))"
  by (simp add: moves_def)

lemma moves_world [moves_rules]:
  "v \<in># A \<Longrightarrow> moves A (\<lambda>r. A) (on_world f) (on_world (lift_using v f))"
  "v \<in># A \<Longrightarrow> v2 \<in># A \<Longrightarrow> moves A (\<lambda>r. A) (on_world f) (on_world (lift_using2 v v2 f))"
  "v \<in># A \<Longrightarrow> moves A (\<lambda>r. A + g r) (on_world f) (on_world (lift_giving v g f))"
  "moves A (\<lambda>v. A + {#v#}) (on_world h) (on_world (lift_giving0 h))"
  "moves A (\<lambda>r. A) (on_world f) (on_world (lift_plain f))"
  by (auto simp: moves_def on_world_def lift_using_def lift_using2_def lift_giving_def lift_giving0_def lift_plain_def split: Option.bind_splits)

lemma moves_count [moves_rules]:
  "v \<in># A \<Longrightarrow> moves0 A (A - {#v#}) (do_world f) (do_world (lift_count v f (\<lambda>h. h - {#v#})))"
  "v \<in># A \<Longrightarrow> moves0 A A (do_world f) (do_world (lift_count v f (\<lambda>h. h)))"
  "v \<in># A \<Longrightarrow> moves0 A (A + {#v#}) (do_world f) (do_world (lift_count v f (\<lambda>h. h + {#v#})))"
  by (auto simp: moves0_def do_world_def lift_count_def split: Option.bind_splits)

section \<open>The functions of the layer\<close>

lemma held_cwd: "t_cwd s = Some v \<Longrightarrow> v \<in># held s"
  by (simp add: held_def)

lemma held_bootfs: "bootfs_vnode s = Some v \<Longrightarrow> v \<in># held s"
  by (simp add: held_def)

lemma getguy_set:
  assumes "array_getguy a i = Some x"
  shows "x \<in> set (array_list a)"
proof -
  obtain v where v: "a_v a = Some v" "0 \<le> i" "i < a_num a" "i < int (length v)" "x = v ! nat i"
    using assms by (auto simp: array_getguy_def kmonad kblock split: if_splits)
  then have "x = array_list a ! nat i" "nat i < length (array_list a)"
    by (simp_all add: array_list_def array_cells_def)
  then show ?thesis by simp
qed

lemma held_device: "array_getguy (knowndevs s) i = Some kd \<Longrightarrow> kd_vnode kd \<in># held s"
  using getguy_set [of "knowndevs s" i kd] by (simp add: held_def)

lemma moves_locked:
  assumes "moves A B f g"
  shows "moves A B (locked f) (locked g)"
  unfolding moves_def
proof (intro allI)
  fix s U
  have eq: "g (tr (s\<lparr>knowndevs_lock := True\<rparr>) (held s + A + U)) =
      map_option (\<lambda>(r, s1). (r, tr s1 (held s1 + B r + U))) (f (s\<lparr>knowndevs_lock := True\<rparr>))"
    using movesD [OF assms, of "s\<lparr>knowndevs_lock := True\<rparr>" U] by simp
  show "locked g (tr s (held s + A + U)) = map_option (\<lambda>(r, s1). (r, tr s1 (held s1 + B r + U))) (locked f s)"
    by (cases "f (s\<lparr>knowndevs_lock := True\<rparr>)") (auto simp: locked_def lock_table_def unlock_table_def eq)
qed

lemma moves_getcurdir [moves_rules]: "moves A (\<lambda>r. A + got r) (vfs_getcurdir t) (vfs_getcurdir (traced t))"
  unfolding moves_def
  by (auto simp: vfs_getcurdir_def do_world_def lift_count_def held_cwd split: Option.bind_splits option.splits)

lemma getroot_try_counts:
  assumes "kd_vnode kd \<in># held s"
  shows "getroot_try (traced t) n kd (tr s (held s + A + U)) =
    map_option (\<lambda>(r, s1). (r, tr s1 (held s1 + (A + (case r of None \<Rightarrow> {#} | Some x \<Rightarrow> got x)) + U))) (getroot_try t n kd s)"
  using assms
  by (auto simp: getroot_try_def do_world_def on_world_def lift_count_def lift_giving0_def split: Option.bind_splits)

lemma moves_getroot [moves_rules]: "moves A (\<lambda>r. A + got r) (vfs_getroot t n) (vfs_getroot (traced t) n)"
proof -
  have "getroot_from (traced t) n i k (tr s (held s + A + U)) =
      map_option (\<lambda>(r, s1). (r, tr s1 (held s1 + (A + got r) + U))) (getroot_from t n i k s)" for i k s U
  proof (induction k arbitrary: i s)
    case (Suc k)
    show ?case
    proof (cases "array_getguy (knowndevs s) i")
      case kd: (Some kd)
      have one: "getroot_try (traced t) n kd (tr s (held s + A + U)) =
          map_option (\<lambda>(r, s1). (r, tr s1 (held s1 + (A + (case r of None \<Rightarrow> {#} | Some x \<Rightarrow> got x)) + U))) (getroot_try t n kd s)"
        by (rule getroot_try_counts [OF held_device [OF kd]])
      show ?thesis
      proof (cases "getroot_try t n kd s")
        case (Some y)
        obtain hit s1 where "y = (hit, s1)" by force
        with Some kd one Suc.IH [of "i + 1" s1] show ?thesis
          by (cases hit) simp_all
      qed (use kd one in simp)
    qed simp
  qed simp
  then have "moves A (\<lambda>r. A + got r) (\<lambda>s. getroot_from t n 0 (nat (array_getnum (knowndevs s))) s)
      (\<lambda>s. getroot_from (traced t) n 0 (nat (array_getnum (knowndevs s))) s)"
    by (simp add: moves_def)
  then show ?thesis
    unfolding vfs_getroot_def by (rule moves_locked)
qed

lemma moves_vn_fs [moves_rules]:
  assumes "v \<in># A" and "\<And>x. moves A C (k x) (l x)"
  shows "moves A C (\<lambda>s. vn_fs t v (world s) \<bind> (\<lambda>x. k x s)) (\<lambda>s. vn_fs (traced t) v (world s) \<bind> (\<lambda>x. l x s))"
  unfolding moves_def
proof (intro allI)
  fix s U
  show "vn_fs (traced t) v (world (tr s (held s + A + U))) \<bind> (\<lambda>x. l x (tr s (held s + A + U))) =
      map_option (\<lambda>(r, s1). (r, tr s1 (held s1 + C r + U))) (vn_fs t v (world s) \<bind> (\<lambda>x. k x s))"
    using assms(1) movesD [OF assms(2)] by (cases "vn_fs t v (world s)") auto
qed

lemma moves_volname [moves_rules]:
  assumes "\<And>x. moves A C (k x) (l x)"
  shows "moves A C (\<lambda>s. FSOP_GETVOLNAME t f (world s) \<bind> (\<lambda>x. k x s)) (\<lambda>s. FSOP_GETVOLNAME (traced t) f (world s) \<bind> (\<lambda>x. l x s))"
  unfolding moves_def
proof (intro allI)
  fix s U
  show "FSOP_GETVOLNAME (traced t) f (world (tr s (held s + A + U))) \<bind> (\<lambda>x. l x (tr s (held s + A + U))) =
      map_option (\<lambda>(r, s1). (r, tr s1 (held s1 + C r + U))) (FSOP_GETVOLNAME t f (world s) \<bind> (\<lambda>x. k x s))"
    using movesD [OF assms] by (cases "FSOP_GETVOLNAME t f (world s)") auto
qed

lemma moves_option [moves_rules]:
  assumes "\<And>x. o1 = Some x \<Longrightarrow> moves A C (k x) (l x)"
  shows "moves A C (\<lambda>s. o1 \<bind> (\<lambda>x. k x s)) (\<lambda>s. o1 \<bind> (\<lambda>x. l x s))"
  using assms by (cases o1) (simp_all add: moves_fail)

lemma moves_getdevice_root [moves_rules]: "moves A (\<lambda>r. A + got r) (getdevice_root t path) (getdevice_root (traced t) path)"
proof (cases "hd path = slash_char")
  case True
  then show ?thesis
    unfolding moves_def
    by (auto simp: getdevice_root_def do_world_def lift_count_def Let_def held_bootfs split: Option.bind_splits option.splits)
next
  case False
  show ?thesis
    unfolding getdevice_root_def if_not_P [OF False] traced_sel
    by (rule moves_rules | (simp; fail))+
qed

lemma moves_map:
  assumes "moves A B f g" and "\<And>r. C (h r) = B r"
  shows "moves A C (\<lambda>s. f s \<bind> (\<lambda>(r, s1). Some (h r, s1))) (\<lambda>s. g s \<bind> (\<lambda>(r, s1). Some (h r, s1)))"
  by (rule moves_bind [OF assms(1)], rule moves_return) (simp add: assms(2))

lemma got_dir_map [simp]: "got_dir (map_sum id (\<lambda>vn. (vn, p)) r) = got r"
  by (cases r) simp_all

lemma moves_getdevice [moves_rules]: "moves A (\<lambda>r. A + got_dir r) (getdevice t path) (getdevice (traced t) path)"
proof -
  obtain slash colon where p: "scan_path 0 path = (slash, colon)" by force
  show ?thesis
    unfolding getdevice_def Let_def p prod.case
    by (rule moves_rules | (simp; fail))+
qed

lemma moves_guard:
  "v \<in># A \<Longrightarrow> g (Inl e) = {#} \<Longrightarrow> moves A (\<lambda>r. A + g r) (\<lambda>s. if c then Some (Inl e, s) else on_world f s) (\<lambda>s. if c then Some (Inl e, s) else on_world (lift_giving v g f) s)"
  "v \<in># A \<Longrightarrow> moves A (\<lambda>r. A) (\<lambda>s. if c then Some (x, s) else on_world h s) (\<lambda>s. if c then Some (x, s) else on_world (lift_using v h) s)"
  by ((rule moves_rules | (simp; fail))+)

lemma moves_lookparent [moves_rules]: "moves A (\<lambda>r. A + got_dir r) (vfs_lookparent t path n) (vfs_lookparent (traced t) path n)"
  unfolding vfs_lookparent_def traced_sel
  by (rule moves_guard | rule moves_rules | (simp; fail))+

lemma moves_lookup [moves_rules]: "moves A (\<lambda>r. A + got r) (vfs_lookup t path) (vfs_lookup (traced t) path)"
  unfolding vfs_lookup_def traced_sel
  by (rule moves_rules | (simp; fail))+

lemma moves_in_parent:
  assumes "\<And>v name. g v name = lift_using v (f v name)"
  shows "moves A (\<lambda>r. A) (in_parent t f path) (in_parent (traced t) g path)"
  unfolding in_parent_def traced_sel assms
  by (rule moves_rules | (simp; fail))+

lemma moves_names [moves_rules]:
  "moves A (\<lambda>r. A) (vfs_remove t path) (vfs_remove (traced t) path)"
  "moves A (\<lambda>r. A) (vfs_symlink t c path) (vfs_symlink (traced t) c path)"
  "moves A (\<lambda>r. A) (vfs_mkdir t path) (vfs_mkdir (traced t) path)"
  "moves A (\<lambda>r. A) (vfs_rmdir t path) (vfs_rmdir (traced t) path)"
  unfolding vfs_remove_def vfs_symlink_def vfs_mkdir_def vfs_rmdir_def by (rule moves_in_parent, simp)+

lemma moves_same_fs:
  assumes "a \<in># A" and "b \<in># A" and "\<And>x. moves A C (k x) (l x)"
  shows "moves A C (\<lambda>s. same_fs t a b s \<bind> (\<lambda>x. k x s)) (\<lambda>s. same_fs (traced t) a b s \<bind> (\<lambda>x. l x s))"
  unfolding moves_def
proof (intro allI)
  fix s U
  have "same_fs (traced t) a b (tr s (held s + A + U)) = same_fs t a b s"
    using assms(1,2) by (simp add: same_fs_def)
  then show "same_fs (traced t) a b (tr s (held s + A + U)) \<bind> (\<lambda>x. l x (tr s (held s + A + U))) =
      map_option (\<lambda>(r, s1). (r, tr s1 (held s1 + C r + U))) (same_fs t a b s \<bind> (\<lambda>x. k x s))"
    using movesD [OF assms(3)] by (cases "same_fs t a b s") auto
qed

lemma moves_with_newdir:
  assumes "old \<in># A" and "\<And>v name. g v name = lift_using2 old v (f v name)"
  shows "moves A (\<lambda>r. A - {#old#}) (with_newdir t f old path) (with_newdir (traced t) g old path)"
proof -
  have guard: "v \<in># B \<Longrightarrow> w \<in># B \<Longrightarrow> moves B (\<lambda>r. B) (\<lambda>s. if c then Some (x, s) else on_world h s)
      (\<lambda>s. if c then Some (x, s) else on_world (lift_using2 v w h) s)" for v w B c x and h :: "'a \<Rightarrow> (unit kres \<times> 'a) option"
    by (rule moves_rules | (simp; fail))+
  show ?thesis
    using assms(1) unfolding with_newdir_def traced_sel assms(2)
    by - (rule moves_same_fs | rule guard | rule moves_rules | (simp; fail))+
qed

lemma moves_rename [moves_rules]: "moves A (\<lambda>r. A) (vfs_rename t p q) (vfs_rename (traced t) p q)"
  unfolding vfs_rename_def
  apply (rule moves_bind [OF moves_lookparent], rule moves_sum, rule moves_return, simp, rule moves_pair)
  subgoal for result y olddir oldname
    using moves_with_newdir [of olddir "A + got_dir result" "VOP_RENAME (traced t) olddir (cstring oldname)" "VOP_RENAME t olddir (cstring oldname)" t q]
    by simp
  done

lemma moves_link [moves_rules]: "moves A (\<lambda>r. A) (vfs_link t p q) (vfs_link (traced t) p q)"
  unfolding vfs_link_def
  apply (rule moves_bind [OF moves_lookup], rule moves_sum, rule moves_return, simp)
  subgoal for result oldfile
    using moves_with_newdir [of oldfile "A + got result" "\<lambda>newdir newname. VOP_LINK (traced t) newdir newname oldfile"
        "\<lambda>newdir newname. VOP_LINK t newdir newname oldfile" t q]
    by (simp add: lift_using2_commute)
  done

lemma moves_readlink [moves_rules]: "moves A (\<lambda>r. A) (vfs_readlink t p u) (vfs_readlink (traced t) p u)"
  unfolding vfs_readlink_def traced_sel
  by (rule moves_rules | (simp; fail))+

lemma moves_open [moves_rules]: "moves A (\<lambda>r. A + got r) (vfs_open t p fl) (vfs_open (traced t) p fl)"
proof -
  have vnode: "moves A (\<lambda>r. A + got r) (open_vnode t p fl) (open_vnode (traced t) p fl)"
    unfolding open_vnode_def traced_sel Let_def
    by (rule moves_rules | (simp; fail))+
  have opened: "moves (A + {#v#}) (\<lambda>r. A + got r) (open_opened t v fl c) (open_opened (traced t) v fl c)" for v c
    unfolding open_opened_def traced_sel
    by (rule moves_guard | rule moves_rules | (simp; fail))+
  show ?thesis
    unfolding vfs_open_def Let_def
    by (rule moves_if, rule moves_return, simp, rule moves_bind [OF vnode], rule moves_sum, rule moves_return, simp)
       (simp add: opened [simplified])
qed

lemma moves_close [moves_rules]: "v \<in># A \<Longrightarrow> moves0 A (A - {#v#}) (vfs_close t v) (vfs_close (traced t) v)"
  unfolding moves0_def
  by (auto simp: vfs_close_def do_world_def lift_count_def split: Option.bind_splits)

lemma held_slots: 
  "held (s\<lparr>t_cwd := c\<rparr>) + ptr_ref (t_cwd s) = held s + ptr_ref c"
  "held (s\<lparr>bootfs_vnode := c\<rparr>) + ptr_ref (bootfs_vnode s) = held s + ptr_ref c"
  by (simp_all add: held_def)

text \<open>Replacing a vnode that the layer holds: the new reference goes in, the old one comes out.\<close>

lemma mset_swap: "(X :: 'a multiset) + P = Y + Q \<Longrightarrow> Y + Q + U - P = X + U"
  by (metis add.commute add.left_commute add_diff_cancel_left')

lemma moves_set_cwd:
  "moves0 (A + ptr_ref c) A (\<lambda>s. case t_cwd s of Some v \<Rightarrow> do_world (VOP_DECREF t v) (s\<lparr>t_cwd := c\<rparr>) | None \<Rightarrow> Some (s\<lparr>t_cwd := c\<rparr>))
     (\<lambda>s. case t_cwd s of Some v \<Rightarrow> do_world (VOP_DECREF (traced t) v) (s\<lparr>t_cwd := c\<rparr>) | None \<Rightarrow> Some (s\<lparr>t_cwd := c\<rparr>))"
proof -
  have "held (s\<lparr>t_cwd := c\<rparr>) + A + U = held s + (A + ptr_ref c) + U - ptr_ref (t_cwd s)" for s :: "'a vfs" and U
    using mset_swap [OF held_slots(1) [of c s], of "A + U"] by (simp add: ac_simps)
  then show ?thesis
    unfolding moves0_def
    by (auto simp: do_world_def lift_count_def held_cwd split: Option.bind_splits option.splits)
qed

lemma moves_bootfs: "moves0 (A + ptr_ref c) A (change_bootfs t c) (change_bootfs (traced t) c)"
proof -
  have "held (s\<lparr>bootfs_vnode := c\<rparr>) + A + U = held s + (A + ptr_ref c) + U - ptr_ref (bootfs_vnode s)" for s :: "'a vfs" and U
    using mset_swap [OF held_slots(2) [of c s], of "A + U"] by (simp add: ac_simps)
  moreover have "s\<lparr>bootfs_lock := True, bootfs_vnode := c, bootfs_lock := False\<rparr> = s\<lparr>bootfs_vnode := c, bootfs_lock := False\<rparr>" for s :: "'a vfs"
    by simp
  ultimately show ?thesis
    unfolding moves0_def change_bootfs_def Let_def
    by (auto simp: do_world_def lift_count_def held_bootfs split: Option.bind_splits option.splits)
qed

lemma moves_setcurdir [moves_rules]: "v \<in># A \<Longrightarrow> moves A (\<lambda>r. A) (vfs_setcurdir t v) (vfs_setcurdir (traced t) v)"
  unfolding vfs_setcurdir_def Let_def
  apply (rule moves_bind)
   apply (simp, rule moves_world(1), assumption)
  apply (rule moves_sum, rule moves_return, simp)
  apply (rule moves_if, rule moves_return, simp)
  apply (rule moves_bind0 [where B = "A + ptr_ref (Some v)"])
   apply (simp, rule moves_count(3) [simplified], assumption)
  by (rule moves_bind0 [OF moves_set_cwd], rule moves_return, simp)

lemma moves_clearcurdir [moves_rules]: "moves A (\<lambda>r. A) (vfs_clearcurdir t) (vfs_clearcurdir (traced t))"
  unfolding vfs_clearcurdir_def Let_def
  by (rule moves_bind0 [OF moves_set_cwd [where c = None, simplified]], rule moves_return, simp)

lemma moves_chdir [moves_rules]: "moves A (\<lambda>r. A) (vfs_chdir t p) (vfs_chdir (traced t) p)"
  unfolding vfs_chdir_def traced_sel
  by (rule moves_rules | (simp; fail))+

lemma moves_setbootfs [moves_rules]: "moves A (\<lambda>r. A) (vfs_setbootfs t n) (vfs_setbootfs (traced t) n)"
  unfolding vfs_setbootfs_def Let_def
  apply (rule moves_if, rule moves_return, simp)
  apply (rule moves_bind [OF moves_chdir], rule moves_sum, rule moves_return, simp)
  apply (rule moves_bind [OF moves_getcurdir], rule moves_sum, rule moves_return, simp)
  subgoal for r u r2 v
    using moves_bind0 [OF moves_bootfs [of A "Some v" t], of "\<lambda>r. A" "\<lambda>s. Some (Inr (), s)" "\<lambda>s. Some (Inr (), s)"]
    by (simp add: moves_return)
  done

lemma moves_clearbootfs [moves_rules]: "moves0 A A (vfs_clearbootfs t) (vfs_clearbootfs (traced t))"
  unfolding vfs_clearbootfs_def using moves_bootfs [of A None t] by simp

lemma moves_getdevname [moves_rules]: "moves A (\<lambda>r. A) (vfs_getdevname f) (vfs_getdevname f)"
  unfolding vfs_getdevname_def
  by (rule moves_option, rule moves_locked) (auto simp: moves_def split: Option.bind_splits)

lemma moves_getcwd [moves_rules]: "moves A (\<lambda>r. A) (vfs_getcwd t u) (vfs_getcwd (traced t) u)"
proof -
  have name: "moves B (\<lambda>r. B) (\<lambda>s. case x of Some n \<Rightarrow> Some (Some n, s) | None \<Rightarrow> vfs_getdevname f s)
      (\<lambda>s. case x of Some n \<Rightarrow> Some (Some n, s) | None \<Rightarrow> vfs_getdevname f s)" for B x f
    by (cases x) (simp_all add: moves_return moves_getdevname)
  have out: "v \<in># B \<Longrightarrow> moves B (\<lambda>r. B)
      (\<lambda>s. case r1 of Inl e \<Rightarrow> Some ((Inl e, u1), s) | Inr _ \<Rightarrow> uiomove [colon_char] 0 1 u1 \<bind> (\<lambda>(r2, b2, u2).
         case r2 of Inl e \<Rightarrow> Some ((Inl e, u2), s) | Inr _ \<Rightarrow> on_world (VOP_NAMEFILE t v u2) s))
      (\<lambda>s. case r1 of Inl e \<Rightarrow> Some ((Inl e, u1), s) | Inr _ \<Rightarrow> uiomove [colon_char] 0 1 u1 \<bind> (\<lambda>(r2, b2, u2).
         case r2 of Inl e \<Rightarrow> Some ((Inl e, u2), s) | Inr _ \<Rightarrow> on_world (lift_using v (VOP_NAMEFILE t v u2)) s))"
    for B v u1 and r1 :: "unit kres"
    by (cases r1; cases "uiomove [colon_char] 0 1 u1") (auto simp: moves_return moves_fail intro!: moves_sum moves_world)
  show ?thesis
    unfolding vfs_getcwd_def traced_sel(3-)
    apply (rule moves_option, rule moves_bind [OF moves_getcurdir], rule moves_sum, rule moves_return, simp)
    apply (rule moves_vn_fs, simp, rule moves_option, rule moves_volname, rule moves_bind [OF name], rule moves_option, rule moves_option)
    apply (simp only: split_paired_all prod.case)
    apply (rule moves_bind [OF out], simp, simp only: split_paired_all prod.case)
    by (rule moves_rules | (simp; fail))+
qed

text \<open>The operations on the table touch no vnode, and an entry keeps its own.\<close>

lemma plain_moves:
  assumes "\<And>s H. g (tr s H) = map_option (\<lambda>(r, s1). (r, tr s1 H)) (f s)" and "\<And>s r s1. f s = Some (r, s1) \<Longrightarrow> held s1 = held s"
  shows "moves A (\<lambda>r. A) f g"
  unfolding moves_def
proof (intro allI)
  fix s U
  show "g (tr s (held s + A + U)) = map_option (\<lambda>(r, s1). (r, tr s1 (held s1 + A + U))) (f s)"
    using assms(2) [of s] by (cases "f s") (auto simp: assms(1))
qed

lemma locked_tr:
  assumes "\<And>s. g (tr s H) = map_option (\<lambda>(r, s1). (r, tr s1 H)) (f s)"
  shows "locked g (tr s H) = map_option (\<lambda>(r, s1). (r, tr s1 H)) (locked f s)"
  by (auto simp: locked_def lock_table_def unlock_table_def assms split: Option.bind_splits)

lemma locked_held:
  assumes "locked f s = Some (r, s1)" and "\<And>s r s1. f s = Some (r, s1) \<Longrightarrow> held s1 = held s"
  shows "held s1 = held s"
  using assms by (fastforce simp: locked_def lock_table_def unlock_table_def kmonad split: if_splits)

lemma on_world_plain [simp]: "on_world (lift_plain f) (tr s H) = map_option (\<lambda>(r, s1). (r, tr s1 H)) (on_world f s)"
  by (auto simp: on_world_def lift_plain_def split: Option.bind_splits)

lemma on_world_keeps: "on_world f s = Some (r, s1) \<Longrightarrow> knowndevs s1 = knowndevs s \<and> held s1 = held s"
  by (auto simp: on_world_def kmonad)

lemma set_kd_fs_tr: "set_kd_fs i kd f (tr s H) = map_option (\<lambda>s1. tr s1 H) (set_kd_fs i kd f s)"
  by (auto simp: set_kd_fs_def split: Option.bind_splits)

lemma set_kd_fs_held:
  assumes "set_kd_fs i kd f s = Some s1" and "knowndevs s = a" and "array_getguy a i = Some kd"
  shows "held s1 = held s"
proof -
  obtain v where v: "a_v (knowndevs s) = Some v" "0 \<le> i" "i < a_num (knowndevs s)" "i < int (length v)" "kd = v ! nat i"
    using assms(2,3) by (auto simp: array_getguy_def kmonad kblock split: if_splits)
  have "s1 = s\<lparr>knowndevs := (knowndevs s)\<lparr>a_v := Some (v[nat i := kd\<lparr>kd_fs := f\<rparr>])\<rparr>\<rparr>"
    using assms(1) v by (auto simp: set_kd_fs_def array_setguy_def kmonad kblock split: if_splits)
  moreover have "map kd_vnode (take n (v[nat i := kd\<lparr>kd_fs := f\<rparr>])) = map kd_vnode (take n v)" for n
    using v(4,5) by (auto simp: list_eq_iff_nth_eq nth_list_update)
  ultimately show ?thesis
    using v(1) by (simp add: held_def array_list_def array_cells_def)
qed

lemma moves_sync [moves_rules]: "moves A (\<lambda>r. A) (vfs_sync t) (vfs_sync (traced t))"
proof (rule plain_moves)
  have "sync_from (traced t) i n (tr s H) = map_option (\<lambda>(r, s1). (r, tr s1 H)) (sync_from t i n s)" for i n s H
    by (induction n arbitrary: i s) (auto split: Option.bind_splits)
  then show "vfs_sync (traced t) (tr s H) = map_option (\<lambda>(r, s1). (r, tr s1 H)) (vfs_sync t s)" for s H
    unfolding vfs_sync_def by (intro locked_tr) simp
  have kept: "sync_from t i n s = Some (r, s1) \<Longrightarrow> held s1 = held s" for i n s r s1
    by (induction n arbitrary: i s) (fastforce simp: kmonad dest: on_world_keeps split: if_splits)+
  show "held s1 = held s" if "vfs_sync t s = Some (r, s1)" for s r s1
    using that unfolding vfs_sync_def by (rule locked_held) (erule kept)
qed

lemma findmount_hit:
  assumes "findmount n s = Some (Inr (i, kd))"
  shows "array_getguy (knowndevs s) i = Some kd \<and> kd_rawname kd \<noteq> None \<and> kd_name kd = n"
proof -
  have hit: "scan_from array_getnum array_getguy p k a = Some (Some (i, x)) \<Longrightarrow> array_getguy a i = Some x \<and> p x" for p :: "knowndev \<Rightarrow> bool" and k a x
  proof (induction "nat (array_getnum a - k)" arbitrary: k)
    case (Suc m)
    have "scan_from array_getnum array_getguy p (k + 1) a = Some (Some (i, x)) \<Longrightarrow> array_getguy a i = Some x \<and> p x"
      using Suc.hyps(2) by (intro Suc.hyps(1)) simp_all
    with Suc.prems show ?case
      by (simp only: scan_from.simps [of array_getnum array_getguy p k a]) (auto simp: kmonad split: if_splits)
  next
    case 0
    then show ?case by (subst (asm) scan_from.simps) (auto split: if_splits)
  qed
  show ?thesis
    using assms by (auto simp: findmount_def array_scan_def kmonad dest: hit split: option.splits if_splits)
qed

lemma findmount_getguy: "findmount n s = Some (Inr (i, kd)) \<Longrightarrow> array_getguy (knowndevs s) i = Some kd"
  using findmount_hit by blast

lemma findmount_tr [simp]: "findmount n (tr s H) = findmount n s"
  by (simp add: findmount_def)

lemma moves_unmount [moves_rules]: "moves A (\<lambda>r. A) (vfs_unmount t n) (vfs_unmount (traced t) n)"
proof (rule plain_moves)
  show "vfs_unmount (traced t) n (tr s H) = map_option (\<lambda>(r, s1). (r, tr s1 H)) (vfs_unmount t n s)" for s H
    unfolding vfs_unmount_def
    by (intro locked_tr) (auto simp: set_kd_fs_tr split: Option.bind_splits sum.splits)
  show "held s1 = held s" if "vfs_unmount t n s = Some (r, s1)" for s r s1
    using that unfolding vfs_unmount_def
    by (rule locked_held)
      (auto dest!: findmount_getguy on_world_keeps dest: set_kd_fs_held split: Option.bind_split_asm sum.split_asm prod.split_asm if_split_asm)
qed

lemma unmount_try_tr: "unmount_try (traced t) i kd (tr s H) = map_option (\<lambda>s1. tr s1 H) (unmount_try t i kd s)"
proof (cases "on_world (FSOP_SYNC t (kd_fs kd)) s")
  case (Some y)
  obtain r s1 where y: "y = (r, s1)" by force
  show ?thesis
  proof (cases r)
    case (Inl e)
    with Some y show ?thesis
      by (auto simp: unmount_try_def set_kd_fs_tr split: Option.bind_splits sum.splits)
  next
    case (Inr u)
    with Some y show ?thesis
      by (auto simp: unmount_try_def set_kd_fs_tr split: Option.bind_splits sum.splits)
  qed
qed (simp add: unmount_try_def)

lemma unmount_try_held:
  assumes get: "array_getguy (knowndevs s) i = Some kd" and run: "unmount_try t i kd s = Some s1"
  shows "held s1 = held s"
proof (cases "kd_rawname kd = None \<or> kd_fs kd = 0")
  case True
  then show ?thesis using run by (auto simp: unmount_try_def split: if_split_asm)
next
  case False
  obtain r a where a: "on_world (FSOP_SYNC t (kd_fs kd)) s = Some (r, a)"
    using run False by (auto simp: unmount_try_def split: Option.bind_split_asm)
  obtain r2 b where b: "(case r of Inl e \<Rightarrow> on_world (FSOP_SYNC t (kd_fs kd)) a | Inr u \<Rightarrow> Some (Inr u, a)) = Some (r2, b)"
    using run False a by (auto simp: unmount_try_def split: Option.bind_split_asm)
  have kept: "knowndevs b = knowndevs s" "held b = held s"
    using on_world_keeps [OF a] b by (auto dest: on_world_keeps split: sum.split_asm)
  show ?thesis
  proof (cases r2)
    case (Inl e)
    then show ?thesis using run False a b kept by (auto simp: unmount_try_def)
  next
    case (Inr u)
    obtain r3 c where c: "on_world (FSOP_UNMOUNT t (kd_fs kd)) b = Some (r3, c)"
      using run False a b Inr by (auto simp: unmount_try_def split: Option.bind_split_asm)
    then have rest: "(case r3 of Inl e \<Rightarrow> Some c | Inr _ \<Rightarrow> set_kd_fs i kd 0 c) = Some s1"
      using run False a b Inr by (auto simp: unmount_try_def)
    have "knowndevs c = knowndevs s" "held c = held s" using on_world_keeps [OF c] kept by simp_all
    with rest get set_kd_fs_held [of i kd 0 c s1] show ?thesis by (cases r3) simp_all
  qed
qed

lemma moves_unmountall [moves_rules]: "moves A (\<lambda>r. A) (vfs_unmountall t) (vfs_unmountall (traced t))"
proof (rule plain_moves)
  have "unmountall_from (traced t) i n (tr s H) = map_option (\<lambda>(r, s1). (r, tr s1 H)) (unmountall_from t i n s)" for i n s H
    by (induction n arbitrary: i s) (auto simp: unmount_try_tr split: Option.bind_splits)
  then show "vfs_unmountall (traced t) (tr s H) = map_option (\<lambda>(r, s1). (r, tr s1 H)) (vfs_unmountall t s)" for s H
    unfolding vfs_unmountall_def by (intro locked_tr) simp
  have kept: "unmountall_from t i n s = Some (r, s1) \<Longrightarrow> held s1 = held s" for i n s r s1
    by (induction n arbitrary: i s) (fastforce simp: kmonad dest: unmount_try_held)+
  show "held s1 = held s" if "vfs_unmountall t s = Some (r, s1)" for s r s1
    using that unfolding vfs_unmountall_def by (rule locked_held) (erule kept)
qed

section \<open>Runs\<close>

text \<open>
  What a thread can ask of the layer. Paths, flags and buffers are its own; \<open>Close\<close> names a vnode
  that it got from \<open>Open\<close>. Adding devices and file systems and mounting are not among the calls: \<open>vfs_doadd\<close> does
  not release the vnode it made when the name is taken, so it does not keep the account.
\<close>

datatype vfs_call =
    Open "byte list" int | Close nat | Remove "byte list" | Rename "byte list" "byte list" | Link "byte list" "byte list"
  | Symlink "byte list" "byte list" | Readlink "byte list" uio | Mkdir "byte list" | Rmdir "byte list"
  | Chdir "byte list" | Clearcurdir | Getcwd uio | Setbootfs "byte list" | Clearbootfs | Sync | Unmount "byte list" | Unmountall

definition drop_result :: "('a \<times> 'w vfs) option \<Rightarrow> nat multiset \<Rightarrow> (nat multiset \<times> 'w vfs) option" where
  "drop_result x F = map_option (\<lambda>(r, s). (F, s)) x"

primrec vfs_exec :: "'w fsif \<Rightarrow> vfs_call \<Rightarrow> nat multiset \<Rightarrow> 'w vfs \<Rightarrow> (nat multiset \<times> 'w vfs) option" where
  "vfs_exec t (Open p fl) F s = do { (r, s1) \<leftarrow> vfs_open t p fl s; Some (F + got r, s1) }"
| "vfs_exec t (Close v) F s = do { kassert (v \<in># F); s1 \<leftarrow> vfs_close t v s; Some (F - {#v#}, s1) }"
| "vfs_exec t (Remove p) F s = drop_result (vfs_remove t p s) F"
| "vfs_exec t (Rename p q) F s = drop_result (vfs_rename t p q s) F"
| "vfs_exec t (Link p q) F s = drop_result (vfs_link t p q s) F"
| "vfs_exec t (Symlink c p) F s = drop_result (vfs_symlink t c p s) F"
| "vfs_exec t (Readlink p u) F s = drop_result (vfs_readlink t p u s) F"
| "vfs_exec t (Mkdir p) F s = drop_result (vfs_mkdir t p s) F"
| "vfs_exec t (Rmdir p) F s = drop_result (vfs_rmdir t p s) F"
| "vfs_exec t (Chdir p) F s = drop_result (vfs_chdir t p s) F"
| "vfs_exec t Clearcurdir F s = drop_result (vfs_clearcurdir t s) F"
| "vfs_exec t (Getcwd u) F s = drop_result (vfs_getcwd t u s) F"
| "vfs_exec t (Setbootfs n) F s = drop_result (vfs_setbootfs t n s) F"
| "vfs_exec t Clearbootfs F s = map_option (\<lambda>s. (F, s)) (vfs_clearbootfs t s)"
| "vfs_exec t Sync F s = drop_result (vfs_sync t s) F"
| "vfs_exec t (Unmount n) F s = drop_result (vfs_unmount t n s) F"
| "vfs_exec t Unmountall F s = drop_result (vfs_unmountall t s) F"

primrec vfs_run :: "'w fsif \<Rightarrow> vfs_call list \<Rightarrow> nat multiset \<Rightarrow> 'w vfs \<Rightarrow> (nat multiset \<times> 'w vfs) option" where
  "vfs_run t [] F s = Some (F, s)"
| "vfs_run t (c # cs) F s = do { (F1, s1) \<leftarrow> vfs_exec t c F s; vfs_run t cs F1 s1 }"

lemma drop_result_moves:
  assumes "moves F (\<lambda>r. F) f g"
  shows "drop_result (g (tr s (held s + F))) F = map_option (\<lambda>(F1, s1). (F1, tr s1 (held s1 + F1))) (drop_result (f s) F)"
  using movesD [OF assms, of s "{#}"] by (cases "f s") (auto simp: drop_result_def)

lemma vfs_exec_counts:
  "vfs_exec (traced t) c F (tr s (held s + F)) = map_option (\<lambda>(F1, s1). (F1, tr s1 (held s1 + F1))) (vfs_exec t c F s)"
proof (cases c)
  case (Open p fl)
  then show ?thesis
    using movesD [OF moves_open, of t p fl s F "{#}"] by (cases "vfs_open t p fl s") auto
next
  case (Close v)
  show ?thesis
  proof (cases "v \<in># F")
    case True
    with Close moves0D [OF moves_close, of v F t s "{#}"] show ?thesis
      by (cases "vfs_close t v s") auto
  qed (use Close in simp)
next
  case Clearbootfs
  then show ?thesis
    using moves0D [OF moves_clearbootfs, of t s F "{#}"] by (cases "vfs_clearbootfs t s") auto
qed (simp_all add: drop_result_moves moves_rules)

text \<open>
  C6. The VFS layer keeps its references. Take any file systems, any sequence of the calls of \<open>vfs_call\<close> and
  any state, and count every reference the tables hand out or take back, refusing an operation on a
  vnode of which no reference is left. The counting run does exactly what the plain run does, so no call
  uses or releases a vnode without a reference, on any error path; and at the end the references are those of the
  current directory, the boot directory and the device table, and one for each file the thread still
  has open: none is leaked and none is dropped twice.
\<close>

theorem vfs_references:
  "vfs_run (traced t) cs F (tr s (held s + F)) = map_option (\<lambda>(F1, s1). (F1, tr s1 (held s1 + F1))) (vfs_run t cs F s)"
proof (induction cs arbitrary: F s)
  case (Cons c cs)
  show ?case
  proof (cases "vfs_exec t c F s")
    case (Some y)
    obtain F1 s1 where "y = (F1, s1)" by force
    with Some vfs_exec_counts [of t c F s] Cons.IH [of F1 s1] show ?thesis by simp
  qed (use vfs_exec_counts [of t c F s] in simp)
qed simp

end
