(* ===== verification/Device.thy ===== *)
theory Device
  imports VfsPath
begin

unbundle bit_operations_syntax

text \<open>
  Devices as files: the vnode operations of \<open>kern/fs/vfs/device.c\<close>, the null device of
  \<open>kern/fs/vfs/devnull.c\<close>, and the disk of \<open>kern/dev/lamebus/lhd.c\<close> as such a device.

  A device is the record of its functions (\<open>struct device\<close> of \<open>include/dev.h\<close>) over the type \<open>'d\<close> of
  what \<open>d_data\<close> points to. The operations of \<open>device.c\<close> take the device that \<open>vn_data\<close> of the vnode
  points to; those that touch the vnode itself are in \<open>VfsKernel\<close>.
\<close>

section \<open>Devices\<close>

record 'd device =
  d_open :: "int \<Rightarrow> 'd \<Rightarrow> (unit kres \<times> 'd) option"
  d_close :: "'d \<Rightarrow> (unit kres \<times> 'd) option"
  d_io :: "uio \<Rightarrow> 'd \<Rightarrow> ((unit kres \<times> uio) \<times> 'd) option"
  d_ioctl :: "int \<Rightarrow> nat \<Rightarrow> 'd \<Rightarrow> (unit kres \<times> 'd) option"
  dev_blocks :: nat
  dev_blocksize :: nat
  d_data :: 'd

definition on_dev :: "('d \<Rightarrow> ('a \<times> 'd) option) \<Rightarrow> 'd device \<Rightarrow> ('a \<times> 'd device) option" where
  "on_dev f d = do { (r, x) \<leftarrow> f (d_data d); Some (r, d\<lparr>d_data := x\<rparr>) }"

definition S_IFCHR :: nat where "S_IFCHR = 0x4000"
definition S_IFBLK :: nat where "S_IFBLK = 0x5000"

definition dev_open :: "int \<Rightarrow> 'd device \<Rightarrow> (unit kres \<times> 'd device) option" where
  "dev_open flags d =
     (if flags AND (O_CREAT OR O_TRUNC OR O_EXCL OR O_APPEND) \<noteq> 0 then Some (Inl EINVAL, d)
      else on_dev (d_open d flags) d)"

definition dev_close :: "'d device \<Rightarrow> (unit kres \<times> 'd device) option" where
  "dev_close d = on_dev (d_close d) d"

definition dev_reclaim :: "'d device \<Rightarrow> (unit kres \<times> 'd device) option" where
  "dev_reclaim d = Some (Inr (), d)"

definition dev_read :: "uio \<Rightarrow> 'd device \<Rightarrow> ((unit kres \<times> uio) \<times> 'd device) option" where
  "dev_read u d = do { kassert (uio_rw u = UIO_READ); on_dev (d_io d u) d }"

definition null_io :: "uio \<Rightarrow> 'd device \<Rightarrow> ((unit kres \<times> uio) \<times> 'd device) option" where
  "null_io u d = Some ((Inl EINVAL, u), d)"

definition dev_write :: "uio \<Rightarrow> 'd device \<Rightarrow> ((unit kres \<times> uio) \<times> 'd device) option" where
  "dev_write u d = do { kassert (uio_rw u = UIO_WRITE); on_dev (d_io d u) d }"

definition dev_ioctl :: "int \<Rightarrow> nat \<Rightarrow> 'd device \<Rightarrow> (unit kres \<times> 'd device) option" where
  "dev_ioctl op data d = on_dev (d_ioctl d op data) d"

definition dev_gettype :: "'d device \<Rightarrow> nat kres" where
  "dev_gettype d = Inr (if dev_blocks d > 0 then S_IFBLK else S_IFCHR)"

text \<open>The product of the two unsigned numbers wraps around, and becomes the signed \<open>off_t\<close>.\<close>

definition dev_size :: "'d device \<Rightarrow> int" where
  "dev_size d = to_off (int ((dev_blocks d * dev_blocksize d) mod 2 ^ 32))"

definition dev_stat :: "'d device \<Rightarrow> stat kres" where
  "dev_stat d = (case dev_gettype d of Inl e \<Rightarrow> Inl e
     | Inr mode \<Rightarrow> Inr \<lparr>st_mode = mode, st_nlink = 1, st_size = (if dev_blocks d > 0 then dev_size d else 0), st_blocks = dev_blocks d\<rparr>)"

text \<open>\<open>pos\<close> is signed and \<open>d_blocksize\<close> is not: for the division \<open>pos\<close> is converted.\<close>

definition dev_tryseek :: "int \<Rightarrow> 'd device \<Rightarrow> unit kres option" where
  "dev_tryseek pos d =
     (if dev_blocks d > 0 then do {
        kassert (dev_blocksize d \<noteq> 0);
        let upos = nat (pos mod 2 ^ 32);
        if upos mod dev_blocksize d \<noteq> 0 then Some (Inl EINVAL)
        else if pos < 0 then Some (Inl EINVAL)
        else if upos div dev_blocksize d \<ge> dev_blocks d then Some (Inl EINVAL)
        else Some (Inr ())
      }
      else Some (Inl ESPIPE))"

definition null_fsync :: "unit kres" where "null_fsync = Inr ()"

definition dev_mmap :: "unit kres" where "dev_mmap = Inl EUNIMP"

definition dev_truncate :: "int \<Rightarrow> 'd device \<Rightarrow> unit kres" where
  "dev_truncate len d = (if dev_blocks d > 0 \<and> dev_size d = len then Inr () else Inl EINVAL)"

definition dev_namefile :: "uio \<Rightarrow> unit kres \<times> uio" where "dev_namefile u = (Inr (), u)"

definition null_creat :: "byte list \<Rightarrow> bool \<Rightarrow> nat kres" where "null_creat name excl = Inl ENOTDIR"
definition null_symlink :: "byte list \<Rightarrow> byte list \<Rightarrow> unit kres" where "null_symlink content name = Inl ENOTDIR"
definition null_nameop :: "byte list \<Rightarrow> unit kres" where "null_nameop name = Inl ENOTDIR"
definition null_link :: "byte list \<Rightarrow> nat \<Rightarrow> unit kres" where "null_link name file = Inl ENOTDIR"
definition null_rename :: "byte list \<Rightarrow> nat \<Rightarrow> byte list \<Rightarrow> unit kres" where "null_rename n1 v2 n2 = Inl ENOTDIR"
definition dev_lookparent :: "byte list \<Rightarrow> nat \<Rightarrow> (nat \<times> byte list) kres" where "dev_lookparent path buflen = Inl ENOTDIR"

section \<open>The devices of the model\<close>

datatype devdata = Null_data | Disk_data lhd_softc

text \<open>The null device: reads are at the end of the file, writes take everything.\<close>

definition nullopen :: "int \<Rightarrow> unit kres" where "nullopen openflags = Inr ()"

definition nullclose :: "unit kres" where "nullclose = Inr ()"

definition nullio :: "uio \<Rightarrow> unit kres \<times> uio" where
  "nullio u = (Inr (), if uio_rw u = UIO_WRITE then u\<lparr>uio_resid := 0\<rparr> else u)"

definition nullioctl :: "int \<Rightarrow> nat \<Rightarrow> unit kres" where "nullioctl op data = Inl EINVAL"

definition null_device :: "devdata device" where
  "null_device = \<lparr>
     d_open = \<lambda>fl d. Some (nullopen fl, d),
     d_close = \<lambda>d. Some (nullclose, d),
     d_io = \<lambda>u d. Some (nullio u, d),
     d_ioctl = \<lambda>op data d. Some (nullioctl op data, d),
     dev_blocks = 0, dev_blocksize = 1, d_data = Null_data\<rparr>"

definition disk_io :: "uio \<Rightarrow> devdata \<Rightarrow> ((unit kres \<times> uio) \<times> devdata) option" where
  "disk_io u d = (case d of
     Disk_data lh \<Rightarrow> map_option (\<lambda>(r, u1, lh1). ((r, u1), Disk_data lh1)) (lhd_io u lh)
   | Null_data \<Rightarrow> None)"

definition lhd_device :: "lhd_softc \<Rightarrow> devdata device" where
  "lhd_device lh = \<lparr>
     d_open = \<lambda>fl d. Some (lhd_open fl, d),
     d_close = \<lambda>d. Some (lhd_close, d),
     d_io = disk_io,
     d_ioctl = \<lambda>op data d. Some (lhd_ioctl op data, d),
     dev_blocks = d_blocks lh, dev_blocksize = d_blocksize lh, d_data = Disk_data lh\<rparr>"

section \<open>Seeking and writing\<close>

lemma dev_tryseek_iff:
  assumes "- (2 ^ 31) \<le> pos" and "pos < 2 ^ 31" and "0 < dev_blocksize d" and "0 < dev_blocks d"
  shows "dev_tryseek pos d = Some (if 0 \<le> pos \<and> int (dev_blocksize d) dvd pos \<and> pos < int (dev_blocks d) * int (dev_blocksize d) then Inr () else Inl EINVAL)"
proof (cases "0 \<le> pos")
  case True
  define p where "p = nat pos"
  have pos: "pos = int p" using True by (simp add: p_def)
  have n: "nat (pos mod 2 ^ 32) = p" using assms(2) by (simp add: pos)
  have a: "p mod dev_blocksize d = 0 \<longleftrightarrow> int (dev_blocksize d) dvd pos"
    unfolding pos int_dvd_int_iff by (simp add: dvd_eq_mod_eq_0)
  have b: "dev_blocks d \<le> p div dev_blocksize d \<longleftrightarrow> \<not> pos < int (dev_blocks d) * int (dev_blocksize d)"
    unfolding pos of_nat_mult [symmetric] of_nat_less_iff using assms(3) by (simp add: less_eq_div_iff_mult_less_eq not_less)
  show ?thesis
    using True assms(3,4) by (simp add: dev_tryseek_def Let_def n [simplified] a [simplified] b)
next
  case False
  with assms(3,4) show ?thesis by (simp add: dev_tryseek_def Let_def)
qed

end
