(* ===== verification/VfsKernel.thy ===== *)
theory VfsKernel
  imports Device SfsFs
begin

text \<open>
  The function tables of the kernel: device vnodes (\<open>kern/fs/vfs/device.c\<close>) and SFS volumes
  (\<open>kern/fs/sfs\<close>) behind the interface of the VFS layer, and the functions that fill the device table:
  \<open>vfs_bootstrap\<close>, \<open>devnull_create\<close>, \<open>config_lhd\<close> and \<open>sfs_mount\<close>.

  The state holds the devices, the device vnodes and the mounted volumes by address. A volume reaches
  its disk through the device it is mounted on, so that the raw device and the volume see the same
  sectors. A vnode that is not a device vnode belongs to the volume that has it loaded. The lists
  \<open>kw_vmem\<close> and \<open>kw_newvn\<close> are what the coming calls of \<open>kmalloc\<close> and \<open>lock_create\<close> return for vnodes;
  when they are used up, memory is.
\<close>

section \<open>State\<close>

record dvnode =
  dv_refcount :: int
  dv_opencount :: int
  dv_device :: nat

record volume =
  vol_dev :: nat
  vol_sfs :: sfs_fs

record kworld =
  kw_dev :: "nat \<Rightarrow> devdata device option"
  kw_dvn :: "nat \<Rightarrow> dvnode option"
  kw_vol :: "(nat \<times> volume) list"
  kw_vmem :: "vmem list"
  kw_newvn :: "(nat \<times> bool) list"

definition next_vmem :: "kworld \<Rightarrow> vmem \<times> kworld" where
  "next_vmem w = (case kw_vmem w of
     [] \<Rightarrow> (\<lparr>vm_addr = None, vm_lock = False, vm_table = (\<lambda>_. None)\<rparr>, w)
   | m # ms \<Rightarrow> (m, w\<lparr>kw_vmem := ms\<rparr>))"

definition put_volume :: "nat \<Rightarrow> volume \<Rightarrow> kworld \<Rightarrow> kworld" where
  "put_volume f vol w = w\<lparr>kw_vol := map (\<lambda>(g, v). (g, if g = f then vol else v)) (kw_vol w)\<rparr>"

definition put_disk :: "nat \<Rightarrow> lhd_softc \<Rightarrow> kworld \<Rightarrow> kworld" where
  "put_disk a lh w = (case kw_dev w a of None \<Rightarrow> w | Some d \<Rightarrow> w\<lparr>kw_dev := (kw_dev w)(a \<mapsto> d\<lparr>d_data := Disk_data lh\<rparr>)\<rparr>)"

definition get_disk :: "nat \<Rightarrow> kworld \<Rightarrow> lhd_softc option" where
  "get_disk a w = do { d \<leftarrow> kw_dev w a; case d_data d of Disk_data lh \<Rightarrow> Some lh | Null_data \<Rightarrow> None }"

text \<open>A function of SFS on the volume \<open>f\<close>.\<close>

definition on_volume :: "nat \<Rightarrow> (sfs_fs \<Rightarrow> ('a \<times> sfs_fs) option) \<Rightarrow> kworld \<Rightarrow> ('a \<times> kworld) option" where
  "on_volume f op w = do {
     vol \<leftarrow> map_of (kw_vol w) f;
     lh \<leftarrow> get_disk (vol_dev vol) w;
     (r, fs) \<leftarrow> op ((vol_sfs vol)\<lparr>sfs_device := lh\<rparr>);
     Some (r, put_disk (vol_dev vol) (sfs_device fs) (put_volume f (vol\<lparr>vol_sfs := fs\<rparr>) w))
   }"

definition vn_owner :: "nat \<Rightarrow> kworld \<Rightarrow> nat option" where
  "vn_owner v w = map_option fst (find (\<lambda>(f, vol). sfs_mem (vol_sfs vol) v \<noteq> None) (kw_vol w))"

definition on_sfs_vnode :: "nat \<Rightarrow> (sfs_fs \<Rightarrow> ('a \<times> sfs_fs) option) \<Rightarrow> kworld \<Rightarrow> ('a \<times> kworld) option" where
  "on_sfs_vnode v op w = do { f \<leftarrow> vn_owner v w; on_volume f op w }"

section \<open>Device vnodes\<close>

definition on_device :: "dvnode \<Rightarrow> (devdata device \<Rightarrow> ('a \<times> devdata device) option) \<Rightarrow> kworld \<Rightarrow> ('a \<times> kworld) option" where
  "on_device dv op w = do {
     d \<leftarrow> kw_dev w (dv_device dv);
     (r, d1) \<leftarrow> op d;
     Some (r, w\<lparr>kw_dev := (kw_dev w)(dv_device dv \<mapsto> d1)\<rparr>)
   }"

definition put_dvn :: "nat \<Rightarrow> dvnode \<Rightarrow> kworld \<Rightarrow> kworld" where
  "put_dvn v dv w = w\<lparr>kw_dvn := (kw_dvn w)(v \<mapsto> dv)\<rparr>"

definition dv_check :: "nat \<Rightarrow> dvnode \<Rightarrow> string \<Rightarrow> unit option" where
  "dv_check v dv opstr = do {
     kassert (v \<noteq> 0);
     kassert (v \<noteq> 0xdeadbeef);
     kassert (dv_refcount dv \<ge> 0);
     kassert (\<not> (dv_refcount dv = 0 \<and> opstr \<noteq> ''reclaim''));
     kassert (dv_opencount dv \<ge> 0)
   }"

text \<open>\<open>vnode_incref\<close>, \<open>vnode_decref\<close>, \<open>vnode_incopen\<close> and \<open>vnode_decopen\<close> on a device vnode.\<close>

definition dv_incref :: "nat \<Rightarrow> dvnode \<Rightarrow> kworld \<Rightarrow> kworld option" where
  "dv_incref v dv w = do { n \<leftarrow> c_int (dv_refcount dv + 1); Some (put_dvn v (dv\<lparr>dv_refcount := n\<rparr>) w) }"

definition dv_decref :: "nat \<Rightarrow> dvnode \<Rightarrow> kworld \<Rightarrow> kworld option" where
  "dv_decref v dv w = do {
     kassert (dv_refcount dv > 0);
     if dv_refcount dv > 1 then Some (put_dvn v (dv\<lparr>dv_refcount := dv_refcount dv - 1\<rparr>) w)
     else do { dv_check v dv ''reclaim''; (r, w1) \<leftarrow> on_device dv dev_reclaim w; Some w1 }
   }"

definition dv_incopen :: "nat \<Rightarrow> dvnode \<Rightarrow> kworld \<Rightarrow> kworld option" where
  "dv_incopen v dv w = do { n \<leftarrow> c_int (dv_opencount dv + 1); Some (put_dvn v (dv\<lparr>dv_opencount := n\<rparr>) w) }"

definition dv_decopen :: "nat \<Rightarrow> dvnode \<Rightarrow> kworld \<Rightarrow> kworld option" where
  "dv_decopen v dv w = do {
     kassert (dv_opencount dv > 0);
     let dv1 = dv\<lparr>dv_opencount := dv_opencount dv - 1\<rparr>;
     let w1 = put_dvn v dv1 w;
     if dv_opencount dv1 > 0 then Some w1
     else do { dv_check v dv1 ''close''; (r, w2) \<leftarrow> on_device dv1 dev_close w1; Some w2 }
   }"

definition create_vnode :: "nat \<Rightarrow> kworld \<Rightarrow> (nat option \<times> kworld) option" where
  "create_vnode dev w = (case kw_newvn w of
     [] \<Rightarrow> Some (None, w)
   | (v, lk) # rest \<Rightarrow> do {
       kassert lk;
       Some (Some v, put_dvn v \<lparr>dv_refcount = 1, dv_opencount = 0, dv_device = dev\<rparr> (w\<lparr>kw_newvn := rest\<rparr>))
     })"

definition dev_lookup :: "nat \<Rightarrow> dvnode \<Rightarrow> byte list \<Rightarrow> kworld \<Rightarrow> (nat kres \<times> kworld) option" where
  "dev_lookup v dv path w =
     (if length path > 0 then Some (Inl ENOENT, w)
      else do { w1 \<leftarrow> dv_incref v dv w; Some (Inr v, w1) })"

section \<open>The tables\<close>

text \<open>The call through \<open>vn_ops\<close>, after the check that the macro \<open>__VOP\<close> makes.\<close>

definition vop :: "string \<Rightarrow> nat \<Rightarrow> (dvnode \<Rightarrow> kworld \<Rightarrow> ('a \<times> kworld) option) \<Rightarrow> (vnode_ops \<Rightarrow> sfs_fs \<Rightarrow> ('a \<times> sfs_fs) option) \<Rightarrow>
   kworld \<Rightarrow> ('a \<times> kworld) option" where
  "vop opstr v devop sfsop w = (case kw_dvn w v of
     Some dv \<Rightarrow> do { dv_check v dv opstr; devop dv w }
   | None \<Rightarrow> on_sfs_vnode v (VOP sfsop opstr v) w)"

definition vop_mem :: "string \<Rightarrow> nat \<Rightarrow> (dvnode \<Rightarrow> kworld \<Rightarrow> ('a \<times> kworld) option) \<Rightarrow> (vmem \<Rightarrow> vnode_ops \<Rightarrow> sfs_fs \<Rightarrow> ('a \<times> sfs_fs) option) \<Rightarrow>
   kworld \<Rightarrow> ('a \<times> kworld) option" where
  "vop_mem opstr v devop sfsop w = do { let (m, w1) = next_vmem w; vop opstr v devop (sfsop m) w1 }"

definition count_op :: "nat \<Rightarrow> (dvnode \<Rightarrow> kworld \<Rightarrow> kworld option) \<Rightarrow> (sfs_fs \<Rightarrow> sfs_fs option) \<Rightarrow> kworld \<Rightarrow> kworld option" where
  "count_op v devop sfsop w = (case kw_dvn w v of
     Some dv \<Rightarrow> devop dv w
   | None \<Rightarrow> map_option snd (on_sfs_vnode v (\<lambda>fs. map_option (Pair ()) (sfsop fs)) w))"

text \<open>The operations of a device that leave the state alone.\<close>

definition ret :: "'a \<Rightarrow> kworld \<Rightarrow> ('a \<times> kworld) option" where
  "ret x w = Some (x, w)"

definition dev_only :: "dvnode \<Rightarrow> (devdata device \<Rightarrow> 'a option) \<Rightarrow> kworld \<Rightarrow> ('a \<times> kworld) option" where
  "dev_only dv f w = do { d \<leftarrow> kw_dev w (dv_device dv); r \<leftarrow> f d; Some (r, w) }"

definition volume_unmount :: "nat \<Rightarrow> kworld \<Rightarrow> (unit kres \<times> kworld) option" where
  "volume_unmount f w = do {
     vol \<leftarrow> map_of (kw_vol w) f;
     r \<leftarrow> sfs_unmount (vol_sfs vol);
     case r of Inl e \<Rightarrow> Some (Inl e, w) | Inr lh \<Rightarrow> Some (Inr (), w\<lparr>kw_vol := filter (\<lambda>(g, v). g \<noteq> f) (kw_vol w)\<rparr>)
   }"

definition volume_root :: "nat \<Rightarrow> kworld \<Rightarrow> (nat \<times> kworld) option" where
  "volume_root f w = do { let (m, w1) = next_vmem w; on_volume f (sfs_getroot m) w1 }"

definition kernel_if :: "kworld fsif" where
  "kernel_if = \<lparr>
     FSOP_SYNC = \<lambda>f. on_volume f sfs_sync,
     FSOP_GETVOLNAME = \<lambda>f w. map_option (\<lambda>vol. Some (cstring (sfs_getvolname (vol_sfs vol)))) (map_of (kw_vol w) f),
     FSOP_GETROOT = volume_root,
     FSOP_UNMOUNT = volume_unmount,
     dev_create_vnode = create_vnode,
     kfree_vnode = \<lambda>v w. Some (w\<lparr>kw_dvn := (kw_dvn w)(v := None)\<rparr>),
     vn_fs = \<lambda>v w. (case kw_dvn w v of Some dv \<Rightarrow> Some None | None \<Rightarrow> map_option Some (vn_owner v w)),
     VOP_INCREF = \<lambda>v. count_op v (dv_incref v) (vnode_incref v),
     VOP_DECREF = \<lambda>v. count_op v (dv_decref v) (vnode_decref v),
     VOP_INCOPEN = \<lambda>v. count_op v (dv_incopen v) (vnode_incopen v),
     VOP_DECOPEN = \<lambda>v. count_op v (dv_decopen v) (vnode_decopen v),
     VOP_OPEN = \<lambda>v fl. vop ''open'' v (\<lambda>dv. on_device dv (dev_open fl)) (\<lambda>ops. vop_open ops v fl),
     VOP_READLINK = \<lambda>v u. vop ''readlink'' v (\<lambda>dv. on_device dv (null_io u)) (\<lambda>ops. vop_readlink ops v u),
     VOP_GETTYPE = \<lambda>v. vop ''gettype'' v (\<lambda>dv. dev_only dv (Some \<circ> dev_gettype)) (\<lambda>ops. vop_gettype ops v),
     VOP_TRUNCATE = \<lambda>v len. vop ''truncate'' v (\<lambda>dv. dev_only dv (Some \<circ> dev_truncate len)) (\<lambda>ops. vop_truncate ops v len),
     VOP_NAMEFILE = \<lambda>v u. vop ''namefile'' v (\<lambda>dv. ret (dev_namefile u)) (\<lambda>ops. vop_namefile ops v u),
     VOP_CREAT = \<lambda>v name excl. vop_mem ''creat'' v (\<lambda>dv. ret (null_creat name excl)) (\<lambda>m ops. vop_creat ops m v name excl),
     VOP_SYMLINK = \<lambda>v name c. vop ''symlink'' v (\<lambda>dv. ret (null_symlink name c)) (\<lambda>ops. vop_symlink ops v name c),
     VOP_MKDIR = \<lambda>v name. vop ''mkdir'' v (\<lambda>dv. ret (null_nameop name)) (\<lambda>ops. vop_mkdir ops v name),
     VOP_LINK = \<lambda>v name file. vop ''link'' v (\<lambda>dv. ret (null_link name file)) (\<lambda>ops. vop_link ops v name file),
     VOP_REMOVE = \<lambda>v name. vop_mem ''remove'' v (\<lambda>dv. ret (null_nameop name)) (\<lambda>m ops. vop_remove ops m v name),
     VOP_RMDIR = \<lambda>v name. vop ''rmdir'' v (\<lambda>dv. ret (null_nameop name)) (\<lambda>ops. vop_rmdir ops v name),
     VOP_RENAME = \<lambda>v n1 v2 n2. vop_mem ''rename'' v (\<lambda>dv. ret (null_rename n1 v2 n2)) (\<lambda>m ops. vop_rename ops m v n1 v2 n2),
     VOP_LOOKUP = \<lambda>v path. vop_mem ''lookup'' v (\<lambda>dv. dev_lookup v dv path) (\<lambda>m ops. vop_lookup ops m v path),
     VOP_LOOKPARENT = \<lambda>v path n. vop ''lookparent'' v (\<lambda>dv. ret (dev_lookparent path n)) (\<lambda>ops. vop_lookparent ops v path n)\<rparr>"

section \<open>Filling the device table\<close>

text \<open>What the allocations of \<open>vfs_bootstrap\<close> and of the functions it calls return.\<close>

record bootmem =
  boot_array :: bool
  boot_locks :: "bool \<times> bool"
  boot_null :: "nat option"
  boot_add :: addmem

definition devnull_create :: "nat option \<Rightarrow> addmem \<Rightarrow> kworld vfs \<Rightarrow> kworld vfs option" where
  "devnull_create mem add s = do {
     dev \<leftarrow> mem;
     let s1 = s\<lparr>world := (world s)\<lparr>kw_dev := (kw_dev (world s))(dev \<mapsto> null_device)\<rparr>\<rparr>;
     (result, s2) \<leftarrow> vfs_adddev kernel_if add (bytes_of ''null'') dev False s1;
     case result of Inl e \<Rightarrow> None | Inr _ \<Rightarrow> Some s2
   }"

definition vfs_bootstrap :: "bootmem \<Rightarrow> kworld \<Rightarrow> kworld vfs option" where
  "vfs_bootstrap mem w = do {
     arr \<leftarrow> array_create (boot_array mem);
     kassert (fst (boot_locks mem));
     kassert (snd (boot_locks mem));
     devnull_create (boot_null mem) (boot_add mem) \<lparr>knowndevs = arr, knowndevs_lock = False, bootfs_vnode = None, bootfs_lock = False, t_cwd = None, world = w\<rparr>
   }"

text \<open>The decimal digits that \<open>snprintf\<close> prints for the number of a disk.\<close>

fun decimal :: "nat \<Rightarrow> byte list" where
  "decimal n = (if n < 10 then [of_nat (48 + n)] else decimal (n div 10) @ [of_nat (48 + n mod 10)])"

declare decimal.simps [simp del]

definition attach_lhd :: "bool \<Rightarrow> bool \<Rightarrow> addmem \<Rightarrow> nat \<Rightarrow> nat \<Rightarrow> nat \<Rightarrow> lhd_softc \<Rightarrow> kworld vfs \<Rightarrow> (unit kres \<times> kworld vfs) option" where
  "attach_lhd mem1 mem2 add lhdno nsect dev lh s = (case config_lhd mem1 mem2 nsect lh of
     Inl e \<Rightarrow> Some (Inl e, s)
   | Inr lh1 \<Rightarrow> vfs_adddev kernel_if add (bytes_of ''lhd'' @ decimal lhdno) dev True
       (s\<lparr>world := (world s)\<lparr>kw_dev := (kw_dev (world s))(dev \<mapsto> lhd_device lh1)\<rparr>\<rparr>))"

text \<open>\<open>sfs_domount\<close> as the \<open>mountfunc\<close>; \<open>fs\<close> is the address of the new structure.\<close>

definition domount_on :: "mount_mem \<Rightarrow> nat \<Rightarrow> nat \<Rightarrow> kworld \<Rightarrow> (nat kres \<times> kworld) option" where
  "domount_on mem fs dev w = do {
     d \<leftarrow> kw_dev w dev;
     case d_data d of
       Null_data \<Rightarrow> Some (Inl ENXIO, w)
     | Disk_data lh \<Rightarrow> do {
         (result, lh1) \<leftarrow> sfs_domount mem lh;
         let w1 = put_disk dev lh1 w;
         case result of Inl e \<Rightarrow> Some (Inl e, w1)
         | Inr vol \<Rightarrow> Some (Inr fs, w1\<lparr>kw_vol := (fs, \<lparr>vol_dev = dev, vol_sfs = vol\<rparr>) # kw_vol w1\<rparr>)
       }
   }"

definition sfs_mount :: "mount_mem \<Rightarrow> nat \<Rightarrow> byte list \<Rightarrow> kworld vfs \<Rightarrow> (unit kres \<times> kworld vfs) option" where
  "sfs_mount mem fs device s = vfs_mount device (domount_on mem fs) s"

end
