(* ===== verification/VfsTable.thy ===== *)
theory VfsTable
  imports VfsRefs VfsKernel Mksfs
begin

text \<open>
  The device table of the VFS layer over all runs: it stays well formed under every operation, for
  any file systems, and \<open>vfs_getroot\<close> finds in it what the comment in \<open>kern/fs/vfs/vfslist.c\<close> promises,
  as long as no volume has the name of a device. At the end a kernel is started with two disks, and a volume
  made by \<open>mksfs\<close> is mounted from one under the name of the other.
\<close>

section \<open>Well-formed device tables\<close>

definition devs :: "'w vfs \<Rightarrow> knowndev list" where
  "devs s = array_list (knowndevs s)"

definition kd_names :: "knowndev \<Rightarrow> byte list list" where
  "kd_names kd = kd_name kd # (case kd_rawname kd of None \<Rightarrow> [] | Some r \<Rightarrow> [r])"

text \<open>
  An entry is well formed when its raw name is made from its name, and it has a device unless it
  is a hardwired file system.
\<close>

definition kd_ok :: "knowndev \<Rightarrow> bool" where
  "kd_ok kd \<longleftrightarrow> (kd_rawname kd = None \<or> kd_rawname kd = Some (kd_name kd @ bytes_of ''raw'')) \<and>
     (kd_rawname kd \<noteq> None \<or> kd_fs kd = 0 \<longrightarrow> kd_device kd \<noteq> 0)"

definition table_wf :: "'w vfs \<Rightarrow> bool" where
  "table_wf s \<longleftrightarrow> array_ok (knowndevs s) \<and> list_all kd_ok (devs s) \<and> distinct (concat (map kd_names (devs s)))"

definition devtable_ok :: "'w vfs \<Rightarrow> bool" where
  "devtable_ok s \<longleftrightarrow> table_wf s \<and> \<not> knowndevs_lock s"

section \<open>Invariants of the functions\<close>

definition stable :: "('w vfs \<Rightarrow> bool) \<Rightarrow> ('w vfs \<Rightarrow> ('a \<times> 'w vfs) option) \<Rightarrow> bool" where
  "stable P f \<longleftrightarrow> (\<forall>s r s1. P s \<longrightarrow> f s = Some (r, s1) \<longrightarrow> P s1)"

definition stable0 :: "('w vfs \<Rightarrow> bool) \<Rightarrow> ('w vfs \<Rightarrow> 'w vfs option) \<Rightarrow> bool" where
  "stable0 P f \<longleftrightarrow> (\<forall>s s1. P s \<longrightarrow> f s = Some s1 \<longrightarrow> P s1)"

lemma stableD: "stable P f \<Longrightarrow> P s \<Longrightarrow> f s = Some (r, s1) \<Longrightarrow> P s1"
  by (auto simp: stable_def)

lemma stable0D: "stable0 P f \<Longrightarrow> P s \<Longrightarrow> f s = Some s1 \<Longrightarrow> P s1"
  by (auto simp: stable0_def)

named_theorems stable_rules \<open>the rules that follow an invariant through a function\<close>

lemma stable_bind [stable_rules]:
  assumes "stable P f" and "\<And>x. stable P (k x)"
  shows "stable P (\<lambda>s. f s \<bind> (\<lambda>(x, s1). k x s1))"
  unfolding stable_def
proof (intro allI impI)
  fix s r s1
  assume s: "P s" and run: "f s \<bind> (\<lambda>(x, s1). k x s1) = Some (r, s1)"
  then obtain x s2 where "f s = Some (x, s2)" "k x s2 = Some (r, s1)" by (auto simp: kmonad)
  with s show "P s1" using stableD [OF assms(1)] stableD [OF assms(2)] by blast
qed

lemma stable_bind0 [stable_rules]:
  assumes "stable0 P f" and "stable P k"
  shows "stable P (\<lambda>s. f s \<bind> (\<lambda>s1. k s1))"
  unfolding stable_def
proof (intro allI impI)
  fix s r s1
  assume s: "P s" and run: "f s \<bind> (\<lambda>s1. k s1) = Some (r, s1)"
  then obtain s2 where "f s = Some s2" "k s2 = Some (r, s1)" by (auto simp: kmonad)
  with s show "P s1" using stable0D [OF assms(1)] stableD [OF assms(2)] by blast
qed

lemma stable_sum [stable_rules]:
  "(\<And>e. stable P (l e)) \<Longrightarrow> (\<And>y. stable P (m y)) \<Longrightarrow> stable P (\<lambda>s. case z of Inl e \<Rightarrow> l e s | Inr y \<Rightarrow> m y s)"
  by (cases z) simp_all

lemma stable_pair [stable_rules]:
  "(\<And>a b. stable P (n a b)) \<Longrightarrow> stable P (\<lambda>s. case p of (a, b) \<Rightarrow> n a b s)" "(\<And>a b. stable P (n a b)) \<Longrightarrow> stable P (case p of (a, b) \<Rightarrow> n a b)"
  by (cases p, simp)+

lemma stable_option [stable_rules]: "stable P l \<Longrightarrow> (\<And>y. stable P (m y)) \<Longrightarrow> stable P (\<lambda>s. case z of None \<Rightarrow> l s | Some y \<Rightarrow> m y s)"
  by (cases z) simp_all

lemma stable_if [stable_rules]: "stable P f \<Longrightarrow> stable P g \<Longrightarrow> stable P (\<lambda>s. if c then f s else g s)"
  by (cases c) simp_all

lemma stable_return [stable_rules]: "stable P (\<lambda>s. None)" "stable P (\<lambda>s. Some (r, s))" "stable0 P (\<lambda>s. Some s)"
  by (simp_all add: stable_def stable0_def)

lemma stable_read: "(\<And>x. stable P (k x)) \<Longrightarrow> stable P (\<lambda>s. f s \<bind> (\<lambda>x. k x s))"
  by (auto simp: stable_def kmonad)

definition frame :: "('w vfs \<Rightarrow> bool) \<Rightarrow> bool" where
  "frame P \<longleftrightarrow> (\<forall>s w c b l. P s \<longrightarrow> P (s\<lparr>world := w\<rparr>) \<and> P (s\<lparr>t_cwd := c\<rparr>) \<and> P (s\<lparr>bootfs_vnode := b\<rparr>) \<and> P (s\<lparr>bootfs_lock := l\<rparr>))"

lemma frameD: "frame P \<Longrightarrow> P s \<Longrightarrow> P (s\<lparr>world := w\<rparr>) \<and> P (s\<lparr>t_cwd := c\<rparr>) \<and> P (s\<lparr>bootfs_vnode := b\<rparr>) \<and> P (s\<lparr>bootfs_lock := l\<rparr>)"
  by (auto simp: frame_def)

lemma stable_world [stable_rules]: "frame P \<Longrightarrow> stable P (on_world f)" "frame P \<Longrightarrow> stable0 P (do_world g)"
  by (auto simp: stable_def stable0_def on_world_def do_world_def kmonad dest: frameD)

lemma stable_locked:
  assumes "stable (\<lambda>s. P (s\<lparr>knowndevs_lock := False\<rparr>)) f" and "\<And>s. P s \<Longrightarrow> P (s\<lparr>knowndevs_lock := False\<rparr>)"
  shows "stable P (locked f)"
proof -
  have "P s1" if s: "P s" and f: "f (s\<lparr>knowndevs_lock := True\<rparr>) = Some (r, s2)" and s1: "s1 = s2\<lparr>knowndevs_lock := False\<rparr>" for s r s1 s2
    using stableD [OF assms(1) _ f] assms(2) [OF s] s1 by simp
  then show ?thesis
    by (fastforce simp: stable_def locked_def lock_table_def unlock_table_def kmonad split: if_splits)
qed

text \<open>The table itself, apart from the lock.\<close>

lemma wf_upd [simp]:
  "table_wf (s\<lparr>world := w\<rparr>) = table_wf s" "table_wf (s\<lparr>t_cwd := c\<rparr>) = table_wf s" "table_wf (s\<lparr>bootfs_vnode := b\<rparr>) = table_wf s"
  "table_wf (s\<lparr>bootfs_lock := l\<rparr>) = table_wf s" "table_wf (s\<lparr>knowndevs_lock := l\<rparr>) = table_wf s"
  by (simp_all add: table_wf_def devs_def)

lemma frame_table [simp]: "frame table_wf" "frame devtable_ok"
  by (simp_all add: frame_def devtable_ok_def)

lemma devtable_locked [stable_rules]: "stable table_wf f \<Longrightarrow> stable devtable_ok (locked f)"
  by (rule stable_locked) (auto simp: devtable_ok_def stable_def)

section \<open>The table under the operations\<close>

lemma stable_getcurdir [stable_rules]: "stable devtable_ok (vfs_getcurdir t)"
  unfolding stable_def vfs_getcurdir_def
  by (auto simp: do_world_def kmonad devtable_ok_def split: option.splits)

lemma stable_getroot [stable_rules]: "stable devtable_ok (vfs_getroot t n)"
proof -
  have one: "stable table_wf (getroot_try t n kd)" for kd
    unfolding getroot_try_def
    by (rule stable_rules | rule stable_read | (simp; fail))+
  have "stable table_wf (getroot_from t n i k)" for i k
  proof (induction k arbitrary: i)
    case (Suc k)
    have eq: "getroot_from t n i (Suc k) = (\<lambda>s. array_getguy (knowndevs s) i \<bind> (\<lambda>kd. getroot_try t n kd s \<bind>
        (\<lambda>(hit, s1). case hit of Some r \<Rightarrow> Some (r, s1) | None \<Rightarrow> getroot_from t n (i + 1) k s1)))"
      by (simp add: fun_eq_iff)
    show ?case
      unfolding eq by (rule stable_read, rule stable_bind [OF one], rule stable_option) (rule stable_return Suc.IH)+
  qed (simp add: stable_def)
  then have "stable table_wf (\<lambda>s. getroot_from t n 0 (nat (array_getnum (knowndevs s))) s)"
    by (auto simp: stable_def)
  then show ?thesis unfolding vfs_getroot_def by (rule devtable_locked)
qed

lemma stable_getdevice [stable_rules]: "stable devtable_ok (getdevice t path)"
proof -
  have root: "stable devtable_ok (getdevice_root t path)"
  proof (cases "hd path = slash_char")
    case True
    then show ?thesis
      unfolding stable_def getdevice_root_def
      by (auto simp: do_world_def kmonad Let_def devtable_ok_def split: option.splits if_splits)
  next
    case False
    show ?thesis
      unfolding getdevice_root_def if_not_P [OF False]
      by (rule stable_rules | rule stable_read | (simp; fail))+
  qed
  obtain slash colon where p: "scan_path 0 path = (slash, colon)" by force
  show ?thesis
    unfolding getdevice_def Let_def p prod.case
    by (rule root | rule stable_rules | rule stable_read | (simp; fail))+
qed

lemma stable_lookup [stable_rules]:
  "stable devtable_ok (vfs_lookup t path)" "stable devtable_ok (vfs_lookparent t path n)"
  unfolding vfs_lookup_def vfs_lookparent_def
  by (rule stable_rules | rule stable_read | (simp; fail))+

lemma stable_names [stable_rules]:
  "stable devtable_ok (vfs_remove t p)" "stable devtable_ok (vfs_symlink t c p)" "stable devtable_ok (vfs_mkdir t p)" "stable devtable_ok (vfs_rmdir t p)"
  "stable devtable_ok (vfs_rename t p q)" "stable devtable_ok (vfs_link t p q)" "stable devtable_ok (vfs_readlink t p u)"
  unfolding vfs_remove_def vfs_symlink_def vfs_mkdir_def vfs_rmdir_def in_parent_def vfs_rename_def vfs_link_def vfs_readlink_def with_newdir_def
  by (rule stable_rules | rule stable_read | (simp; fail))+

lemma stable_open [stable_rules]: "stable devtable_ok (vfs_open t p fl)"
  unfolding vfs_open_def open_vnode_def open_opened_def Let_def
  by (rule stable_rules | rule stable_read | (simp; fail))+

lemma stable_set_cwd [stable_rules]:
  "stable0 devtable_ok (\<lambda>s. case t_cwd s of Some v \<Rightarrow> do_world (VOP_DECREF t v) (s\<lparr>t_cwd := c\<rparr>) | None \<Rightarrow> Some (s\<lparr>t_cwd := c\<rparr>))"
  by (auto simp: stable0_def do_world_def kmonad devtable_ok_def split: option.splits)

lemma stable_setcurdir [stable_rules]: "stable devtable_ok (vfs_setcurdir t v)" "stable devtable_ok (vfs_clearcurdir t)"
  unfolding vfs_setcurdir_def vfs_clearcurdir_def Let_def
  by (rule stable_rules | (simp; fail))+

lemma stable_bootfs [stable_rules]: "stable0 devtable_ok (change_bootfs t c)"
  unfolding stable0_def change_bootfs_def
  by (auto simp: do_world_def kmonad devtable_ok_def Let_def split: option.splits)

lemma stable_chdir [stable_rules]: "stable devtable_ok (vfs_chdir t p)"
  unfolding vfs_chdir_def by (rule stable_rules | (simp; fail))+

lemma stable_getdevname [stable_rules]: "stable devtable_ok (vfs_getdevname f)"
  unfolding vfs_getdevname_def
  by (rule stable_read, rule devtable_locked) (auto simp: stable_def kmonad)

lemma stable_setbootfs [stable_rules]: "stable devtable_ok (vfs_setbootfs t n)" "stable0 devtable_ok (vfs_clearbootfs t)"
  unfolding vfs_setbootfs_def vfs_clearbootfs_def Let_def
  by (rule stable_rules | (simp; fail))+

lemma stable_getcwd [stable_rules]: "stable devtable_ok (vfs_getcwd t u)"
  unfolding vfs_getcwd_def
  by (rule stable_rules | rule stable_read | (simp; fail))+

lemma stable_close [stable_rules]: "stable0 devtable_ok (vfs_close t v)"
  by (auto simp: stable0_def vfs_close_def do_world_def kmonad devtable_ok_def)

lemma stable_sync [stable_rules]: "stable devtable_ok (vfs_sync t)"
proof -
  have "stable table_wf (sync_from t i n)" for i n
  proof (induction n arbitrary: i)
    case (Suc n)
    have one: "stable0 table_wf (\<lambda>s. if c then on_world f s \<bind> (\<lambda>(r, s1). Some s1) else Some s)" for c and f :: "'a \<Rightarrow> (unit kres \<times> 'a) option"
      by (auto simp: stable0_def on_world_def kmonad)
    have eq: "sync_from t i (Suc n) = (\<lambda>s. array_getguy (knowndevs s) i \<bind> (\<lambda>dev.
        (if kd_fs dev \<noteq> 0 then on_world (FSOP_SYNC t (kd_fs dev)) s \<bind> (\<lambda>(r, s1). Some s1) else Some s) \<bind> (\<lambda>s1. sync_from t (i + 1) n s1)))"
      by (simp add: fun_eq_iff)
    show ?case
      unfolding eq by (rule stable_read, rule stable_bind0 [OF one Suc.IH])
  qed (simp add: stable_def)
  then show ?thesis
    unfolding vfs_sync_def by (intro devtable_locked) (auto simp: stable_def)
qed

text \<open>Mounting and unmounting change \<open>kd_fs\<close> of one entry.\<close>

lemma table_set_fs:
  assumes "table_wf s" and "array_getguy (knowndevs s) i = Some kd" and "kd_rawname kd \<noteq> None" and "set_kd_fs i kd f s = Some s1"
  shows "table_wf s1"
proof -
  have ok: "array_ok (knowndevs s)" using assms(1) by (simp add: table_wf_def)
  have i: "0 \<le> i" "i < a_num (knowndevs s)" using assms(2) by (auto simp: array_getguy_def split: if_splits)
  have kd: "kd = devs s ! nat i" using array_getguy_list [OF ok i(1)] i(2) assms(2) by (simp add: array_getnum_def devs_def)
  obtain a where a: "array_setguy i (kd\<lparr>kd_fs := f\<rparr>) (knowndevs s) = Some a" "array_ok a" "array_list a = (devs s)[nat i := kd\<lparr>kd_fs := f\<rparr>]"
    using array_setguy_list [OF ok i] unfolding devs_def by blast
  have s1: "s1 = s\<lparr>knowndevs := a\<rparr>" using assms(4) a(1) by (simp add: set_kd_fs_def)
  have n: "nat i < length (devs s)" using i ok by (simp add: devs_def)
  have "kd_ok kd" using assms(1) n kd by (simp add: table_wf_def list_all_length)
  then have new: "kd_ok (kd\<lparr>kd_fs := f\<rparr>)" using assms(3) by (auto simp: kd_ok_def)
  have names: "map kd_names ((devs s)[nat i := kd\<lparr>kd_fs := f\<rparr>]) = map kd_names (devs s)"
    using n kd by (auto simp: list_eq_iff_nth_eq nth_list_update kd_names_def)
  have "list_all kd_ok ((devs s)[nat i := kd\<lparr>kd_fs := f\<rparr>])"
    using assms(1) new n by (auto simp: table_wf_def list_all_length nth_list_update)
  then show ?thesis
    using assms(1) a names s1 by (simp add: table_wf_def devs_def)
qed

lemma on_world_table: "on_world f s = Some (r, s1) \<Longrightarrow> knowndevs s1 = knowndevs s \<and> (table_wf s1 \<longleftrightarrow> table_wf s)"
  by (auto simp: on_world_def kmonad)

lemma stable_mount [stable_rules]: "stable devtable_ok (vfs_mount n m)"
  unfolding vfs_mount_def
proof (intro devtable_locked, unfold stable_def, intro allI impI)
  fix s r s1
  assume s: "table_wf s" and run: "findmount n s \<bind> (\<lambda>found. case found of Inl e \<Rightarrow> Some (Inl e, s)
     | Inr (i, kd) \<Rightarrow> if kd_fs kd \<noteq> 0 then Some (Inl EBUSY, s)
         else kassert (kd_rawname kd \<noteq> None) \<bind> (\<lambda>_. kassert (kd_device kd \<noteq> 0) \<bind> (\<lambda>_. on_world (m (kd_device kd)) s \<bind>
           (\<lambda>(result, s1). case result of Inl e \<Rightarrow> Some (Inl e, s1)
             | Inr fs \<Rightarrow> kassert (fs \<noteq> 0) \<bind> (\<lambda>_. set_kd_fs i kd fs s1 \<bind> (\<lambda>s2. Some (Inr (), s2))))))) = Some (r, s1)"
  then obtain found where found: "findmount n s = Some found" by (auto simp: kmonad)
  show "table_wf s1"
  proof (cases found)
    case (Inl e)
    with run found s show ?thesis by simp
  next
    case (Inr y)
    obtain i kd where y: "y = (i, kd)" by force
    have hit: "array_getguy (knowndevs s) i = Some kd" "kd_rawname kd \<noteq> None"
      using findmount_hit found Inr y by blast+
    have set: "table_wf s4" if "set_kd_fs i kd f s3 = Some s4" "knowndevs s3 = knowndevs s" "table_wf s3" for f s3 s4
      using table_set_fs [OF that(3) _ hit(2) that(1)] hit(1) that(2) by simp
    show ?thesis
      using run found Inr y s hit(2)
      by (auto dest!: on_world_table intro: set split: Option.bind_split_asm sum.split_asm prod.split_asm if_split_asm)
  qed
qed

lemma stable_unmount [stable_rules]: "stable devtable_ok (vfs_unmount t n)"
  unfolding vfs_unmount_def
proof (intro devtable_locked, unfold stable_def, intro allI impI)
  fix s r s1
  assume s: "table_wf s" and run: "findmount n s \<bind> (\<lambda>found. case found of Inl e \<Rightarrow> Some (Inl e, s)
     | Inr (i, kd) \<Rightarrow> if kd_fs kd = 0 then Some (Inl EINVAL, s)
         else kassert (kd_rawname kd \<noteq> None) \<bind> (\<lambda>_. kassert (kd_device kd \<noteq> 0) \<bind> (\<lambda>_. on_world (FSOP_SYNC t (kd_fs kd)) s \<bind>
           (\<lambda>(result, s1). case result of Inl e \<Rightarrow> Some (Inl e, s1)
             | Inr _ \<Rightarrow> on_world (FSOP_UNMOUNT t (kd_fs kd)) s1 \<bind> (\<lambda>(result2, s2). case result2 of Inl e \<Rightarrow> Some (Inl e, s2)
               | Inr _ \<Rightarrow> set_kd_fs i kd 0 s2 \<bind> (\<lambda>s3. Some (Inr (), s3))))))) = Some (r, s1)"
  then obtain found where found: "findmount n s = Some found" by (auto simp: kmonad)
  show "table_wf s1"
  proof (cases found)
    case (Inl e)
    with run found s show ?thesis by simp
  next
    case (Inr y)
    obtain i kd where y: "y = (i, kd)" by force
    have hit: "array_getguy (knowndevs s) i = Some kd" "kd_rawname kd \<noteq> None"
      using findmount_hit found Inr y by blast+
    have set: "table_wf s4" if "set_kd_fs i kd 0 s3 = Some s4" "knowndevs s3 = knowndevs s" "table_wf s3" for s3 s4
      using table_set_fs [OF that(3) _ hit(2) that(1)] hit(1) that(2) by simp
    show ?thesis
      using run found Inr y s hit(2)
      by (auto dest!: on_world_table intro: set split: Option.bind_split_asm sum.split_asm prod.split_asm if_split_asm)
  qed
qed

lemma unmount_try_wf:
  assumes get: "array_getguy (knowndevs s) i = Some kd" and wf: "table_wf s" and run: "unmount_try t i kd s = Some s1"
  shows "table_wf s1"
proof (cases "kd_rawname kd = None \<or> kd_fs kd = 0")
  case True
  then show ?thesis using run wf by (auto simp: unmount_try_def split: if_split_asm)
next
  case False
  then have raw: "kd_rawname kd \<noteq> None" by simp
  have set: "table_wf s4" if "set_kd_fs i kd 0 s3 = Some s4" "knowndevs s3 = knowndevs s" "table_wf s3" for s3 s4
    using table_set_fs [OF that(3) _ raw that(1)] get that(2) by simp
  obtain r a where a: "on_world (FSOP_SYNC t (kd_fs kd)) s = Some (r, a)"
    using run False by (auto simp: unmount_try_def split: Option.bind_split_asm)
  obtain r2 b where b: "(case r of Inl e \<Rightarrow> on_world (FSOP_SYNC t (kd_fs kd)) a | Inr u \<Rightarrow> Some (Inr u, a)) = Some (r2, b)"
    using run False a by (auto simp: unmount_try_def split: Option.bind_split_asm)
  have kept: "knowndevs b = knowndevs s" "table_wf b"
    using on_world_table [OF a] b wf by (auto dest: on_world_table split: sum.split_asm)
  show ?thesis
  proof (cases r2)
    case (Inl e)
    then show ?thesis using run False a b kept by (auto simp: unmount_try_def)
  next
    case (Inr u)
    obtain r3 c where c: "on_world (FSOP_UNMOUNT t (kd_fs kd)) b = Some (r3, c)"
      using run False a b Inr by (auto simp: unmount_try_def split: Option.bind_split_asm)
    then have rest: "(case r3 of Inl e \<Rightarrow> Some c | Inr _ \<Rightarrow> set_kd_fs i kd 0 c) = Some s1"
      using run False a b Inr by (auto simp: unmount_try_def)
    have "knowndevs c = knowndevs s" "table_wf c" using on_world_table [OF c] kept by simp_all
    with rest set show ?thesis by (cases r3) simp_all
  qed
qed

lemma stable_unmountall [stable_rules]: "stable devtable_ok (vfs_unmountall t)"
proof -
  have "unmountall_from t i n s = Some (r, s1) \<Longrightarrow> table_wf s \<Longrightarrow> table_wf s1" for i n s r s1
  proof (induction n arbitrary: i s)
    case (Suc n)
    then obtain dev s2 where "array_getguy (knowndevs s) i = Some dev" "unmount_try t i dev s = Some s2" "unmountall_from t (i + 1) n s2 = Some (r, s1)"
      by (auto simp: kmonad)
    with Suc.prems(2) Suc.IH unmount_try_wf show ?case by blast
  qed simp
  then show ?thesis
    unfolding vfs_unmountall_def by (intro devtable_locked) (auto simp: stable_def)
qed

text \<open>Adding an entry: \<open>badnames\<close> lets a name pass only when no entry has it.\<close>

lemma badnames_sound:
  assumes ok: "array_ok (knowndevs s)" and bound: "k + n = length (devs s)"
    and run: "badnames_from t n1 n2 n3 (int k) n s = Some False"
  shows "list_all (\<lambda>kd. \<forall>m \<in> set (kd_names kd). Some m \<noteq> n1 \<and> Some m \<noteq> n2 \<and> Some m \<noteq> n3) (drop k (devs s))"
  using bound run
proof (induction n arbitrary: k)
  case (Suc n)
  have k: "k < length (devs s)" using Suc.prems(1) by simp
  have get: "array_getguy (knowndevs s) (int k) = Some (devs s ! k)"
    using array_getguy_list [OF ok, of "int k"] k ok by (simp add: devs_def array_getnum_def)
  let ?kd = "devs s ! k"
  have here: "\<not> samestring3 (kd_rawname ?kd) n1 n2 n3" "\<not> samestring3 (Some (kd_name ?kd)) n1 n2 n3"
    and rest: "badnames_from t n1 n2 n3 (int k + 1) n s = Some False"
    using Suc.prems(2) get by (auto simp: kmonad split: if_split_asm)
  have "list_all (\<lambda>kd. \<forall>m \<in> set (kd_names kd). Some m \<noteq> n1 \<and> Some m \<noteq> n2 \<and> Some m \<noteq> n3) (drop (Suc k) (devs s))"
    using Suc.IH [of "Suc k"] Suc.prems(1) rest by (simp add: add.commute)
  moreover have "drop k (devs s) = ?kd # drop (Suc k) (devs s)" using k by (simp add: Cons_nth_drop_Suc)
  moreover have "\<forall>m \<in> set (kd_names ?kd). Some m \<noteq> n1 \<and> Some m \<noteq> n2 \<and> Some m \<noteq> n3"
    using here by (cases "kd_rawname ?kd") (auto simp: samestring3_def samestring_def kd_names_def split: if_splits)
  ultimately show ?case by simp
qed simp

lemma doadd_enter_keeps:
  assumes ok: "devtable_ok s" and bound: "length (devs s) < 2 ^ 28" and km: "kmalloc_ok (am_table mem)" and kd: "kd_ok kd"
    and run: "doadd_enter t mem kd volname s = Some (r, s1)"
  shows "devtable_ok s1"
proof -
  let ?s = "s\<lparr>knowndevs_lock := True\<rparr>"
  have arr: "array_ok (knowndevs s)" and free: "\<not> knowndevs_lock s" and wf: "table_wf s"
    using ok by (simp_all add: devtable_ok_def table_wf_def)
  have num: "nat (array_getnum (knowndevs s)) = length (devs s)" using arr by (simp add: devs_def array_getnum_def)
  obtain bad where bad: "badnames t (Some (kd_name kd)) (kd_rawname kd) volname ?s = Some bad"
    using run free by (auto simp: doadd_enter_def locked_def lock_table_def kmonad)
  show ?thesis
  proof (cases bad)
    case True
    then show ?thesis
      using run free bad ok by (auto simp: doadd_enter_def locked_def lock_table_def unlock_table_def devtable_ok_def kmonad)
  next
    case False
    have bn: "badnames_from t (Some (kd_name kd)) (kd_rawname kd) volname (int 0) (length (devs ?s)) ?s = Some False"
      using bad False num by (simp add: badnames_def devs_def)
    have new: "list_all (\<lambda>x. \<forall>m \<in> set (kd_names x). Some m \<noteq> Some (kd_name kd) \<and> Some m \<noteq> kd_rawname kd \<and> Some m \<noteq> volname) (devs s)"
      using badnames_sound [OF _ _ bn] arr by (simp add: devs_def)
    have eq: "doadd_enter t mem kd volname s = array_add (am_table mem) kd (knowndevs s) \<bind> (\<lambda>(err, a). Some (err, s\<lparr>knowndevs := a\<rparr>))"
      using free bad False by (auto simp: doadd_enter_def locked_def lock_table_def unlock_table_def split: Option.bind_splits)
    have small: "a_num (knowndevs s) < 2 ^ 28" using bound arr by (simp add: devs_def array_ok_def)
    show ?thesis
    proof (cases rule: array_add_cases [OF arr km small, of kd])
      case 1
      then show ?thesis using run ok by (simp add: eq devtable_ok_def table_wf_def devs_def)
    next
      case (2 a)
      have "distinct (concat (map kd_names (devs s @ [kd])))"
        using wf kd new by (auto simp: table_wf_def list_all_iff kd_names_def kd_ok_def bytes_of_def split: option.splits)
      then show ?thesis
        using 2 run wf kd free by (auto simp: eq devtable_ok_def table_wf_def devs_def)
    qed
  qed
qed

lemma doadd_keeps:
  assumes ok: "devtable_ok s" and bound: "length (devs s) < 2 ^ 28" and km: "kmalloc_ok (am_table mem)" and dev: "m \<or> f = 0 \<longrightarrow> d \<noteq> 0"
    and run: "vfs_doadd t mem n m d f s = Some (r, s1)"
  shows "devtable_ok s1"
proof -
  have w: "devtable_ok s2 \<and> devs s2 = devs s" if "on_world g s = Some (q, s2)" for g :: "'a \<Rightarrow> (nat option \<times> 'a) option" and q s2
    using that ok by (auto simp: on_world_def kmonad devtable_ok_def devs_def)
  have d: "devtable_ok s3" if "do_world g s2 = Some s3" "devtable_ok s2" for g s2 s3
    using that by (auto simp: do_world_def kmonad devtable_ok_def)
  have e: "devtable_ok s3" if "doadd_enter t mem kd vol s2 = Some (q, s3)" "devtable_ok s2" "devs s2 = devs s" "kd_ok kd" for kd vol s2 q s3
    using doadd_enter_keeps [OF that(2) _ km that(4,1)] bound that(3) by simp
  have kdm: "kd_ok \<lparr>kd_name = n, kd_rawname = Some y, kd_device = d, kd_vnode = v, kd_fs = g\<rparr>"
    if "m" "mkrawname b n = Some y" for v g y b
    using dev that by (auto simp: kd_ok_def mkrawname_def split: if_splits)
  have kdn: "kd_ok \<lparr>kd_name = n, kd_rawname = None, kd_device = d, kd_vnode = v, kd_fs = g\<rparr>" if "\<not> m" "g = f" for v g
    using dev that by (auto simp: kd_ok_def)
  show ?thesis
    using run ok unfolding vfs_doadd_def Let_def
    by (auto dest!: w intro: d e [OF _ _ _ kdm] e [OF _ _ _ kdn] split: Option.bind_split_asm option.split_asm if_split_asm prod.split_asm)
qed

section \<open>Runs\<close>

text \<open>
  The steps that change the VFS layer, for any file systems \<open>t\<close>: devices and hardwired file systems
  are added, volumes are mounted, and threads make the calls of \<open>vfs_exec\<close>. A caller of \<open>vfs_adddev\<close>
  has a device and one of \<open>vfs_addfs\<close> a file system, and \<open>2 ^ 28\<close> pointers do not fit into memory.
\<close>

inductive vfs_step :: "'w fsif \<Rightarrow> 'w vfs \<Rightarrow> 'w vfs \<Rightarrow> bool" for t where
  step_adddev: "d \<noteq> 0 \<Longrightarrow> kmalloc_ok (am_table mem) \<Longrightarrow> length (devs s) < 2 ^ 28 \<Longrightarrow>
    vfs_adddev t mem n d m s = Some (r, s1) \<Longrightarrow> vfs_step t s s1"
| step_addfs: "f \<noteq> 0 \<Longrightarrow> kmalloc_ok (am_table mem) \<Longrightarrow> length (devs s) < 2 ^ 28 \<Longrightarrow>
    vfs_addfs t mem n f s = Some (r, s1) \<Longrightarrow> vfs_step t s s1"
| step_mount: "vfs_mount n mountfunc s = Some (r, s1) \<Longrightarrow> vfs_step t s s1"
| step_call: "vfs_exec t c F s = Some (F1, s1) \<Longrightarrow> vfs_step t s s1"

definition vfs_start :: "'w vfs \<Rightarrow> bool" where
  "vfs_start s \<longleftrightarrow> array_create True = Some (knowndevs s) \<and> \<not> knowndevs_lock s"

lemma vfs_exec_keeps: "devtable_ok s \<Longrightarrow> vfs_exec t c F s = Some (F1, s1) \<Longrightarrow> devtable_ok s1"
  by (cases c) (auto simp: kmonad drop_result_def split: if_splits dest: stableD [rotated] stable0D [rotated] intro: stable_rules)

lemma vfs_step_keeps: "devtable_ok s \<Longrightarrow> vfs_step t s s1 \<Longrightarrow> devtable_ok s1"
proof (erule vfs_step.cases)
  show "devtable_ok s1" if "devtable_ok s" "s = s'" "s1 = s1'" "d \<noteq> 0" "kmalloc_ok (am_table mem)" "length (devs s') < 2 ^ 28"
    "vfs_adddev t mem n d m s' = Some (r, s1')" for d mem s' n m r s1'
    using doadd_keeps [of s mem m 0 d t n r s1] that by (simp add: vfs_adddev_def)
  show "devtable_ok s1" if "devtable_ok s" "s = s'" "s1 = s1'" "f \<noteq> 0" "kmalloc_ok (am_table mem)" "length (devs s') < 2 ^ 28"
    "vfs_addfs t mem n f s' = Some (r, s1')" for f mem s' n r s1'
    using doadd_keeps [of s mem False f 0 t n r s1] that by (simp add: vfs_addfs_def)
qed (use stableD [OF stable_mount] vfs_exec_keeps in blast)+

interpretation vfstable: invariant_of vfs_start "vfs_step t" devtable_ok for t
proof
  show "devtable_ok s" if "vfs_start s" for s :: "'a vfs"
  proof -
    have "knowndevs s = \<lparr>a_num = 0, a_max = 0, a_v = None\<rparr>" "\<not> knowndevs_lock s"
      using that by (simp_all add: vfs_start_def array_create_def)
    then show ?thesis
      by (simp add: devtable_ok_def table_wf_def devs_def array_ok_def array_list_def array_cells_def)
  qed
  show "devtable_ok s1" if "devtable_ok s" "vfs_step t s s1" for s s1 :: "'a vfs"
    using that by (rule vfs_step_keeps)
qed

section \<open>Finding a device\<close>

definition answers :: "'w fsif \<Rightarrow> byte list \<Rightarrow> 'w vfs \<Rightarrow> knowndev \<Rightarrow> bool" where
  "answers t n s kd \<longleftrightarrow> n \<in> set (kd_names kd) \<or> kd_fs kd \<noteq> 0 \<and> FSOP_GETVOLNAME t (kd_fs kd) (world s) = Some (Some n)"

lemma getroot_try_miss:
  assumes "\<not> answers t n s kd" and "kd_fs kd \<noteq> 0 \<longrightarrow> FSOP_GETVOLNAME t (kd_fs kd) (world s) \<noteq> None"
  shows "getroot_try t n kd s = Some (None, s)"
  using assms by (auto simp: getroot_try_def answers_def kd_names_def split: option.splits)

lemma getroot_skip:
  assumes ok: "array_ok (knowndevs s)" and "k \<le> j" and "j \<le> length (devs s)"
    and miss: "\<And>i. i < j \<Longrightarrow> \<not> answers t n s (devs s ! i)"
    and vol: "\<And>x. x \<in> set (devs s) \<Longrightarrow> kd_fs x \<noteq> 0 \<Longrightarrow> FSOP_GETVOLNAME t (kd_fs x) (world s) \<noteq> None"
  shows "getroot_from t n (int k) (length (devs s) - k) s = getroot_from t n (int j) (length (devs s) - j) s"
  using assms(2)
proof (induction "j - k" arbitrary: k)
  case (Suc d)
  have k: "k < j" "k < length (devs s)" using Suc.hyps(2) assms(3) by simp_all
  have get: "array_getguy (knowndevs s) (int k) = Some (devs s ! k)"
    using array_getguy_list [OF ok, of "int k"] k ok by (simp add: devs_def array_getnum_def)
  have n: "length (devs s) - k = Suc (length (devs s) - Suc k)" using k by simp
  have "getroot_try t n (devs s ! k) s = Some (None, s)"
    using getroot_try_miss miss [OF k(1)] vol [OF nth_mem [OF k(2)]] by blast
  then have "getroot_from t n (int k) (length (devs s) - k) s = getroot_from t n (int (Suc k)) (length (devs s) - Suc k) s"
    unfolding n by (simp add: get add.commute)
  also have "\<dots> = getroot_from t n (int j) (length (devs s) - j) s"
    using Suc.hyps k by (intro Suc.hyps(1)) simp_all
  finally show ?case .
qed simp

lemma unique_name:
  assumes "distinct (concat (map kd_names xs))" and "i < length xs" and "j < length xs" and "m \<in> set (kd_names (xs ! i))" and "m \<in> set (kd_names (xs ! j))"
  shows "i = j"
proof -
  have "[] \<notin> set (map kd_names xs)" by (auto simp: kd_names_def)
  then have "distinct (map kd_names xs)" using assms(1) by (simp add: distinct_concat_iff)
  moreover have "kd_names (xs ! i) \<in> set (map kd_names xs)" "kd_names (xs ! j) \<in> set (map kd_names xs)"
    using assms(2,3) by simp_all
  then have "kd_names (xs ! i) = kd_names (xs ! j)"
    using assms(1,4,5) unfolding distinct_concat_iff by blast
  ultimately show ?thesis using assms(2,3) by (auto simp: distinct_conv_nth)
qed

text \<open>The entry that answers is tried; what it returns is returned, with the lock free again.\<close>

lemma getroot_hit:
  assumes ok: "devtable_ok s" and j: "j < length (devs s)"
    and miss: "\<And>i. i < j \<Longrightarrow> \<not> answers t n s (devs s ! i)"
    and vol: "\<And>x. x \<in> set (devs s) \<Longrightarrow> kd_fs x \<noteq> 0 \<Longrightarrow> FSOP_GETVOLNAME t (kd_fs x) (world s) \<noteq> None"
    and hit: "\<And>r s1. getroot_try t n (devs s ! j) (s\<lparr>knowndevs_lock := True\<rparr>) = Some (r, s1) \<Longrightarrow> r \<noteq> None"
  shows "vfs_getroot t n s = map_option (\<lambda>(r, s1). (the r, s1\<lparr>knowndevs_lock := False\<rparr>)) (getroot_try t n (devs s ! j) (s\<lparr>knowndevs_lock := True\<rparr>))"
proof -
  let ?s = "s\<lparr>knowndevs_lock := True\<rparr>"
  have arr: "array_ok (knowndevs s)" and free: "\<not> knowndevs_lock s" using ok by (simp_all add: devtable_ok_def table_wf_def)
  have d: "devs ?s = devs s" by (simp add: devs_def)
  have num: "nat (array_getnum (knowndevs s)) = length (devs s)" using arr by (simp add: devs_def array_getnum_def)
  have "getroot_from t n (int 0) (length (devs ?s) - 0) ?s = getroot_from t n (int j) (length (devs ?s) - j) ?s"
    using arr j miss vol by (intro getroot_skip) (simp_all add: d answers_def)
  then have skip: "getroot_from t n 0 (length (devs s)) ?s = getroot_from t n (int j) (length (devs s) - j) ?s" by (simp add: d)
  have get: "array_getguy (knowndevs s) (int j) = Some (devs s ! j)"
    using array_getguy_list [OF arr, of "int j"] j arr by (simp add: devs_def array_getnum_def)
  have lk: "r \<noteq> None \<and> knowndevs_lock s1" if "getroot_try t n (devs s ! j) ?s = Some (r, s1)" for r s1
    using hit [OF that] that by (auto simp: getroot_try_def on_world_def do_world_def split: Option.bind_split_asm if_split_asm)
  have n: "length (devs s) - j = Suc (length (devs s) - Suc j)" using j by simp
  show ?thesis
    using free lk by (auto simp: vfs_getroot_def locked_def lock_table_def unlock_table_def num skip n get split: Option.bind_splits option.splits)
qed

lemma only_name:
  assumes ok: "devtable_ok s" and j: "j < length (devs s)" and n: "n \<in> set (kd_names (devs s ! j))"
    and vols: "\<forall>x \<in> set (devs s). kd_fs x \<noteq> 0 \<longrightarrow> (\<exists>v. FSOP_GETVOLNAME t (kd_fs x) (world s) = Some v \<and>
      (\<forall>y \<in> set (devs s). \<forall>m \<in> set (kd_names y). v = Some m \<longrightarrow> x = y \<and> m = kd_name y))"
    and i: "i < length (devs s)" and ans: "answers t n s (devs s ! i)"
  shows "i = j"
proof -
  have dist: "distinct (concat (map kd_names (devs s)))" using ok by (simp add: devtable_ok_def table_wf_def)
  have mem: "devs s ! i \<in> set (devs s)" "devs s ! j \<in> set (devs s)" using i j by simp_all
  show ?thesis
  proof (cases "n \<in> set (kd_names (devs s ! i))")
    case True
    then show ?thesis using unique_name [OF dist i j] n by simp
  next
    case False
    then have fs: "kd_fs (devs s ! i) \<noteq> 0" and vn: "FSOP_GETVOLNAME t (kd_fs (devs s ! i)) (world s) = Some (Some n)"
      using ans by (simp_all add: answers_def)
    have "\<forall>y \<in> set (devs s). \<forall>m \<in> set (kd_names y). Some n = Some m \<longrightarrow> devs s ! i = y \<and> m = kd_name y"
      using bspec [OF vols mem(1)] fs vn by auto
    then have "devs s ! i = devs s ! j" using mem(2) n by blast
    then show ?thesis using False n by simp
  qed
qed

lemma world_locked:
  assumes "\<not> knowndevs_lock s"
  shows "map_option (\<lambda>(r, s1). (g r, s1\<lparr>knowndevs_lock := False\<rparr>)) (on_world f (s\<lparr>knowndevs_lock := True\<rparr>)) = map_option (\<lambda>(r, s1). (g r, s1)) (on_world f s)"
    and "map_option (\<lambda>s1. s1\<lparr>knowndevs_lock := False\<rparr>) (do_world h (s\<lparr>knowndevs_lock := True\<rparr>)) = do_world h s"
  using assms by (cases s, auto simp: on_world_def do_world_def split: Option.bind_splits)+

lemma getroot_named:
  assumes ok: "devtable_ok s" and j: "j < length (devs s)" and n: "n \<in> set (kd_names (devs s ! j))"
    and vols: "\<forall>x \<in> set (devs s). kd_fs x \<noteq> 0 \<longrightarrow> (\<exists>v. FSOP_GETVOLNAME t (kd_fs x) (world s) = Some v \<and>
      (\<forall>y \<in> set (devs s). \<forall>m \<in> set (kd_names y). v = Some m \<longrightarrow> x = y \<and> m = kd_name y))"
  shows "vfs_getroot t n s = map_option (\<lambda>(r, s1). (the r, s1\<lparr>knowndevs_lock := False\<rparr>)) (getroot_try t n (devs s ! j) (s\<lparr>knowndevs_lock := True\<rparr>))"
proof (rule getroot_hit [OF ok j])
  show "\<not> answers t n s (devs s ! i)" if "i < j" for i
    using only_name [OF ok j n vols, of i] that j by auto
  show "FSOP_GETVOLNAME t (kd_fs x) (world s) \<noteq> None" if "x \<in> set (devs s)" "kd_fs x \<noteq> 0" for x
    using bspec [OF vols that(1)] that(2) by auto
  show "r \<noteq> None" if "getroot_try t n (devs s ! j) (s\<lparr>knowndevs_lock := True\<rparr>) = Some (r, s1)" for r s1
    using that n by (auto simp: getroot_try_def kd_names_def on_world_def do_world_def split: option.splits Option.bind_split_asm if_split_asm)
qed

text \<open>
  C27. \<open>vfs_getroot\<close> keeps the promise of the comment on \<open>struct knowndev\<close>. In a well-formed table in
  which no mounted volume has the name of another entry or a raw name, naming a device with a file system gives
  the root of that file system, naming a mountable device without one gives \<open>ENXIO\<close>, naming any
  other device or the raw name of a mountable one gives the vnode of the device with one more
  reference. No assertion fails on the way, and the lock is free afterwards.
\<close>

theorem vfs_getroot_documented:
  assumes ok: "devtable_ok s" and kd: "kd \<in> set (devs s)"
    and vols: "\<forall>x \<in> set (devs s). kd_fs x \<noteq> 0 \<longrightarrow> (\<exists>v. FSOP_GETVOLNAME t (kd_fs x) (world s) = Some v \<and>
      (\<forall>y \<in> set (devs s). \<forall>m \<in> set (kd_names y). v = Some m \<longrightarrow> x = y \<and> m = kd_name y))"
  shows "vfs_getroot t (kd_name kd) s =
      (if kd_fs kd \<noteq> 0 then map_option (\<lambda>(v, s1). (Inr v, s1)) (on_world (FSOP_GETROOT t (kd_fs kd)) s)
       else if kd_rawname kd \<noteq> None then Some (Inl ENXIO, s)
       else map_option (\<lambda>s1. (Inr (kd_vnode kd), s1)) (do_world (VOP_INCREF t (kd_vnode kd)) s)) \<and>
    (kd_rawname kd = Some r \<longrightarrow> vfs_getroot t r s = map_option (\<lambda>s1. (Inr (kd_vnode kd), s1)) (do_world (VOP_INCREF t (kd_vnode kd)) s))"
proof -
  obtain j where j: "j < length (devs s)" "devs s ! j = kd" using kd by (auto simp: in_set_conv_nth)
  have free: "\<not> knowndevs_lock s" and kdok: "kd_ok kd" using ok kd by (auto simp: devtable_ok_def table_wf_def list_all_iff)
  have unlock: "s\<lparr>knowndevs_lock := False\<rparr> = s" using free by (cases s) simp
  have v: "\<exists>v. FSOP_GETVOLNAME t (kd_fs kd) (world s) = Some v \<and> (kd_rawname kd = Some r \<longrightarrow> v \<noteq> Some r)" if fs: "kd_fs kd \<noteq> 0"
  proof -
    obtain v where v: "FSOP_GETVOLNAME t (kd_fs kd) (world s) = Some v" "\<forall>m \<in> set (kd_names kd). v = Some m \<longrightarrow> m = kd_name kd"
      using bspec [OF vols kd] fs kd by blast
    moreover have "r \<noteq> kd_name kd" if "kd_rawname kd = Some r" using kdok that by (auto simp: kd_ok_def bytes_of_def)
    ultimately show ?thesis by (auto simp: kd_names_def)
  qed
  note inc = world_locked(2) [OF free, of "VOP_INCREF t (kd_vnode kd)", symmetric]
  note root = world_locked(1) [OF free, of Inr "FSOP_GETROOT t (kd_fs kd)", symmetric]
  have name: "vfs_getroot t (kd_name kd) s = map_option (\<lambda>(r, s1). (the r, s1\<lparr>knowndevs_lock := False\<rparr>)) (getroot_try t (kd_name kd) kd (s\<lparr>knowndevs_lock := True\<rparr>))"
    using getroot_named [OF ok j(1) _ vols] j(2) by (simp add: kd_names_def)
  have raw: "vfs_getroot t r s = map_option (\<lambda>(r, s1). (the r, s1\<lparr>knowndevs_lock := False\<rparr>)) (getroot_try t r kd (s\<lparr>knowndevs_lock := True\<rparr>))"
    if "kd_rawname kd = Some r"
    using getroot_named [OF ok j(1) _ vols, of r] j(2) that by (simp add: kd_names_def)
  show ?thesis
  proof (intro conjI impI)
    show "vfs_getroot t (kd_name kd) s =
      (if kd_fs kd \<noteq> 0 then map_option (\<lambda>(v, s1). (Inr v, s1)) (on_world (FSOP_GETROOT t (kd_fs kd)) s)
       else if kd_rawname kd \<noteq> None then Some (Inl ENXIO, s)
       else map_option (\<lambda>s1. (Inr (kd_vnode kd), s1)) (do_world (VOP_INCREF t (kd_vnode kd)) s))"
    proof (cases "kd_fs kd = 0")
      case True
      then show ?thesis
        using kdok free
        by (cases "do_world (VOP_INCREF t (kd_vnode kd)) (s\<lparr>knowndevs_lock := True\<rparr>)") (auto simp: name getroot_try_def kd_ok_def unlock inc)
    next
      case False
      with v show ?thesis
        by (cases "on_world (FSOP_GETROOT t (kd_fs kd)) (s\<lparr>knowndevs_lock := True\<rparr>)") (auto simp: name getroot_try_def root)
    qed
    show "vfs_getroot t r s = map_option (\<lambda>s1. (Inr (kd_vnode kd), s1)) (do_world (VOP_INCREF t (kd_vnode kd)) s)" if r: "kd_rawname kd = Some r"
    proof -
      have "r \<noteq> kd_name kd" "kd_device kd \<noteq> 0" using kdok r by (auto simp: kd_ok_def bytes_of_def)
      moreover have "kd_fs kd \<noteq> 0 \<Longrightarrow> \<exists>v. FSOP_GETVOLNAME t (kd_fs kd) (world s) = Some v \<and> v \<noteq> Some r" using v r by blast
      ultimately show ?thesis
        using r
        by (cases "do_world (VOP_INCREF t (kd_vnode kd)) (s\<lparr>knowndevs_lock := True\<rparr>)"; cases "kd_fs kd = 0") (auto simp: raw [OF r] getroot_try_def inc)
    qed
  qed
qed

text \<open>
  C20. The device table stays well formed. In every state that the VFS layer can reach, for any file
  systems, the table is a proper array whose entries have distinct names and raw names, every raw
  name is the name with \<open>raw\<close> behind it, every mountable entry and every entry without a file
  system has a device, and the lock of the table is free between calls.
\<close>

theorem devtable_wellformed:
  assumes "reachable vfs_start (vfs_step t) s"
  shows "devtable_ok s"
  using assms by (rule vfstable.reachable_inv)

text \<open>Mounting on the entry \<open>i\<close> of the table changes its file system and nothing else of the table.\<close>

lemma mount_entry:
  assumes ok: "devtable_ok s" and i: "i < length (devs s)" and mountable: "kd_rawname (devs s ! i) \<noteq> None" "kd_fs (devs s ! i) = 0"
    and mount: "mountfunc (kd_device (devs s ! i)) (world s) = Some (Inr f, w)" "f \<noteq> 0"
  obtains s1 where "vfs_mount (kd_name (devs s ! i)) mountfunc s = Some (Inr (), s1)" and "devs s1 = (devs s)[i := (devs s ! i)\<lparr>kd_fs := f\<rparr>]" and "world s1 = w"
proof -
  let ?a = "devs s ! i" and ?P = "\<lambda>dev. kd_rawname dev \<noteq> None \<and> kd_name (devs s ! i) = kd_name dev"
  have arr: "array_ok (knowndevs s)" and free: "\<not> knowndevs_lock s" and a: "kd_ok ?a" and dist: "distinct (concat (map kd_names (devs s)))"
    using ok i by (auto simp: devtable_ok_def table_wf_def list_all_iff)
  have len: "a_num (knowndevs s) = int (length (devs s))" using array_ok_bounds [OF arr] by (simp add: devs_def arr)
  obtain hit where hit: "array_scan ?P (knowndevs s) = Some hit" using array_scan_returns [OF arr] by blast
  have "?a \<in> set (array_list (knowndevs s))" "?P ?a" using nth_mem [OF i] mountable by (simp_all add: devs_def)
  then have "array_scan ?P (knowndevs s) \<noteq> Some None" unfolding array_scan_none_iff [OF arr] by blast
  then have "hit \<noteq> None" using hit by auto
  then obtain ix kd where ix: "array_scan ?P (knowndevs s) = Some (Some (ix, kd))" using hit by auto
  have h: "0 \<le> ix" "nat ix < length (devs s)" "kd = devs s ! nat ix" "?P kd"
    using array_scan_hit [OF arr ix] len by (auto simp: devs_def array_getnum_def)
  have "nat ix = i" by (rule unique_name [OF dist h(2) i, of "kd_name ?a"]) (use h(3,4) in \<open>auto simp: kd_names_def\<close>)
  then have eq: "ix = int i" "kd = ?a" using h(1,3) by simp_all
  have scan: "array_scan ?P (knowndevs s) = Some (Some (int i, ?a))" using ix unfolding eq .
  obtain arr1 where set: "array_setguy (int i) (?a\<lparr>kd_fs := f\<rparr>) (knowndevs s) = Some arr1" "array_list arr1 = (devs s)[i := ?a\<lparr>kd_fs := f\<rparr>]"
    using array_setguy_list [OF arr, of "int i" "?a\<lparr>kd_fs := f\<rparr>"] len i by (auto simp: devs_def)
  have dev: "kd_device ?a \<noteq> 0" using a mountable by (simp add: kd_ok_def)
  have "vfs_mount (kd_name ?a) mountfunc s = Some (Inr (), s\<lparr>world := w, knowndevs := arr1\<rparr>)"
    using free scan mountable dev mount set(1)
    by (cases s) (simp add: vfs_mount_def locked_def lock_table_def unlock_table_def findmount_def on_world_def set_kd_fs_def)
  then show thesis by (rule that) (simp_all add: devs_def set(2))
qed

text \<open>
  C37. \<open>vfs_mount\<close> does not compare the name of the volume with the names of the devices, as adding a device
  does. Let an unmounted disk stand before another device in the table, and let the volume on it have the name of this
  device. Then mounting the disk succeeds, and from then on naming the device gives the root of the volume on the disk, as long as no other
  mounted volume has that name.
\<close>

theorem vfs_mount_shadows:
  assumes ok: "devtable_ok s" and order: "i < j" "j < length (devs s)" and mountable: "kd_rawname (devs s ! i) \<noteq> None" "kd_fs (devs s ! i) = 0"
    and mount: "mountfunc (kd_device (devs s ! i)) (world s) = Some (Inr f, w)" "f \<noteq> 0" and vol: "FSOP_GETVOLNAME t f w = Some (Some (kd_name (devs s ! j)))"
    and others: "\<forall>x \<in> set (devs s). kd_fs x \<noteq> 0 \<longrightarrow> (\<exists>v. FSOP_GETVOLNAME t (kd_fs x) w = Some v \<and> v \<noteq> Some (kd_name (devs s ! j)))"
  shows "\<exists>s1. vfs_mount (kd_name (devs s ! i)) mountfunc s = Some (Inr (), s1) \<and> devs s1 = (devs s)[i := (devs s ! i)\<lparr>kd_fs := f\<rparr>] \<and>
    vfs_getroot t (kd_name (devs s ! j)) s1 = map_option (\<lambda>(v, s2). (Inr v, s2)) (on_world (FSOP_GETROOT t f) s1)"
proof -
  let ?n = "kd_name (devs s ! j)" and ?a = "(devs s ! i)\<lparr>kd_fs := f\<rparr>"
  have i: "i < length (devs s)" using order by simp
  have dist: "distinct (concat (map kd_names (devs s)))" using ok by (simp add: devtable_ok_def table_wf_def)
  obtain s1 where run: "vfs_mount (kd_name (devs s ! i)) mountfunc s = Some (Inr (), s1)" and d1: "devs s1 = (devs s)[i := ?a]" and w1: "world s1 = w"
    by (rule mount_entry [where mountfunc = mountfunc, OF ok i mountable mount])
  have ok1: "devtable_ok s1" using stableD [OF stable_mount ok run] .
  then have free1: "\<not> knowndevs_lock s1" by (simp add: devtable_ok_def)
  have at: "devs s1 ! i = ?a" "length (devs s1) = length (devs s)" using i by (simp_all add: d1)
  have "vfs_getroot t ?n s1 = map_option (\<lambda>(r, s1). (the r, s1\<lparr>knowndevs_lock := False\<rparr>)) (getroot_try t ?n (devs s1 ! i) (s1\<lparr>knowndevs_lock := True\<rparr>))"
  proof (rule getroot_hit [OF ok1])
    show "i < length (devs s1)" using i at by simp
    show "\<not> answers t ?n s1 (devs s1 ! k)" if k: "k < i" for k
    proof -
      have "?n \<in> set (kd_names (devs s ! j))" by (simp add: kd_names_def)
      then have "?n \<notin> set (kd_names (devs s ! k))" using unique_name [OF dist _ order(2), of k ?n] k order by auto
      moreover have "devs s ! k \<in> set (devs s)" using k i by simp
      ultimately show ?thesis using others k by (auto simp: answers_def d1 w1)
    qed
    show "FSOP_GETVOLNAME t (kd_fs x) (world s1) \<noteq> None" if "x \<in> set (devs s1)" "kd_fs x \<noteq> 0" for x
    proof -
      have "x = ?a \<or> x \<in> set (devs s)" using that(1) set_update_subset_insert [of "devs s" i ?a] unfolding d1 by blast
      then show ?thesis using that(2) others vol by (auto simp: w1)
    qed
    show "r \<noteq> None" if "getroot_try t ?n (devs s1 ! i) (s1\<lparr>knowndevs_lock := True\<rparr>) = Some (r, s2)" for r s2
      using that vol mount(2) by (auto simp: at getroot_try_def w1 kmonad)
  qed
  also have "\<dots> = map_option (\<lambda>(v, s2). (Inr v, s2)) (on_world (FSOP_GETROOT t f) s1)"
    using vol mount(2) by (cases "on_world (FSOP_GETROOT t f) (s1\<lparr>knowndevs_lock := True\<rparr>)")
      (auto simp: at getroot_try_def w1 world_locked(1) [OF free1, of Inr "FSOP_GETROOT t f", symmetric])
  finally show ?thesis using run d1 by blast
qed

section \<open>Examples\<close>

definition null_entry :: knowndev where
  "null_entry = \<lparr>kd_name = bytes_of ''null'', kd_rawname = None, kd_device = 32, kd_vnode = 64, kd_fs = 0\<rparr>"

definition add_mem :: addmem where
  "add_mem = \<lparr>am_name = True, am_rawname = True, am_kd = True, am_table = (\<lambda>n. Some (replicate (n div 4) null_entry))\<rparr>"

definition bare_world :: kworld where
  "bare_world = \<lparr>kw_dev = (\<lambda>_. None), kw_dvn = (\<lambda>_. None), kw_vol = [], kw_vmem = [], kw_newvn = [(64, True)]\<rparr>"

definition bare_vfs :: "kworld vfs" where
  "bare_vfs = \<lparr>knowndevs = \<lparr>a_num = 0, a_max = 0, a_v = None\<rparr>, knowndevs_lock = False, bootfs_vnode = None, bootfs_lock = False, t_cwd = None,
     world = bare_world\<lparr>kw_dev := [32 \<mapsto> null_device]\<rparr>\<rparr>"

definition null_vfs :: "kworld vfs" where
  "null_vfs = bare_vfs\<lparr>knowndevs := \<lparr>a_num = 1, a_max = 2, a_v = Some [null_entry, null_entry]\<rparr>,
     world := bare_world\<lparr>kw_dev := [32 \<mapsto> null_device], kw_dvn := [64 \<mapsto> \<lparr>dv_refcount = 1, dv_opencount = 0, dv_device = 32\<rparr>], kw_newvn := []\<rparr>\<rparr>"

lemma growmax_1: "array_growmax 1 0 = Some 2"
  by (subst array_growmax.simps, simp)+

lemma null_added: "vfs_adddev kernel_if add_mem (bytes_of ''null'') 32 False bare_vfs = Some (Inr (), null_vfs)"
  by (simp add: vfs_adddev_def vfs_doadd_def add_mem_def bare_vfs_def null_vfs_def on_world_def kernel_if_def create_vnode_def bare_world_def
      doadd_enter_def locked_def lock_table_def unlock_table_def badnames_def array_getnum_def array_add_def array_setsize_def array_preallocate_def
      growmax_1 ptr_bytes_def put_dvn_def null_entry_def numeral_2_eq_2 array_copy.simps)

lemma null_booted:
  "vfs_bootstrap \<lparr>boot_array = True, boot_locks = (True, True), boot_null = Some 32, boot_add = add_mem\<rparr> bare_world = Some null_vfs"
  using null_added by (simp add: vfs_bootstrap_def array_create_def devnull_create_def bare_vfs_def bare_world_def)

lemma null_reachable: "reachable vfs_start (vfs_step kernel_if) null_vfs"
proof (rule reach_next)
  show "reachable vfs_start (vfs_step kernel_if) bare_vfs"
    by (rule reach_start) (simp add: vfs_start_def bare_vfs_def array_create_def)
  show "vfs_step kernel_if bare_vfs null_vfs"
    by (rule step_adddev [OF _ _ _ null_added])
      (simp_all add: add_mem_def kmalloc_ok_def devs_def bare_vfs_def array_list_def array_cells_def)
qed

theorem devtable_wellformed_witness: "devtable_ok null_vfs"
  by (rule devtable_wellformed [OF null_reachable])

theorem vfs_getroot_documented_witness:
  "vfs_getroot kernel_if (bytes_of ''null'') null_vfs = map_option (\<lambda>s1. (Inr 64, s1)) (do_world (VOP_INCREF kernel_if 64) null_vfs)"
proof -
  have d: "devs null_vfs = [null_entry]" by (simp add: devs_def null_vfs_def array_list_def array_cells_def)
  have "devtable_ok null_vfs" by (rule vfstable.reachable_inv [OF null_reachable])
  from vfs_getroot_documented [OF this, of null_entry kernel_if] show ?thesis
    by (simp add: d) (simp add: null_entry_def)
qed

text \<open>
  A kernel with two disks of 100 sectors, the first one with the sectors \<open>d\<close>: starting the VFS layer enters the null device, then
  the disks are attached.
\<close>

definition disk_with :: "(nat \<Rightarrow> byte list) \<Rightarrow> lhd_softc" where
  "disk_with d = (sfs_device small_fs)\<lparr>hw_sect := d\<rparr>"

definition boot_mem :: bootmem where
  "boot_mem = \<lparr>boot_array = True, boot_locks = (True, True), boot_null = Some 32, boot_add = add_mem\<rparr>"

definition boot_disks :: "(nat \<Rightarrow> byte list) \<Rightarrow> kworld vfs option" where
  "boot_disks d = do {
     s \<leftarrow> vfs_bootstrap boot_mem (bare_world\<lparr>kw_vmem := [good_mem], kw_newvn := [(64, True), (80, True), (96, True)]\<rparr>);
     (r, s1) \<leftarrow> attach_lhd True True add_mem 0 100 33 (disk_with d) s;
     (r1, s2) \<leftarrow> attach_lhd True True add_mem 1 100 34 (sfs_device small_fs) s1;
     Some s2
   }"

definition lhd_entry :: "string \<Rightarrow> nat \<Rightarrow> nat \<Rightarrow> knowndev" where
  "lhd_entry n d v = \<lparr>kd_name = bytes_of n, kd_rawname = Some (bytes_of n @ bytes_of ''raw''), kd_device = d, kd_vnode = v, kd_fs = 0\<rparr>"

definition disks_vfs :: "(nat \<Rightarrow> byte list) \<Rightarrow> kworld vfs" where
  "disks_vfs d = bare_vfs\<lparr>knowndevs := \<lparr>a_num = 3, a_max = 6, a_v = Some [null_entry, lhd_entry ''lhd0'' 33 80, lhd_entry ''lhd1'' 34 96, null_entry, null_entry, null_entry]\<rparr>,
     world := \<lparr>kw_dev = [32 \<mapsto> null_device, 33 \<mapsto> lhd_device (disk_with d), 34 \<mapsto> lhd_device (sfs_device small_fs)],
       kw_dvn = [64 \<mapsto> \<lparr>dv_refcount = 1, dv_opencount = 0, dv_device = 32\<rparr>, 80 \<mapsto> \<lparr>dv_refcount = 1, dv_opencount = 0, dv_device = 33\<rparr>,
         96 \<mapsto> \<lparr>dv_refcount = 1, dv_opencount = 0, dv_device = 34\<rparr>],
       kw_vol = [], kw_vmem = [good_mem], kw_newvn = []\<rparr>\<rparr>"

lemma growmax_3: "array_growmax 3 2 = Some 6"
  by (subst array_growmax.simps, simp)+

lemma config_small: "config_lhd True True 100 (disk_with d) = Inr (disk_with d)" "config_lhd True True 100 (sfs_device small_fs) = Inr (sfs_device small_fs)"
  by (simp_all add: config_lhd_def disk_with_def small_fs_def some_disk_def LHD_SECTSIZE_def)

lemma decimal_small: "decimal 0 = bytes_of ''0''" "decimal 1 = bytes_of ''1''"
  by (simp_all add: decimal.simps bytes_of_def)

lemmas adddev_defs = vfs_adddev_def vfs_doadd_def on_world_def create_vnode_def doadd_enter_def locked_def lock_table_def unlock_table_def badnames_def
  array_getnum_def array_add_def array_setsize_def array_preallocate_def ptr_bytes_def put_dvn_def array_copy.simps

definition boot_world :: kworld where
  "boot_world = bare_world\<lparr>kw_vmem := [good_mem], kw_newvn := [(64, True), (80, True), (96, True)]\<rparr>"

definition started_vfs :: "kworld vfs" where
  "started_vfs = null_vfs\<lparr>world := (world null_vfs)\<lparr>kw_vmem := [good_mem], kw_newvn := [(80, True), (96, True)]\<rparr>\<rparr>"

lemma started_run: "vfs_bootstrap boot_mem boot_world = Some started_vfs"
  by (simp add: vfs_bootstrap_def boot_mem_def array_create_def devnull_create_def boot_world_def started_vfs_def null_vfs_def bare_vfs_def bare_world_def
      adddev_defs kernel_if_def add_mem_def growmax_1 null_entry_def numeral_2_eq_2)

definition one_disk :: "(nat \<Rightarrow> byte list) \<Rightarrow> kworld vfs" where
  "one_disk d = started_vfs\<lparr>knowndevs := \<lparr>a_num = 2, a_max = 2, a_v = Some [null_entry, lhd_entry ''lhd0'' 33 80]\<rparr>,
     world := (world started_vfs)\<lparr>kw_dev := [32 \<mapsto> null_device, 33 \<mapsto> lhd_device (disk_with d)], kw_newvn := [(96, True)],
       kw_dvn := [64 \<mapsto> \<lparr>dv_refcount = 1, dv_opencount = 0, dv_device = 32\<rparr>, 80 \<mapsto> \<lparr>dv_refcount = 1, dv_opencount = 0, dv_device = 33\<rparr>]\<rparr>\<rparr>"

lemma null_names: "null_entry = \<lparr>kd_name = [110, 117, 108, 108], kd_rawname = None, kd_device = 32, kd_vnode = 64, kd_fs = 0\<rparr>"
  by (simp add: null_entry_def bytes_of_def)

lemma lhd0_names: "lhd_entry ''lhd0'' 33 80 = \<lparr>kd_name = [108, 104, 100, 48], kd_rawname = Some [108, 104, 100, 48, 114, 97, 119], kd_device = 33, kd_vnode = 80, kd_fs = 0\<rparr>"
  by (simp add: lhd_entry_def bytes_of_def)

lemma lhd1_names: "lhd_entry ''lhd1'' 34 96 = \<lparr>kd_name = [108, 104, 100, 49], kd_rawname = Some [108, 104, 100, 49, 114, 97, 119], kd_device = 34, kd_vnode = 96, kd_fs = 0\<rparr>"
  by (simp add: lhd_entry_def bytes_of_def)

text \<open>Adding a disk whose names are new.\<close>

lemma adddev_new:
  assumes "\<not> knowndevs_lock s" and "kw_newvn (world s) = (v, True) # vs" and "am_name mem" "am_rawname mem" "am_kd mem"
    and "badnames kernel_if (Some n) (Some (n @ bytes_of ''raw'')) None (s\<lparr>knowndevs_lock := True, world := w\<rparr>) = Some False"
    and "array_add (am_table mem) \<lparr>kd_name = n, kd_rawname = Some (n @ bytes_of ''raw''), kd_device = d, kd_vnode = v, kd_fs = 0\<rparr> (knowndevs s) = Some (Inr (), arr)"
    and "w = put_dvn v \<lparr>dv_refcount = 1, dv_opencount = 0, dv_device = d\<rparr> ((world s)\<lparr>kw_newvn := vs\<rparr>)"
  shows "vfs_adddev kernel_if mem n d True s = Some (Inr (), s\<lparr>world := w, knowndevs := arr\<rparr>)"
  using assms by (cases s) (simp add: vfs_adddev_def vfs_doadd_def mkrawname_def on_world_def create_vnode_def doadd_enter_def locked_def lock_table_def unlock_table_def
      kernel_if_def Let_def)

lemma lhd0_bad: "badnames kernel_if (Some [108, 104, 100, 48]) (Some [108, 104, 100, 48, 114, 97, 119]) None (started_vfs\<lparr>knowndevs_lock := True, world := w\<rparr>) = Some False"
  by (simp add: badnames_def started_vfs_def null_vfs_def array_getnum_def array_getguy_def samestring3_def samestring_def null_names)

lemma lhd0_add: "array_add (am_table add_mem) (lhd_entry ''lhd0'' 33 80) (knowndevs started_vfs) = Some (Inr (), \<lparr>a_num = 2, a_max = 2, a_v = Some [null_entry, lhd_entry ''lhd0'' 33 80]\<rparr>)"
  by (simp add: started_vfs_def null_vfs_def array_add_def array_setsize_def)

lemma lhd0_run: "attach_lhd True True add_mem 0 100 33 (disk_with d) started_vfs = Some (Inr (), one_disk d)"
proof -
  have n: "bytes_of ''lhd'' @ decimal 0 = [108, 104, 100, 48]" by (simp add: decimal_small bytes_of_def)
  have e: "lhd_entry ''lhd0'' 33 80 = \<lparr>kd_name = [108, 104, 100, 48], kd_rawname = Some ([108, 104, 100, 48] @ bytes_of ''raw''), kd_device = 33, kd_vnode = 80, kd_fs = 0\<rparr>"
    by (simp add: lhd_entry_def bytes_of_def)
  have raw: "[108, 104, 100, 48] @ bytes_of ''raw'' = [108, 104, 100, 48, 114, 97, 119]" by (simp add: bytes_of_def)
  let ?s = "started_vfs\<lparr>world := (world started_vfs)\<lparr>kw_dev := (kw_dev (world started_vfs))(33 \<mapsto> lhd_device (disk_with d))\<rparr>\<rparr>"
  have "vfs_adddev kernel_if add_mem [108, 104, 100, 48] 33 True ?s = Some (Inr (), ?s\<lparr>world := world (one_disk d), knowndevs := knowndevs (one_disk d)\<rparr>)"
  proof (rule adddev_new [where v = 80 and vs = "[(96, True)]"])
    show "array_add (am_table add_mem) \<lparr>kd_name = [108, 104, 100, 48], kd_rawname = Some ([108, 104, 100, 48] @ bytes_of ''raw''), kd_device = 33, kd_vnode = 80, kd_fs = 0\<rparr>
        (knowndevs ?s) = Some (Inr (), knowndevs (one_disk d))"
      using lhd0_add unfolding e by (simp add: one_disk_def e)
    show "badnames kernel_if (Some [108, 104, 100, 48]) (Some ([108, 104, 100, 48] @ bytes_of ''raw'')) None (?s\<lparr>knowndevs_lock := True, world := world (one_disk d)\<rparr>) = Some False"
      unfolding raw using lhd0_bad by simp
    show "world (one_disk d) = put_dvn 80 \<lparr>dv_refcount = 1, dv_opencount = 0, dv_device = 33\<rparr> ((world ?s)\<lparr>kw_newvn := [(96, True)]\<rparr>)"
      by (simp add: one_disk_def put_dvn_def started_vfs_def null_vfs_def bare_world_def)
  qed (simp_all add: started_vfs_def null_vfs_def bare_vfs_def add_mem_def bare_world_def)
  then show ?thesis by (simp add: attach_lhd_def n config_small(1)) (simp add: one_disk_def)
qed

lemma lhd1_bad: "badnames kernel_if (Some [108, 104, 100, 49]) (Some [108, 104, 100, 49, 114, 97, 119]) None ((one_disk d)\<lparr>knowndevs_lock := True, world := w\<rparr>) = Some False"
  by (simp add: badnames_def one_disk_def array_getnum_def array_getguy_def samestring3_def samestring_def null_names lhd0_names numeral_2_eq_2)

lemma copy_two: "array_copy 0 2 (Some [a, b]) [x, x, x, x, x, x] = Some [a, b, x, x, x, x]"
  by (subst array_copy.simps, simp)+

lemma lhd1_add: "array_add (am_table add_mem) (lhd_entry ''lhd1'' 34 96) (knowndevs (one_disk d)) = Some (Inr (), knowndevs (disks_vfs d))"
proof -
  have "ptr_bytes 6 = 24" "replicate 6 null_entry = [null_entry, null_entry, null_entry, null_entry, null_entry, null_entry]"
    by (simp_all add: ptr_bytes_def, simp add: numeral_eq_Suc)
  then have six: "am_table add_mem (ptr_bytes 6) = Some [null_entry, null_entry, null_entry, null_entry, null_entry, null_entry]"
    by (simp add: add_mem_def)
  show ?thesis by (simp add: one_disk_def disks_vfs_def array_add_def array_setsize_def array_preallocate_def growmax_3 six copy_two)
qed

lemma lhd1_run: "attach_lhd True True add_mem 1 100 34 (sfs_device small_fs) (one_disk d) = Some (Inr (), disks_vfs d)"
proof -
  have n: "bytes_of ''lhd'' @ decimal (Suc 0) = [108, 104, 100, 49]" using decimal_small(2) by (simp add: bytes_of_def)
  have e: "lhd_entry ''lhd1'' 34 96 = \<lparr>kd_name = [108, 104, 100, 49], kd_rawname = Some ([108, 104, 100, 49] @ bytes_of ''raw''), kd_device = 34, kd_vnode = 96, kd_fs = 0\<rparr>"
    by (simp add: lhd_entry_def bytes_of_def)
  have raw: "[108, 104, 100, 49] @ bytes_of ''raw'' = [108, 104, 100, 49, 114, 97, 119]" by (simp add: bytes_of_def)
  let ?s = "(one_disk d)\<lparr>world := (world (one_disk d))\<lparr>kw_dev := (kw_dev (world (one_disk d)))(34 \<mapsto> lhd_device (sfs_device small_fs))\<rparr>\<rparr>"
  have "vfs_adddev kernel_if add_mem [108, 104, 100, 49] 34 True ?s = Some (Inr (), ?s\<lparr>world := world (disks_vfs d), knowndevs := knowndevs (disks_vfs d)\<rparr>)"
  proof (rule adddev_new [where v = 96 and vs = "[]"])
    show "array_add (am_table add_mem) \<lparr>kd_name = [108, 104, 100, 49], kd_rawname = Some ([108, 104, 100, 49] @ bytes_of ''raw''), kd_device = 34, kd_vnode = 96, kd_fs = 0\<rparr>
        (knowndevs ?s) = Some (Inr (), knowndevs (disks_vfs d))"
      using lhd1_add unfolding e by simp
    show "badnames kernel_if (Some [108, 104, 100, 49]) (Some ([108, 104, 100, 49] @ bytes_of ''raw'')) None (?s\<lparr>knowndevs_lock := True, world := world (disks_vfs d)\<rparr>) = Some False"
      unfolding raw using lhd1_bad by simp
    show "world (disks_vfs d) = put_dvn 96 \<lparr>dv_refcount = 1, dv_opencount = 0, dv_device = 34\<rparr> ((world ?s)\<lparr>kw_newvn := []\<rparr>)"
      by (simp add: one_disk_def disks_vfs_def put_dvn_def started_vfs_def null_vfs_def bare_world_def)
  qed (simp_all add: one_disk_def started_vfs_def null_vfs_def bare_vfs_def add_mem_def bare_world_def)
  then show ?thesis by (simp add: attach_lhd_def n config_small(2)) (simp add: one_disk_def disks_vfs_def started_vfs_def null_vfs_def)
qed

lemma boot_disks_run: "boot_disks d = Some (disks_vfs d)"
  using started_run lhd0_run lhd1_run by (simp add: boot_disks_def boot_world_def)

text \<open>The root of a volume that was just made and mounted.\<close>

lemma fresh_root:
  assumes "dir_wf fs (dec_inode (disk fs 1))" and "fs_used fs = made_used 100" and "sfs_super fs = made_super name 100"
    and "array_ok (sfs_vnodes fs)" and "array_getnum (sfs_vnodes fs) = 0" and "sfs_mem fs = (\<lambda>_. None)"
  obtains fs' where "sfs_getroot good_mem fs = Some (80, fs')" and "sfs_mem fs' = [80 \<mapsto> new_vnode 1 (dec_inode (disk fs 1)) False]"
proof -
  have l: "loaded fs = []" using length_array_list [OF assms(4)] assms(5) by (simp add: loaded_def array_getnum_def)
  have t: "table_ok fs" using dir_wfD(1) [OF assms(1)] assms(4) by (simp add: table_ok_def l)
  have one: "1 \<in> fs_used fs" "1 < sp_nblocks (sfs_super fs)" using assms(2,3) by (simp_all add: made_used_def made_super_def)
  have type: "sfi_type (dec_inode (disk fs 1)) = SFS_TYPE_FILE \<or> sfi_type (dec_inode (disk fs 1)) = SFS_TYPE_DIR"
    using dir_wfD(3) [OF assms(1)] by simp
  have fresh: "length (loaded fs) < 2 ^ 28" "\<forall>v. vm_addr good_mem = Some v \<longrightarrow> v \<notin> set (loaded fs)"
      "\<forall>v sv. sfs_mem fs v = Some sv \<longrightarrow> vn_refcount sv < 2 ^ 31 - 1" by (simp_all add: l assms(6))
  obtain fs' where "sfs_loadvnode good_mem 1 SFS_TYPE_INVAL fs = Some (Inr 80, fs')" "sfs_mem fs' = [80 \<mapsto> new_vnode 1 (dec_inode (disk fs 1)) False]"
    using loadvnode_result [OF t one good_mem_ok(2) fresh type] good_mem_ok(1,3) unfolding l assms(6) by auto
  then show thesis by (intro that) (simp_all add: sfs_getroot_def SFS_ROOT_LOCATION_def)
qed

lemma disks_devs: "devs (disks_vfs d) = [null_entry, lhd_entry ''lhd0'' 33 80, lhd_entry ''lhd1'' 34 96]"
  by (simp add: devs_def disks_vfs_def array_list_def array_cells_def numeral_3_eq_3)

lemma disks_ok: "devtable_ok (disks_vfs d)"
  unfolding devtable_ok_def table_wf_def disks_devs
  by (simp add: disks_vfs_def bare_vfs_def array_ok_def array_cells_def kd_ok_def kd_names_def null_names lhd0_names lhd1_names bytes_of_def)

theorem vfs_mount_shadows_witness:
  "\<exists>d s s1 s2. mksfs (\<lambda>k n. n) (bytes_of ''lhd1:'') 51200 (hw_sect (sfs_device small_fs)) = Some (True, d) \<and> boot_disks d = Some s \<and>
    sfs_mount some_mem 8 (bytes_of ''lhd0'') s = Some (Inr (), s1) \<and> map kd_fs (devs s1) = [0, 8, 0] \<and>
    vfs_getroot kernel_if (bytes_of ''lhd1'') s1 = Some (Inr 80, s2) \<and> vn_owner 80 (world s2) = Some 8"
proof -
  let ?dev = "sfs_device small_fs" and ?name = "[108, 104, 100, 49] :: byte list"
  have dev: "lhd_ok ?dev" "fault_free ?dev" "d_blocksize ?dev = 512" "d_blocks ?dev = 100"
    using dirty_fs_ok by (simp_all add: volume_ok_def healthy_def dirty_fs_def) (simp add: small_fs_def some_disk_def)
  have nm: "volume_name (bytes_of ''lhd1:'') = Some ?name" by (simp add: volume_name_def bytes_of_def)
  have b: "SFS_BITBLOCKS (d_blocks ?dev) \<le> 32" "2 + SFS_BITBLOCKS (d_blocks ?dev) \<le> d_blocks ?dev"
    unfolding dev(4) by (simp_all add: SFS_BITBLOCKS_def SFS_BITMAPSIZE_def SFS_ROUNDUP_def SFS_BLOCKBITS_def SFS_BLOCKSIZE_def)
  have mem: "mount_enough some_mem" "kmalloc_bytes_ok (mm_bits some_mem)" "write_ok (\<lambda>k n. n)"
    by (simp_all add: mount_enough_def some_mem_def kmalloc_bytes_ok_def write_ok_def)
  obtain d fs dev' where m: "mksfs (\<lambda>k n. n) (bytes_of ''lhd1:'') 51200 (hw_sect ?dev) = Some (True, d)" "sfs_domount some_mem (disk_with d) = Some (Inr fs, dev')"
      "dir_wf fs (dec_inode (disk fs 1))" "cstr (sp_volname (sfs_super fs)) = ?name" "fs_used fs = made_used 100" "sfs_super fs = made_super ?name 100"
      "sfs_device fs = dev'" "array_ok (sfs_vnodes fs)" "array_getnum (sfs_vnodes fs) = 0" "sfs_mem fs = (\<lambda>_. None)"
    using mksfs_mounted [OF dev(1-3) mem(3) nm _ _ b mem(2)] mem(1) unfolding dev(4) disk_with_def by (fastforce split: sum.splits)
  let ?s = "disks_vfs d" and ?vol = "\<lparr>vol_dev = 33, vol_sfs = fs\<rparr>"
  define w where "w = (put_disk 33 dev' (world ?s))\<lparr>kw_vol := [(8, ?vol)]\<rparr>"
  have dom: "domount_on some_mem 8 33 (world ?s) = Some (Inr 8, w)"
    using m(2) by (simp add: domount_on_def w_def disks_vfs_def lhd_device_def put_disk_def)
  obtain fs' where root: "sfs_getroot good_mem fs = Some (80, fs')" "sfs_mem fs' = [80 \<mapsto> new_vnode 1 (dec_inode (disk fs 1)) False]"
    by (rule fresh_root [OF m(3,5,6,8-10)])
  have names: "devs ?s ! 1 = lhd_entry ''lhd0'' 33 80" "devs ?s ! 2 = lhd_entry ''lhd1'' 34 96" "length (devs ?s) = 3" by (simp_all add: disks_devs)
  have vol: "FSOP_GETVOLNAME kernel_if 8 w = Some (Some (kd_name (devs ?s ! 2)))"
    using m(4) by (simp add: kernel_if_def w_def sfs_getvolname_def cstring_def cstr_def names lhd1_names)
  have dom': "domount_on some_mem 8 (kd_device (devs ?s ! 1)) (world ?s) = Some (Inr 8, w)" using dom by (simp add: disks_devs lhd0_names)
  have free: "kd_rawname (devs ?s ! 1) \<noteq> None" "kd_fs (devs ?s ! 1) = 0" "1 < length (devs ?s)" by (simp_all add: disks_devs lhd0_names)
  obtain s1 where s1: "vfs_mount (kd_name (devs ?s ! 1)) (domount_on some_mem 8) ?s = Some (Inr (), s1)" "world s1 = w"
    by (rule mount_entry [where mountfunc = "domount_on some_mem 8", OF disks_ok free(3,1,2) dom']) simp_all
  have "\<forall>x \<in> set (devs ?s). kd_fs x \<noteq> 0 \<longrightarrow> (\<exists>v. FSOP_GETVOLNAME kernel_if (kd_fs x) w = Some v \<and> v \<noteq> Some (kd_name (devs ?s ! 2)))"
    by (simp add: disks_devs null_names lhd0_names lhd1_names)
  then have sh: "devs s1 = (devs ?s)[1 := (devs ?s ! 1)\<lparr>kd_fs := 8\<rparr>]"
      "vfs_getroot kernel_if (kd_name (devs ?s ! 2)) s1 = map_option (\<lambda>(v, s2). (Inr v, s2)) (on_world (FSOP_GETROOT kernel_if 8) s1)"
    using vfs_mount_shadows [where mountfunc = "domount_on some_mem 8", OF disks_ok _ _ free(1,2) dom' _ vol] s1(1) by (simp_all add: disks_devs)
  have "fs\<lparr>sfs_device := dev'\<rparr> = fs" using m(7) by (cases fs) simp
  then have "\<exists>w'. FSOP_GETROOT kernel_if 8 w = Some (80, w') \<and> vn_owner 80 w' = Some 8"
    using root by (simp add: kernel_if_def volume_root_def next_vmem_def on_volume_def get_disk_def w_def put_disk_def put_volume_def disks_vfs_def lhd_device_def vn_owner_def)
  moreover have n: "kd_name (devs ?s ! 1) = bytes_of ''lhd0''" "kd_name (devs ?s ! 2) = bytes_of ''lhd1''" by (simp_all add: disks_devs lhd0_names lhd1_names bytes_of_def)
  moreover have "map kd_fs (devs s1) = [0, 8, 0]" using sh(1) by (simp add: disks_devs null_names lhd0_names lhd1_names)
  ultimately show ?thesis using m(1) boot_disks_run [of d] s1 sh(2) unfolding sfs_mount_def by (auto simp: on_world_def n)
qed

end
