(* ===== verification/LibcMem.thy ===== *)
theory LibcMem
  imports KPrelude
begin

text \<open>
  The memory functions the kernel takes from the C library (\<open>lib/libc/memcpy.c\<close>, \<open>memmove.c\<close>,
  \<open>bzero.c\<close>) on a memory of bytes. Addresses are numbers; like the code, the model does not
  consider a block that rolls over the top of the address space.
\<close>

section \<open>Operations\<close>

type_synonym memory = "nat \<Rightarrow> 8 word"

text \<open>One assignment of an object of \<open>k\<close> bytes at \<open>s\<close> to the object at \<open>d\<close>: all bytes are read before any is written.\<close>

definition assign :: "nat \<Rightarrow> nat \<Rightarrow> nat \<Rightarrow> memory \<Rightarrow> memory" where
  "assign k d s m = (\<lambda>a. if d \<le> a \<and> a < d + k then m (s + (a - d)) else m a)"

text \<open>The loops \<open>for (i=0; ...; i++) d[i] = s[i]\<close> and \<open>for (i=n; i>0; i--) d[i-1] = s[i-1]\<close> over objects of \<open>k\<close> bytes.\<close>

primrec copy_up :: "nat \<Rightarrow> nat \<Rightarrow> nat \<Rightarrow> nat \<Rightarrow> nat \<Rightarrow> memory \<Rightarrow> memory" where
  "copy_up k i 0 d s m = m"
| "copy_up k i (Suc n) d s m = copy_up k (i + 1) n d s (assign k (d + k * i) (s + k * i) m)"

primrec copy_down :: "nat \<Rightarrow> nat \<Rightarrow> nat \<Rightarrow> nat \<Rightarrow> memory \<Rightarrow> memory" where
  "copy_down k 0 d s m = m"
| "copy_down k (Suc n) d s m = copy_down k n d s (assign k (d + k * n) (s + k * n) m)"

definition memcpy :: "nat \<Rightarrow> nat \<Rightarrow> nat \<Rightarrow> memory \<Rightarrow> memory" where
  "memcpy dst src len m =
     (if dst mod 4 = 0 \<and> src mod 4 = 0 \<and> len mod 4 = 0 then copy_up 4 0 (len div 4) dst src m
      else copy_up 1 0 len dst src m)"

definition memmove :: "nat \<Rightarrow> nat \<Rightarrow> nat \<Rightarrow> memory \<Rightarrow> memory" where
  "memmove dst src len m =
     (if dst < src then memcpy dst src len m
      else if dst mod 4 = 0 \<and> src mod 4 = 0 \<and> len mod 4 = 0 then copy_down 4 (len div 4) dst src m
      else copy_down 1 len dst src m)"

text \<open>The loops of \<open>bzero\<close>.\<close>

primrec zero_up :: "nat \<Rightarrow> nat \<Rightarrow> nat \<Rightarrow> nat \<Rightarrow> memory \<Rightarrow> memory" where
  "zero_up k i 0 d m = m"
| "zero_up k i (Suc n) d m = zero_up k (i + 1) n d (\<lambda>a. if d + k * i \<le> a \<and> a < d + k * i + k then 0 else m a)"

definition bzero_mem :: "nat \<Rightarrow> nat \<Rightarrow> memory \<Rightarrow> memory" where
  "bzero_mem vblock len m =
     (if vblock mod 4 = 0 \<and> len mod 4 = 0 then zero_up 4 0 (len div 4) vblock m else zero_up 1 0 len vblock m)"

section \<open>Equivalence with a copy in one step\<close>

lemma copy_up_eq:
  assumes "d < s \<or> s + k * (i + n) \<le> d + k * i"
  shows "copy_up k i n d s m = (\<lambda>a. if d + k * i \<le> a \<and> a < d + k * (i + n) then m (s + (a - d)) else m a)"
  using assms
proof (induction n arbitrary: i m)
  case (Suc n)
  have dis: "d < s \<or> s + k * (i + 1 + n) \<le> d + k * (i + 1)" using Suc.prems by (auto simp: algebra_simps)
  have "copy_up k i (Suc n) d s m a = (if d + k * i \<le> a \<and> a < d + k * (i + Suc n) then m (s + (a - d)) else m a)" for a
  proof (cases "d + k * (i + 1) \<le> a \<and> a < d + k * (i + 1 + n)")
    case True
    then have "\<not> (d + k * i \<le> s + (a - d) \<and> s + (a - d) < d + k * i + k)" using Suc.prems by (auto simp: algebra_simps)
    then show ?thesis using True Suc.IH [OF dis] by (auto simp: assign_def algebra_simps)
  next
    case False
    then show ?thesis using Suc.IH [OF dis] by (auto simp: assign_def algebra_simps)
  qed
  then show ?case by (rule ext)
qed (auto simp: fun_eq_iff)

lemma copy_down_eq:
  assumes "s \<le> d"
  shows "copy_down k n d s m = assign (k * n) d s m"
proof (induction n arbitrary: m)
  case (Suc n)
  have "copy_down k (Suc n) d s m a = assign (k * Suc n) d s m a" for a
  proof (cases "d \<le> a \<and> a < d + k * n")
    case True
    then have "\<not> (d + k * n \<le> s + (a - d))" using assms by auto
    then show ?thesis using True Suc.IH by (auto simp: assign_def)
  next
    case False
    then show ?thesis using Suc.IH by (auto simp: assign_def)
  qed
  then show ?case by (rule ext)
qed (auto simp: assign_def fun_eq_iff)

lemma memcpy_eq:
  assumes "d < s \<or> s + len \<le> d"
  shows "memcpy d s len m = assign len d s m"
proof (cases "d mod 4 = 0 \<and> s mod 4 = 0 \<and> len mod 4 = 0")
  case True
  then have "4 * (len div 4) = len" by auto
  then show ?thesis using True assms copy_up_eq [of d s 4 0 "len div 4" m] by (simp add: memcpy_def assign_def)
next
  case False
  then show ?thesis using assms copy_up_eq [of d s 1 0 len m] by (simp only: memcpy_def assign_def if_False) simp
qed

lemma memmove_assign: "memmove dst src len m = assign len dst src m"
proof (cases "dst < src")
  case True
  then show ?thesis using memcpy_eq [of dst src len m] by (simp add: memmove_def assign_def)
next
  case False
  moreover have "4 * (len div 4) = len" if "len mod 4 = 0" using that by auto
  ultimately show ?thesis
    using copy_down_eq [of src dst 4 "len div 4" m] copy_down_eq [of src dst 1 len m] by (simp add: memmove_def assign_def)
qed

text \<open>
  C32. \<open>memmove\<close>, with its two directions and its copying by words or by bytes, is the copy of all
  \<open>len\<close> bytes at once, for every overlap of source and destination: afterwards the destination holds what
  the source held before, and no other byte of the memory has changed.
\<close>

theorem memmove_block_copy: "memmove dst src len m = (\<lambda>a. if dst \<le> a \<and> a < dst + len then m (src + (a - dst)) else m a)"
  by (simp add: memmove_assign assign_def)

lemma zero_up_eq: "zero_up k i n d m = (\<lambda>a. if d + k * i \<le> a \<and> a < d + k * (i + n) then 0 else m a)"
  by (induction n arbitrary: i m) (auto simp: fun_eq_iff algebra_simps)

lemma bzero_mem_eq: "bzero_mem d len m = (\<lambda>a. if d \<le> a \<and> a < d + len then 0 else m a)"
  by (auto simp: bzero_mem_def zero_up_eq)

end
