(* ===== verification/DumbVm.thy ===== *)
theory DumbVm
  imports KThread LibcMem
begin

unbundle bit_operations_syntax

text \<open>
  Physical memory and the simple virtual memory system: \<open>arch/mips/mips/ram.c\<close> and
  \<open>arch/mips/mips/dumbvm.c\<close>, with the TLB of the processor. Addresses and sizes are 32-bit words.
  Physical memory is seen through kseg0, so \<open>vm_mem\<close> is indexed by kernel virtual address.
  \<open>as_destroy\<close> only frees the structure and \<open>vm_bootstrap\<close> and \<open>free_kpages\<close> do nothing.
\<close>

section \<open>Physical memory\<close>

record vm =
  firstpaddr :: "32 word"
  lastpaddr :: "32 word"
  tlb :: "(32 word \<times> 32 word) list"
  vm_mem :: memory
  vm_curspl :: int

definition PAGE_SIZE :: "32 word" where "PAGE_SIZE = 4096"
definition PAGE_FRAME :: "32 word" where "PAGE_FRAME = 0xfffff000"
definition MIPS_KSEG0 :: "32 word" where "MIPS_KSEG0 = 0x80000000"
definition USERSTACK :: "32 word" where "USERSTACK = MIPS_KSEG0"
definition PADDR_TO_KVADDR :: "32 word \<Rightarrow> 32 word" where "PADDR_TO_KVADDR paddr = paddr + MIPS_KSEG0"

definition ram_bootstrap :: "32 word \<Rightarrow> 32 word \<Rightarrow> vm \<Rightarrow> vm" where
  "ram_bootstrap mips_ramsize firstfree s =
     (let ramsize = (if mips_ramsize > 508 * 1024 * 1024 then 508 * 1024 * 1024 else mips_ramsize) in
      s\<lparr>lastpaddr := ramsize, firstpaddr := firstfree - MIPS_KSEG0\<rparr>)"

definition ram_stealmem :: "32 word \<Rightarrow> vm \<Rightarrow> 32 word \<times> vm" where
  "ram_stealmem npages s =
     (let size = npages * PAGE_SIZE in
      if firstpaddr s + size > lastpaddr s then (0, s)
      else (firstpaddr s, s\<lparr>firstpaddr := firstpaddr s + size\<rparr>))"

definition ram_getsize :: "vm \<Rightarrow> (32 word \<times> 32 word) \<times> vm" where
  "ram_getsize s = ((firstpaddr s, lastpaddr s), s\<lparr>firstpaddr := 0, lastpaddr := 0\<rparr>)"

definition ram_getavail :: "vm \<Rightarrow> 32 word" where
  "ram_getavail s = lastpaddr s - firstpaddr s"

definition vm_splhigh :: "vm \<Rightarrow> int \<times> vm" where
  "vm_splhigh s = (vm_curspl s, s\<lparr>vm_curspl := SPL_HIGH\<rparr>)"

definition vm_splx :: "int \<Rightarrow> vm \<Rightarrow> vm" where
  "vm_splx spl s = s\<lparr>vm_curspl := spl\<rparr>"

definition getppages :: "32 word \<Rightarrow> vm \<Rightarrow> 32 word \<times> vm" where
  "getppages npages s =
     (let (spl, s1) = vm_splhigh s; (addr, s2) = ram_stealmem npages s1 in (addr, vm_splx spl s2))"

definition alloc_kpages :: "int \<Rightarrow> vm \<Rightarrow> 32 word \<times> vm" where
  "alloc_kpages npages s =
     (let (pa, s1) = getppages (of_int npages) s in
      if pa = 0 then (0, s1) else (PADDR_TO_KVADDR pa, s1))"

definition free_kpages :: "32 word \<Rightarrow> vm \<Rightarrow> vm" where
  "free_kpages addr s = s"

section \<open>Address spaces\<close>

record addrspace =
  as_vbase1 :: "32 word"
  as_pbase1 :: "32 word"
  as_npages1 :: "32 word"
  as_vbase2 :: "32 word"
  as_pbase2 :: "32 word"
  as_npages2 :: "32 word"
  as_stackpbase :: "32 word"

definition DUMBVM_STACKPAGES :: "32 word" where "DUMBVM_STACKPAGES = 12"

definition as_create :: "bool \<Rightarrow> addrspace option" where
  "as_create mem = (if mem then Some \<lparr>as_vbase1 = 0, as_pbase1 = 0, as_npages1 = 0,
     as_vbase2 = 0, as_pbase2 = 0, as_npages2 = 0, as_stackpbase = 0\<rparr> else None)"

text \<open>The page count of a region after its base and its length are aligned.\<close>

definition region_pages :: "32 word \<Rightarrow> 32 word \<Rightarrow> 32 word" where
  "region_pages vaddr sz = ((sz + (vaddr AND NOT PAGE_FRAME) + PAGE_SIZE - 1) AND PAGE_FRAME) div PAGE_SIZE"

definition as_define_region :: "32 word \<Rightarrow> 32 word \<Rightarrow> addrspace \<Rightarrow> unit kres \<times> addrspace" where
  "as_define_region vaddr sz as =
     (if as_vbase1 as = 0 then (Inr (), as\<lparr>as_vbase1 := vaddr AND PAGE_FRAME, as_npages1 := region_pages vaddr sz\<rparr>)
      else if as_vbase2 as = 0 then (Inr (), as\<lparr>as_vbase2 := vaddr AND PAGE_FRAME, as_npages2 := region_pages vaddr sz\<rparr>)
      else (Inl EUNIMP, as))"

definition as_prepare_load :: "addrspace \<Rightarrow> vm \<Rightarrow> (unit kres \<times> addrspace \<times> vm) option" where
  "as_prepare_load as s = do {
     kassert (as_pbase1 as = 0);
     kassert (as_pbase2 as = 0);
     kassert (as_stackpbase as = 0);
     let (p1, s1) = getppages (as_npages1 as) s;
     let as1 = as\<lparr>as_pbase1 := p1\<rparr>;
     if p1 = 0 then Some (Inl ENOMEM, as1, s1)
     else do {
       let (p2, s2) = getppages (as_npages2 as) s1;
       let as2 = as1\<lparr>as_pbase2 := p2\<rparr>;
       if p2 = 0 then Some (Inl ENOMEM, as2, s2)
       else do {
         let (p3, s3) = getppages DUMBVM_STACKPAGES s2;
         let as3 = as2\<lparr>as_stackpbase := p3\<rparr>;
         if p3 = 0 then Some (Inl ENOMEM, as3, s3) else Some (Inr (), as3, s3)
       }
     }
   }"

definition as_complete_load :: "addrspace \<Rightarrow> unit kres" where
  "as_complete_load as = Inr ()"

definition as_define_stack :: "addrspace \<Rightarrow> (32 word kres) option" where
  "as_define_stack as = do { kassert (as_stackpbase as \<noteq> 0); Some (Inr USERSTACK) }"

text \<open>\<open>memmove\<close> of pages between two physical addresses.\<close>

definition copy_pages :: "32 word \<Rightarrow> 32 word \<Rightarrow> 32 word \<Rightarrow> vm \<Rightarrow> vm" where
  "copy_pages dst src npages s =
     s\<lparr>vm_mem := memmove (unat (PADDR_TO_KVADDR dst)) (unat (PADDR_TO_KVADDR src)) (unat (npages * PAGE_SIZE)) (vm_mem s)\<rparr>"

definition as_copy :: "bool \<Rightarrow> addrspace \<Rightarrow> vm \<Rightarrow> (addrspace kres \<times> vm) option" where
  "as_copy mem old s = (case as_create mem of
       None \<Rightarrow> Some (Inl ENOMEM, s)
     | Some new \<Rightarrow> do {
         (r, new1, s1) \<leftarrow> as_prepare_load (new\<lparr>as_vbase1 := as_vbase1 old, as_npages1 := as_npages1 old,
             as_vbase2 := as_vbase2 old, as_npages2 := as_npages2 old\<rparr>) s;
         case r of Inl e \<Rightarrow> Some (Inl ENOMEM, s1)
         | Inr _ \<Rightarrow> do {
             kassert (as_pbase1 new1 \<noteq> 0);
             kassert (as_pbase2 new1 \<noteq> 0);
             kassert (as_stackpbase new1 \<noteq> 0);
             let s2 = copy_pages (as_pbase1 new1) (as_pbase1 old) (as_npages1 old) s1;
             let s3 = copy_pages (as_pbase2 new1) (as_pbase2 old) (as_npages2 old) s2;
             let s4 = copy_pages (as_stackpbase new1) (as_stackpbase old) DUMBVM_STACKPAGES s3;
             Some (Inr new1, s4)
           }
       })"

section \<open>The TLB\<close>

definition NUM_TLB :: nat where "NUM_TLB = 64"
definition TLBLO_PPAGE :: "32 word" where "TLBLO_PPAGE = 0xfffff000"
definition TLBLO_DIRTY :: "32 word" where "TLBLO_DIRTY = 0x00000400"
definition TLBLO_VALID :: "32 word" where "TLBLO_VALID = 0x00000200"
definition TLBHI_INVALID :: "nat \<Rightarrow> 32 word" where "TLBHI_INVALID entryno = push_bit 12 (0x80000 + of_nat entryno)"
definition TLBLO_INVALID :: "32 word" where "TLBLO_INVALID = 0"

definition TLB_Read :: "nat \<Rightarrow> vm \<Rightarrow> (32 word \<times> 32 word) option" where
  "TLB_Read index s = peek (tlb s) (int index)"

definition TLB_Write :: "32 word \<Rightarrow> 32 word \<Rightarrow> nat \<Rightarrow> vm \<Rightarrow> vm option" where
  "TLB_Write entryhi entrylo index s = map_option (\<lambda>t. s\<lparr>tlb := t\<rparr>) (poke (tlb s) (int index) (entryhi, entrylo))"

text \<open>The loop of \<open>as_activate\<close>, from entry \<open>i\<close> with \<open>n\<close> to go.\<close>

primrec activate_loop :: "nat \<Rightarrow> nat \<Rightarrow> vm \<Rightarrow> vm option" where
  "activate_loop i 0 s = Some s"
| "activate_loop i (Suc n) s = do {
     s1 \<leftarrow> TLB_Write (TLBHI_INVALID i) TLBLO_INVALID i s;
     activate_loop (i + 1) n s1
   }"

definition as_activate :: "addrspace option \<Rightarrow> vm \<Rightarrow> vm option" where
  "as_activate as s = do {
     let (spl, s1) = vm_splhigh s;
     s2 \<leftarrow> activate_loop 0 NUM_TLB s1;
     Some (vm_splx spl s2)
   }"

section \<open>Page faults\<close>

definition VM_FAULT_READ :: int where "VM_FAULT_READ = 0"
definition VM_FAULT_WRITE :: int where "VM_FAULT_WRITE = 1"
definition VM_FAULT_READONLY :: int where "VM_FAULT_READONLY = 2"

text \<open>The assertions of \<open>vm_fault\<close> on the address space.\<close>

definition as_ready :: "addrspace \<Rightarrow> bool" where
  "as_ready as \<longleftrightarrow> as_vbase1 as \<noteq> 0 \<and> as_pbase1 as \<noteq> 0 \<and> as_npages1 as \<noteq> 0 \<and>
     as_vbase2 as \<noteq> 0 \<and> as_pbase2 as \<noteq> 0 \<and> as_npages2 as \<noteq> 0 \<and> as_stackpbase as \<noteq> 0 \<and>
     as_vbase1 as AND PAGE_FRAME = as_vbase1 as \<and> as_pbase1 as AND PAGE_FRAME = as_pbase1 as \<and>
     as_vbase2 as AND PAGE_FRAME = as_vbase2 as \<and> as_pbase2 as AND PAGE_FRAME = as_pbase2 as \<and>
     as_stackpbase as AND PAGE_FRAME = as_stackpbase as"

text \<open>The physical address for a fault address, from the two regions and the stack.\<close>

definition fault_paddr :: "addrspace \<Rightarrow> 32 word \<Rightarrow> 32 word option" where
  "fault_paddr as faultaddress =
     (let vbase1 = as_vbase1 as; vtop1 = vbase1 + as_npages1 as * PAGE_SIZE;
          vbase2 = as_vbase2 as; vtop2 = vbase2 + as_npages2 as * PAGE_SIZE;
          stackbase = USERSTACK - DUMBVM_STACKPAGES * PAGE_SIZE; stacktop = USERSTACK in
      if faultaddress \<ge> vbase1 \<and> faultaddress < vtop1 then Some (faultaddress - vbase1 + as_pbase1 as)
      else if faultaddress \<ge> vbase2 \<and> faultaddress < vtop2 then Some (faultaddress - vbase2 + as_pbase2 as)
      else if faultaddress \<ge> stackbase \<and> faultaddress < stacktop then Some (faultaddress - stackbase + as_stackpbase as)
      else None)"

text \<open>The loop that looks for an invalid entry, from entry \<open>i\<close> with \<open>n\<close> to go; \<open>None\<close> inside when there is none.\<close>

primrec fault_loop :: "32 word \<Rightarrow> 32 word \<Rightarrow> nat \<Rightarrow> nat \<Rightarrow> vm \<Rightarrow> vm option option" where
  "fault_loop faultaddress paddr i 0 s = Some None"
| "fault_loop faultaddress paddr i (Suc n) s = do {
     (ehi, elo) \<leftarrow> TLB_Read i s;
     if elo AND TLBLO_VALID \<noteq> 0 then fault_loop faultaddress paddr (i + 1) n s
     else do {
       s1 \<leftarrow> TLB_Write faultaddress (paddr OR TLBLO_DIRTY OR TLBLO_VALID) i s;
       Some (Some s1)
     }
   }"

definition vm_fault :: "int \<Rightarrow> 32 word \<Rightarrow> addrspace option \<Rightarrow> vm \<Rightarrow> (unit kres \<times> vm) option" where
  "vm_fault faulttype faultaddr vmspace s = do {
     let (spl, s1) = vm_splhigh s;
     let faultaddress = faultaddr AND PAGE_FRAME;
     kassert (faulttype \<noteq> VM_FAULT_READONLY);
     if faulttype \<noteq> VM_FAULT_READ \<and> faulttype \<noteq> VM_FAULT_WRITE then Some (Inl EINVAL, vm_splx spl s1)
     else case vmspace of
       None \<Rightarrow> Some (Inl EFAULT, s1)
     | Some as \<Rightarrow> do {
         kassert (as_ready as);
         case fault_paddr as faultaddress of
           None \<Rightarrow> Some (Inl EFAULT, vm_splx spl s1)
         | Some paddr \<Rightarrow> do {
             kassert (paddr AND PAGE_FRAME = paddr);
             r \<leftarrow> fault_loop faultaddress paddr 0 NUM_TLB s1;
             case r of
               None \<Rightarrow> Some (Inl EFAULT, vm_splx spl s1)
             | Some s2 \<Rightarrow> Some (Inr (), vm_splx spl s2)
           }
       }
   }"

end
