(* ===== verification/DumbVmInv.thy ===== *)
theory DumbVmInv
  imports DumbVm
begin

unbundle bit_operations_syntax

text \<open>
  Properties of the simple virtual memory system: pages are handed out once, a copy of an address space
  shows the same bytes, address spaces share no memory as long as no request is for 2 gigabytes or more, and a page fault
  enters the right translation.
\<close>

section \<open>Pages and words\<close>

lemma unat_page_frame: "unat (x AND PAGE_FRAME) = unat x - unat x mod 4096"
proof -
  have f: "PAGE_FRAME = NOT (mask 12)" by (simp add: PAGE_FRAME_def mask_eq_exp_minus_1)
  have "x AND PAGE_FRAME = push_bit 12 (drop_bit 12 x)"
    unfolding f by (rule bit_word_eqI) (auto simp: bit_simps)
  then have eq: "unat (x AND PAGE_FRAME) = ((unat x div 4096) mod 2 ^ 32 * 4096) mod 2 ^ 32"
    by (simp add: unat_drop_bit_eq push_bit_eq_mult unat_word_ariths drop_bit_eq_div)
  have "unat x < 2 ^ 32" using unsigned_less [of x] by simp
  then have b: "unat x div 4096 * 4096 < 2 ^ 32" "unat x div 4096 < 2 ^ 32"
    using div_mult_mod_eq [of "unat x" 4096] by linarith+
  show ?thesis unfolding eq using b by (simp only: mod_less) (simp add: minus_mod_eq_div_mult)
qed

lemma page_aligned_iff: "x AND PAGE_FRAME = x \<longleftrightarrow> unat x mod 4096 = 0"
proof -
  have "x AND PAGE_FRAME = x \<longleftrightarrow> unat x - unat x mod 4096 = unat x" by (simp add: word_unat_eq_iff unat_page_frame)
  also have "\<dots> \<longleftrightarrow> unat x mod 4096 = 0" using mod_less_eq_dividend [of "unat x" 4096] by linarith
  finally show ?thesis .
qed

lemma unat_add_small: "unat (x :: 32 word) + unat y < 2 ^ 32 \<Longrightarrow> unat (x + y) = unat x + unat y"
  by (simp add: unat_word_ariths)

lemma unat_pages: "unat n < 2 ^ 20 \<Longrightarrow> unat (n * PAGE_SIZE) = 4096 * unat n"
  by (simp add: PAGE_SIZE_def unat_word_ariths)

lemma unat_sub_le: "y \<le> x \<Longrightarrow> unat ((x :: 32 word) - y) = unat x - unat y"
  by (simp add: unat_sub word_le_nat_alt)

section \<open>Allocation of physical pages\<close>

definition ram_ok :: "vm \<Rightarrow> bool" where
  "ram_ok s \<longleftrightarrow> unat (firstpaddr s) mod 4096 = 0 \<and> 0 < unat (firstpaddr s) \<and> firstpaddr s \<le> lastpaddr s \<and>
     unat (lastpaddr s) \<le> 508 * 1024 * 1024"

text \<open>A block of physical memory: its address and its length in bytes.\<close>

definition brange :: "nat \<times> nat \<Rightarrow> nat set" where
  "brange b = {fst b..<fst b + snd b}"

primrec separate :: "(nat \<times> nat) list \<Rightarrow> bool" where
  "separate [] \<longleftrightarrow> True"
| "separate (b # bs) \<longleftrightarrow> (\<forall>c \<in> set bs. brange b \<inter> brange c = {}) \<and> separate bs"

definition below :: "nat \<Rightarrow> (nat \<times> nat) list \<Rightarrow> bool" where
  "below f bs \<longleftrightarrow> (\<forall>b \<in> set bs. fst b + snd b \<le> f)"

lemma separate_append: "separate (xs @ ys) \<longleftrightarrow> separate xs \<and> separate ys \<and> (\<forall>x \<in> set xs. \<forall>y \<in> set ys. brange x \<inter> brange y = {})"
  by (induction xs) auto

lemma separate_nth: "separate bs \<Longrightarrow> i < length bs \<Longrightarrow> j < length bs \<Longrightarrow> i \<noteq> j \<Longrightarrow> brange (bs ! i) \<inter> brange (bs ! j) = {}"
proof (induction bs arbitrary: i j)
  case (Cons b bs)
  then show ?case by (cases i; cases j) (auto dest: nth_mem)
qed simp

lemma below_mono: "below f bs \<Longrightarrow> f \<le> g \<Longrightarrow> below g bs"
  by (auto simp: below_def)

lemma below_append [simp]: "below f (xs @ ys) \<longleftrightarrow> below f xs \<and> below f ys"
  by (auto simp: below_def)

lemma separate_new: "separate bs \<Longrightarrow> below f bs \<Longrightarrow> separate ((f, n) # bs) \<and> below (f + n) ((f, n) # bs)"
  by (fastforce simp: below_def brange_def)

lemma getppages_cases:
  assumes "ram_ok s" and "unat n < 2 ^ 19"
  obtains (none) "getppages n s = (0, s)"
  | (some) f where "getppages n s = (firstpaddr s, s\<lparr>firstpaddr := f\<rparr>)" and "unat f = unat (firstpaddr s) + 4096 * unat n"
      and "ram_ok (s\<lparr>firstpaddr := f\<rparr>)" and "firstpaddr s \<noteq> 0"
proof (cases "firstpaddr s + n * PAGE_SIZE > lastpaddr s")
  case True
  then show thesis using none by (simp add: getppages_def ram_stealmem_def vm_splhigh_def vm_splx_def)
next
  case False
  let ?f = "firstpaddr s + n * PAGE_SIZE"
  have sz: "unat (n * PAGE_SIZE) = 4096 * unat n" using assms(2) by (intro unat_pages) simp
  have b: "unat (firstpaddr s) \<le> 508 * 1024 * 1024" using assms(1) by (simp add: ram_ok_def word_le_nat_alt)
  have f: "unat ?f = unat (firstpaddr s) + 4096 * unat n" unfolding sz [symmetric]
    by (rule unat_add_small) (use sz b assms(2) in simp)
  show thesis
  proof (rule some [OF _ f])
    show "getppages n s = (firstpaddr s, s\<lparr>firstpaddr := ?f\<rparr>)"
      using False by (simp add: getppages_def ram_stealmem_def vm_splhigh_def vm_splx_def)
    show "ram_ok (s\<lparr>firstpaddr := ?f\<rparr>)"
      using assms(1) False f by (simp add: ram_ok_def not_less)
    show "firstpaddr s \<noteq> 0" using assms(1) by (auto simp: ram_ok_def)
  qed
qed

section \<open>Loading and translation\<close>

definition as_blocks :: "addrspace \<Rightarrow> (nat \<times> nat) list" where
  "as_blocks as = [(unat (as_pbase1 as), 4096 * unat (as_npages1 as)), (unat (as_pbase2 as), 4096 * unat (as_npages2 as)),
     (unat (as_stackpbase as), 4096 * 12)]"

definition as_bases :: "addrspace \<Rightarrow> nat list" where
  "as_bases as = [unat (as_vbase1 as), unat (as_vbase2 as), unat (USERSTACK - DUMBVM_STACKPAGES * PAGE_SIZE)]"

text \<open>Sizes for which the arithmetic of \<open>ram_stealmem\<close> does not wrap: regions below two gigabytes.\<close>

definition as_sized :: "addrspace \<Rightarrow> bool" where
  "as_sized as \<longleftrightarrow> unat (as_npages1 as) < 2 ^ 19 \<and> unat (as_npages2 as) < 2 ^ 19"

definition as_loaded :: "vm \<Rightarrow> addrspace \<Rightarrow> bool" where
  "as_loaded s as \<longleftrightarrow> as_sized as \<and> separate (as_blocks as) \<and> below (unat (firstpaddr s)) (as_blocks as)"

lemma prepare_load_cases:
  assumes "ram_ok s" and "as_sized as" and "as_pbase1 as = 0" and "as_pbase2 as = 0" and "as_stackpbase as = 0"
  obtains (fail) as' s' where "as_prepare_load as s = Some (Inl ENOMEM, as', s')" and "ram_ok s'" and "firstpaddr s \<le> firstpaddr s'"
      and "s' = s\<lparr>firstpaddr := firstpaddr s'\<rparr>"
  | (loads) p2 p3 f where "as_prepare_load as s = Some (Inr (), as\<lparr>as_pbase1 := firstpaddr s, as_pbase2 := p2, as_stackpbase := p3\<rparr>, s\<lparr>firstpaddr := f\<rparr>)"
      and "unat p2 = unat (firstpaddr s) + 4096 * unat (as_npages1 as)" and "unat p3 = unat p2 + 4096 * unat (as_npages2 as)"
      and "unat f = unat p3 + 4096 * 12" and "ram_ok (s\<lparr>firstpaddr := f\<rparr>)" and "firstpaddr s \<noteq> 0" and "p2 \<noteq> 0" and "p3 \<noteq> 0"
proof -
  have n: "unat (as_npages1 as) < 2 ^ 19" "unat (as_npages2 as) < 2 ^ 19" "unat DUMBVM_STACKPAGES < 2 ^ 19"
    using assms(2) by (simp_all add: as_sized_def DUMBVM_STACKPAGES_def)
  show thesis
  proof (cases rule: getppages_cases [OF assms(1) n(1)])
    case 1
    then show thesis using assms by (intro fail [of "as\<lparr>as_pbase1 := 0\<rparr>" s]) (simp_all add: as_prepare_load_def)
  next
    case one: (2 f1)
    show thesis
    proof (cases rule: getppages_cases [OF one(3) n(2)])
      case 1
      then show thesis using assms one
        by (intro fail [of "as\<lparr>as_pbase1 := firstpaddr s, as_pbase2 := 0\<rparr>" "s\<lparr>firstpaddr := f1\<rparr>"])
          (simp_all add: as_prepare_load_def word_le_nat_alt)
    next
      case two: (2 f2)
      show thesis
      proof (cases rule: getppages_cases [OF two(3) n(3)])
        case 1
        then show thesis using assms one two
          by (intro fail [of "as\<lparr>as_pbase1 := firstpaddr s, as_pbase2 := f1, as_stackpbase := 0\<rparr>" "s\<lparr>firstpaddr := f2\<rparr>"])
            (simp_all add: as_prepare_load_def word_le_nat_alt)
      next
        case three: (2 f3)
        show thesis
          using assms one two three by (intro loads [of f2 f1 f3]) (simp_all add: as_prepare_load_def DUMBVM_STACKPAGES_def)
      qed
    qed
  qed
qed

lemma loaded_new:
  assumes "ram_ok s" and "as_sized as" and "unat p2 = unat (firstpaddr s) + 4096 * unat (as_npages1 as)"
    and "unat p3 = unat p2 + 4096 * unat (as_npages2 as)" and "unat f = unat p3 + 4096 * 12"
    and "separate bs" and "below (unat (firstpaddr s)) bs"
  shows "separate (as_blocks (as\<lparr>as_pbase1 := firstpaddr s, as_pbase2 := p2, as_stackpbase := p3\<rparr>) @ bs)"
    "below (unat f) (as_blocks (as\<lparr>as_pbase1 := firstpaddr s, as_pbase2 := p2, as_stackpbase := p3\<rparr>) @ bs)"
  using assms(3-7) by (fastforce simp: as_blocks_def below_def brange_def)+

lemma region_hit:
  assumes "a \<ge> vb" and "a < vb + n * PAGE_SIZE" and "unat n < 2 ^ 19" and "unat pb + 4096 * unat n < 2 ^ 32"
  shows "unat (a - vb + pb) \<in> brange (unat pb, 4096 * unat n)" "unat a = unat (a - vb + pb) - unat pb + unat vb"
proof -
  have sz: "unat (n * PAGE_SIZE) = 4096 * unat n" using assms(3) by (intro unat_pages) simp
  have le: "unat vb \<le> unat a" using assms(1) by (simp add: word_le_nat_alt)
  have "unat (vb + n * PAGE_SIZE) \<le> unat vb + 4096 * unat n" unfolding sz [symmetric] by (simp add: unat_word_ariths)
  then have lt: "unat a - unat vb < 4096 * unat n" using assms(2) le by (simp add: word_less_nat_alt)
  have d: "unat (a - vb) = unat a - unat vb" by (rule unat_sub_le [OF assms(1)])
  have p: "unat (a - vb + pb) = unat a - unat vb + unat pb" unfolding d [symmetric]
    by (rule unat_add_small) (use d lt assms(4) in simp)
  show "unat (a - vb + pb) \<in> brange (unat pb, 4096 * unat n)" using p lt by (simp add: brange_def)
  show "unat a = unat (a - vb + pb) - unat pb + unat vb" using p le by simp
qed

lemma stack_top: "USERSTACK = (USERSTACK - DUMBVM_STACKPAGES * PAGE_SIZE) + DUMBVM_STACKPAGES * PAGE_SIZE"
  by simp

lemma fault_paddr_block:
  assumes "fault_paddr as a = Some p" and "as_sized as" and "below f (as_blocks as)" and "f < 2 ^ 32"
  obtains k where "k < 3" and "unat p \<in> brange (as_blocks as ! k)" and "unat a = unat p - fst (as_blocks as ! k) + as_bases as ! k"
proof -
  have n: "unat (as_npages1 as) < 2 ^ 19" "unat (as_npages2 as) < 2 ^ 19" "unat DUMBVM_STACKPAGES < 2 ^ 19" "unat DUMBVM_STACKPAGES = 12"
    using assms(2) by (simp_all add: as_sized_def DUMBVM_STACKPAGES_def)
  have b: "unat (as_pbase1 as) + 4096 * unat (as_npages1 as) < 2 ^ 32" "unat (as_pbase2 as) + 4096 * unat (as_npages2 as) < 2 ^ 32"
      "unat (as_stackpbase as) + 4096 * unat DUMBVM_STACKPAGES < 2 ^ 32"
    using assms(3,4) n(4) by (simp_all add: below_def as_blocks_def)
  let ?sb = "USERSTACK - DUMBVM_STACKPAGES * PAGE_SIZE"
  consider (one) "a \<ge> as_vbase1 as" "a < as_vbase1 as + as_npages1 as * PAGE_SIZE" "p = a - as_vbase1 as + as_pbase1 as"
    | (two) "a \<ge> as_vbase2 as" "a < as_vbase2 as + as_npages2 as * PAGE_SIZE" "p = a - as_vbase2 as + as_pbase2 as"
    | (stack) "a \<ge> ?sb" "a < USERSTACK" "p = a - ?sb + as_stackpbase as"
    using assms(1) unfolding fault_paddr_def Let_def by (auto split: if_splits)
  then show thesis
  proof cases
    case one
    show thesis using region_hit [OF one(1,2) n(1) b(1)] one(3) by (intro that [of 0]) (simp_all add: as_blocks_def as_bases_def)
  next
    case two
    show thesis using region_hit [OF two(1,2) n(2) b(2)] two(3) by (intro that [of 1]) (simp_all add: as_blocks_def as_bases_def)
  next
    case stack
    have "a < ?sb + DUMBVM_STACKPAGES * PAGE_SIZE" using stack(2) by simp
    from region_hit [OF stack(1) this n(3) b(3)] show thesis
      using stack(3) n(4) by (intro that [of 2]) (simp_all add: as_blocks_def as_bases_def)
  qed
qed

lemma fault_paddr_inj:
  assumes "fault_paddr as a = Some p" and "fault_paddr as b = Some p" and "as_sized as" and "separate (as_blocks as)"
    and "below f (as_blocks as)" and "f < 2 ^ 32"
  shows "a = b"
proof -
  obtain k where k: "k < 3" "unat p \<in> brange (as_blocks as ! k)" "unat a = unat p - fst (as_blocks as ! k) + as_bases as ! k"
    by (rule fault_paddr_block [OF assms(1,3,5,6)])
  obtain l where l: "l < 3" "unat p \<in> brange (as_blocks as ! l)" "unat b = unat p - fst (as_blocks as ! l) + as_bases as ! l"
    by (rule fault_paddr_block [OF assms(2,3,5,6)])
  have "k = l"
    using separate_nth [OF assms(4), of k l] k(1,2) l(1,2) by (auto simp: as_blocks_def)
  then show ?thesis using k(3) l(3) by (simp add: word_unat_eq_iff)
qed

section \<open>Copies\<close>

text \<open>The byte a user program sees at a virtual address.\<close>

definition user_byte :: "vm \<Rightarrow> addrspace \<Rightarrow> 32 word \<Rightarrow> 8 word option" where
  "user_byte s as a = map_option (\<lambda>p. vm_mem s (unat (PADDR_TO_KVADDR p))) (fault_paddr as a)"

lemma unat_kvaddr: "unat p < 2 ^ 31 \<Longrightarrow> unat (PADDR_TO_KVADDR p) = unat p + 2 ^ 31"
proof -
  assume p: "unat p < 2 ^ 31"
  have "unat MIPS_KSEG0 = 2 ^ 31" by (simp add: MIPS_KSEG0_def)
  then show ?thesis unfolding PADDR_TO_KVADDR_def using p unat_add_small [of p MIPS_KSEG0] by simp
qed

lemma copy_pages_mem:
  assumes "unat n < 2 ^ 19" and "unat dst < 2 ^ 30" and "unat src < 2 ^ 30"
  shows "vm_mem (copy_pages dst src n s) =
    (\<lambda>x. if unat dst + 2 ^ 31 \<le> x \<and> x < unat dst + 2 ^ 31 + 4096 * unat n then vm_mem s (unat src + 2 ^ 31 + (x - (unat dst + 2 ^ 31))) else vm_mem s x)"
  using assms by (simp add: copy_pages_def memmove_assign assign_def unat_kvaddr unat_pages cong: if_cong)

lemma copy_pages_same [simp]: "firstpaddr (copy_pages d s n v) = firstpaddr v" "lastpaddr (copy_pages d s n v) = lastpaddr v"
  by (simp_all add: copy_pages_def)

lemma region_offset:
  assumes "a \<ge> vb" and "a < vb + n * PAGE_SIZE" and "unat n < 2 ^ 19" and "unat pb + 4096 * unat n < 2 ^ 31"
  shows "unat (PADDR_TO_KVADDR (a - vb + pb)) = unat pb + (unat a - unat vb) + 2 ^ 31" "unat a - unat vb < 4096 * unat n"
proof -
  have le: "unat vb \<le> unat a" using assms(1) by (simp add: word_le_nat_alt)
  have lt: "unat pb + 4096 * unat n < 2 ^ 32" using assms(4) by simp
  note r = region_hit [OF assms(1-3) lt]
  have p: "unat (a - vb + pb) = unat pb + (unat a - unat vb)" "unat a - unat vb < 4096 * unat n"
    using r le by (auto simp: brange_def)
  then show "unat (PADDR_TO_KVADDR (a - vb + pb)) = unat pb + (unat a - unat vb) + 2 ^ 31"
    using unat_kvaddr [of "a - vb + pb"] assms(4) by simp
  show "unat a - unat vb < 4096 * unat n" by (rule p(2))
qed

lemma copied_mem:
  assumes "n1 < 2 ^ 19" "n2 < 2 ^ 19"
    and "m1 = (\<lambda>x. if F + B \<le> x \<and> x < F + B + 4096 * n1 then m (P1 + B + (x - (F + B))) else m x)"
    and "m2 = (\<lambda>x. if N2 + B \<le> x \<and> x < N2 + B + 4096 * n2 then m1 (P2 + B + (x - (N2 + B))) else m1 x)"
    and "m3 = (\<lambda>x. if N3 + B \<le> x \<and> x < N3 + B + 4096 * 12 then m2 (P3 + B + (x - (N3 + B))) else m2 x)"
    and "N2 = F + 4096 * n1" and "N3 = N2 + 4096 * n2" and "P1 + 4096 * n1 \<le> F" and "P2 + 4096 * n2 \<le> F" and "P3 + 4096 * 12 \<le> F"
  shows "x < F + B \<Longrightarrow> m3 x = m (x :: nat)" "d < 4096 * n1 \<Longrightarrow> m3 (F + d + B) = m (P1 + d + B)"
    "d < 4096 * n2 \<Longrightarrow> m3 (N2 + d + B) = m (P2 + d + B)" "d < 4096 * 12 \<Longrightarrow> m3 (N3 + d + B) = m (P3 + d + B)"
  using assms(6-10) unfolding assms(3-5) by (auto simp: algebra_simps)

lemma as_copy_cases:
  assumes "ram_ok s" and "as_loaded s old"
  obtains (fail) s' where "as_copy mem old s = Some (Inl ENOMEM, s')" and "ram_ok s'" and "firstpaddr s \<le> firstpaddr s'" and "vm_mem s' = vm_mem s"
  | (copies) p2 p3 f m new where
      "as_copy mem old s = Some (Inr new, s\<lparr>firstpaddr := f, vm_mem := m\<rparr>)"
      and "new = old\<lparr>as_pbase1 := firstpaddr s, as_pbase2 := p2, as_stackpbase := p3\<rparr>"
      and "unat p2 = unat (firstpaddr s) + 4096 * unat (as_npages1 old)" and "unat p3 = unat p2 + 4096 * unat (as_npages2 old)"
      and "unat f = unat p3 + 4096 * 12" and "ram_ok (s\<lparr>firstpaddr := f\<rparr>)"
      and "m = vm_mem (copy_pages p3 (as_stackpbase old) DUMBVM_STACKPAGES (copy_pages p2 (as_pbase2 old) (as_npages2 old)
             (copy_pages (firstpaddr s) (as_pbase1 old) (as_npages1 old) s)))"
proof (cases mem)
  case False
  then show thesis using assms(1) by (intro fail [of s]) (simp_all add: as_copy_def as_create_def)
next
  case True
  let ?e = "\<lparr>as_vbase1 = as_vbase1 old, as_pbase1 = 0, as_npages1 = as_npages1 old, as_vbase2 = as_vbase2 old, as_pbase2 = 0,
     as_npages2 = as_npages2 old, as_stackpbase = 0\<rparr>"
  have z: "as_sized ?e" "as_pbase1 ?e = 0" "as_pbase2 ?e = 0" "as_stackpbase ?e = 0"
    using assms(2) by (simp_all add: as_loaded_def as_sized_def)
  show thesis
  proof (cases rule: prepare_load_cases [OF assms(1) z])
    case (1 as' s1)
    have "vm_mem s1 = vm_mem s" by (subst 1(4)) simp
    then show thesis using 1 True by (intro fail [of s1]) (simp_all add: as_copy_def as_create_def)
  next
    case (2 p2 p3 f)
    let ?s1 = "s\<lparr>firstpaddr := f\<rparr>"
    have c: "copy_pages p3 (as_stackpbase old) DUMBVM_STACKPAGES (copy_pages p2 (as_pbase2 old) (as_npages2 old)
             (copy_pages (firstpaddr s) (as_pbase1 old) (as_npages1 old) ?s1)) =
       s\<lparr>firstpaddr := f, vm_mem := vm_mem (copy_pages p3 (as_stackpbase old) DUMBVM_STACKPAGES (copy_pages p2 (as_pbase2 old) (as_npages2 old)
             (copy_pages (firstpaddr s) (as_pbase1 old) (as_npages1 old) s)))\<rparr>"
      by (simp add: copy_pages_def)
    show thesis
    proof (rule copies)
      show "as_copy mem old s = Some (Inr (old\<lparr>as_pbase1 := firstpaddr s, as_pbase2 := p2, as_stackpbase := p3\<rparr>),
         s\<lparr>firstpaddr := f, vm_mem := vm_mem (copy_pages p3 (as_stackpbase old) DUMBVM_STACKPAGES (copy_pages p2 (as_pbase2 old) (as_npages2 old)
             (copy_pages (firstpaddr s) (as_pbase1 old) (as_npages1 old) s)))\<rparr>)"
        using 2 True by (simp add: as_copy_def as_create_def Let_def c addrspace.equality)
    qed (use 2 in simp_all)
  qed
qed

lemma copied_byte:
  assumes "as_loaded s old" and "unat (firstpaddr s) < 2 ^ 30" and "new = old\<lparr>as_pbase1 := firstpaddr s, as_pbase2 := p2, as_stackpbase := p3\<rparr>"
    and "unat p2 = unat (firstpaddr s) + 4096 * unat (as_npages1 old)" and "unat p3 = unat p2 + 4096 * unat (as_npages2 old)" and "unat p3 + 4096 * 12 < 2 ^ 30"
    and "m = vm_mem (copy_pages p3 (as_stackpbase old) DUMBVM_STACKPAGES (copy_pages p2 (as_pbase2 old) (as_npages2 old)
             (copy_pages (firstpaddr s) (as_pbase1 old) (as_npages1 old) s)))"
  shows "user_byte (s'\<lparr>vm_mem := m\<rparr>) new a = user_byte s old a" "x < unat (firstpaddr s) + 2 ^ 31 \<Longrightarrow> m x = vm_mem s x"
proof -
  let ?F = "unat (firstpaddr s)" and ?n1 = "unat (as_npages1 old)" and ?n2 = "unat (as_npages2 old)"
  let ?P1 = "unat (as_pbase1 old)" and ?P2 = "unat (as_pbase2 old)" and ?P3 = "unat (as_stackpbase old)"
  have n: "?n1 < 2 ^ 19" "?n2 < 2 ^ 19" "unat DUMBVM_STACKPAGES = 12" "unat DUMBVM_STACKPAGES < 2 ^ 19"
    using assms(1) by (simp_all add: as_loaded_def as_sized_def DUMBVM_STACKPAGES_def)
  have le: "?P1 + 4096 * ?n1 \<le> ?F" "?P2 + 4096 * ?n2 \<le> ?F" "?P3 + 4096 * 12 \<le> ?F"
    using assms(1) by (simp_all add: as_loaded_def below_def as_blocks_def)
  have small: "unat p2 < 2 ^ 30" "unat p3 < 2 ^ 30" "?P1 < 2 ^ 30" "?P2 < 2 ^ 30" "?P3 < 2 ^ 30" using assms(2,4-6) le by simp_all
  note c1 = copy_pages_mem [OF n(1) assms(2) small(3), of s]
  note c2 = copy_pages_mem [OF n(2) small(1,4), of "copy_pages (firstpaddr s) (as_pbase1 old) (as_npages1 old) s"]
  note c3 = copy_pages_mem [OF n(4) small(2,5), of "copy_pages p2 (as_pbase2 old) (as_npages2 old) (copy_pages (firstpaddr s) (as_pbase1 old) (as_npages1 old) s)",
      folded assms(7), unfolded n(3)]
  note c = copied_mem [OF n(1,2) c1 c2 c3 assms(4,5) le]
  show "x < ?F + 2 ^ 31 \<Longrightarrow> m x = vm_mem s x" by (rule c(1))
  let ?sb = "USERSTACK - DUMBVM_STACKPAGES * PAGE_SIZE"
  have b: "?F + 4096 * ?n1 < 2 ^ 31" "unat p2 + 4096 * ?n2 < 2 ^ 31" "unat p3 + 4096 * unat DUMBVM_STACKPAGES < 2 ^ 31"
      "?P1 + 4096 * ?n1 < 2 ^ 31" "?P2 + 4096 * ?n2 < 2 ^ 31" "?P3 + 4096 * unat DUMBVM_STACKPAGES < 2 ^ 31"
    unfolding n(3) using assms(2,4-6) le by simp_all
  have 1: "m (unat (PADDR_TO_KVADDR (a - as_vbase1 old + firstpaddr s))) = vm_mem s (unat (PADDR_TO_KVADDR (a - as_vbase1 old + as_pbase1 old)))"
    if "a \<ge> as_vbase1 old" "a < as_vbase1 old + as_npages1 old * PAGE_SIZE"
    using region_offset [OF that n(1) b(1)] region_offset [OF that n(1) b(4)] c(2) by simp
  have 2: "m (unat (PADDR_TO_KVADDR (a - as_vbase2 old + p2))) = vm_mem s (unat (PADDR_TO_KVADDR (a - as_vbase2 old + as_pbase2 old)))"
    if "a \<ge> as_vbase2 old" "a < as_vbase2 old + as_npages2 old * PAGE_SIZE"
    using region_offset [OF that n(2) b(2)] region_offset [OF that n(2) b(5)] c(3) by simp
  have 3: "m (unat (PADDR_TO_KVADDR (a - ?sb + p3))) = vm_mem s (unat (PADDR_TO_KVADDR (a - ?sb + as_stackpbase old)))"
    if "a \<ge> ?sb" "a < USERSTACK"
  proof -
    have "a < ?sb + DUMBVM_STACKPAGES * PAGE_SIZE" using that(2) by simp
    note r = region_offset [OF that(1) this n(4)]
    show ?thesis using r [OF b(3)] r [OF b(6)] c(4) n(3) by simp
  qed
  show "user_byte (s'\<lparr>vm_mem := m\<rparr>) new a = user_byte s old a"
    using 1 2 3 unfolding user_byte_def fault_paddr_def Let_def assms(3) by simp
qed

text \<open>
  C16. \<open>as_copy\<close>: for a loaded address space it returns, and either reports \<open>ENOMEM\<close> with the memory
  unchanged, or the new space shows the same byte as the old one at every virtual address (and is
  unmapped at the same addresses). The old space and every other space whose memory was allocated
  before show what they showed before.
\<close>

theorem as_copy_exact:
  assumes "ram_ok s" and "as_loaded s old"
  shows "\<exists>r s'. as_copy mem old s = Some (r, s') \<and>
    (case r of Inl e \<Rightarrow> e = ENOMEM \<and> vm_mem s' = vm_mem s
     | Inr new \<Rightarrow> (\<forall>a. user_byte s' new a = user_byte s old a) \<and>
         (\<forall>other a. as_loaded s other \<longrightarrow> user_byte s' other a = user_byte s other a))"
proof (cases rule: as_copy_cases [OF assms, of mem])
  case (1 s')
  then show ?thesis by auto
next
  case (2 p2 p3 f m new)
  have F: "unat (firstpaddr s) < 2 ^ 30" using assms(1) by (simp add: ram_ok_def word_le_nat_alt)
  have "unat f \<le> 508 * 1024 * 1024" using 2(6) by (simp add: ram_ok_def word_le_nat_alt)
  then have p3: "unat p3 + 4096 * 12 < 2 ^ 30" using 2(5) by simp
  note c = copied_byte [OF assms(2) F 2(2-4) p3 2(7)]
  have "user_byte (s\<lparr>firstpaddr := f, vm_mem := m\<rparr>) other a = user_byte s other a" if other: "as_loaded s other" for other a
  proof (cases "fault_paddr other a")
    case (Some p)
    have l: "as_sized other" "below (unat (firstpaddr s)) (as_blocks other)" "unat (firstpaddr s) < 2 ^ 32"
      using other F by (simp_all add: as_loaded_def)
    obtain k where k: "k < 3" "unat p \<in> brange (as_blocks other ! k)"
      by (rule fault_paddr_block [OF Some l])
    have "as_blocks other ! k \<in> set (as_blocks other)" using k(1) by (intro nth_mem) (simp add: as_blocks_def)
    then have "unat p < unat (firstpaddr s)" using k(2) l(2) by (auto simp: as_loaded_def below_def brange_def)
    then show ?thesis using Some c(2) unat_kvaddr [of p] F by (simp add: user_byte_def)
  qed (simp add: user_byte_def)
  then show ?thesis using 2(1) c(1) [of "s\<lparr>firstpaddr := f\<rparr>"] by auto
qed

section \<open>Isolation of address spaces\<close>

text \<open>
  The system: the memory state, the loaded address spaces and the pages the kernel holds. Its steps are
  loading a new space, copying one, allocating kernel pages, a page fault, a switch of
  the address space, and stores to memory. As the code does, the steps accept requests of every size;
  \<open>vs_requests\<close> records how many pages the regions that were loaded and the kernel asked for.
\<close>

record vsys =
  vs_vm :: vm
  vs_spaces :: "addrspace list"
  vs_kpages :: "(32 word \<times> int) list"
  vs_requests :: "nat list"

definition vm_start :: "vsys \<Rightarrow> bool" where
  "vm_start y \<longleftrightarrow> ram_ok (vs_vm y) \<and> vs_spaces y = [] \<and> vs_kpages y = [] \<and> vs_requests y = []"

definition region_pages :: "addrspace \<Rightarrow> nat list" where
  "region_pages as = [unat (as_npages1 as), unat (as_npages2 as)]"

definition kernel_pages :: "int \<Rightarrow> nat" where
  "kernel_pages n = unat (of_int n :: 32 word)"

inductive vm_step :: "vsys \<Rightarrow> vsys \<Rightarrow> bool" where
  vs_load: "as_prepare_load as (vs_vm y) = Some (Inr (), as', s) \<Longrightarrow>
    vm_step y (y\<lparr>vs_vm := s, vs_spaces := as' # vs_spaces y, vs_requests := region_pages as @ vs_requests y\<rparr>)"
| vs_load_fail: "as_prepare_load as (vs_vm y) = Some (Inl e, as', s) \<Longrightarrow>
    vm_step y (y\<lparr>vs_vm := s, vs_requests := region_pages as @ vs_requests y\<rparr>)"
| vs_copy: "as \<in> set (vs_spaces y) \<Longrightarrow> as_copy mem as (vs_vm y) = Some (Inr new, s) \<Longrightarrow>
    vm_step y (y\<lparr>vs_vm := s, vs_spaces := new # vs_spaces y\<rparr>)"
| vs_copy_fail: "as \<in> set (vs_spaces y) \<Longrightarrow> as_copy mem as (vs_vm y) = Some (Inl e, s) \<Longrightarrow> vm_step y (y\<lparr>vs_vm := s\<rparr>)"
| vs_kpages: "- (2 ^ 31) \<le> n \<Longrightarrow> n < 2 ^ 31 \<Longrightarrow> alloc_kpages n (vs_vm y) = (a, s) \<Longrightarrow> a \<noteq> 0 \<Longrightarrow>
    vm_step y (y\<lparr>vs_vm := s, vs_kpages := (a, n) # vs_kpages y, vs_requests := kernel_pages n # vs_requests y\<rparr>)"
| vs_kpages_fail: "- (2 ^ 31) \<le> n \<Longrightarrow> n < 2 ^ 31 \<Longrightarrow> alloc_kpages n (vs_vm y) = (0, s) \<Longrightarrow>
    vm_step y (y\<lparr>vs_vm := s, vs_requests := kernel_pages n # vs_requests y\<rparr>)"
| vs_fault: "as \<in> set (vs_spaces y) \<Longrightarrow> vm_fault ft a (Some as) (vs_vm y) = Some (r, s) \<Longrightarrow> vm_step y (y\<lparr>vs_vm := s\<rparr>)"
| vs_switch: "as_activate as (vs_vm y) = Some s \<Longrightarrow> vm_step y (y\<lparr>vs_vm := s\<rparr>)"
| vs_store: "vm_step y (y\<lparr>vs_vm := (vs_vm y)\<lparr>vm_mem := m\<rparr>\<rparr>)"

definition kblock :: "32 word \<times> int \<Rightarrow> nat \<times> nat" where
  "kblock k = (unat (fst k) - 2 ^ 31, 4096 * nat (snd k))"

definition vs_blocks :: "vsys \<Rightarrow> (nat \<times> nat) list" where
  "vs_blocks y = concat (map as_blocks (vs_spaces y)) @ map kblock (vs_kpages y)"

definition vs_ok :: "vsys \<Rightarrow> bool" where
  "vs_ok y \<longleftrightarrow> ram_ok (vs_vm y) \<and> (\<forall>as \<in> set (vs_spaces y). as_sized as) \<and> separate (vs_blocks y) \<and>
     below (unat (firstpaddr (vs_vm y))) (vs_blocks y)"

lemma vs_ok_requests [simp]: "vs_ok (y\<lparr>vs_requests := ns\<rparr>) = vs_ok y"
  by (simp add: vs_ok_def vs_blocks_def)

text \<open>No request so far was for \<open>2 ^ 19\<close> pages (2 gigabytes) or more.\<close>

definition requests_ok :: "vsys \<Rightarrow> bool" where
  "requests_ok y \<longleftrightarrow> (\<forall>n \<in> set (vs_requests y). n < 2 ^ 19)"

lemma tlb_write_same: "TLB_Write h l i s = Some s' \<Longrightarrow> firstpaddr s' = firstpaddr s \<and> lastpaddr s' = lastpaddr s"
  by (auto simp: TLB_Write_def)

lemma activate_loop_same: "activate_loop i n s = Some s' \<Longrightarrow> firstpaddr s' = firstpaddr s \<and> lastpaddr s' = lastpaddr s"
proof (induction n arbitrary: i s)
  case (Suc n)
  then show ?case by (auto simp: kmonad dest: tlb_write_same)
qed simp

lemma fault_loop_same: "fault_loop a p i n s = Some (Some s') \<Longrightarrow> firstpaddr s' = firstpaddr s \<and> lastpaddr s' = lastpaddr s"
proof (induction n arbitrary: i s)
  case (Suc n)
  then show ?case by (auto simp: kmonad split: if_splits dest: tlb_write_same)
qed simp

lemma vm_fault_same: "vm_fault ft a v s = Some (r, s') \<Longrightarrow> firstpaddr s' = firstpaddr s \<and> lastpaddr s' = lastpaddr s"
  by (auto simp: vm_fault_def Let_def vm_splhigh_def vm_splx_def kmonad split: if_splits option.splits dest!: fault_loop_same)

lemma as_activate_same: "as_activate v s = Some s' \<Longrightarrow> firstpaddr s' = firstpaddr s \<and> lastpaddr s' = lastpaddr s"
  by (auto simp: as_activate_def vm_splhigh_def vm_splx_def kmonad dest!: activate_loop_same)

lemma vs_ok_moved:
  assumes "vs_ok y" and "ram_ok s" and "firstpaddr (vs_vm y) \<le> firstpaddr s"
  shows "vs_ok (y\<lparr>vs_vm := s\<rparr>)"
  using assms below_mono [of _ "vs_blocks y" "unat (firstpaddr s)"] by (auto simp: vs_ok_def vs_blocks_def word_le_nat_alt)

lemma vs_ok_same:
  assumes "vs_ok y" and "firstpaddr s = firstpaddr (vs_vm y)" and "lastpaddr s = lastpaddr (vs_vm y)"
  shows "vs_ok (y\<lparr>vs_vm := s\<rparr>)"
  by (rule vs_ok_moved [OF assms(1)]) (use assms in \<open>simp_all add: vs_ok_def ram_ok_def\<close>)

lemma vs_ok_space:
  assumes "vs_ok y" and "as_sized as" and "unat p2 = unat (firstpaddr (vs_vm y)) + 4096 * unat (as_npages1 as)"
    and "unat p3 = unat p2 + 4096 * unat (as_npages2 as)" and "unat f = unat p3 + 4096 * 12" and "ram_ok s" and "firstpaddr s = f"
  shows "vs_ok (y\<lparr>vs_vm := s, vs_spaces := as\<lparr>as_pbase1 := firstpaddr (vs_vm y), as_pbase2 := p2, as_stackpbase := p3\<rparr> # vs_spaces y\<rparr>)"
  using loaded_new [OF _ assms(2-5), of "vs_blocks y"] assms(1,2,6,7) by (auto simp: vs_ok_def vs_blocks_def as_sized_def)

lemma vs_loaded:
  assumes "vs_ok y" and "as \<in> set (vs_spaces y)"
  shows "as_loaded (vs_vm y) as"
proof -
  obtain xs ys where "vs_spaces y = xs @ as # ys" using assms(2) by (meson split_list)
  then show ?thesis using assms by (simp add: vs_ok_def vs_blocks_def as_loaded_def separate_append)
qed

lemma vs_start_ok: "vm_start y \<Longrightarrow> vs_ok y"
  by (simp add: vm_start_def vs_ok_def vs_blocks_def below_def)

lemma vs_kpages_ok:
  assumes "vs_ok y" and "0 \<le> n" and "n < 2 ^ 19" and "alloc_kpages n (vs_vm y) = (a, s)" and "a \<noteq> 0"
  shows "vs_ok (y\<lparr>vs_vm := s, vs_kpages := (a, n) # vs_kpages y\<rparr>)"
proof -
  have "(of_int n :: 32 word) = of_nat (nat n)" using assms(2) by simp
  then have n: "unat (of_int n :: 32 word) = nat n" using assms(2,3) by (simp only: unat_of_nat) (simp add: nat_less_iff)
  have r: "ram_ok (vs_vm y)" "unat (of_int n :: 32 word) < 2 ^ 19" using assms(1-3) n by (simp_all add: vs_ok_def nat_less_iff)
  show ?thesis
  proof (cases rule: getppages_cases [OF r])
    case 1
    then show ?thesis using assms(4,5) by (simp add: alloc_kpages_def)
  next
    case (2 f)
    let ?F = "unat (firstpaddr (vs_vm y))"
    have "?F < 2 ^ 31" using r(1) by (simp add: ram_ok_def word_le_nat_alt)
    then have k: "kblock (a, n) = (?F, 4096 * nat n)" using 2(1,4) assms(4) unat_kvaddr by (auto simp: alloc_kpages_def kblock_def)
    have "separate ((?F, 4096 * nat n) # vs_blocks y) \<and> below (?F + 4096 * nat n) ((?F, 4096 * nat n) # vs_blocks y)"
      using assms(1) by (intro separate_new) (simp_all add: vs_ok_def)
    then have "separate (vs_blocks (y\<lparr>vs_kpages := (a, n) # vs_kpages y\<rparr>)) \<and> below (unat f) (vs_blocks (y\<lparr>vs_kpages := (a, n) # vs_kpages y\<rparr>))"
      using 2(2) n k by (auto simp: vs_blocks_def separate_append below_def)
    moreover have "s = (vs_vm y)\<lparr>firstpaddr := f\<rparr>" using 2(1,4) assms(4) by (simp add: alloc_kpages_def)
    ultimately show ?thesis using 2(3) assms(1) by (simp add: vs_ok_def vs_blocks_def)
  qed
qed

lemma prepare_load_zero:
  assumes "as_prepare_load as s = Some x"
  shows "as_pbase1 as = 0" "as_pbase2 as = 0" "as_stackpbase as = 0"
  using assms by (auto simp: as_prepare_load_def split: if_splits)

lemma vs_load_ok:
  assumes "vs_ok y" and "as_prepare_load as (vs_vm y) = Some (r, as', s)" and "as_sized as"
  shows "vs_ok (case r of Inl e \<Rightarrow> y\<lparr>vs_vm := s\<rparr> | Inr _ \<Rightarrow> y\<lparr>vs_vm := s, vs_spaces := as' # vs_spaces y\<rparr>)"
proof -
  have ram: "ram_ok (vs_vm y)" using assms(1) by (simp add: vs_ok_def)
  show ?thesis
  proof (cases rule: prepare_load_cases [OF ram assms(3) prepare_load_zero [OF assms(2)]])
    case 1
    then show ?thesis using vs_ok_moved [OF assms(1)] assms(2) by simp
  next
    case (2 p2 p3 f)
    then show ?thesis using vs_ok_space [OF assms(1,3) 2(2-5)] assms(2) by simp
  qed
qed

lemma vs_copy_ok:
  assumes "vs_ok y" and "as \<in> set (vs_spaces y)" and "as_copy mem as (vs_vm y) = Some (r, s)"
  shows "vs_ok (case r of Inl e \<Rightarrow> y\<lparr>vs_vm := s\<rparr> | Inr new \<Rightarrow> y\<lparr>vs_vm := s, vs_spaces := new # vs_spaces y\<rparr>)"
proof -
  have ram: "ram_ok (vs_vm y)" using assms(1) by (simp add: vs_ok_def)
  have sized: "as_sized as" using assms(1,2) by (simp add: vs_ok_def)
  show ?thesis
  proof (cases rule: as_copy_cases [OF ram vs_loaded [OF assms(1,2)], of mem])
    case 1
    then show ?thesis using vs_ok_moved [OF assms(1)] assms(3) by simp
  next
    case (2 p2 p3 f m new)
    have "ram_ok s" "firstpaddr s = f" using 2(1,6) assms(3) by (auto simp: ram_ok_def)
    then show ?thesis using vs_ok_space [OF assms(1) sized 2(3-5)] 2(1,2) assms(3) by simp
  qed
qed

lemma kernel_pages_small:
  assumes "- (2 ^ 31) \<le> n" and "n < 2 ^ 31" and "kernel_pages n < 2 ^ 19"
  shows "0 \<le> n" "n < 2 ^ 19"
proof -
  have "int (kernel_pages n) = n mod 2 ^ 32" by (simp add: kernel_pages_def unsigned_of_int take_bit_eq_mod)
  moreover have "n mod 2 ^ 32 = (if 0 \<le> n then n else n + 2 ^ 32)"
    using assms(1,2) mod_pos_pos_trivial [of n "2 ^ 32"] mod_pos_pos_trivial [of "n + 2 ^ 32" "2 ^ 32"] by simp
  ultimately show "0 \<le> n" "n < 2 ^ 19" using assms by (simp_all split: if_splits)
qed

lemma alloc_kpages_fail:
  assumes "ram_ok s" and "unat (of_int n :: 32 word) < 2 ^ 19" and "alloc_kpages n s = (0, s')"
  shows "s' = s"
proof (cases rule: getppages_cases [OF assms(1,2)])
  case 1
  then show ?thesis using assms(3) by (simp add: alloc_kpages_def)
next
  case (2 f)
  have "unat (firstpaddr s) < 2 ^ 31" using assms(1) by (simp add: ram_ok_def word_le_nat_alt)
  then have "unat (PADDR_TO_KVADDR (firstpaddr s)) \<noteq> 0" by (simp add: unat_kvaddr)
  then have "PADDR_TO_KVADDR (firstpaddr s) \<noteq> 0" by auto
  then show ?thesis using assms(3) 2(1,4) by (simp add: alloc_kpages_def)
qed

lemma vs_step_ok:
  assumes "vs_ok y" and "vm_step y y'" and "requests_ok y'"
  shows "vs_ok y'"
  using assms(2)
proof (cases rule: vm_step.cases)
  case (vs_load as as' s)
  then have "as_sized as" using assms(3) by (simp add: requests_ok_def region_pages_def as_sized_def)
  then show ?thesis using vs_load_ok [OF assms(1) vs_load(2)] vs_load(1) by simp
next
  case (vs_load_fail as e as' s)
  then have "as_sized as" using assms(3) by (simp add: requests_ok_def region_pages_def as_sized_def)
  then show ?thesis using vs_load_ok [OF assms(1) vs_load_fail(2)] vs_load_fail(1) by simp
next
  case vs_copy
  then show ?thesis using vs_copy_ok [OF assms(1) vs_copy(2,3)] by simp
next
  case vs_copy_fail
  then show ?thesis using vs_copy_ok [OF assms(1) vs_copy_fail(2,3)] by simp
next
  case (vs_kpages n a s)
  then have "kernel_pages n < 2 ^ 19" using assms(3) by (simp add: requests_ok_def)
  note n = kernel_pages_small [OF vs_kpages(2,3) this]
  show ?thesis using vs_kpages_ok [OF assms(1) n vs_kpages(4,5)] vs_kpages(1) by simp
next
  case (vs_kpages_fail n s)
  then have "kernel_pages n < 2 ^ 19" "ram_ok (vs_vm y)" using assms(1,3) by (simp_all add: requests_ok_def vs_ok_def)
  then have "s = vs_vm y" using vs_kpages_fail(4) by (intro alloc_kpages_fail) (simp_all add: kernel_pages_def)
  then show ?thesis using assms(1) vs_kpages_fail(1) by simp
next
  case (vs_fault as ft a r s)
  then show ?thesis using vs_ok_same [OF assms(1), of s] vm_fault_same [OF vs_fault(3)] by simp
next
  case (vs_switch as s)
  then show ?thesis using vs_ok_same [OF assms(1), of s] as_activate_same [OF vs_switch(2)] by simp
next
  case vs_store
  then show ?thesis using vs_ok_same [OF assms(1)] by simp
qed

lemma requests_grow: "vm_step y y' \<Longrightarrow> requests_ok y' \<Longrightarrow> requests_ok y"
  by (auto elim!: vm_step.cases simp: requests_ok_def)

interpretation vmsys: invariant_of vm_start vm_step "\<lambda>y. requests_ok y \<longrightarrow> vs_ok y"
  by unfold_locales (use vs_start_ok vs_step_ok requests_grow in blast)+

lemma separate_spaces:
  assumes "separate (concat (map as_blocks xs))" and "i < length xs" and "j < length xs" and "i \<noteq> j"
    and "x \<in> set (as_blocks (xs ! i))" and "x' \<in> set (as_blocks (xs ! j))"
  shows "brange x \<inter> brange x' = {}"
proof -
  have lt: "brange x \<inter> brange x' = {}" if "i < j" "j < length xs" "x \<in> set (as_blocks (xs ! i))" "x' \<in> set (as_blocks (xs ! j))" for i j x x'
  proof -
    have "xs = take j xs @ drop j xs" by simp
    then have s: "separate (concat (map as_blocks (take j xs)) @ concat (map as_blocks (drop j xs)))"
      using assms(1) by (metis concat_append map_append)
    have "xs ! i \<in> set (take j xs)" using that(1,2) by (auto simp: in_set_conv_nth intro: exI [of _ i])
    moreover have "xs ! j \<in> set (drop j xs)" using that(2) by (metis Cons_nth_drop_Suc list.set_intros(1))
    ultimately show ?thesis using s that(3,4) unfolding separate_append by auto
  qed
  show ?thesis
  proof (cases "i < j")
    case True
    then show ?thesis by (rule lt [OF _ assms(3,5,6)])
  next
    case False
    then have "j < i" using assms(4) by simp
    then show ?thesis using lt [OF _ assms(2,6,5)] by blast
  qed
qed

text \<open>
  C11. Isolation: in every state the system reaches without a request for \<open>2 ^ 19\<close> pages (2 gigabytes) or more, two different
  virtual addresses, in the same address space or in two loaded ones, are translated to different physical addresses,
  and none is translated into pages the kernel holds. The code does not check the size of a request, and the limit is
  needed: for a larger one the computation of \<open>ram_stealmem\<close> may wrap around and hand out pages that are in use.
\<close>

theorem vm_isolation:
  assumes "reachable vm_start vm_step y" and "requests_ok y" and "i < length (vs_spaces y)" and "j < length (vs_spaces y)"
    and "fault_paddr (vs_spaces y ! i) a = Some p" and "fault_paddr (vs_spaces y ! j) b = Some q" and "(i, a) \<noteq> (j, b)"
  shows "p \<noteq> q \<and> (\<forall>k \<in> set (vs_kpages y). unat p \<notin> brange (kblock k))"
proof -
  have ok: "vs_ok y" by (rule vmsys.reachable_inv [OF assms(1), rule_format, OF assms(2)])
  have f: "unat (firstpaddr (vs_vm y)) < 2 ^ 32" using ok by (simp add: vs_ok_def ram_ok_def word_le_nat_alt)
  have m: "vs_spaces y ! i \<in> set (vs_spaces y)" "vs_spaces y ! j \<in> set (vs_spaces y)" using assms(3,4) by simp_all
  note l = vs_loaded [OF ok m(1), unfolded as_loaded_def] vs_loaded [OF ok m(2), unfolded as_loaded_def]
  obtain k where k: "k < 3" "unat p \<in> brange (as_blocks (vs_spaces y ! i) ! k)"
    by (rule fault_paddr_block [OF assms(5)]) (use l(1) f in auto)
  obtain n where n: "n < 3" "unat q \<in> brange (as_blocks (vs_spaces y ! j) ! n)"
    by (rule fault_paddr_block [OF assms(6)]) (use l(2) f in auto)
  have in3: "as_blocks x ! k' \<in> set (as_blocks x)" if "k' < 3" for x k' using that by (intro nth_mem) (simp add: as_blocks_def)
  have "p \<noteq> q"
  proof (cases "i = j")
    case True
    then show ?thesis using fault_paddr_inj [OF assms(5) _ _ _ _ f] assms(6,7) l(1) by auto
  next
    case False
    have "brange x \<inter> brange x' = {}" if "x \<in> set (as_blocks (vs_spaces y ! i))" "x' \<in> set (as_blocks (vs_spaces y ! j))" for x x'
      by (rule separate_spaces [OF _ assms(3,4) False that]) (use ok in \<open>simp add: vs_ok_def vs_blocks_def separate_append\<close>)
    then show ?thesis using k n in3 by blast
  qed
  moreover have "unat p \<notin> brange (kblock x)" if "x \<in> set (vs_kpages y)" for x
  proof -
    have "as_blocks (vs_spaces y ! i) ! k \<in> set (concat (map as_blocks (vs_spaces y)))" using in3 [OF k(1)] m(1) by auto
    moreover have "kblock x \<in> set (map kblock (vs_kpages y))" using that by simp
    moreover have "\<forall>u \<in> set (concat (map as_blocks (vs_spaces y))). \<forall>v \<in> set (map kblock (vs_kpages y)). brange u \<inter> brange v = {}"
      using ok unfolding vs_ok_def vs_blocks_def separate_append by (elim conjE)
    ultimately have "brange (as_blocks (vs_spaces y ! i) ! k) \<inter> brange (kblock x) = {}" by (simp only: Ball_def)
    then show ?thesis using k(2) by (simp add: disjoint_iff)
  qed
  ultimately show ?thesis by blast
qed

text \<open>A machine with a little memory, and a program with two regions loaded twice.\<close>

definition boot_vm :: vm where
  "boot_vm = \<lparr>firstpaddr = 0x20000, lastpaddr = 0x80000, tlb = replicate 64 (0x80000000, 0), vm_mem = (\<lambda>_. 0), vm_curspl = 0\<rparr>"

definition prog_as :: addrspace where
  "prog_as = \<lparr>as_vbase1 = 0x400000, as_pbase1 = 0, as_npages1 = 2, as_vbase2 = 0x10000000, as_pbase2 = 0, as_npages2 = 1, as_stackpbase = 0\<rparr>"

definition first_as :: addrspace where
  "first_as = prog_as\<lparr>as_pbase1 := 0x20000, as_pbase2 := 0x22000, as_stackpbase := 0x23000\<rparr>"

definition second_as :: addrspace where
  "second_as = prog_as\<lparr>as_pbase1 := 0x2f000, as_pbase2 := 0x31000, as_stackpbase := 0x32000\<rparr>"

lemmas load_defs = as_prepare_load_def getppages_def ram_stealmem_def vm_splhigh_def vm_splx_def PAGE_SIZE_def DUMBVM_STACKPAGES_def
  boot_vm_def prog_as_def first_as_def second_as_def Let_def

lemma load_first: "as_prepare_load prog_as boot_vm = Some (Inr (), first_as, boot_vm\<lparr>firstpaddr := 0x2f000\<rparr>)"
  by (simp add: load_defs)

lemma load_second: "as_prepare_load prog_as (boot_vm\<lparr>firstpaddr := 0x2f000\<rparr>) = Some (Inr (), second_as, boot_vm\<lparr>firstpaddr := 0x3e000\<rparr>)"
  by (simp add: load_defs)

lemma boot_ram_ok: "ram_ok boot_vm" "ram_ok (boot_vm\<lparr>firstpaddr := 0x2f000\<rparr>)"
  by (simp_all add: ram_ok_def boot_vm_def)

definition two_spaces :: vsys where
  "two_spaces = \<lparr>vs_vm = boot_vm\<lparr>firstpaddr := 0x40000\<rparr>, vs_spaces = [second_as, first_as], vs_kpages = [(0x8003e000, 2)], vs_requests = [2, 2, 1, 2, 1]\<rparr>"

lemma kpages_third: "alloc_kpages 2 (boot_vm\<lparr>firstpaddr := 0x3e000\<rparr>) = (0x8003e000, boot_vm\<lparr>firstpaddr := 0x40000\<rparr>)"
  by (simp add: load_defs alloc_kpages_def PADDR_TO_KVADDR_def MIPS_KSEG0_def)

lemma two_spaces_reachable: "reachable vm_start vm_step two_spaces"
proof -
  let ?y0 = "\<lparr>vs_vm = boot_vm, vs_spaces = [], vs_kpages = [], vs_requests = []\<rparr>"
  let ?y1 = "\<lparr>vs_vm = boot_vm\<lparr>firstpaddr := 0x2f000\<rparr>, vs_spaces = [first_as], vs_kpages = [], vs_requests = [2, 1]\<rparr>"
  let ?y2 = "\<lparr>vs_vm = boot_vm\<lparr>firstpaddr := 0x3e000\<rparr>, vs_spaces = [second_as, first_as], vs_kpages = [], vs_requests = [2, 1, 2, 1]\<rparr>"
  have r: "region_pages prog_as = [2, 1]" by (simp add: region_pages_def prog_as_def)
  have "reachable vm_start vm_step ?y0" using boot_ram_ok(1) by (intro reach_start) (simp add: vm_start_def)
  moreover have "vm_step ?y0 ?y1" using vs_load [of prog_as ?y0] load_first by (simp add: r)
  moreover have "vm_step ?y1 ?y2" using vs_load [of prog_as ?y1] load_second by (simp add: r)
  moreover have "vm_step ?y2 two_spaces" using vs_kpages [of 2 ?y2] kpages_third by (simp add: two_spaces_def kernel_pages_def)
  ultimately show ?thesis by (meson reach_next)
qed

lemma two_spaces_requests: "requests_ok two_spaces"
  by (simp add: requests_ok_def two_spaces_def)

lemma two_spaces_paddr: "fault_paddr second_as 0x401000 = Some 0x30000" "fault_paddr first_as 0x401000 = Some 0x21000"
  by (simp_all add: fault_paddr_def load_defs USERSTACK_def MIPS_KSEG0_def)

theorem vm_isolation_witness:
  "fault_paddr (vs_spaces two_spaces ! 0) 0x401000 = Some 0x30000 \<and> fault_paddr (vs_spaces two_spaces ! 1) 0x401000 = Some 0x21000 \<and>
   (0x30000 :: 32 word) \<noteq> 0x21000 \<and> unat (0x30000 :: 32 word) \<notin> brange (kblock (0x8003e000, 2))"
  using two_spaces_paddr vm_isolation [OF two_spaces_reachable two_spaces_requests, of 0 1 "0x401000" "0x30000" "0x401000" "0x21000"]
  by (simp add: two_spaces_def)

lemma first_loaded: "as_loaded (boot_vm\<lparr>firstpaddr := 0x2f000\<rparr>) first_as"
  by (simp add: as_loaded_def as_sized_def as_blocks_def below_def brange_def first_as_def prog_as_def)

theorem as_copy_exact_witness:
  "\<exists>r s'. as_copy True first_as (boot_vm\<lparr>firstpaddr := 0x2f000\<rparr>) = Some (r, s') \<and>
    (case r of Inl e \<Rightarrow> e = ENOMEM \<and> vm_mem s' = vm_mem boot_vm
     | Inr new \<Rightarrow> (\<forall>a. user_byte s' new a = user_byte (boot_vm\<lparr>firstpaddr := 0x2f000\<rparr>) first_as a))"
  using as_copy_exact [OF boot_ram_ok(2) first_loaded, of True] by (fastforce split: sum.splits)

text \<open>
  C36. \<open>ram_stealmem\<close> computes its limit modulo \<open>2 ^ 32\<close>: a request for \<open>2 ^ 20 - k\<close> pages, more than all of
  memory, succeeds, and moves the first free address down by \<open>k\<close> pages, so the next allocation gets
  pages that are in use.
\<close>

theorem ram_stealmem_wraps:
  assumes "ram_ok s" and "0 < k" and "4096 * k < unat (firstpaddr s)"
  shows "\<exists>s'. ram_stealmem (of_nat (2 ^ 20 - k)) s = (firstpaddr s, s') \<and> unat (lastpaddr s) < 4096 * (2 ^ 20 - k) \<and>
    unat (firstpaddr s') = unat (firstpaddr s) - 4096 * k \<and> fst (ram_stealmem 1 s') = firstpaddr s'"
proof -
  have F: "unat (firstpaddr s) \<le> unat (lastpaddr s)" "unat (lastpaddr s) \<le> 508 * 1024 * 1024" using assms(1) by (simp_all add: ram_ok_def word_le_nat_alt)
  have k: "4096 * k < 508 * 1024 * 1024" using assms(3) F by linarith
  define N :: nat where "N = 2 ^ 20 - k"
  have N: "4096 * N = 2 ^ 32 - 4096 * k" "N < 2 ^ 20" using k assms(2) by (simp_all add: N_def)
  have n: "unat (of_nat N :: 32 word) = N" using N(2) by (simp add: unat_of_nat)
  have sz: "unat (of_nat N * PAGE_SIZE) = 2 ^ 32 - 4096 * k" using unat_pages [of "of_nat N"] n N by simp
  let ?f = "firstpaddr s + of_nat N * PAGE_SIZE"
  have "unat ?f = (unat (firstpaddr s) + (2 ^ 32 - 4096 * k)) mod 2 ^ 32" using sz by (simp add: unat_word_ariths)
  also have "unat (firstpaddr s) + (2 ^ 32 - 4096 * k) = (unat (firstpaddr s) - 4096 * k) + 2 ^ 32" using k assms(3) by simp
  also have "\<dots> mod 2 ^ 32 = unat (firstpaddr s) - 4096 * k" using F by simp
  finally have f: "unat ?f = unat (firstpaddr s) - 4096 * k" .
  have ok: "\<not> ?f > lastpaddr s" using f F by (simp add: word_less_nat_alt)
  have "unat (?f + PAGE_SIZE) = unat ?f + 4096"
    using unat_add_small [of ?f PAGE_SIZE] f F by (simp add: PAGE_SIZE_def)
  then have "\<not> ?f + PAGE_SIZE > lastpaddr s" using f F k assms(2,3) by (simp add: word_less_nat_alt)
  then show ?thesis using ok f F k N(1) unfolding N_def [symmetric] by (simp add: ram_stealmem_def Let_def)
qed

theorem ram_stealmem_wraps_witness:
  "\<exists>s'. ram_stealmem (of_nat (2 ^ 20 - 1)) boot_vm = (firstpaddr boot_vm, s') \<and> unat (lastpaddr boot_vm) < 4096 * (2 ^ 20 - 1) \<and>
    unat (firstpaddr s') = unat (firstpaddr boot_vm) - 4096 * 1 \<and> fst (ram_stealmem 1 s') = firstpaddr s'"
  by (rule ram_stealmem_wraps [OF boot_ram_ok(1)]) (simp_all add: boot_vm_def)

section \<open>Page faults and the TLB\<close>

definition tlb_valid :: "32 word \<times> 32 word \<Rightarrow> bool" where
  "tlb_valid e \<longleftrightarrow> snd e AND TLBLO_VALID \<noteq> 0"

text \<open>The valid entries translate as the address space says, and no page has two of them.\<close>

definition tlb_ok :: "addrspace \<Rightarrow> vm \<Rightarrow> bool" where
  "tlb_ok as s \<longleftrightarrow> length (tlb s) = NUM_TLB \<and>
     (\<forall>e \<in> set (tlb s). tlb_valid e \<longrightarrow> fault_paddr as (fst e) = Some (snd e AND TLBLO_PPAGE)) \<and>
     distinct (map fst (filter tlb_valid (tlb s)))"

definition tlb_maps :: "vm \<Rightarrow> 32 word \<Rightarrow> bool" where
  "tlb_maps s page \<longleftrightarrow> (\<exists>e \<in> set (tlb s). tlb_valid e \<and> fst e = page)"

lemma aligned_add: "x AND PAGE_FRAME = x \<Longrightarrow> y AND PAGE_FRAME = y \<Longrightarrow> (x + y) AND PAGE_FRAME = x + y"
  unfolding page_aligned_iff by (simp add: unat_word_ariths mod_mod_cancel mod_eq_0_iff_dvd dvd_mod_iff)

lemma aligned_diff: "x AND PAGE_FRAME = x \<Longrightarrow> y AND PAGE_FRAME = y \<Longrightarrow> (x - y) AND PAGE_FRAME = x - y"
proof -
  assume a: "x AND PAGE_FRAME = x" "y AND PAGE_FRAME = y"
  then have m: "4096 dvd unat x" "4096 dvd unat y" unfolding page_aligned_iff by auto
  have "unat x = (unat (x - y) + unat y) mod 2 ^ 32" using unat_word_ariths(1) [of "x - y" y] by simp
  then have "4096 dvd (unat (x - y) + unat y) mod 2 ^ 32" using m(1) by simp
  then have "4096 dvd unat (x - y) + unat y" by (simp add: dvd_mod_iff)
  then show ?thesis using m(2) unfolding page_aligned_iff by (simp add: dvd_add_left_iff)
qed

lemma aligned_frame: "(x AND PAGE_FRAME) AND PAGE_FRAME = x AND PAGE_FRAME"
  by (simp add: and.assoc)

lemma fault_paddr_aligned:
  assumes "as_ready as" and "fault_paddr as (a AND PAGE_FRAME) = Some p"
  shows "p AND PAGE_FRAME = p"
proof -
  have s: "(USERSTACK - DUMBVM_STACKPAGES * PAGE_SIZE) AND PAGE_FRAME = USERSTACK - DUMBVM_STACKPAGES * PAGE_SIZE"
    by (simp add: USERSTACK_def MIPS_KSEG0_def DUMBVM_STACKPAGES_def PAGE_SIZE_def PAGE_FRAME_def)
  have r: "as_vbase1 as AND PAGE_FRAME = as_vbase1 as" "as_pbase1 as AND PAGE_FRAME = as_pbase1 as" "as_vbase2 as AND PAGE_FRAME = as_vbase2 as"
      "as_pbase2 as AND PAGE_FRAME = as_pbase2 as" "as_stackpbase as AND PAGE_FRAME = as_stackpbase as"
    using assms(1) by (simp_all add: as_ready_def)
  consider "p = (a AND PAGE_FRAME) - as_vbase1 as + as_pbase1 as" | "p = (a AND PAGE_FRAME) - as_vbase2 as + as_pbase2 as"
    | "p = (a AND PAGE_FRAME) - (USERSTACK - DUMBVM_STACKPAGES * PAGE_SIZE) + as_stackpbase as"
    using assms(2) unfolding fault_paddr_def Let_def by (auto split: if_splits)
  then show ?thesis
    by cases (use aligned_add [OF aligned_diff [OF aligned_frame [of a]]] r s in blast)+
qed

lemma tlb_entry:
  assumes "p AND PAGE_FRAME = p"
  shows "tlb_valid (h, p OR TLBLO_DIRTY OR TLBLO_VALID)" "(p OR TLBLO_DIRTY OR TLBLO_VALID) AND TLBLO_PPAGE = p"
proof -
  let ?e = "p OR TLBLO_DIRTY OR TLBLO_VALID"
  have "?e AND TLBLO_VALID = (p AND TLBLO_VALID) OR TLBLO_VALID"
    by (simp add: bit.conj_disj_distrib2 TLBLO_DIRTY_def TLBLO_VALID_def)
  moreover have "bit ((p AND TLBLO_VALID) OR TLBLO_VALID) 9" by (simp add: bit_simps TLBLO_VALID_def)
  ultimately have "bit (?e AND TLBLO_VALID) 9" by simp
  then show "tlb_valid (h, ?e)" by (auto simp: tlb_valid_def)
  have "?e AND TLBLO_PPAGE = (p AND PAGE_FRAME) OR ((TLBLO_DIRTY OR TLBLO_VALID) AND TLBLO_PPAGE)"
    by (simp add: bit.conj_disj_distrib2 PAGE_FRAME_def TLBLO_PPAGE_def or.assoc)
  also have "(TLBLO_DIRTY OR TLBLO_VALID) AND TLBLO_PPAGE = 0" by (simp add: TLBLO_DIRTY_def TLBLO_VALID_def TLBLO_PPAGE_def)
  finally show "?e AND TLBLO_PPAGE = p" using assms by simp
qed

lemma fault_loop_result:
  "i + n = length (tlb s) \<Longrightarrow>
   (fault_loop a p i n s = Some None \<and> (\<forall>j. i \<le> j \<and> j < length (tlb s) \<longrightarrow> tlb_valid (tlb s ! j))) \<or>
   (\<exists>j < length (tlb s). fault_loop a p i n s = Some (Some (s\<lparr>tlb := (tlb s)[j := (a, p OR TLBLO_DIRTY OR TLBLO_VALID)]\<rparr>)) \<and>
      \<not> tlb_valid (tlb s ! j))"
proof (induction n arbitrary: i)
  case (Suc n)
  obtain h l where e: "tlb s ! i = (h, l)" by fastforce
  have i: "i < length (tlb s)" "i + 1 + n = length (tlb s)" using Suc.prems by simp_all
  have rd: "TLB_Read i s = Some (h, l)" using i e by (simp add: TLB_Read_def)
  show ?case
  proof (cases "l AND TLBLO_VALID = 0")
    case True
    then show ?thesis using i rd e by (intro disjI2 exI [of _ i]) (simp add: TLB_Write_def tlb_valid_def)
  next
    case False
    then have st: "fault_loop a p i (Suc n) s = fault_loop a p (i + 1) n s" "tlb_valid (tlb s ! i)" using rd e by (simp_all add: tlb_valid_def)
    have "tlb_valid (tlb s ! j)" if "\<forall>j. i + 1 \<le> j \<and> j < length (tlb s) \<longrightarrow> tlb_valid (tlb s ! j)" "i \<le> j" "j < length (tlb s)" for j
      using that st(2) by (cases "j = i") simp_all
    then show ?thesis unfolding st(1) using Suc.IH [OF i(2)] by blast
  qed
qed auto

lemma filter_update:
  assumes "j < length t" and "\<not> P (t ! j)" and "P e"
  obtains us vs where "filter P t = us @ vs" and "filter P (t[j := e]) = us @ e # vs"
proof -
  have "t = take j t @ t ! j # drop (Suc j) t" using assms(1) by (rule id_take_nth_drop)
  then have "filter P t = filter P (take j t) @ filter P (drop (Suc j) t)" using assms(2) by (metis filter.simps(2) filter_append)
  moreover have "filter P (t[j := e]) = filter P (take j t) @ e # filter P (drop (Suc j) t)"
    using assms(1,3) by (simp add: upd_conv_take_nth_drop)
  ultimately show thesis by (rule that)
qed

lemma tlb_ok_insert:
  assumes "tlb_ok as s" and "\<not> tlb_maps s a" and "fault_paddr as a = Some p" and "p AND PAGE_FRAME = p"
    and "j < length (tlb s)" and "\<not> tlb_valid (tlb s ! j)"
  shows "tlb_ok as (s\<lparr>tlb := (tlb s)[j := (a, p OR TLBLO_DIRTY OR TLBLO_VALID)]\<rparr>)"
proof -
  let ?e = "(a, p OR TLBLO_DIRTY OR TLBLO_VALID)"
  note e = tlb_entry [OF assms(4)]
  obtain us vs where f: "filter tlb_valid (tlb s) = us @ vs" "filter tlb_valid ((tlb s)[j := ?e]) = us @ ?e # vs"
    by (rule filter_update [OF assms(5,6) e(1)])
  have "a \<notin> fst ` set (us @ vs)" unfolding f(1) [symmetric] using assms(2) by (auto simp: tlb_maps_def)
  moreover have "distinct (map fst (us @ vs))" using assms(1) f(1) by (simp add: tlb_ok_def)
  ultimately have "distinct (map fst (us @ ?e # vs))" by auto
  moreover have "\<forall>x \<in> set ((tlb s)[j := ?e]). tlb_valid x \<longrightarrow> fault_paddr as (fst x) = Some (snd x AND TLBLO_PPAGE)"
    using assms(1,3) e(2) set_update_subset_insert [of "tlb s" j ?e] by (fastforce simp: tlb_ok_def)
  ultimately show ?thesis using assms(1) f(2) by (simp add: tlb_ok_def)
qed

text \<open>
  C19. A page fault of an access to a page that has no entry in a TLB that agrees with the address space:
  \<open>vm_fault\<close> returns with the interrupt priority as it was and the TLB still in agreement. On success
  the page has an entry with its translation and write permission; otherwise the error is \<open>EFAULT\<close>, the page is
  in no region, or all 64 entries are valid, and nothing has changed.
\<close>

theorem vm_fault_maps:
  assumes "tlb_ok as s" and "as_ready as" and "ft = VM_FAULT_READ \<or> ft = VM_FAULT_WRITE" and "\<not> tlb_maps s (a AND PAGE_FRAME)"
  shows "\<exists>r s'. vm_fault ft a (Some as) s = Some (r, s') \<and> tlb_ok as s' \<and> vm_curspl s' = vm_curspl s \<and>
    (case r of
       Inr _ \<Rightarrow> \<exists>p. fault_paddr as (a AND PAGE_FRAME) = Some p \<and> (a AND PAGE_FRAME, p OR TLBLO_DIRTY OR TLBLO_VALID) \<in> set (tlb s') \<and>
          s' = s\<lparr>tlb := tlb s'\<rparr>
     | Inl e \<Rightarrow> e = EFAULT \<and> s' = s \<and> (fault_paddr as (a AND PAGE_FRAME) = None \<or> (\<forall>x \<in> set (tlb s). tlb_valid x)))"
proof -
  let ?a = "a AND PAGE_FRAME" and ?s1 = "s\<lparr>vm_curspl := SPL_HIGH\<rparr>"
  have ft: "ft \<noteq> VM_FAULT_READONLY" using assms(3) by (auto simp: VM_FAULT_READ_def VM_FAULT_WRITE_def VM_FAULT_READONLY_def)
  show ?thesis
  proof (cases "fault_paddr as ?a")
    case None
    then show ?thesis using assms ft by (auto simp: vm_fault_def Let_def vm_splhigh_def vm_splx_def)
  next
    case (Some p)
    have al: "p AND PAGE_FRAME = p" by (rule fault_paddr_aligned [OF assms(2) Some])
    have len: "0 + NUM_TLB = length (tlb ?s1)" using assms(1) by (simp add: tlb_ok_def)
    have run: "vm_fault ft a (Some as) s = fault_loop ?a p 0 NUM_TLB ?s1 \<bind>
        (\<lambda>r. case r of None \<Rightarrow> Some (Inl EFAULT, s) | Some s2 \<Rightarrow> Some (Inr (), s2\<lparr>vm_curspl := vm_curspl s\<rparr>))"
      using assms(2,3) ft Some al by (auto simp: vm_fault_def Let_def vm_splhigh_def vm_splx_def)
    from fault_loop_result [OF len, of ?a p] show ?thesis
    proof (elim disjE exE conjE)
      assume "fault_loop ?a p 0 NUM_TLB ?s1 = Some None" and v: "\<forall>j. 0 \<le> j \<and> j < length (tlb ?s1) \<longrightarrow> tlb_valid (tlb ?s1 ! j)"
      moreover have "\<forall>x \<in> set (tlb s). tlb_valid x" using v by (simp add: all_set_conv_all_nth)
      ultimately show ?thesis using run assms(1) by auto
    next
      fix j
      let ?t = "(tlb s)[j := (?a, p OR TLBLO_DIRTY OR TLBLO_VALID)]"
      assume j: "j < length (tlb ?s1)" "fault_loop ?a p 0 NUM_TLB ?s1 = Some (Some (?s1\<lparr>tlb := (tlb ?s1)[j := (?a, p OR TLBLO_DIRTY OR TLBLO_VALID)]\<rparr>))"
        "\<not> tlb_valid (tlb ?s1 ! j)"
      have "vm_fault ft a (Some as) s = Some (Inr (), s\<lparr>tlb := ?t\<rparr>)" using run j(2) by simp
      moreover have "tlb_ok as (s\<lparr>tlb := ?t\<rparr>)" using tlb_ok_insert [OF assms(1,4) Some al] j(1,3) by simp
      moreover have "(?a, p OR TLBLO_DIRTY OR TLBLO_VALID) \<in> set ?t" using j(1) by (simp add: set_update_memI)
      ultimately show ?thesis using Some by auto
    qed
  qed
qed

lemma boot_tlb: "tlb_ok as boot_vm" "\<not> tlb_maps boot_vm a"
  by (auto simp: tlb_ok_def tlb_maps_def boot_vm_def NUM_TLB_def tlb_valid_def)

theorem vm_fault_maps_witness:
  "\<exists>r s'. vm_fault VM_FAULT_WRITE 0x401234 (Some first_as) boot_vm = Some (r, s') \<and> tlb_ok first_as s' \<and> vm_curspl s' = vm_curspl boot_vm \<and>
    (case r of
       Inr _ \<Rightarrow> \<exists>p. fault_paddr first_as (0x401234 AND PAGE_FRAME) = Some p \<and> (0x401234 AND PAGE_FRAME, p OR TLBLO_DIRTY OR TLBLO_VALID) \<in> set (tlb s') \<and>
          s' = boot_vm\<lparr>tlb := tlb s'\<rparr>
     | Inl e \<Rightarrow> e = EFAULT \<and> s' = boot_vm \<and> (fault_paddr first_as (0x401234 AND PAGE_FRAME) = None \<or> (\<forall>x \<in> set (tlb boot_vm). tlb_valid x)))"
  by (rule vm_fault_maps [OF boot_tlb(1) _ _ boot_tlb(2)]) (simp_all add: as_ready_def first_as_def prog_as_def PAGE_FRAME_def)

text \<open>After \<open>as_activate\<close> no page has a valid entry, so the TLB agrees with every address space.\<close>

lemma activate_loop_clears:
  "i + n \<le> length (tlb s) \<Longrightarrow> \<exists>t. activate_loop i n s = Some (s\<lparr>tlb := t\<rparr>) \<and> length t = length (tlb s) \<and>
     (\<forall>j < length t. i \<le> j \<and> j < i + n \<longrightarrow> \<not> tlb_valid (t ! j)) \<and> (\<forall>j < i. t ! j = tlb s ! j)"
proof (induction n arbitrary: i s)
  case 0
  then show ?case by (intro exI [of _ "tlb s"]) auto
next
  case (Suc n)
  let ?s = "s\<lparr>tlb := (tlb s)[i := (TLBHI_INVALID i, TLBLO_INVALID)]\<rparr>"
  obtain t where t: "activate_loop (i + 1) n ?s = Some (?s\<lparr>tlb := t\<rparr>)" "length t = length (tlb s)"
      "\<forall>j < length t. i + 1 \<le> j \<and> j < i + 1 + n \<longrightarrow> \<not> tlb_valid (t ! j)" "\<forall>j < i + 1. t ! j = tlb ?s ! j"
    using Suc.IH [of "i + 1" ?s] Suc.prems by auto
  have "\<not> tlb_valid (t ! i)" using t(4) Suc.prems by (simp add: tlb_valid_def TLBLO_INVALID_def)
  then have "\<not> tlb_valid (t ! j)" if "j < length t" "i \<le> j" "j < i + Suc n" for j
    using t(3) that by (cases "j = i") simp_all
  then show ?case using t Suc.prems by (intro exI [of _ t]) (simp add: TLB_Write_def)
qed

lemma as_activate_clears:
  assumes "length (tlb s) = NUM_TLB"
  obtains s' where "as_activate v s = Some s'" and "tlb_ok as s'" and "\<forall>a. \<not> tlb_maps s' a" and "vm_curspl s' = vm_curspl s"
proof -
  let ?s = "s\<lparr>vm_curspl := SPL_HIGH\<rparr>"
  obtain t where t: "activate_loop 0 NUM_TLB ?s = Some (?s\<lparr>tlb := t\<rparr>)" "length t = NUM_TLB" "\<forall>j < length t. \<not> tlb_valid (t ! j)"
    using activate_loop_clears [of 0 NUM_TLB ?s] assms by auto
  have n: "\<forall>e \<in> set t. \<not> tlb_valid e" using t(3) by (simp add: all_set_conv_all_nth)
  show thesis
  proof (rule that [of "s\<lparr>tlb := t\<rparr>"])
    show "as_activate v s = Some (s\<lparr>tlb := t\<rparr>)" using t(1) by (simp add: as_activate_def vm_splhigh_def vm_splx_def)
    have "filter tlb_valid t = []" using n by (simp add: filter_empty_conv)
    then show "tlb_ok as (s\<lparr>tlb := t\<rparr>)" using n t(2) by (simp add: tlb_ok_def)
  qed (use n in \<open>simp_all add: tlb_maps_def\<close>)
qed

end
