(* ===== verification/KHeap.thy ===== *)
theory KHeap
  imports DumbVmInv
begin

unbundle bit_operations_syntax

text \<open>
  The kernel heap (\<open>kern/lib/kheap.c\<close>) over physical memory. A \<open>struct pageref *\<close> is an index into the
  table \<open>pagerefs\<close>, a null pointer \<open>None\<close>; a free block holds the address of the next one in its first
  four bytes, in the byte order of the machine. The walks over the linked lists of page references carry a
  bound of one more than the size of the table; on a well-formed heap it is not reached. The consistency
  checks that are compiled out and the printed statistics are left out.
\<close>

section \<open>Words in memory\<close>

definition ld32 :: "memory \<Rightarrow> nat \<Rightarrow> nat" where
  "ld32 m a = unat (m a) * 2 ^ 24 + unat (m (a + 1)) * 2 ^ 16 + unat (m (a + 2)) * 2 ^ 8 + unat (m (a + 3))"

definition st32 :: "memory \<Rightarrow> nat \<Rightarrow> nat \<Rightarrow> memory" where
  "st32 m a v = m(a := of_nat (v div 2 ^ 24), a + 1 := of_nat (v div 2 ^ 16), a + 2 := of_nat (v div 2 ^ 8), a + 3 := of_nat v)"

definition sub32 :: "nat \<Rightarrow> nat \<Rightarrow> nat" where
  "sub32 a b = (a + 2 ^ 32 - b) mod 2 ^ 32"

text \<open>The loop of \<open>fill_deadbeef\<close> from word \<open>i\<close> with \<open>n\<close> to go.\<close>

primrec fill_deadbeef_from :: "nat \<Rightarrow> nat \<Rightarrow> nat \<Rightarrow> memory \<Rightarrow> memory" where
  "fill_deadbeef_from i 0 ptr m = m"
| "fill_deadbeef_from i (Suc n) ptr m = fill_deadbeef_from (i + 1) n ptr (st32 m (ptr + 4 * i) 0xdeadbeef)"

definition fill_deadbeef :: "nat \<Rightarrow> nat \<Rightarrow> memory \<Rightarrow> memory" where
  "fill_deadbeef ptr len m = fill_deadbeef_from 0 (len div 4) ptr m"

section \<open>The state\<close>

definition NSIZES :: nat where "NSIZES = 8"
definition sizes :: "nat list" where "sizes = [16, 32, 64, 128, 256, 512, 1024, 2048]"
definition LARGEST_SUBPAGE_SIZE :: nat where "LARGEST_SUBPAGE_SIZE = 2048"
definition INVALID_OFFSET :: nat where "INVALID_OFFSET = 0xffff"
definition NPAGEREFS :: nat where "NPAGEREFS = 4096 div 16"
definition INUSE_WORDS :: nat where "INUSE_WORDS = NPAGEREFS div 32"

record pageref =
  next_samesize :: "nat option"
  next_all :: "nat option"
  pageaddr_and_blocktype :: "32 word"
  freelist_offset :: nat
  nfree :: nat

record kheap =
  kh_vm :: vm
  pagerefs :: "pageref list"
  pagerefs_inuse :: "32 word list"
  sizebases :: "nat option list"
  allbase :: "nat option"

definition PR_PAGEADDR :: "pageref \<Rightarrow> nat" where "PR_PAGEADDR pr = unat (pageaddr_and_blocktype pr AND PAGE_FRAME)"
definition PR_BLOCKTYPE :: "pageref \<Rightarrow> nat" where "PR_BLOCKTYPE pr = unat (pageaddr_and_blocktype pr AND NOT PAGE_FRAME)"
definition MKPAB :: "32 word \<Rightarrow> nat \<Rightarrow> 32 word" where "MKPAB pa blk = (pa AND PAGE_FRAME) OR (of_nat blk AND NOT PAGE_FRAME)"

definition get_pr :: "kheap \<Rightarrow> nat \<Rightarrow> pageref option" where
  "get_pr h p = peek (pagerefs h) (int p)"

definition put_pr :: "nat \<Rightarrow> pageref \<Rightarrow> kheap \<Rightarrow> kheap option" where
  "put_pr p r h = map_option (\<lambda>t. h\<lparr>pagerefs := t\<rparr>) (poke (pagerefs h) (int p) r)"

definition hmem :: "kheap \<Rightarrow> memory" where
  "hmem h = vm_mem (kh_vm h)"

definition set_hmem :: "memory \<Rightarrow> kheap \<Rightarrow> kheap" where
  "set_hmem m h = h\<lparr>kh_vm := (kh_vm h)\<lparr>vm_mem := m\<rparr>\<rparr>"

section \<open>Page references\<close>

text \<open>The inner loop of \<open>allocpageref\<close>: \<open>k\<close> is the mask of bit \<open>j\<close>; it ends when the mask is shifted out.\<close>

primrec allocpageref_bit :: "nat \<Rightarrow> nat \<Rightarrow> 32 word \<Rightarrow> nat option" where
  "allocpageref_bit j 0 w = None"
| "allocpageref_bit j (Suc n) w = (if w AND push_bit j 1 = 0 then Some j else allocpageref_bit (j + 1) n w)"

text \<open>The outer loop, from word \<open>i\<close> with \<open>n\<close> to go; \<open>None\<close> inside when all are in use.\<close>

primrec allocpageref_from :: "nat \<Rightarrow> nat \<Rightarrow> kheap \<Rightarrow> (nat option \<times> kheap) option" where
  "allocpageref_from i 0 h = Some (None, h)"
| "allocpageref_from i (Suc n) h = do {
     w \<leftarrow> peek (pagerefs_inuse h) (int i);
     if w = 0xffffffff then allocpageref_from (i + 1) n h
     else do {
       j \<leftarrow> allocpageref_bit 0 32 w;
       Some (Some (i * 32 + j), h\<lparr>pagerefs_inuse := (pagerefs_inuse h)[i := w OR push_bit j 1]\<rparr>)
     }
   }"

definition allocpageref :: "kheap \<Rightarrow> (nat option \<times> kheap) option" where
  "allocpageref h = allocpageref_from 0 INUSE_WORDS h"

definition freepageref :: "nat \<Rightarrow> kheap \<Rightarrow> kheap option" where
  "freepageref j h = do {
     kassert (j < NPAGEREFS);
     let i = j div 32;
     let k = push_bit (j mod 32) (1 :: 32 word);
     w \<leftarrow> peek (pagerefs_inuse h) (int i);
     kassert (w AND k \<noteq> 0);
     Some (h\<lparr>pagerefs_inuse := (pagerefs_inuse h)[i := w AND NOT k]\<rparr>)
   }"

section \<open>Lists of page references\<close>

text \<open>Where a list pointer is stored: in the base of the list or in the reference before.\<close>

datatype slot = Base | NextOf nat

text \<open>The walk of \<open>remove_lists\<close> along the list with successor \<open>nxt\<close>, which stops at the slot that holds \<open>pr\<close>.\<close>

primrec find_slot :: "(pageref \<Rightarrow> nat option) \<Rightarrow> kheap \<Rightarrow> nat \<Rightarrow> nat \<Rightarrow> slot \<Rightarrow> nat option \<Rightarrow> slot option option" where
  "find_slot nxt h pr 0 guy cur = None"
| "find_slot nxt h pr (Suc n) guy cur = (case cur of
       None \<Rightarrow> Some None
     | Some g \<Rightarrow> if g = pr then Some (Some guy)
         else do { r \<leftarrow> get_pr h g; find_slot nxt h pr n (NextOf g) (nxt r) })"

definition remove_samesize :: "nat \<Rightarrow> nat \<Rightarrow> kheap \<Rightarrow> kheap option" where
  "remove_samesize pr blktype h = do {
     base \<leftarrow> peek (sizebases h) (int blktype);
     r \<leftarrow> get_pr h pr;
     guy \<leftarrow> find_slot next_samesize h pr (NPAGEREFS + 1) Base base;
     case guy of
       None \<Rightarrow> Some h
     | Some Base \<Rightarrow> Some (h\<lparr>sizebases := (sizebases h)[blktype := next_samesize r]\<rparr>)
     | Some (NextOf g) \<Rightarrow> do { q \<leftarrow> get_pr h g; put_pr g (q\<lparr>next_samesize := next_samesize r\<rparr>) h }
   }"

definition remove_all :: "nat \<Rightarrow> kheap \<Rightarrow> kheap option" where
  "remove_all pr h = do {
     r \<leftarrow> get_pr h pr;
     guy \<leftarrow> find_slot next_all h pr (NPAGEREFS + 1) Base (allbase h);
     case guy of
       None \<Rightarrow> Some h
     | Some Base \<Rightarrow> Some (h\<lparr>allbase := next_all r\<rparr>)
     | Some (NextOf g) \<Rightarrow> do { q \<leftarrow> get_pr h g; put_pr g (q\<lparr>next_all := next_all r\<rparr>) h }
   }"

definition remove_lists :: "nat \<Rightarrow> nat \<Rightarrow> kheap \<Rightarrow> kheap option" where
  "remove_lists pr blktype h = do {
     kassert (blktype < NSIZES);
     h1 \<leftarrow> remove_samesize pr blktype h;
     remove_all pr h1
   }"

section \<open>Allocation\<close>

text \<open>The loop of \<open>blocktype\<close> from index \<open>i\<close>; running off the table is the panic.\<close>

primrec blocktype_from :: "nat \<Rightarrow> nat list \<Rightarrow> nat \<Rightarrow> nat option" where
  "blocktype_from i [] sz = None"
| "blocktype_from i (s # ss) sz = (if sz \<le> s then Some i else blocktype_from (i + 1) ss sz)"

definition blocktype :: "nat \<Rightarrow> nat option" where
  "blocktype sz = blocktype_from 0 sizes sz"

text \<open>The search for a page with a free block.\<close>

primrec kmalloc_find :: "nat \<Rightarrow> kheap \<Rightarrow> nat \<Rightarrow> nat option \<Rightarrow> nat option option" where
  "kmalloc_find blktype h 0 cur = None"
| "kmalloc_find blktype h (Suc n) cur = (case cur of
       None \<Rightarrow> Some None
     | Some pr \<Rightarrow> do {
         r \<leftarrow> get_pr h pr;
         kassert (PR_BLOCKTYPE r = blktype);
         if nfree r > 0 then Some (Some pr) else kmalloc_find blktype h n (next_samesize r)
       })"

text \<open>The code at the label \<open>doalloc\<close>.\<close>

definition doalloc :: "nat \<Rightarrow> kheap \<Rightarrow> (nat \<times> kheap) option" where
  "doalloc pr h = do {
     r \<leftarrow> get_pr h pr;
     kassert (freelist_offset r < 4096);
     let prpage = PR_PAGEADDR r;
     let fla = prpage + freelist_offset r;
     let fl = ld32 (hmem h) fla;
     let nf = (nfree r + 2 ^ 16 - 1) mod 2 ^ 16;
     r1 \<leftarrow> (if fl \<noteq> 0 then do {
         kassert (nf > 0);
         kassert (sub32 fl prpage < 4096);
         Some (r\<lparr>nfree := nf, freelist_offset := sub32 fl prpage\<rparr>)
       }
       else do {
         kassert (nf = 0);
         Some (r\<lparr>nfree := nf, freelist_offset := INVALID_OFFSET\<rparr>)
       });
     h1 \<leftarrow> put_pr pr r1 h;
     Some (fla, h1)
   }"

text \<open>The loop that links the blocks of a fresh page, from block \<open>i\<close> with \<open>n\<close> to go.\<close>

primrec link_blocks :: "nat \<Rightarrow> nat \<Rightarrow> nat \<Rightarrow> nat \<Rightarrow> memory \<Rightarrow> memory option" where
  "link_blocks i 0 fla sz m = Some m"
| "link_blocks i (Suc n) fla sz m = do {
     let fl = fla + i * sz;
     let nxt = fla + (i - 1) * sz;
     kassert (fl \<noteq> nxt);
     link_blocks (i + 1) n fla sz (st32 m fl nxt)
   }"

text \<open>The fresh page gets its reference and its list of free blocks, and enters both lists.\<close>

definition init_page :: "nat \<Rightarrow> 32 word \<Rightarrow> nat \<Rightarrow> kheap \<Rightarrow> kheap option" where
  "init_page pr prpage blktype h = do {
     sz \<leftarrow> peek sizes (int blktype);
     base \<leftarrow> peek (sizebases h) (int blktype);
     let n = 4096 div sz;
     let fla = unat prpage;
     m \<leftarrow> link_blocks 1 (n - 1) fla sz (st32 (hmem h) fla 0);
     let off = (fla + (n - 1) * sz - fla) mod 2 ^ 16;
     kassert (off = (n - 1) * sz);
     h1 \<leftarrow> put_pr pr \<lparr>next_samesize = base, next_all = allbase h, pageaddr_and_blocktype = MKPAB prpage blktype,
        freelist_offset = off, nfree = n\<rparr> h;
     Some (set_hmem m (h1\<lparr>sizebases := (sizebases h1)[blktype := Some pr], allbase := Some pr\<rparr>))
   }"

definition hspl :: "kheap \<Rightarrow> int \<times> kheap" where
  "hspl h = (let (spl, s) = vm_splhigh (kh_vm h) in (spl, h\<lparr>kh_vm := s\<rparr>))"

definition hsplx :: "int \<Rightarrow> kheap \<Rightarrow> kheap" where
  "hsplx spl h = h\<lparr>kh_vm := vm_splx spl (kh_vm h)\<rparr>"

text \<open>The part of \<open>subpage_kmalloc\<close> that makes a new page. The result 0 is the null pointer.\<close>

definition kmalloc_newpage :: "nat \<Rightarrow> kheap \<Rightarrow> (nat \<times> kheap) option" where
  "kmalloc_newpage blktype h = do {
     (p, h1) \<leftarrow> allocpageref h;
     case p of
       None \<Rightarrow> Some (0, h1)
     | Some pr \<Rightarrow> do {
         let (prpage, s) = alloc_kpages 1 (kh_vm h1);
         let h2 = h1\<lparr>kh_vm := s\<rparr>;
         if prpage = 0 then do { h3 \<leftarrow> freepageref pr h2; Some (0, h3) }
         else do { h3 \<leftarrow> init_page pr prpage blktype h2; doalloc pr h3 }
       }
   }"

definition subpage_kmalloc :: "nat \<Rightarrow> kheap \<Rightarrow> (nat \<times> kheap) option" where
  "subpage_kmalloc sz h = do {
     blktype \<leftarrow> blocktype sz;
     let (spl, h1) = hspl h;
     base \<leftarrow> peek (sizebases h1) (int blktype);
     found \<leftarrow> kmalloc_find blktype h1 (NPAGEREFS + 1) base;
     (ret, h2) \<leftarrow> (case found of Some pr \<Rightarrow> doalloc pr h1 | None \<Rightarrow> kmalloc_newpage blktype h1);
     Some (ret, hsplx spl h2)
   }"

definition kmalloc :: "nat \<Rightarrow> kheap \<Rightarrow> (nat \<times> kheap) option" where
  "kmalloc sz h =
     (if sz \<ge> LARGEST_SUBPAGE_SIZE then
        let npages = (sz + 4096 - 1) mod 2 ^ 32 div 4096; (address, s) = alloc_kpages (int npages) (kh_vm h) in
        Some (unat address, h\<lparr>kh_vm := s\<rparr>)
      else subpage_kmalloc sz h)"

section \<open>Freeing\<close>

text \<open>The search for the page that holds the pointer.\<close>

primrec kfree_find :: "nat \<Rightarrow> kheap \<Rightarrow> nat \<Rightarrow> nat option \<Rightarrow> nat option option" where
  "kfree_find ptraddr h 0 cur = None"
| "kfree_find ptraddr h (Suc n) cur = (case cur of
       None \<Rightarrow> Some None
     | Some pr \<Rightarrow> do {
         r \<leftarrow> get_pr h pr;
         kassert (PR_BLOCKTYPE r < NSIZES);
         if ptraddr \<ge> PR_PAGEADDR r \<and> ptraddr < PR_PAGEADDR r + 4096 then Some (Some pr)
         else kfree_find ptraddr h n (next_all r)
       })"

text \<open>The part of \<open>subpage_kfree\<close> after the page was found.\<close>

definition kfree_block :: "nat \<Rightarrow> nat \<Rightarrow> kheap \<Rightarrow> kheap option" where
  "kfree_block ptraddr pr h = do {
     r \<leftarrow> get_pr h pr;
     let prpage = PR_PAGEADDR r;
     sz \<leftarrow> peek sizes (int (PR_BLOCKTYPE r));
     let offset = ptraddr - prpage;
     kassert (offset < 4096 \<and> offset mod sz = 0);
     let m = fill_deadbeef ptraddr sz (hmem h);
     let fla = prpage + offset;
     let m1 = st32 m fla (if freelist_offset r = INVALID_OFFSET then 0 else prpage + freelist_offset r);
     let nf = (nfree r + 1) mod 2 ^ 16;
     h1 \<leftarrow> put_pr pr (r\<lparr>freelist_offset := offset, nfree := nf\<rparr>) (set_hmem m1 h);
     kassert (nf \<le> 4096 div sz);
     if nf = 4096 div sz then do {
       h2 \<leftarrow> remove_lists pr (PR_BLOCKTYPE r) h1;
       let h3 = h2\<lparr>kh_vm := free_kpages (of_nat prpage) (kh_vm h2)\<rparr>;
       freepageref pr h3
     }
     else Some h1
   }"

text \<open>The result is whether the pointer was in a page of the subpage allocator.\<close>

definition subpage_kfree :: "nat \<Rightarrow> kheap \<Rightarrow> (bool \<times> kheap) option" where
  "subpage_kfree ptraddr h = do {
     let (spl, h1) = hspl h;
     found \<leftarrow> kfree_find ptraddr h1 (NPAGEREFS + 1) (allbase h1);
     case found of
       None \<Rightarrow> Some (False, hsplx spl h1)
     | Some pr \<Rightarrow> do { h2 \<leftarrow> kfree_block ptraddr pr h1; Some (True, hsplx spl h2) }
   }"

definition kfree :: "nat \<Rightarrow> kheap \<Rightarrow> kheap option" where
  "kfree ptr h =
     (if ptr = 0 then Some h
      else do {
        (sub, h1) \<leftarrow> subpage_kfree ptr h;
        if sub then Some h1
        else do {
          kassert (ptr mod 4096 = 0);
          Some (h1\<lparr>kh_vm := free_kpages (of_nat ptr) (kh_vm h1)\<rparr>)
        }
      })"

end
