(* ===== verification/KHeapInv.thy ===== *)
theory KHeapInv
  imports KHeap
begin

unbundle bit_operations_syntax

text \<open>
  The representation of the kernel heap: words in memory, the bit map and the lists of page references,
  the free lists of the pages, and the invariant that ties them together.
\<close>

section \<open>Memory\<close>

lemma ld32_cong: "(\<forall>x. a \<le> x \<and> x < a + 4 \<longrightarrow> m x = m' x) \<Longrightarrow> ld32 m a = ld32 m' a"
  by (simp add: ld32_def)

lemma st32_other: "x < a \<or> a + 4 \<le> x \<Longrightarrow> st32 m a v x = m x"
  by (auto simp: st32_def)

lemma ld32_st32_other: "a + 4 \<le> b \<or> b + 4 \<le> a \<Longrightarrow> ld32 (st32 m a v) b = ld32 m b"
  by (rule ld32_cong) (auto simp: st32_other)

lemma unat_of_byte: "unat (of_nat n :: 8 word) = n mod 256"
  by (simp add: unat_of_nat)

lemma ld32_st32: "v < 2 ^ 32 \<Longrightarrow> ld32 (st32 m a v) a = v"
proof -
  assume v: "v < 2 ^ 32"
  have "v div 2 ^ 24 < 2 ^ 8" using v by (simp add: less_mult_imp_div_less)
  then have 4: "v div 2 ^ 24 mod 256 = v div 2 ^ 24" by simp
  have 1: "v = v div 2 ^ 8 * 2 ^ 8 + v mod 256" by simp
  have 2: "v div 2 ^ 8 = v div 2 ^ 16 * 2 ^ 8 + v div 2 ^ 8 mod 256" using div_mult_mod_eq [of "v div 2 ^ 8" 256] by (simp add: div_mult2_eq [symmetric])
  have 3: "v div 2 ^ 16 = v div 2 ^ 24 * 2 ^ 8 + v div 2 ^ 16 mod 256" using div_mult_mod_eq [of "v div 2 ^ 16" 256] by (simp add: div_mult2_eq [symmetric])
  have "ld32 (st32 m a v) a = v div 2 ^ 24 * 2 ^ 24 + v div 2 ^ 16 mod 256 * 2 ^ 16 + v div 2 ^ 8 mod 256 * 2 ^ 8 + v mod 256"
    by (simp add: ld32_def st32_def unat_of_byte 4 [simplified])
  moreover have "z * 2 ^ 24 + b * 2 ^ 16 + c * 2 ^ 8 + d = u" if "u = x * 2 ^ 8 + d" "x = y * 2 ^ 8 + c" "y = z * 2 ^ 8 + b" for u x y z b c d :: nat
    using that by simp
  ultimately show ?thesis using 1 2 3 by metis
qed

lemma fill_deadbeef_from_other: "x < ptr + 4 * i \<or> ptr + 4 * (i + n) \<le> x \<Longrightarrow> fill_deadbeef_from i n ptr m x = m x"
  by (induction n arbitrary: i m) (auto simp: st32_other)

lemma fill_deadbeef_other: "x < ptr \<or> ptr + len \<le> x \<Longrightarrow> fill_deadbeef ptr len m x = m x"
  unfolding fill_deadbeef_def by (rule fill_deadbeef_from_other) auto

section \<open>Blocks of a page\<close>

lemma type_cases: "t < NSIZES \<Longrightarrow> t \<in> {0, 1, 2, 3, 4, 5, 6, 7}"
  unfolding NSIZES_def by auto

lemma sizes_facts:
  assumes "t < NSIZES"
  shows "16 \<le> sizes ! t" "sizes ! t \<le> 2048" "4096 div (sizes ! t) * (sizes ! t) = 4096" "2 \<le> 4096 div (sizes ! t)" "4096 div (sizes ! t) \<le> 256"
    "peek sizes (int t) = Some (sizes ! t)"
  using type_cases [OF assms] by (auto simp: sizes_def peek_def)

definition slots :: "nat \<Rightarrow> nat \<Rightarrow> nat set" where
  "slots page sz = {a. page \<le> a \<and> a < page + 4096 \<and> (a - page) mod sz = 0}"

lemma slots_eq:
  assumes "n * sz = 4096" "0 < sz"
  shows "slots page sz = (\<lambda>k. page + k * sz) ` {..<n}"
proof (intro set_eqI iffI)
  fix a assume a: "a \<in> slots page sz"
  define k where "k = (a - page) div sz"
  have e: "a = page + k * sz" using a div_mult_mod_eq [of "a - page" sz] unfolding k_def slots_def by simp
  have "k * sz < n * sz" using a e assms(1) by (simp add: slots_def)
  then show "a \<in> (\<lambda>k. page + k * sz) ` {..<n}" using e by auto
next
  fix a assume "a \<in> (\<lambda>k. page + k * sz) ` {..<n}"
  then obtain k where k: "k < n" "a = page + k * sz" by auto
  have "k * sz < n * sz" using k(1) assms(2) by simp
  then show "a \<in> slots page sz" using k(2) assms(1) by (simp add: slots_def)
qed

lemma slots_card:
  assumes "t < NSIZES"
  shows "finite (slots page (sizes ! t))" "card (slots page (sizes ! t)) = 4096 div (sizes ! t)"
proof -
  note f = sizes_facts [OF assms]
  have e: "slots page (sizes ! t) = (\<lambda>k. page + k * sizes ! t) ` {..<4096 div (sizes ! t)}" by (rule slots_eq) (use f in simp_all)
  show "finite (slots page (sizes ! t))" unfolding e by simp
  have "inj_on (\<lambda>k. page + k * sizes ! t) {..<4096 div (sizes ! t)}" using f(1) by (auto simp: inj_on_def)
  then show "card (slots page (sizes ! t)) = 4096 div (sizes ! t)" unfolding e by (simp add: card_image)
qed

lemma slot_room:
  assumes "a \<in> slots page sz" "n * sz = 4096" "0 < sz"
  shows "page \<le> a" "a + sz \<le> page + 4096"
proof -
  obtain k where k: "k < n" "a = page + k * sz" using assms slots_eq [OF assms(2,3), of page] by auto
  have "(k + 1) * sz \<le> n * sz" by (rule mult_le_mono1) (use k(1) in simp)
  then show "page \<le> a" "a + sz \<le> page + 4096" using k assms(2) by simp_all
qed

lemma slots_apart:
  assumes "a \<in> slots page sz" "b \<in> slots page sz" "a \<noteq> b" "0 < sz"
  shows "a + sz \<le> b \<or> b + sz \<le> a"
proof -
  have "a = page + (a - page) div sz * sz" "b = page + (b - page) div sz * sz"
    using assms(1,2) div_mult_mod_eq [of "a - page" sz] div_mult_mod_eq [of "b - page" sz] by (auto simp: slots_def)
  moreover have "x * sz + sz \<le> y * sz" if "x < y" for x y :: nat using that mult_le_mono1 [of "x + 1" y sz] by simp
  ultimately show ?thesis using assms(3) by (metis add_le_cancel_left add.assoc linorder_neqE_nat)
qed

section \<open>Page references in use\<close>

definition inuse :: "kheap \<Rightarrow> nat set" where
  "inuse h = {j. j < NPAGEREFS \<and> bit (pagerefs_inuse h ! (j div 32)) (j mod 32)}"

lemma mask_bit: "j < 32 \<Longrightarrow> (w :: 32 word) AND push_bit j 1 = 0 \<longleftrightarrow> \<not> bit w j"
  by (simp add: push_bit_eq_mult and_exp_eq_0_iff_not_bit)

lemma bit_or_mask32: "j < 32 \<Longrightarrow> bit ((w :: 32 word) OR push_bit j 1) i \<longleftrightarrow> bit w i \<or> i = j"
  by (auto simp: bit_simps)

lemma bit_and_not_mask32: "i < 32 \<Longrightarrow> bit ((w :: 32 word) AND NOT (push_bit j 1)) i \<longleftrightarrow> bit w i \<and> i \<noteq> j"
  by (auto simp: bit_simps)

lemma allocpageref_bit_spec:
  "j + n = 32 \<Longrightarrow> \<exists>i. j \<le> i \<and> i < 32 \<and> \<not> bit w i \<Longrightarrow>
   \<exists>i. allocpageref_bit j n w = Some i \<and> i < 32 \<and> \<not> bit w i"
proof (induction n arbitrary: j)
  case (Suc n)
  show ?case
  proof (cases "bit w j")
    case False
    then show ?thesis using Suc.prems(1) mask_bit [of j w] by auto
  next
    case True
    have "\<exists>i. j + 1 \<le> i \<and> i < 32 \<and> \<not> bit w i" using Suc.prems(2) True by (metis Suc_eq_plus1 Suc_leI le_neq_implies_less)
    then show ?thesis using Suc.IH [of "j + 1"] Suc.prems(1) True mask_bit [of j w] by auto
  qed
qed auto

lemma full_word: "(w :: 32 word) = 0xffffffff \<longleftrightarrow> (\<forall>i < 32. bit w i)"
proof
  have e: "(0xffffffff :: 32 word) = - 1" by simp
  show "\<forall>i < 32. bit w i" if "w = 0xffffffff" using that unfolding e by simp
  show "w = 0xffffffff" if "\<forall>i < 32. bit w i" unfolding e by (rule bit_word_eqI) (use that in simp)
qed

lemma allocpageref_from_spec:
  assumes "length (pagerefs_inuse h) = INUSE_WORDS" and "i + n = INUSE_WORDS"
  shows "(allocpageref_from i n h = Some (None, h) \<and> (\<forall>j. 32 * i \<le> j \<and> j < NPAGEREFS \<longrightarrow> j \<in> inuse h)) \<or>
    (\<exists>j h'. allocpageref_from i n h = Some (Some j, h') \<and> j < NPAGEREFS \<and> j \<notin> inuse h \<and> inuse h' = insert j (inuse h) \<and>
       h' = h\<lparr>pagerefs_inuse := pagerefs_inuse h'\<rparr> \<and> length (pagerefs_inuse h') = INUSE_WORDS)"
  using assms(2)
proof (induction n arbitrary: i)
  case 0
  then show ?case by (auto simp: INUSE_WORDS_def NPAGEREFS_def)
next
  case (Suc n)
  let ?w = "pagerefs_inuse h ! i"
  have i: "i < INUSE_WORDS" "i < 8" "peek (pagerefs_inuse h) (int i) = Some ?w" "i + 1 + n = INUSE_WORDS"
    using Suc.prems assms(1) by (simp_all add: INUSE_WORDS_def NPAGEREFS_def)
  show ?case
  proof (cases "?w = 0xffffffff")
    case True
    have "j \<in> inuse h" if "32 * i \<le> j" "j < NPAGEREFS" "j < 32 * (i + 1)" for j
    proof -
      have "j div 32 = i" using that by (simp add: div_nat_eqI)
      then show ?thesis using True full_word that(2) by (simp add: inuse_def)
    qed
    then have "\<forall>j. 32 * i \<le> j \<and> j < NPAGEREFS \<longrightarrow> j \<in> inuse h" if "\<forall>j. 32 * (i + 1) \<le> j \<and> j < NPAGEREFS \<longrightarrow> j \<in> inuse h"
      using that by (meson not_le)
    then show ?thesis using Suc.IH [OF i(4)] i(3) True by auto
  next
    case False
    obtain k where k: "allocpageref_bit 0 32 ?w = Some k" "k < 32" "\<not> bit ?w k"
      using allocpageref_bit_spec [of 0 32 ?w] False full_word by auto
    let ?h = "h\<lparr>pagerefs_inuse := (pagerefs_inuse h)[i := ?w OR push_bit k 1]\<rparr>"
    have j: "i * 32 + k < NPAGEREFS" "(i * 32 + k) div 32 = i" "(i * 32 + k) mod 32 = k" using i(2) k(2) by (simp_all add: NPAGEREFS_def)
    have "x \<in> inuse ?h \<longleftrightarrow> x = i * 32 + k \<or> x \<in> inuse h" for x
    proof (cases "x div 32 = i")
      case True
      then have e: "x = i * 32 + k \<longleftrightarrow> x mod 32 = k" using j(3) by (metis div_mult_mod_eq)
      then have "x = i * 32 + k \<Longrightarrow> x < NPAGEREFS" using j(1) by simp
      then show ?thesis using e True i(1) assms(1) bit_or_mask32 [OF k(2), of ?w "x mod 32"] unfolding inuse_def by auto
    next
      case False
      then show ?thesis using j by (auto simp: inuse_def)
    qed
    moreover have "i * 32 + k \<notin> inuse h" using j k(3) by (simp add: inuse_def)
    ultimately show ?thesis using i(3) False k(1) j(1) assms(1)
      by (intro disjI2 exI [of _ "i * 32 + k"] exI [of _ ?h]) auto
  qed
qed

lemma allocpageref_cases:
  assumes "length (pagerefs_inuse h) = INUSE_WORDS"
  obtains (full) "allocpageref h = Some (None, h)"
  | (one) j w where "allocpageref h = Some (Some j, h\<lparr>pagerefs_inuse := w\<rparr>)" and "j < NPAGEREFS" and "j \<notin> inuse h"
      and "inuse (h\<lparr>pagerefs_inuse := w\<rparr>) = insert j (inuse h)" and "length w = INUSE_WORDS"
proof -
  have sp: "(allocpageref h = Some (None, h) \<and> (\<forall>j. 32 * 0 \<le> j \<and> j < NPAGEREFS \<longrightarrow> j \<in> inuse h)) \<or>
    (\<exists>j h'. allocpageref h = Some (Some j, h') \<and> j < NPAGEREFS \<and> j \<notin> inuse h \<and> inuse h' = insert j (inuse h) \<and>
       h' = h\<lparr>pagerefs_inuse := pagerefs_inuse h'\<rparr> \<and> length (pagerefs_inuse h') = INUSE_WORDS)"
    using allocpageref_from_spec [OF assms add_0] unfolding allocpageref_def .
  show thesis
  proof (cases "allocpageref h = Some (None, h)")
    case True
    then show thesis by (rule full)
  next
    case False
    then obtain j h' where a: "allocpageref h = Some (Some j, h')" "j < NPAGEREFS" "j \<notin> inuse h" "inuse h' = insert j (inuse h)"
      "h' = h\<lparr>pagerefs_inuse := pagerefs_inuse h'\<rparr>" "length (pagerefs_inuse h') = INUSE_WORDS" using sp by blast
    show thesis by (rule one [of j "pagerefs_inuse h'"]) (use a in \<open>simp_all flip: a(5)\<close>)
  qed
qed

lemma freepageref_spec:
  assumes "length (pagerefs_inuse h) = INUSE_WORDS" and "j \<in> inuse h"
  obtains w where "freepageref j h = Some (h\<lparr>pagerefs_inuse := w\<rparr>)" and "inuse (h\<lparr>pagerefs_inuse := w\<rparr>) = inuse h - {j}"
    and "length w = INUSE_WORDS"
proof -
  let ?i = "j div 32" and ?k = "push_bit (j mod 32) (1 :: 32 word)"
  let ?w = "pagerefs_inuse h ! ?i"
  let ?h = "h\<lparr>pagerefs_inuse := (pagerefs_inuse h)[?i := ?w AND NOT ?k]\<rparr>"
  have j: "j < NPAGEREFS" "bit ?w (j mod 32)" using assms(2) by (simp_all add: inuse_def)
  then have i: "?i < INUSE_WORDS" by (simp add: NPAGEREFS_def INUSE_WORDS_def)
  have "?w AND ?k \<noteq> 0" using mask_bit [of "j mod 32" ?w] j(2) by simp
  then have run: "freepageref j h = Some ?h" using j(1) i assms(1) by (simp add: freepageref_def Let_def)
  have "x \<in> inuse ?h \<longleftrightarrow> x \<noteq> j \<and> x \<in> inuse h" for x
  proof (cases "x div 32 = ?i")
    case True
    then have "x = j \<longleftrightarrow> x mod 32 = j mod 32" by (metis div_mult_mod_eq)
    then show ?thesis using True i assms(1) bit_and_not_mask32 [of "x mod 32" ?w "j mod 32"] by (auto simp: inuse_def)
  next
    case False
    then show ?thesis by (auto simp: inuse_def)
  qed
  then have "inuse ?h = inuse h - {j}" by blast
  then show thesis by (rule that [OF run]) (simp add: assms(1))
qed

section \<open>Linked lists of page references\<close>

primrec lchain :: "(pageref \<Rightarrow> nat option) \<Rightarrow> pageref list \<Rightarrow> nat option \<Rightarrow> nat list \<Rightarrow> bool" where
  "lchain nxt t cur [] \<longleftrightarrow> cur = None"
| "lchain nxt t cur (x # xs) \<longleftrightarrow> cur = Some x \<and> x < length t \<and> lchain nxt t (nxt (t ! x)) xs"

lemma lchain_bound: "lchain nxt t cur xs \<Longrightarrow> set xs \<subseteq> {..<length t}"
  by (induction xs arbitrary: cur) auto

lemma lchain_short:
  assumes "lchain nxt t cur xs" and "distinct xs" and "length t = NPAGEREFS"
  shows "length xs < NPAGEREFS + 1"
  using distinct_bounded_length [OF assms(2) lchain_bound [OF assms(1)]] assms(3) by simp

lemma lchain_cong: "lchain nxt t cur xs \<Longrightarrow> length t' = length t \<Longrightarrow> (\<forall>x \<in> set xs. nxt (t' ! x) = nxt (t ! x)) \<Longrightarrow> lchain nxt t' cur xs"
  by (induction xs arbitrary: cur) auto

lemma find_slot_spec:
  assumes "lchain nxt (pagerefs h) cur (us @ p # vs)" and "p \<notin> set us" and "length us < n"
  shows "find_slot nxt h p n guy cur = Some (Some (if us = [] then guy else NextOf (last us)))"
  using assms
proof (induction us arbitrary: cur n guy)
  case Nil
  then show ?case by (cases n) auto
next
  case (Cons u us)
  obtain k where n: "n = Suc k" using Cons.prems(3) by (cases n) auto
  have u: "cur = Some u" "u < length (pagerefs h)" "u \<noteq> p" using Cons.prems by auto
  then have "get_pr h u = Some (pagerefs h ! u)" by (simp add: get_pr_def)
  then show ?case using Cons.IH [of "nxt (pagerefs h ! u)" k "NextOf u"] Cons.prems u n by auto
qed

text \<open>Taking \<open>p\<close> out: the pointer to it becomes its successor.\<close>

lemma lchain_remove_first: "lchain nxt t cur (p # vs) \<Longrightarrow> lchain nxt t (nxt (t ! p)) vs"
  by simp

lemma lchain_remove_next:
  assumes "lchain nxt t cur (us @ p # vs)" and "us \<noteq> []" and "distinct (us @ p # vs)"
    and "nxt r = nxt (t ! p)"
  shows "lchain nxt (t[last us := r]) cur (us @ vs)"
  using assms
proof (induction us arbitrary: cur)
  case (Cons u us)
  show ?case
  proof (cases us)
    case Nil
    have "lchain nxt t (nxt (t ! p)) vs" "u < length t" "cur = Some u" using Cons.prems(1) Nil by auto
    moreover have "lchain nxt (t[u := r]) (nxt (t ! p)) vs"
      by (rule lchain_cong [OF calculation(1)]) (use Cons.prems(3) Nil in \<open>auto intro!: arg_cong [where f = nxt] nth_list_update_neq\<close>)
    ultimately show ?thesis using Nil Cons.prems(4) by simp
  next
    case tail: (Cons u' us')
    then have l: "last (u # us) = last us" "last us \<in> set us" "us \<noteq> []" by simp_all
    then have "u \<noteq> last us" using Cons.prems(3) by auto
    then show ?thesis using Cons.IH [of "nxt (t ! u)"] Cons.prems l by auto
  qed
qed simp

section \<open>Pages\<close>

text \<open>The list of free blocks in memory, from the block at \<open>a\<close>.\<close>

primrec flist :: "memory \<Rightarrow> nat \<Rightarrow> nat list \<Rightarrow> bool" where
  "flist m a [] \<longleftrightarrow> a = 0"
| "flist m a (x # xs) \<longleftrightarrow> a = x \<and> x \<noteq> 0 \<and> flist m (ld32 m x) xs"

lemma flist_cong: "flist m a xs \<Longrightarrow> (\<forall>x \<in> set xs. ld32 m' x = ld32 m x) \<Longrightarrow> flist m' a xs"
  by (induction xs arbitrary: a) auto

definition pr_size :: "pageref \<Rightarrow> nat" where
  "pr_size r = sizes ! PR_BLOCKTYPE r"

definition pr_slots :: "pageref \<Rightarrow> nat set" where
  "pr_slots r = slots (PR_PAGEADDR r) (pr_size r)"

text \<open>A page with the free blocks \<open>F\<close>.\<close>

definition page_ok :: "memory \<Rightarrow> pageref \<Rightarrow> nat list \<Rightarrow> bool" where
  "page_ok m r F \<longleftrightarrow> PR_BLOCKTYPE r < NSIZES \<and> PR_PAGEADDR r mod 4096 = 0 \<and> 0 < PR_PAGEADDR r \<and> PR_PAGEADDR r + 4096 \<le> 2 ^ 32 \<and>
     distinct F \<and> set F \<subseteq> pr_slots r \<and> nfree r = length F \<and>
     freelist_offset r = (if F = [] then INVALID_OFFSET else hd F - PR_PAGEADDR r) \<and> flist m (if F = [] then 0 else hd F) F"

lemma page_size:
  assumes "page_ok m r F"
  shows "16 \<le> pr_size r" "4096 div pr_size r * pr_size r = 4096" "4096 div pr_size r \<le> 256" "peek sizes (int (PR_BLOCKTYPE r)) = Some (pr_size r)"
    "finite (pr_slots r)" "card (pr_slots r) = 4096 div pr_size r"
  using assms sizes_facts [of "PR_BLOCKTYPE r"] slots_card [of "PR_BLOCKTYPE r" "PR_PAGEADDR r"]
  by (simp_all add: page_ok_def pr_size_def pr_slots_def)

lemma page_slot:
  assumes "page_ok m r F" and "a \<in> pr_slots r"
  shows "PR_PAGEADDR r \<le> a" "a + pr_size r \<le> PR_PAGEADDR r + 4096" "a < 2 ^ 32" "0 < a" "(a - PR_PAGEADDR r) mod pr_size r = 0"
proof -
  have s: "4096 div pr_size r * pr_size r = 4096" "0 < pr_size r" using page_size [OF assms(1)] by simp_all
  note r = slot_room [OF assms(2) [unfolded pr_slots_def] s]
  show "PR_PAGEADDR r \<le> a" "a + pr_size r \<le> PR_PAGEADDR r + 4096" by (rule r)+
  show "a < 2 ^ 32" "0 < a" using r s(2) assms(1) by (simp_all add: page_ok_def)
  show "(a - PR_PAGEADDR r) mod pr_size r = 0" using assms(2) by (simp add: pr_slots_def slots_def)
qed

lemma page_free_le:
  assumes "page_ok m r F"
  shows "length F \<le> 4096 div pr_size r"
proof -
  have "card (set F) \<le> card (pr_slots r)" by (rule card_mono) (use page_size(5) [OF assms] assms in \<open>simp_all add: page_ok_def\<close>)
  then show ?thesis using page_size(6) [OF assms] assms by (simp add: page_ok_def distinct_card)
qed

text \<open>A change of memory outside of the free blocks does not matter, nor a change of the list pointers.\<close>

lemma page_ok_cong:
  assumes "page_ok m r F" and "\<forall>a \<in> set F. \<forall>x. a \<le> x \<and> x < a + 4 \<longrightarrow> m' x = m x"
    and "pageaddr_and_blocktype r' = pageaddr_and_blocktype r" and "freelist_offset r' = freelist_offset r" and "nfree r' = nfree r"
  shows "page_ok m' r' F"
proof -
  have "\<forall>a \<in> set F. ld32 m' a = ld32 m a" using assms(2) by (metis ld32_cong)
  moreover have "PR_PAGEADDR r' = PR_PAGEADDR r" "PR_BLOCKTYPE r' = PR_BLOCKTYPE r" using assms(3) by (simp_all add: PR_PAGEADDR_def PR_BLOCKTYPE_def)
  ultimately show ?thesis using assms(1,4,5) flist_cong [of m _ F m'] by (simp add: page_ok_def pr_slots_def pr_size_def)
qed

lemma sub32_le: "b \<le> a \<Longrightarrow> a - b < 2 ^ 32 \<Longrightarrow> sub32 a b = a - b"
proof -
  assume a: "b \<le> a" "a - b < 2 ^ 32"
  have "a + 2 ^ 32 - b = (a - b) + 2 ^ 32" using a(1) by simp
  then show ?thesis unfolding sub32_def using a(2) by (simp only: mod_add_self2 mod_less)
qed

lemma doalloc_spec:
  assumes "page_ok (hmem h) (pagerefs h ! p) (a # F)" and "p < length (pagerefs h)"
  obtains r where "doalloc p h = Some (a, h\<lparr>pagerefs := (pagerefs h)[p := r]\<rparr>)" and "page_ok (hmem h) r F"
    and "r = (pagerefs h ! p)\<lparr>nfree := nfree r, freelist_offset := freelist_offset r\<rparr>"
proof -
  let ?r = "pagerefs h ! p" and ?m = "hmem h"
  let ?P = "PR_PAGEADDR ?r"
  define r where "r = ?r\<lparr>nfree := length F, freelist_offset := (if F = [] then INVALID_OFFSET else hd F - ?P)\<rparr>"
  have in_slots: "a \<in> pr_slots ?r" "set F \<subseteq> pr_slots ?r" using assms(1) by (simp_all add: page_ok_def)
  note a = page_slot [OF assms(1) in_slots(1)]
  have off: "freelist_offset ?r = a - ?P" "nfree ?r = Suc (length F)" "flist ?m (ld32 ?m a) F" using assms(1) by (simp_all add: page_ok_def)
  have sz: "16 \<le> pr_size ?r" "length F < 256" using page_size(1,3) [OF assms(1)] page_free_le [OF assms(1)] by simp_all
  have fla: "?P + freelist_offset ?r = a" "freelist_offset ?r < 4096" using off(1) a(1,2) sz(1) by simp_all
  have nf: "(nfree ?r + 2 ^ 16 - 1) mod 2 ^ 16 = length F" using off(2) sz(2) by simp
  have get: "get_pr h p = Some ?r" "put_pr p x h = Some (h\<lparr>pagerefs := (pagerefs h)[p := x]\<rparr>)" for x
    using assms(2) by (simp_all add: get_pr_def put_pr_def)
  have "doalloc p h = Some (a, h\<lparr>pagerefs := (pagerefs h)[p := r]\<rparr>)"
  proof (cases F)
    case Nil
    then show ?thesis using get fla nf off(3) by (simp add: doalloc_def r_def)
  next
    case (Cons b F')
    have "b \<in> pr_slots ?r" using in_slots(2) Cons by simp
    note b = page_slot [OF assms(1) this]
    have "sub32 b ?P = b - ?P" "b - ?P < 4096" using b(1-3) sz(1) by (auto intro: sub32_le)
    then show ?thesis using Cons get fla nf off(3) by (simp add: doalloc_def r_def)
  qed
  moreover have "page_ok ?m r F"
  proof -
    have "PR_PAGEADDR r = ?P" "PR_BLOCKTYPE r = PR_BLOCKTYPE ?r" by (simp_all add: r_def PR_PAGEADDR_def PR_BLOCKTYPE_def)
    moreover have "flist ?m (if F = [] then 0 else hd F) F" using off(3) by (cases F) auto
    ultimately show ?thesis using assms(1) in_slots(2) by (simp add: page_ok_def pr_slots_def pr_size_def) (simp add: r_def)
  qed
  ultimately show thesis by (rule that) (simp add: r_def)
qed

section \<open>A fresh page\<close>

lemma link_blocks_spec:
  assumes "0 < i" and "4 \<le> sz" and "base + (i + n) * sz \<le> 2 ^ 32"
  shows "\<exists>m'. link_blocks i n base sz m = Some m' \<and> (\<forall>x. x < base + i * sz \<or> base + (i + n) * sz \<le> x \<longrightarrow> m' x = m x) \<and>
    (\<forall>k. i \<le> k \<and> k < i + n \<longrightarrow> ld32 m' (base + k * sz) = base + (k - 1) * sz)"
  using assms(1,3)
proof (induction n arbitrary: i m)
  case 0
  then show ?case by simp
next
  case (Suc n)
  let ?fl = "base + i * sz" and ?nx = "base + (i - 1) * sz"
  let ?m = "st32 m ?fl ?nx"
  have le: "i * sz + sz \<le> (i + Suc n) * sz" by simp
  obtain m' where ih: "link_blocks (i + 1) n base sz ?m = Some m'" "\<forall>x. x < base + (i + 1) * sz \<or> base + (i + 1 + n) * sz \<le> x \<longrightarrow> m' x = ?m x"
      "\<forall>k. i + 1 \<le> k \<and> k < i + 1 + n \<longrightarrow> ld32 m' (base + k * sz) = base + (k - 1) * sz"
    using Suc.IH [of "i + 1" ?m] Suc.prems by auto
  have "(i - 1) * sz < i * sz" using Suc.prems(1) assms(2) by simp
  then have ne: "?fl \<noteq> ?nx" "?nx < 2 ^ 32" using Suc.prems(2) le by linarith+
  have "ld32 m' ?fl = ld32 ?m ?fl" by (rule ld32_cong) (use ih(2) assms(2) in auto)
  then have "ld32 m' ?fl = ?nx" using ld32_st32 [OF ne(2)] by simp
  then have "ld32 m' (base + k * sz) = base + (k - 1) * sz" if "i \<le> k" "k < i + Suc n" for k
    using ih(3) that by (cases "k = i") auto
  moreover have "m' x = m x" if "x < base + i * sz \<or> base + (i + Suc n) * sz \<le> x" for x
  proof -
    have "x < base + (i + 1) * sz \<or> base + (i + 1 + n) * sz \<le> x" using that by auto
    then have "m' x = ?m x" using ih(2) by blast
    moreover have "x < ?fl \<or> ?fl + 4 \<le> x" using that le assms(2) by linarith
    ultimately show ?thesis using st32_other by metis
  qed
  ultimately show ?case using ih(1) ne(1) by (intro exI [of _ m']) simp
qed

lemma flist_blocks:
  "0 < base \<Longrightarrow> (\<forall>k < n. ld32 m (base + k * sz) = (if k = 0 then 0 else base + (k - 1) * sz)) \<Longrightarrow>
   flist m (if n = 0 then 0 else base + (n - 1) * sz) (map (\<lambda>k. base + k * sz) (rev [0..<n]))"
proof (induction n)
  case (Suc n)
  then have "flist m (if n = 0 then 0 else base + (n - 1) * sz) (map (\<lambda>k. base + k * sz) (rev [0..<n]))" by simp
  then show ?case using Suc.prems by simp
qed simp

lemma mkpab:
  assumes "prpage AND PAGE_FRAME = prpage" and "blk < NSIZES"
  shows "PR_PAGEADDR (r\<lparr>pageaddr_and_blocktype := MKPAB prpage blk\<rparr>) = unat prpage"
    "PR_BLOCKTYPE (r\<lparr>pageaddr_and_blocktype := MKPAB prpage blk\<rparr>) = blk"
proof -
  have b: "of_nat blk AND NOT PAGE_FRAME = (of_nat blk :: 32 word)" "unat (of_nat blk :: 32 word) = blk"
    using type_cases [OF assms(2)] by (auto simp: PAGE_FRAME_def)
  have "MKPAB prpage blk AND PAGE_FRAME = prpage AND PAGE_FRAME" "MKPAB prpage blk AND NOT PAGE_FRAME = of_nat blk AND NOT PAGE_FRAME"
    unfolding MKPAB_def by (rule bit_word_eqI; auto simp: bit_simps)+
  then show "PR_PAGEADDR (r\<lparr>pageaddr_and_blocktype := MKPAB prpage blk\<rparr>) = unat prpage"
      "PR_BLOCKTYPE (r\<lparr>pageaddr_and_blocktype := MKPAB prpage blk\<rparr>) = blk"
    using assms(1) b by (simp_all add: PR_PAGEADDR_def PR_BLOCKTYPE_def)
qed

lemma init_page_spec:
  assumes "prpage AND PAGE_FRAME = prpage" and "0 < unat prpage" and "unat prpage + 4096 \<le> 2 ^ 32" and "t < NSIZES"
    and "p < length (pagerefs h)" and "length (sizebases h) = NSIZES"
  obtains m r F where "init_page p prpage t h = Some (set_hmem m (h\<lparr>pagerefs := (pagerefs h)[p := r], sizebases := (sizebases h)[t := Some p], allbase := Some p\<rparr>))"
    and "page_ok m r F" and "F \<noteq> []" and "set F = pr_slots r" and "PR_PAGEADDR r = unat prpage" and "PR_BLOCKTYPE r = t"
    and "next_samesize r = sizebases h ! t" and "next_all r = allbase h"
    and "\<forall>x. x < unat prpage \<or> unat prpage + 4096 \<le> x \<longrightarrow> m x = hmem h x"
proof -
  let ?P = "unat prpage" and ?sz = "sizes ! t"
  let ?n = "4096 div ?sz"
  note sz = sizes_facts [OF assms(4)]
  have n: "1 + (?n - 1) = ?n" "0 < ?n" using sz(4) by linarith+
  have pre: "0 < (1 :: nat)" "4 \<le> ?sz" "?P + (1 + (?n - 1)) * ?sz \<le> 2 ^ 32" unfolding n(1) using sz(1,3) assms(3) by simp_all
  obtain m where m: "link_blocks 1 (?n - 1) ?P ?sz (st32 (hmem h) ?P 0) = Some m"
      "\<forall>x. x < ?P + 1 * ?sz \<or> ?P + (1 + (?n - 1)) * ?sz \<le> x \<longrightarrow> m x = st32 (hmem h) ?P 0 x"
      "\<forall>k. 1 \<le> k \<and> k < 1 + (?n - 1) \<longrightarrow> ld32 m (?P + k * ?sz) = ?P + (k - 1) * ?sz"
    using link_blocks_spec [OF pre, of "st32 (hmem h) ?P 0"] by blast
  define r where "r = \<lparr>next_samesize = sizebases h ! t, next_all = allbase h, pageaddr_and_blocktype = MKPAB prpage t,
     freelist_offset = (?n - 1) * ?sz, nfree = ?n\<rparr>"
  define F where "F = map (\<lambda>k. ?P + k * ?sz) (rev [0..<?n])"
  have pr: "PR_PAGEADDR r = ?P" "PR_BLOCKTYPE r = t" using mkpab [OF assms(1,4), of r] by (simp_all add: r_def)
  have slots: "set F = pr_slots r" unfolding pr_slots_def pr_size_def pr F_def by (subst slots_eq [OF sz(3)]) (use sz(1) in auto)
  have le: "(?n - 1) * ?sz < 4096" using sz(1,3) n(2) by (simp add: diff_mult_distrib)
  have out: "m x = hmem h x" if "x < ?P \<or> ?P + 4096 \<le> x" for x
    using m(2) that sz(1,3) n(1) st32_other [of x ?P "hmem h" 0] by auto
  have "ld32 m ?P = ld32 (st32 (hmem h) ?P 0) ?P" by (rule ld32_cong) (use m(2) sz(1) in auto)
  then have "ld32 m ?P = 0" using ld32_st32 [of 0] by simp
  then have "\<forall>k < ?n. ld32 m (?P + k * ?sz) = (if k = 0 then 0 else ?P + (k - 1) * ?sz)" using m(3) n(1) by auto
  from flist_blocks [OF assms(2) this] have fl: "flist m (?P + (?n - 1) * ?sz) F" using n(2) by (simp add: F_def)
  have hd: "F \<noteq> []" "hd F = ?P + (?n - 1) * ?sz" using n(2) by (simp_all add: F_def hd_map hd_rev)
  have dist: "distinct F" using sz(1) by (auto simp: F_def distinct_map inj_on_def)
  have al: "?P mod 4096 = 0" using assms(1) page_aligned_iff by blast
  have ok: "page_ok m r F"
    unfolding page_ok_def pr using assms(2-4) dist slots hd fl al by (simp add: r_def F_def)
  have "init_page p prpage t h = Some (set_hmem m (h\<lparr>pagerefs := (pagerefs h)[p := r], sizebases := (sizebases h)[t := Some p], allbase := Some p\<rparr>))"
    using m(1) sz(6) assms(4-6) le by (simp add: init_page_def Let_def put_pr_def r_def)
  from that [OF this ok hd(1) slots pr _ _ allI] show thesis using out by (simp add: r_def)
qed

section \<open>The heap\<close>

definition lists_ok :: "kheap \<Rightarrow> nat list \<Rightarrow> (nat \<Rightarrow> nat list) \<Rightarrow> bool" where
  "lists_ok h L S \<longleftrightarrow> length (pagerefs h) = NPAGEREFS \<and> length (pagerefs_inuse h) = INUSE_WORDS \<and> length (sizebases h) = NSIZES \<and>
     lchain next_all (pagerefs h) (allbase h) L \<and> distinct L \<and> set L = inuse h \<and>
     (\<forall>t < NSIZES. lchain next_samesize (pagerefs h) (sizebases h ! t) (S t) \<and> distinct (S t) \<and>
        set (S t) = {i \<in> set L. PR_BLOCKTYPE (pagerefs h ! i) = t})"

definition page_block :: "kheap \<Rightarrow> nat \<Rightarrow> nat \<times> nat" where
  "page_block h i = (PR_PAGEADDR (pagerefs h ! i), 4096)"

text \<open>
  The invariant: \<open>L\<close> are the page references in use in the order of their list, \<open>S t\<close> those of block type \<open>t\<close>,
  \<open>F i\<close> the free blocks of a page, and \<open>bigs\<close> the allocations of whole pages.
\<close>

definition heap_ok :: "kheap \<Rightarrow> nat list \<Rightarrow> (nat \<Rightarrow> nat list) \<Rightarrow> (nat \<Rightarrow> nat list) \<Rightarrow> (nat \<times> nat) list \<Rightarrow> bool" where
  "heap_ok h L S F bigs \<longleftrightarrow> ram_ok (kh_vm h) \<and> lists_ok h L S \<and>
     (\<forall>i \<in> set L. page_ok (hmem h) (pagerefs h ! i) (F i)) \<and> separate (map (page_block h) L @ bigs) \<and>
     below (unat (firstpaddr (kh_vm h)) + 2 ^ 31) (map (page_block h) L @ bigs) \<and>
     (\<forall>b \<in> set bigs. 0 < snd b \<and> fst b mod 4096 = 0 \<and> 0 < fst b)"

text \<open>The blocks that are allocated, with their capacity.\<close>

definition allocated :: "kheap \<Rightarrow> nat list \<Rightarrow> (nat \<Rightarrow> nat list) \<Rightarrow> (nat \<times> nat) list \<Rightarrow> (nat \<times> nat) set" where
  "allocated h L F bigs = {(a, c). \<exists>i \<in> set L. a \<in> pr_slots (pagerefs h ! i) \<and> a \<notin> set (F i) \<and> c = pr_size (pagerefs h ! i)} \<union> set bigs"

lemma heap_page: "heap_ok h L S F bigs \<Longrightarrow> i \<in> set L \<Longrightarrow> page_ok (hmem h) (pagerefs h ! i) (F i)"
  by (simp add: heap_ok_def)

lemma heap_index: "heap_ok h L S F bigs \<Longrightarrow> i \<in> set L \<Longrightarrow> i < length (pagerefs h)"
  using lchain_bound by (fastforce simp: heap_ok_def lists_ok_def)

lemma heap_lens:
  assumes "heap_ok h L S F bigs"
  shows "length (pagerefs h) = NPAGEREFS" "length (pagerefs_inuse h) = INUSE_WORDS" "length (sizebases h) = NSIZES"
  using assms by (simp_all add: heap_ok_def lists_ok_def)

lemma vm_irrelevant [simp]:
  "inuse (h\<lparr>kh_vm := s\<rparr>) = inuse h" "lists_ok (h\<lparr>kh_vm := s\<rparr>) = lists_ok h" "page_block (h\<lparr>kh_vm := s\<rparr>) = page_block h"
  "allocated (h\<lparr>kh_vm := s\<rparr>) = allocated h" "hmem (h\<lparr>kh_vm := s\<rparr>) = vm_mem s"
  by (simp_all add: fun_eq_iff inuse_def lists_ok_def page_block_def allocated_def hmem_def)

lemma heap_ok_vm:
  assumes "heap_ok h L S F bigs" and "ram_ok s" and "firstpaddr (kh_vm h) \<le> firstpaddr s"
    and "\<forall>i \<in> set L. page_ok (vm_mem s) (pagerefs h ! i) (F i)"
  shows "heap_ok (h\<lparr>kh_vm := s\<rparr>) L S F bigs"
  using assms below_mono [of "unat (firstpaddr (kh_vm h)) + 2 ^ 31" _ "unat (firstpaddr s) + 2 ^ 31"]
  by (simp add: heap_ok_def word_le_nat_alt)

lemma pages_apart:
  assumes "heap_ok h L S F bigs" and "i \<in> set L" and "j \<in> set L" and "i \<noteq> j"
  shows "brange (page_block h i) \<inter> brange (page_block h j) = {}"
proof -
  have s: "separate (map (page_block h) L)" using assms(1) by (simp add: heap_ok_def separate_append)
  obtain a b where "a < length L" "L ! a = i" "b < length L" "L ! b = j" "a \<noteq> b"
    using assms(2-4) by (metis in_set_conv_nth)
  then show ?thesis using separate_nth [OF s, of a b] by auto
qed

lemma page_big_apart:
  assumes "heap_ok h L S F bigs" and "i \<in> set L" and "b \<in> set bigs"
  shows "brange (page_block h i) \<inter> brange b = {}"
  using assms by (auto simp: heap_ok_def separate_append)

lemma bigs_apart:
  assumes "heap_ok h L S F bigs" and "b \<in> set bigs" and "c \<in> set bigs" and "b \<noteq> c"
  shows "brange b \<inter> brange c = {}"
proof -
  have s: "separate bigs" using assms(1) by (simp add: heap_ok_def separate_append)
  obtain x y where "x < length bigs" "bigs ! x = b" "y < length bigs" "bigs ! y = c" "x \<noteq> y"
    using assms(2-4) by (metis in_set_conv_nth)
  then show ?thesis using separate_nth [OF s, of x y] by auto
qed

text \<open>A slot lies in its page, and two different slots of a page do not meet.\<close>

lemma slot_in_page:
  assumes "heap_ok h L S F bigs" and "i \<in> set L" and "a \<in> pr_slots (pagerefs h ! i)"
  shows "brange (a, pr_size (pagerefs h ! i)) \<subseteq> brange (page_block h i)"
  using page_slot [OF heap_page [OF assms(1,2)] assms(3)] by (auto simp: brange_def page_block_def)

lemma slots_of_page_apart:
  assumes "heap_ok h L S F bigs" and "i \<in> set L" and "a \<in> pr_slots (pagerefs h ! i)" and "b \<in> pr_slots (pagerefs h ! i)" and "a \<noteq> b"
  shows "brange (a, pr_size (pagerefs h ! i)) \<inter> brange (b, pr_size (pagerefs h ! i)) = {}"
  using slots_apart [OF assms(3,4) [unfolded pr_slots_def] assms(5)] page_size(1) [OF heap_page [OF assms(1,2)]] by (auto simp: brange_def)

lemma free_apart:
  assumes "heap_ok h L S F bigs" and "i \<in> set L" and "f \<in> set (F i)" and "b \<in> allocated h L F bigs"
  shows "brange (f, pr_size (pagerefs h ! i)) \<inter> brange b = {}"
proof -
  have f: "f \<in> pr_slots (pagerefs h ! i)" using heap_page [OF assms(1,2)] assms(3) by (auto simp: page_ok_def)
  note fp = slot_in_page [OF assms(1,2) f]
  consider (slot) j a where "j \<in> set L" "a \<in> pr_slots (pagerefs h ! j)" "a \<notin> set (F j)" "b = (a, pr_size (pagerefs h ! j))" | (big) "b \<in> set bigs"
    using assms(4) by (auto simp: allocated_def)
  then show ?thesis
  proof cases
    case slot
    show ?thesis
    proof (cases "i = j")
      case True
      then show ?thesis using slots_of_page_apart [OF assms(1,2) f, of a] slot assms(3) by auto
    next
      case False
      then show ?thesis using pages_apart [OF assms(1,2) slot(1)] fp slot_in_page [OF assms(1) slot(1,2)] slot(4) by blast
    qed
  next
    case big
    then show ?thesis using page_big_apart [OF assms(1,2) big] fp by blast
  qed
qed

lemma allocated_apart:
  assumes "heap_ok h L S F bigs" and "b \<in> allocated h L F bigs" and "c \<in> allocated h L F bigs" and "b \<noteq> c"
  shows "brange b \<inter> brange c = {}"
proof -
  have slot_any: "brange b \<inter> brange c = {}"
    if i: "i \<in> set L" "a \<in> pr_slots (pagerefs h ! i)" "b = (a, pr_size (pagerefs h ! i))" and c: "c \<in> allocated h L F bigs" "b \<noteq> c" for b c i a
  proof -
    note bp = slot_in_page [OF assms(1) i(1,2)]
    consider (slot) j d where "j \<in> set L" "d \<in> pr_slots (pagerefs h ! j)" "c = (d, pr_size (pagerefs h ! j))" | (big) "c \<in> set bigs"
      using c by (auto simp: allocated_def)
    then show ?thesis
    proof cases
      case slot
      show ?thesis
      proof (cases "i = j")
        case True
        then show ?thesis using slots_of_page_apart [OF assms(1) i(1,2), of d] slot i(3) c(2) by auto
      next
        case False
        then show ?thesis using pages_apart [OF assms(1) i(1) slot(1)] bp slot_in_page [OF assms(1) slot(1,2)] slot(3) i(3) by blast
      qed
    next
      case big
      then show ?thesis using page_big_apart [OF assms(1) i(1) big] bp i(3) by blast
    qed
  qed
  consider (slot) i a where "i \<in> set L" "a \<in> pr_slots (pagerefs h ! i)" "b = (a, pr_size (pagerefs h ! i))" | (big) "b \<in> set bigs"
    using assms(2) by (auto simp: allocated_def)
  then show ?thesis
  proof cases
    case slot
    then show ?thesis using slot_any assms(3,4) by blast
  next
    case big
    show ?thesis
    proof (cases "c \<in> set bigs")
      case True
      then show ?thesis using bigs_apart [OF assms(1) big] assms(4) by blast
    next
      case False
      then obtain j d where "j \<in> set L" "d \<in> pr_slots (pagerefs h ! j)" "c = (d, pr_size (pagerefs h ! j))" using assms(3) by (auto simp: allocated_def)
      then show ?thesis using slot_any [of j d c b] assms(2,4) by blast
    qed
  qed
qed

lemma allocated_pos: "heap_ok h L S F bigs \<Longrightarrow> (a, c) \<in> allocated h L F bigs \<Longrightarrow> 0 < c \<and> 0 < a"
proof -
  assume h: "heap_ok h L S F bigs" and a: "(a, c) \<in> allocated h L F bigs"
  show ?thesis
  proof (cases "(a, c) \<in> set bigs")
    case True
    then show ?thesis using h by (fastforce simp: heap_ok_def)
  next
    case False
    then obtain i where i: "i \<in> set L" "a \<in> pr_slots (pagerefs h ! i)" "c = pr_size (pagerefs h ! i)" using a by (auto simp: allocated_def)
    then show ?thesis using page_size(1) [OF heap_page [OF h i(1)]] page_slot(4) [OF heap_page [OF h i(1)] i(2)] by simp
  qed
qed

text \<open>Stores into allocated blocks leave the heap alone.\<close>

lemma heap_ok_store:
  assumes "heap_ok h L S F bigs" and "b \<in> allocated h L F bigs" and "\<forall>x. x \<notin> brange b \<longrightarrow> m x = hmem h x"
  shows "heap_ok (set_hmem m h) L S F bigs"
proof -
  have "page_ok m (pagerefs h ! i) (F i)" if i: "i \<in> set L" for i
  proof (rule page_ok_cong [OF heap_page [OF assms(1) i]])
    have "16 \<le> pr_size (pagerefs h ! i)" by (rule page_size(1) [OF heap_page [OF assms(1) i]])
    then show "\<forall>a \<in> set (F i). \<forall>x. a \<le> x \<and> x < a + 4 \<longrightarrow> m x = hmem h x"
      using free_apart [OF assms(1) i _ assms(2)] assms(3) by (fastforce simp: brange_def)
  qed simp_all
  then show ?thesis using heap_ok_vm [OF assms(1), of "(kh_vm h)\<lparr>vm_mem := m\<rparr>"] assms(1) by (simp add: set_hmem_def heap_ok_def ram_ok_def)
qed

end
