(* ===== verification/KHeapAlloc.thy ===== *)
theory KHeapAlloc
  imports KHeapInv
begin

unbundle bit_operations_syntax

text \<open>
  Allocation from the kernel heap: \<open>kmalloc\<close> on a well-formed heap either gives the null pointer and changes
  nothing that can be seen, or a fresh block that is large enough, and the heap stays well-formed.
\<close>

lemma upd_nth: "(xs[i := x]) ! j = (if i = j \<and> i < length xs then x else xs ! j)"
  by (cases "i < length xs") (auto simp: nth_list_update list_update_beyond)

section \<open>Allocation\<close>

lemma lists_ok_put:
  assumes "lists_ok h L S" and "next_all r = next_all (pagerefs h ! p)" and "next_samesize r = next_samesize (pagerefs h ! p)"
    and "pageaddr_and_blocktype r = pageaddr_and_blocktype (pagerefs h ! p)"
  shows "lists_ok (h\<lparr>pagerefs := (pagerefs h)[p := r]\<rparr>) L S"
proof -
  let ?t = "(pagerefs h)[p := r]"
  have same: "next_all (?t ! x) = next_all (pagerefs h ! x)" "next_samesize (?t ! x) = next_samesize (pagerefs h ! x)"
      "PR_BLOCKTYPE (?t ! x) = PR_BLOCKTYPE (pagerefs h ! x)" for x
    using assms(2-4) by (simp_all add: upd_nth PR_BLOCKTYPE_def)
  have "lchain next_all ?t c xs" if "lchain next_all (pagerefs h) c xs" for c xs by (rule lchain_cong [OF that]) (simp_all add: same)
  moreover have "lchain next_samesize ?t c xs" if "lchain next_samesize (pagerefs h) c xs" for c xs by (rule lchain_cong [OF that]) (simp_all add: same)
  ultimately show ?thesis using assms(1) by (simp add: lists_ok_def same inuse_def)
qed

lemma page_block_put:
  assumes "pageaddr_and_blocktype r = pageaddr_and_blocktype (pagerefs h ! p)"
  shows "page_block (h\<lparr>pagerefs := (pagerefs h)[p := r]\<rparr>) = page_block h"
  using assms by (auto simp: fun_eq_iff page_block_def PR_PAGEADDR_def upd_nth split: if_splits)

lemma heap_ok_put:
  assumes "heap_ok h L S F bigs" and "p \<in> set L" and "page_ok (hmem h) r G"
    and "r = (pagerefs h ! p)\<lparr>nfree := nfree r, freelist_offset := freelist_offset r\<rparr>"
  shows "heap_ok (h\<lparr>pagerefs := (pagerefs h)[p := r]\<rparr>) L S (F(p := G)) bigs"
    and "pr_slots (pagerefs (h\<lparr>pagerefs := (pagerefs h)[p := r]\<rparr>) ! i) = pr_slots (pagerefs h ! i)"
    and "pr_size (pagerefs (h\<lparr>pagerefs := (pagerefs h)[p := r]\<rparr>) ! i) = pr_size (pagerefs h ! i)"
proof -
  let ?h = "h\<lparr>pagerefs := (pagerefs h)[p := r]\<rparr>"
  have f: "next_all r = next_all (pagerefs h ! p)" "next_samesize r = next_samesize (pagerefs h ! p)"
      "pageaddr_and_blocktype r = pageaddr_and_blocktype (pagerefs h ! p)"
    by (subst assms(4); simp)+
  show "pr_slots (pagerefs ?h ! i) = pr_slots (pagerefs h ! i)" "pr_size (pagerefs ?h ! i) = pr_size (pagerefs h ! i)"
    using f(3) by (auto simp: pr_slots_def pr_size_def PR_PAGEADDR_def PR_BLOCKTYPE_def upd_nth)
  have lists: "lists_ok ?h L S" by (rule lists_ok_put [OF _ f]) (use assms(1) in \<open>simp add: heap_ok_def\<close>)
  have "page_ok (hmem h) (pagerefs ?h ! i) ((F(p := G)) i)" if "i \<in> set L" for i
    using assms(3) heap_page [OF assms(1) that] heap_index [OF assms(1,2)] by (cases "i = p") simp_all
  then show "heap_ok ?h L S (F(p := G)) bigs"
    using assms(1) lists unfolding heap_ok_def page_block_put [OF f(3)] by (simp add: hmem_def)
qed

lemma alloc_in_page:
  assumes "heap_ok h L S F bigs" and "p \<in> set L" and "F p = a # F'"
  obtains h' where "doalloc p h = Some (a, h')" and "heap_ok h' L S (F(p := F')) bigs"
    and "allocated h' L (F(p := F')) bigs = insert (a, pr_size (pagerefs h ! p)) (allocated h L F bigs)"
    and "(a, pr_size (pagerefs h ! p)) \<notin> allocated h L F bigs" and "kh_vm h' = kh_vm h" and "0 < a"
proof -
  have ok: "page_ok (hmem h) (pagerefs h ! p) (a # F')" using heap_page [OF assms(1,2)] assms(3) by simp
  obtain r where r: "doalloc p h = Some (a, h\<lparr>pagerefs := (pagerefs h)[p := r]\<rparr>)" "page_ok (hmem h) r F'"
      "r = (pagerefs h ! p)\<lparr>nfree := nfree r, freelist_offset := freelist_offset r\<rparr>"
    by (rule doalloc_spec [OF ok heap_index [OF assms(1,2)]])
  let ?h = "h\<lparr>pagerefs := (pagerefs h)[p := r]\<rparr>"
  note heap = heap_ok_put(1) [OF assms(1,2) r(2,3)] and sl = heap_ok_put(2,3) [OF assms(1,2) r(2,3)]
  have a: "a \<in> pr_slots (pagerefs h ! p)" "a \<notin> set F'" using ok by (simp_all add: page_ok_def)
  then have new: "allocated ?h L (F(p := F')) bigs = insert (a, pr_size (pagerefs h ! p)) (allocated h L F bigs)"
    using assms(2,3) unfolding allocated_def sl by (auto split: if_splits)
  have fresh: "(a, pr_size (pagerefs h ! p)) \<notin> allocated h L F bigs"
  proof
    assume al: "(a, pr_size (pagerefs h ! p)) \<in> allocated h L F bigs"
    have "a \<in> set (F p)" using assms(3) by simp
    from free_apart [OF assms(1,2) this al] page_size(1) [OF ok] show False by (auto simp: brange_def)
  qed
  show thesis by (rule that [OF r(1) heap new fresh _ page_slot(4) [OF ok a(1)]]) simp
qed

lemma kmalloc_find_spec:
  "lchain next_samesize (pagerefs h) cur xs \<Longrightarrow> \<forall>x \<in> set xs. PR_BLOCKTYPE (pagerefs h ! x) = t \<Longrightarrow> length xs < n \<Longrightarrow>
   kmalloc_find t h n cur = Some (List.find (\<lambda>x. nfree (pagerefs h ! x) > 0) xs)"
proof (induction xs arbitrary: n cur)
  case Nil
  then show ?case by (cases n) simp_all
next
  case (Cons x xs)
  then obtain k where "n = Suc k" by (cases n) simp_all
  then show ?case using Cons by (simp add: get_pr_def)
qed

lemma kfree_find_spec:
  "lchain next_all (pagerefs h) cur xs \<Longrightarrow> \<forall>x \<in> set xs. PR_BLOCKTYPE (pagerefs h ! x) < NSIZES \<Longrightarrow> length xs < n \<Longrightarrow>
   kfree_find a h n cur = Some (List.find (\<lambda>x. PR_PAGEADDR (pagerefs h ! x) \<le> a \<and> a < PR_PAGEADDR (pagerefs h ! x) + 4096) xs)"
proof (induction xs arbitrary: n cur)
  case Nil
  then show ?case by (cases n) simp_all
next
  case (Cons x xs)
  then obtain k where "n = Suc k" by (cases n) simp_all
  then show ?case using Cons by (simp add: get_pr_def)
qed

lemma lists_ok_push:
  assumes "lists_ok h L S" and "p < NPAGEREFS" and "p \<notin> set L" and "inuse (h\<lparr>pagerefs_inuse := w\<rparr>) = insert p (inuse h)" and "length w = INUSE_WORDS"
    and "next_all r = allbase h" and "next_samesize r = sizebases h ! t" and "PR_BLOCKTYPE r = t" and "t < NSIZES"
  shows "lists_ok (h\<lparr>pagerefs_inuse := w, pagerefs := (pagerefs h)[p := r], sizebases := (sizebases h)[t := Some p], allbase := Some p\<rparr>) (p # L) (S(t := p # S t))"
proof -
  let ?t = "(pagerefs h)[p := r]"
  have len: "length (pagerefs h) = NPAGEREFS" using assms(1) by (simp add: lists_ok_def)
  have nth: "?t ! p = r" "x \<noteq> p \<Longrightarrow> ?t ! x = pagerefs h ! x" for x using assms(2) len by simp_all
  have S: "p \<notin> set (S u)" if "u < NSIZES" for u using assms(1,3) that by (auto simp: lists_ok_def)
  have keep: "lchain nxt ?t c xs" if "lchain nxt (pagerefs h) c xs" "p \<notin> set xs" for nxt c xs
    by (rule lchain_cong [OF that(1)]) (simp, metis nth(2) that(2))
  have all: "lchain next_all ?t (Some p) (p # L)" using keep assms(1-3,6) len nth(1) by (simp add: lists_ok_def)
  have "lchain next_samesize ?t (((sizebases h)[t := Some p]) ! u) ((S(t := p # S t)) u) \<and> distinct ((S(t := p # S t)) u) \<and>
        set ((S(t := p # S t)) u) = {i \<in> set (p # L). PR_BLOCKTYPE (?t ! i) = u}" if u: "u < NSIZES" for u
  proof -
    have "PR_BLOCKTYPE (?t ! i) = PR_BLOCKTYPE (pagerefs h ! i)" if "i \<in> set L" for i using nth(2) assms(3) that by metis
    then have "set (S u) = {i \<in> set L. PR_BLOCKTYPE (?t ! i) = u}" using assms(1) u by (auto simp: lists_ok_def)
    then show ?thesis using keep S u assms(1,2,7-9) len nth(1) by (auto simp: lists_ok_def)
  qed
  then show ?thesis using assms(1-5) all by (simp add: lists_ok_def inuse_def)
qed

lemma alloc_kpages_cases:
  assumes "ram_ok s" and "n < 2 ^ 19"
  obtains (none) "alloc_kpages (int n) s = (0, s)"
  | (some) pg f where "alloc_kpages (int n) s = (pg, s\<lparr>firstpaddr := f\<rparr>)" and "pg \<noteq> 0" and "unat pg = unat (firstpaddr s) + 2 ^ 31"
      and "unat f = unat (firstpaddr s) + 4096 * n" and "ram_ok (s\<lparr>firstpaddr := f\<rparr>)" and "pg AND PAGE_FRAME = pg" and "unat pg + 4096 * n < 2 ^ 32"
proof -
  have n: "unat (of_nat n :: 32 word) = n" using assms(2) by (simp add: unat_of_nat)
  have lt: "unat (of_nat n :: 32 word) < 2 ^ 19" using n assms(2) by simp
  show thesis
  proof (cases rule: getppages_cases [OF assms(1) lt])
    case 1
    then show thesis using none by (simp add: alloc_kpages_def)
  next
    case (2 f)
    let ?pg = "PADDR_TO_KVADDR (firstpaddr s)"
    have F: "unat (firstpaddr s) < 2 ^ 31" "unat f < 2 ^ 31" "unat (firstpaddr s) mod 4096 = 0"
      using assms(1) 2(3) by (simp_all add: ram_ok_def word_le_nat_alt)
    have pg: "unat ?pg = unat (firstpaddr s) + 2 ^ 31" by (rule unat_kvaddr [OF F(1)])
    have al: "?pg AND PAGE_FRAME = ?pg" unfolding page_aligned_iff pg using F(3) by (simp add: mod_eq_0_iff_dvd)
    show thesis
    proof (rule some [OF _ _ pg _ 2(3) al])
      show "alloc_kpages (int n) s = (?pg, s\<lparr>firstpaddr := f\<rparr>)" using 2(1,4) by (simp add: alloc_kpages_def)
      show "?pg \<noteq> 0" using pg by auto
      show "unat f = unat (firstpaddr s) + 4096 * n" using 2(2) n by simp
      then show "unat ?pg + 4096 * n < 2 ^ 32" using pg F(2) by simp
    qed
  qed
qed

lemma heap_ok_inuse:
  assumes "heap_ok h L S F bigs" and "inuse (h\<lparr>pagerefs_inuse := w\<rparr>) = inuse h" and "length w = INUSE_WORDS"
  shows "heap_ok (h\<lparr>pagerefs_inuse := w\<rparr>) L S F bigs" "allocated (h\<lparr>pagerefs_inuse := w\<rparr>) L F bigs = allocated h L F bigs"
proof -
  have "page_block (h\<lparr>pagerefs_inuse := w\<rparr>) = page_block h" by (simp add: fun_eq_iff page_block_def)
  then show "heap_ok (h\<lparr>pagerefs_inuse := w\<rparr>) L S F bigs" using assms by (simp add: heap_ok_def lists_ok_def hmem_def)
  show "allocated (h\<lparr>pagerefs_inuse := w\<rparr>) L F bigs = allocated h L F bigs" by (simp add: allocated_def)
qed

lemma below_kernel:
  assumes "heap_ok h L S F bigs" and "b \<in> allocated h L F bigs \<or> (\<exists>i \<in> set L. \<exists>f \<in> set (F i). b = (f, pr_size (pagerefs h ! i)))"
  shows "fst b + snd b \<le> unat (firstpaddr (kh_vm h)) + 2 ^ 31"
proof -
  have lim: "below (unat (firstpaddr (kh_vm h)) + 2 ^ 31) (map (page_block h) L @ bigs)" using assms(1) by (simp add: heap_ok_def)
  show ?thesis
  proof (cases "b \<in> set bigs")
    case True
    then show ?thesis using lim by (simp add: below_def)
  next
    case False
    then obtain i a where i: "i \<in> set L" "a \<in> pr_slots (pagerefs h ! i)" "b = (a, pr_size (pagerefs h ! i))"
      using assms heap_page [OF assms(1)] by (fastforce simp: allocated_def page_ok_def)
    have "page_block h i \<in> set (map (page_block h) L @ bigs)" using i(1) by simp
    then have "fst (page_block h i) + snd (page_block h i) \<le> unat (firstpaddr (kh_vm h)) + 2 ^ 31" using lim unfolding below_def by blast
    then have "PR_PAGEADDR (pagerefs h ! i) + 4096 \<le> unat (firstpaddr (kh_vm h)) + 2 ^ 31" by (simp add: page_block_def)
    then show ?thesis using page_slot(2) [OF heap_page [OF assms(1) i(1)] i(2)] unfolding i(3) by simp
  qed
qed

lemma fresh_page:
  assumes "heap_ok h L S F bigs" and "t < NSIZES" and "j < NPAGEREFS" and "j \<notin> inuse h" and "inuse (h\<lparr>pagerefs_inuse := w\<rparr>) = insert j (inuse h)"
    and "length w = INUSE_WORDS" and "unat pg = unat (firstpaddr (kh_vm h)) + 2 ^ 31" and "unat f = unat (firstpaddr (kh_vm h)) + 4096"
    and "ram_ok ((kh_vm h)\<lparr>firstpaddr := f\<rparr>)" and "pg AND PAGE_FRAME = pg" and "unat pg + 4096 < 2 ^ 32"
  obtains h' G where "init_page j pg t (h\<lparr>pagerefs_inuse := w, kh_vm := (kh_vm h)\<lparr>firstpaddr := f\<rparr>\<rparr>) = Some h'" and "G \<noteq> []"
    and "heap_ok h' (j # L) (S(t := j # S t)) (F(j := G)) bigs" and "allocated h' (j # L) (F(j := G)) bigs = allocated h L F bigs"
    and "\<forall>x < unat pg. hmem h' x = hmem h x" and "pr_size (pagerefs h' ! j) = sizes ! t"
proof -
  let ?h1 = "h\<lparr>pagerefs_inuse := w, kh_vm := (kh_vm h)\<lparr>firstpaddr := f\<rparr>\<rparr>"
  have jl: "j < length (pagerefs ?h1)" "length (sizebases ?h1) = NSIZES" using heap_lens [OF assms(1)] assms(3) by simp_all
  have pos: "0 < unat pg" "unat pg + 4096 \<le> 2 ^ 32" using assms(7,11) by simp_all
  obtain m r G where g: "init_page j pg t ?h1 = Some (set_hmem m (?h1\<lparr>pagerefs := (pagerefs ?h1)[j := r], sizebases := (sizebases ?h1)[t := Some j], allbase := Some j\<rparr>))"
      "page_ok m r G" "G \<noteq> []" "set G = pr_slots r" "PR_PAGEADDR r = unat pg" "PR_BLOCKTYPE r = t"
      "next_samesize r = sizebases ?h1 ! t" "next_all r = allbase ?h1" "\<forall>x. x < unat pg \<or> unat pg + 4096 \<le> x \<longrightarrow> m x = hmem ?h1 x"
    by (rule init_page_spec [OF assms(10) pos assms(2) jl])
  let ?h2 = "h\<lparr>pagerefs_inuse := w, pagerefs := (pagerefs h)[j := r], sizebases := (sizebases h)[t := Some j], allbase := Some j\<rparr>"
  let ?s = "(kh_vm h)\<lparr>firstpaddr := f, vm_mem := m\<rparr>"
  let ?h = "?h2\<lparr>kh_vm := ?s\<rparr>"
  have run: "init_page j pg t ?h1 = Some ?h" using g(1) by (simp add: set_hmem_def)
  have setL: "set L = inuse h" using assms(1) by (simp add: heap_ok_def lists_ok_def)
  have jL: "j \<notin> set L" using assms(4) setL by simp
  have lists: "lists_ok ?h2 (j # L) (S(t := j # S t))"
    by (rule lists_ok_push [OF _ assms(3) jL assms(5,6)]) (use assms(1,2) g(6-8) in \<open>simp_all add: heap_ok_def\<close>)
  have nth: "pagerefs ?h ! j = r" "i \<in> set L \<Longrightarrow> pagerefs ?h ! i = pagerefs h ! i" for i using jl(1) jL by (simp_all add: upd_nth) metis
  have mem: "\<forall>x < unat pg. m x = hmem h x" using g(9) by (simp add: hmem_def)
  have "page_ok m (pagerefs ?h ! i) ((F(j := G)) i)" if i: "i \<in> set (j # L)" for i
  proof (cases "i = j")
    case True
    then show ?thesis using g(2) nth(1) by simp
  next
    case False
    then have iL: "i \<in> set L" using i by simp
    have "page_ok m (pagerefs h ! i) (F i)"
    proof (rule page_ok_cong [OF heap_page [OF assms(1) iL]])
      have "16 \<le> pr_size (pagerefs h ! i)" by (rule page_size(1) [OF heap_page [OF assms(1) iL]])
      then have "a + 4 \<le> unat pg" if "a \<in> set (F i)" for a
        using below_kernel [OF assms(1), of "(a, pr_size (pagerefs h ! i))"] iL that assms(7) by fastforce
      then show "\<forall>a \<in> set (F i). \<forall>x. a \<le> x \<and> x < a + 4 \<longrightarrow> m x = hmem h x" using mem by fastforce
    qed simp_all
    then show ?thesis using False nth(2) [OF iL] by simp
  qed
  moreover have pb: "map (page_block ?h) (j # L) = (unat pg, 4096) # map (page_block h) L" using nth g(5) by (simp add: page_block_def)
  have sb: "separate (map (page_block h) L @ bigs)" "below (unat pg) (map (page_block h) L @ bigs)" using assms(1,7) by (simp_all add: heap_ok_def)
  have "separate (map (page_block ?h) (j # L) @ bigs)" "below (unat f + 2 ^ 31) (map (page_block ?h) (j # L) @ bigs)"
    unfolding pb using separate_new [OF sb, of 4096] assms(7,8) by (simp_all add: add.commute add.left_commute)
  moreover have "ram_ok ?s" using assms(9) by (simp add: ram_ok_def)
  ultimately have heap: "heap_ok ?h (j # L) (S(t := j # S t)) (F(j := G)) bigs"
    using lists assms(1) by (simp add: heap_ok_def del: list.map)
  have "allocated ?h (j # L) (F(j := G)) bigs = allocated h L F bigs"
    using nth g(4) jL unfolding allocated_def by (auto split: if_splits)
  then show thesis by (intro that [OF run g(3) heap]) (use mem g(6) nth(1) in \<open>simp_all add: pr_size_def\<close>)
qed

lemma blocktype_spec:
  assumes "sz \<le> 2048"
  obtains t where "blocktype sz = Some t" and "t < NSIZES" and "sz \<le> sizes ! t"
proof -
  have "\<exists>t. blocktype sz = Some t \<and> t < NSIZES \<and> sz \<le> sizes ! t"
    using assms by (simp add: blocktype_def sizes_def NSIZES_def)
  then show thesis using that by blast
qed

definition kept :: "kheap \<Rightarrow> (nat \<times> nat) set \<Rightarrow> kheap \<Rightarrow> bool" where
  "kept h B h' \<longleftrightarrow> (\<forall>b \<in> B. \<forall>x \<in> brange b. hmem h' x = hmem h x)"

lemma newpage_cases:
  assumes "heap_ok h L S F bigs" and "t < NSIZES"
  obtains (null) h' where "kmalloc_newpage t h = Some (0, h')" and "heap_ok h' L S F bigs" and "allocated h' L F bigs = allocated h L F bigs" and "kh_vm h' = kh_vm h"
  | (block) a h' L' S' F' where "kmalloc_newpage t h = Some (a, h')" and "0 < a" and "heap_ok h' L' S' F' bigs"
      and "allocated h' L' F' bigs = insert (a, sizes ! t) (allocated h L F bigs)" and "(a, sizes ! t) \<notin> allocated h L F bigs"
      and "kept h (allocated h L F bigs) h'"
proof (cases rule: allocpageref_cases [OF heap_lens(2) [OF assms(1)]])
  case 1
  then show thesis using assms(1) by (intro null [of h]) (simp_all add: kmalloc_newpage_def)
next
  case (2 j w)
  let ?h1 = "h\<lparr>pagerefs_inuse := w\<rparr>"
  have ram: "ram_ok (kh_vm h)" using assms(1) by (simp add: heap_ok_def)
  have one: "(1 :: nat) < 2 ^ 19" by simp
  show thesis
  proof (cases rule: alloc_kpages_cases [OF ram one])
    case nopage: 1
    have "j \<in> inuse ?h1" "length (pagerefs_inuse ?h1) = INUSE_WORDS" using 2(4,5) by simp_all
    then obtain w' where w': "freepageref j ?h1 = Some (?h1\<lparr>pagerefs_inuse := w'\<rparr>)" "inuse (?h1\<lparr>pagerefs_inuse := w'\<rparr>) = inuse ?h1 - {j}" "length w' = INUSE_WORDS"
      by (metis freepageref_spec)
    have "inuse (h\<lparr>pagerefs_inuse := w'\<rparr>) = inuse h" using w'(2) 2(3,4) by simp
    note ok = heap_ok_inuse [OF assms(1) this w'(3)]
    show thesis by (rule null [OF _ ok]) (use 2(1) nopage w'(1) in \<open>simp_all add: kmalloc_newpage_def\<close>)
  next
    case page: (2 pg f)
    have pf: "unat f = unat (firstpaddr (kh_vm h)) + 4096" "unat pg + 4096 < 2 ^ 32" using page(4,7) by simp_all
    obtain h2 G where g: "init_page j pg t (h\<lparr>pagerefs_inuse := w, kh_vm := (kh_vm h)\<lparr>firstpaddr := f\<rparr>\<rparr>) = Some h2" "G \<noteq> []"
        "heap_ok h2 (j # L) (S(t := j # S t)) (F(j := G)) bigs" "allocated h2 (j # L) (F(j := G)) bigs = allocated h L F bigs"
        "\<forall>x < unat pg. hmem h2 x = hmem h x" "pr_size (pagerefs h2 ! j) = sizes ! t"
      by (rule fresh_page [OF assms 2(2-5) page(3) pf(1) page(5,6) pf(2)])
    obtain a G' where G: "(F(j := G)) j = a # G'" using g(2) by (cases G) auto
    have jj: "j \<in> set (j # L)" by simp
    obtain h3 where h3: "doalloc j h2 = Some (a, h3)" "heap_ok h3 (j # L) (S(t := j # S t)) ((F(j := G))(j := G')) bigs"
        "allocated h3 (j # L) ((F(j := G))(j := G')) bigs = insert (a, pr_size (pagerefs h2 ! j)) (allocated h2 (j # L) (F(j := G)) bigs)"
        "(a, pr_size (pagerefs h2 ! j)) \<notin> allocated h2 (j # L) (F(j := G)) bigs" "kh_vm h3 = kh_vm h2" "0 < a"
      by (rule alloc_in_page [OF g(3) jj G])
    have "kept h (allocated h L F bigs) h3"
      using below_kernel [OF assms(1)] g(5) page(3) h3(5) by (fastforce simp: kept_def brange_def hmem_def)
    then show thesis
      by (intro block [OF _ h3(6) h3(2)]) (use 2(1) page(1,2) g(1) h3(1,3-5) in \<open>simp_all add: kmalloc_newpage_def g(4,6)\<close>)
  qed
qed

lemma hspl_simps: "hspl h = (vm_curspl (kh_vm h), h\<lparr>kh_vm := (kh_vm h)\<lparr>vm_curspl := SPL_HIGH\<rparr>\<rparr>)" "hsplx s h = h\<lparr>kh_vm := (kh_vm h)\<lparr>vm_curspl := s\<rparr>\<rparr>"
  by (simp_all add: hspl_def hsplx_def vm_splhigh_def vm_splx_def)

lemma heap_ok_spl:
  "heap_ok h L S F bigs \<Longrightarrow> heap_ok (h\<lparr>kh_vm := (kh_vm h)\<lparr>vm_curspl := s\<rparr>\<rparr>) L S F bigs"
  by (rule heap_ok_vm) (simp_all add: heap_ok_def ram_ok_def hmem_def)

lemma subpage_kmalloc_cases:
  assumes "heap_ok h L S F bigs" and "sz \<le> 2048"
  obtains (null) h' where "subpage_kmalloc sz h = Some (0, h')" and "heap_ok h' L S F bigs" and "allocated h' L F bigs = allocated h L F bigs" and "hmem h' = hmem h"
  | (block) a c h' L' S' F' where "subpage_kmalloc sz h = Some (a, h')" and "0 < a" and "sz \<le> c" and "heap_ok h' L' S' F' bigs"
      and "allocated h' L' F' bigs = insert (a, c) (allocated h L F bigs)" and "(a, c) \<notin> allocated h L F bigs" and "kept h (allocated h L F bigs) h'"
proof -
  obtain t where t: "blocktype sz = Some t" "t < NSIZES" "sz \<le> sizes ! t" by (rule blocktype_spec [OF assms(2)])
  let ?s = "vm_curspl (kh_vm h)" and ?h1 = "h\<lparr>kh_vm := (kh_vm h)\<lparr>vm_curspl := SPL_HIGH\<rparr>\<rparr>"
  have ok1: "heap_ok ?h1 L S F bigs" by (rule heap_ok_spl [OF assms(1)])
  have S: "lchain next_samesize (pagerefs ?h1) (sizebases ?h1 ! t) (S t)" "distinct (S t)" "\<forall>x \<in> set (S t). PR_BLOCKTYPE (pagerefs ?h1 ! x) = t" "set (S t) \<subseteq> set L"
    using assms(1) t(2) by (auto simp: heap_ok_def lists_ok_def)
  have "length (S t) < NPAGEREFS + 1" by (rule lchain_short [OF S(1,2)]) (use heap_lens [OF assms(1)] in simp)
  note find = kmalloc_find_spec [OF S(1,3) this]
  have base: "peek (sizebases ?h1) (int t) = Some (sizebases ?h1 ! t)" using heap_lens(3) [OF assms(1)] t(2) by simp
  show thesis
  proof (cases "List.find (\<lambda>x. nfree (pagerefs ?h1 ! x) > 0) (S t)")
    case None
    have run: "subpage_kmalloc sz h = (kmalloc_newpage t ?h1 \<bind> (\<lambda>(ret, h2). Some (ret, hsplx ?s h2)))"
      using t(1) base find None by (simp add: subpage_kmalloc_def hspl_simps(1))
    show thesis
    proof (cases rule: newpage_cases [OF ok1 t(2)])
      case (1 h')
      then show thesis using run heap_ok_spl [OF 1(2), of ?s] by (intro null [of "hsplx ?s h'"]) (simp_all add: hspl_simps(2) hmem_def)
    next
      case (2 a h' L' S' F')
      then show thesis using run t(3) heap_ok_spl [OF 2(3), of ?s]
        by (intro block [of a "hsplx ?s h'" "sizes ! t" L' S' F']) (simp_all add: hspl_simps(2) kept_def hmem_def)
    qed
  next
    case (Some p)
    then have p: "p \<in> set (S t)" "0 < nfree (pagerefs ?h1 ! p)" by (auto simp: find_Some_iff)
    then have pL: "p \<in> set L" "PR_BLOCKTYPE (pagerefs ?h1 ! p) = t" using S(3,4) by auto
    obtain a G where G: "F p = a # G" using p(2) heap_page [OF ok1 pL(1)] by (cases "F p") (auto simp: page_ok_def)
    obtain h' where h': "doalloc p ?h1 = Some (a, h')" "heap_ok h' L S (F(p := G)) bigs"
        "allocated h' L (F(p := G)) bigs = insert (a, pr_size (pagerefs ?h1 ! p)) (allocated ?h1 L F bigs)"
        "(a, pr_size (pagerefs ?h1 ! p)) \<notin> allocated ?h1 L F bigs" "kh_vm h' = kh_vm ?h1" "0 < a"
      by (rule alloc_in_page [OF ok1 pL(1) G])
    have sz: "pr_size (pagerefs ?h1 ! p) = sizes ! t" using pL(2) by (simp add: pr_size_def)
    have run: "subpage_kmalloc sz h = Some (a, hsplx ?s h')"
      using t(1) base find Some h'(1) by (simp add: subpage_kmalloc_def hspl_simps(1))
    show thesis
      by (rule block [OF run h'(6) t(3)]) (use h'(3-5) sz heap_ok_spl [OF h'(2), of ?s] in \<open>simp_all add: hspl_simps(2) kept_def hmem_def\<close>)
  qed
qed

lemma kmalloc_cases:
  assumes "heap_ok h L S F bigs" and "sz \<le> 2 ^ 30"
  obtains (null) h' where "kmalloc sz h = Some (0, h')" and "heap_ok h' L S F bigs" and "allocated h' L F bigs = allocated h L F bigs" and "hmem h' = hmem h"
  | (block) a c h' L' S' F' bigs' where "kmalloc sz h = Some (a, h')" and "0 < a" and "sz \<le> c" and "heap_ok h' L' S' F' bigs'"
      and "allocated h' L' F' bigs' = insert (a, c) (allocated h L F bigs)" and "(a, c) \<notin> allocated h L F bigs" and "kept h (allocated h L F bigs) h'"
proof (cases "sz < LARGEST_SUBPAGE_SIZE")
  case True
  then have sub: "sz \<le> 2048" "kmalloc sz h = subpage_kmalloc sz h" by (simp_all add: kmalloc_def LARGEST_SUBPAGE_SIZE_def)
  show thesis
  proof (cases rule: subpage_kmalloc_cases [OF assms(1) sub(1)])
    case (1 h')
    then show thesis using sub(2) by (intro null [of h']) simp_all
  next
    case (2 a c h' L' S' F')
    then show thesis using sub(2) by (intro block [of a h' c L' S' F' bigs]) simp_all
  qed
next
  case False
  define n where "n = (sz + 4096 - 1) div 4096"
  have n: "n < 2 ^ 19" "sz \<le> 4096 * n" "0 < n" using assms(2) False by (auto simp: n_def LARGEST_SUBPAGE_SIZE_def)
  have "(sz + 4096 - 1) mod 2 ^ 32 = sz + 4096 - 1" using assms(2) by simp
  then have run: "kmalloc sz h = (let (address, s) = alloc_kpages (int n) (kh_vm h) in Some (unat address, h\<lparr>kh_vm := s\<rparr>))"
    using False by (simp add: kmalloc_def n_def)
  have ram: "ram_ok (kh_vm h)" using assms(1) by (simp add: heap_ok_def)
  show thesis
  proof (cases rule: alloc_kpages_cases [OF ram n(1)])
    case 1
    then show thesis using run assms(1) by (intro null [of h]) simp_all
  next
    case (2 pg f)
    let ?h = "h\<lparr>kh_vm := (kh_vm h)\<lparr>firstpaddr := f\<rparr>\<rparr>" and ?b = "(unat pg, 4096 * n)"
    have sb: "separate (map (page_block h) L @ bigs)" "below (unat pg) (map (page_block h) L @ bigs)" using assms(1) 2(3) by (simp_all add: heap_ok_def)
    have lim: "unat f + 2 ^ 31 = unat pg + 4096 * n" using 2(3,4) by simp
    have "separate (map (page_block h) L @ ?b # bigs)" using separate_new [OF sb, of "4096 * n"] by (auto simp: separate_append Int_commute)
    moreover have "below (unat f + 2 ^ 31) (map (page_block h) L @ ?b # bigs)" unfolding lim using separate_new [OF sb, of "4096 * n"] by (simp add: below_def)
    moreover have "unat pg mod 4096 = 0" using 2(6) page_aligned_iff by blast
    ultimately have heap: "heap_ok ?h L S F (?b # bigs)"
      using assms(1) 2(3,5) n(3) by (simp add: heap_ok_def hmem_def)
    have fresh: "?b \<notin> allocated h L F bigs"
      using below_kernel [OF assms(1), of ?b] 2(3) n(3) by auto
    show thesis
      by (rule block [OF _ _ n(2) heap _ fresh]) (use run 2(1,3) in \<open>simp_all add: allocated_def kept_def hmem_def\<close>)
  qed
qed

end
