(* ===== verification/KHeapSys.thy ===== *)
theory KHeapSys
  imports KHeapAlloc
begin

unbundle bit_operations_syntax

text \<open>
  Freeing, and the kernel heap with the clients that hold its blocks: blocks that are held never overlap,
  \<open>kmalloc\<close> and \<open>kfree\<close> fail no assertion, and neither touches what is in a block that is held.
\<close>

section \<open>Freeing\<close>

text \<open>Taking a page reference out of its two lists.\<close>

lemma remove_samesize_spec:
  assumes "lchain next_samesize (pagerefs h) (sizebases h ! t) xs" and "t < length (sizebases h)" and "p \<in> set xs" and "distinct xs" and "length (pagerefs h) = NPAGEREFS"
  obtains u b where "remove_samesize p t h = Some (h\<lparr>pagerefs := u, sizebases := (sizebases h)[t := b]\<rparr>)" and "lchain next_samesize u b (remove1 p xs)"
    and "length u = length (pagerefs h)" and "\<forall>x. u ! x = (pagerefs h ! x)\<lparr>next_samesize := next_samesize (u ! x)\<rparr>"
    and "\<forall>x. x \<notin> set xs \<longrightarrow> u ! x = pagerefs h ! x"
proof -
  obtain us vs where xs: "xs = us @ p # vs" and us: "p \<notin> set us" using assms(3) by (meson split_list_first)
  have rem: "remove1 p xs = us @ vs" using xs us by (simp add: remove1_append)
  have short: "length us < NPAGEREFS + 1" using lchain_short [OF assms(1,4,5)] xs by simp
  note slot = find_slot_spec [OF assms(1) [unfolded xs] us short, of Base]
  have idx: "set xs \<subseteq> {..<length (pagerefs h)}" by (rule lchain_bound [OF assms(1)])
  have base: "peek (sizebases h) (int t) = Some (sizebases h ! t)" "get_pr h p = Some (pagerefs h ! p)" using assms(2,3) idx by (auto simp: get_pr_def)
  show thesis
  proof (cases "us = []")
    case True
    have "lchain next_samesize (pagerefs h) (next_samesize (pagerefs h ! p)) (remove1 p xs)" using assms(1) True by (simp add: xs)
    then show thesis by (rule that [rotated]) (use base slot True in \<open>simp_all add: remove_samesize_def\<close>)
  next
    case False
    let ?q = "(pagerefs h ! last us)\<lparr>next_samesize := next_samesize (pagerefs h ! p)\<rparr>" and ?g = "last us"
    have g: "?g \<in> set xs" using False xs by simp
    then have gl: "?g < length (pagerefs h)" using idx by blast
    have ch: "lchain next_samesize ((pagerefs h)[?g := ?q]) (sizebases h ! t) (remove1 p xs)"
      unfolding rem by (rule lchain_remove_next [OF assms(1) [unfolded xs] False]) (use assms(4) xs in simp_all)
    show thesis
      by (rule that [OF _ ch]) (use base slot False g gl in \<open>auto simp: remove_samesize_def get_pr_def put_pr_def upd_nth\<close>)
  qed
qed

lemma remove_all_spec:
  assumes "lchain next_all (pagerefs h) (allbase h) xs" and "p \<in> set xs" and "distinct xs" and "length (pagerefs h) = NPAGEREFS"
  obtains u b where "remove_all p h = Some (h\<lparr>pagerefs := u, allbase := b\<rparr>)" and "lchain next_all u b (remove1 p xs)"
    and "length u = length (pagerefs h)" and "\<forall>x. u ! x = (pagerefs h ! x)\<lparr>next_all := next_all (u ! x)\<rparr>"
proof -
  obtain us vs where xs: "xs = us @ p # vs" and us: "p \<notin> set us" using assms(2) by (meson split_list_first)
  have rem: "remove1 p xs = us @ vs" using xs us by (simp add: remove1_append)
  have short: "length us < NPAGEREFS + 1" using lchain_short [OF assms(1,3,4)] xs by simp
  note slot = find_slot_spec [OF assms(1) [unfolded xs] us short, of Base]
  have idx: "set xs \<subseteq> {..<length (pagerefs h)}" by (rule lchain_bound [OF assms(1)])
  have base: "get_pr h p = Some (pagerefs h ! p)" using assms(2) idx by (auto simp: get_pr_def)
  show thesis
  proof (cases "us = []")
    case True
    have "lchain next_all (pagerefs h) (next_all (pagerefs h ! p)) (remove1 p xs)" using assms(1) True by (simp add: xs)
    then show thesis by (rule that [rotated]) (use base slot True in \<open>simp_all add: remove_all_def\<close>)
  next
    case False
    let ?q = "(pagerefs h ! last us)\<lparr>next_all := next_all (pagerefs h ! p)\<rparr>" and ?g = "last us"
    have g: "?g \<in> set xs" using False xs by simp
    then have gl: "?g < length (pagerefs h)" using idx by blast
    have ch: "lchain next_all ((pagerefs h)[?g := ?q]) (allbase h) (remove1 p xs)"
      unfolding rem by (rule lchain_remove_next [OF assms(1) [unfolded xs] False]) (use assms(3) xs in simp_all)
    show thesis
      by (rule that [OF _ ch]) (use base slot False g gl in \<open>auto simp: remove_all_def get_pr_def put_pr_def upd_nth\<close>)
  qed
qed

lemma lists_ok_drop:
  assumes "lists_ok h L S" and "p \<in> set L" and "PR_BLOCKTYPE (pagerefs h ! p) = t" and "t < NSIZES"
  obtains u v b where "remove_lists p t h = Some (h\<lparr>pagerefs := u, sizebases := v, allbase := b\<rparr>)"
    and "\<forall>x. pageaddr_and_blocktype (u ! x) = pageaddr_and_blocktype (pagerefs h ! x) \<and> freelist_offset (u ! x) = freelist_offset (pagerefs h ! x) \<and> nfree (u ! x) = nfree (pagerefs h ! x)"
    and "\<forall>w. length w = INUSE_WORDS \<longrightarrow> inuse (h\<lparr>pagerefs_inuse := w\<rparr>) = inuse h - {p} \<longrightarrow>
      lists_ok (h\<lparr>pagerefs := u, sizebases := v, allbase := b, pagerefs_inuse := w\<rparr>) (remove1 p L) (S(t := remove1 p (S t)))"
proof -
  note ok = assms(1) [unfolded lists_ok_def]
  have St: "lchain next_samesize (pagerefs h) (sizebases h ! t) (S t)" "distinct (S t)" "p \<in> set (S t)" "t < length (sizebases h)" "length (pagerefs h) = NPAGEREFS"
    using ok assms(2-4) by simp_all
  obtain u1 b1 where 1: "remove_samesize p t h = Some (h\<lparr>pagerefs := u1, sizebases := (sizebases h)[t := b1]\<rparr>)" "lchain next_samesize u1 b1 (remove1 p (S t))"
      "length u1 = length (pagerefs h)" "\<forall>x. u1 ! x = (pagerefs h ! x)\<lparr>next_samesize := next_samesize (u1 ! x)\<rparr>"
      "\<forall>x. x \<notin> set (S t) \<longrightarrow> u1 ! x = pagerefs h ! x"
    by (rule remove_samesize_spec [OF St(1,4,3,2,5)])
  let ?h1 = "h\<lparr>pagerefs := u1, sizebases := (sizebases h)[t := b1]\<rparr>"
  have "next_all (u1 ! x) = next_all (pagerefs h ! x)" for x by (subst 1(4) [rule_format]) simp
  then have all: "lchain next_all (pagerefs ?h1) (allbase ?h1) L" "length (pagerefs ?h1) = NPAGEREFS"
    using ok 1(3) lchain_cong [of next_all "pagerefs h" "allbase h" L u1] by simp_all
  obtain u b where 2: "remove_all p ?h1 = Some (?h1\<lparr>pagerefs := u, allbase := b\<rparr>)" "lchain next_all u b (remove1 p L)"
      "length u = length (pagerefs ?h1)" "\<forall>x. u ! x = (pagerefs ?h1 ! x)\<lparr>next_all := next_all (u ! x)\<rparr>"
    by (rule remove_all_spec [OF all(1) assms(2) _ all(2)]) (use ok in simp)
  have same1: "pageaddr_and_blocktype (u1 ! x) = pageaddr_and_blocktype (pagerefs h ! x)" "freelist_offset (u1 ! x) = freelist_offset (pagerefs h ! x)"
      "nfree (u1 ! x) = nfree (pagerefs h ! x)" for x
    by (subst 1(4) [rule_format]; simp)+
  have same2: "pageaddr_and_blocktype (u ! x) = pageaddr_and_blocktype (u1 ! x)" "freelist_offset (u ! x) = freelist_offset (u1 ! x)"
      "nfree (u ! x) = nfree (u1 ! x)" "next_samesize (u ! x) = next_samesize (u1 ! x)" for x
    by (subst 2(4) [rule_format]; simp)+
  have bt: "PR_BLOCKTYPE (u ! x) = PR_BLOCKTYPE (pagerefs h ! x)" for x by (simp add: PR_BLOCKTYPE_def same1 same2)
  have chain: "lchain next_samesize u (((sizebases h)[t := b1]) ! k) ((S(t := remove1 p (S t))) k)" if k: "k < NSIZES" for k
  proof (cases "k = t")
    case True
    have "lchain next_samesize u b1 (remove1 p (S t))" by (rule lchain_cong [OF 1(2)]) (use 2(3) same2(4) in simp_all)
    then show ?thesis using True St(4) by simp
  next
    case False
    then have "x \<notin> set (S t)" if "x \<in> set (S k)" for x using that ok k assms(4) by auto
    then have "\<forall>x \<in> set (S k). next_samesize (u ! x) = next_samesize (pagerefs h ! x)" using 1(5) same2(4) by simp
    then show ?thesis using False ok k 1(3) 2(3) by (auto intro: lchain_cong)
  qed
  have sets: "distinct ((S(t := remove1 p (S t))) k) \<and> set ((S(t := remove1 p (S t))) k) = {i \<in> set (remove1 p L). PR_BLOCKTYPE (u ! i) = k}" if k: "k < NSIZES" for k
    using ok k assms(2-4) by (auto simp: bt)
  have "lists_ok (h\<lparr>pagerefs := u, sizebases := (sizebases h)[t := b1], allbase := b, pagerefs_inuse := w\<rparr>) (remove1 p L) (S(t := remove1 p (S t)))"
    if w: "length w = INUSE_WORDS" "inuse (h\<lparr>pagerefs_inuse := w\<rparr>) = inuse h - {p}" for w
  proof -
    have "inuse (h\<lparr>pagerefs := u, sizebases := (sizebases h)[t := b1], allbase := b, pagerefs_inuse := w\<rparr>) = inuse (h\<lparr>pagerefs_inuse := w\<rparr>)" by (simp add: inuse_def)
    then show ?thesis using w ok chain sets 1(3) 2(2,3) assms(4) unfolding lists_ok_def by simp
  qed
  then show thesis
    by (intro that [of b "(sizebases h)[t := b1]" u]) (use 1(1) 2(1) assms(4) same1 same2 in \<open>simp_all add: remove_lists_def\<close>)
qed

lemma separate_remove: "separate (map f xs @ bs) \<Longrightarrow> separate (map f (remove1 p xs) @ bs)"
proof (induction xs)
  case (Cons x xs)
  have "f ` set (remove1 p xs) \<subseteq> f ` set xs" by (rule image_mono [OF set_remove1_subset])
  then show ?case using Cons by auto
qed simp

lemma below_remove: "below n (map f xs @ bs) \<Longrightarrow> below n (map f (remove1 p xs) @ bs)"
  using set_remove1_subset [of p xs] by (fastforce simp: below_def)

text \<open>A page whose blocks are all free leaves the heap.\<close>

lemma drop_page:
  assumes "heap_ok h L S F bigs" and "p \<in> set L" and "set (F p) = pr_slots (pagerefs h ! p)" and "PR_BLOCKTYPE (pagerefs h ! p) = t"
  obtains h2 h' S' where "remove_lists p t h = Some h2" and "freepageref p h2 = Some h'"
    and "heap_ok h' (remove1 p L) S' F bigs" and "allocated h' (remove1 p L) F bigs = allocated h L F bigs" and "kh_vm h' = kh_vm h"
proof -
  have ok: "lists_ok h L S" "t < NSIZES" "distinct L" "set L = inuse h" using assms(1,4) heap_page [OF assms(1,2)] by (auto simp: heap_ok_def page_ok_def lists_ok_def)
  obtain u v b where d: "remove_lists p t h = Some (h\<lparr>pagerefs := u, sizebases := v, allbase := b\<rparr>)"
      "\<forall>x. pageaddr_and_blocktype (u ! x) = pageaddr_and_blocktype (pagerefs h ! x) \<and> freelist_offset (u ! x) = freelist_offset (pagerefs h ! x) \<and> nfree (u ! x) = nfree (pagerefs h ! x)"
      "\<forall>w. length w = INUSE_WORDS \<longrightarrow> inuse (h\<lparr>pagerefs_inuse := w\<rparr>) = inuse h - {p} \<longrightarrow>
        lists_ok (h\<lparr>pagerefs := u, sizebases := v, allbase := b, pagerefs_inuse := w\<rparr>) (remove1 p L) (S(t := remove1 p (S t)))"
    by (rule lists_ok_drop [OF ok(1) assms(2,4) ok(2)])
  let ?h2 = "h\<lparr>pagerefs := u, sizebases := v, allbase := b\<rparr>"
  have i2: "inuse ?h2 = inuse h" by (simp add: inuse_def)
  have len: "length (pagerefs_inuse ?h2) = INUSE_WORDS" "p \<in> inuse ?h2" using heap_lens [OF assms(1)] i2 assms(2) ok(4) by simp_all
  obtain w where w: "freepageref p ?h2 = Some (?h2\<lparr>pagerefs_inuse := w\<rparr>)" "inuse (?h2\<lparr>pagerefs_inuse := w\<rparr>) = inuse ?h2 - {p}" "length w = INUSE_WORDS"
    by (rule freepageref_spec [OF len])
  let ?h = "h\<lparr>pagerefs := u, sizebases := v, allbase := b, pagerefs_inuse := w\<rparr>"
  have iw: "inuse (h\<lparr>pagerefs_inuse := w\<rparr>) = inuse h - {p}" using w(2) by (simp add: inuse_def)
  have lists: "lists_ok ?h (remove1 p L) (S(t := remove1 p (S t)))" using d(3) w(3) iw by blast
  have same: "PR_PAGEADDR (u ! x) = PR_PAGEADDR (pagerefs h ! x)" "pr_size (u ! x) = pr_size (pagerefs h ! x)" "pr_slots (u ! x) = pr_slots (pagerefs h ! x)" for x
    using d(2) by (simp_all add: PR_PAGEADDR_def PR_BLOCKTYPE_def pr_size_def pr_slots_def)
  have pb: "page_block ?h = page_block h" by (simp add: fun_eq_iff page_block_def same)
  have rem: "set (remove1 p L) = set L - {p}" using ok(3) by simp
  have "page_ok (hmem h) (u ! i) (F i)" if "i \<in> set (remove1 p L)" for i
    by (rule page_ok_cong [OF heap_page [OF assms(1)]]) (use that rem d(2) in auto)
  moreover have "separate (map (page_block h) (remove1 p L) @ bigs)" "below (unat (firstpaddr (kh_vm h)) + 2 ^ 31) (map (page_block h) (remove1 p L) @ bigs)"
    by (rule separate_remove below_remove; use assms(1) in \<open>simp add: heap_ok_def\<close>)+
  ultimately have heap: "heap_ok ?h (remove1 p L) (S(t := remove1 p (S t))) F bigs"
    using assms(1) lists unfolding heap_ok_def pb by (simp add: hmem_def)
  have alloc: "allocated ?h (remove1 p L) F bigs = allocated h L F bigs"
    unfolding allocated_def rem using assms(3) by (auto simp: same)
  show thesis by (rule that [OF d(1) _ heap alloc]) (use w(1) in simp_all)
qed

definition freed_mem :: "kheap \<Rightarrow> nat \<Rightarrow> nat \<Rightarrow> memory" where
  "freed_mem h p a = (let r = pagerefs h ! p in
     st32 (fill_deadbeef a (pr_size r) (hmem h)) a (if freelist_offset r = INVALID_OFFSET then 0 else PR_PAGEADDR r + freelist_offset r))"

definition freed_pr :: "kheap \<Rightarrow> nat \<Rightarrow> nat \<Rightarrow> pageref" where
  "freed_pr h p a = (let r = pagerefs h ! p in r\<lparr>freelist_offset := a - PR_PAGEADDR r, nfree := nfree r + 1\<rparr>)"

lemma freed_page_ok:
  assumes "page_ok (hmem h) (pagerefs h ! p) F" and "a \<in> pr_slots (pagerefs h ! p)" and "a \<notin> set F"
  shows "page_ok (freed_mem h p a) (freed_pr h p a) (a # F)"
    and "x < a \<or> a + pr_size (pagerefs h ! p) \<le> x \<Longrightarrow> freed_mem h p a x = hmem h x"
proof -
  let ?r = "pagerefs h ! p" and ?m = "freed_mem h p a"
  note a = page_slot [OF assms(1,2)] and sz = page_size [OF assms(1)]
  show out: "?m x = hmem h x" if "x < a \<or> a + pr_size ?r \<le> x" for x
    using that sz(1) by (auto simp: freed_mem_def Let_def st32_other fill_deadbeef_other)
  have slot: "x + pr_size ?r \<le> a \<or> a + pr_size ?r \<le> x" if "x \<in> set F" for x
  proof -
    have x: "x \<in> pr_slots ?r" "x \<noteq> a" using that assms by (auto simp: page_ok_def)
    show ?thesis using slots_apart [OF x(1) [unfolded pr_slots_def] assms(2) [unfolded pr_slots_def] x(2)] sz(1) by auto
  qed
  have keep: "\<forall>x \<in> set F. ld32 ?m x = ld32 (hmem h) x"
    using slot sz(1) out by (intro ballI ld32_cong) fastforce
  have head: "(if freelist_offset ?r = INVALID_OFFSET then 0 else PR_PAGEADDR ?r + freelist_offset ?r) = (if F = [] then 0 else hd F)"
  proof (cases F)
    case (Cons x xs)
    then have "x \<in> pr_slots ?r" using assms(1) by (simp add: page_ok_def)
    note x = page_slot [OF assms(1) this]
    show ?thesis using Cons assms(1) x(1,2) sz(1) by (simp add: page_ok_def INVALID_OFFSET_def)
  qed (use assms(1) in \<open>simp add: page_ok_def\<close>)
  have lt: "(if F = [] then 0 else hd F) < 2 ^ 32"
    using page_slot(3) [OF assms(1), of "hd F"] assms(1) by (cases F) (simp_all add: page_ok_def)
  have "ld32 ?m a = (if F = [] then 0 else hd F)" unfolding freed_mem_def Let_def head by (rule ld32_st32 [OF lt])
  then have fl: "flist ?m a (a # F)" using a(4) flist_cong [OF _ keep] assms(1) by (simp add: page_ok_def)
  have pr: "PR_PAGEADDR (freed_pr h p a) = PR_PAGEADDR ?r" "PR_BLOCKTYPE (freed_pr h p a) = PR_BLOCKTYPE ?r"
    by (simp_all add: freed_pr_def Let_def PR_PAGEADDR_def PR_BLOCKTYPE_def)
  show "page_ok ?m (freed_pr h p a) (a # F)"
    using assms fl pr unfolding page_ok_def pr_slots_def pr_size_def by (simp add: freed_pr_def Let_def)
qed

text \<open>The run of \<open>kfree_block\<close> up to the test whether the page is free.\<close>

lemma kfree_block_run:
  assumes "page_ok (hmem h) (pagerefs h ! p) F" and "p < length (pagerefs h)" and "a \<in> pr_slots (pagerefs h ! p)" and "a \<notin> set F"
  defines "h1 \<equiv> (set_hmem (freed_mem h p a) h)\<lparr>pagerefs := (pagerefs h)[p := freed_pr h p a]\<rparr>"
  shows "kfree_block a p h = (if Suc (length F) = 4096 div pr_size (pagerefs h ! p) then
     remove_lists p (PR_BLOCKTYPE (pagerefs h ! p)) h1 \<bind> freepageref p else Some h1)"
proof -
  let ?r = "pagerefs h ! p"
  note a = page_slot [OF assms(1,3)] and sz = page_size [OF assms(1)]
  have le: "Suc (length F) \<le> 4096 div pr_size ?r"
    using page_free_le [OF freed_page_ok(1) [OF assms(1,3,4)]] by (simp add: freed_pr_def Let_def pr_size_def PR_BLOCKTYPE_def)
  have nf: "nfree ?r = length F" using assms(1) by (simp add: page_ok_def)
  have nf1: "Suc (length F) mod 65536 = Suc (length F)" using le sz(3) by simp
  have addr: "PR_PAGEADDR ?r + (a - PR_PAGEADDR ?r) = a" "a - PR_PAGEADDR ?r < 4096" using a(1,2) sz(1) by simp_all
  have put: "put_pr p (?r\<lparr>freelist_offset := a - PR_PAGEADDR ?r, nfree := Suc (length F)\<rparr>) (set_hmem (freed_mem h p a) h) = Some h1"
    using assms(2) nf by (simp add: h1_def put_pr_def set_hmem_def freed_pr_def Let_def)
  have mem: "st32 (fill_deadbeef a (pr_size ?r) (hmem h)) a (if freelist_offset ?r = INVALID_OFFSET then 0 else PR_PAGEADDR ?r + freelist_offset ?r) = freed_mem h p a"
    by (simp add: freed_mem_def Let_def)
  have get: "get_pr h p = Some ?r" using assms(2) by (simp add: get_pr_def)
  have same: "h'\<lparr>kh_vm := free_kpages x (kh_vm h')\<rparr> = h'" for h' x by (simp add: free_kpages_def)
  show ?thesis
    unfolding kfree_block_def Let_def get using le a(5) addr by (simp add: sz(4) nf nf1 mem put same)
qed

lemma free_in_page:
  assumes "heap_ok h L S F bigs" and "p \<in> set L" and "a \<in> pr_slots (pagerefs h ! p)" and "a \<notin> set (F p)"
  defines "c \<equiv> pr_size (pagerefs h ! p)"
  obtains h' L' S' F' where "kfree_block a p h = Some h'" and "heap_ok h' L' S' F' bigs"
    and "allocated h' L' F' bigs = allocated h L F bigs - {(a, c)}" and "\<forall>x. x \<notin> brange (a, c) \<longrightarrow> hmem h' x = hmem h x"
proof -
  note page = heap_page [OF assms(1,2)] and idx = heap_index [OF assms(1,2)]
  let ?m = "freed_mem h p a" and ?r = "freed_pr h p a" and ?F = "F(p := a # F p)"
  let ?h1 = "(set_hmem ?m h)\<lparr>pagerefs := (pagerefs h)[p := ?r]\<rparr>"
  have in_alloc: "(a, c) \<in> allocated h L F bigs" using assms(2-4) by (auto simp: allocated_def c_def)
  have out: "\<forall>x. x \<notin> brange (a, c) \<longrightarrow> ?m x = hmem h x" using freed_page_ok(2) [OF page assms(3,4)] by (auto simp: brange_def c_def)
  have ok0: "heap_ok (set_hmem ?m h) L S F bigs" by (rule heap_ok_store [OF assms(1) in_alloc out])
  have pr: "page_ok (hmem (set_hmem ?m h)) ?r (a # F p)" "?r = (pagerefs (set_hmem ?m h) ! p)\<lparr>nfree := nfree ?r, freelist_offset := freelist_offset ?r\<rparr>"
    using freed_page_ok(1) [OF page assms(3,4)] by (simp_all add: set_hmem_def hmem_def freed_pr_def Let_def)
  note put = heap_ok_put [OF ok0 assms(2) pr]
  have e: "(set_hmem ?m h)\<lparr>pagerefs := (pagerefs (set_hmem ?m h))[p := ?r]\<rparr> = ?h1" "pagerefs (set_hmem ?m h) = pagerefs h" by (simp_all add: set_hmem_def)
  have ok1: "heap_ok ?h1 L S ?F bigs" using put(1) unfolding e .
  have sl: "pr_slots (pagerefs ?h1 ! i) = pr_slots (pagerefs h ! i)" "pr_size (pagerefs ?h1 ! i) = pr_size (pagerefs h ! i)" for i
    using put(2,3) unfolding e by simp_all
  have "(a, c) \<notin> allocated ?h1 L ?F bigs"
  proof
    assume al: "(a, c) \<in> allocated ?h1 L ?F bigs"
    have "a \<in> set (?F p)" by simp
    from free_apart [OF ok1 assms(2) this al] page_size(1) [OF page] show False unfolding sl by (auto simp: brange_def c_def)
  qed
  moreover have "insert (a, c) (allocated ?h1 L ?F bigs) = allocated h L F bigs"
    using in_alloc unfolding allocated_def sl by (auto simp: c_def split: if_splits)
  ultimately have al1: "allocated ?h1 L ?F bigs = allocated h L F bigs - {(a, c)}" by blast
  have mem: "hmem ?h1 = ?m" by (simp add: hmem_def set_hmem_def)
  note run = kfree_block_run [OF page idx assms(3,4)]
  show thesis
  proof (cases "Suc (length (F p)) = 4096 div pr_size (pagerefs h ! p)")
    case False
    then show thesis by (intro that [OF _ ok1 al1]) (use run out mem in simp_all)
  next
    case True
    have pg1: "page_ok (hmem ?h1) (pagerefs ?h1 ! p) (?F p)" by (rule heap_page [OF ok1 assms(2)])
    have "card (set (?F p)) = card (pr_slots (pagerefs ?h1 ! p))"
      using True pg1 page_size(6) [OF pg1] unfolding sl by (metis distinct_card fun_upd_same length_Cons page_ok_def)
    then have full: "set (?F p) = pr_slots (pagerefs ?h1 ! p)"
      using pg1 page_size(5) [OF pg1] by (intro card_subset_eq) (simp_all add: page_ok_def)
    have t: "PR_BLOCKTYPE (pagerefs ?h1 ! p) = PR_BLOCKTYPE (pagerefs h ! p)"
      using idx by (simp add: set_hmem_def freed_pr_def Let_def PR_BLOCKTYPE_def)
    obtain h2 h' S' where d: "remove_lists p (PR_BLOCKTYPE (pagerefs h ! p)) ?h1 = Some h2" "freepageref p h2 = Some h'"
        "heap_ok h' (remove1 p L) S' ?F bigs" "allocated h' (remove1 p L) ?F bigs = allocated ?h1 L ?F bigs" "kh_vm h' = kh_vm ?h1"
      by (rule drop_page [OF ok1 assms(2) full t])
    have "hmem h' = ?m" using d(5) mem by (simp add: hmem_def)
    then show thesis by (intro that [OF _ d(3)]) (use run True d(1,2,4) al1 out in simp_all)
  qed
qed

lemma find_only:
  assumes "i \<in> set xs" and "P i" and only: "\<And>x. x \<in> set xs \<Longrightarrow> P x \<Longrightarrow> x = i"
  shows "List.find P xs = Some i"
proof (cases "List.find P xs")
  case None
  then show ?thesis using assms(1,2) by (auto simp: find_None_iff)
next
  case (Some y)
  then have "y \<in> set xs" "P y" by (auto simp: find_Some_iff)
  then show ?thesis using only [of y] Some by simp
qed

lemma kfree_cases:
  assumes "heap_ok h L S F bigs" and "(a, c) \<in> allocated h L F bigs"
  obtains h' L' S' F' bigs' where "kfree a h = Some h'" and "heap_ok h' L' S' F' bigs'"
    and "allocated h' L' F' bigs' = allocated h L F bigs - {(a, c)}" and "\<forall>x. x \<notin> brange (a, c) \<longrightarrow> hmem h' x = hmem h x"
proof -
  let ?s = "vm_curspl (kh_vm h)" and ?h1 = "h\<lparr>kh_vm := (kh_vm h)\<lparr>vm_curspl := SPL_HIGH\<rparr>\<rparr>"
  have pos: "0 < c" "a \<noteq> 0" using allocated_pos [OF assms] by simp_all
  have ok1: "heap_ok ?h1 L S F bigs" by (rule heap_ok_spl [OF assms(1)])
  have L: "lchain next_all (pagerefs ?h1) (allbase ?h1) L" "distinct L" using assms(1) by (simp_all add: heap_ok_def lists_ok_def)
  have bt: "\<forall>x \<in> set L. PR_BLOCKTYPE (pagerefs ?h1 ! x) < NSIZES" using assms(1) by (auto simp: heap_ok_def page_ok_def)
  have "length L < NPAGEREFS + 1" by (rule lchain_short [OF L]) (use heap_lens [OF assms(1)] in simp)
  note find = kfree_find_spec [OF L(1) bt this, of a]
  have inpage: "x = i" if "i \<in> set L" "x \<in> set L" "a \<in> brange (page_block h i)" "a \<in> brange (page_block h x)" for i x
    using pages_apart [OF assms(1) that(1,2)] that(3,4) by blast
  have abr: "a \<in> brange (page_block h x) \<longleftrightarrow> PR_PAGEADDR (pagerefs ?h1 ! x) \<le> a \<and> a < PR_PAGEADDR (pagerefs ?h1 ! x) + 4096" for x
    by (simp add: page_block_def brange_def)
  show thesis
  proof (cases "\<exists>i \<in> set L. a \<in> brange (page_block h i)")
    case True
    then obtain i where i: "i \<in> set L" "a \<in> brange (page_block h i)" by blast
    have ac: "a \<in> brange (a, c)" using pos(1) by (simp add: brange_def)
    have "(a, c) \<notin> set bigs" using page_big_apart [OF assms(1) i(1), of "(a, c)"] i(2) ac by blast
    then obtain j where j: "j \<in> set L" "a \<in> pr_slots (pagerefs h ! j)" "a \<notin> set (F j)" "c = pr_size (pagerefs h ! j)" using assms(2) by (auto simp: allocated_def)
    have "a \<in> brange (page_block h j)" using slot_in_page [OF assms(1) j(1,2)] ac j(4) by blast
    then have ji: "j = i" using inpage [OF i(1) j(1) i(2)] by simp
    have "List.find (\<lambda>x. PR_PAGEADDR (pagerefs ?h1 ! x) \<le> a \<and> a < PR_PAGEADDR (pagerefs ?h1 ! x) + 4096) L = Some i"
      by (rule find_only [OF i(1)]) (use i(2) in \<open>simp only: abr\<close>, rule inpage [OF i(1) _ i(2)], unfold abr)
    then have found: "kfree_find a ?h1 (NPAGEREFS + 1) (allbase ?h1) = Some (Some i)" using find by simp
    have s: "a \<in> pr_slots (pagerefs ?h1 ! i)" "a \<notin> set (F i)" using j ji by simp_all
    obtain h' L' S' F' where f: "kfree_block a i ?h1 = Some h'" "heap_ok h' L' S' F' bigs"
        "allocated h' L' F' bigs = allocated ?h1 L F bigs - {(a, pr_size (pagerefs ?h1 ! i))}" "\<forall>x. x \<notin> brange (a, pr_size (pagerefs ?h1 ! i)) \<longrightarrow> hmem h' x = hmem ?h1 x"
      by (rule free_in_page [OF ok1 i(1) s])
    have run: "kfree a h = Some (hsplx ?s h')" using pos(2) found f(1) by (simp add: kfree_def subpage_kfree_def hspl_simps(1))
    show thesis
      by (rule that [OF run _ _]) (use heap_ok_spl [OF f(2), of ?s] f(3,4) j(4) ji in \<open>simp_all add: hspl_simps(2) hmem_def\<close>)
  next
    case False
    have "List.find (\<lambda>x. PR_PAGEADDR (pagerefs ?h1 ! x) \<le> a \<and> a < PR_PAGEADDR (pagerefs ?h1 ! x) + 4096) L = None"
      using False unfolding abr [symmetric] by (auto simp: find_None_iff)
    then have found: "kfree_find a ?h1 (NPAGEREFS + 1) (allbase ?h1) = Some None" using find by simp
    have "a \<notin> pr_slots (pagerefs h ! j)" if "j \<in> set L" for j
      using False slot_in_page [OF assms(1) that, of a] that page_size(1) [OF heap_page [OF assms(1) that]] by (fastforce simp: brange_def)
    then have big: "(a, c) \<in> set bigs" and none: "\<And>j. j \<in> set L \<Longrightarrow> a \<notin> pr_slots (pagerefs h ! j)" using assms(2) by (auto simp: allocated_def)
    have "a mod 4096 = 0" using assms(1) big by (auto simp: heap_ok_def)
    then have run: "kfree a h = Some h" using pos(2) found by (simp add: kfree_def subpage_kfree_def hspl_simps free_kpages_def)
    obtain us vs where b: "bigs = us @ (a, c) # vs" using big by (meson split_list)
    have "(a, c) \<notin> set (us @ vs)" using assms(1) pos(1) b by (auto simp: heap_ok_def separate_append brange_def)
    then have al: "allocated h L F (us @ vs) = allocated h L F bigs - {(a, c)}" using none b by (auto simp: allocated_def)
    have "heap_ok h L S F (us @ vs)" using assms(1) unfolding b heap_ok_def separate_append below_def by auto
    then show thesis by (rule that [OF run _ al]) simp
  qed
qed

section \<open>The heap and its clients\<close>

text \<open>
  The system: the heap and the blocks its clients hold, with the sizes they asked for. Its steps are
  \<open>kmalloc\<close>, \<open>kfree\<close> of a block that is held, a store into such a block, and the rest of the kernel
  taking pages of physical memory.
\<close>

record ksys =
  ks_heap :: kheap
  ks_live :: "(nat \<times> nat) list"

definition ks_start :: "ksys \<Rightarrow> bool" where
  "ks_start y \<longleftrightarrow> ram_ok (kh_vm (ks_heap y)) \<and> length (pagerefs (ks_heap y)) = NPAGEREFS \<and>
     pagerefs_inuse (ks_heap y) = replicate INUSE_WORDS 0 \<and> sizebases (ks_heap y) = replicate NSIZES None \<and>
     allbase (ks_heap y) = None \<and> ks_live y = []"

inductive ks_step :: "ksys \<Rightarrow> ksys \<Rightarrow> bool" where
  ks_malloc: "sz \<le> 2 ^ 30 \<Longrightarrow> kmalloc sz (ks_heap y) = Some (a, h) \<Longrightarrow>
    ks_step y (y\<lparr>ks_heap := h, ks_live := (if a = 0 then ks_live y else (a, sz) # ks_live y)\<rparr>)"
| ks_free: "(a, n) \<in> set (ks_live y) \<Longrightarrow> kfree a (ks_heap y) = Some h \<Longrightarrow>
    ks_step y (y\<lparr>ks_heap := h, ks_live := filter (\<lambda>b. b \<noteq> (a, n)) (ks_live y)\<rparr>)"
| ks_store: "(a, n) \<in> set (ks_live y) \<Longrightarrow> i < n \<Longrightarrow>
    ks_step y (y\<lparr>ks_heap := set_hmem ((hmem (ks_heap y))(a + i := v)) (ks_heap y)\<rparr>)"
| ks_pages: "n < 2 ^ 19 \<Longrightarrow> alloc_kpages (int n) (kh_vm (ks_heap y)) = (pg, s) \<Longrightarrow>
    ks_step y (y\<lparr>ks_heap := (ks_heap y)\<lparr>kh_vm := s\<rparr>\<rparr>)"

definition holds :: "(nat \<times> nat) list \<Rightarrow> (nat \<times> nat) set \<Rightarrow> bool" where
  "holds live B \<longleftrightarrow> distinct (map fst live) \<and> (\<forall>(a, n) \<in> set live. \<exists>c \<ge> n. (a, c) \<in> B)"

definition ks_ok :: "ksys \<Rightarrow> bool" where
  "ks_ok y \<longleftrightarrow> (\<exists>L S F bigs. heap_ok (ks_heap y) L S F bigs \<and> holds (ks_live y) (allocated (ks_heap y) L F bigs))"

lemma ks_okE:
  assumes "ks_ok y"
  obtains L S F bigs where "heap_ok (ks_heap y) L S F bigs" and "holds (ks_live y) (allocated (ks_heap y) L F bigs)"
  using assms unfolding ks_ok_def by blast

lemma ks_okI: "heap_ok h L S F bigs \<Longrightarrow> holds l (allocated h L F bigs) \<Longrightarrow> ks_ok (y\<lparr>ks_heap := h, ks_live := l\<rparr>)"
  unfolding ks_ok_def by auto

lemma holdsE:
  assumes "holds l B" and "(a, n) \<in> set l"
  obtains c where "n \<le> c" and "(a, c) \<in> B"
  using assms unfolding holds_def by blast

lemma same_block:
  assumes "heap_ok h L S F bigs" and "(a, c) \<in> allocated h L F bigs" and "(a, d) \<in> allocated h L F bigs"
  shows "c = d"
  using allocated_apart [OF assms] allocated_pos [OF assms(1,2)] allocated_pos [OF assms(1,3)] by (auto simp: brange_def)

lemma holds_free:
  assumes "holds l B" and "(a, n) \<in> set l"
  shows "holds (filter (\<lambda>b. b \<noteq> (a, n)) l) (B - {(a, c)})"
proof -
  have d: "distinct (map fst l)" using assms(1) by (simp add: holds_def)
  have "\<exists>c' \<ge> m. (b, c') \<in> B - {(a, c)}" if bm: "(b, m) \<in> set l" "(b, m) \<noteq> (a, n)" for b m
  proof -
    have "b \<noteq> a" using eq_key_imp_eq_value [OF d bm(1), of n] assms(2) bm(2) by auto
    then show ?thesis using holdsE [OF assms(1) bm(1)] by blast
  qed
  then show ?thesis using d by (auto simp: holds_def distinct_map_filter)
qed

lemma holds_new:
  assumes "heap_ok h L S F bigs" and "holds l B" and "allocated h L F bigs = insert (a, c) B" and "(a, c) \<notin> B" and "n \<le> c"
  shows "holds ((a, n) # l) (allocated h L F bigs)"
proof -
  have "a \<notin> fst ` set l"
  proof
    assume "a \<in> fst ` set l"
    then obtain m where "(a, m) \<in> set l" by auto
    then obtain d where "(a, d) \<in> B" using holdsE [OF assms(2)] by blast
    then show False using same_block [OF assms(1), of a c d] assms(3,4) by auto
  qed
  then show ?thesis using assms(2,3,5) by (fastforce simp: holds_def)
qed

lemma ks_step_ok:
  assumes "ks_ok y" and "ks_step y y'"
  shows "ks_ok y'"
proof -
  obtain L S F bigs where ok: "heap_ok (ks_heap y) L S F bigs" and hold: "holds (ks_live y) (allocated (ks_heap y) L F bigs)" by (rule ks_okE [OF assms(1)])
  from assms(2) show ?thesis
  proof cases
    case (ks_malloc sz a h)
    show ?thesis
    proof (cases rule: kmalloc_cases [OF ok ks_malloc(2)])
      case (1 h')
      then have "holds (ks_live y) (allocated h' L F bigs)" using hold by simp
      then have "ks_ok (y\<lparr>ks_heap := h', ks_live := ks_live y\<rparr>)" by (rule ks_okI [OF 1(2)])
      then show ?thesis using ks_malloc 1(1) by simp
    next
      case (2 a' c h' L' S' F' bigs')
      have "holds ((a', sz) # ks_live y) (allocated h' L' F' bigs')" by (rule holds_new [OF 2(4) hold 2(5,6,3)])
      then show ?thesis using ks_malloc 2(1,2) ks_okI [OF 2(4)] by simp
    qed
  next
    case (ks_free a n h)
    obtain c where c: "(a, c) \<in> allocated (ks_heap y) L F bigs" using holdsE [OF hold ks_free(2)] by blast
    obtain h' L' S' F' bigs' where f: "kfree a (ks_heap y) = Some h'" "heap_ok h' L' S' F' bigs'"
        "allocated h' L' F' bigs' = allocated (ks_heap y) L F bigs - {(a, c)}" "\<forall>x. x \<notin> brange (a, c) \<longrightarrow> hmem h' x = hmem (ks_heap y) x"
      by (rule kfree_cases [OF ok c])
    then show ?thesis using ks_free ks_okI [OF f(2)] holds_free [OF hold ks_free(2), of c] by simp
  next
    case (ks_store a n i v)
    obtain c where c: "n \<le> c" "(a, c) \<in> allocated (ks_heap y) L F bigs" using holdsE [OF hold ks_store(2)] by blast
    let ?m = "(hmem (ks_heap y))(a + i := v)"
    have "heap_ok (set_hmem ?m (ks_heap y)) L S F bigs"
      by (rule heap_ok_store [OF ok c(2)]) (use ks_store(3) c(1) in \<open>auto simp: brange_def\<close>)
    then show ?thesis using ks_store(1) hold by (auto simp: ks_ok_def set_hmem_def)
  next
    case (ks_pages n pg s)
    have ram: "ram_ok (kh_vm (ks_heap y))" using ok by (simp add: heap_ok_def)
    have "heap_ok ((ks_heap y)\<lparr>kh_vm := s\<rparr>) L S F bigs"
    proof (cases rule: alloc_kpages_cases [OF ram ks_pages(2)])
      case 1
      then show ?thesis using ks_pages(3) ok by simp
    next
      case (2 pg' f)
      then have s: "s = (kh_vm (ks_heap y))\<lparr>firstpaddr := f\<rparr>" using ks_pages(3) by simp
      show ?thesis unfolding s by (rule heap_ok_vm [OF ok]) (use 2(4,5) ok in \<open>simp_all add: heap_ok_def hmem_def word_le_nat_alt\<close>)
    qed
    then show ?thesis using ks_pages(1) hold by (auto simp: ks_ok_def)
  qed
qed

lemma ks_start_ok: "ks_start y \<Longrightarrow> ks_ok y"
proof -
  assume s: "ks_start y"
  have "x div 32 < INUSE_WORDS" if "x < NPAGEREFS" for x using that by (simp add: INUSE_WORDS_def NPAGEREFS_def)
  then have "inuse (ks_heap y) = {}" using s by (auto simp: ks_start_def inuse_def)
  then have "heap_ok (ks_heap y) [] (\<lambda>_. []) (\<lambda>_. []) []" using s by (simp add: ks_start_def heap_ok_def lists_ok_def below_def)
  moreover have "holds (ks_live y) (allocated (ks_heap y) [] (\<lambda>_. []) [])" using s by (simp add: ks_start_def holds_def)
  ultimately show ?thesis unfolding ks_ok_def by blast
qed

interpretation kheapsys: invariant_of ks_start ks_step ks_ok
  by unfold_locales (erule ks_start_ok, erule (1) ks_step_ok)

text \<open>
  C24. In every state the heap can reach, two blocks that are held by clients do not share a byte. The clients ask
  \<open>kmalloc\<close> for at most \<open>2 ^ 30\<close> bytes, and the rest of the kernel asks \<open>alloc_kpages\<close> for less than \<open>2 ^ 19\<close> pages at a
  time; the code does not check the size, and larger requests may wrap around in \<open>kmalloc\<close> or \<open>ram_stealmem\<close>.
\<close>

theorem kheap_blocks_disjoint:
  assumes "reachable ks_start ks_step y" and "i < length (ks_live y)" and "j < length (ks_live y)" and "i \<noteq> j"
  shows "brange (ks_live y ! i) \<inter> brange (ks_live y ! j) = {}"
proof -
  obtain L S F bigs where ok: "heap_ok (ks_heap y) L S F bigs" and hold: "holds (ks_live y) (allocated (ks_heap y) L F bigs)"
    by (rule ks_okE [OF kheapsys.reachable_inv [OF assms(1)]])
  obtain a n b m where e: "ks_live y ! i = (a, n)" "ks_live y ! j = (b, m)" by fastforce
  have set: "(a, n) \<in> set (ks_live y)" "(b, m) \<in> set (ks_live y)" using assms(2,3) e nth_mem by metis+
  have "map fst (ks_live y) ! i \<noteq> map fst (ks_live y) ! j"
    using hold assms(2-4) by (subst nth_eq_iff_index_eq) (simp_all add: holds_def)
  then have "a \<noteq> b" using e assms(2,3) by simp
  obtain c where c: "n \<le> c" "(a, c) \<in> allocated (ks_heap y) L F bigs" by (rule holdsE [OF hold set(1)])
  obtain d where d: "m \<le> d" "(b, d) \<in> allocated (ks_heap y) L F bigs" by (rule holdsE [OF hold set(2)])
  have "brange (a, c) \<inter> brange (b, d) = {}" by (rule allocated_apart [OF ok c(2) d(2)]) (use \<open>a \<noteq> b\<close> in simp)
  then show ?thesis using c(1) d(1) unfolding e by (fastforce simp: brange_def)
qed

text \<open>
  C26. In every state the heap can reach with the requests \<open>ks_step\<close> admits, \<open>kmalloc\<close> of up to a gigabyte fails no assertion, and a block it gives
  is no null pointer and shares no byte with a block that is held.
\<close>

theorem kmalloc_fresh:
  assumes "reachable ks_start ks_step y" and "sz \<le> 2 ^ 30"
  shows "\<exists>a h. kmalloc sz (ks_heap y) = Some (a, h) \<and>
    (a = 0 \<or> (\<forall>b \<in> set (ks_live y). brange (a, sz) \<inter> brange b = {})) \<and>
    (\<forall>b \<in> set (ks_live y). \<forall>x \<in> brange b. hmem h x = hmem (ks_heap y) x)"
proof -
  obtain L S F bigs where ok: "heap_ok (ks_heap y) L S F bigs" and hold: "holds (ks_live y) (allocated (ks_heap y) L F bigs)"
    by (rule ks_okE [OF kheapsys.reachable_inv [OF assms(1)]])
  show ?thesis
  proof (cases rule: kmalloc_cases [OF ok assms(2)])
    case (1 h')
    then show ?thesis by simp
  next
    case (2 a c h' L' S' F' bigs')
    have live: "\<exists>d. brange b \<subseteq> brange (fst b, d) \<and> (fst b, d) \<in> allocated (ks_heap y) L F bigs" if b: "b \<in> set (ks_live y)" for b
    proof -
      obtain d where "snd b \<le> d" "(fst b, d) \<in> allocated (ks_heap y) L F bigs" by (rule holdsE [OF hold, of "fst b" "snd b"]) (use b in simp)
      then show ?thesis by (auto simp: brange_def)
    qed
    have "brange (a, sz) \<inter> brange b = {}" if b: "b \<in> set (ks_live y)" for b
    proof -
      obtain d where d: "brange b \<subseteq> brange (fst b, d)" "(fst b, d) \<in> allocated (ks_heap y) L F bigs" using live [OF b] by blast
      then have "brange (a, c) \<inter> brange (fst b, d) = {}" using allocated_apart [OF 2(4), of "(a, c)"] 2(5,6) by auto
      moreover have "brange (a, sz) \<subseteq> brange (a, c)" using 2(3) by (auto simp: brange_def)
      ultimately show ?thesis using d(1) by blast
    qed
    moreover have "hmem h' x = hmem (ks_heap y) x" if "b \<in> set (ks_live y)" "x \<in> brange b" for b x
      using live [OF that(1)] that(2) 2(7) unfolding kept_def by blast
    ultimately show ?thesis using 2(1) by blast
  qed
qed

text \<open>
  C30. In every state the heap can reach with the requests \<open>ks_step\<close> admits, \<open>kfree\<close> of a block that is held does not panic, and the contents of
  every other block that is held stay as they are.
\<close>

theorem kfree_live:
  assumes "reachable ks_start ks_step y" and "(a, n) \<in> set (ks_live y)"
  shows "\<exists>h. kfree a (ks_heap y) = Some h \<and>
    (\<forall>b \<in> set (ks_live y). b = (a, n) \<or> (\<forall>x \<in> brange b. hmem h x = hmem (ks_heap y) x))"
proof -
  obtain L S F bigs where ok: "heap_ok (ks_heap y) L S F bigs" and hold: "holds (ks_live y) (allocated (ks_heap y) L F bigs)"
    by (rule ks_okE [OF kheapsys.reachable_inv [OF assms(1)]])
  obtain c where c: "n \<le> c" "(a, c) \<in> allocated (ks_heap y) L F bigs" by (rule holdsE [OF hold assms(2)])
  obtain h' L' S' F' bigs' where f: "kfree a (ks_heap y) = Some h'" "heap_ok h' L' S' F' bigs'"
      "allocated h' L' F' bigs' = allocated (ks_heap y) L F bigs - {(a, c)}" "\<forall>x. x \<notin> brange (a, c) \<longrightarrow> hmem h' x = hmem (ks_heap y) x"
    by (rule kfree_cases [OF ok c(2)])
  have "hmem h' x = hmem (ks_heap y) x" if b: "(e, m) \<in> set (ks_live y)" "(e, m) \<noteq> (a, n)" "x \<in> brange (e, m)" for e m x
  proof -
    have "e \<noteq> a" using eq_key_imp_eq_value [of "ks_live y" e m n] hold assms(2) b(1,2) by (auto simp: holds_def)
    obtain d where d: "m \<le> d" "(e, d) \<in> allocated (ks_heap y) L F bigs" by (rule holdsE [OF hold b(1)])
    have "brange (a, c) \<inter> brange (e, d) = {}" by (rule allocated_apart [OF ok c(2) d(2)]) (use \<open>e \<noteq> a\<close> in simp)
    then have "x \<notin> brange (a, c)" using b(3) d(1) by (fastforce simp: brange_def)
    then show ?thesis using f(4) by blast
  qed
  then show ?thesis using f(1) by fastforce
qed


section \<open>A heap with two blocks\<close>

definition boot_heap :: kheap where
  "boot_heap = \<lparr>kh_vm = boot_vm, pagerefs = replicate NPAGEREFS \<lparr>next_samesize = None, next_all = None, pageaddr_and_blocktype = 0, freelist_offset = 0, nfree = 0\<rparr>,
     pagerefs_inuse = replicate INUSE_WORDS 0, sizebases = replicate NSIZES None, allbase = None\<rparr>"

definition one_heap :: kheap where
  "one_heap = boot_heap\<lparr>kh_vm := boot_vm\<lparr>firstpaddr := 0x21000, vm_mem := st32 (st32 (\<lambda>_. 0) 0x80020000 0) 0x80020800 0x80020000\<rparr>,
     pagerefs := (pagerefs boot_heap)[0 := \<lparr>next_samesize = None, next_all = None, pageaddr_and_blocktype = 0x80020007, freelist_offset = 0, nfree = 1\<rparr>],
     pagerefs_inuse := (pagerefs_inuse boot_heap)[0 := 1], sizebases := (sizebases boot_heap)[7 := Some 0], allbase := Some 0\<rparr>"

definition two_heap :: kheap where
  "two_heap = one_heap\<lparr>pagerefs := (pagerefs boot_heap)[0 := \<lparr>next_samesize = None, next_all = None, pageaddr_and_blocktype = 0x80020007, freelist_offset = INVALID_OFFSET, nfree = 0\<rparr>]\<rparr>"

lemmas heap_consts = NPAGEREFS_def INUSE_WORDS_def NSIZES_def INVALID_OFFSET_def LARGEST_SUBPAGE_SIZE_def

lemma peek_replicate: "i < n \<Longrightarrow> peek (replicate n x) (int i) = Some x"
  by (simp add: peek_def)

lemma boot_mem: "ld32 (st32 (st32 m 0x80020000 0) 0x80020800 0x80020000) 0x80020800 = 0x80020000"
  "ld32 (st32 (st32 m 0x80020000 0) 0x80020800 0x80020000) 0x80020000 = 0"
  by (simp_all add: ld32_st32 ld32_st32_other)

lemma first_ref: "allocpageref (boot_heap\<lparr>kh_vm := v\<rparr>) = Some (Some 0, boot_heap\<lparr>kh_vm := v, pagerefs_inuse := (pagerefs_inuse boot_heap)[0 := 1]\<rparr>)"
proof -
  have b: "allocpageref_bit 0 n 0 = Some 0" if "0 < n" for n using that by (cases n) simp_all
  have "allocpageref_from 0 n (boot_heap\<lparr>kh_vm := v\<rparr>) = Some (Some 0, boot_heap\<lparr>kh_vm := v, pagerefs_inuse := (pagerefs_inuse boot_heap)[0 := 1]\<rparr>)" if "0 < n" for n
    using that b by (cases n) (simp_all add: boot_heap_def heap_consts peek_def)
  then show ?thesis by (simp add: allocpageref_def heap_consts)
qed

lemma first_page: "alloc_kpages 1 (boot_vm\<lparr>vm_curspl := s\<rparr>) = (0x80020000, boot_vm\<lparr>firstpaddr := 0x21000, vm_curspl := s\<rparr>)"
  by (simp add: alloc_kpages_def getppages_def ram_stealmem_def vm_splhigh_def vm_splx_def boot_vm_def PADDR_TO_KVADDR_def MIPS_KSEG0_def PAGE_SIZE_def)

lemma empty_find: "kmalloc_find t h (n + 1) None = Some None" "kfree_find a h (n + 1) None = Some None"
  by simp_all

lemma type_1100: "blocktype 1100 = Some 7"
  by (simp add: blocktype_def sizes_def)

lemma boot_sel:
  "sizebases boot_heap = replicate 8 None" "allbase boot_heap = None" "length (pagerefs boot_heap) = 256" "kh_vm boot_heap = boot_vm" "vm_mem boot_vm = (\<lambda>_. 0)"
  by (simp_all add: boot_heap_def heap_consts boot_vm_def)

lemma ref_word: "MKPAB 0x80020000 7 = 0x80020007" "PAGE_FRAME AND 0x80020007 = 0x80020000" "0x80020007 AND PAGE_FRAME = 0x80020000" "0x80020007 AND NOT PAGE_FRAME = 7"
  by (simp_all add: MKPAB_def PAGE_FRAME_def)

lemma kmalloc_first: "kmalloc 1100 boot_heap = Some (0x80020800, one_heap)"
proof -
  have e: "kmalloc 1100 boot_heap = subpage_kmalloc 1100 boot_heap" by (simp add: kmalloc_def heap_consts)
  have n: "kmalloc_newpage 7 (boot_heap\<lparr>kh_vm := boot_vm\<lparr>vm_curspl := s\<rparr>\<rparr>) = Some (0x80020800, one_heap\<lparr>kh_vm := (kh_vm one_heap)\<lparr>vm_curspl := s\<rparr>\<rparr>)" for s
    by (simp add: kmalloc_newpage_def first_ref first_page init_page_def sizes_def Let_def boot_sel put_pr_def poke_def peek_def ref_word
        doalloc_def get_pr_def hmem_def set_hmem_def PR_PAGEADDR_def boot_mem sub32_def one_heap_def)
  show ?thesis
    unfolding e subpage_kmalloc_def type_1100 hspl_simps by (simp add: boot_sel peek_def empty_find [simplified] n) (simp add: one_heap_def boot_vm_def)
qed

lemma kmalloc_second: "kmalloc 1100 one_heap = Some (0x80020000, two_heap)"
proof -
  have e: "kmalloc 1100 one_heap = subpage_kmalloc 1100 one_heap" by (simp add: kmalloc_def heap_consts)
  show ?thesis
    unfolding e subpage_kmalloc_def type_1100 hspl_simps
    by (simp add: one_heap_def two_heap_def boot_sel peek_def poke_def doalloc_def get_pr_def put_pr_def PR_BLOCKTYPE_def PR_PAGEADDR_def ref_word hmem_def boot_mem Let_def)
qed

definition two_live :: ksys where
  "two_live = \<lparr>ks_heap = two_heap, ks_live = [(0x80020000, 1100), (0x80020800, 1100)]\<rparr>"

lemma two_live_reachable: "reachable ks_start ks_step two_live"
proof -
  let ?y0 = "\<lparr>ks_heap = boot_heap, ks_live = []\<rparr>" and ?y1 = "\<lparr>ks_heap = one_heap, ks_live = [(0x80020800, 1100)]\<rparr>"
  have "reachable ks_start ks_step ?y0" using boot_ram_ok(1) by (intro reach_start) (simp add: ks_start_def boot_heap_def)
  moreover have "ks_step ?y0 ?y1" using ks_malloc [of 1100 ?y0] kmalloc_first by simp
  moreover have "ks_step ?y1 two_live" using ks_malloc [of 1100 ?y1] kmalloc_second by (simp add: two_live_def)
  ultimately show ?thesis by (meson reach_next)
qed

theorem kheap_blocks_disjoint_witness:
  "brange (0x80020000, 1100) \<inter> brange (0x80020800, 1100) = {} \<and> length (ks_live two_live) = 2"
  using kheap_blocks_disjoint [OF two_live_reachable, of 0 1] by (simp add: two_live_def)

theorem kmalloc_fresh_witness:
  "\<exists>a h. kmalloc 5000 two_heap = Some (a, h) \<and> (a = 0 \<or> brange (a, 5000) \<inter> brange (0x80020000, 1100) = {} \<and> brange (a, 5000) \<inter> brange (0x80020800, 1100) = {})"
  using kmalloc_fresh [OF two_live_reachable, of 5000] by (fastforce simp: two_live_def)

theorem kfree_live_witness:
  "\<exists>h. kfree 0x80020000 two_heap = Some h \<and> hmem h 0x80020801 = hmem two_heap 0x80020801"
proof -
  have "(0x80020000, 1100) \<in> set (ks_live two_live)" by (simp add: two_live_def)
  from kfree_live [OF two_live_reachable this] show ?thesis by (fastforce simp: two_live_def brange_def)
qed

end
