(* ===== verification/Pthread.thy ===== *)
theory Pthread
  imports KPrelude
begin

text \<open>
  POSIX threads as the programs of \<open>hw2\<close> use them: threads that are created and joined by the main program,
  one mutex, and condition variables. A program step is a step of one thread or of the main program; the
  state between two steps can be seen by the others.
\<close>

section \<open>Threads, one mutex and condition variables\<close>

text \<open>
  Where a thread is. \<open>Idle\<close>: before it takes the mutex, or waiting for it in \<open>pthread_mutex_lock\<close>.
  \<open>Waiting\<close>: asleep in \<open>pthread_cond_wait\<close>; \<open>Woken\<close>: still inside it, taking the mutex again.
  \<open>Testing\<close>, \<open>Working\<close>, \<open>Signalling\<close>, \<open>Unlocking\<close>, \<open>Quitting\<close> and \<open>Exiting\<close> are points inside
  the critical section, the last two on the way to the end of the thread.
\<close>

datatype pc = Unborn | Idle | Testing | Waiting | Woken | Working | Signalling | Unlocking | Quitting | Exiting | Done

record pthreads =
  mutex :: "nat option"
  pcs :: "pc list"
  main_pc :: nat

definition set_pc :: "nat \<Rightarrow> pc \<Rightarrow> 'a pthreads_scheme \<Rightarrow> 'a pthreads_scheme" where
  "set_pc t p y = y\<lparr>pcs := (pcs y)[t := p]\<rparr>"

definition mutex_lock :: "nat \<Rightarrow> pc \<Rightarrow> 'a pthreads_scheme \<Rightarrow> 'a pthreads_scheme option" where
  "mutex_lock t p y = (if mutex y = None then Some (set_pc t p (y\<lparr>mutex := Some t\<rparr>)) else None)"

definition mutex_unlock :: "nat \<Rightarrow> pc \<Rightarrow> 'a pthreads_scheme \<Rightarrow> 'a pthreads_scheme" where
  "mutex_unlock t p y = set_pc t p (y\<lparr>mutex := None\<rparr>)"

definition cond_wait :: "nat \<Rightarrow> 'a pthreads_scheme \<Rightarrow> 'a pthreads_scheme" where
  "cond_wait t y = set_pc t Waiting (y\<lparr>mutex := None\<rparr>)"

text \<open>
  The threads that use a condition variable have consecutive numbers, from \<open>lo\<close> below \<open>hi\<close>.
  A signal wakes some waiter \<open>w\<close> when there is one.
\<close>

definition waiters :: "nat \<Rightarrow> nat \<Rightarrow> 'a pthreads_scheme \<Rightarrow> nat list" where
  "waiters lo hi y = filter (\<lambda>i. pcs y ! i = Waiting) [lo..<hi]"

definition cond_signal :: "nat \<Rightarrow> nat \<Rightarrow> nat \<Rightarrow> 'a pthreads_scheme \<Rightarrow> 'a pthreads_scheme option" where
  "cond_signal lo hi w y =
     (if waiters lo hi y = [] then Some y
      else if w \<in> set (waiters lo hi y) then Some (set_pc w Woken y)
      else None)"

definition wake_pc :: "pc \<Rightarrow> pc" where
  "wake_pc p = (if p = Waiting then Woken else p)"

definition cond_broadcast :: "nat \<Rightarrow> nat \<Rightarrow> 'a pthreads_scheme \<Rightarrow> 'a pthreads_scheme" where
  "cond_broadcast lo hi y =
     y\<lparr>pcs := take lo (pcs y) @ map wake_pc (take (hi - lo) (drop lo (pcs y))) @ drop (max lo hi) (pcs y)\<rparr>"

text \<open>The main program creates the \<open>n\<close> threads in order and then joins them in order.\<close>

definition main_step :: "nat \<Rightarrow> 'a pthreads_scheme \<Rightarrow> 'a pthreads_scheme option" where
  "main_step n y =
     (if main_pc y < n then Some (set_pc (main_pc y) Idle (y\<lparr>main_pc := main_pc y + 1\<rparr>))
      else if main_pc y < 2 * n \<and> pcs y ! (main_pc y - n) = Done then Some (y\<lparr>main_pc := main_pc y + 1\<rparr>)
      else None)"

text \<open>A wait may also end without a signal.\<close>

definition spurious :: "nat \<Rightarrow> 'a pthreads_scheme \<Rightarrow> 'a pthreads_scheme option" where
  "spurious t y = (if t < length (pcs y) \<and> pcs y ! t = Waiting then Some (set_pc t Woken y) else None)"

section \<open>Invariant\<close>

definition holding :: "pc \<Rightarrow> bool" where
  "holding p \<longleftrightarrow> p \<in> {Testing, Working, Signalling, Unlocking, Quitting, Exiting}"

lemma holding_simps [simp]:
  "holding Testing" "holding Working" "holding Signalling" "holding Unlocking" "holding Quitting" "holding Exiting"
  "\<not> holding Unborn" "\<not> holding Idle" "\<not> holding Waiting" "\<not> holding Woken" "\<not> holding Done"
  by (simp_all add: holding_def)

text \<open>The mutex is held by the thread that is in its critical section, and the main program is where it says.\<close>

definition threads_ok :: "nat \<Rightarrow> 'a pthreads_scheme \<Rightarrow> bool" where
  "threads_ok n y \<longleftrightarrow> length (pcs y) = n \<and> (\<forall>t < n. holding (pcs y ! t) \<longleftrightarrow> mutex y = Some t) \<and>
     (\<forall>t. mutex y = Some t \<longrightarrow> t < n) \<and> main_pc y \<le> 2 * n \<and> (\<forall>t < n. pcs y ! t = Unborn \<longleftrightarrow> main_pc y \<le> t) \<and>
     (\<forall>t < n. t + n < main_pc y \<longrightarrow> pcs y ! t = Done)"

lemma set_pc_simps [simp]:
  "mutex (set_pc t p y) = mutex y" "main_pc (set_pc t p y) = main_pc y" "pcs (set_pc t p y) = (pcs y)[t := p]"
  "more (set_pc t p y) = more y"
  by (simp_all add: set_pc_def)

lemma length_broadcast: "length (pcs y) = n \<Longrightarrow> lo \<le> hi \<Longrightarrow> hi \<le> n \<Longrightarrow> length (pcs (cond_broadcast lo hi y)) = n"
  by (simp add: cond_broadcast_def)

lemma broadcast_nth:
  assumes "length (pcs y) = n" and "lo \<le> hi" and "hi \<le> n" and "i < n"
  shows "pcs (cond_broadcast lo hi y) ! i = (if lo \<le> i \<and> i < hi then wake_pc (pcs y ! i) else pcs y ! i)"
  using assms by (auto simp: cond_broadcast_def nth_append min_def max_def)

lemma broadcast_simps [simp]: "mutex (cond_broadcast lo hi y) = mutex y" "main_pc (cond_broadcast lo hi y) = main_pc y" "more (cond_broadcast lo hi y) = more y"
  by (simp_all add: cond_broadcast_def)

lemma wake_pc_simps [simp]:
  "holding (wake_pc p) = holding p" "wake_pc p = Unborn \<longleftrightarrow> p = Unborn" "wake_pc p = Done \<longleftrightarrow> p = Done" "wake_pc p \<noteq> Waiting"
  by (auto simp: wake_pc_def)

lemma threads_ok_set:
  assumes "threads_ok n y" and "t < n" and "pcs y ! t \<noteq> Unborn" and "pcs y ! t \<noteq> Done" and "p \<noteq> Unborn"
    and "\<And>s. s < n \<Longrightarrow> m = Some s \<longleftrightarrow> (if s = t then holding p else mutex y = Some s)" and "\<And>s. m = Some s \<Longrightarrow> s < n"
  shows "threads_ok n (set_pc t p (y\<lparr>mutex := m\<rparr>))"
proof -
  have len: "length (pcs y) = n" using assms(1) by (simp add: threads_ok_def)
  have nth: "(pcs y)[t := p] ! s = (if s = t then p else pcs y ! s)" for s using assms(2) len by simp
  have t: "\<not> main_pc y \<le> t" "\<not> t + n < main_pc y" using assms(1-4) by (auto simp: threads_ok_def)
  have "holding ((pcs y)[t := p] ! s) \<longleftrightarrow> m = Some s" if "s < n" for s using assms(1,6) that by (simp add: nth threads_ok_def)
  moreover have "(pcs y)[t := p] ! s = Unborn \<longleftrightarrow> main_pc y \<le> s" if "s < n" for s using assms(1,5) t(1) that by (simp add: nth threads_ok_def)
  moreover have "(pcs y)[t := p] ! s = Done" if "s < n" "s + n < main_pc y" for s using assms(1) t(2) that by (auto simp: nth threads_ok_def)
  ultimately show ?thesis using assms(1,7) len by (simp add: threads_ok_def)
qed

lemma holder:
  assumes "threads_ok n y" and "t < n" and "holding (pcs y ! t)"
  shows "mutex y = Some t" "pcs y ! t \<noteq> Unborn" "pcs y ! t \<noteq> Done"
proof -
  show "mutex y = Some t" using assms by (simp add: threads_ok_def)
  show "pcs y ! t \<noteq> Unborn" "pcs y ! t \<noteq> Done" using assms(3) by (cases "pcs y ! t"; simp)+
qed

lemma not_holder: "threads_ok n y \<Longrightarrow> t < n \<Longrightarrow> \<not> holding (pcs y ! t) \<Longrightarrow> mutex y \<noteq> Some t"
  by (simp add: threads_ok_def)

lemma threads_ok_lock:
  assumes "threads_ok n y" and "t < n" and "pcs y ! t \<in> {Idle, Woken}" and "mutex_lock t p y = Some y'" and "holding p"
  shows "threads_ok n y'"
proof -
  have m: "mutex y = None" "y' = set_pc t p (y\<lparr>mutex := Some t\<rparr>)" using assms(4) by (simp_all add: mutex_lock_def split: if_splits)
  show ?thesis unfolding m(2) by (rule threads_ok_set [OF assms(1,2)]) (use assms m(1) in auto)
qed

lemma threads_ok_inside:
  assumes "threads_ok n y" and "t < n" and "holding (pcs y ! t)" and "holding p"
  shows "threads_ok n (set_pc t p y)"
proof -
  have "threads_ok n (set_pc t p (y\<lparr>mutex := mutex y\<rparr>))"
    by (rule threads_ok_set [OF assms(1,2) holder(2,3) [OF assms(1-3)]]) (use holder(1) [OF assms(1-3)] assms(2,4) in auto)
  then show ?thesis by simp
qed

lemma threads_ok_release:
  assumes "threads_ok n y" and "t < n" and "holding (pcs y ! t)" and "p \<in> {Idle, Done, Waiting}"
  shows "threads_ok n (set_pc t p (y\<lparr>mutex := None\<rparr>))"
  by (rule threads_ok_set [OF assms(1,2) holder(2,3) [OF assms(1-3)]]) (use holder(1) [OF assms(1-3)] assms(4) in auto)

lemma threads_ok_unlock:
  "threads_ok n y \<Longrightarrow> t < n \<Longrightarrow> holding (pcs y ! t) \<Longrightarrow> p \<in> {Idle, Done} \<Longrightarrow> threads_ok n (mutex_unlock t p y)"
  unfolding mutex_unlock_def by (rule threads_ok_release) auto

lemma threads_ok_wait:
  "threads_ok n y \<Longrightarrow> t < n \<Longrightarrow> holding (pcs y ! t) \<Longrightarrow> threads_ok n (cond_wait t y)"
  unfolding cond_wait_def by (rule threads_ok_release) auto

lemma threads_ok_wake:
  assumes "threads_ok n y" and "pcs y ! t = Waiting" and "t < n"
  shows "threads_ok n (set_pc t Woken y)"
proof -
  have "mutex y \<noteq> Some t" by (rule not_holder [OF assms(1,3)]) (simp add: assms(2))
  then show ?thesis using threads_ok_set [OF assms(1,3), of Woken "mutex y"] assms by (simp add: threads_ok_def)
qed

lemma threads_ok_signal:
  "threads_ok n y \<Longrightarrow> cond_signal lo hi w y = Some y' \<Longrightarrow> hi \<le> n \<Longrightarrow> threads_ok n y'"
  by (auto simp: cond_signal_def waiters_def intro!: threads_ok_wake split: if_splits)

lemma threads_ok_broadcast:
  "threads_ok n y \<Longrightarrow> lo \<le> hi \<Longrightarrow> hi \<le> n \<Longrightarrow> threads_ok n (cond_broadcast lo hi y)"
  by (auto simp: threads_ok_def length_broadcast broadcast_nth)

lemma threads_ok_main:
  assumes "threads_ok n y" and "main_step n y = Some y'"
  shows "threads_ok n y'"
proof (cases "main_pc y < n")
  case True
  let ?m = "main_pc y"
  have y': "y' = set_pc ?m Idle (y\<lparr>main_pc := ?m + 1\<rparr>)" using assms(2) True by (simp add: main_step_def)
  have len: "length (pcs y) = n" "pcs y ! ?m = Unborn" using assms(1) True by (simp_all add: threads_ok_def)
  have nth: "(pcs y)[?m := Idle] ! s = (if s = ?m then Idle else pcs y ! s)" for s using True len by simp
  have "mutex y \<noteq> Some ?m" by (rule not_holder [OF assms(1) True]) (simp add: len(2))
  then have "holding ((pcs y)[?m := Idle] ! s) \<longleftrightarrow> mutex y = Some s" if "s < n" for s using assms(1) that by (simp add: nth threads_ok_def)
  moreover have "(pcs y)[?m := Idle] ! s = Unborn \<longleftrightarrow> ?m + 1 \<le> s" if "s < n" for s using assms(1) that by (auto simp: nth threads_ok_def)
  ultimately show ?thesis using assms(1) True len by (simp add: threads_ok_def y')
next
  case False
  then have m: "main_pc y < 2 * n" "pcs y ! (main_pc y - n) = Done" "y' = y\<lparr>main_pc := main_pc y + 1\<rparr>"
    using assms(2) by (simp_all add: main_step_def split: if_splits)
  have "pcs y ! t = Done" if "t < n" "t + n < main_pc y + 1" for t
  proof (cases "t + n = main_pc y")
    case True
    then have "t = main_pc y - n" by simp
    then show ?thesis using m(2) by simp
  qed (use assms(1) that in \<open>simp add: threads_ok_def\<close>)
  then show ?thesis using assms(1) False m(1,3) by (auto simp: threads_ok_def)
qed

section \<open>No lost wakeups\<close>

text \<open>
  Threads \<open>A\<close> wait for a condition, threads \<open>B\<close> signal it. When the condition \<open>c\<close> holds and one of \<open>A\<close>
  sleeps, another one of \<open>A\<close> is awake, or one of \<open>B\<close> is about to signal.
\<close>

definition awake :: "pc \<Rightarrow> bool" where
  "awake p \<longleftrightarrow> p \<notin> {Waiting, Exiting, Done}"

definition sleep_ok :: "nat set \<Rightarrow> nat set \<Rightarrow> bool \<Rightarrow> pc list \<Rightarrow> bool" where
  "sleep_ok A B c ps \<longleftrightarrow> (c \<and> (\<exists>a \<in> A. ps ! a = Waiting) \<longrightarrow> (\<exists>a \<in> A. awake (ps ! a)) \<or> (\<exists>b \<in> B. ps ! b = Signalling))"

lemma sleep_ok_awake: "t \<in> A \<Longrightarrow> t < length ps \<Longrightarrow> awake p \<Longrightarrow> sleep_ok A B c (ps[t := p])"
  unfolding sleep_ok_def by (intro impI disjI1 bexI [of _ t]) simp_all

lemma sleep_ok_signalling: "t \<in> B \<Longrightarrow> t < length ps \<Longrightarrow> sleep_ok A B c (ps[t := Signalling])"
  unfolding sleep_ok_def by (intro impI disjI2 bexI [of _ t]) simp_all

lemma sleep_ok_false: "\<not> c \<Longrightarrow> sleep_ok A B c ps"
  by (simp add: sleep_ok_def)

lemma sleep_ok_none: "(\<And>a. a \<in> A \<Longrightarrow> ps ! a \<noteq> Waiting) \<Longrightarrow> sleep_ok A B c ps"
  by (auto simp: sleep_ok_def)

lemma sleep_ok_other:
  assumes "sleep_ok A B c ps" and "c' \<longrightarrow> c" and "t \<notin> A" and "ps ! t \<noteq> Signalling"
  shows "sleep_ok A B c' (ps[t := p])"
proof -
  have "(ps[t := p]) ! a = ps ! a" if "a \<in> A" for a using assms(3) that by (metis nth_list_update_neq)
  moreover have "(ps[t := p]) ! b = Signalling" if "ps ! b = Signalling" for b using assms(4) that by (metis nth_list_update_neq)
  ultimately show ?thesis using assms(1,2) unfolding sleep_ok_def by metis
qed

lemma sleep_ok_leave:
  assumes "sleep_ok A B c ps" and "ps ! t = Exiting"
  shows "sleep_ok A B c (ps[t := Done])"
proof (cases "t < length ps")
  case True
  have "ps ! a = Waiting" if "(ps[t := Done]) ! a = Waiting" for a using that True by (cases "a = t") simp_all
  moreover have "awake ((ps[t := Done]) ! a)" if "awake (ps ! a)" for a using that assms(2) True by (cases "a = t") (simp_all add: awake_def)
  moreover have "(ps[t := Done]) ! a = Signalling" if "ps ! a = Signalling" for a using that assms(2) True by (cases "a = t") simp_all
  ultimately show ?thesis using assms(1) unfolding sleep_ok_def by blast
qed (use assms(1) in \<open>simp add: list_update_beyond\<close>)

section \<open>Work left\<close>

text \<open>
  A bound on the steps a thread can take before it next needs a signal, in a program of \<open>n\<close> threads. Leaving for
  good counts for more than waking everybody.
\<close>

definition big :: "nat \<Rightarrow> nat" where
  "big n = 5 * n + 12"

definition weight :: "nat \<Rightarrow> pc \<Rightarrow> nat" where
  "weight n p = (case p of Unborn \<Rightarrow> big n | Idle \<Rightarrow> big n + 5 | Woken \<Rightarrow> big n + 5 | Testing \<Rightarrow> big n + 4 | Waiting \<Rightarrow> big n
     | Working \<Rightarrow> big n + 1 | Quitting \<Rightarrow> big n + 1 | Signalling \<Rightarrow> big n + 5 * n + 7 | Unlocking \<Rightarrow> big n + 6 | Exiting \<Rightarrow> 1 | Done \<Rightarrow> 0)"

definition work :: "nat \<Rightarrow> 'a pthreads_scheme \<Rightarrow> nat" where
  "work n y = sum_list (map (weight n) (pcs y)) + big n * (2 * n - main_pc y)"

lemma sum_list_set:
  fixes f :: "'a \<Rightarrow> nat"
  shows "t < length xs \<Longrightarrow> sum_list (map f (xs[t := p])) + f (xs ! t) = sum_list (map f xs) + f p"
  by (induction xs arbitrary: t) (auto split: nat.split)

lemma work_set: "t < length (pcs y) \<Longrightarrow> work n (set_pc t p y) + weight n (pcs y ! t) = work n y + weight n p"
  using sum_list_set [of t "pcs y" "weight n" p] by (simp add: work_def)

lemma work_update: "work n (y\<lparr>mutex := m\<rparr>) = work n y"
  by (simp add: work_def)

lemma work_lock: "t < length (pcs y) \<Longrightarrow> mutex_lock t p y = Some y' \<Longrightarrow> work n y' + weight n (pcs y ! t) = work n y + weight n p"
  using work_set [of t "y\<lparr>mutex := Some t\<rparr>" n p] by (auto simp: mutex_lock_def work_update split: if_splits)

lemma work_unlock: "t < length (pcs y) \<Longrightarrow> work n (mutex_unlock t p y) + weight n (pcs y ! t) = work n y + weight n p"
  using work_set [of t "y\<lparr>mutex := None\<rparr>" n p] by (simp add: mutex_unlock_def work_update)

lemma work_wait: "t < length (pcs y) \<Longrightarrow> work n (cond_wait t y) + weight n (pcs y ! t) = work n y + weight n Waiting"
  using work_set [of t "y\<lparr>mutex := None\<rparr>" n Waiting] by (simp add: cond_wait_def work_update)

lemma work_signal:
  assumes "length (pcs y) = n" and "hi \<le> n" and "cond_signal lo hi w y = Some y'"
  shows "work n y' \<le> work n y + 5"
proof (cases "waiters lo hi y = []")
  case True
  then show ?thesis using assms(3) by (simp add: cond_signal_def)
next
  case False
  then have w: "w < length (pcs y)" "pcs y ! w = Waiting" "y' = set_pc w Woken y" using assms by (auto simp: cond_signal_def waiters_def split: if_splits)
  show ?thesis using work_set [OF w(1), of n Woken] w(2,3) by (simp add: weight_def)
qed

lemma weight_wake: "weight n (wake_pc p) \<le> weight n p + 5"
  by (simp add: wake_pc_def weight_def)

lemma sum_list_wake: "sum_list (map (weight n) (map wake_pc xs)) \<le> sum_list (map (weight n) xs) + 5 * length xs"
proof (induction xs)
  case (Cons x xs)
  then show ?case using weight_wake [of n x] by (simp add: comp_def)
qed simp

lemma work_broadcast:
  assumes "length (pcs y) = n" and "lo \<le> hi" and "hi \<le> n"
  shows "work n (cond_broadcast lo hi y) \<le> work n y + 5 * n"
proof -
  let ?a = "take lo (pcs y)" and ?b = "take (hi - lo) (drop lo (pcs y))" and ?c = "drop hi (pcs y)"
  have "pcs y = ?a @ ?b @ ?c" using assms(2) by (metis append_take_drop_id drop_drop le_add_diff_inverse2)
  then have s: "sum_list (map (weight n) (pcs y)) = sum_list (map (weight n) ?a) + sum_list (map (weight n) ?b) + sum_list (map (weight n) ?c)"
    by (metis add.assoc map_append sum_list_append)
  have "length ?b \<le> n" using assms by simp
  then show ?thesis using sum_list_wake [of n ?b] s assms(2) by (simp add: work_def cond_broadcast_def max_absorb2)
qed

lemma work_main:
  assumes "threads_ok n y" and "main_step n y = Some y'"
  shows "work n y' < work n y"
proof (cases "main_pc y < n")
  case True
  then have p: "main_pc y < length (pcs y)" "pcs y ! main_pc y = Unborn" using assms(1) by (simp_all add: threads_ok_def)
  have "2 * n - main_pc y = Suc (2 * n - Suc (main_pc y))" using True by simp
  then have "work n (y\<lparr>main_pc := main_pc y + 1\<rparr>) + big n = work n y" by (simp add: work_def)
  moreover have "work n y' + big n = work n (y\<lparr>main_pc := main_pc y + 1\<rparr>) + big n + 5"
    using work_set [of "main_pc y" "y\<lparr>main_pc := main_pc y + 1\<rparr>" n Idle] p True assms(2) by (simp add: main_step_def weight_def)
  ultimately show ?thesis by (simp add: big_def)
next
  case False
  then have "main_pc y < 2 * n" "y' = y\<lparr>main_pc := main_pc y + 1\<rparr>" using assms(2) by (auto simp: main_step_def split: if_splits)
  moreover have "2 * n - main_pc y = Suc (2 * n - Suc (main_pc y))" using calculation(1) by simp
  ultimately show ?thesis by (simp add: work_def big_def)
qed

section \<open>Programs that end\<close>

text \<open>
  A program whose steps keep an invariant and use up a measure, and that has a step left unless it has ended.
  The environment may disturb it by steps of its own, which also keep the invariant.
\<close>

locale ending_program = invariant_of init "\<lambda>s s'. step s s' \<or> disturb s s'" inv
  for init :: "'s \<Rightarrow> bool" and step :: "'s \<Rightarrow> 's \<Rightarrow> bool" and disturb :: "'s \<Rightarrow> 's \<Rightarrow> bool" and inv :: "'s \<Rightarrow> bool" +
  fixes left :: "'s \<Rightarrow> nat" and ended :: "'s \<Rightarrow> bool"
  assumes progress: "inv s \<Longrightarrow> \<not> ended s \<Longrightarrow> \<exists>s'. step s s'"
    and uses_up: "inv s \<Longrightarrow> step s s' \<Longrightarrow> left s' < left s"
begin

lemma run_inv: "inv s \<Longrightarrow> (step ^^ k) s s' \<Longrightarrow> inv s'"
proof (induction k arbitrary: s')
  case (Suc k)
  then show ?case by (auto elim!: relcomppE intro: inv_next)
qed simp

lemma run_bound: "inv s \<Longrightarrow> (step ^^ k) s s' \<Longrightarrow> left s' + k \<le> left s"
proof (induction k arbitrary: s')
  case (Suc k)
  then obtain t where t: "(step ^^ k) s t" "step t s'" by auto
  have "left s' < left t" using uses_up [OF run_inv [OF Suc.prems(1) t(1)] t(2)] .
  then show ?case using Suc.IH [OF Suc.prems(1) t(1)] by simp
qed simp

lemma runs_end:
  assumes "reachable init (\<lambda>s s'. step s s' \<or> disturb s s') s" and "(step ^^ k) s s'"
  shows "k \<le> left s \<and> inv s' \<and> (ended s' \<or> (\<exists>z. step s' z))"
  using run_bound [OF reachable_inv [OF assms(1)] assms(2)] run_inv [OF reachable_inv [OF assms(1)] assms(2)] progress by auto

end

end
