(* ===== verification/ProdCons.thy ===== *)
theory ProdCons
  imports Pthread
begin

text \<open>
  The producer/consumer program of \<open>hw2/producer_consumer.c\<close>: producers put their number into a bounded ring,
  consumers take it out, under one mutex with two condition variables. The steps are those of the critical
  sections; the sleeps between them have no effect. Allocation and thread creation are taken to succeed
  (the program ends otherwise), and the counters of sleeps, which are only printed, are unbounded.
\<close>

section \<open>The program\<close>

record pcparams =
  N_PRODUCERS :: int
  N_CONSUMERS :: int
  N_ITEMS :: int
  QUEUE_SIZE :: int

record thread_info =
  n_sleeps :: int
  n_contribs :: int

text \<open>The global variables, with the log of what was put and taken.\<close>

record pcsys = pthreads +
  queue :: "int list"
  queue_head :: int
  queue_tail :: int
  queue_len :: int
  n_produced :: int
  n_consumed :: int
  infos :: "thread_info list"
  put_log :: "int list"
  got_log :: "int list"

text \<open>Thread \<open>t\<close> is producer \<open>t\<close>, or consumer \<open>t - n_prod q\<close>.\<close>

definition n_prod :: "pcparams \<Rightarrow> nat" where
  "n_prod q = nat (N_PRODUCERS q)"

definition n_threads :: "pcparams \<Rightarrow> nat" where
  "n_threads q = n_prod q + nat (N_CONSUMERS q)"

definition add_sleep :: "nat \<Rightarrow> pcsys \<Rightarrow> pcsys" where
  "add_sleep t y = y\<lparr>infos := (infos y)[t := (infos y ! t)\<lparr>n_sleeps := n_sleeps (infos y ! t) + 1\<rparr>]\<rparr>"

definition add_contrib :: "nat \<Rightarrow> pcsys \<Rightarrow> pcsys" where
  "add_contrib t y = y\<lparr>infos := (infos y)[t := (infos y ! t)\<lparr>n_contribs := n_contribs (infos y ! t) + 1\<rparr>]\<rparr>"

definition put_item :: "pcparams \<Rightarrow> nat \<Rightarrow> pcsys \<Rightarrow> pcsys option" where
  "put_item q t y = do {
     qu \<leftarrow> poke (queue y) (queue_tail y) (int t);
     tl \<leftarrow> c_rem (queue_tail y + 1) (QUEUE_SIZE q);
     Some (add_contrib t (y\<lparr>queue := qu, queue_tail := tl, queue_len := queue_len y + 1, n_produced := n_produced y + 1,
       put_log := put_log y @ [int t]\<rparr>))
   }"

definition get_item :: "pcparams \<Rightarrow> nat \<Rightarrow> pcsys \<Rightarrow> pcsys option" where
  "get_item q t y = do {
     producer_id \<leftarrow> peek (queue y) (queue_head y);
     hd \<leftarrow> c_rem (queue_head y + 1) (QUEUE_SIZE q);
     Some (add_contrib t (y\<lparr>queue_head := hd, queue_len := queue_len y - 1, n_consumed := n_consumed y + 1,
       got_log := got_log y @ [producer_id]\<rparr>))
   }"

text \<open>The next step of a thread; \<open>w\<close> is the thread that a signal wakes.\<close>

definition producer :: "pcparams \<Rightarrow> nat \<Rightarrow> nat \<Rightarrow> pcsys \<Rightarrow> pcsys option" where
  "producer q t w y = (case pcs y ! t of
       Idle \<Rightarrow> mutex_lock t Testing y
     | Woken \<Rightarrow> mutex_lock t Testing y
     | Testing \<Rightarrow>
         if queue_len y = QUEUE_SIZE q \<and> n_produced y < N_ITEMS q then Some (cond_wait t (add_sleep t y))
         else if n_produced y \<ge> N_ITEMS q then Some (set_pc t Quitting y)
         else Some (set_pc t Working y)
     | Quitting \<Rightarrow> Some (set_pc t Exiting (cond_broadcast 0 (n_prod q) y))
     | Exiting \<Rightarrow> Some (mutex_unlock t Done y)
     | Working \<Rightarrow> map_option (set_pc t Signalling) (put_item q t y)
     | Signalling \<Rightarrow> map_option (set_pc t Unlocking) (cond_signal (n_prod q) (n_threads q) w y)
     | Unlocking \<Rightarrow> Some (mutex_unlock t Idle y)
     | _ \<Rightarrow> None)"

definition consumer :: "pcparams \<Rightarrow> nat \<Rightarrow> nat \<Rightarrow> pcsys \<Rightarrow> pcsys option" where
  "consumer q t w y = (case pcs y ! t of
       Idle \<Rightarrow> mutex_lock t Testing y
     | Woken \<Rightarrow> mutex_lock t Testing y
     | Testing \<Rightarrow>
         if queue_len y = 0 \<and> n_consumed y < N_ITEMS q then Some (cond_wait t (add_sleep t y))
         else if n_consumed y \<ge> N_ITEMS q then Some (set_pc t Quitting y)
         else Some (set_pc t Working y)
     | Quitting \<Rightarrow> Some (set_pc t Exiting (cond_broadcast (n_prod q) (n_threads q) y))
     | Exiting \<Rightarrow> Some (mutex_unlock t Done y)
     | Working \<Rightarrow> map_option (set_pc t Signalling) (get_item q t y)
     | Signalling \<Rightarrow> map_option (set_pc t Unlocking) (cond_signal 0 (n_prod q) w y)
     | Unlocking \<Rightarrow> Some (mutex_unlock t Idle y)
     | _ \<Rightarrow> None)"

definition pc_start :: "pcparams \<Rightarrow> pcsys \<Rightarrow> bool" where
  "pc_start q y \<longleftrightarrow> mutex y = None \<and> pcs y = replicate (n_threads q) Unborn \<and> main_pc y = 0 \<and> length (queue y) = nat (QUEUE_SIZE q) \<and>
     queue_head y = 0 \<and> queue_tail y = 0 \<and> queue_len y = 0 \<and> n_produced y = 0 \<and> n_consumed y = 0 \<and>
     infos y = replicate (n_threads q) \<lparr>n_sleeps = 0, n_contribs = 0\<rparr> \<and> put_log y = [] \<and> got_log y = []"

inductive pc_step :: "pcparams \<Rightarrow> pcsys \<Rightarrow> pcsys \<Rightarrow> bool" for q where
  pc_producer: "t < n_prod q \<Longrightarrow> producer q t w y = Some y' \<Longrightarrow> pc_step q y y'"
| pc_consumer: "n_prod q \<le> t \<Longrightarrow> t < n_threads q \<Longrightarrow> consumer q t w y = Some y' \<Longrightarrow> pc_step q y y'"
| pc_main: "main_step (n_threads q) y = Some y' \<Longrightarrow> pc_step q y y'"

inductive pc_spurious :: "pcsys \<Rightarrow> pcsys \<Rightarrow> bool" where
  pc_spurious: "spurious t y = Some y' \<Longrightarrow> pc_spurious y y'"

section \<open>Invariant\<close>

definition qcell :: "pcparams \<Rightarrow> pcsys \<Rightarrow> nat \<Rightarrow> int" where
  "qcell q y i = queue y ! nat ((queue_head y + int i) mod QUEUE_SIZE q)"

definition data_ok :: "pcparams \<Rightarrow> pcsys \<Rightarrow> bool" where
  "data_ok q y \<longleftrightarrow> length (queue y) = nat (QUEUE_SIZE q) \<and> 0 \<le> queue_head y \<and> queue_head y < QUEUE_SIZE q \<and>
     0 \<le> queue_len y \<and> queue_len y \<le> QUEUE_SIZE q \<and> queue_tail y = (queue_head y + queue_len y) mod QUEUE_SIZE q \<and>
     n_produced y = int (length (put_log y)) \<and> n_consumed y = int (length (got_log y)) \<and> n_produced y \<le> N_ITEMS q \<and>
     put_log y = got_log y @ map (qcell q y) [0..<nat (queue_len y)]"

lemma put_item_ok:
  assumes "data_ok q y" and "queue_len y < QUEUE_SIZE q" and "n_produced y < N_ITEMS q"
  obtains y' where "put_item q t y = Some y'" and "data_ok q y'" and "mutex y' = mutex y" and "pcs y' = pcs y" and "main_pc y' = main_pc y"
    and "n_produced y' = n_produced y + 1" and "n_consumed y' = n_consumed y" and "queue_len y' = queue_len y + 1"
proof -
  let ?S = "QUEUE_SIZE q" and ?t = "queue_tail y"
  have d: "length (queue y) = nat ?S" "0 \<le> queue_head y" "queue_head y < ?S" "0 \<le> queue_len y" "?t = (queue_head y + queue_len y) mod ?S"
    using assms(1) by (simp_all add: data_ok_def)
  have S: "0 < ?S" using d(2,3) by simp
  have t: "0 \<le> ?t" "?t < ?S" using S d(5) by simp_all
  define y' where "y' = add_contrib t (y\<lparr>queue := (queue y)[nat ?t := int t], queue_tail := (?t + 1) mod ?S, queue_len := queue_len y + 1,
    n_produced := n_produced y + 1, put_log := put_log y @ [int t]\<rparr>)"
  have run: "put_item q t y = Some y'" using t S d(1) by (simp add: put_item_def y'_def poke_def c_rem_def)
  have cell: "qcell q y' i = (if i = nat (queue_len y) then int t else qcell q y i)" if "i \<le> nat (queue_len y)" for i
  proof (cases "i = nat (queue_len y)")
    case True
    then show ?thesis using d t by (simp add: qcell_def y'_def add_contrib_def)
  next
    case False
    then have i: "int i < queue_len y" using that by simp
    have "(queue_head y + int i) mod ?S \<noteq> ?t"
    proof
      assume "(queue_head y + int i) mod ?S = ?t"
      then have "?S dvd queue_len y - int i" unfolding d(5) by (metis add_diff_cancel_left mod_eq_dvd_iff)
      then show False using i assms(2) zdvd_imp_le [of ?S "queue_len y - int i"] by simp
    qed
    then have "nat ((queue_head y + int i) mod ?S) \<noteq> nat ?t" using S t by (simp add: nat_eq_iff)
    then show ?thesis using False by (simp add: qcell_def y'_def add_contrib_def)
  qed
  have "nat (queue_len y + 1) = Suc (nat (queue_len y))" using d(4) by simp
  then have "map (qcell q y') [0..<nat (queue_len y')] = map (qcell q y) [0..<nat (queue_len y)] @ [int t]"
    using cell by (simp add: y'_def add_contrib_def)
  moreover have "(?t + 1) mod ?S = (queue_head y + (queue_len y + 1)) mod ?S" unfolding d(5) by (simp add: mod_simps algebra_simps)
  ultimately have "data_ok q y'" using assms by (simp add: data_ok_def y'_def add_contrib_def)
  then show thesis by (rule that [OF run]) (simp_all add: y'_def add_contrib_def)
qed

lemma get_item_ok:
  assumes "data_ok q y" and "0 < queue_len y"
  obtains y' where "get_item q t y = Some y'" and "data_ok q y'" and "mutex y' = mutex y" and "pcs y' = pcs y" and "main_pc y' = main_pc y"
    and "n_produced y' = n_produced y" and "n_consumed y' = n_consumed y + 1" and "queue_len y' = queue_len y - 1"
proof -
  let ?S = "QUEUE_SIZE q" and ?h = "queue_head y"
  have d: "length (queue y) = nat ?S" "0 \<le> ?h" "?h < ?S" "queue_tail y = (?h + queue_len y) mod ?S"
    using assms(1) by (simp_all add: data_ok_def)
  have e: "queue_len y \<le> ?S" "n_produced y = int (length (put_log y))" "n_consumed y = int (length (got_log y))" "n_produced y \<le> N_ITEMS q"
    using assms(1) unfolding data_ok_def by blast+
  have S: "0 < ?S" using d(2,3) by simp
  define y' where "y' = add_contrib t (y\<lparr>queue_head := (?h + 1) mod ?S, queue_len := queue_len y - 1,
    n_consumed := n_consumed y + 1, got_log := got_log y @ [queue y ! nat ?h]\<rparr>)"
  have run: "get_item q t y = Some y'" using d S by (simp add: get_item_def y'_def peek_def c_rem_def)
  have cell: "qcell q y' i = qcell q y (Suc i)" for i
    by (simp add: qcell_def y'_def add_contrib_def mod_simps algebra_simps)
  have len: "nat (queue_len y) = Suc (nat (queue_len y - 1))" using assms(2) by simp
  have "qcell q y 0 = queue y ! nat ?h" using d(2,3) by (simp add: qcell_def)
  then have "map (qcell q y) [0..<nat (queue_len y)] = queue y ! nat ?h # map (qcell q y') [0..<nat (queue_len y - 1)]"
    unfolding len map_upt_Suc cell by simp
  moreover have "queue_tail y = ((?h + 1) mod ?S + (queue_len y - 1)) mod ?S" unfolding d(4) mod_add_left_eq by (simp add: algebra_simps)
  moreover have "put_log y = got_log y @ map (qcell q y) [0..<nat (queue_len y)]" using assms(1) by (simp add: data_ok_def)
  moreover have sel: "put_log y' = put_log y" "got_log y' = got_log y @ [queue y ! nat ?h]" "queue_len y' = queue_len y - 1" by (simp_all add: y'_def add_contrib_def)
  ultimately have log: "put_log y' = got_log y' @ map (qcell q y') [0..<nat (queue_len y')]" and tl: "queue_tail y = ((?h + 1) mod ?S + (queue_len y - 1)) mod ?S" by simp_all
  have "data_ok q y'"
    unfolding data_ok_def by (intro conjI log) (use assms(2) S tl d e in \<open>simp_all add: y'_def add_contrib_def\<close>)
  then show thesis by (rule that [OF run]) (simp_all add: y'_def add_contrib_def)
qed

definition producers :: "pcparams \<Rightarrow> nat set" where
  "producers q = {..<n_prod q}"

definition consumers :: "pcparams \<Rightarrow> nat set" where
  "consumers q = {n_prod q..<n_threads q}"

text \<open>What a thread knows where it is: there is room or an item when it works, and the items are done when it leaves.\<close>

definition at_pc :: "pcparams \<Rightarrow> pcsys \<Rightarrow> nat \<Rightarrow> pc \<Rightarrow> bool" where
  "at_pc q y t p \<longleftrightarrow>
     (p = Working \<longrightarrow> (if t < n_prod q then queue_len y < QUEUE_SIZE q \<and> n_produced y < N_ITEMS q else 0 < queue_len y)) \<and>
     (p \<in> {Quitting, Exiting, Done} \<longrightarrow> (if t < n_prod q then N_ITEMS q \<le> n_produced y else N_ITEMS q \<le> n_consumed y))"

definition can_put :: "pcparams \<Rightarrow> pcsys \<Rightarrow> bool" where
  "can_put q y \<longleftrightarrow> queue_len y < QUEUE_SIZE q \<or> N_ITEMS q \<le> n_produced y"

definition can_get :: "pcparams \<Rightarrow> pcsys \<Rightarrow> bool" where
  "can_get q y \<longleftrightarrow> 0 < queue_len y \<or> N_ITEMS q \<le> n_consumed y"

definition pc_inv :: "pcparams \<Rightarrow> pcsys \<Rightarrow> bool" where
  "pc_inv q y \<longleftrightarrow> threads_ok (n_threads q) y \<and> data_ok q y \<and> (\<forall>t < n_threads q. at_pc q y t (pcs y ! t)) \<and>
     sleep_ok (producers q) (consumers q) (can_put q y) (pcs y) \<and> sleep_ok (consumers q) (producers q) (can_get q y) (pcs y)"

lemma pc_invE:
  assumes "pc_inv q y"
  shows "threads_ok (n_threads q) y" "data_ok q y" "t < n_threads q \<Longrightarrow> at_pc q y t (pcs y ! t)"
    "sleep_ok (producers q) (consumers q) (can_put q y) (pcs y)" "sleep_ok (consumers q) (producers q) (can_get q y) (pcs y)"
    "length (pcs y) = n_threads q" "n_prod q \<le> n_threads q"
  using assms by (simp_all add: pc_inv_def threads_ok_def n_threads_def)

text \<open>Same data, maybe with other thread states.\<close>

definition same_data :: "pcsys \<Rightarrow> pcsys \<Rightarrow> bool" where
  "same_data y y' \<longleftrightarrow> queue y' = queue y \<and> queue_head y' = queue_head y \<and> queue_tail y' = queue_tail y \<and> queue_len y' = queue_len y \<and>
     n_produced y' = n_produced y \<and> n_consumed y' = n_consumed y \<and> put_log y' = put_log y \<and> got_log y' = got_log y"

lemma same_dataD:
  assumes "same_data y y'"
  shows "data_ok q y' = data_ok q y" "at_pc q y' = at_pc q y" "can_put q y' = can_put q y" "can_get q y' = can_get q y"
proof -
  have "qcell q y' = qcell q y" using assms by (simp add: same_data_def qcell_def fun_eq_iff)
  then show "data_ok q y' = data_ok q y" using assms by (simp add: same_data_def data_ok_def)
  show "at_pc q y' = at_pc q y" "can_put q y' = can_put q y" "can_get q y' = can_get q y"
    using assms by (simp_all add: same_data_def at_pc_def fun_eq_iff can_put_def can_get_def)
qed

lemma same_data_simps [simp]:
  "same_data y (set_pc t p y)" "same_data y (mutex_unlock t p y)" "same_data y (cond_wait t (add_sleep t y))" "same_data y (cond_broadcast lo hi y)"
  "same_data y (set_pc t p (y\<lparr>main_pc := m\<rparr>))" "same_data y (y\<lparr>main_pc := m\<rparr>)" "same_data y (set_pc t p (cond_broadcast lo hi y))"
  by (simp_all add: same_data_def set_pc_def mutex_unlock_def cond_wait_def add_sleep_def cond_broadcast_def)

text \<open>A step of thread \<open>t\<close> that only changes where it is.\<close>

lemma pc_inv_move:
  assumes "pc_inv q y" and "t < n_threads q" and "same_data y y'" and "pcs y' = (pcs y)[t := p]" and "threads_ok (n_threads q) y'"
    and "at_pc q y t p" and "pcs y ! t \<noteq> Signalling"
    and "awake p \<or> p = Waiting \<and> \<not> (if t < n_prod q then can_put q y else can_get q y) \<or> pcs y ! t = Exiting \<and> p = Done"
  shows "pc_inv q y'"
proof -
  note i = pc_invE [OF assms(1)]
  have len: "t < length (pcs y)" using i(6) assms(2) by simp
  have at: "\<forall>s < n_threads q. at_pc q y s ((pcs y)[t := p] ! s)" using i(3) assms(6) len by (simp add: nth_list_update)
  have sleep: "sleep_ok A B c ((pcs y)[t := p])" if "sleep_ok A B c (pcs y)" "t \<in> A \<longrightarrow> awake p \<or> p = Waiting \<and> \<not> c \<or> pcs y ! t = Exiting \<and> p = Done" for A B c
  proof (cases "t \<in> A")
    case True
    then show ?thesis using that len sleep_ok_awake [of t A "pcs y" p] sleep_ok_false [of c] sleep_ok_leave [OF that(1)] by blast
  next
    case False
    then show ?thesis using sleep_ok_other [OF that(1) _ False assms(7)] by blast
  qed
  have "sleep_ok (producers q) (consumers q) (can_put q y) ((pcs y)[t := p])" by (rule sleep [OF i(4)]) (use assms(8) in \<open>auto simp: producers_def\<close>)
  moreover have "sleep_ok (consumers q) (producers q) (can_get q y) ((pcs y)[t := p])" by (rule sleep [OF i(5)]) (use assms(8) in \<open>auto simp: consumers_def\<close>)
  ultimately show ?thesis unfolding pc_inv_def same_dataD [OF assms(3)] using assms(4,5) at i(2) by simp
qed

text \<open>Waking sleeping threads.\<close>

lemma pc_inv_wake:
  assumes "pc_inv q y" and "t < n_threads q" and "pcs y ! t = Waiting"
  shows "pc_inv q (set_pc t Woken y)"
  by (rule pc_inv_move [OF assms(1,2), of _ Woken]) (use assms threads_ok_wake [OF pc_invE(1) [OF assms(1)] assms(3,2)] in \<open>simp_all add: at_pc_def awake_def\<close>)

text \<open>The end of the work: somebody who waits for the other kind is woken, and \<open>t\<close> goes on to unlock.\<close>

lemma pc_inv_signal:
  assumes "pc_inv q y" and "t < n_threads q" and "pcs y ! t = Signalling"
    and "cond_signal (if t < n_prod q then n_prod q else 0) (if t < n_prod q then n_threads q else n_prod q) w y = Some y1"
  shows "pc_inv q (set_pc t Unlocking y1)"
proof -
  let ?A = "if t < n_prod q then consumers q else producers q" and ?B = "if t < n_prod q then producers q else consumers q"
  let ?cA = "if t < n_prod q then can_get q y else can_put q y" and ?cB = "if t < n_prod q then can_put q y else can_get q y"
  note i = pc_invE [OF assms(1)]
  have len: "t < length (pcs y)" using i(6) assms(2) by simp
  have tB: "t \<in> ?B" "t \<notin> ?A" using assms(2) by (auto simp: producers_def consumers_def)
  have A: "set (waiters (if t < n_prod q then n_prod q else 0) (if t < n_prod q then n_threads q else n_prod q) y) = {a \<in> ?A. pcs y ! a = Waiting}"
    by (auto simp: waiters_def producers_def consumers_def)
  have "(\<forall>a \<in> ?A. pcs y ! a \<noteq> Waiting) \<and> y1 = y \<or> w \<in> ?A \<and> pcs y ! w = Waiting \<and> y1 = set_pc w Woken y"
    using assms(4) A unfolding cond_signal_def by (auto split: if_splits)
  then consider (none) "\<forall>a \<in> ?A. pcs y ! a \<noteq> Waiting" "y1 = y" | (wake) "w \<in> ?A" "pcs y ! w = Waiting" "y1 = set_pc w Woken y" by blast
  then show ?thesis
  proof cases
    case none
    have at: "\<forall>s < n_threads q. at_pc q y s ((pcs y)[t := Unlocking] ! s)" using i(3) len by (simp add: nth_list_update at_pc_def)
    have a: "sleep_ok ?A ?B ?cA ((pcs y)[t := Unlocking])"
      by (rule sleep_ok_none) (use none(1) tB(2) in \<open>metis nth_list_update_neq\<close>)
    have b: "sleep_ok ?B ?A ?cB ((pcs y)[t := Unlocking])" by (rule sleep_ok_awake [OF tB(1) len]) (simp add: awake_def)
    have th: "threads_ok (n_threads q) (set_pc t Unlocking y)" by (rule threads_ok_inside [OF i(1) assms(2)]) (simp_all add: assms(3))
    have "same_data y (set_pc t Unlocking y)" by simp
    from same_dataD [OF this] show ?thesis using none(2) a b th at i(2) by (cases "t < n_prod q") (simp_all add: pc_inv_def)
  next
    case wake
    have w: "w < n_threads q" "w \<noteq> t" using wake(1) tB(2) i(7) by (auto simp: producers_def consumers_def split: if_splits)
    let ?y = "set_pc w Woken y"
    have inv1: "pc_inv q ?y" by (rule pc_inv_wake [OF assms(1) w(1) wake(2)])
    note j = pc_invE [OF inv1]
    have pt: "pcs ?y ! t = Signalling" using assms(3) w(2) by simp
    have len1: "t < length (pcs ?y)" "w < length (pcs y)" using len w(1) i(6) by simp_all
    have at: "\<forall>s < n_threads q. at_pc q ?y s ((pcs ?y)[t := Unlocking] ! s)" using j(3) len1(1) by (simp add: nth_list_update at_pc_def)
    have ps: "(pcs ?y)[t := Unlocking] = ((pcs y)[t := Unlocking])[w := Woken]" using w(2) by (simp add: list_update_swap)
    have a: "sleep_ok ?A ?B ?cA ((pcs ?y)[t := Unlocking])" unfolding ps by (rule sleep_ok_awake [OF wake(1)]) (use len1(2) in \<open>simp_all add: awake_def\<close>)
    have b: "sleep_ok ?B ?A ?cB ((pcs ?y)[t := Unlocking])" by (rule sleep_ok_awake [OF tB(1) len1(1)]) (simp add: awake_def)
    have th: "threads_ok (n_threads q) (set_pc t Unlocking ?y)" by (rule threads_ok_inside [OF j(1) assms(2)]) (use assms(3) w(2) in simp_all)
    have "same_data y (set_pc t Unlocking ?y)" "same_data y ?y" by (simp_all add: same_data_def set_pc_def)
    from same_dataD [OF this(1)] same_dataD [OF this(2)] show ?thesis using wake(3) a b th at i(2) by (cases "t < n_prod q") (simp_all add: pc_inv_def)
  qed
qed

text \<open>The last step before the thread leaves: everybody of its kind is woken.\<close>

lemma pc_inv_quit:
  assumes "pc_inv q y" and "t < n_threads q" and "pcs y ! t = Quitting"
  shows "pc_inv q (set_pc t Exiting (cond_broadcast (if t < n_prod q then 0 else n_prod q) (if t < n_prod q then n_prod q else n_threads q) y))"
proof -
  define lo hi where "lo = (if t < n_prod q then 0 else n_prod q)" and "hi = (if t < n_prod q then n_prod q else n_threads q)"
  define A B where "A = (if t < n_prod q then producers q else consumers q)" and "B = (if t < n_prod q then consumers q else producers q)"
  define c d where "c = (if t < n_prod q then can_put q y else can_get q y)" and "d = (if t < n_prod q then can_get q y else can_put q y)"
  let ?y = "cond_broadcast lo hi y"
  note i = pc_invE [OF assms(1)]
  have r: "lo \<le> hi" "hi \<le> n_threads q" using i(7) by (simp_all add: lo_def hi_def)
  note nth = broadcast_nth [OF i(6) r] and len = length_broadcast [OF i(6) r]
  have A: "a \<in> A \<longleftrightarrow> lo \<le> a \<and> a < hi" for a by (auto simp: A_def lo_def hi_def producers_def consumers_def)
  have tA: "t \<in> A" "t \<notin> B" using assms(2) by (auto simp: A_def B_def producers_def consumers_def)
  have B: "s \<notin> A" "s < n_threads q" if "s \<in> B" for s using that i(7) by (auto simp: A_def B_def producers_def consumers_def split: if_splits)
  have nth': "(pcs ?y)[t := Exiting] ! s = (if s = t then Exiting else if s \<in> A then wake_pc (pcs y ! s) else pcs y ! s)" if "s < n_threads q" for s
    using nth [OF that] len that A by (simp add: nth_list_update)
  have pt: "pcs ?y ! t = Quitting" using nth [OF assms(2)] assms(3) by (simp add: wake_pc_def)
  have th: "threads_ok (n_threads q) (set_pc t Exiting ?y)"
    by (rule threads_ok_inside [OF threads_ok_broadcast [OF i(1) r] assms(2)]) (simp_all add: pt)
  have at: "at_pc q y s ((pcs ?y)[t := Exiting] ! s)" if "s < n_threads q" for s
    using i(3) [OF that] i(3) [OF assms(2)] assms(3) nth' [OF that] by (simp add: at_pc_def wake_pc_def)
  have a: "sleep_ok A B c ((pcs ?y)[t := Exiting])"
  proof (rule sleep_ok_none)
    fix a assume a: "a \<in> A"
    then have "a < n_threads q" using A r(2) by (meson order_less_le_trans)
    then show "(pcs ?y)[t := Exiting] ! a \<noteq> Waiting" using nth' [of a] a by simp
  qed
  have b: "sleep_ok B A d ((pcs ?y)[t := Exiting])"
  proof -
    have old: "sleep_ok B A d (pcs y)" using i(4,5) by (simp add: A_def B_def d_def)
    have same: "(pcs ?y)[t := Exiting] ! s = pcs y ! s" if "s \<in> B" for s
      using B [OF that] nth' [of s] tA(2) that by auto
    have "(pcs ?y)[t := Exiting] ! s = Signalling" if "pcs y ! s = Signalling" "s \<in> A" for s
    proof -
      have "s \<noteq> t" "s < n_threads q" using that assms(3) A [of s] r(2) by (auto simp: order_less_le_trans)
      then show ?thesis using that nth' [of s] by (simp add: wake_pc_def)
    qed
    then show ?thesis using old same unfolding sleep_ok_def by metis
  qed
  have "same_data y (set_pc t Exiting ?y)" by simp
  from same_dataD [OF this] have "pc_inv q (set_pc t Exiting ?y)"
    using a b th at i(2) by (cases "t < n_prod q") (simp_all add: pc_inv_def A_def B_def c_def d_def)
  then show ?thesis by (simp add: lo_def hi_def)
qed

text \<open>The work itself. Nobody else is in the critical section.\<close>

lemma pc_inv_work:
  assumes "pc_inv q y" and "t < n_threads q" and "pcs y ! t = Working"
    and "data_ok q y1" and "mutex y1 = mutex y" and "pcs y1 = pcs y" and "main_pc y1 = main_pc y"
    and "if t < n_prod q then n_produced y1 = n_produced y + 1 \<and> n_consumed y1 = n_consumed y \<and> queue_len y1 = queue_len y + 1
      else n_produced y1 = n_produced y \<and> n_consumed y1 = n_consumed y + 1 \<and> queue_len y1 = queue_len y - 1"
  shows "pc_inv q (set_pc t Signalling y1)"
proof -
  note i = pc_invE [OF assms(1)]
  have len: "t < length (pcs y)" using i(6) assms(2) by simp
  have "threads_ok (n_threads q) y1" using i(1) assms(5-7) by (simp add: threads_ok_def)
  then have th: "threads_ok (n_threads q) (set_pc t Signalling y1)" by (rule threads_ok_inside [OF _ assms(2)]) (simp_all add: assms(3,6))
  have at: "at_pc q y1 s ((pcs y)[t := Signalling] ! s)" if "s < n_threads q" for s
  proof (cases "s = t")
    case True
    then show ?thesis using len by (simp add: at_pc_def)
  next
    case False
    have "mutex y = Some t" using holder(1) [OF i(1) assms(2)] assms(3) by simp
    then have "\<not> holding (pcs y ! s)" using False i(1) that by (simp add: threads_ok_def)
    then show ?thesis using i(3) [OF that] False assms(8) by (auto simp: at_pc_def split: if_splits)
  qed
  have "sleep_ok (producers q) (consumers q) (can_put q y1) ((pcs y)[t := Signalling])"
    by (cases "t < n_prod q"; rule sleep_ok_awake sleep_ok_signalling) (use assms(2) len in \<open>simp_all add: producers_def consumers_def awake_def\<close>)
  moreover have "sleep_ok (consumers q) (producers q) (can_get q y1) ((pcs y)[t := Signalling])"
    by (cases "t < n_prod q"; rule sleep_ok_awake sleep_ok_signalling) (use assms(2) len in \<open>simp_all add: producers_def consumers_def awake_def\<close>)
  moreover have "same_data y1 (set_pc t Signalling y1)" by simp
  ultimately show ?thesis using th at assms(4,6) same_dataD [of y1 "set_pc t Signalling y1"] by (simp add: pc_inv_def)
qed

definition thread_step :: "pcparams \<Rightarrow> nat \<Rightarrow> nat \<Rightarrow> pcsys \<Rightarrow> pcsys option" where
  "thread_step q t w y = (if t < n_prod q then producer q t w y else consumer q t w y)"

text \<open>The measure: items still to be put and taken, and the work of the threads.\<close>

definition pc_left :: "pcparams \<Rightarrow> pcsys \<Rightarrow> nat" where
  "pc_left q y = big (n_threads q) * nat (2 * N_ITEMS q - n_produced y - n_consumed y) + work (n_threads q) y"

lemma pc_left_same: "same_data y y' \<Longrightarrow> work (n_threads q) y' < work (n_threads q) y \<Longrightarrow> pc_left q y' < pc_left q y"
  by (simp add: pc_left_def same_data_def)

lemma data_okD:
  assumes "data_ok q y"
  shows "n_produced y = n_consumed y + queue_len y" "0 \<le> n_consumed y" "n_produced y \<le> N_ITEMS q" "0 \<le> queue_len y" "0 < QUEUE_SIZE q" "queue_len y \<le> QUEUE_SIZE q"
  using assms by (auto simp: data_ok_def)

lemma weight_simps:
  "weight n Idle = big n + 5" "weight n Woken = big n + 5" "weight n Testing = big n + 4" "weight n Waiting = big n" "weight n Working = big n + 1"
  "weight n Quitting = big n + 1" "weight n Signalling = big n + 5 * n + 7" "weight n Unlocking = big n + 6" "weight n Exiting = 1" "weight n Done = 0"
  by (simp_all add: weight_def)

lemma pcs_simps [simp]:
  "pcs (mutex_unlock t p z) = (pcs z)[t := p]" "pcs (cond_wait t z) = (pcs z)[t := Waiting]" "pcs (add_sleep t y) = pcs y" "work n (add_sleep t y) = work n y"
  by (simp_all add: mutex_unlock_def cond_wait_def add_sleep_def work_def)

lemma lock_step:
  assumes "pc_inv q y" and "t < n_threads q" and "pcs y ! t \<in> {Idle, Woken}" and "mutex_lock t Testing y = Some y'"
  shows "pc_inv q y' \<and> pc_left q y' < pc_left q y"
proof
  note i = pc_invE [OF assms(1)]
  have y': "y' = set_pc t Testing (y\<lparr>mutex := Some t\<rparr>)" using assms(4) by (simp add: mutex_lock_def split: if_splits)
  have sd: "same_data y y'" by (simp add: y' same_data_def set_pc_def)
  show "pc_inv q y'"
    by (rule pc_inv_move [OF assms(1,2) sd, of Testing]) (use threads_ok_lock [OF i(1) assms(2-4)] assms(3) in \<open>auto simp: y' at_pc_def awake_def\<close>)
  have "work (n_threads q) y' < work (n_threads q) y"
    using work_lock [OF _ assms(4), of "n_threads q"] i(6) assms(2,3) by (auto simp: weight_simps)
  then show "pc_left q y' < pc_left q y" by (rule pc_left_same [OF sd])
qed

lemma move_step:
  assumes "pc_inv q y" and "t < n_threads q" and "pcs y ! t = Testing" and "p \<in> {Working, Quitting}" and "at_pc q y t p"
  shows "pc_inv q (set_pc t p y) \<and> pc_left q (set_pc t p y) < pc_left q y"
proof
  note i = pc_invE [OF assms(1)]
  have th: "threads_ok (n_threads q) (set_pc t p y)" by (rule threads_ok_inside [OF i(1) assms(2)]) (use assms(3,4) in auto)
  show "pc_inv q (set_pc t p y)"
    by (rule pc_inv_move [OF assms(1,2), of _ p]) (use assms(3-5) th in \<open>auto simp: awake_def\<close>)
  have "work (n_threads q) (set_pc t p y) < work (n_threads q) y"
    using work_set [of t y "n_threads q" p] i(6) assms(2-4) by (auto simp: weight_simps)
  then show "pc_left q (set_pc t p y) < pc_left q y" by (rule pc_left_same [rotated]) simp
qed

lemma wait_step:
  assumes "pc_inv q y" and "t < n_threads q" and "pcs y ! t = Testing" and "\<not> (if t < n_prod q then can_put q y else can_get q y)"
  shows "pc_inv q (cond_wait t (add_sleep t y)) \<and> pc_left q (cond_wait t (add_sleep t y)) < pc_left q y"
proof
  note i = pc_invE [OF assms(1)]
  have "threads_ok (n_threads q) (add_sleep t y)" using i(1) by (simp add: threads_ok_def add_sleep_def)
  then have th: "threads_ok (n_threads q) (cond_wait t (add_sleep t y))" by (rule threads_ok_wait [OF _ assms(2)]) (simp add: assms(3))
  show "pc_inv q (cond_wait t (add_sleep t y))"
    by (rule pc_inv_move [OF assms(1,2), of _ Waiting]) (use assms(3,4) th in \<open>simp_all add: at_pc_def\<close>)
  have "work (n_threads q) (cond_wait t (add_sleep t y)) < work (n_threads q) y"
    using work_wait [of t "add_sleep t y" "n_threads q"] i(6) assms(2,3) by (simp add: weight_simps)
  then show "pc_left q (cond_wait t (add_sleep t y)) < pc_left q y" by (rule pc_left_same [rotated]) simp
qed

lemma unlock_step:
  assumes "pc_inv q y" and "t < n_threads q" and "(pcs y ! t, p) \<in> {(Unlocking, Idle), (Exiting, Done)}"
  shows "pc_inv q (mutex_unlock t p y) \<and> pc_left q (mutex_unlock t p y) < pc_left q y"
proof
  note i = pc_invE [OF assms(1)]
  have th: "threads_ok (n_threads q) (mutex_unlock t p y)" by (rule threads_ok_unlock [OF i(1) assms(2)]) (use assms(3) in auto)
  show "pc_inv q (mutex_unlock t p y)"
    by (rule pc_inv_move [OF assms(1,2), of _ p]) (use i(3) [OF assms(2)] assms(3) th in \<open>auto simp: awake_def at_pc_def\<close>)
  have "work (n_threads q) (mutex_unlock t p y) < work (n_threads q) y"
    using work_unlock [of t y "n_threads q" p] i(6) assms(2,3) by (auto simp: weight_simps)
  then show "pc_left q (mutex_unlock t p y) < pc_left q y" by (rule pc_left_same [rotated]) simp
qed

lemma quit_step:
  fixes q y t
  assumes "pc_inv q y" and "t < n_threads q" and "pcs y ! t = Quitting"
  defines "y' \<equiv> set_pc t Exiting (cond_broadcast (if t < n_prod q then 0 else n_prod q) (if t < n_prod q then n_prod q else n_threads q) y)"
  shows "pc_inv q y' \<and> pc_left q y' < pc_left q y"
proof
  note i = pc_invE [OF assms(1)]
  show "pc_inv q y'" unfolding y'_def by (rule pc_inv_quit [OF assms(1-3)])
  define lo hi where "lo = (if t < n_prod q then 0 else n_prod q)" and "hi = (if t < n_prod q then n_prod q else n_threads q)"
  have r: "lo \<le> hi" "hi \<le> n_threads q" using i(7) by (simp_all add: lo_def hi_def)
  have y': "y' = set_pc t Exiting (cond_broadcast lo hi y)" by (simp add: y'_def lo_def hi_def)
  have "pcs (cond_broadcast lo hi y) ! t = Quitting" "t < length (pcs (cond_broadcast lo hi y))"
    using broadcast_nth [OF i(6) r assms(2)] assms(2,3) length_broadcast [OF i(6) r] by (simp_all add: wake_pc_def)
  then have "work (n_threads q) y' < work (n_threads q) y"
    using work_set [of t "cond_broadcast lo hi y" "n_threads q" Exiting] work_broadcast [OF i(6) r] y' by (simp add: weight_simps big_def)
  then show "pc_left q y' < pc_left q y" by (rule pc_left_same [rotated]) (simp add: y'_def)
qed

lemma signal_step:
  assumes "pc_inv q y" and "t < n_threads q" and "pcs y ! t = Signalling"
    and "cond_signal (if t < n_prod q then n_prod q else 0) (if t < n_prod q then n_threads q else n_prod q) w y = Some y1"
  shows "pc_inv q (set_pc t Unlocking y1) \<and> pc_left q (set_pc t Unlocking y1) < pc_left q y"
proof
  note i = pc_invE [OF assms(1)]
  define lo hi where "lo = (if t < n_prod q then n_prod q else 0)" and "hi = (if t < n_prod q then n_threads q else n_prod q)"
  have sig: "cond_signal lo hi w y = Some y1" using assms(4) by (simp add: lo_def hi_def)
  have hi: "hi \<le> n_threads q" using i(7) by (simp add: hi_def)
  show "pc_inv q (set_pc t Unlocking y1)" by (rule pc_inv_signal [OF assms])
  have y1: "y1 = y \<or> y1 = set_pc w Woken y \<and> pcs y ! w = Waiting" using sig by (auto simp: cond_signal_def waiters_def split: if_splits)
  moreover have "w \<noteq> t" if "pcs y ! w = Waiting" using that assms(3) by auto
  ultimately have "pcs y1 ! t = Signalling" "length (pcs y1) = n_threads q" using assms(3) i(6) by auto
  then have "work (n_threads q) (set_pc t Unlocking y1) < work (n_threads q) y"
    using work_set [of t y1 "n_threads q" Unlocking] work_signal [OF i(6) hi sig] assms(2) by (simp add: weight_simps)
  moreover have "same_data y (set_pc t Unlocking y1)" using y1 by (auto simp: same_data_def set_pc_def)
  ultimately show "pc_left q (set_pc t Unlocking y1) < pc_left q y" by (rule pc_left_same [rotated])
qed

lemma work_step:
  assumes "pc_inv q y" and "t < n_threads q" and "pcs y ! t = Working"
  obtains y1 where "(if t < n_prod q then put_item q t y else get_item q t y) = Some y1"
    and "pc_inv q (set_pc t Signalling y1) \<and> pc_left q (set_pc t Signalling y1) < pc_left q y"
proof -
  note i = pc_invE [OF assms(1)]
  have at: "at_pc q y t Working" using i(3) [OF assms(2)] assms(3) by simp
  obtain y1 where 1: "(if t < n_prod q then put_item q t y else get_item q t y) = Some y1" "data_ok q y1" "mutex y1 = mutex y" "pcs y1 = pcs y" "main_pc y1 = main_pc y"
      "if t < n_prod q then n_produced y1 = n_produced y + 1 \<and> n_consumed y1 = n_consumed y \<and> queue_len y1 = queue_len y + 1
       else n_produced y1 = n_produced y \<and> n_consumed y1 = n_consumed y + 1 \<and> queue_len y1 = queue_len y - 1"
  proof (cases "t < n_prod q")
    case True
    then have r: "queue_len y < QUEUE_SIZE q" "n_produced y < N_ITEMS q" using at by (simp_all add: at_pc_def)
    show thesis by (rule put_item_ok [OF i(2) r, of t]) (rule that, use True in simp_all)
  next
    case False
    then have r: "0 < queue_len y" using at by (simp add: at_pc_def)
    show thesis by (rule get_item_ok [OF i(2) r, of t]) (rule that, use False in simp_all)
  qed
  have inv: "pc_inv q (set_pc t Signalling y1)" by (rule pc_inv_work [OF assms 1(2-6)])
  have "n_produced y1 + n_consumed y1 = n_produced y + n_consumed y + 1" using 1(6) by (auto split: if_splits)
  moreover have "n_produced y1 \<le> N_ITEMS q" "n_consumed y1 \<le> N_ITEMS q" using data_okD [OF 1(2)] by linarith+
  ultimately have "nat (2 * N_ITEMS q - n_produced y - n_consumed y) = Suc (nat (2 * N_ITEMS q - n_produced y1 - n_consumed y1))" by linarith
  moreover have "work (n_threads q) (set_pc t Signalling y1) + big (n_threads q) + 1 = work (n_threads q) y + big (n_threads q) + 5 * n_threads q + 7"
    using work_set [of t y1 "n_threads q" Signalling] 1(4,5) i(6) assms(2,3) by (simp add: weight_simps work_def)
  ultimately have "pc_left q (set_pc t Signalling y1) < pc_left q y" by (simp add: pc_left_def set_pc_def big_def)
  then show thesis using that [OF 1(1)] inv by blast
qed

lemma thread_step_ok:
  assumes "pc_inv q y" and "t < n_threads q" and "thread_step q t w y = Some y'"
  shows "pc_inv q y' \<and> pc_left q y' < pc_left q y"
proof (cases "pcs y ! t")
  case Idle
  then show ?thesis using lock_step [OF assms(1,2)] assms(3) by (simp add: thread_step_def producer_def consumer_def split: if_splits)
next
  case Woken
  then show ?thesis using lock_step [OF assms(1,2)] assms(3) by (simp add: thread_step_def producer_def consumer_def split: if_splits)
next
  case Testing
  have d: "queue_len y \<le> QUEUE_SIZE q" "0 \<le> queue_len y" using data_okD [OF pc_invE(2) [OF assms(1)]] by simp_all
  consider (wait) "\<not> (if t < n_prod q then can_put q y else can_get q y)" "y' = cond_wait t (add_sleep t y)"
    | (quit) "at_pc q y t Quitting" "y' = set_pc t Quitting y" | (work) "at_pc q y t Working" "y' = set_pc t Working y"
    using assms(3) Testing d
    by (cases "t < n_prod q") (auto simp: thread_step_def producer_def consumer_def can_put_def can_get_def at_pc_def split: if_splits)
  then show ?thesis
  proof cases
    case wait
    then show ?thesis using wait_step [OF assms(1,2) Testing] by simp
  next
    case quit
    then show ?thesis using move_step [OF assms(1,2) Testing _ quit(1)] by simp
  next
    case work
    then show ?thesis using move_step [OF assms(1,2) Testing _ work(1)] by simp
  qed
next
  case Working
  obtain y1 where "(if t < n_prod q then put_item q t y else get_item q t y) = Some y1"
      "pc_inv q (set_pc t Signalling y1) \<and> pc_left q (set_pc t Signalling y1) < pc_left q y"
    by (rule work_step [OF assms(1,2) Working])
  then show ?thesis using assms(3) Working by (auto simp: thread_step_def producer_def consumer_def split: if_splits)
next
  case Signalling
  then obtain y1 where "cond_signal (if t < n_prod q then n_prod q else 0) (if t < n_prod q then n_threads q else n_prod q) w y = Some y1" "y' = set_pc t Unlocking y1"
    using assms(3) by (auto simp: thread_step_def producer_def consumer_def split: if_splits)
  then show ?thesis using signal_step [OF assms(1,2) Signalling] by simp
next
  case Unlocking
  then show ?thesis using unlock_step [OF assms(1,2), of Idle] assms(3) by (simp add: thread_step_def producer_def consumer_def split: if_splits)
next
  case Quitting
  then show ?thesis using quit_step [OF assms(1,2)] assms(3) by (simp add: thread_step_def producer_def consumer_def split: if_splits)
next
  case Exiting
  then show ?thesis using unlock_step [OF assms(1,2), of Done] assms(3) by (simp add: thread_step_def producer_def consumer_def split: if_splits)
qed (use assms(3) in \<open>simp_all add: thread_step_def producer_def consumer_def split: if_splits\<close>)

lemma main_step_ok:
  assumes "pc_inv q y" and "main_step (n_threads q) y = Some y'"
  shows "pc_inv q y' \<and> pc_left q y' < pc_left q y"
proof
  note i = pc_invE [OF assms(1)]
  have th: "threads_ok (n_threads q) y'" by (rule threads_ok_main [OF i(1) assms(2)])
  have y': "y' = y\<lparr>main_pc := main_pc y + 1\<rparr> \<or> main_pc y < n_threads q \<and> y' = set_pc (main_pc y) Idle (y\<lparr>main_pc := main_pc y + 1\<rparr>)"
    using assms(2) by (auto simp: main_step_def split: if_splits)
  then have sd: "same_data y y'" by auto
  show "pc_inv q y'"
  proof (cases "pcs y' = pcs y")
    case True
    then show ?thesis using th i unfolding pc_inv_def same_dataD [OF sd] by simp
  next
    case False
    then have m: "main_pc y < n_threads q" "y' = set_pc (main_pc y) Idle (y\<lparr>main_pc := main_pc y + 1\<rparr>)" using y' by auto
    have "pcs y ! main_pc y = Unborn" using i(1) m(1) by (simp add: threads_ok_def)
    then show ?thesis by (intro pc_inv_move [OF assms(1) m(1) sd, of Idle]) (use m(2) th in \<open>simp_all add: at_pc_def awake_def\<close>)
  qed
  show "pc_left q y' < pc_left q y" by (rule pc_left_same [OF sd work_main [OF i(1) assms(2)]])
qed

lemma pc_step_ok:
  assumes "pc_inv q y" and "pc_step q y y'"
  shows "pc_inv q y' \<and> pc_left q y' < pc_left q y"
  using assms(2)
proof cases
  case (pc_producer t w)
  then show ?thesis using thread_step_ok [OF assms(1), of t w y'] by (simp add: thread_step_def n_threads_def)
next
  case (pc_consumer t w)
  then show ?thesis using thread_step_ok [OF assms(1), of t w y'] by (simp add: thread_step_def)
next
  case pc_main
  then show ?thesis by (rule main_step_ok [OF assms(1)])
qed

lemma pc_step_thread: "t < n_threads q \<Longrightarrow> thread_step q t w y = Some y' \<Longrightarrow> pc_step q y y'"
  using pc_producer [of t q w y y'] pc_consumer [of q t w y y'] by (cases "t < n_prod q") (simp_all add: thread_step_def)

text \<open>A thread in its critical section can go on, and a thread before it can when the mutex is free.\<close>

lemma thread_can_step:
  assumes "pc_inv q y" and "t < n_threads q" and "holding (pcs y ! t) \<or> mutex y = None \<and> pcs y ! t \<in> {Idle, Woken}"
  shows "\<exists>y'. pc_step q y y'"
proof -
  have "\<exists>w y'. thread_step q t w y = Some y'"
  proof (cases "pcs y ! t")
    case Working
    obtain y1 where "(if t < n_prod q then put_item q t y else get_item q t y) = Some y1" by (rule work_step [OF assms(1,2) Working])
    then show ?thesis using Working by (simp add: thread_step_def producer_def consumer_def split: if_splits)
  next
    case Signalling
    have "\<exists>w y1. cond_signal lo hi w y = Some y1" for lo hi
      by (cases "waiters lo hi y") (simp_all add: cond_signal_def, metis)
    then show ?thesis using Signalling by (cases "t < n_prod q") (simp_all add: thread_step_def producer_def consumer_def)
  qed (use assms(3) in \<open>auto simp: thread_step_def producer_def consumer_def mutex_lock_def split: if_splits\<close>)
  then show ?thesis using pc_step_thread [OF assms(2)] by blast
qed

definition pc_ended :: "pcparams \<Rightarrow> pcsys \<Rightarrow> bool" where
  "pc_ended q y \<longleftrightarrow> main_pc y = 2 * n_threads q"

lemma nobody_stuck:
  assumes "pc_inv q y" and "0 < n_prod q" and "n_prod q < n_threads q" and "\<forall>t < n_threads q. pcs y ! t \<in> {Waiting, Done}"
  shows "\<forall>t < n_threads q. pcs y ! t = Done"
proof (rule ccontr)
  note i = pc_invE [OF assms(1)] and d = data_okD [OF pc_invE(2) [OF assms(1)]]
  assume "\<not> ?thesis"
  then obtain t where t: "t < n_threads q" "pcs y ! t = Waiting" using assms(4) by auto
  have all: "\<not> awake (pcs y ! s)" "pcs y ! s \<noteq> Signalling" if "s < n_threads q" for s using assms(4) that by (auto simp: awake_def)
  have get: "\<not> can_get q y" if "s \<in> consumers q" "pcs y ! s = Waiting" for s
    using i(5) that all i(7) by (force simp: sleep_ok_def producers_def consumers_def)
  have put: "\<not> can_put q y" if "s \<in> producers q" "pcs y ! s = Waiting" for s
    using i(4) that all i(7) by (force simp: sleep_ok_def producers_def consumers_def)
  have p0: "0 \<in> producers q" "pcs y ! 0 = Waiting \<or> N_ITEMS q \<le> n_produced y"
    using assms(2,3) assms(4) [rule_format, of 0] i(3) [of 0] by (auto simp: producers_def at_pc_def)
  have c0: "n_prod q \<in> consumers q" "pcs y ! n_prod q = Waiting \<or> N_ITEMS q \<le> n_consumed y"
    using assms(3) assms(4) [rule_format, of "n_prod q"] i(3) [of "n_prod q"] by (auto simp: consumers_def at_pc_def)
  show False
  proof (cases "t < n_prod q")
    case True
    then have "\<not> can_put q y" using put [of t] t(2) by (simp add: producers_def)
    then have "queue_len y = QUEUE_SIZE q" "n_produced y < N_ITEMS q" using d(6) by (simp_all add: can_put_def)
    then show False using c0 get d by (auto simp: can_get_def)
  next
    case False
    then have "\<not> can_get q y" using get [of t] t by (simp add: consumers_def)
    then have "queue_len y = 0" "n_consumed y < N_ITEMS q" using d(4) by (simp_all add: can_get_def)
    then show False using p0 put d by (auto simp: can_put_def)
  qed
qed

lemma pc_progress:
  assumes "pc_inv q y" and "0 < n_prod q" and "n_prod q < n_threads q" and "\<not> pc_ended q y"
  shows "\<exists>y'. pc_step q y y'"
proof (cases "\<exists>t < n_threads q. holding (pcs y ! t) \<or> mutex y = None \<and> pcs y ! t \<in> {Idle, Woken}")
  case True
  then show ?thesis using thread_can_step [OF assms(1)] by blast
next
  case False
  note i = pc_invE [OF assms(1)]
  have m: "mutex y = None"
  proof (rule ccontr)
    assume "mutex y \<noteq> None"
    then obtain t where "mutex y = Some t" "t < n_threads q" "holding (pcs y ! t)" using i(1) by (auto simp: threads_ok_def)
    then show False using False by blast
  qed
  have "\<exists>y'. main_step (n_threads q) y = Some y'"
  proof (cases "main_pc y < n_threads q")
    case True
    then show ?thesis by (simp add: main_step_def)
  next
    case born: False
    have "pcs y ! t \<in> {Waiting, Done}" if "t < n_threads q" for t
      using False m born i(1) that by (cases "pcs y ! t") (auto simp: threads_ok_def)
    then have "\<forall>t < n_threads q. pcs y ! t = Done" using nobody_stuck [OF assms(1-3)] by blast
    moreover have "main_pc y < 2 * n_threads q" using assms(4) i(1) by (simp add: pc_ended_def threads_ok_def)
    ultimately show ?thesis using born by (simp add: main_step_def)
  qed
  then show ?thesis by (auto intro: pc_main)
qed

text \<open>Arguments that make sense: somebody of each kind, room in the queue.\<close>

definition pc_valid :: "pcparams \<Rightarrow> bool" where
  "pc_valid q \<longleftrightarrow> 1 \<le> N_PRODUCERS q \<and> 1 \<le> N_CONSUMERS q \<and> 0 \<le> N_ITEMS q \<and> 1 \<le> QUEUE_SIZE q"

lemma pc_start_inv:
  assumes "pc_valid q" and "pc_start q y"
  shows "pc_inv q y"
  using assms by (auto simp: pc_valid_def pc_start_def pc_inv_def threads_ok_def data_ok_def at_pc_def sleep_ok_def producers_def consumers_def n_threads_def)

lemma pc_spurious_inv: "pc_inv q y \<Longrightarrow> pc_spurious y y' \<Longrightarrow> pc_inv q y'"
  by (auto elim!: pc_spurious.cases simp: spurious_def pc_invE(6) intro: pc_inv_wake split: if_splits)

interpretation pcprog: ending_program "\<lambda>y. pc_valid q \<and> pc_start q y" "pc_step q" pc_spurious "\<lambda>y. pc_valid q \<and> pc_inv q y" "pc_left q" "pc_ended q" for q
proof unfold_locales
  fix y y'
  show "pc_valid q \<and> pc_start q y \<Longrightarrow> pc_valid q \<and> pc_inv q y" using pc_start_inv by blast
  show "pc_valid q \<and> pc_inv q y \<Longrightarrow> pc_step q y y' \<or> pc_spurious y y' \<Longrightarrow> pc_valid q \<and> pc_inv q y'"
    using pc_step_ok pc_spurious_inv by blast
  show "pc_valid q \<and> pc_inv q y \<Longrightarrow> \<not> pc_ended q y \<Longrightarrow> \<exists>y'. pc_step q y y'"
    using pc_progress [of q y] by (auto simp: pc_valid_def n_prod_def n_threads_def)
  show "pc_valid q \<and> pc_inv q y \<Longrightarrow> pc_step q y y' \<Longrightarrow> pc_left q y' < pc_left q y" using pc_step_ok by blast
qed

section \<open>Results\<close>

definition pc_reachable :: "pcparams \<Rightarrow> pcsys \<Rightarrow> bool" where
  "pc_reachable q = reachable (\<lambda>y. pc_valid q \<and> pc_start q y) (\<lambda>y y'. pc_step q y y' \<or> pc_spurious y y')"

lemma pc_reachable_inv: "pc_reachable q y \<Longrightarrow> pc_valid q \<and> pc_inv q y"
  unfolding pc_reachable_def by (rule pcprog.reachable_inv)

lemma ended_done:
  assumes "pc_inv q y" and "pc_valid q" and "pc_ended q y"
  shows "got_log y = put_log y" "int (length (got_log y)) = N_ITEMS q"
proof -
  note i = pc_invE [OF assms(1)] and d = data_okD [OF pc_invE(2) [OF assms(1)]]
  have T: "0 < n_prod q" "n_prod q < n_threads q" using assms(2) by (simp_all add: pc_valid_def n_prod_def n_threads_def)
  have "pcs y ! n_prod q = Done" using i(1) assms(3) T by (simp add: threads_ok_def pc_ended_def)
  then have "N_ITEMS q \<le> n_consumed y" using i(3) [OF T(2)] by (simp add: at_pc_def)
  then have "queue_len y = 0" "n_consumed y = N_ITEMS q" using d by simp_all
  then show "got_log y = put_log y" "int (length (got_log y)) = N_ITEMS q" using i(2) by (simp_all add: data_ok_def)
qed

text \<open>
  C9. The producer/consumer program ends: with at least one producer, one consumer and room for one item in the
  queue, a run from a state it can reach has a bounded number of steps whatever the scheduler does, and a run that cannot
  go on has joined all threads. There is no deadlock and no lost wakeup. Waits that end without a signal may come before the run.
\<close>

theorem prodcons_terminates:
  assumes "pc_reachable q y" and "(pc_step q ^^ k) y y'"
  shows "k \<le> pc_left q y \<and> (pc_ended q y' \<or> (\<exists>z. pc_step q y' z))"
  using pcprog.runs_end [OF assms(1) [unfolded pc_reachable_def] assms(2)] by blast

text \<open>
  C12. In every state the producer/consumer program can reach, at most one thread is in its critical section, the items
  that were taken are the first ones that were put, in the same order, no more are in the queue than it has room for and no more than \<open>N_ITEMS\<close>
  were put; at the end exactly \<open>N_ITEMS\<close> were put and all were taken.
\<close>

theorem prodcons_fifo:
  assumes "pc_reachable q y"
  shows "\<exists>rest. put_log y = got_log y @ rest \<and> int (length rest) \<le> QUEUE_SIZE q \<and> int (length (put_log y)) \<le> N_ITEMS q \<and>
      (pc_ended q y \<longrightarrow> rest = [] \<and> int (length (got_log y)) = N_ITEMS q) \<and>
      (\<forall>s < n_threads q. \<forall>t < n_threads q. holding (pcs y ! s) \<longrightarrow> holding (pcs y ! t) \<longrightarrow> s = t)"
proof (intro exI conjI impI allI)
  have v: "pc_valid q" "pc_inv q y" using pc_reachable_inv [OF assms] by simp_all
  note i = pc_invE [OF v(2)] and d = data_okD [OF pc_invE(2) [OF v(2)]]
  show log: "put_log y = got_log y @ map (qcell q y) [0..<nat (queue_len y)]" using i(2) by (simp add: data_ok_def)
  show "int (length (map (qcell q y) [0..<nat (queue_len y)])) \<le> QUEUE_SIZE q" using d by simp
  show "int (length (put_log y)) \<le> N_ITEMS q" using i(2) unfolding data_ok_def by linarith
  show "map (qcell q y) [0..<nat (queue_len y)] = []" "int (length (got_log y)) = N_ITEMS q" if "pc_ended q y"
    using ended_done [OF v(2,1) that] log by simp_all
  fix s t assume st: "s < n_threads q" "t < n_threads q" "holding (pcs y ! s)" "holding (pcs y ! t)"
  show "s = t" using holder(1) [OF i(1) st(1,3)] holder(1) [OF i(1) st(2,4)] by simp
qed

definition small_pc :: pcparams where
  "small_pc = \<lparr>N_PRODUCERS = 1, N_CONSUMERS = 1, N_ITEMS = 3, QUEUE_SIZE = 2\<rparr>"

definition pc0 :: pcsys where
  "pc0 = \<lparr>mutex = None, pcs = [Unborn, Unborn], main_pc = 0, queue = [0, 0], queue_head = 0, queue_tail = 0, queue_len = 0, n_produced = 0, n_consumed = 0,
     infos = replicate 2 \<lparr>n_sleeps = 0, n_contribs = 0\<rparr>, put_log = [], got_log = []\<rparr>"

lemma pc0_reachable: "pc_reachable small_pc pc0"
  unfolding pc_reachable_def
  by (rule reach_start) (simp add: small_pc_def pc0_def pc_valid_def pc_start_def n_threads_def n_prod_def numeral_2_eq_2)

theorem prodcons_terminates_witness:
  "1 \<le> pc_left small_pc pc0 \<and> (pc_ended small_pc (pc0\<lparr>pcs := [Idle, Unborn], main_pc := 1\<rparr>) \<or> (\<exists>z. pc_step small_pc (pc0\<lparr>pcs := [Idle, Unborn], main_pc := 1\<rparr>) z))"
proof -
  have "pc_step small_pc pc0 (pc0\<lparr>pcs := [Idle, Unborn], main_pc := 1\<rparr>)"
    by (rule pc_main) (simp add: main_step_def small_pc_def pc0_def n_threads_def n_prod_def set_pc_def)
  then have "(pc_step small_pc ^^ 1) pc0 (pc0\<lparr>pcs := [Idle, Unborn], main_pc := 1\<rparr>)" by (simp add: eq_OO)
  from prodcons_terminates [OF pc0_reachable this] show ?thesis .
qed

text \<open>The first producer has put an item.\<close>

definition pc1 :: pcsys where
  "pc1 = pc0\<lparr>mutex := Some 0, pcs := [Signalling, Unborn], main_pc := 1, queue := [0, 0], queue_tail := 1, queue_len := 1, n_produced := 1,
     infos := [\<lparr>n_sleeps = 0, n_contribs = 1\<rparr>, \<lparr>n_sleeps = 0, n_contribs = 0\<rparr>], put_log := [0]\<rparr>"

lemma pc1_reachable: "pc_reachable small_pc pc1"
proof -
  let ?a = "pc0\<lparr>pcs := [Idle, Unborn], main_pc := 1\<rparr>"
  let ?b = "pc0\<lparr>mutex := Some 0, pcs := [Testing, Unborn], main_pc := 1\<rparr>" and ?c = "pc0\<lparr>mutex := Some 0, pcs := [Working, Unborn], main_pc := 1\<rparr>"
  note defs = small_pc_def pc0_def pc1_def n_threads_def n_prod_def set_pc_def main_step_def producer_def mutex_lock_def put_item_def add_contrib_def
    poke_def c_rem_def numeral_2_eq_2
  have "pc_step small_pc pc0 ?a" by (rule pc_main) (simp add: defs)
  moreover have "pc_step small_pc ?a ?b" by (rule pc_producer [of 0 _ 0]) (simp_all add: defs)
  moreover have "pc_step small_pc ?b ?c" by (rule pc_producer [of 0 _ 0]) (simp_all add: defs)
  moreover have "pc_step small_pc ?c pc1" by (rule pc_producer [of 0 _ 0]) (simp_all add: defs)
  ultimately show ?thesis using pc0_reachable unfolding pc_reachable_def by (blast intro: reach_next)
qed

theorem prodcons_fifo_witness: "\<exists>rest. put_log pc1 = got_log pc1 @ rest \<and> int (length rest) \<le> QUEUE_SIZE small_pc \<and> put_log pc1 = [0]"
proof -
  have "put_log pc1 = [0]" by (simp add: pc1_def)
  then show ?thesis using prodcons_fifo [OF pc1_reachable] by blast
qed

end
