(* ===== verification/Spec2Isabelle.thy ===== *)
theory Spec2Isabelle
  imports KArray KQueue Bitmap KThreadSys SynchSys Mksfs VfsTable KHeapSys ProdCons
begin

text \<open>
  A verification library for the OS/161 kernel under \<open>src/os161/kern\<close>, for the parts of the C library it links,
  for \<open>src/os161/sbin/mksfs\<close>, which makes its file systems, and for the program \<open>src/hw2/producer_consumer.c\<close>.

  \<^bold>\<open>The program.\<close> OS/161 is a small kernel for one MIPS processor. Threads (\<open>thread/thread.c\<close>) are
  switched by a round-robin scheduler (\<open>thread/scheduler.c\<close>) and block on addresses; semaphores,
  locks and condition variables (\<open>thread/synch.c\<close>) are built on sleeping and waking with interrupts
  off (\<open>arch/mips/mips/spl.c\<close>). The scheduler and the thread lists use the ring \<open>lib/queue.c\<close> and the
  array \<open>lib/array.c\<close>. Physical memory (\<open>arch/mips/mips/ram.c\<close>) is handed out in pages by
  \<open>arch/mips/mips/dumbvm.c\<close>, which also gives each program its address space, and \<open>lib/kheap.c\<close> cuts
  pages into the blocks of \<open>kmalloc\<close>. The VFS layer (\<open>fs/vfs\<close>) keeps a table of devices and mounted
  file systems and turns a path name into a vnode of one of them; a device is a vnode too
  (\<open>fs/vfs/device.c\<close>). The file system SFS (\<open>fs/sfs\<close>) keeps its free blocks in a bitmap
  (\<open>lib/bitmap.c\<close>), reaches the disk through the driver \<open>dev/lamebus/lhd.c\<close> and moves data with
  \<open>userprog/uio.c\<close> and \<open>lib/copyinout.c\<close>; its files and directories are vnodes (\<open>fs/vfs/vnode.c\<close>).
  The volumes it mounts are written by \<open>mksfs\<close>.

  \<^bold>\<open>Conventions.\<close> A C function is a function of the same name from its arguments and the state it
  uses to an \<open>option\<close>: \<open>None\<close> is a failed \<open>assert\<close>, a \<open>panic\<close> or undefined behaviour. An error code
  is the left side of \<open>errno + 'a\<close>, and the state is returned with it, so that what an error path
  leaves behind is visible. What \<open>kmalloc\<close> returns is an argument, so every allocation may fail. An
  \<open>int\<close> is an \<open>int\<close> with the range checked where it may overflow, an unsigned number a \<open>nat\<close> with the
  reduction modulo \<open>2 ^ 32\<close> written out, a byte an \<open>8 word\<close>. A loop is a recursive function over what
  is left to do; a function that calls itself through another carries a depth that is shown to be enough.

  \<^bold>\<open>Theories.\<close>
  \<^item> \<open>KPrelude\<close>: the types, the error monad and C arithmetic.
  \<^item> \<open>KArray\<close>, \<open>KQueue\<close>, \<open>Bitmap\<close>: the containers of \<open>lib\<close>, each with a representation invariant that
    every operation keeps, the abstraction to lists or sets, and a locale for its interface that is
    interpreted on the operations. The ring grows through a nested call; depth two is enough.
  \<^item> \<open>LibcMem\<close>: \<open>memcpy\<close>, \<open>memmove\<close> and \<open>bzero\<close> of the C library, with their word and byte loops; they equal
    the copy of a whole block in one step.
  \<^item> \<open>KThread\<close>, \<open>KThreadInv\<close>, \<open>KThreadSys\<close>: priorities, scheduler, threads and the clock tick. A thread
    switch stores where the thread goes on; \<open>dispatch\<close> is the switch to the next thread. The runs of the
    kernel are an inductive relation over these steps; in every reachable state each thread is in exactly
    one place, sleeping and waking do not run out of memory, and an assertion that may fail is exhibited.
  \<^item> \<open>Synch\<close>, \<open>SynchInv\<close>, \<open>SynchSys\<close>: the synchronization primitives as steps with continuations at the
    points where they sleep, over the thread system. Every run refines counting semaphores and mutual
    exclusion, and no wakeup is lost.
  \<^item> \<open>DumbVm\<close>, \<open>DumbVmInv\<close>: physical memory, address spaces, the TLB and the fault handler. The invariant
    gives every address space frames of its own, as long as no request is for \<open>2 ^ 19\<close> pages or more; it shows that
    \<open>vm_fault\<close> never maps a frame of another address space or of the kernel, and that a copied address space has the
    same contents. What a larger request does is shown too.
  \<^item> \<open>KHeap\<close>, \<open>KHeapInv\<close>, \<open>KHeapAlloc\<close>, \<open>KHeapSys\<close>: the kernel heap over the memory of \<open>DumbVm\<close>, with its free
    lists stored in the free blocks. In every state that requests within the bounds below reach, live blocks are disjoint and inside pages of
    their own, and neither \<open>kmalloc\<close> nor the \<open>kfree\<close> of a live block fails an assertion.
  \<^item> \<open>Uio\<close>: \<open>copyinout.c\<close> and \<open>uio.c\<close> with user memory as a partial map of bytes with permissions.
  \<^item> \<open>Lhd\<close>, \<open>SfsDisk\<close>: the disk driver with its card, whose reported status is a parameter; the on-disk
    structures with their byte layout, and block input and output with its retries.
  \<^item> \<open>SfsFile\<close>, \<open>SfsFileInv\<close>, \<open>SfsRead\<close>, \<open>SfsWrite\<close>, \<open>SfsTruncate\<close>: block allocation, the block map with one
    indirect block, reading, writing and truncation. A file is well formed when its blocks are distinct and
    in use; the contents of a file are defined from the disk, and reading and writing are related to them
    on a disk without faults. The static buffers of the code are local, so these theories describe one call at a time.
  \<^item> \<open>SfsDir\<close>: directories as finite maps from names to inode numbers.
  \<^item> \<open>SfsVnode\<close>, \<open>SfsVnodeInv\<close>: reference counts, the table of loaded vnodes, all vnode operations and the two
    function tables.
  \<^item> \<open>SfsFs\<close>, \<open>Mksfs\<close>: the free map on disk, sync, unmount and mount; \<open>mksfs\<close> as a function to the disk it writes,
    and that the kernel mounts this disk as an empty file system. The branches of \<open>mksfs\<close> for the host are left out.
  \<^item> \<open>VfsList\<close>, \<open>VfsPath\<close>: the device table and the path functions, over any file systems and vnodes given
    by their function tables, as the C code calls them.
  \<^item> \<open>VfsRefs\<close>: the balance of references, for every function table: each call of \<open>vfs_call\<close> (opening, closing, the path
    functions, the current and the boot directory, sync and unmount)
    hands back the references it takes, but for the one it returns or stores. The operations run on tables
    that count, and the rules of \<open>moves\<close> follow the code. \<open>vfs_adddev\<close>, \<open>vfs_addfs\<close> and \<open>vfs_mount\<close> are not among the calls;
    \<open>vfs_doadd\<close> leaks the vnode it made when it returns \<open>EEXIST\<close>.
  \<^item> \<open>Device\<close>, \<open>VfsKernel\<close>: device vnodes, the null device, the disk as a device, and the function tables of the kernel
    that join devices and SFS volumes; starting the VFS layer, attaching disks, mounting SFS.
  \<^item> \<open>VfsTable\<close>: what every run of the VFS layer keeps of the device table, and what the names in it mean; an example goes from
    \<open>vfs_bootstrap\<close> over attaching two disks to mounting a volume that \<open>mksfs\<close> made.
  \<^item> \<open>Pthread\<close>, \<open>ProdCons\<close>: mutex and condition variables as seen by a program, and the producer/consumer program
    of \<open>hw2\<close>, which ends under every scheduler and passes its items on in order.

  \<^bold>\<open>Bounds.\<close> A file has at most \<open>15 + 128\<close> blocks of 512 bytes and a directory at most 1144 slots, so the
  arithmetic of offsets stays far below \<open>2 ^ 31\<close>; the lemmas carry these bounds. Device retries are
  limited to ten by the code. The walks over the lists of the heap carry a fuel of one more than the number of page
  references, which no list without a cycle exceeds. The code does not check the size of a request for memory, and large ones
  wrap around at \<open>2 ^ 32\<close>, so the results about memory hold for requests below a limit: the steps \<open>ks_step\<close> of the heap
  are \<open>kmalloc\<close> of at most \<open>2 ^ 30\<close> bytes and page requests of the rest of the kernel for less than \<open>2 ^ 19\<close> pages; the
  steps \<open>vm_step\<close> of the virtual memory system are not limited, but isolation has the hypothesis \<open>requests_ok\<close> that no
  request so far was for \<open>2 ^ 19\<close> pages or more.
  The device table has fewer than \<open>2 ^ 28\<close> entries, so that its size in bytes fits a word.
  The steps of the producer/consumer program are bounded by the measure \<open>pc_left\<close>.

  \<^bold>\<open>Not modelled.\<close> The MIPS assembly, the exception path and the bus probing act on registers; of the trap
  path only the timer interrupt appears. The emulator file system and the serial, timer, screen, random and trace
  devices are programmed through card registers whose behaviour the sources do not define.
  The ELF loader, the kernel menu and the kernel tests, which call the modelled parts,
  are left out, as are the other programs of \<open>src/hw2\<close> and \<open>src/c_review\<close>, the exercises of \<open>asst1\<close>, whose synchronization is still to be written, and \<open>vm/addrspace.c\<close>,
  which is the unfinished replacement of \<open>dumbvm.c\<close>. Other user programs, the rest of the C library and the tools that run on the
  host are outside of the kernel. Text that is only printed is left out unless it is the result of a function.
\<close>

end
